(* ===== verification/Prelude.thy ===== *)
theory Prelude
  imports Main "HOL-Library.Char_ord" "HOL-Library.List_Lexorder"
    "HOL-Library.Product_Lexorder" "HOL-Library.Sublist" "HOL-Library.Multiset"
begin

text \<open>
  Shared vocabulary of the development: Python's strings, insertion-ordered dictionaries
  and results that carry an exception, with the lemmas every component uses.

  A Python \<open>str\<close> is a \<^typ>\<open>string\<close>: a list of characters, each a code point below 256.
  The same type stands for \<open>bytes\<close>. A Python \<open>dict\<close> whose order matters is an association list
  in insertion order.
\<close>

named_theorems chain_simps \<open>facts about hash chains and their heads\<close>
named_theorems fs_simps \<open>facts about the file system calls\<close>
named_theorems store_simps \<open>facts about table updates\<close>

section \<open>Results that carry an exception\<close>

text \<open>A call that may raise returns \<open>Inl e\<close> for the exception \<open>e\<close> and \<open>Inr x\<close> for the value.\<close>

type_synonym ('e, 'a) result = "'e + 'a"

definition rbind :: "('e, 'a) result \<Rightarrow> ('a \<Rightarrow> ('e, 'b) result) \<Rightarrow> ('e, 'b) result" where
  "rbind r f = (case r of Inl e \<Rightarrow> Inl e | Inr x \<Rightarrow> f x)"

lemma rbind_simps [simp]:
  "rbind (Inl e) f = Inl e"
  "rbind (Inr x) f = f x"
  by (simp_all add: rbind_def)

lemma rbind_eq_Inr [simp]: "rbind r f = Inr y \<longleftrightarrow> (\<exists>x. r = Inr x \<and> f x = Inr y)"
  by (cases r) auto

lemma rbind_eq_Inl: "rbind r f = Inl e \<longleftrightarrow> r = Inl e \<or> (\<exists>x. r = Inr x \<and> f x = Inl e)"
  by (cases r) auto

definition is_ok :: "('e, 'a) result \<Rightarrow> bool" where
  "is_ok r = (case r of Inl _ \<Rightarrow> False | Inr _ \<Rightarrow> True)"

lemma is_ok_simps [simp]: "is_ok (Inr x)" "\<not> is_ok (Inl e)"
  by (simp_all add: is_ok_def)

lemma is_ok_iff: "is_ok r \<longleftrightarrow> (\<exists>x. r = Inr x)"
  by (cases r) auto

section \<open>Strings\<close>

text \<open>\<open>s.split(sep)\<close> for a one-character separator.\<close>

fun py_split :: "char \<Rightarrow> string \<Rightarrow> string list" where
  "py_split sep [] = [[]]"
| "py_split sep (c # cs) =
     (if c = sep then [] # py_split sep cs
      else (case py_split sep cs of [] \<Rightarrow> [[c]] | w # ws \<Rightarrow> (c # w) # ws))"

text \<open>\<open>sep.join(parts)\<close>.\<close>

fun py_join :: "string \<Rightarrow> string list \<Rightarrow> string" where
  "py_join sep [] = []"
| "py_join sep [w] = w"
| "py_join sep (w # ws) = w @ sep @ py_join sep ws"

lemma py_split_nonempty [simp]: "py_split sep s \<noteq> []"
  by (induction s) (auto split: list.splits)

lemma py_join_Cons_nonempty: "ws \<noteq> [] \<Longrightarrow> py_join sep (w # ws) = w @ sep @ py_join sep ws"
  by (cases ws) auto

lemma py_join_split: "py_join [sep] (py_split sep s) = s"
proof (induction s)
  case Nil
  show ?case by simp
next
  case (Cons c cs)
  obtain w ws where "py_split sep cs = w # ws"
    by (cases "py_split sep cs") auto
  with Cons show ?case by (cases ws) auto
qed

lemma py_split_no_sep: "w \<in> set (py_split sep s) \<Longrightarrow> sep \<notin> set w"
  by (induction s arbitrary: w) (auto split: if_splits list.splits)

lemma set_py_join: "set (py_join sep ws) \<subseteq> set sep \<union> \<Union> (set ` set ws)"
  by (induction ws rule: py_join.induct) auto

lemma py_split_chars: "w \<in> set (py_split sep s) \<Longrightarrow> set w \<subseteq> set s"
proof (induction s arbitrary: w)
  case (Cons c s)
  obtain v vs where v: "py_split sep s = v # vs" by (cases "py_split sep s") auto
  with Cons have "w = [] \<or> w \<in> set (py_split sep s) \<or> w = c # v" by (auto split: if_splits)
  with Cons.IH [of w] Cons.IH [of v] v show ?case by auto
qed simp

lemma py_split_id: "sep \<notin> set s \<Longrightarrow> py_split sep s = [s]"
  by (induction s) auto

lemma py_split_append: "sep \<notin> set w \<Longrightarrow> py_split sep (w @ sep # s) = w # py_split sep s"
  by (induction w) auto

lemma py_split_join:
  "\<lbrakk> ws \<noteq> []; \<And>w. w \<in> set ws \<Longrightarrow> sep \<notin> set w \<rbrakk> \<Longrightarrow> py_split sep (py_join [sep] ws) = ws"
proof (induction ws)
  case Nil
  then show ?case by simp
next
  case (Cons w ws)
  then show ?case
    by (cases "ws = []") (simp_all add: py_split_id py_split_append py_join_Cons_nonempty)
qed

text \<open>\<open>s.startswith(p)\<close>, \<open>s.endswith(p)\<close> and \<open>p in s\<close>.\<close>

abbreviation startswith :: "string \<Rightarrow> string \<Rightarrow> bool" where
  "startswith s p \<equiv> prefix p s"

fun ends_with :: "string \<Rightarrow> string \<Rightarrow> bool" where
  "ends_with s p = (length p \<le> length s \<and> drop (length s - length p) s = p)"

fun contains :: "string \<Rightarrow> string \<Rightarrow> bool" where
  "contains [] p = (p = [])"
| "contains (c # cs) p = (prefix p (c # cs) \<or> contains cs p)"

lemma ends_with_append: "ends_with (u @ p) p"
  by simp

lemma contains_iff: "contains s p \<longleftrightarrow> (\<exists>u v. s = u @ p @ v)"
proof (induction s)
  case Nil
  show ?case by auto
next
  case (Cons c cs)
  have "(\<exists>u v. c # cs = u @ p @ v) \<longleftrightarrow>
      (\<exists>v. c # cs = p @ v) \<or> (\<exists>u v. cs = u @ p @ v)"
    by (metis (no_types, opaque_lifting) append_Cons append_Nil append_eq_Cons_conv)
  with Cons show ?case by (auto simp: prefix_def)
qed

text \<open>\<open>s.lstrip(cs)\<close>, \<open>s.rstrip(cs)\<close> and \<open>s.strip(cs)\<close> for a set of characters.\<close>

definition lstrip :: "string \<Rightarrow> string \<Rightarrow> string" where
  "lstrip cs s = dropWhile (\<lambda>c. c \<in> set cs) s"

definition rstrip :: "string \<Rightarrow> string \<Rightarrow> string" where
  "rstrip cs s = rev (dropWhile (\<lambda>c. c \<in> set cs) (rev s))"

definition strip :: "string \<Rightarrow> string \<Rightarrow> string" where
  "strip cs s = rstrip cs (lstrip cs s)"

lemma rstrip_id: "s = [] \<or> last s \<notin> set cs \<Longrightarrow> rstrip cs s = s"
  by (cases s rule: rev_cases) (auto simp: rstrip_def)

lemma lstrip_id: "s = [] \<or> hd s \<notin> set cs \<Longrightarrow> lstrip cs s = s"
  by (cases s) (auto simp: lstrip_def)

lemma rstrip_prefix: "\<exists>u. s = rstrip cs s @ u \<and> set u \<subseteq> set cs"
proof -
  have "s = rev (dropWhile (\<lambda>c. c \<in> set cs) (rev s)) @ rev (takeWhile (\<lambda>c. c \<in> set cs) (rev s))"
    by (metis rev_append rev_rev_ident takeWhile_dropWhile_id)
  moreover have "set (rev (takeWhile (\<lambda>c. c \<in> set cs) (rev s))) \<subseteq> set cs"
    by (auto dest: set_takeWhileD)
  ultimately show ?thesis unfolding rstrip_def by blast
qed

lemma rstrip_last: "rstrip cs s \<noteq> [] \<Longrightarrow> last (rstrip cs s) \<notin> set cs"
  unfolding rstrip_def
  by (metis (mono_tags, lifting) hd_dropWhile hd_rev rev_is_Nil_conv rev_rev_ident)

text \<open>\<open>s.lower()\<close>: on the code points below 256 the upper-case letters are A to Z and the
  Latin-1 letters 0xC0 to 0xDE except the multiplication sign 0xD7; each maps 32 up.\<close>

definition lower_char :: "char \<Rightarrow> char" where
  "lower_char c =
     (let n = (of_char c :: nat)
      in if (65 \<le> n \<and> n \<le> 90) \<or> (192 \<le> n \<and> n \<le> 222 \<and> n \<noteq> 215) then char_of (n + 32) else c)"

definition lower :: "string \<Rightarrow> string" where
  "lower s = map lower_char s"

lemma length_lower [simp]: "length (lower s) = length s"
  by (simp add: lower_def)

section \<open>Decimal numerals\<close>

text \<open>\<open>str(n)\<close> for integers.\<close>

fun nat_digits :: "nat \<Rightarrow> nat list" where
  "nat_digits n = (if n < 10 then [n] else nat_digits (n div 10) @ [n mod 10])"

declare nat_digits.simps [simp del]

definition digit_char :: "nat \<Rightarrow> char" where
  "digit_char d = char_of (48 + d)"

definition str_nat :: "nat \<Rightarrow> string" where
  "str_nat n = map digit_char (nat_digits n)"

definition str_int :: "int \<Rightarrow> string" where
  "str_int i = (if i < 0 then CHR ''-'' # str_nat (nat (- i)) else str_nat (nat i))"

definition is_digit :: "char \<Rightarrow> bool" where
  "is_digit c = (48 \<le> (of_char c :: nat) \<and> (of_char c :: nat) \<le> 57)"

definition read_nat :: "string \<Rightarrow> nat" where
  "read_nat s = foldl (\<lambda>acc c. 10 * acc + (of_char c - 48)) 0 s"

lemma nat_digits_bound: "d \<in> set (nat_digits n) \<Longrightarrow> d < 10"
proof (induction n arbitrary: d rule: nat_digits.induct)
  case (1 n)
  show ?case
    using "1.prems" "1.IH" by (cases "n < 10") (auto simp: nat_digits.simps [of n])
qed

lemma of_char_digit_char: "d < 10 \<Longrightarrow> (of_char (digit_char d) :: nat) = 48 + d"
  by (simp add: digit_char_def)

lemma str_nat_digit: "c \<in> set (str_nat n) \<Longrightarrow> is_digit c"
  by (auto simp: str_nat_def is_digit_def of_char_digit_char dest: nat_digits_bound)

lemma str_nat_nonempty [simp]: "str_nat n \<noteq> []"
  by (simp add: str_nat_def nat_digits.simps [of n])

lemma read_str_nat: "read_nat (str_nat n) = n"
proof (induction n rule: nat_digits.induct)
  case (1 n)
  show ?case
  proof (cases "n < 10")
    case True
    then show ?thesis
      by (simp add: read_nat_def str_nat_def nat_digits.simps [of n] of_char_digit_char)
  next
    case False
    then have "str_nat n = str_nat (n div 10) @ [digit_char (n mod 10)]"
      by (simp add: str_nat_def nat_digits.simps [of n])
    moreover have "read_nat (str_nat (n div 10)) = n div 10"
      using False "1.IH" by simp
    ultimately show ?thesis
      by (simp add: read_nat_def of_char_digit_char)
  qed
qed

lemma str_nat_inj [simp]: "str_nat m = str_nat n \<longleftrightarrow> m = n"
  by (metis read_str_nat)

lemma minus_not_digit [simp]: "\<not> is_digit (CHR ''-'')"
  by (simp add: is_digit_def)

lemma str_nat_no_minus: "str_nat n \<noteq> CHR ''-'' # s"
  by (metis list.set_intros(1) minus_not_digit str_nat_digit)

lemma str_int_inj [simp]: "str_int i = str_int j \<longleftrightarrow> i = j"
  using str_nat_no_minus str_nat_no_minus [symmetric] by (auto simp: str_int_def split: if_splits)

lemma str_int_nonempty [simp]: "str_int i \<noteq> []"
  by (simp add: str_int_def)

section \<open>Insertion-ordered dictionaries\<close>

text \<open>\<open>d[k] = v\<close>: in place when the key is there, at the end otherwise.\<close>

fun dict_set :: "'k \<Rightarrow> 'v \<Rightarrow> ('k \<times> 'v) list \<Rightarrow> ('k \<times> 'v) list" where
  "dict_set k v [] = [(k, v)]"
| "dict_set k v ((a, b) # d) = (if a = k then (k, v) # d else (a, b) # dict_set k v d)"

abbreviation dict_get :: "('k \<times> 'v) list \<Rightarrow> 'k \<Rightarrow> 'v option" where
  "dict_get d k \<equiv> map_of d k"

text \<open>\<open>d[k].append(x)\<close> on a \<open>defaultdict(list)\<close>.\<close>

definition dict_append :: "'k \<Rightarrow> 'a \<Rightarrow> ('k \<times> 'a list) list \<Rightarrow> ('k \<times> 'a list) list" where
  "dict_append k x d = dict_set k ((case dict_get d k of None \<Rightarrow> [] | Some xs \<Rightarrow> xs) @ [x]) d"

text \<open>The loop \<open>for x in xs: d[key(x)].append(x)\<close> from an empty dictionary.\<close>

definition group_by :: "('a \<Rightarrow> 'k) \<Rightarrow> 'a list \<Rightarrow> ('k \<times> 'a list) list" where
  "group_by key xs = fold (\<lambda>x d. dict_append (key x) x d) xs []"

lemma dict_get_set: "dict_get (dict_set k v d) = (dict_get d)(k \<mapsto> v)"
  by (induction d) (auto simp: fun_eq_iff)

lemma keys_dict_set: "fst ` set (dict_set k v d) = insert k (fst ` set d)"
  by (induction k v d rule: dict_set.induct) auto

lemma distinct_dict_set: "distinct (map fst d) \<Longrightarrow> distinct (map fst (dict_set k v d))"
proof (induction k v d rule: dict_set.induct)
  case (2 k v a b d)
  then show ?case
    using keys_dict_set [of k v d] by (auto simp flip: set_map)
qed simp

lemma group_by_fold:
  assumes "distinct (map fst d)"
  shows "distinct (map fst (fold (\<lambda>x d. dict_append (key x) x d) xs d))"
    and "dict_get (fold (\<lambda>x d. dict_append (key x) x d) xs d) k =
      (let new = filter (\<lambda>x. key x = k) xs
       in case dict_get d k of
            None \<Rightarrow> if new = [] then None else Some new
          | Some old \<Rightarrow> Some (old @ new))"
  using assms
  by (induction xs arbitrary: d)
    (auto simp: dict_append_def dict_get_set distinct_dict_set Let_def split: option.splits)

lemma distinct_group_by [simp]: "distinct (map fst (group_by key xs))"
  by (simp add: group_by_def group_by_fold)

lemma dict_get_group_by:
  "dict_get (group_by key xs) k =
     (let g = filter (\<lambda>x. key x = k) xs in if g = [] then None else Some g)"
  by (simp add: group_by_def group_by_fold)

lemma group_by_mem:
  "(k, g) \<in> set (group_by key xs) \<longleftrightarrow> g \<noteq> [] \<and> g = filter (\<lambda>x. key x = k) xs"
  by (simp add: map_of_eq_Some_iff [symmetric] dict_get_group_by Let_def) auto

lemma group_by_key: "(k, g) \<in> set (group_by key xs) \<Longrightarrow> x \<in> set g \<Longrightarrow> key x = k \<and> x \<in> set xs"
  by (simp add: group_by_mem)

section \<open>Least element by a key, first wins\<close>

text \<open>\<open>min(xs, key=f)\<close>: the first element with the least key. Python raises on an empty sequence;
  the callers pass a non-empty one.\<close>

fun min_by :: "('a \<Rightarrow> 'k::linorder) \<Rightarrow> 'a \<Rightarrow> 'a list \<Rightarrow> 'a" where
  "min_by f x [] = x"
| "min_by f x (y # ys) = (if f y < f x then min_by f y ys else min_by f x ys)"

lemma min_by_mem: "min_by f x xs \<in> set (x # xs)"
  by (induction xs arbitrary: x) auto

lemma min_by_le: "y \<in> set (x # xs) \<Longrightarrow> f (min_by f x xs) \<le> f y"
proof (induction xs arbitrary: x y)
  case Nil
  then show ?case by simp
next
  case (Cons a xs)
  have a: "f (min_by f a xs) \<le> f a" and x: "f (min_by f x xs) \<le> f x"
    by (rule Cons.IH; simp)+
  show ?case
  proof (cases "f a < f x")
    case True
    with a have "f (min_by f a xs) \<le> f x" by simp
    with True Cons show ?thesis by auto
  next
    case False
    with x have "f (min_by f x xs) \<le> f a" by simp
    with False Cons show ?thesis by auto
  qed
qed

section \<open>Lists\<close>

lemma filter_map_split: "filter P (map f xs) = map f (filter (P \<circ> f) xs)"
  by (simp add: filter_map)

lemma list_all_filter_id: "(\<And>x. x \<in> set xs \<Longrightarrow> P x) \<Longrightarrow> filter P xs = xs"
  by simp

lemma append_same_length: "length xs = length ys \<Longrightarrow> xs @ us = ys @ vs \<Longrightarrow> xs = ys \<and> us = vs"
  by simp

lemma split_first_separator:
  "\<lbrakk> u @ c # v = u' @ c # v'; c \<notin> set u; c \<notin> set u' \<rbrakk> \<Longrightarrow> u = u' \<and> v = v'"
proof (induction u arbitrary: u')
  case Nil
  then show ?case by (cases u') auto
next
  case (Cons a u)
  then show ?case by (cases u') auto
qed

lemma split_last_separator:
  assumes "u @ c # v = u' @ c # v'" "c \<notin> set v" "c \<notin> set v'"
  shows "u = u' \<and> v = v'"
proof -
  have "rev v @ c # rev u = rev v' @ c # rev u'"
    using arg_cong [OF assms(1), of rev] by simp
  with assms(2,3) have "rev v = rev v' \<and> rev u = rev u'"
    by (intro split_first_separator) auto
  then show ?thesis by simp
qed

end
