(* ===== verification/Json.thy ===== *)
theory Json
  imports Prelude
begin

text \<open>
  \<open>json.dumps(payload, sort_keys=True, separators=(",", ":"))\<close> and \<open>str.encode("utf-8")\<close> of the
  Python standard library, as the audit log and the signed jobs use them. The theory shows that
  the encoding is injective: two payloads with the same text are the same payload, up to the order
  of dictionary keys. What a signature or a chained hash covers is therefore every field.
\<close>

section \<open>Values and their text\<close>

datatype json =
    JNull
  | JBool bool
  | JInt int
  | JStr string
  | JList "json list"
  | JObj "(string \<times> json) list"

abbreviation quote_char :: char where
  "quote_char \<equiv> CHR 0x22"

abbreviation backslash :: char where
  "backslash \<equiv> CHR 0x5C"

definition hex_digit :: "nat \<Rightarrow> char" where
  "hex_digit n = (if n < 10 then char_of (48 + n) else char_of (87 + n))"

text \<open>One character of a JSON string, as \<open>ensure_ascii\<close> writes it.\<close>

definition json_escape :: "char \<Rightarrow> string" where
  "json_escape c =
     (let n = (of_char c :: nat) in
      if c = quote_char \<or> c = backslash then [backslash, c]
      else if n = 8 then [backslash, CHR ''b'']
      else if n = 9 then [backslash, CHR ''t'']
      else if n = 10 then [backslash, CHR ''n'']
      else if n = 12 then [backslash, CHR ''f'']
      else if n = 13 then [backslash, CHR ''r'']
      else if 32 \<le> n \<and> n \<le> 126 then [c]
      else [backslash, CHR ''u'', CHR ''0'', CHR ''0'', hex_digit (n div 16), hex_digit (n mod 16)])"

definition json_string :: "string \<Rightarrow> string" where
  "json_string s = quote_char # concat (map json_escape s) @ [quote_char]"

fun json_emit :: "json \<Rightarrow> string" where
  "json_emit JNull = ''null''"
| "json_emit (JBool b) = (if b then ''true'' else ''false'')"
| "json_emit (JInt i) = str_int i"
| "json_emit (JStr s) = json_string s"
| "json_emit (JList xs) = ''['' @ py_join '','' (map json_emit xs) @ '']''"
| "json_emit (JObj kvs) =
     ''{'' @ py_join '','' (map (\<lambda>kv. json_string (fst kv) @ '':'' @ json_emit (snd kv)) kvs) @ ''}''"

text \<open>\<open>sort_keys=True\<close>: every dictionary in key order, at every level.\<close>

fun json_sorted :: "json \<Rightarrow> json" where
  "json_sorted (JList xs) = JList (map json_sorted xs)"
| "json_sorted (JObj kvs) = JObj (sort_key fst (map (\<lambda>kv. (fst kv, json_sorted (snd kv))) kvs))"
| "json_sorted v = v"

definition json_dumps :: "json \<Rightarrow> string" where
  "json_dumps v = json_emit (json_sorted v)"

text \<open>\<open>s.encode("utf-8")\<close> for code points below 256.\<close>

definition utf8_char :: "char \<Rightarrow> string" where
  "utf8_char c =
     (let n = (of_char c :: nat)
      in if n < 128 then [c] else [char_of (192 + n div 64), char_of (128 + n mod 64)])"

definition utf8 :: "string \<Rightarrow> string" where
  "utf8 s = concat (map utf8_char s)"

section \<open>Strings decode uniquely\<close>

definition unhex :: "char \<Rightarrow> nat" where
  "unhex c = (let n = of_char c in if n < 58 then n - 48 else n - 87)"

lemma unhex_hex_digit: "n < 16 \<Longrightarrow> unhex (hex_digit n) = n"
  by (simp add: unhex_def hex_digit_def Let_def)

text \<open>The inverse of \<^const>\<open>json_escape\<close>: reads one character off the front of a text.\<close>

fun json_unescape :: "string \<Rightarrow> char \<times> string" where
  "json_unescape (a # b # c # d # e # f # r) =
     (if a \<noteq> backslash then (a, b # c # d # e # f # r)
      else if b = CHR ''b'' then (char_of (8::nat), c # d # e # f # r)
      else if b = CHR ''t'' then (char_of (9::nat), c # d # e # f # r)
      else if b = CHR ''n'' then (char_of (10::nat), c # d # e # f # r)
      else if b = CHR ''f'' then (char_of (12::nat), c # d # e # f # r)
      else if b = CHR ''r'' then (char_of (13::nat), c # d # e # f # r)
      else if b = CHR ''u'' then (char_of (16 * unhex e + unhex f), r)
      else (b, c # d # e # f # r))"
| "json_unescape _ = (char_of (0::nat), [])"

lemma hex_of_char: "char_of (16 * unhex (hex_digit (of_char c div 16)) + unhex (hex_digit (of_char c mod 16))) = c"
proof -
  have lt: "of_char c < (256::nat)" by simp
  then have "(of_char c :: nat) div 16 < 16" by linarith
  then show ?thesis by (simp add: unhex_hex_digit)
qed

lemma json_unescape_escape: "5 \<le> length r \<Longrightarrow> json_unescape (json_escape c @ r) = (c, r)"
proof -
  assume "5 \<le> length r"
  then obtain a b d e f s where r: "r = a # b # d # e # f # s"
    by (auto simp: numeral_eq_Suc Suc_le_length_iff)
  have eq: "c = char_of n" if "of_char c = n" for n :: nat
    using that by auto
  show ?thesis
    unfolding r json_escape_def Let_def
    by (simp add: hex_of_char) (auto dest!: eq)
qed

lemma json_escape_inj:
  assumes "json_escape c @ r = json_escape d @ s"
  shows "c = d \<and> r = s"
proof -
  have "json_unescape (json_escape c @ r @ replicate 5 c) = (c, r @ replicate 5 c)"
    and "json_unescape (json_escape d @ s @ replicate 5 c) = (d, s @ replicate 5 c)"
    by (rule json_unescape_escape; simp)+
  with assms show ?thesis by (metis append.assoc append_same_eq prod.inject)
qed

lemma json_escape_not_quote: "json_escape c @ r \<noteq> quote_char # s"
  by (auto simp: json_escape_def Let_def)

lemma json_string_inj:
  assumes "json_string s @ r = json_string t @ r'"
  shows "s = t \<and> r = r'"
proof -
  have "concat (map json_escape s) @ quote_char # r = concat (map json_escape t) @ quote_char # r'
    \<Longrightarrow> s = t \<and> r = r'"
  proof (induction s arbitrary: t)
    case Nil
    then show ?case using json_escape_not_quote by (cases t) (auto, metis)
  next
    case (Cons c s)
    show ?case
    proof (cases t)
      case Nil
      then show ?thesis using Cons.prems json_escape_not_quote by auto
    next
      case (Cons d t')
      with Cons.prems have "c = d \<and> concat (map json_escape s) @ quote_char # r =
          concat (map json_escape t') @ quote_char # r'"
        by (intro json_escape_inj) simp
      with Cons Cons.IH show ?thesis by blast
    qed
  qed
  with assms show ?thesis by (simp add: json_string_def)
qed

section \<open>Values decode uniquely\<close>

text \<open>What may follow a value inside a larger text: nothing, a comma or a closing bracket.\<close>

definition json_stop :: "string \<Rightarrow> bool" where
  "json_stop r \<longleftrightarrow> r = [] \<or> hd r \<in> {CHR '','', CHR '']'', CHR ''}''}"

lemma json_stop_simps [simp]:
  "json_stop []"
  "json_stop (c # r) \<longleftrightarrow> c \<in> {CHR '','', CHR '']'', CHR ''}''}"
  by (simp_all add: json_stop_def)

definition int_char :: "char \<Rightarrow> bool" where
  "int_char c \<longleftrightarrow> is_digit c \<or> c = CHR ''-''"

lemma str_int_chars: "c \<in> set (str_int i) \<Longrightarrow> int_char c"
  by (auto simp: str_int_def int_char_def dest: str_nat_digit split: if_splits)

lemma str_int_stop:
  assumes "json_stop r" "json_stop r'" "str_int i @ r = str_int j @ r'"
  shows "i = j \<and> r = r'"
proof -
  have stop: "takeWhile int_char (str_int k @ q) = str_int k" if "json_stop q" for k q
    using that by (cases q) (auto simp: takeWhile_append int_char_def is_digit_def dest: str_int_chars)
  then have "str_int i = str_int j" using assms by metis
  with assms show ?thesis by simp
qed

lemma hd_json_emit:
  "json_emit v \<noteq> []"
  "hd (json_emit v) = CHR ''n'' \<longleftrightarrow> v = JNull"
  "hd (json_emit v) = CHR ''t'' \<longleftrightarrow> v = JBool True"
  "hd (json_emit v) = CHR ''f'' \<longleftrightarrow> v = JBool False"
  "hd (json_emit v) = quote_char \<longleftrightarrow> (\<exists>s. v = JStr s)"
  "hd (json_emit v) = CHR ''['' \<longleftrightarrow> (\<exists>xs. v = JList xs)"
  "hd (json_emit v) = CHR ''{'' \<longleftrightarrow> (\<exists>kvs. v = JObj kvs)"
  "int_char (hd (json_emit v)) \<longleftrightarrow> (\<exists>i. v = JInt i)"
proof -
  have int: "int_char (hd (str_int i))" for i
    by (rule str_int_chars [of _ i]) simp
  have clash: "hd (str_int i) \<noteq> CHR ''n''" "hd (str_int i) \<noteq> CHR ''t''" "hd (str_int i) \<noteq> CHR ''f''"
    "hd (str_int i) \<noteq> quote_char" "hd (str_int i) \<noteq> CHR ''[''" "hd (str_int i) \<noteq> CHR ''{''" for i
    using int [of i] by (auto simp: int_char_def is_digit_def)
  have chars: "\<not> int_char (CHR ''n'')" "\<not> int_char (CHR ''t'')" "\<not> int_char (CHR ''f'')"
    "\<not> int_char quote_char" "\<not> int_char (CHR ''['')" "\<not> int_char (CHR ''{'')"
    by (simp_all add: int_char_def is_digit_def)
  show "json_emit v \<noteq> []"
    "hd (json_emit v) = CHR ''n'' \<longleftrightarrow> v = JNull"
    "hd (json_emit v) = CHR ''t'' \<longleftrightarrow> v = JBool True"
    "hd (json_emit v) = CHR ''f'' \<longleftrightarrow> v = JBool False"
    "hd (json_emit v) = quote_char \<longleftrightarrow> (\<exists>s. v = JStr s)"
    "hd (json_emit v) = CHR ''['' \<longleftrightarrow> (\<exists>xs. v = JList xs)"
    "hd (json_emit v) = CHR ''{'' \<longleftrightarrow> (\<exists>kvs. v = JObj kvs)"
    "int_char (hd (json_emit v)) \<longleftrightarrow> (\<exists>i. v = JInt i)"
    by (cases v; simp add: json_string_def int clash chars; fail)+
qed

lemma json_emit_no_stop: "hd (json_emit v) \<notin> {CHR '','', CHR '']'', CHR ''}''}"
  using hd_json_emit(8) [of v]
  by (cases v) (auto simp: json_string_def int_char_def is_digit_def)

lemma py_join_stop_inj:
  assumes enc: "\<And>x y r r'. \<lbrakk> x \<in> set xs; json_stop r; json_stop r'; e x @ r = e y @ r' \<rbrakk> \<Longrightarrow> x = y \<and> r = r'"
    and start: "\<And>y. e y \<noteq> []" "\<And>y. hd (e y) \<notin> {CHR '','', CHR '']'', CHR ''}''}"
    and close: "close \<in> {CHR '']'', CHR ''}''}"
    and eq: "py_join '','' (map e xs) @ close # r = py_join '','' (map e ys) @ close # r'"
  shows "xs = ys \<and> r = r'"
  using enc eq
proof (induction xs arbitrary: ys)
  case Nil
  show ?case
  proof (cases ys)
    case Nil
    with \<open>py_join _ (map e []) @ _ = _\<close> show ?thesis by simp
  next
    case (Cons y ys')
    with Nil.prems(2) have "hd (e y) = close"
      using start(1) [of y] by (cases ys') (auto dest!: arg_cong [where f = hd])
    then show ?thesis using start(2) [of y] close by auto
  qed
next
  case (Cons x xs)
  define rest where "rest zs q = (if zs = [] then close # q else '','' @ py_join '','' (map e zs) @ close # q)"
    for zs q
  have join: "py_join '','' (map e (z # zs)) @ close # q = e z @ rest zs q" for z zs q
    by (cases zs) (auto simp: rest_def)
  have stop: "json_stop (rest zs q)" for zs q
    using close by (auto simp: rest_def)
  show ?case
  proof (cases ys)
    case Nil
    with Cons.prems(2) join have "e x @ rest xs r = close # r'" by simp
    then have "hd (e x) = close" using start(1) by (metis hd_append2 list.sel(1))
    then show ?thesis using start(2) close by auto
  next
    case (Cons y ys')
    with Cons.prems(2) have "e x @ rest xs r = e y @ rest ys' r'" by (simp only: join)
    with Cons.prems(1) [of x "rest xs r" "rest ys' r'" y] stop
    have xy: "x = y" and tl: "rest xs r = rest ys' r'" by auto
    have "xs = ys' \<and> r = r'"
    proof (cases "xs = [] \<or> ys' = []")
      case True
      then show ?thesis using tl close by (auto simp: rest_def split: if_splits)
    next
      case False
      with tl have "py_join '','' (map e xs) @ close # r = py_join '','' (map e ys') @ close # r'"
        by (simp add: rest_def)
      then show ?thesis
        by (rule Cons.IH [rotated]) (use Cons.prems(1) in auto)
    qed
    with xy Cons show ?thesis by simp
  qed
qed

lemma json_emit_same_hd:
  "json_emit v @ r = json_emit w @ r' \<Longrightarrow> hd (json_emit w) = hd (json_emit v)"
  using hd_json_emit(1) [of v] hd_json_emit(1) [of w] by (metis hd_append2)

lemma json_emit_stop:
  "\<lbrakk> json_stop r; json_stop r'; json_emit v @ r = json_emit w @ r' \<rbrakk> \<Longrightarrow> v = w \<and> r = r'"
proof (induction v arbitrary: w r r')
  case JNull
  then show ?case using json_emit_same_hd [OF JNull(3)] hd_json_emit(2) [of w] by auto
next
  case (JBool b)
  then show ?case
    using json_emit_same_hd [OF JBool(3)] hd_json_emit(3,4) [of w] by (auto split: if_splits)
next
  case (JInt i)
  have "int_char (hd (json_emit (JInt i)))" by (simp only: hd_json_emit(8)) blast
  with json_emit_same_hd [OF JInt(3)] obtain j where "w = JInt j"
    using hd_json_emit(8) [of w] by auto
  with JInt str_int_stop show ?case by auto
next
  case (JStr s)
  then obtain t where "w = JStr t"
    using json_emit_same_hd [OF JStr(3)] hd_json_emit(5) [of w] by (auto simp: json_string_def)
  with JStr.prems show ?case using json_string_inj [of s r t r'] by auto
next
  case (JList xs)
  then obtain ys where w: "w = JList ys"
    using json_emit_same_hd [OF JList.prems(3)] hd_json_emit(6) [of w] by auto
  have "xs = ys \<and> r = r'"
  proof (rule py_join_stop_inj [where e = json_emit and close = "CHR '']''"])
    show "py_join '','' (map json_emit xs) @ CHR '']'' # r = py_join '','' (map json_emit ys) @ CHR '']'' # r'"
      using JList.prems w by simp
  qed (use JList.IH hd_json_emit(1) json_emit_no_stop in auto)
  with w show ?case by simp
next
  case (JObj kvs)
  then obtain kws where w: "w = JObj kws"
    using json_emit_same_hd [OF JObj.prems(3)] hd_json_emit(7) [of w] by auto
  let ?e = "\<lambda>kv. json_string (fst kv) @ '':'' @ json_emit (snd kv)"
  have "kvs = kws \<and> r = r'"
  proof (rule py_join_stop_inj [where e = ?e and close = "CHR ''}''"])
    fix x y q q'
    assume x: "x \<in> set kvs" and q: "json_stop q" "json_stop q'" and eq: "?e x @ q = ?e y @ q'"
    from eq have "fst x = fst y \<and> json_emit (snd x) @ q = json_emit (snd y) @ q'"
      using json_string_inj [of "fst x" _ "fst y"] by auto
    with JObj.IH [of x "snd x"] x q show "x = y \<and> q = q'"
      by (cases x; cases y) (auto simp: snds.simps)
  next
    show "py_join '','' (map ?e kvs) @ CHR ''}'' # r = py_join '','' (map ?e kws) @ CHR ''}'' # r'"
      using JObj.prems w by simp
  qed (auto simp: json_string_def)
  with w show ?case by simp
qed

theorem json_dumps_inj: "json_dumps v = json_dumps w \<longleftrightarrow> json_sorted v = json_sorted w"
  using json_emit_stop [of "[]" "[]" "json_sorted v" "json_sorted w"] by (auto simp: json_dumps_def)

section \<open>The text is printable ASCII\<close>

definition printable :: "char \<Rightarrow> bool" where
  "printable c \<longleftrightarrow> 32 \<le> (of_char c :: nat) \<and> (of_char c :: nat) \<le> 126"

lemma hex_digit_printable: "n < 16 \<Longrightarrow> printable (hex_digit n)"
  by (simp add: printable_def hex_digit_def)

lemma json_escape_printable: "x \<in> set (json_escape c) \<Longrightarrow> printable x"
proof -
  have "(of_char c :: nat) div 16 < 16"
    by (simp add: div_less_iff_less_mult)
  moreover assume "x \<in> set (json_escape c)"
  ultimately show ?thesis
    by (auto simp: json_escape_def Let_def hex_digit_printable split: if_splits) (auto simp: printable_def)
qed

lemma json_string_printable: "x \<in> set (json_string s) \<Longrightarrow> printable x"
  by (auto simp: json_string_def dest: json_escape_printable) (auto simp: printable_def)

lemma json_emit_printable: "x \<in> set (json_emit v) \<Longrightarrow> printable x"
proof (induction v arbitrary: x)
  case (JInt i)
  then have "int_char x" by (simp add: str_int_chars)
  then show ?case by (auto simp: int_char_def is_digit_def printable_def)
next
  case (JStr s)
  then show ?case by (simp add: json_string_printable)
next
  case (JList xs)
  then show ?case
    using set_py_join [of "'',''" "map json_emit xs"] by (auto simp: printable_def)
next
  case (JObj kvs)
  have "x \<in> {CHR ''{'', CHR ''}'', CHR '','', CHR '':''} \<or>
      (\<exists>kv \<in> set kvs. x \<in> set (json_string (fst kv)) \<or> x \<in> set (json_emit (snd kv)))"
    using JObj.prems
      set_py_join [of "'',''" "map (\<lambda>kv. json_string (fst kv) @ '':'' @ json_emit (snd kv)) kvs"]
    by (fastforce split: if_splits)
  then show ?case
    using JObj.IH json_string_printable by (auto simp: printable_def)
qed (auto simp: printable_def split: if_splits)

lemma json_dumps_printable: "x \<in> set (json_dumps v) \<Longrightarrow> printable x"
  by (simp add: json_dumps_def json_emit_printable)

lemma json_dumps_no_nul: "char_of (0::nat) \<notin> set (json_dumps v)"
  using json_dumps_printable by (force simp: printable_def)

lemma utf8_ascii: "(\<And>x. x \<in> set s \<Longrightarrow> printable x) \<Longrightarrow> utf8 s = s"
  by (induction s) (simp_all add: utf8_def utf8_char_def printable_def Let_def le_less_trans [of _ 126])

lemma utf8_json_dumps [simp]: "utf8 (json_dumps v) = json_dumps v"
  by (intro utf8_ascii json_dumps_printable)

lemma json_dumps_nonempty [simp]: "json_dumps v \<noteq> []"
  by (simp add: json_dumps_def hd_json_emit(1))

section \<open>Fields of a dictionary and bytes of a string\<close>

text \<open>Two dictionaries written with the same keys agree field by field when their texts do.\<close>

lemma json_obj_fields:
  assumes "json_sorted (JObj kvs) = json_sorted (JObj kws)"
    and keys: "map fst kvs = map fst kws" "distinct (map fst kvs)"
  shows "map (json_sorted \<circ> snd) kvs = map (json_sorted \<circ> snd) kws"
proof -
  let ?f = "\<lambda>kv. (fst kv, json_sorted (snd kv))"
  from assms(1) have "sort_key fst (map ?f kvs) = sort_key fst (map ?f kws)" by simp
  from arg_cong [OF this, of set] have sets: "set (map ?f kvs) = set (map ?f kws)"
    by (simp only: set_sort)
  have len: "length kvs = length kws" using keys(1) map_eq_imp_length_eq by blast
  show ?thesis
  proof (rule nth_equalityI)
    fix i
    assume i: "i < length (map (json_sorted \<circ> snd) kvs)"
    then have "?f (kvs ! i) \<in> set (map ?f kws)" unfolding sets [symmetric] by simp
    then obtain j where j: "j < length kws" "?f (kws ! j) = ?f (kvs ! i)"
      by (auto simp: in_set_conv_nth)
    have "map fst kws ! j = map fst kws ! i"
      using j i len keys(1) by (metis length_map nth_map prod.inject)
    with j i len keys have "j = i"
      by (metis length_map nth_eq_iff_index_eq)
    with j i len show "map (json_sorted \<circ> snd) kvs ! i = map (json_sorted \<circ> snd) kws ! i" by simp
  qed (simp add: len)
qed

lemma json_dumps_obj_fields:
  assumes "json_dumps (JObj kvs) = json_dumps (JObj kws)" "map fst kvs = map fst kws" "distinct (map fst kvs)"
  shows "map (json_sorted \<circ> snd) kvs = map (json_sorted \<circ> snd) kws"
  using assms json_obj_fields json_dumps_inj by blast

lemma json_dumps_obj_keys:
  assumes "json_dumps (JObj kvs) = json_dumps (JObj kws)"
  shows "fst ` set kvs = fst ` set kws"
proof -
  let ?f = "\<lambda>kv. (fst kv, json_sorted (snd kv))"
  have "sort_key fst (map ?f kvs) = sort_key fst (map ?f kws)"
    using assms by (simp add: json_dumps_inj)
  from arg_cong [OF this, of set] have "fst ` set (map ?f kvs) = fst ` set (map ?f kws)"
    by (simp only: set_sort)
  then show ?thesis by (simp add: image_image)
qed

text \<open>The inverse of \<^const>\<open>utf8_char\<close>: reads one character off the front of the bytes.\<close>

fun utf8_read :: "string \<Rightarrow> char \<times> string" where
  "utf8_read (a # b # r) =
     (if (of_char a :: nat) < 128 then (a, b # r)
      else (char_of ((of_char a - 192) * 64 + (of_char b - 128) :: nat), r))"
| "utf8_read s = (char_of (0::nat), [])"

lemma utf8_read_char: "r \<noteq> [] \<Longrightarrow> utf8_read (utf8_char c @ r) = (c, r)"
proof -
  assume "r \<noteq> []"
  then obtain b q where r: "r = b # q" by (cases r) auto
  have "(of_char c :: nat) div 64 < 4" by (simp add: div_less_iff_less_mult)
  then show ?thesis by (simp add: r utf8_char_def Let_def)
qed

lemma utf8_inj [simp]: "utf8 s = utf8 t \<longleftrightarrow> s = t"
proof
  have "concat (map utf8_char s) = concat (map utf8_char t) \<Longrightarrow> s = t"
  proof (induction s arbitrary: t)
    case Nil
    then show ?case by (cases t) (auto simp: utf8_char_def Let_def split: if_splits)
  next
    case (Cons c s)
    then obtain d t' where t: "t = d # t'"
      by (cases t) (auto simp: utf8_char_def Let_def split: if_splits)
    let ?b = "\<lambda>u. concat (map utf8_char u) @ [c]"
    have "utf8_char c @ ?b s = utf8_char d @ ?b t'" using Cons.prems t by simp
    moreover have "utf8_read (utf8_char c @ ?b s) = (c, ?b s)" "utf8_read (utf8_char d @ ?b t') = (d, ?b t')"
      by (rule utf8_read_char; simp)+
    ultimately have "c = d" "?b s = ?b t'" by (metis prod.inject)+
    with Cons.IH t show ?case by simp
  qed
  then show "utf8 s = utf8 t \<Longrightarrow> s = t" by (simp add: utf8_def)
qed simp

end
