(* ===== verification/Audit_Log.thy ===== *)
theory Audit_Log
  imports Json
begin

text \<open>
  The hash-chained audit log of \<open>core/audit.py\<close>: the record, its canonical text, the chain that
  builds records onto a head, and the verifier.

  \<open>blake3\<close> is a package the repository only calls, so the digest is the parameter \<open>H\<close>: a function
  from the bytes fed to the hasher to the hexadecimal digest. Where a statement needs digests to
  differ, it says so as "or two different inputs have the same digest".

  A chain keeps its head, the records its sink has taken, and a clock. The sink is a callback that
  may raise (the agent's sink writes a file): \<open>ch_accepts\<close> says whether it takes a record.
\<close>

section \<open>Records\<close>

record audit_record =
  ar_ts :: string
  ar_actor :: string
  ar_action :: string
  ar_target :: string
  ar_before_state :: "(string \<times> json) list"
  ar_result :: string
  ar_prev_hash :: string
  ar_row_hash :: string

definition GENESIS_HASH :: string where
  "GENESIS_HASH = replicate 64 (CHR ''0'')"

definition canonical ::
    "string \<Rightarrow> string \<Rightarrow> string \<Rightarrow> string \<Rightarrow> (string \<times> json) list \<Rightarrow> string \<Rightarrow> string" where
  "canonical ts actor action target before_state result = json_dumps (JObj
     [(''ts'', JStr ts), (''actor'', JStr actor), (''action'', JStr action),
      (''target'', JStr target), (''before_state'', JObj before_state), (''result'', JStr result)])"

definition compute_row_hash :: "(string \<Rightarrow> string) \<Rightarrow> string \<Rightarrow> string \<Rightarrow> string" where
  "compute_row_hash H prev_hash payload = H (utf8 prev_hash @ [char_of (0::nat)] @ utf8 payload)"

definition record_payload :: "audit_record \<Rightarrow> string" where
  "record_payload r = canonical (ar_ts r) (ar_actor r) (ar_action r) (ar_target r)
     (ar_before_state r) (ar_result r)"

definition rechain :: "(string \<Rightarrow> string) \<Rightarrow> audit_record \<Rightarrow> string \<Rightarrow> audit_record" where
  "rechain H r prev_hash =
     (let payload = record_payload r; row_hash = compute_row_hash H prev_hash payload
      in \<lparr>ar_ts = ar_ts r, ar_actor = ar_actor r, ar_action = ar_action r, ar_target = ar_target r,
          ar_before_state = ar_before_state r, ar_result = ar_result r,
          ar_prev_hash = prev_hash, ar_row_hash = row_hash\<rparr>)"

section \<open>The chain\<close>

record audit_chain =
  ch_log :: "audit_record list"
  ch_accepts :: "audit_record list \<Rightarrow> audit_record \<Rightarrow> bool"
  ch_head :: string
  ch_now :: "nat \<Rightarrow> string"
  ch_calls :: nat

text \<open>\<open>self.sink(record); self.head = row_hash\<close>: when the sink raises the head is not advanced.\<close>

definition emit_record :: "audit_chain \<Rightarrow> audit_record \<Rightarrow> audit_record option \<times> audit_chain" where
  "emit_record ch r =
     (if ch_accepts ch (ch_log ch) r
      then (Some r, ch\<lparr>ch_log := ch_log ch @ [r], ch_head := ar_row_hash r\<rparr>)
      else (None, ch))"

definition audit_append ::
    "(string \<Rightarrow> string) \<Rightarrow> audit_chain \<Rightarrow> string \<Rightarrow> string \<Rightarrow> string \<Rightarrow> (string \<times> json) list \<Rightarrow> string
      \<Rightarrow> audit_record option \<times> audit_chain" where
  "audit_append H ch actor action target before_state result =
     (let ts = ch_now ch (ch_calls ch);
          ch = ch\<lparr>ch_calls := Suc (ch_calls ch)\<rparr>;
          payload = canonical ts actor action target before_state result;
          row_hash = compute_row_hash H (ch_head ch) payload
      in emit_record ch
          \<lparr>ar_ts = ts, ar_actor = actor, ar_action = action, ar_target = target,
           ar_before_state = before_state, ar_result = result,
           ar_prev_hash = ch_head ch, ar_row_hash = row_hash\<rparr>)"

definition audit_splice ::
    "(string \<Rightarrow> string) \<Rightarrow> audit_chain \<Rightarrow> audit_record \<Rightarrow> audit_record option \<times> audit_chain" where
  "audit_splice H ch r = emit_record ch (rechain H r (ch_head ch))"

definition append_preview_access ::
    "(string \<Rightarrow> string) \<Rightarrow> audit_chain \<Rightarrow> string \<Rightarrow> string \<Rightarrow> int \<Rightarrow> string \<Rightarrow> string \<Rightarrow> bool
      \<Rightarrow> audit_record option \<times> audit_chain" where
  "append_preview_access H ch actor role entry_id preview_type sandbox_job_id cache_hit =
     audit_append H ch actor ''preview.access'' (str_int entry_id)
       [(''role'', JStr role), (''type'', JStr preview_type),
        (''sandbox_job_id'', JStr sandbox_job_id), (''cache_hit'', JBool cache_hit)] ''served''"

fun verify_chain :: "(string \<Rightarrow> string) \<Rightarrow> string \<Rightarrow> audit_record list \<Rightarrow> bool" where
  "verify_chain H prev [] = True"
| "verify_chain H prev (r # rs) =
     (if ar_prev_hash r \<noteq> prev then False
      else
        let payload = canonical (ar_ts r) (ar_actor r) (ar_action r) (ar_target r)
              (ar_before_state r) (ar_result r)
        in if compute_row_hash H prev payload \<noteq> ar_row_hash r then False
           else verify_chain H (ar_row_hash r) rs)"

section \<open>Chains are unbroken\<close>

text \<open>The head a chain that starts at \<open>g\<close> ends in.\<close>

fun chain_end :: "string \<Rightarrow> audit_record list \<Rightarrow> string" where
  "chain_end g [] = g"
| "chain_end g (r # rs) = chain_end (ar_row_hash r) rs"

text \<open>Whether a record is linked onto \<open>prev\<close> with the right hash.\<close>

definition linked :: "(string \<Rightarrow> string) \<Rightarrow> string \<Rightarrow> audit_record \<Rightarrow> bool" where
  "linked H prev r \<longleftrightarrow> ar_prev_hash r = prev \<and> ar_row_hash r = compute_row_hash H prev (record_payload r)"

lemma verify_chain_Cons [chain_simps]:
  "verify_chain H prev (r # rs) \<longleftrightarrow> linked H prev r \<and> verify_chain H (ar_row_hash r) rs"
  by (auto simp: linked_def record_payload_def Let_def)

lemma verify_chain_Nil [chain_simps]: "verify_chain H prev []"
  by simp

declare verify_chain.simps [simp del]

lemma chain_end_append [chain_simps]: "chain_end g (rs @ ss) = chain_end (chain_end g rs) ss"
  by (induction rs arbitrary: g) auto

lemma chain_end_snoc [chain_simps]: "chain_end g (rs @ [r]) = ar_row_hash r"
  by (simp add: chain_end_append)

lemma chain_end_last: "rs \<noteq> [] \<Longrightarrow> chain_end g rs = ar_row_hash (last rs)"
  by (induction rs arbitrary: g) auto

lemma verify_chain_append [chain_simps]:
  "verify_chain H g (rs @ ss) \<longleftrightarrow> verify_chain H g rs \<and> verify_chain H (chain_end g rs) ss"
  by (induction rs arbitrary: g) (auto simp: verify_chain_Cons verify_chain_Nil)

lemma linked_rechain [chain_simps]: "linked H prev (rechain H r prev)"
  by (simp add: linked_def rechain_def record_payload_def Let_def)

text \<open>The content of a record: what re-chaining keeps.\<close>

definition content ::
    "audit_record \<Rightarrow> string \<times> string \<times> string \<times> string \<times> (string \<times> json) list \<times> string" where
  "content r = (ar_ts r, ar_actor r, ar_action r, ar_target r, ar_before_state r, ar_result r)"

lemma content_rechain [chain_simps]: "content (rechain H r prev) = content r"
  by (simp add: content_def rechain_def Let_def)

lemma rechain_links [chain_simps]:
  "ar_prev_hash (rechain H r prev) = prev"
  "ar_row_hash (rechain H r prev) = compute_row_hash H prev (record_payload r)"
  "record_payload (rechain H r prev) = record_payload r"
  by (simp_all add: rechain_def record_payload_def Let_def)

section \<open>The interface of a chained log\<close>

text \<open>
  A log that takes a record built elsewhere and chains it onto its own head: the in-memory chain
  (\<open>AuditChain.splice\<close>) and the durable store (\<open>_splice_record_durable\<close>). Either the record is
  linked onto the head and becomes the new head, or the log is as it was.
\<close>

locale chained_log =
  fixes H :: "string \<Rightarrow> string"
    and genesis :: string
    and log :: "'s \<Rightarrow> audit_record list"
    and put :: "'s \<Rightarrow> audit_record \<Rightarrow> audit_record option \<times> 's"
    and invar :: "'s \<Rightarrow> bool"
  assumes put_taken: "\<lbrakk> invar s; put s r = (Some r', s') \<rbrakk> \<Longrightarrow>
      (\<exists>mid. verify_chain H (chain_end genesis (log s)) mid \<and>
         r' = rechain H r (chain_end genesis (log s @ mid)) \<and> log s' = log s @ mid @ [r'])"
    and put_refused: "\<lbrakk> invar s; put s r = (None, s') \<rbrakk> \<Longrightarrow>
      (\<exists>mid. verify_chain H (chain_end genesis (log s)) mid \<and> log s' = log s @ mid)"
    and put_invar: "invar s \<Longrightarrow> invar (snd (put s r))"
begin

lemma put_keeps_chain:
  assumes "invar s" "verify_chain H genesis (log s)"
  shows "verify_chain H genesis (log (snd (put s r)))"
proof (cases "put s r")
  case (Pair a s')
  with assms put_taken [of s r _ s'] put_refused [of s r s'] show ?thesis
    by (cases a) (auto simp: chain_simps)
qed

lemma put_extends: "invar s \<Longrightarrow> prefix (log s) (log (snd (put s r)))"
proof (cases "put s r")
  case (Pair a s')
  moreover assume "invar s"
  ultimately show ?thesis
    using put_taken [of s r _ s'] put_refused [of s r s'] by (cases a) auto
qed

text \<open>Putting a list, record after record, until one is refused.\<close>

fun put_all :: "'s \<Rightarrow> audit_record list \<Rightarrow> audit_record list option \<times> 's" where
  "put_all s [] = (Some [], s)"
| "put_all s (r # rs) =
     (case put s r of
        (None, s') \<Rightarrow> (None, s')
      | (Some r', s') \<Rightarrow> (case put_all s' rs of (out, s'') \<Rightarrow> (map_option (Cons r') out, s'')))"

lemma put_all_keeps:
  "\<lbrakk> invar s; verify_chain H genesis (log s) \<rbrakk> \<Longrightarrow>
     invar (snd (put_all s rs)) \<and> verify_chain H genesis (log (snd (put_all s rs))) \<and>
     prefix (log s) (log (snd (put_all s rs)))"
proof (induction rs arbitrary: s)
  case Nil
  then show ?case by simp
next
  case (Cons r rs)
  obtain a s' where put: "put s r = (a, s')" by (cases "put s r")
  with Cons.prems put_invar [of s r] put_keeps_chain [of s r] put_extends [of s r]
  have s': "invar s'" "verify_chain H genesis (log s')" "prefix (log s) (log s')" by simp_all
  show ?case
  proof (cases a)
    case None
    with put s' show ?thesis by simp
  next
    case (Some r')
    with put s' Cons.IH [of s'] show ?thesis
      by (auto split: prod.splits dest: prefix_order.trans)
  qed
qed

lemma put_all_content:
  "\<lbrakk> invar s; put_all s rs = (Some out, s') \<rbrakk> \<Longrightarrow> map content out = map content rs \<and> set out \<subseteq> set (log s')"
proof (induction rs arbitrary: s out)
  case Nil
  then show ?case by simp
next
  case (Cons r rs)
  obtain r' s1 out' where put: "put s r = (Some r', s1)" and rest: "put_all s1 rs = (Some out', s')"
    and out: "out = r' # out'"
    using Cons.prems(2) by (auto split: prod.splits option.splits)
  have inv: "invar s1" using put_invar [of s r] Cons.prems(1) put by simp
  from put_taken [OF Cons.prems(1) put] have r': "content r' = content r" "r' \<in> set (log s1)"
    by (auto simp: chain_simps)
  have "prefix (log s1) (log s')"
    using rest inv
  proof (induction rs arbitrary: s1 out')
    case (Cons q qs)
    then show ?case
      using put_extends [of s1 q] put_invar [of s1 q]
      by (fastforce split: prod.splits option.splits dest: prefix_order.trans)
  qed simp
  with r' have "r' \<in> set (log s')" by (auto simp: prefix_def)
  with r' out Cons.IH [OF inv rest] show ?case by simp
qed

end

text \<open>The in-memory chain provides it: \<open>ch_head\<close> is the end of what the sink has taken.\<close>

definition chain_ok :: "(string \<Rightarrow> string) \<Rightarrow> string \<Rightarrow> audit_chain \<Rightarrow> bool" where
  "chain_ok H g ch \<longleftrightarrow> ch_head ch = chain_end g (ch_log ch) \<and> verify_chain H g (ch_log ch)"

interpretation memory_log: chained_log H g ch_log "audit_splice H" "chain_ok H g" for H g
proof unfold_locales
  fix s r r' s'
  assume "chain_ok H g s" "audit_splice H s r = (Some r', s')"
  then show "\<exists>mid. verify_chain H (chain_end g (ch_log s)) mid \<and>
      r' = rechain H r (chain_end g (ch_log s @ mid)) \<and> ch_log s' = ch_log s @ mid @ [r']"
    by (intro exI [of _ "[]"])
      (auto simp: audit_splice_def emit_record_def chain_ok_def chain_simps split: if_splits)
next
  fix s r s'
  assume "chain_ok H g s" "audit_splice H s r = (None, s')"
  then show "\<exists>mid. verify_chain H (chain_end g (ch_log s)) mid \<and> ch_log s' = ch_log s @ mid"
    by (intro exI [of _ "[]"]) (auto simp: audit_splice_def emit_record_def chain_simps split: if_splits)
next
  fix s r
  assume "chain_ok H g s"
  then show "chain_ok H g (snd (audit_splice H s r))"
    by (auto simp: audit_splice_def emit_record_def chain_ok_def chain_simps)
qed

section \<open>Appending\<close>

text \<open>\<open>append\<close> is a splice of a record whose links are not set yet, after one reading of the clock.\<close>

definition draft_record ::
    "string \<Rightarrow> string \<Rightarrow> string \<Rightarrow> string \<Rightarrow> (string \<times> json) list \<Rightarrow> string \<Rightarrow> audit_record" where
  "draft_record ts actor action target before_state result =
     \<lparr>ar_ts = ts, ar_actor = actor, ar_action = action, ar_target = target,
      ar_before_state = before_state, ar_result = result, ar_prev_hash = [], ar_row_hash = []\<rparr>"

lemma audit_append_splice:
  "audit_append H ch actor action target before_state result =
     audit_splice H (ch\<lparr>ch_calls := Suc (ch_calls ch)\<rparr>)
       (draft_record (ch_now ch (ch_calls ch)) actor action target before_state result)"
  by (simp add: audit_append_def audit_splice_def rechain_def record_payload_def draft_record_def Let_def)

lemma chain_ok_tick [simp]: "chain_ok H g (ch\<lparr>ch_calls := n\<rparr>) = chain_ok H g ch"
  by (simp add: chain_ok_def)

lemma audit_append_taken:
  assumes "audit_append H ch actor action target before_state result = (Some r, ch')"
  shows "ch_log ch' = ch_log ch @ [r]" "ch_head ch' = ar_row_hash r" "linked H (ch_head ch) r"
    "content r = (ch_now ch (ch_calls ch), actor, action, target, before_state, result)"
  using assms
  by (auto simp: audit_append_splice audit_splice_def emit_record_def chain_simps content_rechain
      split: if_splits) (simp add: content_def draft_record_def)

lemma audit_append_refused:
  assumes "audit_append H ch actor action target before_state result = (None, ch')"
  shows "ch_log ch' = ch_log ch" "ch_head ch' = ch_head ch"
  using assms by (auto simp: audit_append_splice audit_splice_def emit_record_def split: if_splits)

lemma audit_append_frame:
  assumes "audit_append H ch actor action target before_state result = (out, ch')"
  shows "ch_accepts ch' = ch_accepts ch" "ch_now ch' = ch_now ch" "ch_calls ch' = Suc (ch_calls ch)"
  using assms by (auto simp: audit_append_splice audit_splice_def emit_record_def split: if_splits)

lemma audit_append_ok:
  assumes "chain_ok H g ch"
  shows "chain_ok H g (snd (audit_append H ch actor action target before_state result))"
  using assms memory_log.put_invar [of H g "ch\<lparr>ch_calls := Suc (ch_calls ch)\<rparr>"]
  by (simp add: audit_append_splice)

lemma audit_splice_taken:
  assumes "audit_splice H ch r = (Some r', ch')"
  shows "ch_log ch' = ch_log ch @ [r']" "ch_head ch' = ar_row_hash r'" "linked H (ch_head ch) r'"
    "content r' = content r"
  using assms by (auto simp: audit_splice_def emit_record_def chain_simps split: if_splits)

section \<open>Tamper evidence\<close>

text \<open>Two records say the same: every field is equal, \<open>before_state\<close> up to the order of its keys.\<close>

definition same_content :: "audit_record \<Rightarrow> audit_record \<Rightarrow> bool" where
  "same_content r s \<longleftrightarrow> ar_ts r = ar_ts s \<and> ar_actor r = ar_actor s \<and> ar_action r = ar_action s \<and>
     ar_target r = ar_target s \<and> ar_result r = ar_result s \<and>
     json_sorted (JObj (ar_before_state r)) = json_sorted (JObj (ar_before_state s))"

lemma record_payload_inj: "record_payload r = record_payload s \<Longrightarrow> same_content r s"
  unfolding record_payload_def canonical_def same_content_def
  by (drule json_dumps_obj_fields) simp_all

lemma compute_row_hash_inj:
  assumes "compute_row_hash H p (record_payload r) = compute_row_hash H q (record_payload s)"
  shows "(p = q \<and> same_content r s) \<or> (\<exists>x y. x \<noteq> y \<and> H x = H y)"
proof (cases "utf8 p @ char_of (0::nat) # record_payload r = utf8 q @ char_of (0::nat) # record_payload s")
  case True
  have "utf8 p = utf8 q \<and> record_payload r = record_payload s"
    by (rule split_last_separator [OF True])
      (simp_all only: record_payload_def canonical_def json_dumps_no_nul not_False_eq_True)
  then show ?thesis using record_payload_inj by simp
next
  case False
  moreover have "utf8 (record_payload t) = record_payload t" for t
    by (simp add: record_payload_def canonical_def)
  ultimately show ?thesis using assms unfolding compute_row_hash_def by auto
qed

lemma linked_hash: "linked H p r \<Longrightarrow> \<exists>x. H x = ar_row_hash r"
  by (auto simp: linked_def compute_row_hash_def)

lemma chain_tamper_evident_core:
  assumes "verify_chain H g rs" "verify_chain H g ss" "chain_end g rs = chain_end g ss"
  shows "list_all2 same_content rs ss \<and> map ar_row_hash rs = map ar_row_hash ss \<or>
    (\<exists>x y. x \<noteq> y \<and> H x = H y) \<or> (\<exists>x. H x = g)"
  using assms
proof (induction rs arbitrary: ss rule: rev_induct)
  case Nil
  then show ?case
    using linked_hash by (cases ss rule: rev_cases) (auto simp: chain_simps)
next
  case (snoc r rs)
  show ?case
  proof (cases ss rule: rev_cases)
    case Nil
    with snoc.prems linked_hash show ?thesis by (auto simp: chain_simps)
  next
    case (snoc ss' s)
    have r: "linked H (chain_end g rs) r" "verify_chain H g rs"
      and s: "linked H (chain_end g ss') s" "verify_chain H g ss'"
      and hash: "ar_row_hash r = ar_row_hash s"
      using snoc.prems \<open>ss = ss' @ [s]\<close> by (auto simp: chain_simps)
    then have "chain_end g rs = chain_end g ss' \<and> same_content r s \<or> (\<exists>x y. x \<noteq> y \<and> H x = H y)"
      by (intro compute_row_hash_inj) (simp add: linked_def)
    with snoc.IH [OF r(2) s(2)] hash \<open>ss = ss' @ [s]\<close> show ?thesis
      by (auto simp: list_all2_append list_all2_lengthD dest: list_all2_lengthD)
  qed
qed

text \<open>C1. Tamper evidence: two logs that both verify from the same genesis and end in the same hash
  hold the same records in the same order, unless two different byte strings have the same digest
  or some byte string has the genesis value as its digest. In particular no record can be altered,
  dropped, inserted or reordered behind a head that is kept.\<close>

theorem chain_tamper_evident:
  assumes "verify_chain H g rs" "verify_chain H g ss" "chain_end g rs = chain_end g ss"
  shows "list_all2 same_content rs ss \<and> map ar_row_hash rs = map ar_row_hash ss \<or>
    (\<exists>x y. x \<noteq> y \<and> H x = H y) \<or> (\<exists>x. H x = g)"
  using chain_tamper_evident_core [OF assms] .

text \<open>A digest with no collisions and no preimage of the genesis value, for examples.\<close>

definition mark_hash :: "string \<Rightarrow> string" where
  "mark_hash x = CHR ''h'' # x"

lemma mark_hash_inj: "mark_hash x = mark_hash y \<longleftrightarrow> x = y" "mark_hash x \<noteq> GENESIS_HASH"
  by (simp_all add: mark_hash_def GENESIS_HASH_def numeral_eq_Suc)

definition sample_log :: "audit_record list" where
  "sample_log =
     (let r = rechain mark_hash (draft_record ''2026-01-01'' ''op'' ''quarantine'' ''/a'' [(''size'', JInt 3)] ''pending'') GENESIS_HASH
      in [r, rechain mark_hash (draft_record ''2026-01-02'' ''op'' ''quarantine'' ''/a'' [(''size'', JInt 3)] ''quarantined'') (ar_row_hash r)])"

lemma sample_log_verifies: "verify_chain mark_hash GENESIS_HASH sample_log"
  by (simp add: sample_log_def Let_def chain_simps)

theorem chain_tamper_evident_witness:
  "verify_chain mark_hash GENESIS_HASH sample_log \<and>
   list_all2 same_content sample_log sample_log \<and> map ar_row_hash sample_log = map ar_row_hash sample_log"
  using chain_tamper_evident [OF sample_log_verifies sample_log_verifies refl] sample_log_verifies
  by (simp add: mark_hash_inj)

end
