(* ===== verification/Audit_Store.thy ===== *)
theory Audit_Store
  imports Audit_Log
begin

text \<open>
  The persisted audit chain of \<open>core/audit_store.py\<close>: the table \<open>remediation_audit\<close> with its two
  UNIQUE constraints, the append and splice loops that retry when a concurrent writer took the head,
  and the signed checkpoints.

  The table is the list of its rows in the order of \<open>seq\<close>. Concurrent writers act between the
  reading of the head and the INSERT: in attempt \<open>i\<close> the records \<open>rival i\<close> are committed there by other
  processes, which run this same code and so link each record onto the head they find. A failed
  INSERT gives back nothing but its sequence number, and only where the database rolls it back:
  \<open>db_seq_burns\<close> is true for PostgreSQL, whose sequences do not roll back, and false for SQLite.
\<close>

section \<open>The tables\<close>

record audit_row =
  row_seq :: nat
  row_rec :: audit_record

record checkpoint_row =
  cp_seq :: nat
  cp_row_hash :: string
  cp_signature :: string
  cp_key_id :: string

record audit_db =
  db_rows :: "audit_row list"
  db_next_seq :: nat
  db_seq_burns :: bool
  db_checkpoints :: "checkpoint_row list"

definition MAX_APPEND_RETRIES :: nat where
  "MAX_APPEND_RETRIES = 8"

definition load_head :: "audit_db \<Rightarrow> string" where
  "load_head db = (if db_rows db = [] then GENESIS_HASH else ar_row_hash (row_rec (last (db_rows db))))"

definition persisted_records :: "audit_db \<Rightarrow> audit_record list" where
  "persisted_records db = map row_rec (db_rows db)"

text \<open>\<open>session.add(row); session.flush()\<close> inside a savepoint: \<^const>\<open>None\<close> is the \<open>IntegrityError\<close> of
  a violated UNIQUE constraint.\<close>

definition insert_row :: "audit_db \<Rightarrow> audit_record \<Rightarrow> bool \<times> audit_db" where
  "insert_row db r =
     (if ar_row_hash r \<in> set (map ar_row_hash (persisted_records db)) \<or>
         ar_prev_hash r \<in> set (map ar_prev_hash (persisted_records db))
      then (False, db\<lparr>db_next_seq := db_next_seq db + (if db_seq_burns db then 1 else 0)\<rparr>)
      else (True, db\<lparr>db_rows := db_rows db @ [\<lparr>row_seq = db_next_seq db, row_rec = r\<rparr>],
                     db_next_seq := db_next_seq db + 1\<rparr>))"

section \<open>Appending with fork rejection\<close>

text \<open>What the concurrent writers commit: record after record, each linked onto the current head.\<close>

definition rival_commits :: "(string \<Rightarrow> string) \<Rightarrow> audit_record list \<Rightarrow> audit_db \<Rightarrow> audit_db" where
  "rival_commits H drafts db = fold (\<lambda>r db. snd (insert_row db (rechain H r (load_head db)))) drafts db"

text \<open>The retry loops: \<open>n\<close> attempts are left, \<open>i\<close> have been made. \<^const>\<open>None\<close> is the
  \<open>RuntimeError\<close> after the last attempt.\<close>

fun splice_loop ::
    "(string \<Rightarrow> string) \<Rightarrow> (nat \<Rightarrow> audit_record list) \<Rightarrow> nat \<Rightarrow> nat \<Rightarrow> audit_db \<Rightarrow> audit_record
      \<Rightarrow> audit_record option \<times> audit_db" where
  "splice_loop H rival i 0 db r = (None, db)"
| "splice_loop H rival i (Suc n) db r =
     (let head = load_head db;
          rechained = rechain H r head
      in case insert_row (rival_commits H (rival i) db) rechained of
           (False, db') \<Rightarrow> splice_loop H rival (Suc i) n db' r
         | (True, db') \<Rightarrow> (Some rechained, db'))"

definition splice_record_durable ::
    "(string \<Rightarrow> string) \<Rightarrow> (nat \<Rightarrow> audit_record list) \<Rightarrow> audit_db \<Rightarrow> audit_record
      \<Rightarrow> audit_record option \<times> audit_db" where
  "splice_record_durable H rival db r = splice_loop H rival 0 MAX_APPEND_RETRIES db r"

text \<open>\<open>append_durable\<close> builds the record anew in each attempt, with a new timestamp.\<close>

fun append_loop ::
    "(string \<Rightarrow> string) \<Rightarrow> (nat \<Rightarrow> audit_record list) \<Rightarrow> (nat \<Rightarrow> string) \<Rightarrow> nat \<Rightarrow> nat \<Rightarrow> audit_db
      \<Rightarrow> string \<Rightarrow> string \<Rightarrow> string \<Rightarrow> (string \<times> json) list \<Rightarrow> string \<Rightarrow> audit_record option \<times> audit_db" where
  "append_loop H rival now i 0 db actor action target before_state result = (None, db)"
| "append_loop H rival now i (Suc n) db actor action target before_state result =
     (let head = load_head db;
          chain = \<lparr>ch_log = [], ch_accepts = (\<lambda>_ _. True), ch_head = head, ch_now = (\<lambda>_. now i), ch_calls = 0\<rparr>
      in case fst (audit_append H chain actor action target before_state result) of
           None \<Rightarrow> (None, db)
         | Some record \<Rightarrow>
             (case insert_row (rival_commits H (rival i) db) record of
                (False, db') \<Rightarrow>
                  append_loop H rival now (Suc i) n db' actor action target before_state result
              | (True, db') \<Rightarrow> (Some record, db')))"

definition append_durable ::
    "(string \<Rightarrow> string) \<Rightarrow> (nat \<Rightarrow> audit_record list) \<Rightarrow> (nat \<Rightarrow> string) \<Rightarrow> audit_db
      \<Rightarrow> string \<Rightarrow> string \<Rightarrow> string \<Rightarrow> (string \<times> json) list \<Rightarrow> string \<Rightarrow> audit_record option \<times> audit_db" where
  "append_durable H rival now db actor action target before_state result =
     append_loop H rival now 0 MAX_APPEND_RETRIES db actor action target before_state result"

fun append_records_durable ::
    "(string \<Rightarrow> string) \<Rightarrow> (nat \<Rightarrow> audit_record list) \<Rightarrow> audit_db \<Rightarrow> audit_record list
      \<Rightarrow> audit_record list option \<times> audit_db" where
  "append_records_durable H rival db [] = (Some [], db)"
| "append_records_durable H rival db (r # rs) =
     (case splice_record_durable H rival db r of
        (None, db') \<Rightarrow> (None, db')
      | (Some r', db') \<Rightarrow>
          (case append_records_durable H rival db' rs of (out, db'') \<Rightarrow> (map_option (Cons r') out, db'')))"

text \<open>\<open>build_persistent_chain\<close>: the in-memory chain that resumes at the persisted head.\<close>

definition build_persistent_chain :: "audit_db \<Rightarrow> (nat \<Rightarrow> string) \<Rightarrow> audit_chain" where
  "build_persistent_chain db now =
     \<lparr>ch_log = [], ch_accepts = (\<lambda>_ _. True), ch_head = load_head db, ch_now = now, ch_calls = 0\<rparr>"

section \<open>Checkpoints\<close>

definition checkpoint_message :: "nat \<Rightarrow> string \<Rightarrow> string" where
  "checkpoint_message seq row_hash = utf8 (str_nat seq @ '':'' @ row_hash)"

text \<open>\<open>bytes.hex()\<close> and \<open>bytes.fromhex\<close> (which raises \<open>ValueError\<close> on a malformed text).\<close>

definition bytes_hex :: "string \<Rightarrow> string" where
  "bytes_hex bs = concat (map (\<lambda>b. [hex_digit (of_char b div 16), hex_digit (of_char b mod 16)]) bs)"

definition hex_value :: "char \<Rightarrow> nat option" where
  "hex_value c =
     (let n = (of_char c :: nat)
      in if 48 \<le> n \<and> n \<le> 57 then Some (n - 48)
         else if 97 \<le> n \<and> n \<le> 102 then Some (n - 87)
         else if 65 \<le> n \<and> n \<le> 70 then Some (n - 55) else None)"

fun bytes_fromhex :: "string \<Rightarrow> string option" where
  "bytes_fromhex [] = Some []"
| "bytes_fromhex [a] = None"
| "bytes_fromhex (a # b # r) =
     (case (hex_value a, hex_value b) of
        (Some x, Some y) \<Rightarrow> map_option (Cons (char_of (16 * x + y))) (bytes_fromhex r)
      | _ \<Rightarrow> None)"

definition write_checkpoint ::
    "(string \<Rightarrow> string) \<Rightarrow> string \<Rightarrow> audit_db \<Rightarrow> checkpoint_row option \<times> audit_db" where
  "write_checkpoint sign key_id db =
     (if db_rows db = [] then (None, db)
      else
        let last_row = last (db_rows db);
            seq = row_seq last_row;
            row_hash = ar_row_hash (row_rec last_row);
            row = \<lparr>cp_seq = seq, cp_row_hash = row_hash,
                   cp_signature = bytes_hex (sign (checkpoint_message seq row_hash)), cp_key_id = key_id\<rparr>
        in (Some row, db\<lparr>db_checkpoints := db_checkpoints db @ [row]\<rparr>))"

definition latest_checkpoint :: "audit_db \<Rightarrow> checkpoint_row option" where
  "latest_checkpoint db = (if db_checkpoints db = [] then None else Some (last (db_checkpoints db)))"

text \<open>\<open>verify_latest_checkpoint\<close>. A stored signature that is not hexadecimal raises; that is
  \<^const>\<open>None\<close> here. \<open>records[cp.seq - 1]\<close> with \<open>cp.seq = 0\<close> is Python's last element.\<close>

definition verify_latest_checkpoint ::
    "(string \<Rightarrow> string) \<Rightarrow> (string \<Rightarrow> string \<Rightarrow> bool) \<Rightarrow> audit_db \<Rightarrow> bool option" where
  "verify_latest_checkpoint H verify db =
     (case latest_checkpoint db of
        None \<Rightarrow> Some True
      | Some cp \<Rightarrow>
          (case bytes_fromhex (cp_signature cp) of
             None \<Rightarrow> None
           | Some sig \<Rightarrow>
               if \<not> verify (checkpoint_message (cp_seq cp) (cp_row_hash cp)) sig then Some False
               else
                 let records = persisted_records db in
                 if length records < cp_seq cp then Some False
                 else if cp_seq cp = 0 \<and> records = [] then None
                 else
                   let anchored = (if cp_seq cp = 0 then last records else records ! (cp_seq cp - 1)) in
                   if ar_row_hash anchored \<noteq> cp_row_hash cp then Some False
                   else Some (verify_chain H GENESIS_HASH (take (cp_seq cp) records))))"

text \<open>\<open>persisted_records_page\<close>: newest first, rows with a smaller \<open>seq\<close> than the cursor, one row
  more than the page to see whether an older page exists. \<open>page[-1]\<close> of an empty page raises
  \<open>IndexError\<close> (a limit of 0 on a non-empty table), here \<^const>\<open>None\<close>.\<close>

definition persisted_records_page ::
    "audit_db \<Rightarrow> nat option \<Rightarrow> nat \<Rightarrow> (audit_row list \<times> nat option) option" where
  "persisted_records_page db cursor limit =
     (let stmt = rev (db_rows db);
          stmt = (case cursor of None \<Rightarrow> stmt | Some c \<Rightarrow> filter (\<lambda>r. row_seq r < c) stmt);
          rows = take (limit + 1) stmt;
          page = take limit rows
      in if limit < length rows
         then (if page = [] then None else Some (page, Some (row_seq (last page))))
         else Some (page, None))"

section \<open>The table stays one unbroken chain\<close>

definition db_ok :: "(string \<Rightarrow> string) \<Rightarrow> audit_db \<Rightarrow> bool" where
  "db_ok H db \<longleftrightarrow>
     verify_chain H GENESIS_HASH (persisted_records db) \<and>
     distinct (map ar_row_hash (persisted_records db)) \<and>
     distinct (map ar_prev_hash (persisted_records db)) \<and>
     sorted_wrt (<) (map row_seq (db_rows db)) \<and>
     (\<forall>row \<in> set (db_rows db). row_seq row < db_next_seq db)"

lemma load_head_end: "load_head db = chain_end GENESIS_HASH (persisted_records db)"
  by (auto simp: load_head_def persisted_records_def chain_end_last last_map)

lemma insert_row_True:
  assumes "insert_row db r = (True, db')"
  shows "persisted_records db' = persisted_records db @ [r]"
    "ar_row_hash r \<notin> set (map ar_row_hash (persisted_records db))"
    "ar_prev_hash r \<notin> set (map ar_prev_hash (persisted_records db))"
  using assms by (auto simp: insert_row_def persisted_records_def split: if_splits)

lemma insert_row_False:
  assumes "insert_row db r = (False, db')"
  shows "persisted_records db' = persisted_records db" "db_rows db' = db_rows db"
  using assms by (auto simp: insert_row_def persisted_records_def split: if_splits)

lemma insert_row_False_ok: "insert_row db r = (False, db') \<Longrightarrow> db_ok H db \<Longrightarrow> db_ok H db'"
  by (auto simp: db_ok_def insert_row_def persisted_records_def less_Suc_eq split: if_splits)

lemma insert_row_ok:
  assumes "db_ok H db" "linked H (load_head db) r"
  shows "db_ok H (snd (insert_row db r))"
proof (cases "insert_row db r")
  case (Pair b db')
  show ?thesis
  proof (cases b)
    case True
    with Pair have ins: "insert_row db r = (True, db')" by simp
    then have "db_rows db' = db_rows db @ [\<lparr>row_seq = db_next_seq db, row_rec = r\<rparr>]"
      "db_next_seq db' = Suc (db_next_seq db)"
      by (auto simp: insert_row_def split: if_splits)
    with assms insert_row_True [OF ins] Pair show ?thesis
      by (auto simp: db_ok_def verify_chain_append verify_chain_Cons verify_chain_Nil load_head_end
          sorted_wrt_append less_Suc_eq)
  next
    case False
    with Pair assms insert_row_False_ok show ?thesis by auto
  qed
qed

lemma rival_commits_ok:
  assumes "db_ok H db"
  shows "db_ok H (rival_commits H drafts db) \<and>
    (\<exists>mid. persisted_records (rival_commits H drafts db) = persisted_records db @ mid)"
  using assms
proof (induction drafts arbitrary: db)
  case Nil
  then show ?case by (simp add: rival_commits_def)
next
  case (Cons r drafts)
  let ?x = "rechain H r (load_head db)" and ?db = "snd (insert_row db (rechain H r (load_head db)))"
  have ok: "db_ok H ?db" using Cons.prems by (intro insert_row_ok) (simp_all add: chain_simps)
  obtain mid where "persisted_records (rival_commits H drafts ?db) = persisted_records ?db @ mid"
    using Cons.IH [OF ok] by blast
  moreover have "persisted_records ?db = persisted_records db \<or> persisted_records ?db = persisted_records db @ [?x]"
    using insert_row_True(1) [of db ?x] insert_row_False(1) [of db ?x] by (cases "insert_row db ?x"; cases "fst (insert_row db ?x)") auto
  ultimately show ?case
    using Cons.IH [OF ok] by (auto simp: rival_commits_def)
qed

text \<open>The heart of fork rejection: a record linked onto a head that is no longer the end of the
  table carries a \<open>prev_hash\<close> the table already has, so its INSERT fails.\<close>

lemma stale_head_rejected:
  assumes "verify_chain H GENESIS_HASH (rs @ mid)" "mid \<noteq> []"
  shows "chain_end GENESIS_HASH rs \<in> set (map ar_prev_hash (rs @ mid))"
  using assms by (cases mid) (auto simp: chain_simps linked_def)

lemma insert_after_rivals:
  assumes ok: "db_ok H db" and r: "linked H (load_head db) r"
    and ins: "insert_row (rival_commits H drafts db) r = (b, db')"
  shows "db_ok H db'"
    and "b \<Longrightarrow> persisted_records db' = persisted_records db @ [r]"
    and "\<not> b \<Longrightarrow> \<exists>mid. persisted_records db' = persisted_records db @ mid"
proof -
  let ?db = "rival_commits H drafts db"
  obtain mid where mid: "persisted_records ?db = persisted_records db @ mid" and ok': "db_ok H ?db"
    using rival_commits_ok [OF ok] by blast
  have fresh: "mid = []" if b
  proof (rule ccontr)
    assume "mid \<noteq> []"
    with ok' mid have "load_head db \<in> set (map ar_prev_hash (persisted_records ?db))"
      unfolding db_ok_def load_head_end mid by (intro stale_head_rejected) auto
    with that ins r insert_row_True(3) [of ?db r db'] show False by (simp add: linked_def)
  qed
  show "db_ok H db'"
  proof (cases b)
    case True
    with fresh mid have "load_head ?db = load_head db" by (simp add: load_head_end)
    with insert_row_ok [OF ok'] r ins show ?thesis by (metis snd_conv)
  next
    case False
    with ins ok' insert_row_False_ok show ?thesis by auto
  qed
  show "b \<Longrightarrow> persisted_records db' = persisted_records db @ [r]"
    using fresh mid ins insert_row_True(1) by fastforce
  show "\<not> b \<Longrightarrow> \<exists>mid. persisted_records db' = persisted_records db @ mid"
    using mid ins insert_row_False(1) by fastforce
qed

lemma splice_loop_spec:
  assumes "db_ok H db" "splice_loop H rival i n db r = (out, db')"
  shows "db_ok H db' \<and>
    (case out of
       None \<Rightarrow> \<exists>mid. persisted_records db' = persisted_records db @ mid
     | Some r' \<Rightarrow> \<exists>mid. r' = rechain H r (chain_end GENESIS_HASH (persisted_records db @ mid)) \<and>
         persisted_records db' = persisted_records db @ mid @ [r'])"
  using assms
proof (induction H rival i n db r rule: splice_loop.induct)
  case (1 H rival i db r)
  then show ?case by auto
next
  case (2 H rival i n db r)
  let ?r = "rechain H r (load_head db)"
  obtain b db1 where ins: "insert_row (rival_commits H (rival i) db) ?r = (b, db1)"
    by (cases "insert_row (rival_commits H (rival i) db) ?r")
  note step = insert_after_rivals [OF "2.prems"(1) linked_rechain ins]
  show ?case
  proof (cases b)
    case True
    with "2.prems"(2) ins have "out = Some ?r" "db' = db1" by (simp_all add: Let_def)
    with step True show ?thesis by (auto simp: load_head_end intro!: exI [of _ "[]"])
  next
    case False
    then obtain mid where mid: "persisted_records db1 = persisted_records db @ mid" using step by blast
    from False "2.prems"(2) ins have "splice_loop H rival (Suc i) n db1 r = (out, db')"
      by (simp add: Let_def)
    with "2.IH" [OF refl refl] ins False step(1)
    have "db_ok H db' \<and>
      (case out of
         None \<Rightarrow> \<exists>mid. persisted_records db' = persisted_records db1 @ mid
       | Some r' \<Rightarrow> \<exists>mid. r' = rechain H r (chain_end GENESIS_HASH (persisted_records db1 @ mid)) \<and>
           persisted_records db' = persisted_records db1 @ mid @ [r'])"
      by simp
    then have "db_ok H db'" and "\<exists>m. case out of
         None \<Rightarrow> persisted_records db' = persisted_records db @ (mid @ m)
       | Some r' \<Rightarrow> r' = rechain H r (chain_end GENESIS_HASH (persisted_records db @ (mid @ m))) \<and>
           persisted_records db' = persisted_records db @ (mid @ m) @ [r']"
      unfolding mid append_assoc by (auto split: option.splits)
    then show ?thesis by (auto split: option.splits)
  qed
qed

lemma verify_chain_suffix:
  "verify_chain H g (rs @ mid) \<Longrightarrow> verify_chain H (chain_end g rs) mid"
  by (simp add: verify_chain_append)

interpretation durable_log:
  chained_log H GENESIS_HASH persisted_records "splice_record_durable H rival" "db_ok H" for H rival
proof unfold_locales
  fix db r r' db'
  assume "db_ok H db" "splice_record_durable H rival db r = (Some r', db')"
  with splice_loop_spec [of H db rival 0 MAX_APPEND_RETRIES r "Some r'" db']
  obtain mid where "r' = rechain H r (chain_end GENESIS_HASH (persisted_records db @ mid))"
    "persisted_records db' = persisted_records db @ mid @ [r']" "db_ok H db'"
    by (auto simp: splice_record_durable_def)
  then show "\<exists>mid. verify_chain H (chain_end GENESIS_HASH (persisted_records db)) mid \<and>
      r' = rechain H r (chain_end GENESIS_HASH (persisted_records db @ mid)) \<and>
      persisted_records db' = persisted_records db @ mid @ [r']"
    by (auto simp: db_ok_def verify_chain_append)
next
  fix db r db'
  assume "db_ok H db" "splice_record_durable H rival db r = (None, db')"
  with splice_loop_spec [of H db rival 0 MAX_APPEND_RETRIES r None db']
  obtain mid where "persisted_records db' = persisted_records db @ mid" "db_ok H db'"
    by (auto simp: splice_record_durable_def)
  then show "\<exists>mid. verify_chain H (chain_end GENESIS_HASH (persisted_records db)) mid \<and>
      persisted_records db' = persisted_records db @ mid"
    by (auto simp: db_ok_def verify_chain_append)
next
  fix db r
  assume "db_ok H db"
  then show "db_ok H (snd (splice_record_durable H rival db r))"
    using splice_loop_spec [of H db rival 0 MAX_APPEND_RETRIES r]
    by (cases "splice_record_durable H rival db r") (auto simp: splice_record_durable_def)
qed

lemma append_records_durable_put_all:
  "append_records_durable H rival db rs = durable_log.put_all H rival db rs"
  by (induction rs arbitrary: db) (auto split: prod.splits option.splits)


section \<open>An append that is not raced goes through\<close>

lemma db_ok_head_unused:
  assumes "db_ok H db" "\<forall>x. H x \<noteq> GENESIS_HASH"
  shows "load_head db \<notin> set (map ar_prev_hash (persisted_records db))"
proof
  assume "load_head db \<in> set (map ar_prev_hash (persisted_records db))"
  then obtain us s vs where recs: "persisted_records db = us @ s # vs" and s: "ar_prev_hash s = load_head db"
    by (metis (no_types, lifting) imageE list.set_map split_list)
  have link: "linked H (chain_end GENESIS_HASH us) s" and v: "verify_chain H GENESIS_HASH (us @ s # vs)"
    using assms(1) recs by (auto simp: db_ok_def chain_simps)
  have head: "load_head db = ar_row_hash (last (s # vs))"
    by (simp add: load_head_end recs chain_end_last)
  show False
  proof (cases "us = []")
    case True
    have "linked H p r" if "verify_chain H g rs" "rs \<noteq> []" "r = last rs" "p = ar_prev_hash r" for p r g rs
      using that by (cases rs rule: rev_cases) (auto simp: chain_simps linked_def)
    from this [OF v] have "\<exists>x. H x = load_head db"
      using head linked_hash by fastforce
    with True link s assms(2) show False by (auto simp: linked_def)
  next
    case False
    with link s head have "ar_row_hash (last us) = ar_row_hash (last (s # vs))"
      by (simp add: linked_def chain_end_last)
    moreover have "ar_row_hash (last us) \<in> ar_row_hash ` set us"
      "ar_row_hash (last (s # vs)) \<in> ar_row_hash ` set (s # vs)"
      using False by (auto intro!: imageI last_in_set)
    moreover have "ar_row_hash ` set us \<inter> ar_row_hash ` set (s # vs) = {}"
      using assms(1) recs by (auto simp: db_ok_def)
    ultimately show False by (metis disjoint_iff)
  qed
qed

lemma insert_unraced:
  assumes ok: "db_ok H db" and r: "linked H (load_head db) r"
    and inj: "\<not> (\<exists>x y. x \<noteq> y \<and> H x = H y)" and gen: "\<forall>x. H x \<noteq> GENESIS_HASH"
  shows "fst (insert_row db r)"
proof -
  note unused = db_ok_head_unused [OF ok gen]
  have "ar_row_hash r \<noteq> ar_row_hash s" if "s \<in> set (persisted_records db)" for s
  proof
    assume eq: "ar_row_hash r = ar_row_hash s"
    from that obtain us vs where "persisted_records db = us @ s # vs" by (metis split_list)
    then have "linked H (chain_end GENESIS_HASH us) s" using ok by (auto simp: db_ok_def chain_simps)
    with eq r have "ar_prev_hash s = load_head db"
      using compute_row_hash_inj [of H "load_head db" r "ar_prev_hash s" s] inj by (auto simp: linked_def)
    with that unused show False by (metis imageI list.set_map)
  qed
  with unused r show ?thesis by (auto simp: insert_row_def linked_def)
qed

text \<open>The record an attempt of \<open>append_durable\<close> builds.\<close>

lemma attempt_record:
  "fst (audit_append H \<lparr>ch_log = [], ch_accepts = (\<lambda>_ _. True), ch_head = h, ch_now = (\<lambda>_. t), ch_calls = 0\<rparr>
      actor action target before_state result) =
    Some (rechain H (draft_record t actor action target before_state result) h)"
  by (simp add: audit_append_splice audit_splice_def emit_record_def)

lemma append_loop_ok:
  assumes "db_ok H db"
  shows "db_ok H (snd (append_loop H rival now i n db actor action target before_state result))"
  using assms
proof (induction n arbitrary: i db)
  case (Suc n)
  let ?r = "rechain H (draft_record (now i) actor action target before_state result) (load_head db)"
  obtain b db1 where ins: "insert_row (rival_commits H (rival i) db) ?r = (b, db1)"
    by (cases "insert_row (rival_commits H (rival i) db) ?r")
  from insert_after_rivals(1) [OF Suc.prems linked_rechain ins] have "db_ok H db1" .
  with ins Suc.IH show ?case by (cases b) (simp_all add: Let_def attempt_record)
qed simp

text \<open>C3. Liveness of the audit append: if in one of the eight attempts no concurrent writer
  commits between the reading of the head and the INSERT, the append returns a record (no
  \<open>RuntimeError\<close>), unless the digest has a collision or the genesis value as a digest.\<close>

theorem append_durable_live:
  assumes "db_ok H db" "j < MAX_APPEND_RETRIES" "rival j = []"
  shows "(\<exists>r. fst (append_durable H rival now db actor action target before_state result) = Some r) \<or>
    (\<exists>x y. x \<noteq> y \<and> H x = H y) \<or> (\<exists>x. H x = GENESIS_HASH)"
proof (rule ccontr)
  assume "\<not> ?thesis"
  then have none: "\<And>r. fst (append_durable H rival now db actor action target before_state result) \<noteq> Some r"
    and inj: "\<not> (\<exists>x y. x \<noteq> y \<and> H x = H y)" and gen: "\<forall>x. H x \<noteq> GENESIS_HASH" by blast+
  have "\<exists>r. fst (append_loop H rival now i n db actor action target before_state result) = Some r"
    if "db_ok H db" "i \<le> j" "j < i + n" for i n db
    using that
  proof (induction n arbitrary: i db)
    case (Suc n)
    let ?r = "rechain H (draft_record (now i) actor action target before_state result) (load_head db)"
    obtain b db1 where ins: "insert_row (rival_commits H (rival i) db) ?r = (b, db1)"
      by (cases "insert_row (rival_commits H (rival i) db) ?r")
    show ?case
    proof (cases b)
      case True
      with ins show ?thesis by (simp add: Let_def attempt_record)
    next
      case False
      have "i \<noteq> j"
      proof
        assume "i = j"
        with ins assms(3) have "insert_row db ?r = (b, db1)" by (simp add: rival_commits_def)
        with insert_unraced [OF Suc.prems(1) linked_rechain inj gen, of "draft_record (now i) actor action target before_state result"]
          False show False by simp
      qed
      with Suc.prems Suc.IH [of db1 "Suc i"] insert_after_rivals(1) [OF Suc.prems(1) linked_rechain ins]
      have "\<exists>r. fst (append_loop H rival now (Suc i) n db1 actor action target before_state result) = Some r"
        by simp
      with ins False show ?thesis by (simp add: Let_def attempt_record)
    qed
  qed simp
  from this [OF assms(1), of 0 MAX_APPEND_RETRIES] assms(2) none show False
    by (auto simp: append_durable_def)
qed

definition sample_db :: audit_db where
  "sample_db =
     \<lparr>db_rows = [\<lparr>row_seq = 1, row_rec = sample_log ! 0\<rparr>, \<lparr>row_seq = 2, row_rec = sample_log ! 1\<rparr>],
      db_next_seq = 3, db_seq_burns = True, db_checkpoints = []\<rparr>"

lemma persisted_sample_db: "persisted_records sample_db = sample_log"
  by (simp add: persisted_records_def sample_db_def sample_log_def Let_def)

lemma sample_db_ok: "db_ok mark_hash sample_db"
proof -
  have "compute_row_hash mark_hash p x \<noteq> GENESIS_HASH" for p x
    by (simp add: compute_row_hash_def mark_hash_inj)
  moreover have "length (compute_row_hash mark_hash p x) > length p" for p x
  proof -
    have "length p \<le> length (utf8 p)"
      by (induction p) (auto simp: utf8_def utf8_char_def Let_def)
    then show ?thesis by (simp add: compute_row_hash_def mark_hash_def)
  qed
  ultimately have "compute_row_hash mark_hash (compute_row_hash mark_hash p x) y \<noteq> compute_row_hash mark_hash p x"
    "compute_row_hash mark_hash p x \<noteq> compute_row_hash mark_hash (compute_row_hash mark_hash p x) y"
    "GENESIS_HASH \<noteq> compute_row_hash mark_hash p x" for p x y
    by (metis less_irrefl)+
  then show ?thesis
    using sample_log_verifies
    by (auto simp: db_ok_def persisted_sample_db) (auto simp: sample_log_def sample_db_def Let_def chain_simps)
qed

theorem append_durable_live_witness:
  "\<exists>r. fst (append_durable mark_hash (\<lambda>i. if i = 0 then sample_log else []) (\<lambda>_. ''2026-01-03'') sample_db
      ''op'' ''scan.dispatch'' ''host'' [] ''enqueued'') = Some r"
  using append_durable_live [OF sample_db_ok, of 1 "\<lambda>i. if i = 0 then sample_log else []" "\<lambda>_. ''2026-01-03''"
      "''op''" "''scan.dispatch''" "''host''" "[]" "''enqueued''"]
  by (simp add: MAX_APPEND_RETRIES_def mark_hash_inj)


section \<open>Checkpoints\<close>

lemma bytes_fromhex_hex [simp]: "bytes_fromhex (bytes_hex bs) = Some bs"
proof (induction bs)
  case (Cons b bs)
  have hv: "hex_value (hex_digit n) = Some n" if "n < 16" for n
    using that by (simp add: hex_value_def hex_digit_def Let_def)
  have "(of_char b :: nat) div 16 < 16" by (simp add: div_less_iff_less_mult)
  with Cons hv show ?case by (simp add: bytes_hex_def)
qed (simp add: bytes_hex_def)

lemma seqs_at_least:
  "\<lbrakk> sorted_wrt (<) ns; \<forall>n \<in> set ns. (k::nat) \<le> n; ns \<noteq> [] \<rbrakk> \<Longrightarrow> k + length ns \<le> Suc (last ns)"
proof (induction ns arbitrary: k)
  case (Cons n ns)
  then have "\<forall>m \<in> set ns. Suc k \<le> m" by (auto simp: Suc_le_eq intro: le_less_trans)
  with Cons.prems Cons.IH [of "Suc k"] show ?case by (cases "ns = []") auto
qed simp

text \<open>A checkpoint of an intact log verifies exactly when the sequence numbers have no gap up
  to it. Where a lost race has burnt a number (PostgreSQL), the last row's number exceeds the number of
  rows and the check reports tampering on a log nobody touched.\<close>

theorem checkpoint_verifies_iff_gapless:
  assumes ok: "db_ok H db" and rows: "db_rows db \<noteq> []" and pos: "\<forall>row \<in> set (db_rows db). 1 \<le> row_seq row"
    and sig: "\<And>m. verify m (sign m)"
  shows "verify_latest_checkpoint H verify (snd (write_checkpoint sign key_id db)) =
    Some (row_seq (last (db_rows db)) = length (db_rows db))"
proof -
  let ?recs = "persisted_records db" and ?n = "row_seq (last (db_rows db))"
  have len: "length ?recs = length (db_rows db)" by (simp add: persisted_records_def)
  have ge: "length (db_rows db) \<le> ?n"
    using seqs_at_least [of "map row_seq (db_rows db)" 1] ok pos rows by (auto simp: db_ok_def last_map)
  have "?recs ! (length (db_rows db) - 1) = row_rec (last (db_rows db))"
    using rows by (simp add: persisted_records_def last_conv_nth)
  moreover have "?n \<noteq> 0" using ge rows by (cases "db_rows db") auto
  moreover have "verify_chain H GENESIS_HASH ?recs" using ok by (simp add: db_ok_def)
  ultimately show ?thesis
    using rows ge len sig
    by (auto simp: write_checkpoint_def verify_latest_checkpoint_def latest_checkpoint_def Let_def
        persisted_records_def [of "db_checkpoints_update _ _"] simp flip: persisted_records_def)
qed

text \<open>A database on which one append lost a race: its second row has number 3.\<close>

definition gapped_db :: audit_db where
  "gapped_db = sample_db\<lparr>db_rows := [\<lparr>row_seq = 1, row_rec = sample_log ! 0\<rparr>, \<lparr>row_seq = 3, row_rec = sample_log ! 1\<rparr>],
     db_next_seq := 4\<rparr>"

lemma gapped_db_ok: "db_ok mark_hash gapped_db"
  using sample_db_ok by (simp add: db_ok_def gapped_db_def persisted_records_def sample_db_def)

theorem checkpoint_verifies_iff_gapless_witness:
  "verify_latest_checkpoint mark_hash (\<lambda>m s. s = m) (snd (write_checkpoint (\<lambda>m. m) ''k1'' sample_db)) = Some True \<and>
   verify_latest_checkpoint mark_hash (\<lambda>m s. s = m) (snd (write_checkpoint (\<lambda>m. m) ''k1'' gapped_db)) = Some False"
  using checkpoint_verifies_iff_gapless [OF sample_db_ok, of "\<lambda>m s. s = m" "\<lambda>m. m" "''k1''"]
    checkpoint_verifies_iff_gapless [OF gapped_db_ok, of "\<lambda>m s. s = m" "\<lambda>m. m" "''k1''"]
  by (simp add: sample_db_def gapped_db_def)

text \<open>C5. Truncation detection: when a database, in whatever state, passes the check against a
  checkpoint anchored at the end of the log \<open>rs\<close>, the first rows of the database are the records of
  \<open>rs\<close>: none at or before the anchor was dropped, altered, inserted or reordered (unless the digest
  has a collision or the genesis value as a digest).\<close>

theorem checkpoint_anchors_prefix:
  assumes rs: "verify_chain H GENESIS_HASH rs" "rs \<noteq> []"
    and cp: "latest_checkpoint db = Some cp" "cp_seq cp = length rs" "cp_row_hash cp = chain_end GENESIS_HASH rs"
    and pass: "verify_latest_checkpoint H verify db = Some True"
  shows "list_all2 same_content rs (take (length rs) (persisted_records db)) \<or>
    (\<exists>x y. x \<noteq> y \<and> H x = H y) \<or> (\<exists>x. H x = GENESIS_HASH)"
proof -
  let ?ss = "take (length rs) (persisted_records db)"
  have len: "length rs \<le> length (persisted_records db)"
    and anchored: "ar_row_hash (persisted_records db ! (length rs - 1)) = chain_end GENESIS_HASH rs"
    and chain: "verify_chain H GENESIS_HASH ?ss"
    using pass cp rs(2)
    by (auto simp: verify_latest_checkpoint_def Let_def split: option.splits if_splits)
  have ne: "?ss \<noteq> []" using len rs(2) by auto
  moreover have "last ?ss = persisted_records db ! (length rs - 1)"
    using len rs(2) last_conv_nth [OF ne] by simp
  ultimately have "chain_end GENESIS_HASH ?ss = chain_end GENESIS_HASH rs"
    using anchored chain_end_last [of ?ss GENESIS_HASH] by metis
  with chain_tamper_evident_core [OF rs(1) chain] show ?thesis by auto
qed

theorem checkpoint_anchors_prefix_witness:
  "let db = snd (write_checkpoint (\<lambda>m. m) ''k1'' sample_db)
   in verify_latest_checkpoint mark_hash (\<lambda>m s. s = m) db = Some True \<and>
      list_all2 same_content sample_log (take 2 (persisted_records db))"
proof -
  let ?cp = "\<lparr>cp_seq = 2, cp_row_hash = ar_row_hash (sample_log ! 1),
      cp_signature = bytes_hex (checkpoint_message 2 (ar_row_hash (sample_log ! 1))), cp_key_id = ''k1''\<rparr>"
  let ?db = "snd (write_checkpoint (\<lambda>m. m) ''k1'' sample_db)"
  have db: "latest_checkpoint ?db = Some ?cp" "length sample_log = 2" "sample_log \<noteq> []"
    "chain_end GENESIS_HASH sample_log = ar_row_hash (sample_log ! 1)" "persisted_records ?db = sample_log"
    using persisted_sample_db
    by (simp_all add: latest_checkpoint_def write_checkpoint_def sample_db_def sample_log_def Let_def
        persisted_records_def)
  have "verify_latest_checkpoint mark_hash (\<lambda>m s. s = m) ?db = Some True"
    unfolding verify_latest_checkpoint_def db using sample_log_verifies db(2,3) by (simp add: Let_def)
  with checkpoint_anchors_prefix [OF sample_log_verifies db(3,1)] db show ?thesis
    by (simp add: mark_hash_inj Let_def)
qed

end
