(* ===== verification/Timestamps.thy ===== *)
theory Timestamps
  imports Prelude
begin

text \<open>
  Python's \<open>datetime\<close> as the components use it: naive and aware values, reading a stored value as
  UTC, and \<open>isoformat\<close>, whose text goes into what is signed. An instant is a number of
  microseconds since 0001-01-01T00:00 UTC, the least value Python represents.
\<close>

section \<open>Values\<close>

text \<open>A value is naive (no zone: it lost its zone in a database round trip) or aware: an instant in
  UTC, and the offset of its zone in minutes.\<close>

datatype datetime = Naive int | Aware int int

text \<open>\<open>_as_utc\<close>, which the source repeats in each module that reads a stored time: a naive value
  is read as UTC. The result is the instant.\<close>

fun as_utc :: "datetime \<Rightarrow> int" where
  "as_utc (Naive t) = t"
| "as_utc (Aware t off) = t"

abbreviation utc :: "int \<Rightarrow> datetime" where
  "utc t \<equiv> Aware t 0"

definition seconds :: "int \<Rightarrow> int" where
  "seconds n = n * 1000000"

text \<open>The clock time a value shows, and the range Python keeps it in (the years 1 to 9999).\<close>

fun wall :: "datetime \<Rightarrow> int" where
  "wall (Naive t) = t"
| "wall (Aware t off) = t + seconds (60 * off)"

fun zone_ok :: "datetime \<Rightarrow> bool" where
  "zone_ok (Naive t) = True"
| "zone_ok (Aware t off) = (\<bar>off\<bar> < 1440)"

definition datetime_ok :: "datetime \<Rightarrow> bool" where
  "datetime_ok d \<longleftrightarrow> 0 \<le> wall d \<and> wall d < seconds (3652059 * 86400) \<and> zone_ok d"

section \<open>Calendar dates\<close>

definition is_leap :: "nat \<Rightarrow> bool" where
  "is_leap y \<longleftrightarrow> 4 dvd y \<and> (\<not> 100 dvd y \<or> 400 dvd y)"

definition month_lengths :: "bool \<Rightarrow> nat list" where
  "month_lengths leap = [31, if leap then 29 else 28, 31, 30, 31, 30, 31, 31, 30, 31, 30, 31]"

text \<open>The month and the day of the \<open>r\<close>-th day of a year, counted from 0.\<close>

fun month_day :: "nat list \<Rightarrow> nat \<Rightarrow> nat \<times> nat" where
  "month_day [] r = (1, Suc r)"
| "month_day (l # ls) r =
     (if r < l then (1, Suc r) else (case month_day ls (r - l) of (m, d) \<Rightarrow> (Suc m, d)))"

text \<open>The date of a day, counted from 0001-01-01, by cycles of 400, 100, 4 and 1 years.\<close>

definition ord2ymd :: "nat \<Rightarrow> nat \<times> nat \<times> nat" where
  "ord2ymd n =
     (let n400 = n div 146097; n = n mod 146097;
          n100 = n div 36524; n = n mod 36524;
          n4 = n div 1461; n = n mod 1461;
          n1 = n div 365; n = n mod 365;
          year = 400 * n400 + 100 * n100 + 4 * n4 + n1 + 1
      in if n1 = 4 \<or> n100 = 4 then (year - 1, 12, 31)
         else (year, month_day (month_lengths (is_leap year)) n))"

definition ymd2ord :: "nat \<times> nat \<times> nat \<Rightarrow> nat" where
  "ymd2ord d = (case d of (year, month, day) \<Rightarrow>
     (let y = year - 1
      in y * 365 + y div 4 - y div 100 + y div 400 +
         sum_list (take (month - 1) (month_lengths (is_leap year))) + (day - 1)))"

lemma div_next_multiple: "k < m \<Longrightarrow> (m * a + k) div m = (a::nat)"
  by simp

lemma cycle_split:
  fixes a b c d :: nat
  assumes "b < 4" "c < 25" "d < 4"
  shows "(400 * a + 100 * b + 4 * c + d) div 4 = 100 * a + 25 * b + c"
    and "(400 * a + 100 * b + 4 * c + d) div 100 = 4 * a + b"
    and "(400 * a + 100 * b + 4 * c + d) div 400 = a"
proof -
  have "100 * b + (4 * c + d) < 400" "4 * c + d < 100" using assms by simp_all
  with div_next_multiple [of d 4 "100 * a + 25 * b + c"]
    div_next_multiple [of "4 * c + d" 100 "4 * a + b"] div_next_multiple [of "100 * b + (4 * c + d)" 400 a] assms
  show "(400 * a + 100 * b + 4 * c + d) div 4 = 100 * a + 25 * b + c"
    and "(400 * a + 100 * b + 4 * c + d) div 100 = 4 * a + b"
    and "(400 * a + 100 * b + 4 * c + d) div 400 = a"
    by (simp_all add: algebra_simps)
qed

lemma dvd_next_multiple:
  fixes k m a :: nat
  assumes "0 < k" "k \<le> m"
  shows "m dvd m * a + k \<longleftrightarrow> k = m"
proof -
  have "m dvd m * a + k \<longleftrightarrow> m dvd k" by (simp add: dvd_add_right_iff)
  with assms show ?thesis by (auto dest: dvd_imp_le)
qed

lemma is_leap_split:
  fixes a b c d :: nat
  assumes "b < 4" "c < 25" "d < 4"
  shows "is_leap (400 * a + 100 * b + 4 * c + d + 1) \<longleftrightarrow> d = 3 \<and> (c \<noteq> 24 \<or> b = 3)"
proof -
  have "4 dvd 4 * (100 * a + 25 * b + c) + (d + 1) \<longleftrightarrow> d + 1 = 4"
    "100 dvd 100 * (4 * a + b) + (4 * c + d + 1) \<longleftrightarrow> 4 * c + d + 1 = 100"
    "400 dvd 400 * a + (100 * b + 4 * c + d + 1) \<longleftrightarrow> 100 * b + 4 * c + d + 1 = 400"
    using assms by (intro dvd_next_multiple; linarith)+
  then have "4 dvd 400 * a + 100 * b + 4 * c + d + 1 \<longleftrightarrow> d = 3"
    "100 dvd 400 * a + 100 * b + 4 * c + d + 1 \<longleftrightarrow> c = 24 \<and> d = 3"
    "400 dvd 400 * a + 100 * b + 4 * c + d + 1 \<longleftrightarrow> b = 3 \<and> c = 24 \<and> d = 3"
    using assms by (simp_all add: algebra_simps) linarith+
  then show ?thesis by (auto simp: is_leap_def)
qed

lemma month_day_inverse:
  assumes "month_day ls r = (m, d)" "r < sum_list ls"
  shows "1 \<le> m \<and> m \<le> length ls \<and> 1 \<le> d \<and> d \<le> ls ! (m - 1) \<and> sum_list (take (m - 1) ls) + (d - 1) = r"
  using assms
proof (induction ls r arbitrary: m rule: month_day.induct)
  case (2 l ls r)
  show ?case
  proof (cases "r < l")
    case False
    then obtain m' where m': "month_day ls (r - l) = (m', d)" "m = Suc m'"
      using "2.prems"(1) by (auto split: prod.splits)
    from False "2.prems"(2) have "r - l < sum_list ls" by simp
    with "2.IH" [OF False m'(1)] m'(2) False show ?thesis
      by (cases m') auto
  qed (use "2.prems" in auto)
qed simp

lemma sum_month_lengths: "sum_list (month_lengths leap) = (if leap then 366 else 365)"
  by (simp add: month_lengths_def)

lemma ord2ymd_inverse: "ymd2ord (ord2ymd n) = n"
proof -
  define a where "a = n div 146097" define n1 where "n1 = n mod 146097"
  define b where "b = n1 div 36524" define n2 where "n2 = n1 mod 36524"
  define c where "c = n2 div 1461" define n3 where "n3 = n2 mod 1461"
  define d where "d = n3 div 365" define r where "r = n3 mod 365"
  note defs = a_def n1_def b_def n2_def c_def n3_def d_def r_def
  have eqs: "n = 146097 * a + n1" "n1 = 36524 * b + n2" "n2 = 1461 * c + n3" "n3 = 365 * d + r"
    by (simp_all add: defs)
  have lts: "n1 < 146097" "n2 < 36524" "n3 < 1461" "r < 365"
    by (simp_all add: n1_def n2_def n3_def r_def)
  have c: "c < 25" using eqs(3) lts by linarith
  have b: "b < 4 \<or> b = 4 \<and> n2 = 0" using eqs(2) lts by linarith
  have d: "d < 4 \<or> d = 4 \<and> r = 0" using eqs(4) lts by linarith
  let ?y = "400 * a + 100 * b + 4 * c + d + 1"
  have ymd: "ord2ymd n = (if d = 4 \<or> b = 4 then (?y - 1, 12, 31)
      else (?y, month_day (month_lengths (is_leap ?y)) r))"
    by (simp add: ord2ymd_def Let_def flip: n1_def n2_def n3_def a_def b_def c_def d_def r_def)
  consider "b < 4" "d < 4" | "b < 4" "d = 4" "r = 0" | "b = 4" "n2 = 0" using b d by blast
  then show ?thesis
  proof cases
    case 1
    obtain m day where md: "month_day (month_lengths (is_leap ?y)) r = (m, day)" by fastforce
    have "r < sum_list (month_lengths (is_leap ?y))" using lts(4) by (simp add: sum_month_lengths)
    from month_day_inverse [OF md this] have
      "sum_list (take (m - 1) (month_lengths (is_leap ?y))) + (day - 1) = r" by simp
    then have "ymd2ord (?y, m, day) = (400 * a + 100 * b + 4 * c + d) * 365 + (100 * a + 25 * b + c) - (4 * a + b) + a + r"
      unfolding ymd2ord_def Let_def prod.case add_diff_cancel_right' cycle_split [OF 1(1) c 1(2)] by (simp only: add.assoc)
    moreover have "ord2ymd n = (?y, m, day)" using ymd 1 md by simp
    ultimately show ?thesis unfolding eqs by simp
  next
    case 2
    have c24: "c \<noteq> 24" using eqs(3,4) 2(2,3) lts(2) by auto
    have leap: "is_leap (400 * a + 100 * b + 4 * c + 3 + 1)"
      using is_leap_split [OF 2(1) c, of 3 a] c24 by simp
    have "ord2ymd n = (400 * a + 100 * b + 4 * c + 3 + 1, 12, 31)" using ymd 2 by simp
    with leap 2 eqs cycle_split [OF 2(1) c, of 3 a] show ?thesis
      by (simp add: ymd2ord_def month_lengths_def Let_def ac_simps)
  next
    case 3
    then have z: "c = 0" "d = 0" "r = 0" using eqs by auto
    have leap: "is_leap (400 * a + 100 * 3 + 4 * 24 + 3 + 1)"
      using is_leap_split [of 3 24 3 a] by simp
    have "ord2ymd n = (400 * a + 100 * 3 + 4 * 24 + 3 + 1, 12, 31)" using ymd 3 z by simp
    with leap 3 z eqs cycle_split [of 3 24 3 a] show ?thesis
      by (simp add: ymd2ord_def month_lengths_def Let_def ac_simps)
  qed
qed

section \<open>The text of a timestamp\<close>

text \<open>A number in \<open>k\<close> decimal digits.\<close>

fun zpad :: "nat \<Rightarrow> nat \<Rightarrow> string" where
  "zpad 0 n = []"
| "zpad (Suc k) n = zpad k (n div 10) @ [digit_char (n mod 10)]"

definition iso_date :: "nat \<Rightarrow> string" where
  "iso_date n = (case ord2ymd n of (y, m, d) \<Rightarrow> zpad 4 y @ ''-'' @ zpad 2 m @ ''-'' @ zpad 2 d)"

definition iso_time :: "nat \<Rightarrow> string" where
  "iso_time s = zpad 2 (s div 3600) @ '':'' @ zpad 2 (s div 60 mod 60) @ '':'' @ zpad 2 (s mod 60)"

fun iso_zone :: "datetime \<Rightarrow> string" where
  "iso_zone (Naive t) = []"
| "iso_zone (Aware t off) =
     (if off < 0 then ''-'' else ''+'') @ zpad 2 (nat \<bar>off\<bar> div 60) @ '':'' @ zpad 2 (nat \<bar>off\<bar> mod 60)"

text \<open>\<open>d.isoformat()\<close>: the fraction is left out when it is zero.\<close>

definition iso_fraction :: "nat \<Rightarrow> string" where
  "iso_fraction f = (if f = 0 then [] else ''.'' @ zpad 6 f)"

definition isoformat :: "datetime \<Rightarrow> string" where
  "isoformat d =
     (let us = nat (wall d); s = us div 1000000
      in iso_date (s div 86400) @ ''T'' @ iso_time (s mod 86400) @ iso_fraction (us mod 1000000) @ iso_zone d)"

lemma length_zpad [simp]: "length (zpad k n) = k"
  by (induction k n rule: zpad.induct) auto

lemma div_mod_eqI: "\<lbrakk> m div k = n div k; m mod k = n mod k \<rbrakk> \<Longrightarrow> m = (n::nat)"
proof -
  assume eqs: "m div k = n div k" "m mod k = n mod k"
  have "m = m div k * k + m mod k" by simp
  also have "\<dots> = n" unfolding eqs by simp
  finally show ?thesis .
qed

lemma digit_char_inj: "\<lbrakk> digit_char d = digit_char e; d < 10; e < 10 \<rbrakk> \<Longrightarrow> d = e"
  by (metis add_left_cancel of_char_digit_char)

lemma zpad_inj: "\<lbrakk> zpad k m = zpad k n; m < 10 ^ k; n < 10 ^ k \<rbrakk> \<Longrightarrow> m = n"
proof (induction k arbitrary: m n)
  case (Suc k)
  have d: "m mod 10 = n mod 10"
    using Suc.prems(1) by (intro digit_char_inj) simp_all
  have "m div 10 = n div 10"
    by (rule Suc.IH) (use Suc.prems in \<open>simp_all add: less_mult_imp_div_less mult.commute\<close>)
  with d show ?case by (blast intro: div_mod_eqI)
qed simp

lemma month_day_bounds:
  assumes "month_day (month_lengths leap) r = (m, d)" "r < 365"
  shows "m \<le> 12" "d \<le> 31"
proof -
  have "r < sum_list (month_lengths leap)" using assms(2) by (simp add: sum_month_lengths)
  from month_day_inverse [OF assms(1) this]
  have "1 \<le> m" "m \<le> length (month_lengths leap)" "d \<le> month_lengths leap ! (m - 1)" by simp_all
  moreover have "\<forall>l \<in> set (month_lengths leap). l \<le> 31" "length (month_lengths leap) = 12"
    by (simp_all add: month_lengths_def)
  ultimately show "m \<le> 12" "d \<le> 31"
    by (auto intro: order_trans [OF _ bspec [OF _ nth_mem]])
qed

lemma year_bound:
  fixes y :: nat
  assumes "y * 365 + y div 4 - y div 100 + y div 400 < 3652059"
  shows "y < 9999"
proof (rule ccontr)
  assume "\<not> y < 9999"
  then obtain k where y: "y = 9999 + k" by (metis le_Suc_ex not_less)
  have "2499 \<le> y div 4" "24 \<le> y div 400"
    using div_le_mono [of 9999 y 4] div_le_mono [of 9999 y 400] y by simp_all
  moreover have "y div 100 \<le> 99 + k"
    using less_mult_imp_div_less [of y "100 + k" 100] y by simp
  ultimately show False using assms y by simp
qed

lemma ymd_bounds:
  assumes "n < 3652059" "ord2ymd n = (y, m, d)"
  shows "y < 10 ^ 4" "m < 10 ^ 2" "d < 10 ^ 2"
proof -
  have "ymd2ord (y, m, d) = n" using ord2ymd_inverse [of n] assms(2) by simp
  with assms(1) div_le_dividend [of "y - 1" 100] have "y - 1 < 9999"
    unfolding ymd2ord_def Let_def prod.case by (intro year_bound) linarith
  then show "y < 10 ^ 4" by simp
  have "m \<le> 12 \<and> d \<le> 31"
    using assms(2) month_day_bounds [OF _ mod_less_divisor]
    unfolding ord2ymd_def Let_def prod.inject by (simp split: if_split_asm) blast
  then show "m < 10 ^ 2" "d < 10 ^ 2" by simp_all
qed

lemma iso_date_inj:
  assumes "m < 3652059" "n < 3652059" "iso_date m = iso_date n"
  shows "m = n"
proof -
  obtain y mo d y' mo' d' where ymd: "ord2ymd m = (y, mo, d)" "ord2ymd n = (y', mo', d')"
    by (metis prod_cases3)
  have "y = y' \<and> mo = mo' \<and> d = d'"
    using assms(3) ymd_bounds [OF assms(1) ymd(1)] ymd_bounds [OF assms(2) ymd(2)]
    by (auto simp: iso_date_def ymd dest: zpad_inj)
  with ymd ord2ymd_inverse [of m] ord2ymd_inverse [of n] show ?thesis by simp
qed

lemma length_iso_date [simp]: "length (iso_date n) = 10"
  by (simp add: iso_date_def split: prod.splits)

lemma length_iso_time [simp]: "length (iso_time n) = 8"
  by (simp add: iso_time_def)

lemma sixty: "(k::nat) mod 60 < 10 ^ 2"
  using mod_less_divisor [of 60 k] by simp

lemma iso_time_inj:
  assumes "m < 86400" "n < 86400" "iso_time m = iso_time n"
  shows "m = n"
proof -
  have eqs: "zpad 2 (m div 3600) = zpad 2 (n div 3600)"
    "zpad 2 (m div 60 mod 60) = zpad 2 (n div 60 mod 60)" "zpad 2 (m mod 60) = zpad 2 (n mod 60)"
    using assms(3) by (auto simp: iso_time_def)
  have h: "m div 60 div 60 = n div 60 div 60"
    using zpad_inj [OF eqs(1)] assms(1,2) by (simp add: div_less_iff_less_mult flip: div_mult2_eq)
  have "m div 60 = n div 60"
    using zpad_inj [OF eqs(2) sixty sixty] h by (blast intro: div_mod_eqI)
  moreover have "m mod 60 = n mod 60" by (rule zpad_inj [OF eqs(3) sixty sixty])
  ultimately show ?thesis by (rule div_mod_eqI)
qed

lemma iso_zone_inj:
  assumes "zone_ok d" "zone_ok e" "iso_zone d = iso_zone e" "wall d = wall e"
  shows "d = e"
proof (cases d; cases e)
  fix t off t' off'
  assume de: "d = Aware t off" "e = Aware t' off'"
  let ?n = "nat \<bar>off\<bar>" and ?m = "nat \<bar>off'\<bar>"
  have lt: "?n < 1440" "?m < 1440" using assms(1,2) de by simp_all
  have z: "zpad 2 (?n div 60) = zpad 2 (?m div 60)" "zpad 2 (?n mod 60) = zpad 2 (?m mod 60)"
    and sign: "off < 0 \<longleftrightarrow> off' < 0"
    using assms(3) de by (auto split: if_splits)
  have "?n div 60 = ?m div 60"
    using lt zpad_inj [OF z(1)] by (simp add: div_less_iff_less_mult)
  moreover have "?n mod 60 = ?m mod 60" by (rule zpad_inj [OF z(2) sixty sixty])
  ultimately have "?n = ?m" by (rule div_mod_eqI)
  with sign have "off = off'" by linarith
  with assms(4) de show ?thesis by simp
qed (use assms in \<open>auto split: if_splits\<close>)

lemma hd_iso_zone: "iso_zone d = c # r \<Longrightarrow> c \<in> {CHR ''+'', CHR ''-''}"
  by (cases d) (auto split: if_splits)

lemma iso_tail_inj:
  assumes "f < 1000000" "g < 1000000" "iso_fraction f @ iso_zone d = iso_fraction g @ iso_zone e"
  shows "f = g \<and> iso_zone d = iso_zone e"
proof (cases "f = 0 \<or> g = 0")
  case True
  with assms(3) hd_iso_zone [of d "CHR ''.''"] hd_iso_zone [of e "CHR ''.''"] show ?thesis
    by (auto simp: iso_fraction_def split: if_splits) (metis list.simps(3))+
next
  case False
  with assms(3) have "zpad 6 f = zpad 6 g" "iso_zone d = iso_zone e"
    by (auto simp: iso_fraction_def)
  with zpad_inj [of 6 f g] assms(1,2) show ?thesis by simp
qed

theorem isoformat_inj:
  assumes d: "datetime_ok d" and e: "datetime_ok e" and eq: "isoformat d = isoformat e"
  shows "d = e"
proof -
  define us where "us = nat (wall d)" define vs where "vs = nat (wall e)"
  have lt: "us < 1000000 * (86400 * 3652059)" "vs < 1000000 * (86400 * 3652059)"
    using d e by (simp_all add: datetime_ok_def us_def vs_def seconds_def nat_less_iff)
  have parts: "iso_date (us div 1000000 div 86400) = iso_date (vs div 1000000 div 86400)"
    "iso_time (us div 1000000 mod 86400) = iso_time (vs div 1000000 mod 86400)"
    "iso_fraction (us mod 1000000) @ iso_zone d = iso_fraction (vs mod 1000000) @ iso_zone e"
    using eq by (simp_all add: isoformat_def Let_def us_def vs_def)
  have "us div 1000000 div 86400 = vs div 1000000 div 86400"
    using lt by (intro iso_date_inj [OF _ _ parts(1)] less_mult_imp_div_less) (simp_all add: mult.commute)
  moreover have "us div 1000000 mod 86400 = vs div 1000000 mod 86400"
    by (rule iso_time_inj [OF _ _ parts(2)]) simp_all
  ultimately have "us div 1000000 = vs div 1000000" by (rule div_mod_eqI)
  moreover have tail: "us mod 1000000 = vs mod 1000000" "iso_zone d = iso_zone e"
    using iso_tail_inj [OF _ _ parts(3)] by simp_all
  ultimately have "us = vs" by (blast intro: div_mod_eqI)
  then have "wall d = wall e" using d e by (simp add: us_def vs_def datetime_ok_def eq_nat_nat_iff)
  with iso_zone_inj tail(2) d e show ?thesis by (simp add: datetime_ok_def)
qed

end
