(* ===== verification/Jobs.thy ===== *)
theory Jobs
  imports Json Timestamps
begin

text \<open>
  Remediation plans (\<open>core/remediation/plan.py\<close>) and the jobs that carry them to an agent
  (\<open>core/remediation/job.py\<close>): the data, the plan builder, and the canonical bytes a job's
  signature covers. Every field constraint of the pydantic models is a check that can fail.
\<close>

section \<open>Plans\<close>

datatype plan_action = QUARANTINE | HARDLINK | HARD_DELETE | MOVE

fun action_value :: "plan_action \<Rightarrow> string" where
  "action_value QUARANTINE = ''quarantine''"
| "action_value HARDLINK = ''hardlink''"
| "action_value HARD_DELETE = ''hard_delete''"
| "action_value MOVE = ''move''"

text \<open>\<open>entry_id: int | str\<close>, and \<open>str(entry_id)\<close>.\<close>

datatype entry_id = Id_Int int | Id_Str string

fun str_entry_id :: "entry_id \<Rightarrow> string" where
  "str_entry_id (Id_Int i) = str_int i"
| "str_entry_id (Id_Str s) = s"

record member =
  mb_entry_id :: entry_id
  mb_path :: string
  mb_inode :: int
  mb_size :: int

record plan_item =
  pi_entry_id :: entry_id
  pi_path :: string
  pi_prior_inode :: int
  pi_prior_size :: int
  pi_prior_hash :: "string option"
  pi_action :: plan_action
  pi_dest_rel :: "string option"

record remediation_plan =
  rp_plan_id :: string
  rp_created_by :: string
  rp_keeper_path :: string
  rp_items :: "plan_item list"
  rp_move_root :: "string option"

text \<open>The constraints pydantic enforces on construction (\<open>ge\<close>, \<open>min_length\<close>).\<close>

definition plan_item_valid :: "plan_item \<Rightarrow> bool" where
  "plan_item_valid it \<longleftrightarrow> 0 \<le> pi_prior_size it"

definition plan_valid :: "remediation_plan \<Rightarrow> bool" where
  "plan_valid p \<longleftrightarrow> rp_plan_id p \<noteq> [] \<and> rp_created_by p \<noteq> [] \<and> rp_items p \<noteq> [] \<and>
     list_all plan_item_valid (rp_items p)"

datatype plan_error = Keep_Not_A_Member | No_Actionable_Items | Plan_Validation_Error

definition build_plan ::
    "string \<Rightarrow> string \<Rightarrow> member list \<Rightarrow> entry_id \<Rightarrow> string \<Rightarrow> plan_action \<Rightarrow> (plan_error, remediation_plan) result" where
  "build_plan plan_id created_by members keep_id full_hash action =
     (case find (\<lambda>m. mb_entry_id m = keep_id) members of
        None \<Rightarrow> Inl Keep_Not_A_Member
      | Some keeper \<Rightarrow>
          (let items = map (\<lambda>m. \<lparr>pi_entry_id = mb_entry_id m, pi_path = mb_path m,
                 pi_prior_inode = mb_inode m, pi_prior_size = mb_size m,
                 pi_prior_hash = Some full_hash, pi_action = action, pi_dest_rel = None\<rparr>)
               (filter (\<lambda>m. mb_entry_id m \<noteq> keep_id) members)
           in if \<not> list_all plan_item_valid items then Inl Plan_Validation_Error
              else if items = [] then Inl No_Actionable_Items
              else
                let plan = \<lparr>rp_plan_id = plan_id, rp_created_by = created_by,
                      rp_keeper_path = mb_path keeper, rp_items = items, rp_move_root = None\<rparr>
                in if plan_valid plan then Inr plan else Inl Plan_Validation_Error))"

section \<open>Jobs\<close>

datatype job_mode = Dry_Run | Execute

fun job_mode_value :: "job_mode \<Rightarrow> string" where
  "job_mode_value Dry_Run = ''dry_run''"
| "job_mode_value Execute = ''execute''"

datatype scan_mode = Metadata | Fullbit

fun scan_mode_value :: "scan_mode \<Rightarrow> string" where
  "scan_mode_value Metadata = ''metadata''"
| "scan_mode_value Fullbit = ''fullbit''"

record action_job =
  aj_plan_id :: string
  aj_mode :: job_mode
  aj_nonce :: string
  aj_issued_at :: datetime
  aj_expires_at :: datetime
  aj_host_id :: string
  aj_keeper_path :: string
  aj_items :: "plan_item list"
  aj_move_root :: "string option"

record scan_job =
  sj_nonce :: string
  sj_issued_at :: datetime
  sj_expires_at :: datetime
  sj_host_id :: string
  sj_root :: string
  sj_mode :: scan_mode

text \<open>The union the channel carries, discriminated on \<open>kind\<close>.\<close>

datatype dispatch_job = Action_Job action_job | Scan_Job scan_job

fun job_nonce :: "dispatch_job \<Rightarrow> string" where
  "job_nonce (Action_Job j) = aj_nonce j"
| "job_nonce (Scan_Job j) = sj_nonce j"

fun job_host_id :: "dispatch_job \<Rightarrow> string" where
  "job_host_id (Action_Job j) = aj_host_id j"
| "job_host_id (Scan_Job j) = sj_host_id j"

fun job_issued_at :: "dispatch_job \<Rightarrow> datetime" where
  "job_issued_at (Action_Job j) = aj_issued_at j"
| "job_issued_at (Scan_Job j) = sj_issued_at j"

fun job_expires_at :: "dispatch_job \<Rightarrow> datetime" where
  "job_expires_at (Action_Job j) = aj_expires_at j"
| "job_expires_at (Scan_Job j) = sj_expires_at j"

definition action_job_valid :: "action_job \<Rightarrow> bool" where
  "action_job_valid j \<longleftrightarrow> aj_plan_id j \<noteq> [] \<and> 16 \<le> length (aj_nonce j) \<and> aj_host_id j \<noteq> [] \<and>
     aj_keeper_path j \<noteq> [] \<and> aj_items j \<noteq> [] \<and> list_all plan_item_valid (aj_items j) \<and>
     datetime_ok (aj_issued_at j) \<and> datetime_ok (aj_expires_at j)"

definition scan_job_valid :: "scan_job \<Rightarrow> bool" where
  "scan_job_valid j \<longleftrightarrow> 16 \<le> length (sj_nonce j) \<and> sj_host_id j \<noteq> [] \<and> sj_root j \<noteq> [] \<and>
     datetime_ok (sj_issued_at j) \<and> datetime_ok (sj_expires_at j)"

fun job_valid :: "dispatch_job \<Rightarrow> bool" where
  "job_valid (Action_Job j) = action_job_valid j"
| "job_valid (Scan_Job j) = scan_job_valid j"

fun json_opt :: "string option \<Rightarrow> json" where
  "json_opt None = JNull"
| "json_opt (Some s) = JStr s"

definition item_payload :: "plan_item \<Rightarrow> json" where
  "item_payload it = JObj
     [(''entry_id'', JStr (str_entry_id (pi_entry_id it))), (''path'', JStr (pi_path it)),
      (''prior_inode'', JInt (pi_prior_inode it)), (''prior_size'', JInt (pi_prior_size it)),
      (''prior_hash'', json_opt (pi_prior_hash it)), (''action'', JStr (action_value (pi_action it))),
      (''dest_rel'', json_opt (pi_dest_rel it))]"

definition action_canonical_bytes :: "action_job \<Rightarrow> string" where
  "action_canonical_bytes j = utf8 (json_dumps (JObj
     [(''plan_id'', JStr (aj_plan_id j)), (''mode'', JStr (job_mode_value (aj_mode j))),
      (''nonce'', JStr (aj_nonce j)), (''issued_at'', JStr (isoformat (aj_issued_at j))),
      (''expires_at'', JStr (isoformat (aj_expires_at j))), (''host_id'', JStr (aj_host_id j)),
      (''keeper_path'', JStr (aj_keeper_path j)), (''move_root'', json_opt (aj_move_root j)),
      (''items'', JList (map item_payload (aj_items j)))]))"

definition scan_canonical_bytes :: "scan_job \<Rightarrow> string" where
  "scan_canonical_bytes j = utf8 (json_dumps (JObj
     [(''kind'', JStr ''scan_now''), (''nonce'', JStr (sj_nonce j)),
      (''issued_at'', JStr (isoformat (sj_issued_at j))),
      (''expires_at'', JStr (isoformat (sj_expires_at j))), (''host_id'', JStr (sj_host_id j)),
      (''root'', JStr (sj_root j)), (''mode'', JStr (scan_mode_value (sj_mode j)))]))"

fun canonical_bytes :: "dispatch_job \<Rightarrow> string" where
  "canonical_bytes (Action_Job j) = action_canonical_bytes j"
| "canonical_bytes (Scan_Job j) = scan_canonical_bytes j"

fun ledger_ref :: "dispatch_job \<Rightarrow> string" where
  "ledger_ref (Action_Job j) = aj_plan_id j"
| "ledger_ref (Scan_Job j) = ''scan:'' @ sj_host_id j @ '':'' @ sj_root j"

record signed_job =
  sg_job :: dispatch_job
  sg_key_id :: string
  sg_algorithm :: string
  sg_signature :: string

definition signed_job_valid :: "signed_job \<Rightarrow> bool" where
  "signed_job_valid s \<longleftrightarrow> job_valid (sg_job s) \<and> sg_key_id s \<noteq> [] \<and>
     sg_algorithm s \<in> {''ed25519'', ''hmac-sha256''} \<and> sg_signature s \<noteq> []"

section \<open>The plan builder\<close>

text \<open>What a plan built from a group acts on: exactly the members other than the keeper the
  operator chose, in their order, each bound to the state the catalogue knew.\<close>

lemma build_plan_ok:
  assumes "build_plan plan_id created_by members keep_id full_hash action = Inr plan"
  shows "plan_valid plan"
    and "\<exists>keeper \<in> set members. mb_entry_id keeper = keep_id \<and> rp_keeper_path plan = mb_path keeper"
    and "map (\<lambda>it. (pi_entry_id it, pi_path it, pi_prior_inode it, pi_prior_size it)) (rp_items plan) =
      map (\<lambda>m. (mb_entry_id m, mb_path m, mb_inode m, mb_size m)) (filter (\<lambda>m. mb_entry_id m \<noteq> keep_id) members)"
    and "\<forall>it \<in> set (rp_items plan). pi_action it = action \<and> pi_prior_hash it = Some full_hash \<and>
      pi_entry_id it \<noteq> keep_id"
    and "rp_plan_id plan = plan_id" "rp_created_by plan = created_by" "rp_move_root plan = None"
  using assms
  by (auto simp: build_plan_def Let_def find_Some_iff split: option.splits if_splits)

lemma build_plan_fails_iff:
  "\<not> is_ok (build_plan plan_id created_by members keep_id full_hash action) \<longleftrightarrow>
     (\<forall>m \<in> set members. mb_entry_id m \<noteq> keep_id) \<or> (\<forall>m \<in> set members. mb_entry_id m = keep_id) \<or>
     plan_id = [] \<or> created_by = [] \<or> (\<exists>m \<in> set members. mb_entry_id m \<noteq> keep_id \<and> mb_size m < 0)"
  by (auto simp: build_plan_def Let_def find_None_iff find_Some_iff plan_valid_def plan_item_valid_def
      list_all_iff filter_empty_conv not_le split: option.splits)

section \<open>What the signature covers\<close>

text \<open>The part of an item that is signed: all of it, with the entry id as text.\<close>

definition item_signed :: "plan_item \<Rightarrow> plan_item" where
  "item_signed it = it\<lparr>pi_entry_id := Id_Str (str_entry_id (pi_entry_id it))\<rparr>"

text \<open>Two jobs that ask for the same work of the same host at the same time.\<close>

fun same_job :: "dispatch_job \<Rightarrow> dispatch_job \<Rightarrow> bool" where
  "same_job (Action_Job j) (Action_Job k) \<longleftrightarrow>
     j\<lparr>aj_items := map item_signed (aj_items j)\<rparr> = k\<lparr>aj_items := map item_signed (aj_items k)\<rparr>"
| "same_job (Scan_Job j) (Scan_Job k) \<longleftrightarrow> j = k"
| "same_job _ _ \<longleftrightarrow> False"

lemma action_value_inj [simp]: "action_value a = action_value b \<longleftrightarrow> a = b"
  by (cases a; cases b) auto

lemma job_mode_value_inj [simp]: "job_mode_value a = job_mode_value b \<longleftrightarrow> a = b"
  by (cases a; cases b) auto

lemma scan_mode_value_inj [simp]: "scan_mode_value a = scan_mode_value b \<longleftrightarrow> a = b"
  by (cases a; cases b) auto

lemma json_opt_inj [simp]: "json_opt a = json_opt b \<longleftrightarrow> a = b"
  by (cases a; cases b) auto

lemma json_sorted_opt [simp]: "json_sorted (json_opt a) = json_opt a"
  by (cases a) auto

lemma item_payload_inj:
  assumes "json_sorted (item_payload a) = json_sorted (item_payload b)"
  shows "item_signed a = item_signed b"
proof -
  have "pi_path a = pi_path b" "pi_prior_inode a = pi_prior_inode b" "pi_prior_size a = pi_prior_size b"
    "pi_prior_hash a = pi_prior_hash b" "pi_action a = pi_action b" "pi_dest_rel a = pi_dest_rel b"
    "str_entry_id (pi_entry_id a) = str_entry_id (pi_entry_id b)"
    using json_obj_fields [OF assms [unfolded item_payload_def]] by simp_all
  then show ?thesis by (simp add: item_signed_def)
qed

lemma item_payloads_inj:
  "map (\<lambda>it. json_sorted (item_payload it)) xs = map (\<lambda>it. json_sorted (item_payload it)) ys \<Longrightarrow>
     map item_signed xs = map item_signed ys"
proof (induction xs arbitrary: ys)
  case (Cons x xs)
  then obtain y zs where "ys = y # zs" by (cases ys) auto
  with Cons show ?case using item_payload_inj [of x y] by auto
qed simp

lemma action_bytes_inj:
  assumes "action_canonical_bytes j = action_canonical_bytes k" "action_job_valid j" "action_job_valid k"
  shows "same_job (Action_Job j) (Action_Job k)"
proof -
  note fields = json_dumps_obj_fields
    [OF assms(1) [unfolded action_canonical_bytes_def utf8_json_dumps]]
  have "aj_plan_id j = aj_plan_id k" "aj_mode j = aj_mode k" "aj_nonce j = aj_nonce k"
    "isoformat (aj_issued_at j) = isoformat (aj_issued_at k)"
    "isoformat (aj_expires_at j) = isoformat (aj_expires_at k)"
    "aj_host_id j = aj_host_id k" "aj_keeper_path j = aj_keeper_path k" "aj_move_root j = aj_move_root k"
    "map item_signed (aj_items j) = map item_signed (aj_items k)"
    using fields by (auto intro: item_payloads_inj simp: comp_def)
  then show ?thesis
    using assms(2,3) isoformat_inj by (simp add: action_job_valid_def)
qed

lemma scan_bytes_inj:
  assumes "scan_canonical_bytes j = scan_canonical_bytes k" "scan_job_valid j" "scan_job_valid k"
  shows "j = k"
proof -
  note fields = json_dumps_obj_fields
    [OF assms(1) [unfolded scan_canonical_bytes_def utf8_json_dumps]]
  have "sj_mode j = sj_mode k" "sj_nonce j = sj_nonce k" "sj_root j = sj_root k" "sj_host_id j = sj_host_id k"
    "isoformat (sj_issued_at j) = isoformat (sj_issued_at k)"
    "isoformat (sj_expires_at j) = isoformat (sj_expires_at k)"
    using fields by simp_all
  then show ?thesis
    using assms(2,3) isoformat_inj by (simp add: scan_job_valid_def)
qed

lemma action_scan_bytes: "action_canonical_bytes j \<noteq> scan_canonical_bytes k"
proof
  assume "action_canonical_bytes j = scan_canonical_bytes k"
  from json_dumps_obj_keys [OF this [unfolded action_canonical_bytes_def scan_canonical_bytes_def utf8_json_dumps]]
  have "''plan_id'' \<in> fst ` set
      [(''kind'', JStr ''scan_now''), (''nonce'', JStr (sj_nonce k)),
       (''issued_at'', JStr (isoformat (sj_issued_at k))),
       (''expires_at'', JStr (isoformat (sj_expires_at k))), (''host_id'', JStr (sj_host_id k)),
       (''root'', JStr (sj_root k)), (''mode'', JStr (scan_mode_value (sj_mode k)))]"
    by (elim subst) simp
  then show False by simp
qed

lemma canonical_bytes_core:
  assumes "canonical_bytes j = canonical_bytes k" "job_valid j" "job_valid k"
  shows "same_job j k"
proof (cases j)
  case (Action_Job a)
  with assms action_scan_bytes obtain b where "k = Action_Job b" by (cases k) simp_all
  with Action_Job assms show ?thesis by (simp only: canonical_bytes.simps job_valid.simps action_bytes_inj)
next
  case (Scan_Job a)
  with assms action_scan_bytes [symmetric] obtain b where "k = Scan_Job b" by (cases k) simp_all
  with Scan_Job assms scan_bytes_inj show ?thesis by simp
qed

lemma same_job_bytes: "same_job j k \<Longrightarrow> canonical_bytes j = canonical_bytes k"
proof (cases j; cases k)
  fix a b
  assume jk: "same_job j k" "j = Action_Job a" "k = Action_Job b"
  have item: "item_payload it = item_payload (item_signed it)" for it
    by (simp add: item_payload_def item_signed_def)
  have "action_canonical_bytes x = action_canonical_bytes (x\<lparr>aj_items := map item_signed (aj_items x)\<rparr>)" for x
    by (simp add: action_canonical_bytes_def comp_def flip: item)
  with jk show ?thesis by (metis canonical_bytes.simps(1) same_job.simps(1))
qed auto

text \<open>The bytes a signature covers determine the job: two valid jobs have the same canonical bytes
  exactly when they agree on every field (an entry id up to its text), so no field of a job can be
  changed, no item reordered, and no scan command presented as a remediation job, without changing
  what was signed.\<close>

theorem canonical_bytes_determine_job:
  assumes "job_valid j" "job_valid k"
  shows "canonical_bytes j = canonical_bytes k \<longleftrightarrow> same_job j k"
  using assms canonical_bytes_core same_job_bytes by blast

text \<open>A job over one file, and the same job aimed at another file.\<close>

definition sample_item :: plan_item where
  "sample_item = \<lparr>pi_entry_id = Id_Int 7, pi_path = ''/d/b'', pi_prior_inode = 12, pi_prior_size = 3,
     pi_prior_hash = Some ''h'', pi_action = QUARANTINE, pi_dest_rel = None\<rparr>"

definition sample_job :: action_job where
  "sample_job = \<lparr>aj_plan_id = ''p1'', aj_mode = Execute, aj_nonce = ''0123456789abcdef'',
     aj_issued_at = utc (seconds 1000), aj_expires_at = utc (seconds 1300), aj_host_id = ''h1'',
     aj_keeper_path = ''/d/a'', aj_items = [sample_item], aj_move_root = None\<rparr>"

definition sample_scan :: scan_job where
  "sample_scan = \<lparr>sj_nonce = ''fedcba9876543210'', sj_issued_at = utc (seconds 1000),
     sj_expires_at = utc (seconds 1300), sj_host_id = ''h1'', sj_root = ''/d'', sj_mode = Metadata\<rparr>"

lemma sample_job_valid: "job_valid (Action_Job sample_job)"
  by (simp add: sample_job_def action_job_valid_def sample_item_def plan_item_valid_def datetime_ok_def seconds_def)

lemma sample_scan_valid: "job_valid (Scan_Job sample_scan)"
  by (simp add: sample_scan_def scan_job_valid_def datetime_ok_def seconds_def)

lemma sample_retarget_valid:
  "job_valid (Action_Job (sample_job\<lparr>aj_items := [sample_item\<lparr>pi_path := ''/etc/passwd''\<rparr>]\<rparr>))"
  using sample_job_valid by (simp add: sample_job_def action_job_valid_def sample_item_def plan_item_valid_def)

theorem canonical_bytes_determine_job_witness:
  "canonical_bytes (Action_Job sample_job) \<noteq>
     canonical_bytes (Action_Job (sample_job\<lparr>aj_items := [sample_item\<lparr>pi_path := ''/etc/passwd''\<rparr>]\<rparr>)) \<and>
   canonical_bytes (Action_Job sample_job) \<noteq> canonical_bytes (Scan_Job sample_scan)"
  unfolding canonical_bytes_determine_job [OF sample_job_valid sample_retarget_valid]
    canonical_bytes_determine_job [OF sample_job_valid sample_scan_valid]
  by (simp add: sample_job_def sample_item_def item_signed_def)

lemma build_plan_members:
  assumes "build_plan plan_id created_by members keep_id full_hash action = Inr plan"
    and "distinct (map mb_path members)"
  shows "plan_valid plan"
    and "map (\<lambda>it. (pi_entry_id it, pi_path it, pi_prior_inode it, pi_prior_size it)) (rp_items plan) =
      map (\<lambda>m. (mb_entry_id m, mb_path m, mb_inode m, mb_size m)) (filter (\<lambda>m. mb_entry_id m \<noteq> keep_id) members)"
    and "\<forall>it \<in> set (rp_items plan). pi_action it = action \<and> pi_prior_hash it = Some full_hash \<and>
      pi_path it \<noteq> rp_keeper_path plan"
    and "\<exists>keeper \<in> set members. mb_entry_id keeper = keep_id \<and> rp_keeper_path plan = mb_path keeper"
proof -
  note ok = build_plan_ok [OF assms(1)]
  show "plan_valid plan" by (rule ok)
  show items: "map (\<lambda>it. (pi_entry_id it, pi_path it, pi_prior_inode it, pi_prior_size it)) (rp_items plan) =
      map (\<lambda>m. (mb_entry_id m, mb_path m, mb_inode m, mb_size m)) (filter (\<lambda>m. mb_entry_id m \<noteq> keep_id) members)"
    by (rule ok)
  from ok(2) obtain keeper where k: "keeper \<in> set members" "mb_entry_id keeper = keep_id" "rp_keeper_path plan = mb_path keeper"
    by blast
  then show "\<exists>keeper \<in> set members. mb_entry_id keeper = keep_id \<and> rp_keeper_path plan = mb_path keeper" by blast
  have "pi_path it \<noteq> mb_path keeper" if "it \<in> set (rp_items plan)" for it
  proof -
    from that have "(pi_entry_id it, pi_path it, pi_prior_inode it, pi_prior_size it) \<in>
      set (map (\<lambda>it. (pi_entry_id it, pi_path it, pi_prior_inode it, pi_prior_size it)) (rp_items plan))" by simp
    then obtain m where "m \<in> set members" "mb_entry_id m \<noteq> keep_id" "pi_path it = mb_path m"
      unfolding items by auto
    with k assms(2) show ?thesis by (auto simp: distinct_map dest: inj_onD)
  qed
  with ok(4) k(3) show "\<forall>it \<in> set (rp_items plan). pi_action it = action \<and> pi_prior_hash it = Some full_hash \<and>
      pi_path it \<noteq> rp_keeper_path plan" by auto
qed

text \<open>A plan acts on every member of the group except the keeper the operator named, in order, each
  with the inode, size and content hash known when the plan was made; where the members have
  different paths, no item has the keeper's path. The plan keeps every constraint of its type.\<close>

theorem build_plan_spares_keeper:
  assumes "build_plan plan_id created_by members keep_id full_hash action = Inr plan"
    and "distinct (map mb_path members)"
  shows "plan_valid plan \<and>
    map (\<lambda>it. (pi_entry_id it, pi_path it, pi_prior_inode it, pi_prior_size it)) (rp_items plan) =
      map (\<lambda>m. (mb_entry_id m, mb_path m, mb_inode m, mb_size m)) (filter (\<lambda>m. mb_entry_id m \<noteq> keep_id) members) \<and>
    (\<forall>it \<in> set (rp_items plan). pi_action it = action \<and> pi_prior_hash it = Some full_hash \<and>
      pi_path it \<noteq> rp_keeper_path plan) \<and>
    (\<exists>keeper \<in> set members. mb_entry_id keeper = keep_id \<and> rp_keeper_path plan = mb_path keeper)"
  by (intro conjI build_plan_members [OF assms])

definition sample_members :: "member list" where
  "sample_members = [\<lparr>mb_entry_id = Id_Int 1, mb_path = ''/d/a'', mb_inode = 11, mb_size = 3\<rparr>,
     \<lparr>mb_entry_id = Id_Int 2, mb_path = ''/d/b'', mb_inode = 12, mb_size = 3\<rparr>]"

definition sample_plan :: remediation_plan where
  "sample_plan = \<lparr>rp_plan_id = ''p1'', rp_created_by = ''op'', rp_keeper_path = ''/d/a'',
     rp_items = [\<lparr>pi_entry_id = Id_Int 2, pi_path = ''/d/b'', pi_prior_inode = 12, pi_prior_size = 3,
       pi_prior_hash = Some ''h'', pi_action = QUARANTINE, pi_dest_rel = None\<rparr>], rp_move_root = None\<rparr>"

theorem build_plan_spares_keeper_witness:
  "plan_valid sample_plan \<and> rp_keeper_path sample_plan \<notin> pi_path ` set (rp_items sample_plan)"
proof -
  have "build_plan ''p1'' ''op'' sample_members (Id_Int 1) ''h'' QUARANTINE = Inr sample_plan"
    "distinct (map mb_path sample_members)"
    by (simp_all add: build_plan_def sample_members_def sample_plan_def plan_valid_def plan_item_valid_def Let_def)
  from build_plan_spares_keeper [OF this] show ?thesis by (auto simp: image_iff)
qed

end
