(* ===== verification/Base64.thy ===== *)
theory Base64
  imports Prelude
begin

text \<open>
  \<open>base64.b64encode\<close> and \<open>base64.b64decode\<close> of the Python standard library, in the lenient mode the
  signing module uses: characters outside the alphabet are skipped, a complete pad sequence ends the
  input, and a non-ASCII character or a short last group raises \<open>ValueError\<close> (here \<^const>\<open>None\<close>).
  The round trip is what lets a verifier see the bytes a signer produced.
\<close>

definition b64_char :: "nat \<Rightarrow> char" where
  "b64_char n =
     char_of (if n < 26 then 65 + n else if n < 52 then 71 + n
              else if n < 62 then n - 4 else if n = 62 then 43 else (47::nat))"

definition b64_value :: "char \<Rightarrow> nat option" where
  "b64_value c =
     (let n = (of_char c :: nat) in
      if 65 \<le> n \<and> n \<le> 90 then Some (n - 65)
      else if 97 \<le> n \<and> n \<le> 122 then Some (n - 71)
      else if 48 \<le> n \<and> n \<le> 57 then Some (n + 4)
      else if n = 43 then Some 62
      else if n = 47 then Some 63
      else None)"

fun b64encode :: "string \<Rightarrow> string" where
  "b64encode [] = []"
| "b64encode [a] =
     (let x = (of_char a :: nat)
      in [b64_char (x div 4), b64_char (x mod 4 * 16), CHR ''='', CHR ''=''])"
| "b64encode [a, b] =
     (let x = (of_char a :: nat); y = of_char b
      in [b64_char (x div 4), b64_char (x mod 4 * 16 + y div 16), b64_char (y mod 16 * 4), CHR ''=''])"
| "b64encode (a # b # c # r) =
     (let x = (of_char a :: nat); y = of_char b; z = of_char c
      in b64_char (x div 4) # b64_char (x mod 4 * 16 + y div 16) #
         b64_char (y mod 16 * 4 + z div 64) # b64_char (z mod 64) # b64encode r)"

text \<open>The decoder's loop: the position in the group of four, the bits left over from the last
  character, and the number of pad characters seen since the last data character.\<close>

fun b64_loop :: "nat \<Rightarrow> nat \<Rightarrow> nat \<Rightarrow> string \<Rightarrow> string option" where
  "b64_loop q left pads [] = (if q = 0 then Some [] else None)"
| "b64_loop q left pads (c # cs) =
     (if c = CHR ''='' then
        if 2 \<le> q \<and> 4 \<le> q + (pads + 1) then Some []
        else b64_loop q left (if 2 \<le> q then pads + 1 else pads) cs
      else case b64_value c of
          None \<Rightarrow> b64_loop q left pads cs
        | Some v \<Rightarrow>
            (if q = 0 then b64_loop 1 v 0 cs
             else if q = 1 then map_option (Cons (char_of (left * 4 + v div 16))) (b64_loop 2 (v mod 16) 0 cs)
             else if q = 2 then map_option (Cons (char_of (left * 16 + v div 4))) (b64_loop 3 (v mod 4) 0 cs)
             else map_option (Cons (char_of (left * 64 + v))) (b64_loop 0 0 0 cs)))"

definition b64decode :: "string \<Rightarrow> string option" where
  "b64decode s = (if \<exists>c \<in> set s. 128 \<le> (of_char c :: nat) then None else b64_loop 0 0 0 s)"

lemma b64_value_char [simp]: "n < 64 \<Longrightarrow> b64_value (b64_char n) = Some n"
  by (auto simp: b64_value_def b64_char_def Let_def)

lemma b64_char_ascii: "n < 64 \<Longrightarrow> (of_char (b64_char n) :: nat) < 128"
  by (auto simp: b64_char_def)

lemma b64_char_not_pad [simp]: "n < 64 \<Longrightarrow> b64_char n \<noteq> CHR ''=''"
  by (auto simp: b64_char_def dest!: arg_cong [where f = "of_char :: char \<Rightarrow> nat"])

text \<open>Every value the encoder writes is a six-bit value, and the groups of bits recombine.\<close>

lemma b64_groups:
  fixes x y :: nat
  shows "x < 256 \<Longrightarrow> x div 4 < 64" "x mod 4 * 16 < 64" "y mod 16 * 4 < 64"
    "y < 256 \<Longrightarrow> x mod 4 * 16 + y div 16 < 64" "y < 256 \<Longrightarrow> x mod 16 * 4 + y div 64 < 64"
    "y < 256 \<Longrightarrow> y div 16 mod 16 = y div 16" "y < 256 \<Longrightarrow> y div 16 div 16 = 0"
    "y < 256 \<Longrightarrow> y div 64 mod 4 = y div 64" "y < 256 \<Longrightarrow> y div 64 div 4 = 0"
proof -
  have "x mod 4 < 4" "x mod 16 < 16" "y mod 16 < 16" by simp_all
  moreover have "y < 256 \<Longrightarrow> y div 16 < 16" "y < 256 \<Longrightarrow> y div 64 < 4" "x < 256 \<Longrightarrow> x div 4 < 64"
    by (simp_all add: div_less_iff_less_mult)
  ultimately show "x < 256 \<Longrightarrow> x div 4 < 64" "x mod 4 * 16 < 64" "y mod 16 * 4 < 64"
    "y < 256 \<Longrightarrow> x mod 4 * 16 + y div 16 < 64" "y < 256 \<Longrightarrow> x mod 16 * 4 + y div 64 < 64"
    "y < 256 \<Longrightarrow> y div 16 mod 16 = y div 16" "y < 256 \<Longrightarrow> y div 16 div 16 = 0"
    "y < 256 \<Longrightarrow> y div 64 mod 4 = y div 64" "y < 256 \<Longrightarrow> y div 64 div 4 = 0"
    by (linarith | simp)+
qed

lemma b64_loop_encode: "b64_loop 0 left pads (b64encode s) = Some s"
  by (induction s arbitrary: left pads rule: b64encode.induct) (simp_all add: Let_def b64_groups)

lemma b64encode_ascii: "c \<in> set (b64encode s) \<Longrightarrow> (of_char c :: nat) < 128"
  by (induction s rule: b64encode.induct) (auto simp: Let_def b64_groups b64_char_ascii)

lemma b64decode_encode [simp]: "b64decode (b64encode s) = Some s"
  using b64encode_ascii [of _ s] by (force simp: b64decode_def b64_loop_encode)

lemma b64encode_nonempty [simp]: "b64encode s = [] \<longleftrightarrow> s = []"
  by (cases s rule: b64encode.cases) (auto simp: Let_def)

end
