(* ===== verification/Nonces.thy ===== *)
theory Nonces
  imports Prelude
begin

text \<open>
  The single-use nonce ledgers of \<open>core/remediation/nonce_store.py\<close>. The protocol they share
  (\<open>NonceStore\<close> in \<open>signing.py\<close>) is the locale \<open>nonce_ledger\<close>; the ledger that survives a restart
  is \<open>durable_nonce_ledger\<close>. The three stores are interpretations.

  A call of \<open>consume\<close> is one step: the lock, the primary key and the unique constraint make it
  atomic. Concurrent calls are therefore a sequence of calls, in any order.
\<close>

datatype ledger_error = Ledger_Locked | Value_Too_Long

type_synonym ledger_result = "(ledger_error, bool) result"

section \<open>The stores\<close>

text \<open>\<open>InMemoryNonceStore\<close>: a set. A restart of the process builds a new store.\<close>

type_synonym memory_ledger = "string set"

definition memory_new :: memory_ledger where
  "memory_new = {}"

definition memory_consume :: "memory_ledger \<Rightarrow> string \<Rightarrow> string \<Rightarrow> ledger_result \<times> memory_ledger" where
  "memory_consume seen nonce job_id =
     (if nonce \<in> seen then (Inr False, seen) else (Inr True, insert nonce seen))"

text \<open>
  \<open>SqliteNonceStore\<close>: a file with the table \<open>used_nonce\<close>, absent until the constructor creates it.
  Whether the \<open>n\<close>-th statement finds the file locked past its timeout is the schedule \<open>sl_busy\<close>.
\<close>

record sqlite_ledger =
  sl_table :: "(string \<times> string) list option"
  sl_busy :: "nat \<Rightarrow> bool"
  sl_calls :: nat

text \<open>The constructor: \<open>CREATE TABLE IF NOT EXISTS\<close>.\<close>

definition sqlite_open :: "sqlite_ledger \<Rightarrow> sqlite_ledger" where
  "sqlite_open l = l\<lparr>sl_table := Some (case sl_table l of None \<Rightarrow> [] | Some rows \<Rightarrow> rows)\<rparr>"

text \<open>The insert: an \<open>OperationalError\<close> (a lock, no table) is raised as a \<open>RuntimeError\<close>, a primary-key
  violation is \<open>False\<close>.\<close>

definition sqlite_consume :: "sqlite_ledger \<Rightarrow> string \<Rightarrow> string \<Rightarrow> ledger_result \<times> sqlite_ledger" where
  "sqlite_consume l nonce job_id =
     (let busy = sl_busy l (sl_calls l); l = l\<lparr>sl_calls := Suc (sl_calls l)\<rparr>
      in if busy then (Inl Ledger_Locked, l)
         else case sl_table l of
                None \<Rightarrow> (Inl Ledger_Locked, l)
              | Some rows \<Rightarrow>
                  if nonce \<in> fst ` set rows then (Inr False, l)
                  else (Inr True, l\<lparr>sl_table := Some (rows @ [(nonce, job_id)])\<rparr>))"

text \<open>\<open>DbNonceStore\<close>: an insert inside a savepoint. The columns hold 64 characters; a longer value is
  a data error, which is not the integrity error the store maps to \<open>False\<close>.\<close>

type_synonym db_ledger = "(string \<times> string) list"

definition db_consume :: "db_ledger \<Rightarrow> string \<Rightarrow> string \<Rightarrow> ledger_result \<times> db_ledger" where
  "db_consume rows nonce job_id =
     (if 64 < length nonce \<or> 64 < length job_id then (Inl Value_Too_Long, rows)
      else if nonce \<in> fst ` set rows then (Inr False, rows)
      else (Inr True, rows @ [(nonce, job_id)]))"

section \<open>The protocol\<close>

text \<open>A sequence of calls, each with its outcome.\<close>

fun consume_all ::
    "('s \<Rightarrow> string \<Rightarrow> string \<Rightarrow> ledger_result \<times> 's) \<Rightarrow> 's \<Rightarrow> (string \<times> string) list
      \<Rightarrow> (string \<times> ledger_result) list \<times> 's" where
  "consume_all consume s [] = ([], s)"
| "consume_all consume s ((n, j) # calls) =
     (let (r, s) = consume s n j; (rs, s) = consume_all consume s calls in ((n, r) # rs, s))"

text \<open>The nonces a sequence of calls was told are fresh.\<close>

definition granted :: "(string \<times> ledger_result) list \<Rightarrow> string list" where
  "granted rs = map fst (filter (\<lambda>r. snd r = Inr True) rs)"

lemma granted_simps [simp]:
  "granted [] = []"
  "granted ((n, Inr True) # rs) = n # granted rs"
  "granted ((n, Inr False) # rs) = granted rs"
  "granted ((n, Inl e) # rs) = granted rs"
  by (simp_all add: granted_def)

locale nonce_ledger =
  fixes consume :: "'s \<Rightarrow> string \<Rightarrow> string \<Rightarrow> ledger_result \<times> 's"
    and used :: "'s \<Rightarrow> string set"
  assumes consume_fresh: "consume s n j = (Inr True, s') \<Longrightarrow> n \<notin> used s \<and> used s' = insert n (used s)"
    and consume_seen: "consume s n j = (Inr False, s') \<Longrightarrow> n \<in> used s \<and> used s' = used s"
    and consume_failed: "consume s n j = (Inl e, s') \<Longrightarrow> used s' = used s"
begin

lemma consume_used:
  "consume s n j = (r, s') \<Longrightarrow> used s' = (if r = Inr True then insert n (used s) else used s)"
proof (cases r)
  case (Inr b)
  then show "consume s n j = (r, s') \<Longrightarrow> ?thesis"
    using consume_fresh [of s n j s'] consume_seen [of s n j s'] by (cases b) auto
qed (use consume_failed [of s n j _ s'] in auto)

lemma consume_twice:
  "n \<in> used s \<Longrightarrow> fst (consume s n j) \<noteq> Inr True"
  using consume_fresh by (metis prod.collapse)

text \<open>However calls interleave, a nonce is granted at most once, and never one used before.\<close>

lemma consume_all_once:
  assumes "consume_all consume s calls = (rs, s')"
  shows "distinct (granted rs) \<and> set (granted rs) \<inter> used s = {} \<and> used s' = used s \<union> set (granted rs)"
  using assms
proof (induction calls arbitrary: s rs)
  case (Cons c calls)
  obtain n j where c: "c = (n, j)" by fastforce
  obtain r t where r: "consume s n j = (r, t)" by fastforce
  obtain rs' where rs': "consume_all consume t calls = (rs', s')" "rs = (n, r) # rs'"
    using Cons.prems c r by (auto split: prod.splits)
  show ?case
    using Cons.IH [OF rs'(1)] consume_used [OF r] consume_fresh [of s n j t] r rs'(2)
    by (auto simp: granted_def split: if_splits)
qed simp

end

locale durable_nonce_ledger = nonce_ledger +
  fixes restart :: "'a \<Rightarrow> 'a"
  assumes used_restart: "used (restart s) = used s"

section \<open>The stores keep the protocol\<close>

interpretation memory: nonce_ledger memory_consume "\<lambda>seen. seen"
  by unfold_locales (auto simp: memory_consume_def split: if_splits)

definition sqlite_used :: "sqlite_ledger \<Rightarrow> string set" where
  "sqlite_used l = (case sl_table l of None \<Rightarrow> {} | Some rows \<Rightarrow> fst ` set rows)"

interpretation sqlite: durable_nonce_ledger sqlite_consume sqlite_used sqlite_open
proof unfold_locales
  fix s n j s' e
  show "sqlite_consume s n j = (Inr True, s') \<Longrightarrow> n \<notin> sqlite_used s \<and> sqlite_used s' = insert n (sqlite_used s)"
    by (cases "sl_table s") (simp_all add: sqlite_consume_def sqlite_used_def Let_def split: if_splits, clarsimp)
  show "sqlite_consume s n j = (Inr False, s') \<Longrightarrow> n \<in> sqlite_used s \<and> sqlite_used s' = sqlite_used s"
    "sqlite_consume s n j = (Inl e, s') \<Longrightarrow> sqlite_used s' = sqlite_used s"
    "sqlite_used (sqlite_open s) = sqlite_used s"
    by (auto simp: sqlite_consume_def sqlite_used_def sqlite_open_def Let_def split: if_splits option.splits)
qed

text \<open>The server side: what survives is the table itself.\<close>

interpretation db: durable_nonce_ledger db_consume "\<lambda>rows. fst ` set rows" "\<lambda>rows. rows"
  by unfold_locales (auto simp: db_consume_def split: if_splits)

text \<open>An open ledger whose file is not locked decides every nonce.\<close>

lemma sqlite_consume_decides:
  assumes "sl_table l = Some rows" "\<not> sl_busy l (sl_calls l)"
  shows "fst (sqlite_consume l n j) = Inr (n \<notin> sqlite_used l)"
  using assms by (simp add: sqlite_consume_def sqlite_used_def Let_def)

end
