(* ===== verification/Signing.thy ===== *)
theory Signing
  imports Jobs Base64 Nonces
begin

text \<open>
  Signing and verification of jobs (\<open>core/remediation/signing.py\<close>).

  The primitives of the \<open>cryptography\<close> package and \<open>hmac\<close> over SHA-256 are parameters: signing with
  the private key (\<open>sk\<close>), verification with the public key (\<open>pk sig msg\<close>, false where the package
  raises \<open>InvalidSignature\<close> or \<open>ValueError\<close>), and the keyed digest (\<open>mac key msg\<close>). What a statement
  needs of them is written in it.
\<close>

section \<open>Signers and verifiers\<close>

text \<open>The constructor of \<open>SignedJob\<close>, with the constraints of its fields.\<close>

definition make_signed_job :: "dispatch_job \<Rightarrow> string \<Rightarrow> string \<Rightarrow> string \<Rightarrow> signed_job option" where
  "make_signed_job job key_id algorithm signature =
     (let s = \<lparr>sg_job = job, sg_key_id = key_id, sg_algorithm = algorithm, sg_signature = signature\<rparr>
      in if key_id \<noteq> [] \<and> signature \<noteq> [] then Some s else None)"

definition ed25519_sign :: "(string \<Rightarrow> string) \<Rightarrow> string \<Rightarrow> dispatch_job \<Rightarrow> signed_job option" where
  "ed25519_sign sk key_id job =
     (let signature = sk (canonical_bytes job)
      in make_signed_job job key_id ''ed25519'' (b64encode signature))"

definition ed25519_verify_signature :: "(string \<Rightarrow> string \<Rightarrow> bool) \<Rightarrow> string \<Rightarrow> signed_job \<Rightarrow> bool" where
  "ed25519_verify_signature pk key_id signed =
     (if sg_algorithm signed \<noteq> ''ed25519'' \<or> sg_key_id signed \<noteq> key_id then False
      else case b64decode (sg_signature signed) of
             None \<Rightarrow> False
           | Some raw \<Rightarrow> pk raw (canonical_bytes (sg_job signed)))"

definition hmac_sign :: "(string \<Rightarrow> string \<Rightarrow> string) \<Rightarrow> string \<Rightarrow> string \<Rightarrow> dispatch_job \<Rightarrow> signed_job option" where
  "hmac_sign mac secret key_id job =
     make_signed_job job key_id ''hmac-sha256'' (b64encode (mac secret (canonical_bytes job)))"

definition hmac_verify_signature :: "(string \<Rightarrow> string \<Rightarrow> string) \<Rightarrow> string \<Rightarrow> string \<Rightarrow> signed_job \<Rightarrow> bool" where
  "hmac_verify_signature mac secret key_id signed =
     (if sg_algorithm signed \<noteq> ''hmac-sha256'' \<or> sg_key_id signed \<noteq> key_id then False
      else
        let expected = mac secret (canonical_bytes (sg_job signed))
        in case b64decode (sg_signature signed) of
             None \<Rightarrow> False
           | Some provided \<Rightarrow> expected = provided)"

definition sign_job :: "dispatch_job \<Rightarrow> (dispatch_job \<Rightarrow> signed_job option) \<Rightarrow> signed_job option" where
  "sign_job job signer = signer job"

text \<open>The signers of audit checkpoints work on bytes.\<close>

definition ed25519_checkpoint_sign :: "(string \<Rightarrow> string) \<Rightarrow> string \<Rightarrow> string" where
  "ed25519_checkpoint_sign sk message = sk message"

definition ed25519_checkpoint_verify :: "(string \<Rightarrow> string \<Rightarrow> bool) \<Rightarrow> string \<Rightarrow> string \<Rightarrow> bool" where
  "ed25519_checkpoint_verify pk message signature = pk signature message"

definition hmac_checkpoint_sign :: "(string \<Rightarrow> string \<Rightarrow> string) \<Rightarrow> string \<Rightarrow> string \<Rightarrow> string" where
  "hmac_checkpoint_sign mac secret message = mac secret message"

definition hmac_checkpoint_verify ::
    "(string \<Rightarrow> string \<Rightarrow> string) \<Rightarrow> string \<Rightarrow> string \<Rightarrow> string \<Rightarrow> bool" where
  "hmac_checkpoint_verify mac secret message signature = (mac secret message = signature)"

section \<open>Verification of a job\<close>

datatype verify_error =
    Bad_Signature | Job_Expired | Job_Not_Yet_Valid | Wrong_Host | Nonce_Reuse
  | Ledger_Raised ledger_error

definition verify_job ::
    "(signed_job \<Rightarrow> bool) \<Rightarrow> ('s \<Rightarrow> string \<Rightarrow> string \<Rightarrow> ledger_result \<times> 's) \<Rightarrow> signed_job \<Rightarrow> string \<Rightarrow> int \<Rightarrow> 's
      \<Rightarrow> (verify_error, dispatch_job) result \<times> 's" where
  "verify_job verify_signature consume signed expected_host_id now store =
     (if \<not> verify_signature signed then (Inl Bad_Signature, store)
      else
        let job = sg_job signed
        in if as_utc (job_expires_at job) \<le> now then (Inl Job_Expired, store)
           else if as_utc (job_issued_at job) > now then (Inl Job_Not_Yet_Valid, store)
           else if job_host_id job \<noteq> expected_host_id then (Inl Wrong_Host, store)
           else case consume store (job_nonce job) (ledger_ref job) of
                  (Inl e, store) \<Rightarrow> (Inl (Ledger_Raised e), store)
                | (Inr False, store) \<Rightarrow> (Inl Nonce_Reuse, store)
                | (Inr True, store) \<Rightarrow> (Inr job, store))"

text \<open>What must hold of a job, apart from its nonce, for an agent to act on it.\<close>

definition job_admissible :: "(signed_job \<Rightarrow> bool) \<Rightarrow> string \<Rightarrow> int \<Rightarrow> signed_job \<Rightarrow> bool" where
  "job_admissible verify_signature host now signed \<longleftrightarrow> verify_signature signed \<and>
     as_utc (job_issued_at (sg_job signed)) \<le> now \<and> now < as_utc (job_expires_at (sg_job signed)) \<and>
     job_host_id (sg_job signed) = host"

text \<open>What an agent sees over its life: signed jobs arriving, each at a time of its own, and restarts.\<close>

datatype delivery = Deliver signed_job int | Restart

fun deliver_all ::
    "(signed_job \<Rightarrow> bool) \<Rightarrow> ('s \<Rightarrow> string \<Rightarrow> string \<Rightarrow> ledger_result \<times> 's) \<Rightarrow> ('s \<Rightarrow> 's) \<Rightarrow> string \<Rightarrow> delivery list \<Rightarrow> 's
      \<Rightarrow> dispatch_job list \<times> 's" where
  "deliver_all v consume restart host [] s = ([], s)"
| "deliver_all v consume restart host (Restart # ds) s = deliver_all v consume restart host ds (restart s)"
| "deliver_all v consume restart host (Deliver signed now # ds) s =
     (case verify_job v consume signed host now s of
        (Inr job, s) \<Rightarrow> (let (jobs, s) = deliver_all v consume restart host ds s in (job # jobs, s))
      | (Inl e, s) \<Rightarrow> deliver_all v consume restart host ds s)"

lemma verify_job_Inr:
  "verify_job v consume signed host now s = (Inr job, s') \<longleftrightarrow>
     job = sg_job signed \<and> job_admissible v host now signed \<and>
     consume s (job_nonce job) (ledger_ref job) = (Inr True, s')"
  by (auto simp: verify_job_def job_admissible_def Let_def split: prod.splits sum.splits bool.splits)

lemma verify_job_Inl:
  assumes "verify_job v consume signed host now s = (Inl e, s')"
  shows "s' = s \<or> (\<exists>c. consume s (job_nonce (sg_job signed)) (ledger_ref (sg_job signed)) = (c, s') \<and> c \<noteq> Inr True)"
  using assms by (auto simp: verify_job_def Let_def split: if_splits prod.splits sum.splits bool.splits)

lemma fst_eq_iff: "fst p = a \<longleftrightarrow> (\<exists>b. p = (a, b))"
  by (cases p) auto

context nonce_ledger
begin

lemma verify_job_accepts:
  assumes "verify_job v consume signed host now s = (Inr job, s')"
  shows "job = sg_job signed" "job_admissible v host now signed" "job_nonce job \<notin> used s"
    "used s' = insert (job_nonce job) (used s)"
  using assms consume_fresh [of s _ _ s'] unfolding verify_job_Inr by blast+

lemma verify_job_refuses:
  assumes "verify_job v consume signed host now s = (Inl e, s')"
  shows "used s' = used s"
  using verify_job_Inl [OF assms] consume_used [of s _ _ _ s'] by (metis (full_types))

end

context durable_nonce_ledger
begin

text \<open>Over any history, no nonce is accepted twice, and none that was used before it.\<close>

lemma deliver_all_once:
  assumes "deliver_all v consume restart host ds s = (jobs, s')"
  shows "distinct (map job_nonce jobs) \<and> job_nonce ` set jobs \<inter> used s = {} \<and>
    used s' = used s \<union> job_nonce ` set jobs"
  using assms
proof (induction ds arbitrary: s jobs)
  case (Cons d ds)
  show ?case
  proof (cases d)
    case Restart
    with Cons.IH [of "restart s" jobs] Cons.prems show ?thesis by (simp add: used_restart)
  next
    case (Deliver signed now)
    obtain r t where r: "verify_job v consume signed host now s = (r, t)" by fastforce
    show ?thesis
    proof (cases r)
      case (Inl e)
      with Cons.IH [of t jobs] Cons.prems Deliver r verify_job_refuses [of v signed host now s e t]
      show ?thesis by simp
    next
      case (Inr job)
      with Cons.prems Deliver r obtain rest where
        rest: "deliver_all v consume restart host ds t = (rest, s')" "jobs = job # rest"
        by (auto split: prod.splits)
      with Cons.IH [OF rest(1)] verify_job_accepts [of v signed host now s job t] Inr r
      show ?thesis by auto
    qed
  qed
qed simp

end

section \<open>Signer and verifier fit together\<close>

locale signer_pair =
  fixes sign :: "dispatch_job \<Rightarrow> signed_job option"
    and verify_sig :: "signed_job \<Rightarrow> bool"
  assumes signed_verifies: "sign j = Some s \<Longrightarrow> verify_sig s"
    and signs_job: "sign j = Some s \<Longrightarrow> sg_job s = j"
begin

text \<open>A job issued through \<open>sign_job\<close> is accepted within its window by the host it names.\<close>

lemma issued_job_admissible:
  assumes "sign_job j sign = Some s"
    and "as_utc (job_issued_at j) \<le> now" "now < as_utc (job_expires_at j)"
  shows "job_admissible verify_sig (job_host_id j) now s"
  using assms signed_verifies [of j s] signs_job [of j s] by (simp add: job_admissible_def sign_job_def)

end

lemma make_signed_job_Some:
  "make_signed_job j k a g = Some s \<longleftrightarrow> k \<noteq> [] \<and> g \<noteq> [] \<and>
     s = \<lparr>sg_job = j, sg_key_id = k, sg_algorithm = a, sg_signature = g\<rparr>"
  by (auto simp: make_signed_job_def Let_def)

interpretation hmac: signer_pair "hmac_sign mac secret key_id" "hmac_verify_signature mac secret key_id"
  for mac secret key_id
  by unfold_locales (auto simp: hmac_sign_def hmac_verify_signature_def make_signed_job_Some Let_def)

lemma ed25519_signed_verifies:
  assumes "\<And>m. pk (sk m) m" "ed25519_sign sk key_id j = Some s"
  shows "ed25519_verify_signature pk key_id s \<and> sg_job s = j"
  using assms by (auto simp: ed25519_sign_def ed25519_verify_signature_def make_signed_job_Some Let_def)

section \<open>Properties\<close>

lemma verify_job_decides:
  assumes "sl_table l = Some rows" "\<not> sl_busy l (sl_calls l)"
  shows "fst (verify_job v sqlite_consume signed host now l) = Inr job \<longleftrightarrow>
      job = sg_job signed \<and> job_admissible v host now signed \<and> job_nonce job \<notin> sqlite_used l"
    and "sqlite_used (snd (verify_job v sqlite_consume signed host now l)) =
      (if is_ok (fst (verify_job v sqlite_consume signed host now l))
       then insert (job_nonce (sg_job signed)) (sqlite_used l) else sqlite_used l)"
proof -
  obtain r l' where r: "verify_job v sqlite_consume signed host now l = (r, l')" by fastforce
  have decide: "fst (sqlite_consume l n j) = Inr (n \<notin> sqlite_used l)" for n j
    by (rule sqlite_consume_decides [OF assms])
  show "fst (verify_job v sqlite_consume signed host now l) = Inr job \<longleftrightarrow>
      job = sg_job signed \<and> job_admissible v host now signed \<and> job_nonce job \<notin> sqlite_used l"
    unfolding fst_eq_iff verify_job_Inr using decide [of "job_nonce job" "ledger_ref job"]
    by (cases "sqlite_consume l (job_nonce job) (ledger_ref job)") auto
  show "sqlite_used (snd (verify_job v sqlite_consume signed host now l)) =
      (if is_ok (fst (verify_job v sqlite_consume signed host now l))
       then insert (job_nonce (sg_job signed)) (sqlite_used l) else sqlite_used l)"
    using r sqlite.verify_job_accepts [of v signed host now l _ l'] sqlite.verify_job_refuses [of v signed host now l _ l']
    by (cases r) auto
qed

text \<open>C6. Verification is fail-closed on every axis and exact. With the agent's ledger open and
  answering, a signed job is accepted if and only if its signature verifies, the time is in its
  window, it names this host and its nonce was never used; only an accepted job uses up its nonce,
  so a tampered, expired or misdirected job can never exhaust the ledger.\<close>

theorem verify_job_fail_closed:
  assumes "sl_table l = Some rows" "\<not> sl_busy l (sl_calls l)"
  shows "(fst (verify_job v sqlite_consume signed host now l) = Inr job \<longleftrightarrow>
      job = sg_job signed \<and> job_admissible v host now signed \<and> job_nonce job \<notin> sqlite_used l) \<and>
    sqlite_used (snd (verify_job v sqlite_consume signed host now l)) =
      (if is_ok (fst (verify_job v sqlite_consume signed host now l))
       then insert (job_nonce (sg_job signed)) (sqlite_used l) else sqlite_used l)"
  by (intro conjI verify_job_decides [OF assms])

definition sample_ledger :: sqlite_ledger where
  "sample_ledger = \<lparr>sl_table = Some [(''used-nonce-00000'', ''p0'')], sl_busy = (\<lambda>_. False), sl_calls = 0\<rparr>"

definition sample_signed :: signed_job where
  "sample_signed = \<lparr>sg_job = Action_Job sample_job, sg_key_id = ''k1'', sg_algorithm = ''hmac-sha256'',
     sg_signature = b64encode (canonical_bytes (Action_Job sample_job))\<rparr>"

theorem verify_job_fail_closed_witness:
  "fst (verify_job (\<lambda>_. True) sqlite_consume sample_signed ''h1'' (seconds 1100) sample_ledger) =
     Inr (Action_Job sample_job) \<and>
   fst (verify_job (\<lambda>_. True) sqlite_consume sample_signed ''h2'' (seconds 1100) sample_ledger) \<noteq>
     Inr (Action_Job sample_job)"
proof -
  have "sl_table sample_ledger = Some [(''used-nonce-00000'', ''p0'')]"
    "\<not> sl_busy sample_ledger (sl_calls sample_ledger)"
    by (simp_all add: sample_ledger_def)
  note closed = verify_job_fail_closed [OF this, THEN conjunct1]
  show ?thesis unfolding closed
    by (simp add: job_admissible_def sample_signed_def sample_job_def sqlite_used_def sample_ledger_def seconds_def)
qed

text \<open>C7. Replay is impossible over the life of an agent. Whatever signed jobs arrive, however often,
  at whatever times, with the ledger's file locked at whatever moments and with any number of
  restarts in between, the jobs an agent accepts have pairwise different nonces, none of which was
  in the ledger at the start.\<close>

theorem replay_rejected_across_restarts:
  assumes "deliver_all v sqlite_consume sqlite_open host ds l = (jobs, l')"
  shows "distinct (map job_nonce jobs) \<and> job_nonce ` set jobs \<inter> sqlite_used l = {} \<and>
    sqlite_used l' = sqlite_used l \<union> job_nonce ` set jobs"
  by (rule sqlite.deliver_all_once [OF assms])

theorem replay_rejected_across_restarts_witness:
  "map job_nonce (fst (deliver_all (\<lambda>_. True) sqlite_consume sqlite_open ''h1''
     [Deliver sample_signed (seconds 1100), Restart, Deliver sample_signed (seconds 1200)] sample_ledger)) =
   [''0123456789abcdef''] \<and>
   distinct (map job_nonce (fst (deliver_all (\<lambda>_. True) sqlite_consume sqlite_open ''h1''
     [Deliver sample_signed (seconds 1100), Restart, Deliver sample_signed (seconds 1200)] sample_ledger)))"
  using replay_rejected_across_restarts [OF prod.collapse [symmetric], of "\<lambda>_. True" "''h1''"
      "[Deliver sample_signed (seconds 1100), Restart, Deliver sample_signed (seconds 1200)]" sample_ledger]
  by (simp add: verify_job_def sample_signed_def sample_job_def sample_ledger_def seconds_def
      sqlite_consume_def sqlite_open_def)

text \<open>C8. A signature binds the job. When an agent holding the shared secret accepts a signature that
  was issued for job \<open>j\<close> on a job \<open>k\<close>, the two jobs are the same in every signed field, or the keyed
  digest has a collision on two different messages.\<close>

theorem hmac_signature_binds_job:
  assumes "hmac_sign mac secret key_id j = Some s" "job_valid j" "job_valid k"
    and "hmac_verify_signature mac secret key_id (s\<lparr>sg_job := k\<rparr>)"
  shows "same_job j k \<or> (\<exists>m m'. m \<noteq> m' \<and> mac secret m = mac secret m')"
proof (cases "canonical_bytes j = canonical_bytes k")
  case True
  with canonical_bytes_core assms(2,3) show ?thesis by blast
next
  case False
  moreover from assms(1,4) have "mac secret (canonical_bytes j) = mac secret (canonical_bytes k)"
    by (auto simp: hmac_sign_def make_signed_job_Some hmac_verify_signature_def Let_def split: if_splits)
  ultimately show ?thesis by blast
qed

theorem hmac_signature_binds_job_witness:
  "\<not> hmac_verify_signature (\<lambda>k m. k @ m) ''s'' ''k1''
     (the (hmac_sign (\<lambda>k m. k @ m) ''s'' ''k1'' (Action_Job sample_job))\<lparr>sg_job := Scan_Job sample_scan\<rparr>)"
proof
  let ?s = "the (hmac_sign (\<lambda>k m. k @ m) ''s'' ''k1'' (Action_Job sample_job))"
  assume accepted: "hmac_verify_signature (\<lambda>k m. k @ m) ''s'' ''k1'' (?s\<lparr>sg_job := Scan_Job sample_scan\<rparr>)"
  have "hmac_sign (\<lambda>k m. k @ m) ''s'' ''k1'' (Action_Job sample_job) = Some ?s"
    by (simp add: hmac_sign_def make_signed_job_def)
  from hmac_signature_binds_job [OF this sample_job_valid sample_scan_valid accepted] show False by simp
qed

text \<open>Jobs get through: a job signed with the orchestrator's private key, delivered within its
  window to the host it names, whose agent holds the matching public key and has not seen the
  nonce, is accepted as it was issued. The hypothesis on the key pair is the documented contract
  of Ed25519: a signature verifies under the public key of the key that made it.\<close>

theorem ed25519_job_accepted:
  assumes "\<And>m. pk (sk m) m" and "sign_job j (ed25519_sign sk key_id) = Some s"
    and "as_utc (job_issued_at j) \<le> now" "now < as_utc (job_expires_at j)"
    and "sl_table l = Some rows" "\<not> sl_busy l (sl_calls l)" "job_nonce j \<notin> sqlite_used l"
  shows "fst (verify_job (ed25519_verify_signature pk key_id) sqlite_consume s (job_host_id j) now l) = Inr j"
proof -
  have s: "ed25519_verify_signature pk key_id s" "sg_job s = j"
    using ed25519_signed_verifies [of pk sk, OF assms(1)] assms(2) by (auto simp: sign_job_def)
  then have "job_admissible (ed25519_verify_signature pk key_id) (job_host_id j) now s"
    using assms(3,4) by (simp add: job_admissible_def)
  moreover have "sqlite_consume l (job_nonce j) (ledger_ref j) = (Inr True, snd (sqlite_consume l (job_nonce j) (ledger_ref j)))"
    using sqlite_consume_decides [OF assms(5,6)] assms(7) by (simp add: prod_eq_iff)
  ultimately show ?thesis
    using verify_job_Inr [of _ sqlite_consume s "job_host_id j" now l j] s(2) unfolding fst_eq_iff by metis
qed

theorem ed25519_job_accepted_witness:
  "fst (verify_job (ed25519_verify_signature (\<lambda>sig m. sig = ''sig:'' @ m) ''k1'') sqlite_consume
     (the (sign_job (Action_Job sample_job) (ed25519_sign (\<lambda>m. ''sig:'' @ m) ''k1''))) ''h1'' (seconds 1100) sample_ledger) =
   Inr (Action_Job sample_job)"
  using ed25519_job_accepted [of "\<lambda>sig m. sig = ''sig:'' @ m" "\<lambda>m. ''sig:'' @ m" "Action_Job sample_job" "''k1''"
      "the (sign_job (Action_Job sample_job) (ed25519_sign (\<lambda>m. ''sig:'' @ m) ''k1''))" "seconds 1100" sample_ledger]
  by (simp add: sign_job_def ed25519_sign_def make_signed_job_def sample_job_def sample_ledger_def seconds_def
      sqlite_used_def)

end
