(* ===== verification/Posix.thy ===== *)
theory Posix
  imports Audit_Log "HOL-Library.AList"
begin

text \<open>
  The file system calls the actor makes, as POSIX specifies them: path resolution, \<open>lstat\<close>, opening a
  directory or a file, \<open>rename\<close>, \<open>unlink\<close>, \<open>link\<close> and \<open>mkdir\<close>, all by name within an open directory.

  A directory maps names to inodes, so a file has an identity apart from its names and a directory
  descriptor is an inode. Other processes may change anything between two calls (\<open>w_env\<close>) and any call
  may fail for a reason of its own (\<open>w_fault\<close>): permissions, a full disk, an I/O error. A call that
  changes the tree leaves its event in the trace. Permissions and modes are not modelled, nor files
  other than regular files, directories and symbolic links.
\<close>

section \<open>Errors and nodes\<close>

type_synonym errno = int

abbreviation (input) EPERM :: errno where "EPERM \<equiv> 1"
abbreviation (input) ENOENT :: errno where "ENOENT \<equiv> 2"
abbreviation (input) EBUSY :: errno where "EBUSY \<equiv> 16"
abbreviation (input) EEXIST :: errno where "EEXIST \<equiv> 17"
abbreviation (input) EXDEV :: errno where "EXDEV \<equiv> 18"
abbreviation (input) ENOTDIR :: errno where "ENOTDIR \<equiv> 20"
abbreviation (input) EISDIR :: errno where "EISDIR \<equiv> 21"
abbreviation (input) EINVAL :: errno where "EINVAL \<equiv> 22"
abbreviation (input) ENOSPC :: errno where "ENOSPC \<equiv> 28"
abbreviation (input) ENOTEMPTY :: errno where "ENOTEMPTY \<equiv> 39"
abbreviation (input) ELOOP :: errno where "ELOOP \<equiv> 40"

text \<open>An inode is a device and a number on it. A directory knows its entries, its parent and the
  size it reports.\<close>

datatype inode = Inode (ino_dev: nat) (ino_num: int)

datatype node =
    File string
  | Dir "(string \<times> inode) list" inode int
  | Symlink string

record fs =
  fs_nodes :: "inode \<Rightarrow> node option"
  fs_root :: inode
  fs_cwd :: inode
  fs_next :: int

abbreviation slash :: char where
  "slash \<equiv> CHR 0x2F"

section \<open>Path resolution\<close>

definition lookup_at :: "fs \<Rightarrow> inode \<Rightarrow> string \<Rightarrow> (errno, inode) result" where
  "lookup_at fs d name =
     (case fs_nodes fs d of
        Some (Dir es parent sz) \<Rightarrow>
          if name = ''.'' then Inr d
          else if name = ''..'' then Inr parent
          else (case map_of es name of None \<Rightarrow> Inl ENOENT | Some i \<Rightarrow> Inr i)
      | Some _ \<Rightarrow> Inl ENOTDIR
      | None \<Rightarrow> Inl ENOENT)"

text \<open>Walking a list of components; an empty component (a doubled or trailing slash) stays where it
  is but wants a directory. At most \<open>n\<close> symbolic links are followed; the last component is followed
  only when \<open>follow\<close> says so.\<close>

fun walk :: "nat \<Rightarrow> fs \<Rightarrow> bool \<Rightarrow> inode \<Rightarrow> string list \<Rightarrow> (errno, inode) result" where
  "walk n fs follow d [] = Inr d"
| "walk n fs follow d (c # cs) =
     (case lookup_at fs d (if c = [] then ''.'' else c) of
        Inl e \<Rightarrow> Inl e
      | Inr i \<Rightarrow>
          (case fs_nodes fs i of
             Some (Symlink target) \<Rightarrow>
               if cs = [] \<and> \<not> follow then Inr i
               else if n = 0 then Inl ELOOP
               else walk (n - 1) fs follow (if prefix [slash] target then fs_root fs else d)
                      (py_split slash target @ cs)
           | _ \<Rightarrow> walk n fs follow i cs))"

definition MAXSYMLINKS :: nat where
  "MAXSYMLINKS = 40"

text \<open>A path resolved against an open directory.\<close>

definition resolve_at :: "fs \<Rightarrow> inode \<Rightarrow> bool \<Rightarrow> string \<Rightarrow> (errno, inode) result" where
  "resolve_at fs d follow path =
     (if path = [] then Inl ENOENT
      else walk MAXSYMLINKS fs follow (if prefix [slash] path then fs_root fs else d) (py_split slash path))"

text \<open>The directory and the name a path ends in, for the calls that change an entry.\<close>

definition locate :: "fs \<Rightarrow> inode \<Rightarrow> string \<Rightarrow> (errno, inode \<times> string) result" where
  "locate fs d path =
     (let parts = py_split slash path
      in if path = [] then Inl ENOENT
         else if last parts \<in> {'''', ''.'', ''..''} then Inl EBUSY
         else rbind (walk MAXSYMLINKS fs True (if prefix [slash] path then fs_root fs else d) (butlast parts))
                (\<lambda>p. Inr (p, last parts)))"

definition entry_at :: "fs \<Rightarrow> inode \<Rightarrow> string \<Rightarrow> inode option" where
  "entry_at fs d name = (case fs_nodes fs d of Some (Dir es parent sz) \<Rightarrow> map_of es name | _ \<Rightarrow> None)"

definition is_dir_at :: "fs \<Rightarrow> inode \<Rightarrow> bool" where
  "is_dir_at fs i = (case fs_nodes fs i of Some (Dir _ _ _) \<Rightarrow> True | _ \<Rightarrow> False)"

definition file_content :: "fs \<Rightarrow> inode \<Rightarrow> string option" where
  "file_content fs i = (case fs_nodes fs i of Some (File c) \<Rightarrow> Some c | _ \<Rightarrow> None)"

text \<open>Sets or clears one entry of a directory.\<close>

definition set_entry :: "inode \<Rightarrow> string \<Rightarrow> inode option \<Rightarrow> fs \<Rightarrow> fs" where
  "set_entry d name v fs =
     (case fs_nodes fs d of
        Some (Dir es parent sz) \<Rightarrow> fs\<lparr>fs_nodes := (fs_nodes fs)(d \<mapsto>
            Dir (case v of None \<Rightarrow> AList.delete name es | Some i \<Rightarrow> AList.update name i es) parent sz)\<rparr>
      | _ \<Rightarrow> fs)"

section \<open>Calls that read\<close>

record stat =
  st_islnk :: bool
  st_isdir :: bool
  st_dev :: nat
  st_ino :: int
  st_size :: int

definition stat_node :: "inode \<Rightarrow> node \<Rightarrow> stat" where
  "stat_node i nd =
     (case nd of
        File c \<Rightarrow> \<lparr>st_islnk = False, st_isdir = False, st_dev = ino_dev i, st_ino = ino_num i, st_size = int (length c)\<rparr>
      | Dir es parent sz \<Rightarrow> \<lparr>st_islnk = False, st_isdir = True, st_dev = ino_dev i, st_ino = ino_num i, st_size = sz\<rparr>
      | Symlink t \<Rightarrow> \<lparr>st_islnk = True, st_isdir = False, st_dev = ino_dev i, st_ino = ino_num i, st_size = int (length t)\<rparr>)"

definition fs_stat :: "fs \<Rightarrow> inode \<Rightarrow> bool \<Rightarrow> string \<Rightarrow> (errno, stat) result" where
  "fs_stat fs d follow path = rbind (resolve_at fs d follow path)
     (\<lambda>i. case fs_nodes fs i of None \<Rightarrow> Inl ENOENT | Some nd \<Rightarrow> Inr (stat_node i nd))"

text \<open>\<open>open\<close> with \<open>O_DIRECTORY\<close>; without \<open>follow\<close> (\<open>O_NOFOLLOW\<close>) a final symbolic link is refused.\<close>

definition fs_open_dir :: "fs \<Rightarrow> inode \<Rightarrow> bool \<Rightarrow> string \<Rightarrow> (errno, inode) result" where
  "fs_open_dir fs d follow path = rbind (resolve_at fs d follow path)
     (\<lambda>i. case fs_nodes fs i of
            None \<Rightarrow> Inl ENOENT
          | Some (Dir _ _ _) \<Rightarrow> Inr i
          | Some _ \<Rightarrow> Inl ENOTDIR)"

text \<open>\<open>open\<close> for reading.\<close>

definition fs_open_file :: "fs \<Rightarrow> inode \<Rightarrow> bool \<Rightarrow> string \<Rightarrow> (errno, inode) result" where
  "fs_open_file fs d follow path = rbind (resolve_at fs d follow path)
     (\<lambda>i. case fs_nodes fs i of
            None \<Rightarrow> Inl ENOENT
          | Some (Symlink _) \<Rightarrow> Inl ELOOP
          | Some _ \<Rightarrow> Inr i)"

text \<open>The content of an open file, read to its end.\<close>

definition fs_read :: "fs \<Rightarrow> inode \<Rightarrow> (errno, string) result" where
  "fs_read fs i =
     (case fs_nodes fs i of
        Some (File c) \<Rightarrow> Inr c
      | Some (Dir _ _ _) \<Rightarrow> Inl EISDIR
      | _ \<Rightarrow> Inl ENOENT)"

section \<open>Calls that change the tree\<close>

definition fs_unlink :: "inode \<Rightarrow> string \<Rightarrow> fs \<Rightarrow> (errno, fs) result" where
  "fs_unlink d path fs = rbind (locate fs d path) (\<lambda>(p, name).
     case entry_at fs p name of
       None \<Rightarrow> Inl ENOENT
     | Some i \<Rightarrow> if is_dir_at fs i then Inl EISDIR else Inr (set_entry p name None fs))"

text \<open>\<open>linkat\<close> without \<open>AT_SYMLINK_FOLLOW\<close>: never replaces an entry.\<close>

definition fs_link :: "inode \<Rightarrow> string \<Rightarrow> inode \<Rightarrow> string \<Rightarrow> fs \<Rightarrow> (errno, fs) result" where
  "fs_link sd src dd dst fs = rbind (locate fs sd src) (\<lambda>(sp, sname). rbind (locate fs dd dst) (\<lambda>(dp, dname).
     case entry_at fs sp sname of
       None \<Rightarrow> Inl ENOENT
     | Some i \<Rightarrow>
         if \<not> is_dir_at fs dp then Inl ENOTDIR
         else if entry_at fs dp dname \<noteq> None then Inl EEXIST
         else if ino_dev i \<noteq> ino_dev dp then Inl EXDEV
         else if is_dir_at fs i then Inl EPERM
         else Inr (set_entry dp dname (Some i) fs)))"

text \<open>Whether a directory lies anc another one; the climb is bounded by the longest path.\<close>

fun climbs_to :: "nat \<Rightarrow> fs \<Rightarrow> inode \<Rightarrow> inode \<Rightarrow> bool" where
  "climbs_to 0 fs anc d = (d = anc)"
| "climbs_to (Suc n) fs anc d =
     (d = anc \<or> (case fs_nodes fs d of Some (Dir es parent sz) \<Rightarrow> parent \<noteq> d \<and> climbs_to n fs anc parent | _ \<Rightarrow> False))"

definition PATH_MAX :: nat where
  "PATH_MAX = 4096"

definition set_parent :: "inode \<Rightarrow> inode \<Rightarrow> fs \<Rightarrow> fs" where
  "set_parent i p fs =
     (case fs_nodes fs i of
        Some (Dir es parent sz) \<Rightarrow> fs\<lparr>fs_nodes := (fs_nodes fs)(i \<mapsto> Dir es p sz)\<rparr>
      | _ \<Rightarrow> fs)"

definition dir_empty :: "fs \<Rightarrow> inode \<Rightarrow> bool" where
  "dir_empty fs i = (case fs_nodes fs i of Some (Dir es parent sz) \<Rightarrow> es = [] | _ \<Rightarrow> False)"

text \<open>\<open>renameat\<close>: two names of one inode are left alone, an existing file is replaced, and a directory
  replaces only an empty directory and never moves below itself.\<close>

definition fs_rename :: "inode \<Rightarrow> string \<Rightarrow> inode \<Rightarrow> string \<Rightarrow> fs \<Rightarrow> (errno, fs) result" where
  "fs_rename sd src dd dst fs = rbind (locate fs sd src) (\<lambda>(sp, sname). rbind (locate fs dd dst) (\<lambda>(dp, dname).
     case entry_at fs sp sname of
       None \<Rightarrow> Inl ENOENT
     | Some i \<Rightarrow>
         if \<not> is_dir_at fs dp then Inl ENOTDIR
         else if ino_dev i \<noteq> ino_dev dp then Inl EXDEV
         else if entry_at fs dp dname = Some i then Inr fs
         else if is_dir_at fs i then
           (if climbs_to PATH_MAX fs i dp then Inl EINVAL
            else case entry_at fs dp dname of
              Some j \<Rightarrow>
                if \<not> is_dir_at fs j then Inl ENOTDIR
                else if \<not> dir_empty fs j then Inl ENOTEMPTY
                else Inr (set_parent i dp (set_entry dp dname (Some i) (set_entry sp sname None fs)))
            | None \<Rightarrow> Inr (set_parent i dp (set_entry dp dname (Some i) (set_entry sp sname None fs))))
         else
           (case entry_at fs dp dname of
              Some j \<Rightarrow>
                if is_dir_at fs j then Inl EISDIR
                else Inr (set_entry dp dname (Some i) (set_entry sp sname None fs))
            | None \<Rightarrow> Inr (set_entry dp dname (Some i) (set_entry sp sname None fs)))))"

text \<open>A new directory takes the next inode number of its parent's device.\<close>

definition fs_mkdir :: "inode \<Rightarrow> string \<Rightarrow> fs \<Rightarrow> (errno, fs) result" where
  "fs_mkdir d path fs = rbind (locate fs d path) (\<lambda>(p, name).
     if \<not> is_dir_at fs p then Inl ENOTDIR
     else if entry_at fs p name \<noteq> None then Inl EEXIST
     else
       let i = Inode (ino_dev p) (fs_next fs)
       in if fs_nodes fs i \<noteq> None then Inl ENOSPC
          else Inr (set_entry p name (Some i)
                 (fs\<lparr>fs_nodes := (fs_nodes fs)(i \<mapsto> Dir [] p 0), fs_next := fs_next fs + 1\<rparr>)))"

section \<open>What the calls do to the entries\<close>

text \<open>A name that is one component.\<close>

definition plain_name :: "string \<Rightarrow> bool" where
  "plain_name s \<longleftrightarrow> slash \<notin> set s \<and> s \<notin> {'''', ''.'', ''..''}"

lemma locate_plain [fs_simps]: "plain_name s \<Longrightarrow> locate fs d s = Inr (d, s)"
  by (cases s; cases d) (auto simp: plain_name_def locate_def py_split_id Let_def)

lemma locate_dots [fs_simps]:
  "locate fs d ''.'' = Inl EBUSY" "locate fs d ''..'' = Inl EBUSY" "locate fs d [] = Inl ENOENT"
  by (simp_all add: locate_def)

lemma entry_at_set_entry [fs_simps]:
  "entry_at (set_entry d name v fs) d' n =
     (if is_dir_at fs d \<and> d' = d \<and> n = name then v else entry_at fs d' n)"
  by (auto simp: entry_at_def set_entry_def is_dir_at_def update_conv' delete_conv'
      split: option.splits node.splits)

lemma is_dir_at_set_entry [fs_simps]: "is_dir_at (set_entry d name v fs) i = is_dir_at fs i"
  by (auto simp: set_entry_def is_dir_at_def split: option.splits node.splits)

lemma file_content_set_entry [fs_simps]: "file_content (set_entry d name v fs) i = file_content fs i"
  by (auto simp: set_entry_def file_content_def split: option.splits node.splits)

lemma set_parent_frame [fs_simps]:
  "entry_at (set_parent i p fs) d n = entry_at fs d n"
  "is_dir_at (set_parent i p fs) j = is_dir_at fs j"
  "file_content (set_parent i p fs) j = file_content fs j"
  by (auto simp: set_parent_def entry_at_def is_dir_at_def file_content_def split: option.splits node.splits)

lemma entry_at_dir: "entry_at fs d n = Some i \<Longrightarrow> is_dir_at fs d"
  by (auto simp: entry_at_def is_dir_at_def split: option.splits node.splits)

lemma file_not_dir: "file_content fs i = Some c \<Longrightarrow> \<not> is_dir_at fs i"
  by (auto simp: file_content_def is_dir_at_def split: option.splits node.splits)

lemma fs_unlink_ok:
  assumes "fs_unlink d name fs = Inr fs'" "plain_name name"
  shows "\<exists>i. entry_at fs d name = Some i \<and> \<not> is_dir_at fs i \<and> fs' = set_entry d name None fs"
  using assms by (auto simp: fs_unlink_def fs_simps split: option.splits if_splits)

lemma fs_link_ok:
  assumes "fs_link sd src dd dst fs = Inr fs'" "plain_name src" "plain_name dst"
  shows "\<exists>i. entry_at fs sd src = Some i \<and> entry_at fs dd dst = None \<and> \<not> is_dir_at fs i \<and>
    is_dir_at fs dd \<and> ino_dev i = ino_dev dd \<and> fs' = set_entry dd dst (Some i) fs"
  using assms by (cases "entry_at fs dd dst") (auto simp: fs_link_def fs_simps split: option.splits if_splits)

lemma fs_rename_file_ok:
  assumes "fs_rename sd src dd dst fs = Inr fs'" "plain_name src" "plain_name dst"
    and "entry_at fs sd src = Some i" "\<not> is_dir_at fs i"
  shows "is_dir_at fs dd \<and> ino_dev i = ino_dev dd \<and>
    (entry_at fs dd dst = Some i \<and> fs' = fs \<or>
     entry_at fs dd dst \<noteq> Some i \<and> fs' = set_entry dd dst (Some i) (set_entry sd src None fs))"
  using assms by (auto simp: fs_rename_def fs_simps split: option.splits if_splits)

lemma fs_open_dir_Inr [fs_simps]:
  "fs_open_dir fs d follow p = Inr i \<longleftrightarrow> resolve_at fs d follow p = Inr i \<and> is_dir_at fs i"
  by (cases "resolve_at fs d follow p") (auto simp: fs_open_dir_def is_dir_at_def split: option.splits node.splits)

section \<open>The world a process runs in\<close>

text \<open>Every change of the tree a process makes, and every audit record it has written, in order.\<close>

datatype world_event =
    Ev_Audit audit_record
  | Ev_Rename inode string inode string
  | Ev_Unlink inode string
  | Ev_Link inode string inode string
  | Ev_Mkdir inode string
  | Ev_Chmod inode

record world =
  w_fs :: fs
  w_env :: "nat \<Rightarrow> fs \<Rightarrow> fs"
  w_fault :: "nat \<Rightarrow> errno option"
  w_tick :: nat
  w_audit :: audit_chain
  w_trace :: "world_event list"

text \<open>The other processes run before every call.\<close>

definition enter :: "world \<Rightarrow> world" where
  "enter w = w\<lparr>w_fs := w_env w (w_tick w) (w_fs w), w_tick := Suc (w_tick w)\<rparr>"

definition query :: "(fs \<Rightarrow> (errno, 'a) result) \<Rightarrow> world \<Rightarrow> (errno, 'a) result \<times> world" where
  "query f w =
     (let v = enter w
      in case w_fault w (w_tick w) of Some e \<Rightarrow> (Inl e, v) | None \<Rightarrow> (f (w_fs v), v))"

definition mutate :: "world_event \<Rightarrow> (fs \<Rightarrow> (errno, fs) result) \<Rightarrow> world \<Rightarrow> (errno, unit) result \<times> world" where
  "mutate ev f w =
     (let v = enter w
      in case w_fault w (w_tick w) of
           Some e \<Rightarrow> (Inl e, v)
         | None \<Rightarrow>
             (case f (w_fs v) of
                Inl e \<Rightarrow> (Inl e, v)
              | Inr fs' \<Rightarrow> (Inr (), v\<lparr>w_fs := fs', w_trace := w_trace v @ [ev]\<rparr>)))"

definition os_lstat :: "inode \<Rightarrow> string \<Rightarrow> world \<Rightarrow> (errno, stat) result \<times> world" where
  "os_lstat d path = query (\<lambda>fs. fs_stat fs d False path)"

definition os_open_dir :: "inode \<Rightarrow> bool \<Rightarrow> string \<Rightarrow> world \<Rightarrow> (errno, inode) result \<times> world" where
  "os_open_dir d follow path = query (\<lambda>fs. fs_open_dir fs d follow path)"

definition os_open_file :: "inode \<Rightarrow> bool \<Rightarrow> string \<Rightarrow> world \<Rightarrow> (errno, inode) result \<times> world" where
  "os_open_file d follow path = query (\<lambda>fs. fs_open_file fs d follow path)"

definition os_read :: "inode \<Rightarrow> world \<Rightarrow> (errno, string) result \<times> world" where
  "os_read i = query (\<lambda>fs. fs_read fs i)"

definition os_rename :: "inode \<Rightarrow> string \<Rightarrow> inode \<Rightarrow> string \<Rightarrow> world \<Rightarrow> (errno, unit) result \<times> world" where
  "os_rename sd src dd dst = mutate (Ev_Rename sd src dd dst) (fs_rename sd src dd dst)"

definition os_unlink :: "inode \<Rightarrow> string \<Rightarrow> world \<Rightarrow> (errno, unit) result \<times> world" where
  "os_unlink d path = mutate (Ev_Unlink d path) (fs_unlink d path)"

definition os_link :: "inode \<Rightarrow> string \<Rightarrow> inode \<Rightarrow> string \<Rightarrow> world \<Rightarrow> (errno, unit) result \<times> world" where
  "os_link sd src dd dst = mutate (Ev_Link sd src dd dst) (fs_link sd src dd dst)"

definition os_mkdir :: "inode \<Rightarrow> string \<Rightarrow> world \<Rightarrow> (errno, unit) result \<times> world" where
  "os_mkdir d path = mutate (Ev_Mkdir d path) (fs_mkdir d path)"

text \<open>\<open>chmod\<close> changes no entry; it may fail.\<close>

definition os_chmod :: "inode \<Rightarrow> string \<Rightarrow> world \<Rightarrow> (errno, unit) result \<times> world" where
  "os_chmod d path w =
     (let (r, v) = query (\<lambda>fs. resolve_at fs d True path) w
      in case r of Inl e \<Rightarrow> (Inl e, v) | Inr i \<Rightarrow> (Inr (), v\<lparr>w_trace := w_trace v @ [Ev_Chmod i]\<rparr>))"

text \<open>The audit chain of the process: a record taken by the sink is in the trace.\<close>

definition audit_w ::
    "(string \<Rightarrow> string) \<Rightarrow> string \<Rightarrow> string \<Rightarrow> string \<Rightarrow> (string \<times> json) list \<Rightarrow> string \<Rightarrow> world
      \<Rightarrow> audit_record option \<times> world" where
  "audit_w H actor action target before_state result w =
     (let (r, ch) = audit_append H (w_audit w) actor action target before_state result
      in (r, w\<lparr>w_audit := ch, w_trace := w_trace w @ (case r of None \<Rightarrow> [] | Some rec \<Rightarrow> [Ev_Audit rec])\<rparr>))"

end
