(* ===== verification/Pathlib.thy ===== *)
theory Pathlib
  imports Prelude
begin

text \<open>
  What the program uses of Python's \<open>pathlib\<close> on POSIX: a path is its root and its components, without
  empty and \<open>.\<close> components; \<open>..\<close> is kept.
\<close>

record pure_path =
  pp_root :: string
  pp_parts :: "string list"

abbreviation path_sep :: char where
  "path_sep \<equiv> CHR 0x2F"

text \<open>\<open>Path(s)\<close>: exactly two leading slashes are a root of their own.\<close>

definition path_of :: "string \<Rightarrow> pure_path" where
  "path_of s = \<lparr>pp_root =
       (if prefix ''//'' s \<and> \<not> prefix ''///'' s then ''//'' else if prefix ''/'' s then ''/'' else []),
     pp_parts = filter (\<lambda>p. p \<noteq> [] \<and> p \<noteq> ''.'') (py_split path_sep s)\<rparr>"

definition path_str :: "pure_path \<Rightarrow> string" where
  "path_str p =
     (if pp_root p = [] \<and> pp_parts p = [] then ''.'' else pp_root p @ py_join ''/'' (pp_parts p))"

definition path_parent :: "pure_path \<Rightarrow> pure_path" where
  "path_parent p = p\<lparr>pp_parts := butlast (pp_parts p)\<rparr>"

definition path_name :: "pure_path \<Rightarrow> string" where
  "path_name p = (if pp_parts p = [] then [] else last (pp_parts p))"

text \<open>\<open>p / s\<close>: an absolute right operand replaces the left one.\<close>

definition path_div :: "pure_path \<Rightarrow> string \<Rightarrow> pure_path" where
  "path_div p s =
     (let q = path_of s
      in if pp_root q \<noteq> [] then q else p\<lparr>pp_parts := pp_parts p @ pp_parts q\<rparr>)"

text \<open>\<open>p.suffix\<close>: from the last dot of the name, when the dot is neither its first nor its last character.\<close>

definition path_suffix :: "pure_path \<Rightarrow> string" where
  "path_suffix p =
     (let name = path_name p; ext = takeWhile (\<lambda>c. c \<noteq> CHR ''.'') (rev name)
      in if CHR ''.'' \<notin> set name \<or> ext = [] \<or> length ext + 1 = length name then []
         else CHR ''.'' # rev ext)"

lemma path_name_no_sep: "path_sep \<notin> set (path_name (path_of s))"
proof (cases "pp_parts (path_of s) = []")
  case False
  then have "path_name (path_of s) \<in> set (pp_parts (path_of s))" by (simp add: path_name_def)
  then show ?thesis by (auto simp: path_of_def dest: py_split_no_sep)
qed (simp add: path_name_def)

lemma path_name_not_dot: "path_name (path_of s) \<noteq> ''.''"
proof (cases "pp_parts (path_of s) = []")
  case False
  then have "path_name (path_of s) \<in> set (pp_parts (path_of s))" by (simp add: path_name_def)
  then show ?thesis by (auto simp: path_of_def)
qed (simp add: path_name_def)

end
