(* ===== verification/Executor.thy ===== *)
theory Executor
  imports Jobs Posix Pathlib
begin

text \<open>
  The guarded executor of \<open>agent/actor/executor.py\<close> over the calls of \<^theory_text>\<open>Posix\<close>: the re-check through
  the parent directory, the audit record before each mutation, the mutations themselves, and the
  gates in front of the whole run.

  The digest \<open>H\<close> is the BLAKE3 of the audit log. The loop that feeds a file to the hasher in blocks is
  one reading of the file: it sees the content at one moment.
\<close>

section \<open>Data\<close>

record exec_result =
  er_entry_id :: string
  er_action :: string
  er_status :: string
  er_detail :: string

record exec_outcome =
  eo_results :: "exec_result list"
  eo_audit :: "audit_record list"

text \<open>The constructor's arguments; the audit chain is part of the world.\<close>

record executor =
  ex_quarantine_dir :: string
  ex_write_enabled :: bool
  ex_blast_cap :: nat
  ex_allow_hard_delete :: bool
  ex_actor :: string

definition DEFAULT_BLAST_CAP :: nat where
  "DEFAULT_BLAST_CAP = 100"

datatype exec_error =
    Remediation_Disabled
  | Drifted_Plan "string list"
  | Blast_Radius nat
  | OS_Error errno
  | Audit_Refused

text \<open>The report of a dry run: \<open>entry_id\<close> to reason.\<close>

type_synonym drift_report = "(string \<times> string) list"

section \<open>The re-check\<close>

definition full_hash_through_fd ::
    "(string \<Rightarrow> string) \<Rightarrow> inode \<Rightarrow> string \<Rightarrow> world \<Rightarrow> (errno, string) result \<times> world" where
  "full_hash_through_fd H dir_fd name w =
     (case os_open_file dir_fd False name w of
        (Inl e, w) \<Rightarrow> (Inl e, w)
      | (Inr fd, w) \<Rightarrow>
          (case os_read fd w of
             (Inl e, w) \<Rightarrow> (Inl e, w)
           | (Inr data, w) \<Rightarrow> (Inr (H data), w)))"

definition recheck ::
    "(string \<Rightarrow> string) \<Rightarrow> inode \<Rightarrow> string \<Rightarrow> plan_item \<Rightarrow> world \<Rightarrow> string option \<times> world" where
  "recheck H dir_fd name item w =
     (case os_lstat dir_fd name w of
        (Inl e, w) \<Rightarrow> (Some ''missing'', w)
      | (Inr st, w) \<Rightarrow>
          if st_islnk st then (Some ''became_symlink'', w)
          else if st_ino st \<noteq> pi_prior_inode item then (Some ''inode_changed'', w)
          else if st_size st \<noteq> pi_prior_size item then (Some ''size_changed'', w)
          else
            (case pi_prior_hash item of
               Some prior \<Rightarrow>
                 (case full_hash_through_fd H dir_fd name w of
                    (Inl e, w) \<Rightarrow> (Some ''hash_unreadable'', w)
                  | (Inr current, w) \<Rightarrow> (if current \<noteq> prior then Some ''hash_changed'' else None, w))
             | None \<Rightarrow>
                 if pi_action item = HARD_DELETE then (Some ''no_hash_anchor'', w) else (None, w)))"

section \<open>The mutations\<close>

definition errno_detail :: "string \<Rightarrow> errno \<Rightarrow> string" where
  "errno_detail what e = what @ '' (errno '' @ str_int e @ '')''"

text \<open>The walk from the move root: each component is created when absent and opened without
  following a symbolic link.\<close>

fun move_dirs :: "inode \<Rightarrow> string list \<Rightarrow> world \<Rightarrow> (errno, inode) result \<times> world" where
  "move_dirs cur [] w = (Inr cur, w)"
| "move_dirs cur (component # dirs) w =
     (case os_mkdir cur component w of
        (r, w) \<Rightarrow>
          (if r \<noteq> Inr () \<and> r \<noteq> Inl EEXIST then (case r of Inl e \<Rightarrow> (Inl e, w) | Inr _ \<Rightarrow> (Inr cur, w))
           else
             (case os_open_dir cur False component w of
                (Inl e, w) \<Rightarrow> (Inl e, w)
              | (Inr nxt, w) \<Rightarrow> move_dirs nxt dirs w)))"

text \<open>The atomic placement of \<open>_move\<close>: link, then unlink the source, undoing the link when that fails.\<close>

definition move_place ::
    "inode \<Rightarrow> string \<Rightarrow> inode \<Rightarrow> string \<Rightarrow> string \<Rightarrow> world \<Rightarrow> (string \<times> string) \<times> world" where
  "move_place src_dir_fd src_name cur leaf moved_to w =
     (case os_link src_dir_fd src_name cur leaf w of
        (Inl e, w) \<Rightarrow>
          (if e = EEXIST then ((''aborted_drift'', ''destination already exists (no-clobber)''), w)
           else ((''aborted_drift'', errno_detail ''move refused'' e), w))
      | (Inr _, w) \<Rightarrow>
          (case os_unlink src_dir_fd src_name w of
             (Inl e, w) \<Rightarrow>
               (let (_, w) = os_unlink cur leaf w
                in ((''aborted_drift'', errno_detail ''move source-unlink failed'' e), w))
           | (Inr _, w) \<Rightarrow> ((''moved'', moved_to), w)))"

definition move_file ::
    "inode \<Rightarrow> string \<Rightarrow> remediation_plan \<Rightarrow> plan_item \<Rightarrow> world \<Rightarrow> (string \<times> string) \<times> world" where
  "move_file src_dir_fd src_name plan item w =
     (case (rp_move_root plan, pi_dest_rel item) of
        (Some move_root, Some dest_rel) \<Rightarrow>
          if move_root = [] \<or> dest_rel = [] then ((''skipped_disabled'', ''move requires move_root + dest_rel''), w)
          else
            let parts = filter (\<lambda>p. p \<noteq> []) (py_split slash dest_rel)
            in if parts = [] \<or> ''..'' \<in> set parts \<or> ''.'' \<in> set parts
               then ((''aborted_drift'', ''invalid destination''), w)
               else
                 (case os_open_dir (fs_cwd (w_fs w)) False move_root w of
                    (Inl e, w) \<Rightarrow> ((''aborted_drift'', errno_detail ''move setup failed'' e), w)
                  | (Inr cur, w) \<Rightarrow>
                      (case move_dirs cur (butlast parts) w of
                         (Inl e, w) \<Rightarrow> ((''aborted_drift'', errno_detail ''move setup failed'' e), w)
                       | (Inr cur, w) \<Rightarrow>
                           move_place src_dir_fd src_name cur (last parts)
                             (rstrip ''/'' move_root @ ''/'' @ dest_rel) w))
      | _ \<Rightarrow> ((''skipped_disabled'', ''move requires move_root + dest_rel''), w))"

definition quarantine_name :: "remediation_plan \<Rightarrow> plan_item \<Rightarrow> string \<Rightarrow> string" where
  "quarantine_name plan item name = rp_plan_id plan @ ''__'' @ str_int (pi_prior_inode item) @ ''__'' @ name"

definition mutate_item ::
    "executor \<Rightarrow> inode \<Rightarrow> string \<Rightarrow> remediation_plan \<Rightarrow> plan_item \<Rightarrow> world
      \<Rightarrow> (exec_error, string \<times> string) result \<times> world" where
  "mutate_item ex dir_fd name plan item w =
     (case pi_action item of
        QUARANTINE \<Rightarrow>
          (let dest_name = quarantine_name plan item name; qdir = path_of (ex_quarantine_dir ex)
           in case os_open_dir (fs_cwd (w_fs w)) True (path_str qdir) w of
                (Inl e, w) \<Rightarrow> (Inl (OS_Error e), w)
              | (Inr q_fd, w) \<Rightarrow>
                  (case os_rename dir_fd name q_fd dest_name w of
                     (Inl e, w) \<Rightarrow> (Inr (''aborted_drift'', errno_detail ''quarantine refused'' e), w)
                   | (Inr _, w) \<Rightarrow> (Inr (''quarantined'', path_str (path_div qdir dest_name)), w)))
      | HARD_DELETE \<Rightarrow>
          if \<not> ex_allow_hard_delete ex
          then (Inr (''skipped_disabled'', ''hard_delete requires allow_hard_delete''), w)
          else
            (case os_unlink dir_fd name w of
               (Inl e, w) \<Rightarrow> (Inr (''aborted_drift'', errno_detail ''hard_delete refused'' e), w)
             | (Inr _, w) \<Rightarrow> (Inr (''deleted'', []), w))
      | MOVE \<Rightarrow> (let (r, w) = move_file dir_fd name plan item w in (Inr r, w))
      | HARDLINK \<Rightarrow>
          (Inr (''skipped_disabled'', ''action '' @ action_value (pi_action item) @ '' not implemented in v1''), w))"

section \<open>One item\<close>

definition before_state :: "plan_item \<Rightarrow> (string \<times> json) list" where
  "before_state item =
     [(''inode'', JInt (pi_prior_inode item)), (''size'', JInt (pi_prior_size item)),
      (''hash'', json_opt (pi_prior_hash item))]"

definition act ::
    "(string \<Rightarrow> string) \<Rightarrow> executor \<Rightarrow> remediation_plan \<Rightarrow> plan_item \<Rightarrow> world
      \<Rightarrow> (exec_error, exec_result \<times> audit_record list) result \<times> world" where
  "act H ex plan item w =
     (let entry_id = str_entry_id (pi_entry_id item); target = path_of (pi_path item);
          action = action_value (pi_action item); name = path_name target
      in case os_open_dir (fs_cwd (w_fs w)) True (path_str (path_parent target)) w of
           (Inl e, w) \<Rightarrow> (Inl (OS_Error e), w)
         | (Inr dir_fd, w) \<Rightarrow>
             (case recheck H dir_fd name item w of
                (Some drift, w) \<Rightarrow>
                  (Inr (\<lparr>er_entry_id = entry_id, er_action = action, er_status = ''aborted_drift'', er_detail = drift\<rparr>, []), w)
              | (None, w) \<Rightarrow>
                  (case audit_w H (ex_actor ex) action (pi_path item) (before_state item) ''pending'' w of
                     (None, w) \<Rightarrow> (Inl Audit_Refused, w)
                   | (Some pending, w) \<Rightarrow>
                       (case mutate_item ex dir_fd name plan item w of
                          (Inl e, w) \<Rightarrow> (Inl e, w)
                        | (Inr (status, detail), w) \<Rightarrow>
                            (case audit_w H (ex_actor ex) action (pi_path item) (before_state item) status w of
                               (None, w) \<Rightarrow> (Inl Audit_Refused, w)
                             | (Some after, w) \<Rightarrow>
                                 (Inr (\<lparr>er_entry_id = entry_id, er_action = action, er_status = status,
                                        er_detail = detail\<rparr>, [pending, after]), w))))))"

section \<open>The whole plan\<close>

text \<open>\<open>Path.mkdir(parents=True, exist_ok=True)\<close> on the components of a path, last one first.\<close>

definition mkdir_exist_ok :: "pure_path \<Rightarrow> errno \<Rightarrow> world \<Rightarrow> (errno, unit) result \<times> world" where
  "mkdir_exist_ok p e w =
     (case query (\<lambda>fs. fs_stat fs (fs_cwd fs) True (path_str p)) w of
        (Inr st, w) \<Rightarrow> (if st_isdir st then (Inr (), w) else (Inl e, w))
      | (Inl _, w) \<Rightarrow> (Inl e, w))"

fun mkdir_parents :: "string \<Rightarrow> string list \<Rightarrow> world \<Rightarrow> (errno, unit) result \<times> world" where
  "mkdir_parents root rparts w =
     (let p = \<lparr>pp_root = root, pp_parts = rev rparts\<rparr>
      in case os_mkdir (fs_cwd (w_fs w)) (path_str p) w of
           (Inr _, w) \<Rightarrow> (Inr (), w)
         | (Inl e, w) \<Rightarrow>
             if e = ENOENT then
               (case rparts of
                  [] \<Rightarrow> (Inl e, w)
                | _ # rest \<Rightarrow>
                    (case mkdir_parents root rest w of
                       (Inl e, w) \<Rightarrow> (Inl e, w)
                     | (Inr _, w) \<Rightarrow>
                         (case os_mkdir (fs_cwd (w_fs w)) (path_str p) w of
                            (Inr _, w) \<Rightarrow> (Inr (), w)
                          | (Inl e, w) \<Rightarrow> if e = ENOENT then (Inl e, w) else mkdir_exist_ok p e w)))
             else mkdir_exist_ok p e w)"

fun execute_items ::
    "(string \<Rightarrow> string) \<Rightarrow> executor \<Rightarrow> remediation_plan \<Rightarrow> plan_item list \<Rightarrow> world
      \<Rightarrow> (exec_error, exec_outcome) result \<times> world" where
  "execute_items H ex plan [] w = (Inr \<lparr>eo_results = [], eo_audit = []\<rparr>, w)"
| "execute_items H ex plan (item # items) w =
     (case act H ex plan item w of
        (Inl e, w) \<Rightarrow> (Inl e, w)
      | (Inr (result, records), w) \<Rightarrow>
          (case execute_items H ex plan items w of
             (Inl e, w) \<Rightarrow> (Inl e, w)
           | (Inr rest, w) \<Rightarrow>
               (Inr \<lparr>eo_results = result # eo_results rest, eo_audit = records @ eo_audit rest\<rparr>, w)))"

definition execute_with_audit ::
    "(string \<Rightarrow> string) \<Rightarrow> executor \<Rightarrow> remediation_plan \<Rightarrow> drift_report \<Rightarrow> bool \<Rightarrow> world
      \<Rightarrow> (exec_error, exec_outcome) result \<times> world" where
  "execute_with_audit H ex plan verify confirm_blast w =
     (if \<not> ex_write_enabled ex then (Inl Remediation_Disabled, w)
      else if verify \<noteq> [] then (Inl (Drifted_Plan (sort (map fst verify))), w)
      else if ex_blast_cap ex < length (rp_items plan) \<and> \<not> confirm_blast
        then (Inl (Blast_Radius (length (rp_items plan))), w)
      else
        let qdir = path_of (ex_quarantine_dir ex)
        in case mkdir_parents (pp_root qdir) (rev (pp_parts qdir)) w of
             (Inl e, w) \<Rightarrow> (Inl (OS_Error e), w)
           | (Inr _, w) \<Rightarrow>
               (case os_chmod (fs_cwd (w_fs w)) (path_str qdir) w of
                  (Inl e, w) \<Rightarrow> (Inl (OS_Error e), w)
                | (Inr _, w) \<Rightarrow> execute_items H ex plan (rp_items plan) w))"

definition execute ::
    "(string \<Rightarrow> string) \<Rightarrow> executor \<Rightarrow> remediation_plan \<Rightarrow> drift_report \<Rightarrow> bool \<Rightarrow> world
      \<Rightarrow> (exec_error, exec_result list) result \<times> world" where
  "execute H ex plan verify confirm_blast w =
     (let (r, w) = execute_with_audit H ex plan verify confirm_blast w in (rbind r (\<lambda>out. Inr (eo_results out)), w))"

section \<open>What an operation leaves in the trace\<close>

text \<open>\<open>grows P w w'\<close>: the operation from \<open>w\<close> to \<open>w'\<close> added only events that satisfy \<open>P\<close>, and changed
  neither the environment nor, unless it audits, the audit chain.\<close>

definition grows :: "(world_event \<Rightarrow> bool) \<Rightarrow> world \<Rightarrow> world \<Rightarrow> bool" where
  "grows P w w' \<longleftrightarrow> (\<exists>es. w_trace w' = w_trace w @ es \<and> list_all P es) \<and>
     w_env w' = w_env w \<and> w_fault w' = w_fault w \<and> w_audit w' = w_audit w"

lemma grows_refl [simp]: "grows P w w"
  by (simp add: grows_def)

lemma grows_trans [trans]: "grows P u v \<Longrightarrow> grows P v w \<Longrightarrow> grows P u w"
  by (force simp: grows_def)

lemma grows_mono: "grows P w w' \<Longrightarrow> (\<And>e. P e \<Longrightarrow> Q e) \<Longrightarrow> grows Q w w'"
  unfolding grows_def by (metis (mono_tags, lifting) list_all_iff)

abbreviation silent :: "world \<Rightarrow> world \<Rightarrow> bool" where
  "silent \<equiv> grows (\<lambda>e. False)"

lemma silent_grows: "silent w w' \<Longrightarrow> grows P w w'"
  using grows_mono [of "\<lambda>e. False" w w' P] by simp

lemma enter_grows: "silent w (enter w)"
  by (simp add: grows_def enter_def)

lemma query_grows: "query f w = (r, w') \<Longrightarrow> silent w w'"
  using enter_grows [of w] by (auto simp: query_def Let_def split: option.splits)

lemma mutate_grows: "mutate ev f w = (r, w') \<Longrightarrow> P ev \<Longrightarrow> grows P w w'"
  using silent_grows [OF enter_grows [of w], of P]
  by (auto simp: mutate_def Let_def grows_def split: option.splits sum.splits)

lemma os_query_grows [fs_simps]:
  "os_lstat d p w = (r, w') \<Longrightarrow> silent w w'"
  "os_open_dir d fl p w = (r1, w') \<Longrightarrow> silent w w'"
  "os_open_file d fl p w = (r1, w') \<Longrightarrow> silent w w'"
  "os_read d w = (r2, w') \<Longrightarrow> silent w w'"
  by (auto simp: os_lstat_def os_open_dir_def os_open_file_def os_read_def dest: query_grows)

lemma full_hash_grows: "full_hash_through_fd H d n w = (r, w') \<Longrightarrow> silent w w'"
  by (auto simp: full_hash_through_fd_def split: prod.splits sum.splits
      dest!: os_query_grows(3,4) elim: grows_trans)

lemma recheck_grows: "recheck H d n it w = (r, w') \<Longrightarrow> silent w w'"
  by (auto simp: recheck_def split: prod.splits sum.splits if_splits option.splits
      dest!: os_query_grows(1) full_hash_grows elim: grows_trans)

text \<open>Events that change the tree by acting on \<open>name\<close> in \<open>d\<close>.\<close>

fun is_audit :: "world_event \<Rightarrow> bool" where
  "is_audit (Ev_Audit r) = True"
| "is_audit _ = False"

abbreviation mutation :: "world_event \<Rightarrow> bool" where
  "mutation e \<equiv> \<not> is_audit e"

lemma move_dirs_grows: "move_dirs cur dirs w = (r, w') \<Longrightarrow> grows mutation w w'"
proof (induction dirs arbitrary: cur w)
  case (Cons c dirs)
  obtain r1 w1 where m: "os_mkdir cur c w = (r1, w1)" by fastforce
  obtain r2 w2 where op: "os_open_dir cur False c w1 = (r2, w2)" by fastforce
  have 1: "grows mutation w w1" using m mutate_grows [of "Ev_Mkdir cur c" _ w r1 w1 mutation]
    by (simp add: os_mkdir_def)
  have 2: "grows mutation w w2" using grows_trans [OF 1 silent_grows [OF os_query_grows(2) [OF op]]] .
  show ?case using Cons m op 1 2
    by (auto split: if_splits sum.splits intro: grows_trans)
qed simp

lemma move_place_grows: "move_place d n cur leaf dest w = (r, w') \<Longrightarrow> grows mutation w w'"
  by (auto simp: move_place_def os_link_def os_unlink_def split: prod.splits sum.splits if_splits
      dest!: mutate_grows [where P = mutation] elim: grows_trans)

lemma move_file_grows: "move_file d n plan it w = (r, w') \<Longrightarrow> grows mutation w w'"
  by (auto simp: move_file_def Let_def split: option.splits if_splits prod.splits sum.splits
      dest!: move_dirs_grows move_place_grows os_query_grows(2) dest: silent_grows [where P = mutation]
      intro: grows_trans)

lemma mutate_item_grows: "mutate_item ex d n plan it w = (r, w') \<Longrightarrow> grows mutation w w'"
  by (auto simp: mutate_item_def os_rename_def os_unlink_def Let_def
      split: plan_action.splits if_splits prod.splits sum.splits
      dest!: move_file_grows os_query_grows(2) mutate_grows [where P = mutation]
      dest: silent_grows [where P = mutation] intro: grows_trans)

section \<open>Audit before act\<close>

text \<open>The audit records among the events of a trace.\<close>

fun audits :: "world_event list \<Rightarrow> audit_record list" where
  "audits [] = []"
| "audits (Ev_Audit r # es) = r # audits es"
| "audits (_ # es) = audits es"

lemma audits_append [simp]: "audits (es @ fs) = audits es @ audits fs"
  by (induction es rule: audits.induct) auto

lemma audits_mutations: "list_all mutation es \<Longrightarrow> audits es = []"
  by (induction es rule: audits.induct) auto

text \<open>Whether a record is about an item and says \<open>status\<close>.\<close>

definition record_for :: "executor \<Rightarrow> plan_item \<Rightarrow> string \<Rightarrow> audit_record \<Rightarrow> bool" where
  "record_for ex it status r \<longleftrightarrow> ar_actor r = ex_actor ex \<and> ar_action r = action_value (pi_action it) \<and>
     ar_target r = pi_path it \<and> ar_before_state r = before_state it \<and> ar_result r = status"

text \<open>The trace of one item: nothing, or its pending record, then the changes made to the tree, then a
  record of the outcome unless the act raised before it.\<close>

definition item_trace :: "executor \<Rightarrow> plan_item \<Rightarrow> world_event list \<Rightarrow> bool" where
  "item_trace ex it es \<longleftrightarrow> es = [] \<or>
     (\<exists>pending ms. record_for ex it ''pending'' pending \<and> list_all mutation ms \<and>
       (es = Ev_Audit pending # ms \<or>
        (\<exists>after status. record_for ex it status after \<and> es = Ev_Audit pending # ms @ [Ev_Audit after])))"

text \<open>\<open>leaves es w w'\<close>: an operation added the events \<open>es\<close>, its audit records went to the log in the
  same order, and an unbroken log stayed unbroken.\<close>

definition leaves :: "(string \<Rightarrow> string) \<Rightarrow> world_event list \<Rightarrow> world \<Rightarrow> world \<Rightarrow> bool" where
  "leaves H es w w' \<longleftrightarrow> w_trace w' = w_trace w @ es \<and>
     ch_log (w_audit w') = ch_log (w_audit w) @ audits es \<and>
     w_env w' = w_env w \<and> w_fault w' = w_fault w \<and>
     (\<forall>g. chain_ok H g (w_audit w) \<longrightarrow> chain_ok H g (w_audit w'))"

lemma leaves_refl: "leaves H [] w w"
  by (simp add: leaves_def)

lemma leaves_trans: "leaves H es u v \<Longrightarrow> leaves H fs v w \<Longrightarrow> leaves H (es @ fs) u w"
  by (auto simp: leaves_def)

lemma silent_leaves: "silent w w' \<Longrightarrow> leaves H [] w w'"
  by (auto simp: grows_def leaves_def list_all_iff)

lemma mutation_leaves: "grows mutation w w' \<Longrightarrow> \<exists>ms. leaves H ms w w' \<and> list_all mutation ms"
  by (auto simp: grows_def leaves_def audits_mutations)

lemma audit_w_taken:
  assumes "audit_w H (ex_actor ex) (action_value (pi_action it)) (pi_path it) (before_state it) status w = (Some r, w')"
  shows "leaves H [Ev_Audit r] w w' \<and> record_for ex it status r"
proof -
  obtain ch where ch: "audit_append H (w_audit w) (ex_actor ex) (action_value (pi_action it)) (pi_path it)
      (before_state it) status = (Some r, ch)"
    and w': "w' = w\<lparr>w_audit := ch, w_trace := w_trace w @ [Ev_Audit r]\<rparr>"
    using assms by (auto simp: audit_w_def split: prod.splits)
  have "chain_ok H g ch" if "chain_ok H g (w_audit w)" for g
    using audit_append_ok [OF that] ch by (metis snd_conv)
  with audit_append_taken [OF ch] w' show ?thesis
    by (simp add: leaves_def record_for_def content_def)
qed

lemma audit_w_refused:
  assumes "audit_w H a c t b status w = (None, w')"
  shows "leaves H [] w w' \<and> w_fs w' = w_fs w"
proof -
  obtain ch where ch: "audit_append H (w_audit w) a c t b status = (None, ch)"
    and w': "w' = w\<lparr>w_audit := ch\<rparr>"
    using assms by (auto simp: audit_w_def split: prod.splits)
  have "chain_ok H g ch" if "chain_ok H g (w_audit w)" for g
    using audit_append_ok [OF that] ch by (metis snd_conv)
  with audit_append_refused [OF ch] w' show ?thesis by (simp add: leaves_def)
qed

text \<open>The shape of a run of \<^const>\<open>act\<close>: it raises before the re-check, reports drift, or passes the
  re-check and asks for the pending record; then it acts.\<close>

abbreviation item_name :: "plan_item \<Rightarrow> string" where
  "item_name it \<equiv> path_name (path_of (pi_path it))"

abbreviation open_item_parent :: "plan_item \<Rightarrow> world \<Rightarrow> (errno, inode) result \<times> world" where
  "open_item_parent it w \<equiv> os_open_dir (fs_cwd (w_fs w)) True (path_str (path_parent (path_of (pi_path it)))) w"

abbreviation audit_item ::
    "(string \<Rightarrow> string) \<Rightarrow> executor \<Rightarrow> plan_item \<Rightarrow> string \<Rightarrow> world \<Rightarrow> audit_record option \<times> world" where
  "audit_item H ex it status w \<equiv>
     audit_w H (ex_actor ex) (action_value (pi_action it)) (pi_path it) (before_state it) status w"

abbreviation item_result :: "plan_item \<Rightarrow> string \<Rightarrow> string \<Rightarrow> exec_result" where
  "item_result it status detail \<equiv> \<lparr>er_entry_id = str_entry_id (pi_entry_id it),
     er_action = action_value (pi_action it), er_status = status, er_detail = detail\<rparr>"

lemma act_cases:
  assumes "act H ex plan it w = (r, w')"
  obtains
    (no_parent) e where "r = Inl (OS_Error e)" "open_item_parent it w = (Inl e, w')"
  | (drift) d v reason where "r = Inr (item_result it ''aborted_drift'' reason, [])"
      "open_item_parent it w = (Inr d, v)" "recheck H d (item_name it) it v = (Some reason, w')"
  | (refused) d v u where "r = Inl Audit_Refused"
      "open_item_parent it w = (Inr d, v)" "recheck H d (item_name it) it v = (None, u)"
      "audit_item H ex it ''pending'' u = (None, w')"
  | (raised) d v u p x e where "r = Inl e"
      "open_item_parent it w = (Inr d, v)" "recheck H d (item_name it) it v = (None, u)"
      "audit_item H ex it ''pending'' u = (Some p, x)" "mutate_item ex d (item_name it) plan it x = (Inl e, w')"
  | (unrecorded) d v u p x status detail y where "r = Inl Audit_Refused"
      "open_item_parent it w = (Inr d, v)" "recheck H d (item_name it) it v = (None, u)"
      "audit_item H ex it ''pending'' u = (Some p, x)"
      "mutate_item ex d (item_name it) plan it x = (Inr (status, detail), y)"
      "audit_item H ex it status y = (None, w')"
  | (acted) d v u p x status detail y q where "r = Inr (item_result it status detail, [p, q])"
      "open_item_parent it w = (Inr d, v)" "recheck H d (item_name it) it v = (None, u)"
      "audit_item H ex it ''pending'' u = (Some p, x)"
      "mutate_item ex d (item_name it) plan it x = (Inr (status, detail), y)"
      "audit_item H ex it status y = (Some q, w')"
proof -
  obtain r1 v where op: "open_item_parent it w = (r1, v)" by fastforce
  show thesis
  proof (cases r1)
    case (Inl e)
    with op assms show ?thesis by (intro no_parent [of e]) (simp_all add: act_def Let_def)
  next
    case d: (Inr d)
    obtain dr u where rc: "recheck H d (item_name it) it v = (dr, u)" by fastforce
    show ?thesis
    proof (cases dr)
      case (Some reason)
      with op d rc assms show ?thesis by (intro drift [of reason d v]) (simp_all add: act_def Let_def)
    next
      case None
      note rc = rc [unfolded None]
      note op = op [unfolded d]
      obtain po x where po: "audit_item H ex it ''pending'' u = (po, x)" by fastforce
      show ?thesis
      proof (cases po)
        case None
        with op rc po assms show ?thesis by (intro refused [of d v u]) (simp_all add: act_def Let_def)
      next
        case (Some p)
        note po = po [unfolded Some]
        obtain mo y where mo: "mutate_item ex d (item_name it) plan it x = (mo, y)" by fastforce
        show ?thesis
        proof (cases mo)
          case (Inl e)
          with op rc po mo assms show ?thesis by (intro raised [of e d v u p x]) (simp_all add: act_def Let_def)
        next
          case (Inr sd)
          obtain status detail where sd: "sd = (status, detail)" by fastforce
          note mo = mo [unfolded Inr sd]
          obtain qo z where qo: "audit_item H ex it status y = (qo, z)" by fastforce
          have act: "act H ex plan it w = (case qo of None \<Rightarrow> Inl Audit_Refused
              | Some q \<Rightarrow> Inr (item_result it status detail, [p, q]), z)"
            unfolding act_def Let_def op prod.case sum.case rc option.case po mo qo
            by (simp split: option.splits)
          show ?thesis
          proof (cases qo)
            case None
            with act assms op rc po mo qo show ?thesis by (intro unrecorded [of d v u p x status detail y]) simp_all
          next
            case (Some q)
            with act assms op rc po mo qo show ?thesis by (intro acted [of status detail p q d v u x y]) simp_all
          qed
        qed
      qed
    qed
  qed
qed

lemma open_parent_silent: "open_item_parent it w = (r, v) \<Longrightarrow> silent w v"
  by (rule os_query_grows(2))

lemma checked_leaves:
  assumes "open_item_parent it w = (Inr d, v)" "recheck H' d n it v = (c, u)"
  shows "leaves H [] w u"
  using leaves_trans [OF silent_leaves [OF open_parent_silent [OF assms(1)]]
    silent_leaves [OF recheck_grows [OF assms(2)]]] by simp

text \<open>One item leaves an item trace, and what it returns is what it recorded.\<close>

lemma act_trace:
  assumes "act H ex plan it w = (r, w')"
  shows "\<exists>es. leaves H es w w' \<and> item_trace ex it es \<and>
    (case r of Inr (res, recs) \<Rightarrow> recs = audits es | Inl _ \<Rightarrow> True)"
  using assms
proof (cases rule: act_cases)
  case (no_parent e)
  with silent_leaves [OF open_parent_silent] show ?thesis
    by (intro exI [of _ "[]"]) (auto simp: item_trace_def)
next
  case (drift d v reason)
  with checked_leaves show ?thesis by (intro exI [of _ "[]"]) (auto simp: item_trace_def)
next
  case (refused d v u)
  note c = checked_leaves [OF refused(2,3), of H]
  from audit_w_refused [OF refused(4)] have "leaves H [] u w'" by blast
  from leaves_trans [OF c this] refused(1) show ?thesis
    by (intro exI [of _ "[]"]) (auto simp: item_trace_def)
next
  case (raised d v u p x e)
  note c = checked_leaves [OF raised(2,3), of H]
  from audit_w_taken [OF raised(4)] have p: "leaves H [Ev_Audit p] u x" "record_for ex it ''pending'' p" by auto
  from mutation_leaves [OF mutate_item_grows [OF raised(5)]] obtain ms where
    ms: "leaves H ms x w'" "list_all mutation ms" by blast
  from leaves_trans [OF leaves_trans [OF c p(1)] ms(1)] p(2) ms(2) raised(1) show ?thesis
    by (intro exI [of _ "Ev_Audit p # ms"]) (auto simp: item_trace_def)
next
  case (unrecorded d v u p x status detail y)
  note c = checked_leaves [OF unrecorded(2,3), of H]
  from audit_w_taken [OF unrecorded(4)] have p: "leaves H [Ev_Audit p] u x" "record_for ex it ''pending'' p" by auto
  from mutation_leaves [OF mutate_item_grows [OF unrecorded(5)]] obtain ms where
    ms: "leaves H ms x y" "list_all mutation ms" by blast
  from audit_w_refused [OF unrecorded(6)] have "leaves H [] y w'" by blast
  from leaves_trans [OF leaves_trans [OF leaves_trans [OF c p(1)] ms(1)] this] p(2) ms(2) unrecorded(1) show ?thesis
    by (intro exI [of _ "Ev_Audit p # ms"]) (auto simp: item_trace_def)
next
  case (acted d v u p x status detail y q)
  note c = checked_leaves [OF acted(2,3), of H]
  from audit_w_taken [OF acted(4)] have p: "leaves H [Ev_Audit p] u x" "record_for ex it ''pending'' p" by auto
  from mutation_leaves [OF mutate_item_grows [OF acted(5)]] obtain ms where
    ms: "leaves H ms x y" "list_all mutation ms" by blast
  from audit_w_taken [OF acted(6)] have q: "leaves H [Ev_Audit q] y w'" "record_for ex it status q" by auto
  from leaves_trans [OF leaves_trans [OF leaves_trans [OF c p(1)] ms(1)] q(1)] p(2) ms(2) q(2) acted(1) show ?thesis
    by (intro exI [of _ "Ev_Audit p # ms @ [Ev_Audit q]"]) (auto simp: item_trace_def audits_mutations)
qed

lemma execute_items_trace:
  assumes "execute_items H ex plan items w = (r, w')"
  shows "\<exists>ess. leaves H (concat ess) w w' \<and> length ess \<le> length items \<and>
    list_all2 (item_trace ex) (take (length ess) items) ess \<and>
    (case r of Inr out \<Rightarrow> length ess = length items \<and> eo_audit out = audits (concat ess) | Inl _ \<Rightarrow> True)"
  using assms
proof (induction items arbitrary: w r w')
  case Nil
  then show ?case using leaves_refl by (intro exI [of _ "[]"]) auto
next
  case (Cons it items)
  obtain r1 v where a: "act H ex plan it w = (r1, v)" by fastforce
  from act_trace [OF a] obtain es where es: "leaves H es w v" "item_trace ex it es"
    "case r1 of Inr (res, recs) \<Rightarrow> recs = audits es | Inl _ \<Rightarrow> True" by blast
  show ?case
  proof (cases r1)
    case (Inl e)
    with Cons.prems a es show ?thesis by (intro exI [of _ "[es]"]) auto
  next
    case (Inr rr)
    obtain res recs where rr: "rr = (res, recs)" by fastforce
    obtain r2 u where rest: "execute_items H ex plan items v = (r2, u)" by fastforce
    from Cons.IH [OF this] obtain ess where ess: "leaves H (concat ess) v u" "length ess \<le> length items"
      "list_all2 (item_trace ex) (take (length ess) items) ess"
      "case r2 of Inr out \<Rightarrow> length ess = length items \<and> eo_audit out = audits (concat ess) | Inl _ \<Rightarrow> True"
      by blast
    have "u = w'" using Cons.prems a Inr rr rest by (cases r2) auto
    with leaves_trans [OF es(1) ess(1)] es(2,3) ess(2-4) Cons.prems a Inr rr rest show ?thesis
      by (intro exI [of _ "es # ess"]) (cases r2; auto)
  qed
qed

text \<open>What happens before the first item: the quarantine directory is made and restricted.\<close>

fun setup_event :: "world_event \<Rightarrow> bool" where
  "setup_event (Ev_Mkdir d p) = True"
| "setup_event (Ev_Chmod i) = True"
| "setup_event _ = False"

lemma setup_mutation: "setup_event e \<Longrightarrow> mutation e"
  by (cases e) auto

lemma mkdir_exist_ok_grows: "mkdir_exist_ok p e w = (r, w') \<Longrightarrow> silent w w'"
  by (auto simp: mkdir_exist_ok_def split: prod.splits sum.splits if_splits dest!: query_grows)

lemma os_mkdir_grows: "os_mkdir d p w = (r, w') \<Longrightarrow> grows setup_event w w'"
  using mutate_grows [of "Ev_Mkdir d p" _ w r w' setup_event] by (simp add: os_mkdir_def)

lemma silent_trace: "silent w w' \<Longrightarrow> w_trace w' = w_trace w"
  by (auto simp: grows_def list_all_iff)

lemma os_chmod_grows:
  assumes "os_chmod d p w = (r, w')"
  shows "grows setup_event w w'"
proof -
  obtain q v where q: "query (\<lambda>fs. resolve_at fs d True p) w = (q, v)" by fastforce
  note v = query_grows [OF q]
  from assms q have "w' = v \<or> (\<exists>i. w' = v\<lparr>w_trace := w_trace v @ [Ev_Chmod i]\<rparr>)"
    by (auto simp: os_chmod_def split: sum.splits)
  moreover have "grows setup_event v (v\<lparr>w_trace := w_trace v @ [Ev_Chmod i]\<rparr>)" for i
    by (auto simp: grows_def)
  ultimately show ?thesis using silent_grows [OF v, of setup_event] grows_trans by metis
qed

declare mkdir_parents.simps [simp del]

lemma mkdir_parents_grows: "mkdir_parents root rparts w = (r, w') \<Longrightarrow> grows setup_event w w'"
proof (induction root rparts w arbitrary: r w' rule: mkdir_parents.induct)
  case (1 root rparts w)
  let ?p = "\<lparr>pp_root = root, pp_parts = rev rparts\<rparr>"
  obtain r1 v where m1: "os_mkdir (fs_cwd (w_fs w)) (path_str ?p) w = (r1, v)" by fastforce
  note v = os_mkdir_grows [OF m1]
  have ok: "grows setup_event a w'" if "mkdir_exist_ok ?p e a = (r, w')" for e a
    using mkdir_exist_ok_grows [OF that] by (rule silent_grows)
  show ?case
  proof (cases "r1 = Inl ENOENT \<and> rparts \<noteq> []")
    case False
    with "1.prems" m1 v ok show ?thesis
      by (auto simp: mkdir_parents.simps [of root rparts w] Let_def split: sum.splits list.splits if_splits
          intro: grows_trans)
  next
    case True
    then obtain c rest where rparts: "rparts = c # rest" by (cases rparts) auto
    obtain r2 u where m2: "mkdir_parents root rest v = (r2, u)" by fastforce
    have u: "grows setup_event v u"
      using "1.IH" [OF refl m1 [symmetric] _ _ rparts m2] True by auto
    obtain r3 x where m3: "os_mkdir (fs_cwd (w_fs u)) (path_str ?p) u = (r3, x)" by fastforce
    note x = grows_trans [OF grows_trans [OF v u] os_mkdir_grows [OF m3]]
    show ?thesis
      using "1.prems" m1 m2 m3 True rparts x grows_trans [OF v u] ok
      by (auto simp: mkdir_parents.simps [of root "c # rest" w] Let_def split: sum.splits if_splits
          intro: grows_trans)
  qed
qed

lemma execute_trace:
  assumes "execute_with_audit H ex plan verify confirm w = (r, w')"
  shows "\<exists>prep ess. leaves H (prep @ concat ess) w w' \<and> list_all setup_event prep \<and>
    length ess \<le> length (rp_items plan) \<and>
    list_all2 (item_trace ex) (take (length ess) (rp_items plan)) ess \<and>
    (case r of Inr out \<Rightarrow> length ess = length (rp_items plan) \<and> eo_audit out = audits (concat ess) | Inl _ \<Rightarrow> True)"
proof (cases "ex_write_enabled ex \<and> verify = [] \<and> (length (rp_items plan) \<le> ex_blast_cap ex \<or> confirm)")
  case False
  then have "w' = w \<and> (\<exists>e. r = Inl e)" using assms by (auto simp: execute_with_audit_def split: if_splits)
  then show ?thesis using leaves_refl by (intro exI [of _ "[]"]) auto
next
  case True
  let ?q = "path_of (ex_quarantine_dir ex)"
  obtain r1 v where m: "mkdir_parents (pp_root ?q) (rev (pp_parts ?q)) w = (r1, v)" by fastforce
  obtain r2 u where c: "os_chmod (fs_cwd (w_fs v)) (path_str ?q) v = (r2, u)" by fastforce
  have prep: "\<exists>es. leaves H es a b \<and> list_all setup_event es" if "grows setup_event a b" for a b
    using that setup_mutation audits_mutations by (auto simp: grows_def leaves_def list_all_iff)
  note v = mkdir_parents_grows [OF m] and u = grows_trans [OF mkdir_parents_grows [OF m] os_chmod_grows [OF c]]
  show ?thesis
  proof (cases "is_ok r1 \<and> is_ok r2")
    case False
    then have "(\<exists>e. r = Inl e) \<and> grows setup_event w w'"
      using assms m c True v u by (auto simp: execute_with_audit_def Let_def is_ok_def split: sum.splits)
    moreover from prep [OF this [THEN conjunct2]] obtain es where "leaves H es w w'" "list_all setup_event es" by blast
    ultimately show ?thesis by (intro exI [of _ es] exI [of _ "[]"]) auto
  next
    case ok: True
    then have items: "execute_items H ex plan (rp_items plan) u = (r, w')"
      using assms m c True by (auto simp: execute_with_audit_def Let_def is_ok_def not_less split: sum.splits)
    from prep [OF u] obtain es where "leaves H es w u" "list_all setup_event es" by blast
    with execute_items_trace [OF items] leaves_trans show ?thesis by blast
  qed
qed

text \<open>C8. Audit before act, whatever other processes do and whatever calls fail: the trace of a run is the
  preparation of the quarantine directory and then, item by item in plan order, either nothing or
  the item's pending record followed by the changes made for it and the record of their outcome. No
  change of the tree precedes its pending record, the log receives the records in that order and
  stays unbroken, and a run that returns hands back exactly the records it wrote.\<close>

theorem audit_before_act:
  "case execute_with_audit H ex plan verify confirm w of (r, w') \<Rightarrow>
     (\<exists>prep ess. leaves H (prep @ concat ess) w w' \<and> list_all setup_event prep \<and>
        length ess \<le> length (rp_items plan) \<and> list_all2 (item_trace ex) (take (length ess) (rp_items plan)) ess \<and>
        (case r of Inr out \<Rightarrow> length ess = length (rp_items plan) \<and> eo_audit out = audits (concat ess) | Inl _ \<Rightarrow> True))"
  using execute_trace [of H ex plan verify confirm w] by (simp only: split: prod.split) blast

text \<open>C9. The gates: an executor that is not enabled, a plan with reported drift and an unconfirmed plan
  above the cap touch nothing at all: no call is made, nothing is audited.\<close>

theorem gates_refuse:
  "\<not> ex_write_enabled ex \<or> verify \<noteq> [] \<or> ex_blast_cap ex < length (rp_items plan) \<and> \<not> confirm \<Longrightarrow>
     snd (execute_with_audit H ex plan verify confirm w) = w \<and>
     \<not> is_ok (fst (execute_with_audit H ex plan verify confirm w))"
  by (auto simp: execute_with_audit_def)

end
