(* ===== verification/Executor_Guards.thy ===== *)
theory Executor_Guards
  imports Executor
begin

text \<open>
  What the executor does to the tree when no other process interferes: calls may still fail for
  reasons of their own at any point, but between two calls nothing else changes. Under this
  assumption the state the re-check saw is the state the mutation meets.
\<close>

section \<open>Worlds without interference\<close>

definition quiet :: "world \<Rightarrow> bool" where
  "quiet w \<longleftrightarrow> w_env w = (\<lambda>_ fs. fs)"

text \<open>An operation that leaves the tree alone.\<close>

abbreviation same_fs :: "world \<Rightarrow> world \<Rightarrow> bool" where
  "same_fs w w' \<equiv> w_fs w' = w_fs w \<and> quiet w'"

lemma query_quiet: "quiet w \<Longrightarrow> query f w = (r, w') \<Longrightarrow> same_fs w w' \<and> (\<forall>x. r = Inr x \<longrightarrow> f (w_fs w) = Inr x)"
  by (auto simp: query_def enter_def quiet_def Let_def split: option.splits)

lemma mutate_quiet:
  assumes "quiet w" "mutate ev f w = (r, w')"
  shows "quiet w'" "r = Inl e \<Longrightarrow> w_fs w' = w_fs w" "r = Inr u \<Longrightarrow> f (w_fs w) = Inr (w_fs w')"
  using assms by (auto simp: mutate_def enter_def quiet_def Let_def split: option.splits sum.splits)

lemma os_open_dir_quiet:
  "quiet w \<Longrightarrow> os_open_dir d fl p w = (r, w') \<Longrightarrow>
     same_fs w w' \<and> (\<forall>x. r = Inr x \<longrightarrow> fs_open_dir (w_fs w) d fl p = Inr x)"
  unfolding os_open_dir_def by (drule (1) query_quiet) simp

lemma full_hash_quiet:
  assumes "quiet w" "full_hash_through_fd H d n w = (r, w')"
  shows "same_fs w w'"
    and "r = Inr h \<Longrightarrow> \<exists>i c. fs_open_file (w_fs w) d False n = Inr i \<and> file_content (w_fs w) i = Some c \<and> H c = h"
proof -
  obtain r1 v where op: "os_open_file d False n w = (r1, v)" by fastforce
  note v = query_quiet [OF assms(1) op [unfolded os_open_file_def]]
  show "same_fs w w'"
    using assms op v query_quiet [of v "\<lambda>fs. fs_read fs _"]
    by (auto simp: full_hash_through_fd_def os_read_def split: sum.splits prod.splits)
  assume r: "r = Inr h"
  with assms op obtain i where i: "r1 = Inr i" by (cases r1) (auto simp: full_hash_through_fd_def)
  obtain r2 u where rd: "os_read i v = (r2, u)" by fastforce
  with r i assms op obtain c where c: "r2 = Inr c" "H c = h"
    by (cases r2) (auto simp: full_hash_through_fd_def)
  with query_quiet [of v, OF _ rd [unfolded os_read_def]] v i
  show "\<exists>i c. fs_open_file (w_fs w) d False n = Inr i \<and> file_content (w_fs w) i = Some c \<and> H c = h"
    by (auto simp: fs_read_def file_content_def split: option.splits node.splits)
qed

section \<open>What the re-check establishes\<close>

text \<open>An item matches the tree when its name in its directory is a node that is no symbolic link and
  has the inode, the size and the content hash of the plan; only an irreversible delete needs a hash.\<close>

definition node_matches :: "(string \<Rightarrow> string) \<Rightarrow> fs \<Rightarrow> plan_item \<Rightarrow> inode \<Rightarrow> bool" where
  "node_matches H fs it i =
     (case fs_nodes fs i of
        None \<Rightarrow> False
      | Some nd \<Rightarrow>
          (let st = stat_node i nd
           in \<not> st_islnk st \<and> st_ino st = pi_prior_inode it \<and> st_size st = pi_prior_size it \<and>
              (case pi_prior_hash it of
                 None \<Rightarrow> pi_action it \<noteq> HARD_DELETE
               | Some h \<Rightarrow> (case nd of File c \<Rightarrow> H c = h | _ \<Rightarrow> False))))"

definition item_matches :: "(string \<Rightarrow> string) \<Rightarrow> fs \<Rightarrow> plan_item \<Rightarrow> bool" where
  "item_matches H fs it =
     (case fs_open_dir fs (fs_cwd fs) True (path_str (path_parent (path_of (pi_path it)))) of
        Inl e \<Rightarrow> False
      | Inr d \<Rightarrow>
          (case resolve_at fs d False (item_name it) of Inl e \<Rightarrow> False | Inr i \<Rightarrow> node_matches H fs it i))"

lemma recheck_quiet:
  assumes q: "quiet w" and rc: "recheck H d n it w = (reason, w')"
  shows "same_fs w w'"
    and "reason = None \<Longrightarrow> \<exists>i. resolve_at (w_fs w) d False n = Inr i \<and> node_matches H (w_fs w) it i"
proof -
  obtain r1 v where ls: "os_lstat d n w = (r1, v)" by fastforce
  note v = query_quiet [OF q ls [unfolded os_lstat_def]]
  obtain r2 u where fh: "full_hash_through_fd H d n v = (r2, u)" by fastforce
  note u = full_hash_quiet [OF _ fh]
  show "same_fs w w'"
    using rc ls v fh u(1) by (auto simp: recheck_def split: sum.splits if_splits option.splits)
  assume None: "reason = None"
  with rc ls obtain st where st: "r1 = Inr st" by (cases r1) (auto simp: recheck_def)
  with v obtain i nd where i: "resolve_at (w_fs w) d False n = Inr i" "fs_nodes (w_fs w) i = Some nd" "st = stat_node i nd"
    by (auto simp: fs_stat_def split: option.splits)
  have basic: "\<not> st_islnk st" "st_ino st = pi_prior_inode it" "st_size st = pi_prior_size it"
    using rc ls st None by (auto simp: recheck_def split: if_splits)
  have "case pi_prior_hash it of None \<Rightarrow> pi_action it \<noteq> HARD_DELETE
      | Some h \<Rightarrow> (case nd of File c \<Rightarrow> H c = h | _ \<Rightarrow> False)"
  proof (cases "pi_prior_hash it")
    case None
    with rc ls st basic \<open>reason = None\<close> show ?thesis by (auto simp: recheck_def split: if_splits)
  next
    case (Some h)
    with rc ls st basic \<open>reason = None\<close> fh have "r2 = Inr h"
      by (auto simp: recheck_def split: sum.splits if_splits)
    with u(2) v obtain j c where jc: "fs_open_file (w_fs w) d False n = Inr j" "file_content (w_fs w) j = Some c" "H c = h"
      by auto
    from jc(1) i have "j = i" by (simp add: fs_open_file_def split: node.splits)
    with jc(2) i have "nd = File c" by (simp add: file_content_def split: node.splits)
    with Some jc(3) show ?thesis by simp
  qed
  with i basic show "\<exists>i. resolve_at (w_fs w) d False n = Inr i \<and> node_matches H (w_fs w) it i"
    by (auto simp: node_matches_def Let_def)
qed

text \<open>The last component of a path is a plain name or leads to a directory.\<close>

lemma item_name_cases: "item_name it = [] \<or> item_name it = ''..'' \<or> plain_name (item_name it)"
  using path_name_no_sep [of "pi_path it"] path_name_not_dot [of "pi_path it"] by (auto simp: plain_name_def)

lemma resolve_plain:
  assumes "plain_name n" "resolve_at fs d False n = Inr i"
  shows "entry_at fs d n = Some i"
  using assms
  by (cases n) (auto simp: resolve_at_def plain_name_def py_split_id lookup_at_def entry_at_def
      split: option.splits node.splits)

lemma resolve_dotdot_dir:
  assumes "resolve_at fs d False ''..'' = Inr i"
  shows "\<exists>es sz. fs_nodes fs d = Some (Dir es i sz)"
  using assms by (auto simp: resolve_at_def lookup_at_def split: option.splits node.splits if_splits)

section \<open>The mutations, call by call\<close>

text \<open>The move's destination directory: reached from the move root by real directories only.\<close>

fun real_dirs :: "fs \<Rightarrow> inode \<Rightarrow> string list \<Rightarrow> inode \<Rightarrow> bool" where
  "real_dirs fs d [] t = (d = t)"
| "real_dirs fs d (c # cs) t =
     (case entry_at fs d c of None \<Rightarrow> False | Some i \<Rightarrow> is_dir_at fs i \<and> real_dirs fs i cs t)"

text \<open>\<open>fs'\<close> has every entry of \<open>fs\<close>, and the same files.\<close>

definition extends_fs :: "fs \<Rightarrow> fs \<Rightarrow> bool" where
  "extends_fs fs fs' \<longleftrightarrow> (\<forall>d n i. entry_at fs d n = Some i \<longrightarrow> entry_at fs' d n = Some i) \<and>
     (\<forall>i. file_content fs' i = file_content fs i) \<and> (\<forall>i. is_dir_at fs i \<longrightarrow> is_dir_at fs' i)"

lemma extends_fs_refl: "extends_fs fs fs"
  by (simp add: extends_fs_def)

lemma extends_fs_trans: "extends_fs a b \<Longrightarrow> extends_fs b c \<Longrightarrow> extends_fs a c"
  by (simp add: extends_fs_def)

lemma real_dirs_mono:
  assumes "real_dirs fs d cs t"
    and "\<And>e n j. entry_at fs e n = Some j \<Longrightarrow> is_dir_at fs j \<Longrightarrow> entry_at fs' e n = Some j \<and> is_dir_at fs' j"
  shows "real_dirs fs' d cs t"
  using assms(1)
proof (induction cs arbitrary: d)
  case (Cons c cs)
  then show ?case using assms(2) by (cases "entry_at fs d c") auto
qed simp

lemma fs_mkdir_extends:
  assumes "fs_mkdir d p fs = Inr fs'"
  shows "extends_fs fs fs'"
proof -
  from assms obtain q n where loc: "locate fs d p = Inr (q, n)" "is_dir_at fs q" "entry_at fs q n = None"
    "fs_nodes fs (Inode (ino_dev q) (fs_next fs)) = None"
    and fs': "fs' = set_entry q n (Some (Inode (ino_dev q) (fs_next fs)))
      (fs\<lparr>fs_nodes := (fs_nodes fs)((Inode (ino_dev q) (fs_next fs)) \<mapsto> Dir [] q 0), fs_next := fs_next fs + 1\<rparr>)"
    by (auto simp: fs_mkdir_def Let_def split: if_splits)
  let ?fs1 = "fs\<lparr>fs_nodes := (fs_nodes fs)((Inode (ino_dev q) (fs_next fs)) \<mapsto> Dir [] q 0), fs_next := fs_next fs + 1\<rparr>"
  have "entry_at ?fs1 a b = entry_at fs a b" "file_content ?fs1 a = file_content fs a"
    "is_dir_at fs a \<Longrightarrow> is_dir_at ?fs1 a" for a b
    using loc(4) by (auto simp: entry_at_def file_content_def is_dir_at_def)
  with loc show ?thesis by (auto simp: extends_fs_def fs' fs_simps)
qed

lemma fs_open_dir_plain:
  assumes "fs_open_dir fs d False c = Inr i" "plain_name c"
  shows "entry_at fs d c = Some i \<and> is_dir_at fs i"
  using assms resolve_plain by (simp add: fs_simps)

lemma move_dirs_quiet:
  assumes "quiet w" "move_dirs cur dirs w = (r, w')"
  shows "quiet w' \<and> extends_fs (w_fs w) (w_fs w') \<and>
    (\<forall>t. r = Inr t \<longrightarrow> list_all plain_name dirs \<longrightarrow> real_dirs (w_fs w') cur dirs t)"
  using assms
proof (induction dirs arbitrary: cur w)
  case Nil
  then show ?case by (auto simp: extends_fs_refl)
next
  case (Cons c dirs)
  obtain r1 v where m: "os_mkdir cur c w = (r1, v)" by fastforce
  note v = mutate_quiet [OF Cons.prems(1) m [unfolded os_mkdir_def]]
  have ext: "extends_fs (w_fs w) (w_fs v)"
    using v(2,3) fs_mkdir_extends extends_fs_refl by (cases r1) metis+
  show ?case
  proof (cases "r1 = Inr () \<or> r1 = Inl EEXIST")
    case False
    with Cons.prems m ext v(1) show ?thesis by (cases r1) auto
  next
    case True
    obtain r2 u where op: "os_open_dir cur False c v = (r2, u)" by fastforce
    note u = os_open_dir_quiet [OF v(1) op]
    show ?thesis
    proof (cases r2)
      case (Inl e)
      with Cons.prems m True op ext u show ?thesis by auto
    next
      case (Inr nxt)
      with Cons.prems m True op have rest: "move_dirs nxt dirs u = (r, w')" by auto
      from Cons.IH [OF _ this] u have IH: "quiet w'" "extends_fs (w_fs u) (w_fs w')"
        "\<forall>t. r = Inr t \<longrightarrow> list_all plain_name dirs \<longrightarrow> real_dirs (w_fs w') nxt dirs t" by auto
      have "entry_at (w_fs w') cur c = Some nxt \<and> is_dir_at (w_fs w') nxt" if "plain_name c"
        using fs_open_dir_plain [OF _ that, of "w_fs v" cur nxt] u Inr IH(2) by (auto simp: extends_fs_def)
      with IH ext u show ?thesis by (auto intro: extends_fs_trans)
    qed
  qed
qed

section \<open>One item\<close>

lemma audit_w_fs: "audit_w H a b c d e w = (p, x) \<Longrightarrow> w_fs x = w_fs w \<and> quiet x = quiet w"
  by (auto simp: audit_w_def quiet_def split: prod.splits)

text \<open>What the parent directory and the name of an item lead to.\<close>

definition item_at :: "(string \<Rightarrow> string) \<Rightarrow> fs \<Rightarrow> plan_item \<Rightarrow> inode \<Rightarrow> inode \<Rightarrow> bool" where
  "item_at H fs it d i \<longleftrightarrow>
     fs_open_dir fs (fs_cwd fs) True (path_str (path_parent (path_of (pi_path it)))) = Inr d \<and>
     resolve_at fs d False (item_name it) = Inr i \<and> node_matches H fs it i"

lemma item_at_matches: "item_at H fs it d i \<Longrightarrow> item_matches H fs it"
  by (auto simp: item_at_def item_matches_def)

text \<open>Either the item is left alone, or it was where the plan says and the mutation met that state.\<close>

lemma act_quiet:
  assumes q: "quiet w" and a: "act H ex plan it w = (r, w')"
  shows "same_fs w w' \<and> (\<forall>res recs. r = Inr (res, recs) \<longrightarrow> er_status res = ''aborted_drift'' \<and> recs = []) \<or>
    (\<exists>d i x y mo. item_at H (w_fs w) it d i \<and> same_fs w x \<and> mutate_item ex d (item_name it) plan it x = (mo, y) \<and>
      w_fs w' = w_fs y \<and> (quiet y \<longrightarrow> quiet w') \<and>
      (\<forall>res recs. r = Inr (res, recs) \<longrightarrow> mo = Inr (er_status res, er_detail res)))"
proof -
  have checked: "same_fs w u \<and> (rs = None \<longrightarrow> (\<exists>i. item_at H (w_fs w) it d i))"
    if "open_item_parent it w = (Inr d, v)" "recheck H d (item_name it) it v = (rs, u)" for d v u rs
  proof -
    note v = os_open_dir_quiet [OF q that(1)]
    then have "quiet v" by simp
    from recheck_quiet [OF this that(2)] v show ?thesis by (auto simp: item_at_def)
  qed
  from a show ?thesis
  proof (cases rule: act_cases)
    case (no_parent e)
    with os_open_dir_quiet [OF q no_parent(2)] show ?thesis by auto
  next
    case (drift d v reason)
    with checked [OF drift(2,3)] show ?thesis by auto
  next
    case (refused d v u)
    with checked [OF refused(2,3)] audit_w_fs [OF refused(4)] show ?thesis by auto
  next
    case (raised d v u p x e)
    with checked [OF raised(2,3)] audit_w_fs [OF raised(4)] show ?thesis by auto
  next
    case (unrecorded d v u p x status detail y)
    with checked [OF unrecorded(2,3)] audit_w_fs [OF unrecorded(4)] audit_w_fs [OF unrecorded(6)] show ?thesis by auto
  next
    case (acted d v u p x status detail y q)
    with checked [OF acted(2,3)] audit_w_fs [OF acted(4)] audit_w_fs [OF acted(6)] show ?thesis by auto
  qed
qed

text \<open>A call that changes an entry refuses a name that is no plain component.\<close>

lemma located_plain: "locate fs d (item_name it) = Inr p \<Longrightarrow> plain_name (item_name it)"
  using item_name_cases [of it] by (elim disjE) (simp_all add: fs_simps)

lemma changed_plain:
  "fs_unlink d (item_name it) fs = Inr fs' \<Longrightarrow> plain_name (item_name it)"
  "fs_link d (item_name it) dd n fs = Inr fs' \<Longrightarrow> plain_name (item_name it)"
  "fs_rename d (item_name it) dd n fs = Inr fs' \<Longrightarrow> plain_name (item_name it)"
  using located_plain [of fs d it] by (auto simp: fs_unlink_def fs_link_def fs_rename_def)

lemma item_at_entry: "item_at H fs it d i \<Longrightarrow> plain_name (item_name it) \<Longrightarrow> entry_at fs d (item_name it) = Some i"
  using resolve_plain by (simp add: item_at_def)

text \<open>With a hash in the plan, a matching node is a regular file with that content.\<close>

lemma node_matches_hash:
  assumes "node_matches H fs it i" "pi_prior_hash it = Some h"
  shows "\<exists>c. file_content fs i = Some c \<and> H c = h \<and> int (length c) = pi_prior_size it \<and> ino_num i = pi_prior_inode it"
  using assms by (auto simp: node_matches_def file_content_def stat_node_def Let_def split: option.splits node.splits)

lemma node_matches_delete: "node_matches H fs it i \<Longrightarrow> pi_action it = HARD_DELETE \<Longrightarrow> \<exists>h. pi_prior_hash it = Some h"
  by (auto simp: node_matches_def Let_def split: option.splits)

section \<open>Drift and deletion\<close>

lemma act_drift_core:
  assumes "quiet w" "\<not> item_matches H (w_fs w) it" "act H ex plan it w = (r, w')"
  shows "w_fs w' = w_fs w \<and> (\<forall>res recs. r = Inr (res, recs) \<longrightarrow> er_status res = ''aborted_drift'' \<and> recs = [])"
  using act_quiet [OF assms(1,3)] assms(2) item_at_matches by blast


lemma act_delete_core:
  assumes "quiet w" "pi_action it = HARD_DELETE" "act H ex plan it w = (r, w')" "w_fs w' \<noteq> w_fs w"
  shows "ex_allow_hard_delete ex \<and> (\<exists>d i c h. item_at H (w_fs w) it d i \<and>
    entry_at (w_fs w) d (item_name it) = Some i \<and> file_content (w_fs w) i = Some c \<and>
    pi_prior_hash it = Some h \<and> H c = h \<and> int (length c) = pi_prior_size it \<and> ino_num i = pi_prior_inode it \<and>
    w_fs w' = set_entry d (item_name it) None (w_fs w))"
proof -
  from act_quiet [OF assms(1,3)] assms(4) obtain d i x y mo where
    at: "item_at H (w_fs w) it d i" and x: "same_fs w x"
    and m: "mutate_item ex d (item_name it) plan it x = (mo, y)" and y: "w_fs w' = w_fs y"
    by auto
  have allow: "ex_allow_hard_delete ex" using m y x assms(2,4) by (auto simp: mutate_item_def split: if_splits)
  obtain r2 z where u: "os_unlink d (item_name it) x = (r2, z)" by fastforce
  with m assms(2) allow have z: "z = y" by (auto simp: mutate_item_def split: sum.splits)
  from x have "quiet x" by simp
  note uq = mutate_quiet [OF this u [unfolded os_unlink_def]]
  have "r2 = Inr ()" using uq(2) x y z assms(4) by (cases r2) auto
  with uq(3) x z have del: "fs_unlink d (item_name it) (w_fs w) = Inr (w_fs y)" by simp
  note plain = changed_plain(1) [OF del]
  note entry = item_at_entry [OF at plain]
  from at obtain h where h: "pi_prior_hash it = Some h"
    unfolding item_at_def using node_matches_delete [OF _ assms(2)] by metis
  with at node_matches_hash obtain c where "file_content (w_fs w) i = Some c \<and> H c = h \<and>
      int (length c) = pi_prior_size it \<and> ino_num i = pi_prior_inode it"
    by (metis item_at_def)
  moreover have "w_fs y = set_entry d (item_name it) None (w_fs w)"
    using fs_unlink_ok [OF del plain] by blast
  ultimately show ?thesis using allow at entry h y by auto
qed


section \<open>Quarantine\<close>

lemma act_quarantine_core:
  assumes "quiet w" "pi_action it = QUARANTINE" "pi_prior_hash it = Some h"
    and "plain_name (quarantine_name plan it (item_name it))"
    and "act H ex plan it w = (Inr (res, recs), w')" "er_status res = ''quarantined''"
  shows "\<exists>d i q c. item_at H (w_fs w) it d i \<and> entry_at (w_fs w) d (item_name it) = Some i \<and>
    file_content (w_fs w) i = Some c \<and> H c = h \<and>
    fs_open_dir (w_fs w) (fs_cwd (w_fs w)) True (path_str (path_of (ex_quarantine_dir ex))) = Inr q \<and>
    w_fs w' = (if entry_at (w_fs w) q (quarantine_name plan it (item_name it)) = Some i then w_fs w
      else set_entry q (quarantine_name plan it (item_name it)) (Some i) (set_entry d (item_name it) None (w_fs w)))"
proof -
  let ?dest = "quarantine_name plan it (item_name it)"
  let ?q = "path_of (ex_quarantine_dir ex)"
  from act_quiet [OF assms(1,5)] assms(6) obtain d i x y where
    at: "item_at H (w_fs w) it d i" and x: "same_fs w x"
    and m: "mutate_item ex d (item_name it) plan it x = (Inr (''quarantined'', er_detail res), y)" and y: "w_fs w' = w_fs y"
    by auto
  obtain r1 v where op: "os_open_dir (fs_cwd (w_fs x)) True (path_str ?q) x = (r1, v)" by fastforce
  from x have qx: "quiet x" by simp
  note v = os_open_dir_quiet [OF qx op]
  from m op assms(2) obtain q where q: "r1 = Inr q" by (cases r1) (auto simp: mutate_item_def Let_def)
  obtain r2 z where rn: "os_rename d (item_name it) q ?dest v = (r2, z)" by fastforce
  from v have qv: "quiet v" by simp
  note rq = mutate_quiet [OF qv rn [unfolded os_rename_def]]
  from m op assms(2) q rn have r2: "r2 = Inr ()" "z = y"
    by (cases r2; auto simp: mutate_item_def Let_def)+
  with rq(3) v x have ren: "fs_rename d (item_name it) q ?dest (w_fs w) = Inr (w_fs y)" by simp
  note plain = changed_plain(3) [OF ren]
  note entry = item_at_entry [OF at plain]
  from at assms(3) node_matches_hash obtain c where c: "file_content (w_fs w) i = Some c" "H c = h"
    by (metis item_at_def)
  from fs_rename_file_ok [OF ren plain assms(4) entry file_not_dir [OF c(1)]]
  have "w_fs y = (if entry_at (w_fs w) q ?dest = Some i then w_fs w
      else set_entry q ?dest (Some i) (set_entry d (item_name it) None (w_fs w)))" by auto
  with at entry c v q x y show ?thesis by auto
qed


section \<open>Move\<close>

text \<open>The tree after a link of \<open>name\<close> in \<open>d\<close> to a free \<open>leaf\<close> in \<open>dd\<close>: the old name is gone when the move
  succeeded; otherwise it is still there and the link may have been undone.\<close>

definition placed :: "fs \<Rightarrow> inode \<Rightarrow> string \<Rightarrow> inode \<Rightarrow> string \<Rightarrow> inode \<Rightarrow> bool \<Rightarrow> fs \<Rightarrow> bool" where
  "placed fs d name dd leaf i ok fs' \<longleftrightarrow>
     plain_name name \<and> entry_at fs d name = Some i \<and> \<not> is_dir_at fs i \<and> entry_at fs dd leaf = None \<and> is_dir_at fs dd \<and>
     (let linked_fs = set_entry dd leaf (Some i) fs
      in if ok then fs' = set_entry d name None linked_fs
         else fs' = linked_fs \<or> fs' = set_entry dd leaf None linked_fs)"

lemma move_place_quiet:
  assumes q: "quiet w" and m: "move_place d (item_name it) cur leaf to w = ((status, detail), w')"
    and leaf: "plain_name leaf"
  shows "w_fs w' = w_fs w \<and> status \<noteq> ''moved'' \<or>
    (\<exists>i. placed (w_fs w) d (item_name it) cur leaf i (status = ''moved'') (w_fs w'))"
proof -
  obtain r1 v where l: "os_link d (item_name it) cur leaf w = (r1, v)" by fastforce
  note v = mutate_quiet [OF q l [unfolded os_link_def]]
  show ?thesis
  proof (cases r1)
    case (Inl e)
    with m l v show ?thesis by (auto simp: move_place_def split: if_splits)
  next
    case (Inr _)
    with v(3) have lk: "fs_link d (item_name it) cur leaf (w_fs w) = Inr (w_fs v)" by simp
    note plain = changed_plain(2) [OF lk]
    from fs_link_ok [OF lk plain leaf] obtain i where i: "entry_at (w_fs w) d (item_name it) = Some i"
      "\<not> is_dir_at (w_fs w) i" "entry_at (w_fs w) cur leaf = None" "is_dir_at (w_fs w) cur" "w_fs v = set_entry cur leaf (Some i) (w_fs w)"
      by blast
    obtain r2 u where s: "os_unlink d (item_name it) v = (r2, u)" by fastforce
    note u = mutate_quiet [OF v(1) s [unfolded os_unlink_def]]
    show ?thesis
    proof (cases r2)
      case (Inr _)
      with u(3) have "fs_unlink d (item_name it) (w_fs v) = Inr (w_fs u)" by simp
      from fs_unlink_ok [OF this plain] have "w_fs u = set_entry d (item_name it) None (w_fs v)" by blast
      with m l s \<open>r1 = Inr _\<close> Inr i plain show ?thesis by (auto simp: move_place_def placed_def Let_def)
    next
      case (Inl e)
      obtain r3 z where b: "os_unlink cur leaf u = (r3, z)" by fastforce
      note z = mutate_quiet [OF u(1) b [unfolded os_unlink_def]]
      have "w_fs z = w_fs v \<or> w_fs z = set_entry cur leaf None (w_fs v)"
        using z(2,3) u(2) [OF Inl] fs_unlink_ok [OF _ leaf, of cur "w_fs u" "w_fs z"] by (cases r3) auto
      with m l s b \<open>r1 = Inr _\<close> Inl i plain show ?thesis by (auto simp: move_place_def placed_def Let_def)
    qed
  qed
qed

text \<open>The components of an accepted destination are plain names.\<close>

definition dest_parts :: "string \<Rightarrow> string list" where
  "dest_parts dest_rel = filter (\<lambda>p. p \<noteq> []) (py_split slash dest_rel)"

lemma dest_parts_plain:
  assumes "dest_parts s \<noteq> []" "''..'' \<notin> set (dest_parts s)" "''.'' \<notin> set (dest_parts s)"
  shows "list_all plain_name (butlast (dest_parts s))" "plain_name (last (dest_parts s))"
proof -
  have "plain_name p" if "p \<in> set (dest_parts s)" for p
    using that assms(2,3) py_split_no_sep [of p slash s] by (auto simp: plain_name_def dest_parts_def)
  then show "list_all plain_name (butlast (dest_parts s))" "plain_name (last (dest_parts s))"
    using assms(1) by (auto simp: list_all_iff dest: in_set_butlastD)
qed

lemma move_file_quiet:
  assumes q: "quiet w" and m: "move_file d (item_name it) plan it w = ((status, detail), w')"
  shows "extends_fs (w_fs w) (w_fs w') \<and> status \<noteq> ''moved'' \<or>
    (\<exists>i mid root dd rel. extends_fs (w_fs w) mid \<and> pi_dest_rel it = Some rel \<and>
      fs_open_dir (w_fs w) (fs_cwd (w_fs w)) False (the (rp_move_root plan)) = Inr root \<and>
      real_dirs mid root (butlast (dest_parts rel)) dd \<and>
      placed mid d (item_name it) dd (last (dest_parts rel)) i (status = ''moved'') (w_fs w'))"
proof (cases "\<exists>mr rel. rp_move_root plan = Some mr \<and> pi_dest_rel it = Some rel \<and> mr \<noteq> [] \<and> rel \<noteq> [] \<and>
    dest_parts rel \<noteq> [] \<and> ''..'' \<notin> set (dest_parts rel) \<and> ''.'' \<notin> set (dest_parts rel)")
  case False
  then have "w' = w \<and> status \<noteq> ''moved''"
    using m by (auto simp: move_file_def Let_def dest_parts_def split: option.splits if_splits)
  with extends_fs_refl show ?thesis by blast
next
  case True
  then obtain mr rel where mr: "rp_move_root plan = Some mr" "pi_dest_rel it = Some rel" "mr \<noteq> []" "rel \<noteq> []"
    and parts: "dest_parts rel \<noteq> []" "''..'' \<notin> set (dest_parts rel)" "''.'' \<notin> set (dest_parts rel)" by blast
  note plain = dest_parts_plain [OF parts]
  obtain r1 v where op: "os_open_dir (fs_cwd (w_fs w)) False mr w = (r1, v)" by fastforce
  note v = os_open_dir_quiet [OF q op]
  show ?thesis
  proof (cases r1)
    case (Inl e)
    with m op mr parts v extends_fs_refl show ?thesis
      by (auto simp: move_file_def Let_def dest_parts_def errno_detail_def split: if_splits)
  next
    case (Inr root)
    obtain r2 u where dirs: "move_dirs root (butlast (dest_parts rel)) v = (r2, u)" by fastforce
    have "quiet v" using v by simp
    from move_dirs_quiet [OF this dirs] v plain(1) have u: "quiet u" "extends_fs (w_fs w) (w_fs u)"
      "\<forall>t. r2 = Inr t \<longrightarrow> real_dirs (w_fs u) root (butlast (dest_parts rel)) t" by auto
    show ?thesis
    proof (cases r2)
      case (Inl e)
      with m op mr parts Inr dirs u show ?thesis
        by (auto simp: move_file_def Let_def dest_parts_def split: if_splits)
    next
      case dd: (Inr dd)
      then have "move_place d (item_name it) dd (last (dest_parts rel)) (rstrip ''/'' mr @ ''/'' @ rel) u = ((status, detail), w')"
        using m op mr parts Inr dirs
        by (auto simp: move_file_def Let_def dest_parts_def split: if_splits)
      from move_place_quiet [OF u(1) this plain(2)] show ?thesis
        using u(2,3) dd mr(1,2) Inr v by (auto 0 3)
    qed
  qed
qed

lemma placed_keeps:
  assumes "placed fs d name dd leaf i ok fs'"
  shows "file_content fs' j = file_content fs j"
    and "entry_at fs e n = Some j \<Longrightarrow> entry_at fs' e n = Some j \<or> ok \<and> (e, n) = (d, name) \<and> j = i"
    and "ok \<Longrightarrow> entry_at fs' dd leaf = Some i \<and> entry_at fs' d name = None"
  using assms entry_at_dir [of fs d name i]
  by (auto simp: placed_def Let_def fs_simps split: if_splits)

lemma act_move_core:
  assumes "quiet w" "pi_action it = MOVE" "act H ex plan it w = (r, w')"
  shows "extends_fs (w_fs w) (w_fs w') \<and> (\<forall>res recs. r = Inr (res, recs) \<longrightarrow> er_status res \<noteq> ''moved'') \<or>
    (\<exists>d i mid root dd rel ok. item_at H (w_fs w) it d i \<and> extends_fs (w_fs w) mid \<and> pi_dest_rel it = Some rel \<and>
      fs_open_dir (w_fs w) (fs_cwd (w_fs w)) False (the (rp_move_root plan)) = Inr root \<and>
      real_dirs mid root (butlast (dest_parts rel)) dd \<and>
      placed mid d (item_name it) dd (last (dest_parts rel)) i ok (w_fs w') \<and>
      (\<forall>res recs. r = Inr (res, recs) \<longrightarrow> ok = (er_status res = ''moved'')))"
  using act_quiet [OF assms(1,3)]
proof (elim disjE exE conjE)
  assume "w_fs w' = w_fs w" "\<forall>res recs. r = Inr (res, recs) \<longrightarrow> er_status res = ''aborted_drift'' \<and> recs = []"
  then show ?thesis using extends_fs_refl by auto
next
  fix d i x y mo
  assume at: "item_at H (w_fs w) it d i" and x: "w_fs x = w_fs w" "quiet x"
    and m: "mutate_item ex d (item_name it) plan it x = (mo, y)" and y: "w_fs w' = w_fs y"
    and res: "\<forall>res recs. r = Inr (res, recs) \<longrightarrow> mo = Inr (er_status res, er_detail res)"
  obtain status detail where mf: "move_file d (item_name it) plan it x = ((status, detail), y)" "mo = Inr (status, detail)"
    using m assms(2) by (auto simp: mutate_item_def split: prod.splits)
  then have st: "\<forall>res recs. r = Inr (res, recs) \<longrightarrow> er_status res = status" using res by auto
  from move_file_quiet [OF x(2) mf(1)] show ?thesis
  proof (elim disjE exE conjE)
    assume "extends_fs (w_fs x) (w_fs y)" "status \<noteq> ''moved''"
    then show ?thesis using st x y by auto
  next
    fix j mid root dd rel
    assume p: "extends_fs (w_fs x) mid" "pi_dest_rel it = Some rel"
      "fs_open_dir (w_fs x) (fs_cwd (w_fs x)) False (the (rp_move_root plan)) = Inr root"
      "real_dirs mid root (butlast (dest_parts rel)) dd"
      "placed mid d (item_name it) dd (last (dest_parts rel)) j (status = ''moved'') (w_fs y)"
    have "i = j"
      using item_at_entry [OF at] p(1,5) x by (auto simp: extends_fs_def placed_def)
    with at p st x y show ?thesis
      by (intro disjI2 exI [of _ d] exI [of _ j] exI [of _ mid] exI [of _ root] exI [of _ dd] exI [of _ rel]
          exI [of _ "status = ''moved''"]) simp
  qed
qed


text \<open>A move stays under the approved root: an item reported as moved is, under its old inode, at the
  last component of its destination, in a directory reached from the plan's move root through real
  directories only, so no symbolic link planted in the destination tree can redirect it; and its
  old name is gone.\<close>

theorem move_stays_under_root:
  assumes "quiet w" "pi_action it = MOVE" "act H ex plan it w = (Inr (res, recs), w')" "er_status res = ''moved''"
  shows "\<exists>d i root dd rel. item_at H (w_fs w) it d i \<and> pi_dest_rel it = Some rel \<and>
    fs_open_dir (w_fs w) (fs_cwd (w_fs w)) False (the (rp_move_root plan)) = Inr root \<and>
    real_dirs (w_fs w') root (butlast (dest_parts rel)) dd \<and>
    entry_at (w_fs w') dd (last (dest_parts rel)) = Some i \<and> entry_at (w_fs w') d (item_name it) = None"
proof -
  from act_move_core [OF assms(1-3)] assms(4) obtain d i mid root dd rel where
    at: "item_at H (w_fs w) it d i" "extends_fs (w_fs w) mid" "pi_dest_rel it = Some rel"
      "fs_open_dir (w_fs w) (fs_cwd (w_fs w)) False (the (rp_move_root plan)) = Inr root"
    and dirs: "real_dirs mid root (butlast (dest_parts rel)) dd"
    and p: "placed mid d (item_name it) dd (last (dest_parts rel)) i True (w_fs w')"
    by auto
  have "entry_at (w_fs w') e n = Some j \<and> is_dir_at (w_fs w') j" if "entry_at mid e n = Some j" "is_dir_at mid j" for e n j
    using that p placed_keeps(2) [OF p that(1)] by (auto simp: placed_def fs_simps Let_def)
  from real_dirs_mono [OF dirs this] have "real_dirs (w_fs w') root (butlast (dest_parts rel)) dd" .
  with at placed_keeps(3) [OF p] show ?thesis by blast
qed

section \<open>Nothing in the way\<close>

text \<open>A world without interference, in which no call fails of itself and the audit sink takes every record.\<close>

definition calm :: "world \<Rightarrow> bool" where
  "calm w \<longleftrightarrow> quiet w \<and> w_fault w = (\<lambda>_. None) \<and> ch_accepts (w_audit w) = (\<lambda>_ _. True)"

lemma calm_quiet: "calm w \<Longrightarrow> quiet w"
  by (simp add: calm_def)

lemma enter_calm: "calm w \<Longrightarrow> w_fs (enter w) = w_fs w \<and> calm (enter w)"
  by (simp add: calm_def quiet_def enter_def)

lemma query_calm: "calm w \<Longrightarrow> query f w = (f (w_fs w), enter w)"
  using enter_calm [of w] by (simp add: query_def Let_def) (simp add: calm_def)

lemma mutate_calm:
  "calm w \<Longrightarrow> f (w_fs w) = Inr fs' \<Longrightarrow> \<exists>w'. mutate ev f w = (Inr (), w') \<and> w_fs w' = fs' \<and> calm w'"
  using enter_calm [of w] by (simp add: mutate_def Let_def) (simp add: calm_def quiet_def)

lemma audit_w_calm: "calm w \<Longrightarrow> \<exists>r w'. audit_w H a b c d e w = (Some r, w') \<and> w_fs w' = w_fs w \<and> calm w'"
  by (simp add: audit_w_def audit_append_def emit_record_def calm_def quiet_def Let_def)

lemma recheck_calm:
  assumes "calm w" "resolve_at (w_fs w) d False n = Inr i" "node_matches H (w_fs w) it i"
  shows "\<exists>w'. recheck H d n it w = (None, w') \<and> w_fs w' = w_fs w \<and> calm w'"
proof -
  obtain nd where nd: "fs_nodes (w_fs w) i = Some nd" using assms(3) by (auto simp: node_matches_def split: option.splits)
  let ?v = "enter w"
  have v: "w_fs ?v = w_fs w" "calm ?v" using enter_calm [OF assms(1)] by auto
  have ls: "os_lstat d n w = (Inr (stat_node i nd), ?v)"
    using assms(2) nd by (simp add: os_lstat_def fs_stat_def query_calm [OF assms(1)])
  show ?thesis
  proof (cases "pi_prior_hash it")
    case None
    with ls nd assms(3) v show ?thesis by (auto simp: recheck_def node_matches_def Let_def)
  next
    case (Some h)
    with nd assms(3) obtain c where c: "nd = File c" "H c = h"
      by (auto simp: node_matches_def Let_def split: node.splits)
    have "os_open_file d False n ?v = (Inr i, enter ?v)"
      using assms(2) nd c v by (simp add: os_open_file_def fs_open_file_def query_calm [OF v(2)])
    moreover have "os_read i (enter ?v) = (Inr c, enter (enter ?v))"
      using enter_calm [OF v(2)] nd c v by (simp add: os_read_def fs_read_def query_calm)
    ultimately have "full_hash_through_fd H d n ?v = (Inr h, enter (enter ?v))"
      using c by (simp add: full_hash_through_fd_def)
    with ls nd assms(3) Some enter_calm v show ?thesis
      by (auto simp: recheck_def node_matches_def Let_def)
  qed
qed

text \<open>An item that matches is acted on, and both its records are written.\<close>

lemma act_calm:
  assumes "calm w" "item_at H (w_fs w) it d i"
    and m: "\<And>x. calm x \<Longrightarrow> w_fs x = w_fs w \<Longrightarrow>
      \<exists>detail y. mutate_item ex d (item_name it) plan it x = (Inr (status, detail), y) \<and> w_fs y = fs' \<and> calm y"
  shows "\<exists>detail p q w'. act H ex plan it w = (Inr (item_result it status detail, [p, q]), w') \<and> w_fs w' = fs'"
proof -
  have op: "open_item_parent it w = (Inr d, enter w)" and v: "w_fs (enter w) = w_fs w" "calm (enter w)"
    using assms(2) enter_calm [OF assms(1)] by (simp_all add: os_open_dir_def item_at_def query_calm [OF assms(1)])
  obtain u where u: "recheck H d (item_name it) it (enter w) = (None, u)" "w_fs u = w_fs w" "calm u"
    using recheck_calm [OF v(2), of d "item_name it" i H it] assms(2) v(1) by (auto simp: item_at_def)
  obtain p x where x: "audit_item H ex it ''pending'' u = (Some p, x)" "w_fs x = w_fs w" "calm x"
    using audit_w_calm [OF u(3)] u(2) by metis
  obtain detail y where y: "mutate_item ex d (item_name it) plan it x = (Inr (status, detail), y)" "w_fs y = fs'" "calm y"
    using m [OF x(3,2)] by blast
  obtain q z where z: "audit_item H ex it status y = (Some q, z)" "w_fs z = fs'"
    using audit_w_calm [OF y(3)] y(2) by metis
  have "act H ex plan it w = (Inr (item_result it status detail, [p, q]), z)"
    unfolding act_def Let_def op prod.case sum.case u(1) option.case x(1) y(1) z(1) ..
  with z(2) show ?thesis by blast
qed

lemma act_calm_delete:
  assumes "calm w" "item_at H (w_fs w) it d i" "pi_action it = HARD_DELETE" "ex_allow_hard_delete ex"
    and "fs_unlink d (item_name it) (w_fs w) = Inr fs'"
  shows "\<exists>detail p q w'. act H ex plan it w = (Inr (item_result it ''deleted'' detail, [p, q]), w') \<and> w_fs w' = fs'"
proof (rule act_calm [OF assms(1,2)])
  fix x
  assume x: "calm x" "w_fs x = w_fs w"
  obtain y where "os_unlink d (item_name it) x = (Inr (), y)" "w_fs y = fs'" "calm y"
    using mutate_calm [OF x(1), of "fs_unlink d (item_name it)" fs'] x(2) assms(5) unfolding os_unlink_def by fastforce
  with assms(3,4) show "\<exists>detail y. mutate_item ex d (item_name it) plan it x = (Inr (''deleted'', detail), y) \<and> w_fs y = fs' \<and> calm y"
    by (simp add: mutate_item_def)
qed

lemma act_calm_quarantine:
  assumes "calm w" "item_at H (w_fs w) it d i" "pi_action it = QUARANTINE"
    and q: "fs_open_dir (w_fs w) (fs_cwd (w_fs w)) True (path_str (path_of (ex_quarantine_dir ex))) = Inr q"
    and ren: "fs_rename d (item_name it) q (quarantine_name plan it (item_name it)) (w_fs w) = Inr fs'"
  shows "\<exists>detail p q w'. act H ex plan it w = (Inr (item_result it ''quarantined'' detail, [p, q]), w') \<and> w_fs w' = fs'"
proof (rule act_calm [OF assms(1,2)])
  fix x
  assume x: "calm x" "w_fs x = w_fs w"
  have "os_open_dir (fs_cwd (w_fs x)) True (path_str (path_of (ex_quarantine_dir ex))) x = (Inr q, enter x)"
    using q x(2) by (simp add: os_open_dir_def query_calm [OF x(1)])
  moreover obtain y where "os_rename d (item_name it) q (quarantine_name plan it (item_name it)) (enter x) = (Inr (), y)"
    "w_fs y = fs'" "calm y"
    using mutate_calm [of "enter x" "fs_rename d (item_name it) q (quarantine_name plan it (item_name it))" fs']
      enter_calm [OF x(1)] x(2) ren unfolding os_rename_def by fastforce
  ultimately show "\<exists>detail y. mutate_item ex d (item_name it) plan it x = (Inr (''quarantined'', detail), y) \<and> w_fs y = fs' \<and> calm y"
    using assms(3) by (simp add: mutate_item_def Let_def)
qed

lemma act_calm_move:
  assumes "calm w" "item_at H (w_fs w) it d i" "pi_action it = MOVE" "rp_move_root plan = Some mr" "mr \<noteq> []"
    and "pi_dest_rel it = Some leaf" "plain_name leaf"
    and root: "fs_open_dir (w_fs w) (fs_cwd (w_fs w)) False mr = Inr root"
    and l: "fs_link d (item_name it) root leaf (w_fs w) = Inr mid" and u: "fs_unlink d (item_name it) mid = Inr fs'"
  shows "\<exists>detail p q w'. act H ex plan it w = (Inr (item_result it ''moved'' detail, [p, q]), w') \<and> w_fs w' = fs'"
proof (rule act_calm [OF assms(1,2)])
  fix x
  assume x: "calm x" "w_fs x = w_fs w"
  have op: "os_open_dir (fs_cwd (w_fs x)) False mr x = (Inr root, enter x)"
    using root x(2) by (simp add: os_open_dir_def query_calm [OF x(1)])
  obtain v where v: "os_link d (item_name it) root leaf (enter x) = (Inr (), v)" "w_fs v = mid" "calm v"
    using mutate_calm [of "enter x" "fs_link d (item_name it) root leaf" mid] enter_calm [OF x(1)] x(2) l
    unfolding os_link_def by fastforce
  obtain y where y: "os_unlink d (item_name it) v = (Inr (), y)" "w_fs y = fs'" "calm y"
    using mutate_calm [OF v(3), of "fs_unlink d (item_name it)" fs'] v(2) u unfolding os_unlink_def by fastforce
  have parts: "filter (\<lambda>p. p \<noteq> []) (py_split slash leaf) = [leaf]" "leaf \<noteq> []" "''..'' \<noteq> leaf" "''.'' \<noteq> leaf"
    using assms(7) by (auto simp: plain_name_def py_split_id)
  show "\<exists>detail y. mutate_item ex d (item_name it) plan it x = (Inr (''moved'', detail), y) \<and> w_fs y = fs' \<and> calm y"
    using assms(3-6) op v(1) y parts
    by (simp add: mutate_item_def move_file_def move_place_def)
qed

text \<open>A matching item is quarantined: when nothing interferes, no call fails and the sink takes the records,
  an item that still matches its plan, whose rename into the quarantine directory is possible, is
  renamed there, reported as quarantined, and leaves exactly its two audit records.\<close>

theorem matching_item_quarantined:
  assumes "calm w" "item_at H (w_fs w) it d i" "pi_action it = QUARANTINE"
    and "fs_open_dir (w_fs w) (fs_cwd (w_fs w)) True (path_str (path_of (ex_quarantine_dir ex))) = Inr q"
    and "fs_rename d (item_name it) q (quarantine_name plan it (item_name it)) (w_fs w) = Inr fs'"
  shows "\<exists>detail pending after w'.
    act H ex plan it w = (Inr (item_result it ''quarantined'' detail, [pending, after]), w') \<and> w_fs w' = fs'"
  by (rule act_calm_quarantine [OF assms])

section \<open>A concrete tree\<close>

text \<open>\<open>/d/a\<close> and \<open>/d/b\<close> hold the same bytes; \<open>/q\<close> is the quarantine directory.\<close>

definition sample_fs :: fs where
  "sample_fs = \<lparr>fs_nodes = map_of
      [(Inode 0 1, Dir [(''d'', Inode 0 2), (''q'', Inode 0 3)] (Inode 0 1) 0),
       (Inode 0 2, Dir [(''a'', Inode 0 11), (''b'', Inode 0 12)] (Inode 0 1) 0),
       (Inode 0 3, Dir [] (Inode 0 1) 0), (Inode 0 11, File ''xyz''), (Inode 0 12, File ''xyz'')],
     fs_root = Inode 0 1, fs_cwd = Inode 0 1, fs_next = 20\<rparr>"

definition sample_chain :: audit_chain where
  "sample_chain = \<lparr>ch_log = [], ch_accepts = (\<lambda>_ _. True), ch_head = GENESIS_HASH, ch_now = (\<lambda>_. ''t''), ch_calls = 0\<rparr>"

definition sample_world :: world where
  "sample_world = \<lparr>w_fs = sample_fs, w_env = (\<lambda>_ fs. fs), w_fault = (\<lambda>_. None), w_tick = 0,
     w_audit = sample_chain, w_trace = []\<rparr>"

definition sample_executor :: executor where
  "sample_executor = \<lparr>ex_quarantine_dir = ''/q'', ex_write_enabled = True, ex_blast_cap = 100,
     ex_allow_hard_delete = True, ex_actor = ''actor''\<rparr>"

definition act_item :: "plan_action \<Rightarrow> string option \<Rightarrow> plan_item" where
  "act_item action dest = \<lparr>pi_entry_id = Id_Int 2, pi_path = ''/d/b'', pi_prior_inode = 12, pi_prior_size = 3,
     pi_prior_hash = Some (mark_hash ''xyz''), pi_action = action, pi_dest_rel = dest\<rparr>"

definition act_plan :: "plan_item \<Rightarrow> remediation_plan" where
  "act_plan it = \<lparr>rp_plan_id = ''p1'', rp_created_by = ''op'', rp_keeper_path = ''/d/a'', rp_items = [it], rp_move_root = Some ''/d''\<rparr>"

lemma sample_world_quiet [simp]: "quiet sample_world"
  by (simp add: quiet_def sample_world_def)

lemma sample_world_calm: "calm sample_world" "w_fs sample_world = sample_fs"
  by (simp_all add: calm_def quiet_def sample_world_def sample_chain_def)

lemma sample_item_at: "item_at mark_hash sample_fs (act_item a dest) (Inode 0 2) (Inode 0 12)"
proof -
  have "fs_open_dir sample_fs (fs_cwd sample_fs) True (path_str (path_parent (path_of ''/d/b''))) = Inr (Inode 0 2)"
    "resolve_at sample_fs (Inode 0 2) False (path_name (path_of ''/d/b'')) = Inr (Inode 0 12)"
    by code_simp+
  then show ?thesis
    by (simp add: item_at_def act_item_def node_matches_def sample_fs_def stat_node_def)
qed

lemma sample_item_name [simp]: "item_name (act_item a dest) = ''b''"
proof -
  have "path_name (path_of ''/d/b'') = ''b''" by code_simp
  then show ?thesis by (simp add: act_item_def)
qed

lemma sample_quarantine:
  "fs_open_dir sample_fs (fs_cwd sample_fs) True (path_str (path_of ''/q'')) = Inr (Inode 0 3)"
  "fs_rename (Inode 0 2) ''b'' (Inode 0 3) ''p1__12__b'' sample_fs =
     Inr (set_entry (Inode 0 3) ''p1__12__b'' (Some (Inode 0 12)) (set_entry (Inode 0 2) ''b'' None sample_fs))"
  "entry_at sample_fs (Inode 0 2) ''b'' = Some (Inode 0 12)" "entry_at sample_fs (Inode 0 3) ''p1__12__b'' = None"
  "fs_open_dir sample_fs (fs_cwd sample_fs) False ''/d'' = Inr (Inode 0 2)"
proof -
  show "fs_open_dir sample_fs (fs_cwd sample_fs) True (path_str (path_of ''/q'')) = Inr (Inode 0 3)"
    "entry_at sample_fs (Inode 0 2) ''b'' = Some (Inode 0 12)" "entry_at sample_fs (Inode 0 3) ''p1__12__b'' = None"
    "fs_open_dir sample_fs (fs_cwd sample_fs) False ''/d'' = Inr (Inode 0 2)"
    by code_simp+
  then show "fs_rename (Inode 0 2) ''b'' (Inode 0 3) ''p1__12__b'' sample_fs =
     Inr (set_entry (Inode 0 3) ''p1__12__b'' (Some (Inode 0 12)) (set_entry (Inode 0 2) ''b'' None sample_fs))"
    by (simp add: fs_rename_def fs_simps plain_name_def is_dir_at_def sample_fs_def)
qed

lemma sample_quarantine_name [simp]: "quarantine_name (act_plan it) (act_item a dest) ''b'' = ''p1__12__b''"
proof -
  have "str_int 12 = ''12''" by code_simp
  then show ?thesis by (simp add: quarantine_name_def act_plan_def act_item_def)
qed

text \<open>The three actions on \<open>/d/b\<close>.\<close>

lemma sample_runs:
  "\<exists>detail p q w'. act mark_hash sample_executor (act_plan (act_item QUARANTINE None)) (act_item QUARANTINE None) sample_world =
     (Inr (item_result (act_item QUARANTINE None) ''quarantined'' detail, [p, q]), w') \<and>
     w_fs w' = set_entry (Inode 0 3) ''p1__12__b'' (Some (Inode 0 12)) (set_entry (Inode 0 2) ''b'' None sample_fs)"
  "\<exists>detail p q w'. act mark_hash sample_executor (act_plan (act_item HARD_DELETE None)) (act_item HARD_DELETE None) sample_world =
     (Inr (item_result (act_item HARD_DELETE None) ''deleted'' detail, [p, q]), w') \<and>
     w_fs w' = set_entry (Inode 0 2) ''b'' None sample_fs"
  "\<exists>detail p q w'. act mark_hash sample_executor (act_plan (act_item MOVE (Some ''c''))) (act_item MOVE (Some ''c'')) sample_world =
     (Inr (item_result (act_item MOVE (Some ''c'')) ''moved'' detail, [p, q]), w') \<and>
     w_fs w' = set_entry (Inode 0 2) ''b'' None (set_entry (Inode 0 2) ''c'' (Some (Inode 0 12)) sample_fs)"
proof -
  note at = sample_item_at [folded sample_world_calm(2)]
  have facts: "\<not> is_dir_at sample_fs (Inode 0 12)" "is_dir_at sample_fs (Inode 0 2)" "entry_at sample_fs (Inode 0 2) ''c'' = None"
    "plain_name ''b''" "plain_name ''c''"
    by (simp_all add: is_dir_at_def entry_at_def sample_fs_def plain_name_def)
  show "\<exists>detail p q w'. act mark_hash sample_executor (act_plan (act_item QUARANTINE None)) (act_item QUARANTINE None) sample_world =
     (Inr (item_result (act_item QUARANTINE None) ''quarantined'' detail, [p, q]), w') \<and>
     w_fs w' = set_entry (Inode 0 3) ''p1__12__b'' (Some (Inode 0 12)) (set_entry (Inode 0 2) ''b'' None sample_fs)"
    by (rule act_calm_quarantine [OF sample_world_calm(1) at, where q = "Inode 0 3"])
      (simp add: act_item_def, simp_all add: sample_world_calm(2) sample_executor_def sample_quarantine)
  show "\<exists>detail p q w'. act mark_hash sample_executor (act_plan (act_item HARD_DELETE None)) (act_item HARD_DELETE None) sample_world =
     (Inr (item_result (act_item HARD_DELETE None) ''deleted'' detail, [p, q]), w') \<and>
     w_fs w' = set_entry (Inode 0 2) ''b'' None sample_fs"
    by (rule act_calm_delete [OF sample_world_calm(1) at])
      (simp add: act_item_def, simp add: sample_executor_def,
        simp add: sample_world_calm(2) fs_unlink_def fs_simps facts sample_quarantine)
  show "\<exists>detail p q w'. act mark_hash sample_executor (act_plan (act_item MOVE (Some ''c''))) (act_item MOVE (Some ''c'')) sample_world =
     (Inr (item_result (act_item MOVE (Some ''c'')) ''moved'' detail, [p, q]), w') \<and>
     w_fs w' = set_entry (Inode 0 2) ''b'' None (set_entry (Inode 0 2) ''c'' (Some (Inode 0 12)) sample_fs)"
    by (rule act_calm_move [OF sample_world_calm(1) at, where mr = "''/d''" and leaf = "''c''" and root = "Inode 0 2"
          and mid = "set_entry (Inode 0 2) ''c'' (Some (Inode 0 12)) sample_fs"])
      (simp add: act_item_def, simp add: act_plan_def, simp, simp add: act_item_def, simp add: facts,
        simp_all add: sample_world_calm(2) sample_quarantine fs_link_def fs_unlink_def fs_simps facts)
qed

theorem matching_item_quarantined_witness:
  "\<exists>detail p q w'. act mark_hash sample_executor (act_plan (act_item QUARANTINE None)) (act_item QUARANTINE None) sample_world =
     (Inr (item_result (act_item QUARANTINE None) ''quarantined'' detail, [p, q]), w') \<and>
     entry_at (w_fs w') (Inode 0 3) ''p1__12__b'' = Some (Inode 0 12)"
proof -
  have "is_dir_at sample_fs (Inode 0 3)" by (simp add: is_dir_at_def sample_fs_def)
  moreover have "\<exists>detail p q w'. act mark_hash sample_executor (act_plan (act_item QUARANTINE None)) (act_item QUARANTINE None) sample_world =
     (Inr (item_result (act_item QUARANTINE None) ''quarantined'' detail, [p, q]), w') \<and>
     w_fs w' = set_entry (Inode 0 3) ''p1__12__b'' (Some (Inode 0 12)) (set_entry (Inode 0 2) ''b'' None sample_fs)"
    by (rule matching_item_quarantined [OF sample_world_calm(1) sample_item_at [folded sample_world_calm(2)], where q = "Inode 0 3"])
      (simp add: act_item_def, simp_all add: sample_world_calm(2) sample_executor_def sample_quarantine)
  ultimately show ?thesis by (auto simp: fs_simps)
qed





theorem move_stays_under_root_witness:
  "\<exists>root dd. fs_open_dir sample_fs (fs_cwd sample_fs) False ''/d'' = Inr root \<and> dd = root \<and>
     entry_at (w_fs (snd (act mark_hash sample_executor (act_plan (act_item MOVE (Some ''c''))) (act_item MOVE (Some ''c'')) sample_world)))
       dd ''c'' = Some (Inode 0 12)"
proof -
  let ?it = "act_item MOVE (Some ''c'')"
  obtain detail p q w' where run: "act mark_hash sample_executor (act_plan ?it) ?it sample_world =
     (Inr (item_result ?it ''moved'' detail, [p, q]), w')"
    using sample_runs(3) by blast
  have it: "pi_action ?it = MOVE" "pi_dest_rel ?it = Some ''c''" "the (rp_move_root (act_plan ?it)) = ''/d''" "dest_parts ''c'' = [''c'']"
    by (simp_all add: act_item_def act_plan_def dest_parts_def)
  from move_stays_under_root [OF sample_world_quiet it(1) run]
  obtain d i root dd where "item_at mark_hash sample_fs ?it d i"
    "fs_open_dir sample_fs (fs_cwd sample_fs) False ''/d'' = Inr root" "dd = root" "entry_at (w_fs w') dd ''c'' = Some i"
    by (auto simp: sample_world_calm(2) it)
  moreover from this(1) sample_item_at [of MOVE "Some ''c''"] have "i = Inode 0 12" by (simp add: item_at_def)
  ultimately show ?thesis using run by auto
qed

theorem gates_refuse_witness:
  "snd (execute_with_audit mark_hash (sample_executor\<lparr>ex_write_enabled := False\<rparr>) sample_plan [] True sample_world) = sample_world"
  using gates_refuse [of "sample_executor\<lparr>ex_write_enabled := False\<rparr>" "[]" sample_plan True mark_hash sample_world]
  by (simp add: sample_executor_def)

end
