(* ===== verification/Paths.thy ===== *)
theory Paths
  imports Pathlib
begin

text \<open>
  The path-safety primitives of \<open>security/paths.py\<close>, over \<open>os.path.normpath\<close> and \<open>pathlib\<close>.
\<close>

section \<open>Normalisation\<close>

text \<open>\<open>posixpath.normpath\<close>: one component at a time onto the components kept so far (last first).\<close>

definition norm_step :: "bool \<Rightarrow> string list \<Rightarrow> string \<Rightarrow> string list" where
  "norm_step rooted kept c =
     (if c = [] \<or> c = ''.'' then kept
      else if c \<noteq> ''..'' \<or> (\<not> rooted \<and> kept = []) \<or> (kept \<noteq> [] \<and> hd kept = ''..'') then c # kept
      else tl kept)"

definition norm_comps :: "bool \<Rightarrow> string list \<Rightarrow> string list" where
  "norm_comps rooted comps = rev (fold (\<lambda>c kept. norm_step rooted kept c) comps [])"

definition leading_slashes :: "string \<Rightarrow> string" where
  "leading_slashes s =
     (if prefix ''//'' s \<and> \<not> prefix ''///'' s then ''//'' else if prefix ''/'' s then ''/'' else [])"

definition normpath :: "string \<Rightarrow> string" where
  "normpath path =
     (if path = [] then ''.''
      else
        let lead = leading_slashes path;
            out = lead @ py_join ''/'' (norm_comps (lead \<noteq> []) (py_split path_sep path))
        in if out = [] then ''.'' else out)"

section \<open>Validation\<close>

datatype path_safety_error =
    Path_Empty | Path_NUL | Path_Not_Absolute | Path_Missing | Path_Not_Directory | Path_Not_File | Path_Escapes

datatype path_kind = Kind_Dir | Kind_File | Kind_Other

abbreviation NUL :: char where
  "NUL \<equiv> CHR 0x00"

text \<open>What is on disk at a path is an argument: the checks that ask for it are optional.\<close>

definition validate_config_path_on ::
    "(pure_path \<Rightarrow> path_kind option) \<Rightarrow> bool \<Rightarrow> bool \<Rightarrow> bool \<Rightarrow> string \<Rightarrow> (path_safety_error, pure_path) result" where
  "validate_config_path_on disk must_exist must_be_dir must_be_file text =
     (if text = [] then Inl Path_Empty
      else if NUL \<in> set text then Inl Path_NUL
      else if pp_root (path_of text) = [] then Inl Path_Not_Absolute
      else
        let normalised = path_of (normpath text);
            must_exist = (must_exist \<or> must_be_dir \<or> must_be_file)
        in if must_exist \<and> disk normalised = None then Inl Path_Missing
           else if must_be_dir \<and> disk normalised \<noteq> Some Kind_Dir then Inl Path_Not_Directory
           else if must_be_file \<and> disk normalised \<noteq> Some Kind_File then Inl Path_Not_File
           else Inr normalised)"

definition validate_config_path :: "string \<Rightarrow> (path_safety_error, pure_path) result" where
  "validate_config_path = validate_config_path_on (\<lambda>_. None) False False False"

text \<open>\<open>p.parents\<close>.\<close>

definition path_parents :: "pure_path \<Rightarrow> pure_path list" where
  "path_parents p = map (\<lambda>n. p\<lparr>pp_parts := take n (pp_parts p)\<rparr>) (rev [0..<length (pp_parts p)])"

definition path_at_or_under :: "pure_path \<Rightarrow> pure_path \<Rightarrow> bool" where
  "path_at_or_under base p \<longleftrightarrow> p = base \<or> base \<in> set (path_parents p)"

definition safe_path_join :: "string \<Rightarrow> string \<Rightarrow> (path_safety_error, pure_path) result" where
  "safe_path_join base candidate =
     (if NUL \<in> set base \<or> NUL \<in> set candidate then Inl Path_NUL
      else
        let base_norm = path_of (normpath base)
        in if pp_root base_norm = [] then Inl Path_Not_Absolute
           else
             let joined = path_of (normpath (path_str (path_div base_norm candidate)))
             in if joined \<noteq> base_norm \<and> base_norm \<notin> set (path_parents joined) then Inl Path_Escapes
                else Inr (path_of (path_str joined)))"

section \<open>Normal paths\<close>

text \<open>A normal path is absolute and has no empty, \<open>.\<close> or \<open>..\<close> component.\<close>

definition normal_part :: "string \<Rightarrow> bool" where
  "normal_part c \<longleftrightarrow> c \<noteq> [] \<and> c \<noteq> ''.'' \<and> c \<noteq> ''..'' \<and> path_sep \<notin> set c"

definition path_normal :: "pure_path \<Rightarrow> bool" where
  "path_normal p \<longleftrightarrow> (pp_root p = ''/'' \<or> pp_root p = ''//'') \<and> list_all normal_part (pp_parts p)"

lemma norm_comps_rooted:
  assumes "\<And>c. c \<in> set comps \<Longrightarrow> path_sep \<notin> set c"
  shows "list_all normal_part (norm_comps True comps)"
proof -
  have "list_all normal_part (fold (\<lambda>c kept. norm_step True kept c) cs kept)"
    if "list_all normal_part kept" "\<And>c. c \<in> set cs \<Longrightarrow> path_sep \<notin> set c" for cs kept
    using that
  proof (induction cs arbitrary: kept)
    case (Cons c cs)
    have "list_all normal_part (norm_step True kept c)"
      using Cons.prems by (cases kept) (auto simp: norm_step_def normal_part_def [of c] normal_part_def [of "''..''"])
    with Cons show ?case by simp
  qed simp
  from this [of "[]" comps] assms show ?thesis by (simp add: norm_comps_def list_all_iff)
qed

lemma norm_comps_normal: "list_all normal_part cs \<Longrightarrow> norm_comps rooted cs = cs"
proof -
  have "fold (\<lambda>c kept. norm_step rooted kept c) cs kept = rev cs @ kept" if "list_all normal_part cs" for kept
    using that by (induction cs arbitrary: kept) (auto simp: norm_step_def normal_part_def)
  from this [of "[]"] show "list_all normal_part cs \<Longrightarrow> norm_comps rooted cs = cs" by (simp add: norm_comps_def)
qed

lemma split_join_normal:
  assumes "list_all normal_part cs"
  shows "filter (\<lambda>p. p \<noteq> [] \<and> p \<noteq> ''.'') (py_split path_sep (py_join ''/'' cs)) = cs"
proof (cases "cs = []")
  case False
  with assms have "py_split path_sep (py_join ''/'' cs) = cs"
    by (intro py_split_join) (auto simp: list_all_iff normal_part_def)
  with assms show ?thesis by (simp add: list_all_iff normal_part_def)
qed simp

text \<open>A join of normal components does not start with a slash.\<close>

lemma join_normal_hd:
  assumes "list_all normal_part cs" "py_join ''/'' cs = c # s"
  shows "c \<noteq> path_sep"
proof -
  from assms obtain x xs where "cs = x # xs" by (cases cs) auto
  moreover from this obtain u where "py_join ''/'' cs = x @ u" by (cases xs) auto
  ultimately show ?thesis using assms by (cases x) (auto simp: normal_part_def)
qed

lemma leading_slashes_cases: "leading_slashes s = [] \<or> leading_slashes s = ''/'' \<or> leading_slashes s = ''//''"
  by (simp add: leading_slashes_def)

lemma pp_root_path_of: "pp_root (path_of s) = leading_slashes s"
  by (simp add: path_of_def leading_slashes_def)

lemma path_of_root_join:
  assumes "list_all normal_part cs" "lead = ''/'' \<or> lead = ''//''"
  shows "path_of (lead @ py_join ''/'' cs) = \<lparr>pp_root = lead, pp_parts = cs\<rparr>"
proof -
  let ?j = "py_join ''/'' cs"
  have hd: "?j = [] \<or> hd ?j \<noteq> path_sep" using join_normal_hd [OF assms(1)] by (cases ?j) auto
  have "leading_slashes (lead @ ?j) = lead"
    using assms(2) hd by (cases ?j) (auto simp: leading_slashes_def)
  moreover have "py_split path_sep (lead @ ?j) = replicate (length lead) [] @ py_split path_sep ?j"
    using assms(2) by auto
  then have "filter (\<lambda>p. p \<noteq> [] \<and> p \<noteq> ''.'') (py_split path_sep (lead @ ?j)) = cs"
    using split_join_normal [OF assms(1)] assms(2) by auto
  ultimately show ?thesis using pp_root_path_of [of "lead @ ?j"] by (simp add: path_of_def)
qed

lemma path_of_normpath:
  assumes "leading_slashes s \<noteq> []"
  shows "path_of (normpath s) = \<lparr>pp_root = leading_slashes s, pp_parts = norm_comps True (py_split path_sep s)\<rparr>"
proof -
  have "s \<noteq> []" using assms by (auto simp: leading_slashes_def)
  then have "normpath s = leading_slashes s @ py_join ''/'' (norm_comps True (py_split path_sep s))"
    using assms by (simp add: normpath_def Let_def)
  moreover have "list_all normal_part (norm_comps True (py_split path_sep s))"
    by (rule norm_comps_rooted) (rule py_split_no_sep)
  ultimately show ?thesis using path_of_root_join leading_slashes_cases assms by metis
qed

lemma path_normal_normpath: "leading_slashes s \<noteq> [] \<Longrightarrow> path_normal (path_of (normpath s))"
  using leading_slashes_cases [of s]
  by (auto simp: path_of_normpath path_normal_def intro!: norm_comps_rooted py_split_no_sep)

text \<open>Printing and reading a normal path gives the path back, and it is its own normal form.\<close>

lemma path_str_normal: "path_normal p \<Longrightarrow> path_of (path_str p) = p"
  by (cases p) (auto simp: path_normal_def path_str_def path_of_root_join)

lemma py_split_str_normal:
  assumes "path_normal p"
  shows "norm_comps True (py_split path_sep (path_str p)) = pp_parts p"
proof -
  have "norm_comps True (py_split path_sep (lead @ py_join ''/'' cs)) = cs"
    if "list_all normal_part cs" "lead = ''/'' \<or> lead = ''//''" for lead cs
  proof -
    have "norm_comps True (py_split path_sep (lead @ py_join ''/'' cs)) =
        norm_comps True (py_split path_sep (py_join ''/'' cs))"
      using that(2) by (auto simp: norm_comps_def norm_step_def)
    also have "\<dots> = cs"
    proof (cases "cs = []")
      case False
      with that(1) have "py_split path_sep (py_join ''/'' cs) = cs"
        by (intro py_split_join) (auto simp: list_all_iff normal_part_def)
      with norm_comps_normal [OF that(1)] show ?thesis by simp
    qed (simp add: norm_comps_def norm_step_def)
    finally show ?thesis .
  qed
  with assms show ?thesis by (auto simp: path_normal_def path_str_def)
qed

lemma leading_str_normal: "path_normal p \<Longrightarrow> leading_slashes (path_str p) = pp_root p"
  using path_str_normal [of p] pp_root_path_of [of "path_str p"] by simp

lemma validate_ok_iff:
  "validate_config_path s = Inr p \<longleftrightarrow> NUL \<notin> set s \<and> leading_slashes s \<noteq> [] \<and> p = path_of (normpath s)"
  by (auto simp: validate_config_path_def validate_config_path_on_def pp_root_path_of Let_def leading_slashes_def)

lemma validate_normal: "validate_config_path s = Inr p \<Longrightarrow> path_normal p"
  by (simp add: validate_ok_iff path_normal_normpath)

text \<open>\<open>p\<close> is \<open>base\<close> or below it exactly when the root is the same and the parts extend those of \<open>base\<close>.\<close>

lemma path_at_or_under_iff:
  "path_at_or_under base p \<longleftrightarrow> pp_root base = pp_root p \<and> prefix (pp_parts base) (pp_parts p)"
proof -
  have "base \<in> set (path_parents p) \<longleftrightarrow> (\<exists>n < length (pp_parts p). base = p\<lparr>pp_parts := take n (pp_parts p)\<rparr>)"
    by (auto simp: path_parents_def image_iff Bex_def)
  also have "\<dots> \<longleftrightarrow> pp_root base = pp_root p \<and> strict_prefix (pp_parts base) (pp_parts p)"
  proof
    assume "\<exists>n < length (pp_parts p). base = p\<lparr>pp_parts := take n (pp_parts p)\<rparr>"
    then obtain n where n: "n < length (pp_parts p)" "base = p\<lparr>pp_parts := take n (pp_parts p)\<rparr>" by blast
    then have "pp_parts base \<noteq> pp_parts p" by (auto dest: arg_cong [where f = length])
    with n(2) show "pp_root base = pp_root p \<and> strict_prefix (pp_parts base) (pp_parts p)"
      by (simp add: strict_prefix_def take_is_prefix)
  next
    assume a: "pp_root base = pp_root p \<and> strict_prefix (pp_parts base) (pp_parts p)"
    then obtain u where u: "pp_parts p = pp_parts base @ u" "u \<noteq> []" by (auto elim: strict_prefixE')
    then show "\<exists>n < length (pp_parts p). base = p\<lparr>pp_parts := take n (pp_parts p)\<rparr>"
      using a by (intro exI [of _ "length (pp_parts base)"]) auto
  qed
  finally have parents: "base \<in> set (path_parents p) \<longleftrightarrow> pp_root base = pp_root p \<and> strict_prefix (pp_parts base) (pp_parts p)" .
  show ?thesis unfolding path_at_or_under_def parents by (cases base; cases p) (auto simp: strict_prefix_def)
qed

section \<open>Joining\<close>

lemma norm_comps_filter: "norm_comps rooted (filter (\<lambda>p. p \<noteq> [] \<and> p \<noteq> ''.'') cs) = norm_comps rooted cs"
proof -
  have "fold (\<lambda>c kept. norm_step rooted kept c) (filter (\<lambda>p. p \<noteq> [] \<and> p \<noteq> ''.'') cs) kept =
      fold (\<lambda>c kept. norm_step rooted kept c) cs kept" for kept
    by (induction cs arbitrary: kept) (auto simp: norm_step_def)
  then show ?thesis by (simp add: norm_comps_def)
qed

text \<open>The normal form of a printed path whose components may include \<open>..\<close>.\<close>

lemma normpath_str:
  assumes "pp_root p = ''/'' \<or> pp_root p = ''//''" "\<And>c. c \<in> set (pp_parts p) \<Longrightarrow> c \<noteq> [] \<and> path_sep \<notin> set c"
  shows "path_of (normpath (path_str p)) = \<lparr>pp_root = pp_root p, pp_parts = norm_comps True (pp_parts p)\<rparr>"
proof -
  let ?j = "py_join ''/'' (pp_parts p)"
  have str: "path_str p = pp_root p @ ?j" using assms(1) by (auto simp: path_str_def)
  have "?j = [] \<or> hd ?j \<noteq> path_sep"
  proof (cases "pp_parts p")
    case (Cons x xs)
    then obtain u where "?j = x @ u" by (cases xs) auto
    with Cons assms(2) [of x] show ?thesis by (cases x) auto
  qed simp
  then have lead: "leading_slashes (path_str p) = pp_root p"
    using assms(1) str by (cases ?j) (auto simp: leading_slashes_def)
  have "norm_comps True (py_split path_sep (path_str p)) = norm_comps True (py_split path_sep ?j)"
    using assms(1) by (auto simp: str norm_comps_def norm_step_def)
  also have "\<dots> = norm_comps True (pp_parts p)"
  proof (cases "pp_parts p = []")
    case False
    then have "py_split path_sep ?j = pp_parts p" using assms(2) by (intro py_split_join) auto
    then show ?thesis by simp
  qed (simp add: norm_comps_def norm_step_def)
  finally show ?thesis using path_of_normpath [of "path_str p"] lead assms(1) by auto
qed

lemma set_norm_comps: "c \<in> set (norm_comps rooted cs) \<Longrightarrow> c \<in> set cs \<and> c \<noteq> []"
proof -
  have "c \<in> set (fold (\<lambda>c kept. norm_step rooted kept c) cs kept) \<Longrightarrow> c \<in> set kept \<or> c \<in> set cs \<and> c \<noteq> []" for kept
  proof (induction cs arbitrary: kept)
    case (Cons a cs)
    have "set (norm_step rooted kept a) \<subseteq> set kept \<union> (if a = [] then {} else {a})"
      by (cases kept) (auto simp: norm_step_def)
    moreover from Cons have "c \<in> set (norm_step rooted kept a) \<or> c \<in> set cs \<and> c \<noteq> []" by simp
    ultimately show ?case by (auto split: if_splits)
  qed simp
  from this [of "[]"] show "c \<in> set (norm_comps rooted cs) \<Longrightarrow> c \<in> set cs \<and> c \<noteq> []" by (simp add: norm_comps_def)
qed

lemma normpath_relative:
  assumes "leading_slashes s = []"
  shows "leading_slashes (normpath s) = []"
proof (cases "norm_comps False (py_split path_sep s)")
  case Nil
  with assms show ?thesis by (simp add: normpath_def leading_slashes_def)
next
  case (Cons x xs)
  then have "x \<noteq> [] \<and> path_sep \<notin> set x"
    using set_norm_comps [of x False "py_split path_sep s"] py_split_no_sep by auto
  moreover obtain u where "py_join ''/'' (x # xs) = x @ u" by (cases xs) auto
  ultimately show ?thesis using assms Cons by (cases x) (auto simp: normpath_def leading_slashes_def)
qed

lemma safe_join_under:
  assumes "safe_path_join base cand = Inr p"
  shows "path_normal p \<and> (\<exists>b. validate_config_path base = Inr b \<and> path_at_or_under b p)"
proof -
  let ?b = "path_of (normpath base)"
  let ?s = "path_str (path_div ?b cand)"
  let ?j = "path_of (normpath ?s)"
  from assms have nul: "NUL \<notin> set base" and root: "pp_root ?b \<noteq> []" and under: "path_at_or_under ?b ?j" and p: "p = path_of (path_str ?j)"
    by (auto simp: safe_path_join_def path_at_or_under_def Let_def split: if_splits)
  from root have lead: "leading_slashes base \<noteq> []" using normpath_relative by (auto simp: pp_root_path_of)
  from under root have "pp_root ?j \<noteq> []" by (simp add: path_at_or_under_iff)
  then have "leading_slashes ?s \<noteq> []" using normpath_relative [of ?s] by (auto simp: pp_root_path_of)
  then have j: "path_normal ?j" by (rule path_normal_normpath)
  from nul lead have "validate_config_path base = Inr ?b" by (simp add: validate_ok_iff)
  with under j p path_str_normal [OF j] show ?thesis by auto
qed

text \<open>A join is exact: for an absolute base and a relative candidate without NUL, the result is the lexical
  normal form of the base's components followed by the candidate's, if the base's components are
  still in front of it, and a refusal otherwise. So every candidate that stays under the base is
  accepted and every one that climbs out is refused.\<close>

theorem safe_path_join_exact:
  assumes "validate_config_path base = Inr b" "leading_slashes cand = []"
  shows "safe_path_join base cand =
    (if NUL \<in> set cand then Inl Path_NUL
     else let parts = norm_comps True (pp_parts b @ py_split path_sep cand)
          in if prefix (pp_parts b) parts then Inr \<lparr>pp_root = pp_root b, pp_parts = parts\<rparr> else Inl Path_Escapes)"
proof -
  from assms(1) have base: "NUL \<notin> set base" "b = path_of (normpath base)" "path_normal b"
    using validate_normal by (auto simp: validate_ok_iff)
  have root: "pp_root b = ''/'' \<or> pp_root b = ''//''" using base(3) by (simp add: path_normal_def)
  have div: "path_div b cand = b\<lparr>pp_parts := pp_parts b @ pp_parts (path_of cand)\<rparr>"
    using assms(2) by (simp add: path_div_def Let_def pp_root_path_of)
  have solid: "c \<noteq> [] \<and> path_sep \<notin> set c" if "c \<in> set (pp_parts b @ pp_parts (path_of cand))" for c
    using that base(3) py_split_no_sep [of c path_sep cand]
    by (auto simp: path_normal_def list_all_iff normal_part_def path_of_def)
  have "norm_comps True (pp_parts b @ pp_parts (path_of cand)) = norm_comps True (pp_parts b @ py_split path_sep cand)"
    using norm_comps_filter [of True "pp_parts b @ py_split path_sep cand"] base(3)
    by (simp add: path_of_def path_normal_def normal_part_def list_all_iff)
  with normpath_str [of "path_div b cand"] root solid have j: "path_of (normpath (path_str (path_div b cand))) =
      \<lparr>pp_root = pp_root b, pp_parts = norm_comps True (pp_parts b @ py_split path_sep cand)\<rparr>"
    by (simp add: div)
  have "path_sep \<notin> set c" if "c \<in> set (pp_parts b @ py_split path_sep cand)" for c
    using that base(3) py_split_no_sep by (auto simp: path_normal_def list_all_iff normal_part_def)
  then have n: "path_normal \<lparr>pp_root = pp_root b, pp_parts = norm_comps True (pp_parts b @ py_split path_sep cand)\<rparr>"
    using root norm_comps_rooted [of "pp_parts b @ py_split path_sep cand"] by (simp add: path_normal_def)
  let ?j = "\<lparr>pp_root = pp_root b, pp_parts = norm_comps True (pp_parts b @ py_split path_sep cand)\<rparr>"
  have under: "?j \<noteq> b \<and> b \<notin> set (path_parents ?j) \<longleftrightarrow> \<not> prefix (pp_parts b) (pp_parts ?j)"
    using path_at_or_under_iff [of b ?j] unfolding path_at_or_under_def by auto
  have "pp_root b \<noteq> []" using root by auto
  with base(1) show ?thesis
    unfolding safe_path_join_def Let_def base(2) [symmetric] j under path_str_normal [OF n] by simp
qed


lemma sample_joins:
  "safe_path_join ''/srv//data/./x/..'' ''a/../b'' = Inr \<lparr>pp_root = ''/'', pp_parts = [''srv'', ''data'', ''b'']\<rparr>"
  "validate_config_path ''/srv/data'' = Inr \<lparr>pp_root = ''/'', pp_parts = [''srv'', ''data'']\<rparr>"
  "norm_comps True ([''srv'', ''data''] @ py_split path_sep ''../../etc'') = [''etc'']"
  by code_simp+


theorem safe_path_join_exact_witness:
  "safe_path_join ''/srv/data'' ''../../etc'' = Inl Path_Escapes"
proof -
  have "leading_slashes ''../../etc'' = []" by (simp add: leading_slashes_def)
  moreover have "NUL \<notin> set ''../../etc''" by simp
  ultimately show ?thesis
    using safe_path_join_exact [OF sample_joins(2), of "''../../etc''"] sample_joins(3) by (simp add: Let_def)
qed

lemma validate_idem:
  "validate_config_path s = Inr p \<Longrightarrow>
     path_normal p \<and> validate_config_path (path_str p) = Inr p \<and> pp_parts p = norm_comps True (py_split path_sep s)"
proof -
  assume v: "validate_config_path s = Inr p"
  then have n: "path_normal p" and parts: "pp_parts p = norm_comps True (py_split path_sep s)"
    and nul: "NUL \<notin> set s"
    using validate_normal path_of_normpath by (auto simp: validate_ok_iff)
  have "NUL \<notin> set (path_str p)"
  proof -
    have "NUL \<notin> set (py_join ''/'' (pp_parts p))"
    proof
      assume "NUL \<in> set (py_join ''/'' (pp_parts p))"
      with set_py_join [of "''/''" "pp_parts p"] obtain c where "c \<in> set (pp_parts p)" "NUL \<in> set c" by auto
      with set_norm_comps [of c True "py_split path_sep s"] py_split_chars [of c path_sep s] parts nul show False by auto
    qed
    with n show ?thesis by (auto simp: path_str_def path_normal_def)
  qed
  moreover have "path_of (normpath (path_str p)) = p"
    using n path_of_normpath [of "path_str p"] leading_str_normal [OF n] py_split_str_normal [OF n]
    by (cases p) (auto simp: path_normal_def)
  ultimately show ?thesis
    using n parts leading_str_normal [OF n] by (auto simp: validate_ok_iff path_normal_def)
qed

text \<open>Validation normalises: an accepted path is absolute and normal, its printed form is accepted again
  and gives the same path, and its components are the lexical normal form of the accepted text.\<close>

theorem validate_config_path_normalises:
  "validate_config_path s = Inr p \<Longrightarrow>
     path_normal p \<and> validate_config_path (path_str p) = Inr p \<and> pp_parts p = norm_comps True (py_split path_sep s)"
  by (rule validate_idem)

theorem validate_config_path_normalises_witness:
  "validate_config_path (path_str \<lparr>pp_root = ''/'', pp_parts = [''srv'', ''data'']\<rparr>) =
     Inr \<lparr>pp_root = ''/'', pp_parts = [''srv'', ''data'']\<rparr>"
  using validate_config_path_normalises [OF sample_joins(2)] by blast

end
