(* ===== verification/WinPaths.thy ===== *)
theory WinPaths
  imports Paths
begin

text \<open>
  The Windows path rules of \<open>security/winpaths.py\<close>, over \<open>ntpath\<close>: the split into drive, root and
  rest, the normal form, the checks on each component, and the join whose containment is proven on
  case-folded components.
\<close>

section \<open>ntpath\<close>

abbreviation bslash :: char where
  "bslash \<equiv> CHR 0x5C"

text \<open>\<open>s.replace("/", "\")\<close>.\<close>

definition to_bslash :: "string \<Rightarrow> string" where
  "to_bslash s = map (\<lambda>c. if c = path_sep then bslash else c) s"

text \<open>\<open>s.find(c, start)\<close>.\<close>

fun index_from :: "char \<Rightarrow> nat \<Rightarrow> string \<Rightarrow> nat option" where
  "index_from c n [] = None"
| "index_from c 0 (x # xs) = (if x = c then Some 0 else map_option Suc (index_from c 0 xs))"
| "index_from c (Suc n) (x # xs) = map_option Suc (index_from c n xs)"

text \<open>\<open>s.upper()\<close> on what is compared with the prefix \<open>\\?\UNC\\<close>: only ASCII letters matter there.\<close>

definition upper_ascii :: "string \<Rightarrow> string" where
  "upper_ascii s = map (\<lambda>c. let n = (of_char c :: nat) in if 97 \<le> n \<and> n \<le> 122 then char_of (n - 32) else c) s"

definition LONG_PREFIX :: string where
  "LONG_PREFIX = [bslash, bslash, CHR ''?'', bslash]"

definition LONG_UNC_PREFIX :: string where
  "LONG_UNC_PREFIX = LONG_PREFIX @ ''UNC'' @ [bslash]"

definition nt_splitroot :: "string \<Rightarrow> string \<times> string \<times> string" where
  "nt_splitroot p =
     (let normp = to_bslash p
      in if prefix [bslash] normp then
           (if prefix [bslash, bslash] normp then
              (let start = (if upper_ascii (take 8 normp) = LONG_UNC_PREFIX then 8 else 2)
               in case index_from bslash start normp of
                    None \<Rightarrow> (p, [], [])
                  | Some index \<Rightarrow>
                      (case index_from bslash (index + 1) normp of
                         None \<Rightarrow> (p, [], [])
                       | Some index2 \<Rightarrow> (take index2 p, take 1 (drop index2 p), drop (index2 + 1) p)))
            else ([], take 1 p, drop 1 p))
         else if take 1 (drop 1 normp) = '':'' then
           (if take 1 (drop 2 normp) = [bslash] then (take 2 p, take 1 (drop 2 p), drop 3 p)
            else (take 2 p, [], drop 2 p))
         else ([], [], p))"

definition nt_splitdrive :: "string \<Rightarrow> string \<times> string" where
  "nt_splitdrive p = (case nt_splitroot p of (drive, root, rest) \<Rightarrow> (drive, root @ rest))"

text \<open>The loop of \<open>ntpath.normpath\<close>: components kept so far (last first), then the rest.\<close>

definition nt_norm_step :: "bool \<Rightarrow> string list \<Rightarrow> string \<Rightarrow> string list" where
  "nt_norm_step rooted kept c =
     (if c = [] \<or> c = ''.'' then kept
      else if c = ''..'' then
        (if kept \<noteq> [] \<and> hd kept \<noteq> ''..'' then tl kept
         else if kept = [] \<and> rooted then kept
         else c # kept)
      else c # kept)"

definition nt_norm_comps :: "bool \<Rightarrow> string list \<Rightarrow> string list" where
  "nt_norm_comps rooted cs = rev (fold (\<lambda>c kept. nt_norm_step rooted kept c) cs [])"

definition nt_normpath :: "string \<Rightarrow> string" where
  "nt_normpath path =
     (case nt_splitroot (to_bslash path) of
        (drive, root, rest) \<Rightarrow>
          let prefix_part = drive @ root;
              comps = nt_norm_comps (root \<noteq> []) (py_split bslash rest);
              comps = (if prefix_part = [] \<and> comps = [] then [''.''] else comps)
          in prefix_part @ py_join [bslash] comps)"

definition nt_isabs :: "string \<Rightarrow> bool" where
  "nt_isabs s = (let s = to_bslash (take 3 s) in prefix [bslash] s \<or> prefix [CHR '':'', bslash] (drop 1 s))"

text \<open>\<open>ntpath.join(base, cand)\<close> for two paths: an absolute or drive-qualified right side replaces the
  left one, a rooted one keeps its drive, and a separator is put in between when needed.\<close>

definition nt_join :: "string \<Rightarrow> string \<Rightarrow> string" where
  "nt_join base cand =
     (case (nt_splitroot base, nt_splitroot cand) of
        ((drive, root, rest), (p_drive, p_root, p_rest)) \<Rightarrow>
          let (drive, root, rest) =
            (if p_root \<noteq> [] then ((if p_drive \<noteq> [] \<or> drive = [] then p_drive else drive), p_root, p_rest)
             else if p_drive \<noteq> [] \<and> p_drive \<noteq> drive \<and> lower p_drive \<noteq> lower drive then (p_drive, p_root, p_rest)
             else
               let drive = (if p_drive \<noteq> [] \<and> p_drive \<noteq> drive then p_drive else drive);
                   rest = (if rest \<noteq> [] \<and> last rest \<noteq> bslash \<and> last rest \<noteq> path_sep then rest @ [bslash] else rest)
               in (drive, root, rest @ p_rest))
          in if rest \<noteq> [] \<and> root = [] \<and> drive \<noteq> [] \<and> last drive \<notin> {CHR '':'', bslash, path_sep}
             then drive @ [bslash] @ rest
             else drive @ root @ rest)"

section \<open>The rules\<close>

definition strip_long_path_prefix :: "string \<Rightarrow> string" where
  "strip_long_path_prefix text =
     (if prefix LONG_UNC_PREFIX text then [bslash, bslash] @ drop (length LONG_UNC_PREFIX) text
      else if prefix LONG_PREFIX text then drop (length LONG_PREFIX) text
      else text)"

definition reserved_names :: "string list" where
  "reserved_names = [''con'', ''prn'', ''aux'', ''nul''] @
     map (\<lambda>d. ''com'' @ [digit_char d]) [1..<10] @ map (\<lambda>d. ''lpt'' @ [digit_char d]) [1..<10]"

text \<open>The pattern is a reserved name at the start, then a dot, the end, or a newline that ends the text.\<close>

definition is_reserved_component :: "string \<Rightarrow> bool" where
  "is_reserved_component name \<longleftrightarrow>
     (\<exists>r \<in> set reserved_names. prefix r (lower name) \<and>
        (let rest = drop (length r) name in rest = [] \<or> rest = [CHR 0x0A] \<or> hd rest = CHR ''.''))"

datatype win_path_error =
    Win_Forbidden_Char | Win_Stream | Win_Reserved | Win_Trailing | Win_Empty | Win_NUL | Win_Not_Absolute
  | Win_Candidate_Empty | Win_Candidate_Absolute | Win_Escapes

definition check_component :: "string \<Rightarrow> win_path_error option" where
  "check_component c =
     (if (\<exists>ch \<in> set c. ch \<in> set ''<>|?*'' \<or> ch = CHR 0x22) \<or> (\<exists>ch \<in> set c. (of_char ch :: nat) < 32)
        then Some Win_Forbidden_Char
      else if CHR '':'' \<in> set c then Some Win_Stream
      else if is_reserved_component c then Some Win_Reserved
      else if c \<noteq> rstrip '' .'' c then Some Win_Trailing
      else None)"

fun check_components :: "string list \<Rightarrow> win_path_error option" where
  "check_components [] = None"
| "check_components (c # cs) = (case check_component c of Some e \<Rightarrow> Some e | None \<Rightarrow> check_components cs)"

definition win_normalise :: "string \<Rightarrow> (win_path_error, string \<times> string \<times> string list) result" where
  "win_normalise text =
     (if text = [] then Inl Win_Empty
      else if NUL \<in> set text then Inl Win_NUL
      else
        let norm = nt_normpath (strip_long_path_prefix text); (drive, rest) = nt_splitdrive norm
        in if drive = [] \<or> \<not> nt_isabs norm then Inl Win_Not_Absolute
           else
             let components = filter (\<lambda>c. c \<noteq> []) (py_split bslash rest)
             in case check_components components of
                  Some e \<Rightarrow> Inl e
                | None \<Rightarrow> Inr (drive, norm, components))"

definition validate_windows_config_path :: "string \<Rightarrow> (win_path_error, string) result" where
  "validate_windows_config_path value = rbind (win_normalise value) (\<lambda>(drive, norm, comps). Inr norm)"

text \<open>\<open>c.casefold()\<close> as code points: lower case, except that sharp s becomes \<open>ss\<close> and the micro sign
  the Greek letter.\<close>

definition casefold :: "string \<Rightarrow> nat list" where
  "casefold s = concat (map (\<lambda>c.
     let n = (of_char c :: nat)
     in if n = 223 then [115, 115] else if n = 181 then [956] else [of_char (lower_char c)]) s)"

definition safe_windows_path_join :: "string \<Rightarrow> string \<Rightarrow> (win_path_error, string) result" where
  "safe_windows_path_join base candidate =
     rbind (win_normalise base) (\<lambda>(base_drive, base_norm, base_comps).
       if candidate = [] then Inl Win_Candidate_Empty
       else if NUL \<in> set candidate then Inl Win_NUL
       else
         let cand = to_bslash (strip_long_path_prefix candidate)
         in if fst (nt_splitdrive cand) \<noteq> [] \<or> prefix [bslash] cand then Inl Win_Candidate_Absolute
            else
              rbind (win_normalise (nt_join base_norm cand)) (\<lambda>(drive, joined_norm, joined_comps).
                let base_key = map casefold base_comps; joined_key = map casefold joined_comps
                in if take (length base_key) joined_key \<noteq> base_key then Inl Win_Escapes
                   else Inr joined_norm))"

text \<open>C23. Containment on Windows holds only up to case folding, which maps more than NTFS does: sharp s folds
  to \<open>ss\<close>, so a candidate that climbs out of a base whose last component is spelled with sharp s and
  into its sibling spelled with \<open>ss\<close>, another directory for NTFS, is accepted as contained.\<close>

theorem windows_join_escapes_by_sharp_s:
  "safe_windows_path_join (''C:'' @ [bslash] @ ''ma'' @ [CHR 0xDF])
     (''..'' @ [bslash] @ ''mass'' @ [bslash] @ ''x'') = Inr (''C:'' @ [bslash] @ ''mass'' @ [bslash] @ ''x'')"
  by code_simp

section \<open>Accepted components\<close>

lemma check_components_None: "check_components cs = None \<longleftrightarrow> (\<forall>c \<in> set cs. check_component c = None)"
  by (induction cs) (auto split: option.splits)

lemma rstrip_fixed: "c = rstrip cs c \<Longrightarrow> c \<noteq> [] \<Longrightarrow> last c \<notin> set cs"
  by (metis rstrip_last)

text \<open>A component Win32 takes literally: no separator, stream, wildcard, quote or control character, no device
  name, and neither empty nor ending in a dot or a space (so also neither \<open>.\<close> nor \<open>..\<close>).\<close>

definition literal_component :: "string \<Rightarrow> bool" where
  "literal_component c \<longleftrightarrow> c \<noteq> [] \<and> last c \<noteq> CHR ''.'' \<and> last c \<noteq> CHR '' '' \<and> bslash \<notin> set c \<and> CHR '':'' \<notin> set c \<and>
     (\<forall>ch \<in> set c. ch \<notin> set ''<>|?*'' \<and> ch \<noteq> CHR 0x22 \<and> 32 \<le> (of_char ch :: nat)) \<and> \<not> is_reserved_component c"

lemma check_component_literal:
  assumes "check_component c = None" "c \<noteq> []" "bslash \<notin> set c"
  shows "literal_component c"
proof -
  have "c = rstrip '' .'' c" using assms(1) by (auto simp: check_component_def split: if_splits)
  from rstrip_fixed [OF this assms(2)] have "last c \<noteq> CHR ''.''" "last c \<noteq> CHR '' ''" by auto
  then show ?thesis
    using assms by (auto simp: check_component_def literal_component_def not_less split: if_splits)
qed

lemma win_normalise_literal:
  assumes "win_normalise text = Inr (drive, norm, cs)"
  shows "drive \<noteq> [] \<and> nt_isabs norm \<and> list_all literal_component cs"
proof -
  from assms have d: "drive \<noteq> []" "nt_isabs norm" and cs: "check_components cs = None"
    "cs = filter (\<lambda>c. c \<noteq> []) (py_split bslash (snd (nt_splitdrive norm)))"
    by (auto simp: win_normalise_def Let_def split: if_splits prod.splits option.splits)
  have "literal_component c" if "c \<in> set cs" for c
    using that cs check_component_literal [of c] py_split_no_sep [of c bslash]
    by (auto simp: check_components_None)
  with d show ?thesis by (simp add: list_all_iff)
qed

text \<open>C15. What a Windows join accepts: the result is absolute, every component is one Win32 takes literally
  (no \<open>..\<close>, device name, stream, or trailing dot or space that would alias another spelling), and the
  components start, up to case folding, with those of the base.\<close>

theorem windows_join_contained:
  assumes "safe_windows_path_join base cand = Inr p"
  shows "\<exists>bd bn bcs d cs text. win_normalise base = Inr (bd, bn, bcs) \<and> win_normalise text = Inr (d, p, cs) \<and> nt_isabs p \<and>
    list_all literal_component cs \<and> prefix (map casefold bcs) (map casefold cs)"
proof -
  from assms obtain bd bn bcs d cs where b: "win_normalise base = Inr (bd, bn, bcs)"
    and j: "win_normalise (nt_join bn (to_bslash (strip_long_path_prefix cand))) = Inr (d, p, cs)"
    and key: "take (length bcs) (map casefold cs) = map casefold bcs"
    by (auto simp: safe_windows_path_join_def Let_def split: if_splits)
  from key have "prefix (map casefold bcs) (map casefold cs)" by (metis take_is_prefix)
  with b j win_normalise_literal [OF j] show ?thesis by blast
qed

theorem windows_join_contained_witness:
  "\<exists>d cs text. win_normalise text = Inr (d, ''C:'' @ [bslash] @ ''Data'' @ [bslash] @ ''x'', cs) \<and> list_all literal_component cs"
proof -
  have "safe_windows_path_join (''C:'' @ [bslash] @ ''Data'') ''./x'' = Inr (''C:'' @ [bslash] @ ''Data'' @ [bslash] @ ''x'')"
    by code_simp
  from windows_join_contained [OF this] show ?thesis by blast
qed

end
