(* ===== verification/Agent_Config.thy ===== *)
theory Agent_Config
  imports Complex_Main Paths
begin

text \<open>
  The agent's configuration (\<open>agent/config.py\<close>): the throttle profile, remote targets, the top-level
  model with its validators, the scope checks and the operator override. Measurements that are
  floats in the source are rationals. Values handed to pydantic are typed already; a value pydantic
  cannot read is \<open>Malformed\<close>.
\<close>

section \<open>Throttle profile\<close>

datatype io_class = Io_Idle | Io_Best_Effort | Io_Realtime

record pause_rules =
  pr_load1_above :: rat
  pr_iowait_above_percent :: rat

record throttle_profile =
  tp_io_class :: io_class
  tp_io_max_mbps :: int
  tp_cpu_max_percent :: rat
  tp_walk_concurrency :: int
  tp_hash_concurrency :: int
  tp_pause_when :: pause_rules
  tp_load1_below :: rat
  tp_block_fullbit_during_raid_resync :: bool

definition percent_ok :: "rat \<Rightarrow> bool" where
  "percent_ok x \<longleftrightarrow> 0 \<le> x \<and> x \<le> 100"

definition throttle_valid :: "throttle_profile \<Rightarrow> bool" where
  "throttle_valid t \<longleftrightarrow> 1 \<le> tp_io_max_mbps t \<and> percent_ok (tp_cpu_max_percent t) \<and>
     1 \<le> tp_walk_concurrency t \<and> 1 \<le> tp_hash_concurrency t \<and>
     0 < pr_load1_above (tp_pause_when t) \<and> percent_ok (pr_iowait_above_percent (tp_pause_when t)) \<and>
     0 < tp_load1_below t \<and> \<not> tp_load1_below t \<ge> pr_load1_above (tp_pause_when t)"

section \<open>Remote targets\<close>

datatype remote_protocol = Smb | Sftp | Rclone

record remote_config =
  rc_protocol :: remote_protocol
  rc_host :: string
  rc_share :: "string option"
  rc_remote_path :: string
  rc_port :: "int option"
  rc_username :: "string option"
  rc_password_ref :: "string option"
  rc_private_key_ref :: "string option"
  rc_verify :: bool
  rc_lab_insecure :: bool

text \<open>\<open>None\<close> and the empty string are false in Python.\<close>

definition truthy :: "string option \<Rightarrow> bool" where
  "truthy s = (case s of None \<Rightarrow> False | Some t \<Rightarrow> t \<noteq> [])"

definition has_control :: "string \<Rightarrow> bool" where
  "has_control s = (\<exists>c \<in> set s. (of_char c :: nat) < 32 \<or> 127 \<le> (of_char c :: nat) \<and> (of_char c :: nat) \<le> 159)"

definition remote_text_ok :: "string option \<Rightarrow> bool" where
  "remote_text_ok val =
     (case val of
        None \<Rightarrow> True
      | Some v \<Rightarrow> v = [] \<or> \<not> has_control v \<and> CHR 0x5C \<notin> set v \<and> ''..'' \<notin> set (py_split path_sep v))"

definition host_ok :: "string \<Rightarrow> bool" where
  "host_ok value \<longleftrightarrow> \<not> contains value ''://'' \<and> path_sep \<notin> set value \<and> CHR 0x5C \<notin> set value"

definition remote_valid :: "remote_config \<Rightarrow> bool" where
  "remote_valid r \<longleftrightarrow> rc_host r \<noteq> [] \<and> rc_remote_path r \<noteq> [] \<and>
     (case rc_port r of None \<Rightarrow> True | Some p \<Rightarrow> 1 \<le> p) \<and> host_ok (rc_host r) \<and>
     \<not> (rc_protocol r = Smb \<and> \<not> truthy (rc_share r)) \<and>
     \<not> (rc_protocol r = Rclone \<and> (truthy (rc_password_ref r) \<or> truthy (rc_private_key_ref r))) \<and>
     (rc_verify r \<or> rc_lab_insecure r) \<and>
     remote_text_ok (Some (rc_remote_path r)) \<and> remote_text_ok (rc_share r)"

text \<open>An f-string shows \<open>None\<close> by its name.\<close>

definition show_opt :: "string option \<Rightarrow> string" where
  "show_opt s = (case s of None \<Rightarrow> ''None'' | Some t \<Rightarrow> t)"

definition mount_key :: "remote_config \<Rightarrow> string" where
  "mount_key r =
     (if rc_protocol r = Smb then ''smb://'' @ rc_host r @ ''/'' @ show_opt (rc_share r) @ rc_remote_path r
      else if rc_protocol r = Rclone then ''rclone://'' @ rc_host r @ rc_remote_path r
      else ''sftp://'' @ rc_host r @ rc_remote_path r)"

definition catalogue_mount :: "remote_config \<Rightarrow> string" where
  "catalogue_mount r =
     (let base =
        (if rc_protocol r = Smb then ''/smb/'' @ rc_host r @ ''/'' @ show_opt (rc_share r) @ rc_remote_path r
         else if rc_protocol r = Rclone then
           (let sub = strip ''/'' (rc_remote_path r)
            in if sub \<noteq> [] then ''/rclone/'' @ rc_host r @ ''/'' @ sub else ''/rclone/'' @ rc_host r)
         else ''/sftp/'' @ rc_host r @ rc_remote_path r)
      in normpath base)"

section \<open>The agent\<close>

text \<open>The adapter block is opaque here: only whether it is set matters.\<close>

record agent_config =
  ac_host_id :: string
  ac_ingest_url :: string
  ac_client_cert_path :: string
  ac_client_key_path :: string
  ac_server_ca_path :: string
  ac_scan_scope :: "string list"
  ac_fullbit_scope :: "string list"
  ac_exclude_scope :: "string list"
  ac_scope_labels :: "(string \<times> string) list"
  ac_write_enabled :: bool
  ac_orchestrator_pubkey_ref :: "string option"
  ac_orchestrator_key_id :: string
  ac_orchestrator_signing_algorithm :: string
  ac_quarantine_dir :: "string option"
  ac_act_audit_path :: "string option"
  ac_cross_mounts :: bool
  ac_adapter :: bool
  ac_adapter_pool :: "string option"
  ac_remote_targets :: "remote_config list"
  ac_preview_grant_pubkey_ref :: "string option"
  ac_preview_grant_key_id :: string
  ac_preview_nonce_dir :: "string option"
  ac_browse_grant_pubkey_ref :: "string option"
  ac_browse_grant_key_id :: string
  ac_browse_nonce_dir :: "string option"
  ac_throttle :: throttle_profile

datatype config_error =
    Host_Id_Empty | Url_Not_Https | Bad_Path path_safety_error | Bad_Throttle | Bad_Remote | Bad_Value
  | Adapter_Without_Pool | Nothing_To_Scan | Fullbit_Outside_Scope string

section \<open>Scopes\<close>

text \<open>The loop over the rest, which validates each anchor again.\<close>

fun scope_loop :: "pure_path \<Rightarrow> string list \<Rightarrow> (path_safety_error, bool) result" where
  "scope_loop candidate [] = Inr False"
| "scope_loop candidate (anchor # rest) =
     rbind (validate_config_path anchor) (\<lambda>root_path.
       if candidate = root_path \<or> root_path \<in> set (path_parents candidate) then Inr True
       else scope_loop candidate rest)"

definition in_scope :: "agent_config \<Rightarrow> string \<Rightarrow> (path_safety_error, bool) result" where
  "in_scope c target =
     (case validate_config_path target of
        Inl _ \<Rightarrow> Inr False
      | Inr candidate \<Rightarrow> scope_loop candidate (ac_scan_scope c))"

definition in_fullbit_scope :: "agent_config \<Rightarrow> string \<Rightarrow> (path_safety_error, bool) result" where
  "in_fullbit_scope c target =
     (if ac_fullbit_scope c = [] then Inr False
      else case validate_config_path target of
             Inl _ \<Rightarrow> Inr False
           | Inr candidate \<Rightarrow> scope_loop candidate (ac_fullbit_scope c))"

definition is_excluded :: "agent_config \<Rightarrow> string \<Rightarrow> (path_safety_error, bool) result" where
  "is_excluded c target =
     (if ac_exclude_scope c = [] then Inr False
      else case validate_config_path target of
             Inl _ \<Rightarrow> Inr True
           | Inr candidate \<Rightarrow> scope_loop candidate (ac_exclude_scope c))"

section \<open>Validation\<close>

definition abs_path :: "string \<Rightarrow> (config_error, string) result" where
  "abs_path s = (case validate_config_path s of Inl e \<Rightarrow> Inl (Bad_Path e) | Inr p \<Rightarrow> Inr (path_str p))"

definition opt_abs_path :: "string option \<Rightarrow> (config_error, string option) result" where
  "opt_abs_path s = (case s of None \<Rightarrow> Inr None | Some t \<Rightarrow> rbind (abs_path t) (\<lambda>p. Inr (Some p)))"

fun scope_paths_absolute :: "string list \<Rightarrow> (config_error, string list) result" where
  "scope_paths_absolute [] = Inr []"
| "scope_paths_absolute (r # rs) = rbind (abs_path r) (\<lambda>p. rbind (scope_paths_absolute rs) (\<lambda>ps. Inr (p # ps)))"

text \<open>The field validators, in the order of the fields.\<close>

definition validate_fields :: "agent_config \<Rightarrow> (config_error, agent_config) result" where
  "validate_fields c =
     (if ac_host_id c = [] then Inl Host_Id_Empty
      else if \<not> prefix ''https://'' (ac_ingest_url c) then Inl Url_Not_Https
      else
        rbind (abs_path (ac_client_cert_path c)) (\<lambda>cert.
        rbind (abs_path (ac_client_key_path c)) (\<lambda>key.
        rbind (abs_path (ac_server_ca_path c)) (\<lambda>ca.
        rbind (scope_paths_absolute (ac_scan_scope c)) (\<lambda>scan.
        rbind (scope_paths_absolute (ac_fullbit_scope c)) (\<lambda>fullbit.
        rbind (scope_paths_absolute (ac_exclude_scope c)) (\<lambda>exclude.
        rbind (opt_abs_path (ac_quarantine_dir c)) (\<lambda>quarantine.
        rbind (opt_abs_path (ac_act_audit_path c)) (\<lambda>act_audit.
        if \<not> list_all remote_valid (ac_remote_targets c) then Inl Bad_Remote
        else
        rbind (opt_abs_path (ac_preview_nonce_dir c)) (\<lambda>preview_nonce.
        rbind (opt_abs_path (ac_browse_nonce_dir c)) (\<lambda>browse_nonce.
        if \<not> throttle_valid (ac_throttle c) then Inl Bad_Throttle
        else Inr (c\<lparr>ac_client_cert_path := cert, ac_client_key_path := key, ac_server_ca_path := ca,
               ac_scan_scope := scan, ac_fullbit_scope := fullbit, ac_exclude_scope := exclude,
               ac_quarantine_dir := quarantine, ac_act_audit_path := act_audit,
               ac_preview_nonce_dir := preview_nonce, ac_browse_nonce_dir := browse_nonce\<rparr>))))))))))))"

fun fullbit_within_scan_scope :: "agent_config \<Rightarrow> string list \<Rightarrow> (config_error, unit) result" where
  "fullbit_within_scan_scope c [] = Inr ()"
| "fullbit_within_scan_scope c (anchor # rest) =
     (case in_scope c anchor of
        Inl e \<Rightarrow> Inl (Bad_Path e)
      | Inr inside \<Rightarrow> if \<not> inside then Inl (Fullbit_Outside_Scope anchor) else fullbit_within_scan_scope c rest)"

definition validate_agent_config :: "agent_config \<Rightarrow> (config_error, agent_config) result" where
  "validate_agent_config c =
     rbind (validate_fields c) (\<lambda>c.
       if ac_adapter c \<and> \<not> truthy (ac_adapter_pool c) then Inl Adapter_Without_Pool
       else if ac_scan_scope c = [] \<and> ac_remote_targets c = [] then Inl Nothing_To_Scan
       else rbind (fullbit_within_scan_scope c (ac_fullbit_scope c)) (\<lambda>_. Inr c))"

section \<open>The operator override\<close>

text \<open>What the core sends for one field; other keys of the override are \<open>co_other_keys\<close>.\<close>

datatype 'a override_value = Absent | Malformed | Given 'a

record config_override =
  co_scan_scope :: "string list override_value"
  co_fullbit_scope :: "string list override_value"
  co_exclude_scope :: "string list override_value"
  co_scope_labels :: "(string \<times> string) list override_value"
  co_cross_mounts :: "bool override_value"
  co_throttle :: "throttle_profile override_value"
  co_other_keys :: "string list"

fun overlay :: "'a \<Rightarrow> 'a override_value \<Rightarrow> 'a" where
  "overlay old (Given new) = new"
| "overlay old _ = old"

definition override_absent :: "config_override \<Rightarrow> bool" where
  "override_absent ov \<longleftrightarrow> co_scan_scope ov = Absent \<and> co_fullbit_scope ov = Absent \<and> co_exclude_scope ov = Absent \<and>
     co_scope_labels ov = Absent \<and> co_cross_mounts ov = Absent \<and> co_throttle ov = Absent"

definition override_malformed :: "config_override \<Rightarrow> bool" where
  "override_malformed ov \<longleftrightarrow> co_scan_scope ov = Malformed \<or> co_fullbit_scope ov = Malformed \<or>
     co_exclude_scope ov = Malformed \<or> co_scope_labels ov = Malformed \<or> co_cross_mounts ov = Malformed \<or>
     co_throttle ov = Malformed"

definition with_override :: "agent_config \<Rightarrow> config_override \<Rightarrow> (config_error, agent_config) result" where
  "with_override c ov =
     (if override_absent ov then Inr c
      else if override_malformed ov then Inl Bad_Value
      else validate_agent_config
        (c\<lparr>ac_scan_scope := overlay (ac_scan_scope c) (co_scan_scope ov),
           ac_fullbit_scope := overlay (ac_fullbit_scope c) (co_fullbit_scope ov),
           ac_exclude_scope := overlay (ac_exclude_scope c) (co_exclude_scope ov),
           ac_scope_labels := overlay (ac_scope_labels c) (co_scope_labels ov),
           ac_cross_mounts := overlay (ac_cross_mounts c) (co_cross_mounts ov),
           ac_throttle := overlay (ac_throttle c) (co_throttle ov)\<rparr>))"

section \<open>Validated configurations\<close>

text \<open>What validation leaves: paths in normal form, so that validating them again changes nothing.\<close>

lemma abs_path_again: "abs_path s = Inr t \<Longrightarrow> abs_path t = Inr t"
  using validate_idem by (auto simp: abs_path_def split: sum.splits)

lemma opt_abs_path_again:
  assumes "opt_abs_path s = Inr t"
  shows "opt_abs_path t = Inr t"
proof (cases s)
  case None
  with assms show ?thesis by (simp add: opt_abs_path_def)
next
  case (Some u)
  with assms obtain v where "abs_path u = Inr v" "t = Some v" by (auto simp: opt_abs_path_def)
  with abs_path_again [of u v] show ?thesis by (simp add: opt_abs_path_def)
qed

lemma scope_paths_ok: "scope_paths_absolute rs = Inr ts \<Longrightarrow> list_all (\<lambda>t. abs_path t = Inr t) ts"
  by (induction rs arbitrary: ts) (use abs_path_again in auto)

lemma scope_paths_fixed: "list_all (\<lambda>t. abs_path t = Inr t) ts \<longleftrightarrow> scope_paths_absolute ts = Inr ts"
  by (induction ts) auto

lemma scope_paths_again: "scope_paths_absolute rs = Inr ts \<Longrightarrow> scope_paths_absolute ts = Inr ts"
  using scope_paths_ok scope_paths_fixed by blast

lemma abs_path_validates: "abs_path t = Inr t \<Longrightarrow> \<exists>p. validate_config_path t = Inr p \<and> path_str p = t"
  by (auto simp: abs_path_def split: sum.splits)

definition plain_fields_ok :: "agent_config \<Rightarrow> bool" where
  "plain_fields_ok c \<longleftrightarrow> ac_host_id c \<noteq> [] \<and> prefix ''https://'' (ac_ingest_url c) \<and>
     list_all remote_valid (ac_remote_targets c) \<and> throttle_valid (ac_throttle c)"

text \<open>Each path field on its own: what the validators make of it.\<close>

definition path_fields :: "agent_config \<Rightarrow> agent_config \<Rightarrow> bool" where
  "path_fields c c' \<longleftrightarrow>
     abs_path (ac_client_cert_path c) = Inr (ac_client_cert_path c') \<and>
     abs_path (ac_client_key_path c) = Inr (ac_client_key_path c') \<and>
     abs_path (ac_server_ca_path c) = Inr (ac_server_ca_path c') \<and>
     scope_paths_absolute (ac_scan_scope c) = Inr (ac_scan_scope c') \<and>
     scope_paths_absolute (ac_fullbit_scope c) = Inr (ac_fullbit_scope c') \<and>
     scope_paths_absolute (ac_exclude_scope c) = Inr (ac_exclude_scope c') \<and>
     opt_abs_path (ac_quarantine_dir c) = Inr (ac_quarantine_dir c') \<and>
     opt_abs_path (ac_act_audit_path c) = Inr (ac_act_audit_path c') \<and>
     opt_abs_path (ac_preview_nonce_dir c) = Inr (ac_preview_nonce_dir c') \<and>
     opt_abs_path (ac_browse_nonce_dir c) = Inr (ac_browse_nonce_dir c')"

definition with_paths_of :: "agent_config \<Rightarrow> agent_config \<Rightarrow> agent_config" where
  "with_paths_of c' c = c\<lparr>ac_client_cert_path := ac_client_cert_path c', ac_client_key_path := ac_client_key_path c',
    ac_server_ca_path := ac_server_ca_path c', ac_scan_scope := ac_scan_scope c', ac_fullbit_scope := ac_fullbit_scope c',
    ac_exclude_scope := ac_exclude_scope c', ac_quarantine_dir := ac_quarantine_dir c',
    ac_act_audit_path := ac_act_audit_path c', ac_preview_nonce_dir := ac_preview_nonce_dir c',
    ac_browse_nonce_dir := ac_browse_nonce_dir c'\<rparr>"

lemma validate_fields_Inr:
  "validate_fields c = Inr c' \<longleftrightarrow> plain_fields_ok c \<and> path_fields c c' \<and> c' = with_paths_of c' c"
proof
  assume "validate_fields c = Inr c'"
  then show "plain_fields_ok c \<and> path_fields c c' \<and> c' = with_paths_of c' c"
    unfolding validate_fields_def
    by (clarsimp split: if_splits simp: plain_fields_ok_def path_fields_def with_paths_of_def)
next
  assume a: "plain_fields_ok c \<and> path_fields c c' \<and> c' = with_paths_of c' c"
  then have "validate_fields c = Inr (with_paths_of c' c)"
    by (simp add: validate_fields_def plain_fields_ok_def path_fields_def with_paths_of_def)
  with a show "validate_fields c = Inr c'" by simp
qed


lemma validate_fields_again:
  assumes "validate_fields c0 = Inr c"
  shows "validate_fields c = Inr c"
proof -
  from assms have p: "plain_fields_ok c0" "path_fields c0 c" and c: "c = with_paths_of c c0"
    by (simp_all add: validate_fields_Inr)
  have "plain_fields_ok c" using p(1) by (subst c) (simp add: plain_fields_ok_def with_paths_of_def)
  moreover have "path_fields c c"
    using p(2) abs_path_again scope_paths_again opt_abs_path_again unfolding path_fields_def by blast
  ultimately show ?thesis by (simp add: validate_fields_Inr with_paths_of_def)
qed

lemma validate_agent_config_Inr:
  "validate_agent_config c0 = Inr c \<longleftrightarrow> validate_fields c0 = Inr c \<and> \<not> (ac_adapter c \<and> \<not> truthy (ac_adapter_pool c)) \<and>
     \<not> (ac_scan_scope c = [] \<and> ac_remote_targets c = []) \<and> fullbit_within_scan_scope c (ac_fullbit_scope c) = Inr ()"
  by (auto simp: validate_agent_config_def)

lemma validate_agent_config_again: "validate_agent_config c0 = Inr c \<Longrightarrow> validate_agent_config c = Inr c"
  using validate_fields_again by (auto simp: validate_agent_config_Inr)

definition override_fields :: "agent_config \<Rightarrow> agent_config \<Rightarrow> agent_config" where
  "override_fields c' c = c\<lparr>ac_scan_scope := ac_scan_scope c', ac_fullbit_scope := ac_fullbit_scope c',
     ac_exclude_scope := ac_exclude_scope c', ac_scope_labels := ac_scope_labels c',
     ac_cross_mounts := ac_cross_mounts c', ac_throttle := ac_throttle c'\<rparr>"

lemma validate_fields_fixed:
  assumes "path_fields c c" "path_fields d c'" "d = override_fields d c" "c' = with_paths_of c' d"
  shows "c' = override_fields c' c"
proof -
  have "ac_client_cert_path d = ac_client_cert_path c" "ac_client_key_path d = ac_client_key_path c"
    "ac_server_ca_path d = ac_server_ca_path c" "ac_quarantine_dir d = ac_quarantine_dir c"
    "ac_act_audit_path d = ac_act_audit_path c" "ac_preview_nonce_dir d = ac_preview_nonce_dir c"
    "ac_browse_nonce_dir d = ac_browse_nonce_dir c"
    by (subst assms(3), simp add: override_fields_def)+
  with assms(1,2) have "ac_client_cert_path c' = ac_client_cert_path c" "ac_client_key_path c' = ac_client_key_path c"
    "ac_server_ca_path c' = ac_server_ca_path c" "ac_quarantine_dir c' = ac_quarantine_dir c"
    "ac_act_audit_path c' = ac_act_audit_path c" "ac_preview_nonce_dir c' = ac_preview_nonce_dir c"
    "ac_browse_nonce_dir c' = ac_browse_nonce_dir c"
    by (simp_all add: path_fields_def)
  moreover have "c' = with_paths_of c' (override_fields d c)" using assms(3,4) by simp
  ultimately show ?thesis unfolding with_paths_of_def override_fields_def by (cases c; cases c') simp
qed



section \<open>Scopes of a validated configuration\<close>

lemma scope_loop_exact:
  assumes "list_all (\<lambda>t. abs_path t = Inr t) rs"
  shows "scope_loop p rs = Inr (\<exists>r \<in> set rs. path_at_or_under (path_of r) p)"
  using assms
proof (induction rs)
  case (Cons r rs)
  then obtain q where q: "validate_config_path r = Inr q" "path_str q = r"
    using abs_path_validates [of r] by auto
  then have r: "path_of r = q" using path_str_normal validate_normal by metis
  have "scope_loop p (r # rs) = (if path_at_or_under q p then Inr True else scope_loop p rs)"
    by (simp add: q path_at_or_under_def)
  with Cons r show ?case by simp
qed simp

lemma settled_scopes:
  assumes "validate_agent_config c = Inr c"
  shows "list_all (\<lambda>t. abs_path t = Inr t) (ac_scan_scope c)" "list_all (\<lambda>t. abs_path t = Inr t) (ac_fullbit_scope c)"
    "list_all (\<lambda>t. abs_path t = Inr t) (ac_exclude_scope c)"
  using assms by (auto simp: validate_agent_config_Inr validate_fields_Inr path_fields_def scope_paths_fixed)

lemma settled_in_scope:
  assumes "validate_agent_config c = Inr c"
  shows "in_scope c t = Inr (\<exists>p. validate_config_path t = Inr p \<and>
    (\<exists>r \<in> set (ac_scan_scope c). path_at_or_under (path_of r) p))"
  using scope_loop_exact [OF settled_scopes(1) [OF assms]] by (auto simp: in_scope_def split: sum.splits)

lemma path_at_or_under_trans: "path_at_or_under a b \<Longrightarrow> path_at_or_under b p \<Longrightarrow> path_at_or_under a p"
  by (auto simp: path_at_or_under_iff intro: prefix_order.trans)

lemma fullbit_within_ok:
  "fullbit_within_scan_scope c rs = Inr () \<longleftrightarrow> list_all (\<lambda>r. in_scope c r = Inr True) rs"
  by (induction rs) (auto split: sum.splits)

text \<open>The scope checks of a validated configuration are total and exact: none raises although each
  validates its roots again, a target is in scan scope exactly when it validates and lies at or
  under one of the roots, a target with an unsafe path is in no scope but is excluded as soon as
  anything is.\<close>

theorem scope_checks_exact:
  assumes "validate_agent_config c = Inr c"
  shows "in_scope c t = Inr (\<exists>p. validate_config_path t = Inr p \<and>
      (\<exists>r \<in> set (ac_scan_scope c). path_at_or_under (path_of r) p)) \<and>
    in_fullbit_scope c t = Inr (\<exists>p. validate_config_path t = Inr p \<and>
      (\<exists>r \<in> set (ac_fullbit_scope c). path_at_or_under (path_of r) p)) \<and>
    is_excluded c t = Inr (ac_exclude_scope c \<noteq> [] \<and> (case validate_config_path t of Inl _ \<Rightarrow> True
      | Inr p \<Rightarrow> \<exists>r \<in> set (ac_exclude_scope c). path_at_or_under (path_of r) p))"
  using settled_in_scope [OF assms] scope_loop_exact [OF settled_scopes(2) [OF assms]]
    scope_loop_exact [OF settled_scopes(3) [OF assms]]
  by (auto simp: in_fullbit_scope_def is_excluded_def split: sum.splits)

text \<open>Full-bit only narrows: whatever lies in the full-bit scope of a validated configuration lies in
  its scan scope, also when the configuration came out of an operator override.\<close>

theorem fullbit_only_narrows:
  assumes "validate_agent_config c0 = Inr c" "in_fullbit_scope c t = Inr True"
  shows "in_scope c t = Inr True"
proof -
  have c: "validate_agent_config c = Inr c" by (rule validate_agent_config_again [OF assms(1)])
  from assms(2) scope_loop_exact [OF settled_scopes(2) [OF c]] obtain p r where
    p: "validate_config_path t = Inr p" and r: "r \<in> set (ac_fullbit_scope c)" "path_at_or_under (path_of r) p"
    by (auto simp: in_fullbit_scope_def split: if_splits sum.splits)
  have "in_scope c r = Inr True"
    using c r(1) by (auto simp: validate_agent_config_Inr fullbit_within_ok list_all_iff)
  then obtain q s where "validate_config_path r = Inr q" and s: "s \<in> set (ac_scan_scope c)" "path_at_or_under (path_of s) q"
    using settled_in_scope [OF c, of r] by auto
  moreover have "path_of r = q"
  proof -
    have "abs_path r = Inr r" using settled_scopes(2) [OF c] r(1) by (auto simp: list_all_iff)
    with calculation(1) show ?thesis using path_str_normal validate_normal by (auto simp: abs_path_def)
  qed
  ultimately have "path_at_or_under (path_of s) p" using path_at_or_under_trans r(2) by blast
  with p s(1) settled_in_scope [OF c, of t] show ?thesis by auto
qed


section \<open>Where a remote target lands in the catalogue\<close>

definition dot_name :: "string \<Rightarrow> bool" where
  "dot_name s \<longleftrightarrow> s = [] \<or> s = ''.'' \<or> s = ''..''"

definition sample_throttle :: throttle_profile where
  "sample_throttle = \<lparr>tp_io_class = Io_Idle, tp_io_max_mbps = 50, tp_cpu_max_percent = 50, tp_walk_concurrency = 1,
     tp_hash_concurrency = 1, tp_pause_when = \<lparr>pr_load1_above = 4, pr_iowait_above_percent = 25\<rparr>,
     tp_load1_below = 2, tp_block_fullbit_during_raid_resync = True\<rparr>"

definition sample_remote :: "string \<Rightarrow> string \<Rightarrow> remote_config" where
  "sample_remote host path = \<lparr>rc_protocol = Sftp, rc_host = host, rc_share = None, rc_remote_path = path, rc_port = None,
     rc_username = Some ''scan'', rc_password_ref = None, rc_private_key_ref = Some ''env:KEY'', rc_verify = True,
     rc_lab_insecure = False\<rparr>"

definition sample_config :: agent_config where
  "sample_config = \<lparr>ac_host_id = ''nas'', ac_ingest_url = ''https://core:8443'', ac_client_cert_path = ''/etc/a.pem'',
     ac_client_key_path = ''/etc/a.key'', ac_server_ca_path = ''/etc/ca.pem'', ac_scan_scope = [''/srv/data''],
     ac_fullbit_scope = [''/srv/data/media''], ac_exclude_scope = [''/srv/data/tmp''], ac_scope_labels = [],
     ac_write_enabled = False, ac_orchestrator_pubkey_ref = None, ac_orchestrator_key_id = ''orchestrator-v1'',
     ac_orchestrator_signing_algorithm = ''ed25519'', ac_quarantine_dir = Some ''/srv/q'', ac_act_audit_path = None,
     ac_cross_mounts = False, ac_adapter = False, ac_adapter_pool = None, ac_remote_targets = [sample_remote ''nas2'' ''/pool''],
     ac_preview_grant_pubkey_ref = None, ac_preview_grant_key_id = ''preview-v1'', ac_preview_nonce_dir = None,
     ac_browse_grant_pubkey_ref = None, ac_browse_grant_key_id = ''browse-v1'', ac_browse_nonce_dir = None,
     ac_throttle = sample_throttle\<rparr>"

definition sample_override :: config_override where
  "sample_override = \<lparr>co_scan_scope = Given [''/srv//data/'', ''/home''], co_fullbit_scope = Given [''/home/./x''],
     co_exclude_scope = Absent, co_scope_labels = Absent, co_cross_mounts = Given True, co_throttle = Absent,
     co_other_keys = [''write_enabled'']\<rparr>"

lemma sample_remote_valid: "remote_valid (sample_remote ''nas2'' ''/pool'')" "remote_valid (sample_remote ''..'' ''/etc'')"
  by (simp_all add: remote_valid_def sample_remote_def host_ok_def remote_text_ok_def has_control_def)

lemma sample_abs_paths:
  "abs_path ''/etc/a.pem'' = Inr ''/etc/a.pem''" "abs_path ''/etc/a.key'' = Inr ''/etc/a.key''"
  "abs_path ''/etc/ca.pem'' = Inr ''/etc/ca.pem''" "abs_path ''/srv/data'' = Inr ''/srv/data''"
  "abs_path ''/srv/data/media'' = Inr ''/srv/data/media''" "abs_path ''/srv/data/tmp'' = Inr ''/srv/data/tmp''"
  "abs_path ''/srv/q'' = Inr ''/srv/q''" "abs_path ''/srv//data/'' = Inr ''/srv/data''"
  "abs_path ''/home'' = Inr ''/home''" "abs_path ''/home/./x'' = Inr ''/home/x''"
  by code_simp+

lemma sample_scopes:
  "in_scope sample_config ''/srv/data/media'' = Inr True"
  "in_fullbit_scope sample_config ''/srv/data/media/a.mkv'' = Inr True"
  by (simp_all add: sample_config_def in_scope_def in_fullbit_scope_def) code_simp+

lemma throttle_sample: "throttle_valid sample_throttle"
  by (simp add: throttle_valid_def sample_throttle_def percent_ok_def)

lemma sample_config_valid: "validate_agent_config sample_config = Inr sample_config"
proof -
  have "plain_fields_ok sample_config"
    using sample_remote_valid(1) throttle_sample by (simp add: plain_fields_ok_def sample_config_def)
  moreover have "path_fields sample_config sample_config"
    by (simp add: path_fields_def sample_config_def opt_abs_path_def sample_abs_paths)
  ultimately have "validate_fields sample_config = Inr sample_config"
    by (simp add: validate_fields_Inr with_paths_of_def)
  then show ?thesis using sample_scopes(1)
    by (simp add: validate_agent_config_Inr fullbit_within_ok) (simp add: sample_config_def)
qed

theorem fullbit_only_narrows_witness: "in_scope sample_config ''/srv/data/media/a.mkv'' = Inr True"
  by (rule fullbit_only_narrows [OF sample_config_valid sample_scopes(2)])

theorem scope_checks_exact_witness: "is_excluded sample_config ''srv'' = Inr True"
proof -
  have "validate_config_path ''srv'' = Inl Path_Not_Absolute" by code_simp
  moreover have "ac_exclude_scope sample_config \<noteq> []" by (simp add: sample_config_def)
  ultimately show ?thesis using scope_checks_exact [OF sample_config_valid, of "''srv''"] by simp
qed



text \<open>The components of a path without \<open>..\<close> are kept in order.\<close>

lemma norm_comps_no_dotdot:
  assumes "''..'' \<notin> set cs"
  shows "norm_comps rooted cs = filter (\<lambda>p. p \<noteq> [] \<and> p \<noteq> ''.'') cs"
proof -
  have "fold (\<lambda>c kept. norm_step rooted kept c) cs kept = rev (filter (\<lambda>p. p \<noteq> [] \<and> p \<noteq> ''.'') cs) @ kept" for kept
    using assms by (induction cs arbitrary: kept) (auto simp: norm_step_def)
  from this [of "[]"] show ?thesis by (simp add: norm_comps_def)
qed

lemma py_split_append_sep: "py_split sep (u @ sep # s) = py_split sep u @ py_split sep s"
proof (induction u)
  case (Cons c u)
  obtain w ws where "py_split sep u = w # ws" by (cases "py_split sep u") auto
  with Cons show ?case by simp
qed simp

lemma split_slash_prefix: "set u \<subseteq> {sep} \<Longrightarrow> set (py_split sep s) \<subseteq> set (py_split sep (u @ s))"
  by (induction u) auto

lemma split_slash_suffix: "set v \<subseteq> {sep} \<Longrightarrow> set (py_split sep s) \<subseteq> set (py_split sep (s @ v))"
  by (cases v) (auto simp: py_split_append_sep)

lemma split_strip: "set (py_split path_sep (strip ''/'' s)) \<subseteq> set (py_split path_sep s)"
proof -
  obtain v where v: "lstrip ''/'' s = strip ''/'' s @ v" "set v \<subseteq> {path_sep}"
    using rstrip_prefix [of "lstrip ''/'' s" "''/''"] by (auto simp: strip_def)
  have "s = takeWhile (\<lambda>c. c \<in> set ''/'') s @ lstrip ''/'' s" by (simp add: lstrip_def)
  moreover have "set (takeWhile (\<lambda>c. c \<in> set ''/'') s) \<subseteq> {path_sep}" by (auto dest: set_takeWhileD)
  ultimately have "set (py_split path_sep (lstrip ''/'' s)) \<subseteq> set (py_split path_sep s)"
    using split_slash_prefix [of "takeWhile (\<lambda>c. c \<in> set ''/'') s" path_sep "lstrip ''/'' s"] by simp
  with v split_slash_suffix [of v path_sep "strip ''/'' s"] show ?thesis by auto
qed

lemma mount_parts:
  assumes "path_sep \<notin> set scheme" "path_sep \<notin> set host" "\<not> dot_name scheme" "\<not> dot_name host"
    "''..'' \<notin> set (py_split path_sep tail)"
  shows "path_of (normpath (path_sep # scheme @ path_sep # host @ path_sep # tail)) =
    \<lparr>pp_root = ''/'', pp_parts = scheme # host # filter (\<lambda>p. p \<noteq> [] \<and> p \<noteq> ''.'') (py_split path_sep tail)\<rparr>"
proof -
  let ?s = "path_sep # scheme @ path_sep # host @ path_sep # tail"
  have "leading_slashes ?s = ''/''"
    using assms(1,3) by (cases scheme) (auto simp: leading_slashes_def dot_name_def)
  moreover have split: "py_split path_sep ?s = [] # scheme # host # py_split path_sep tail"
    using assms(1,2) by (simp add: py_split_append)
  moreover have "norm_comps True (py_split path_sep ?s) = scheme # host # filter (\<lambda>p. p \<noteq> [] \<and> p \<noteq> ''.'') (py_split path_sep tail)"
    using assms(3-5) norm_comps_no_dotdot [of "py_split path_sep ?s" True]
    unfolding split by (auto simp: dot_name_def)
  ultimately show ?thesis using path_of_normpath [of ?s] by simp
qed


definition mount_scheme :: "remote_config \<Rightarrow> string" where
  "mount_scheme r = (case rc_protocol r of Smb \<Rightarrow> ''smb'' | Rclone \<Rightarrow> ''rclone'' | Sftp \<Rightarrow> ''sftp'')"

text \<open>C26. A remote target cannot alias a local volume: when its host is not \<open>.\<close> or \<open>..\<close> and its remote path
  starts with a slash, the mount it is catalogued under is an absolute normal path whose first two
  components are the protocol and the host, whatever the share and the remote path.\<close>

theorem catalogue_mount_contained:
  assumes "remote_valid r" "rc_host r \<noteq> ''.''" "rc_host r \<noteq> ''..''" "prefix ''/'' (rc_remote_path r)"
  shows "\<exists>rest. path_of (catalogue_mount r) = \<lparr>pp_root = ''/'', pp_parts = mount_scheme r # rc_host r # rest\<rparr>"
proof -
  obtain p where p: "rc_remote_path r = path_sep # p" using assms(4) by (auto simp: prefix_def)
  have host: "path_sep \<notin> set (rc_host r)" "\<not> dot_name (rc_host r)"
    using assms by (auto simp: remote_valid_def host_ok_def dot_name_def)
  have dots: "''..'' \<notin> set (py_split path_sep (rc_remote_path r))" "''..'' \<notin> set (py_split path_sep p)"
    using assms(1) p by (auto simp: remote_valid_def remote_text_ok_def)
  note mount = mount_parts [OF _ host(1) _ host(2)]
  show ?thesis
  proof (cases "rc_protocol r")
    case Smb
    then obtain s where s: "rc_share r = Some s" "s \<noteq> []"
      using assms(1) by (auto simp: remote_valid_def truthy_def split: option.splits)
    then have "''..'' \<notin> set (py_split path_sep (s @ path_sep # p))"
      using assms(1) dots(2) by (auto simp: remote_valid_def remote_text_ok_def py_split_append_sep)
    from mount [OF _ _ this, of "''smb''"] Smb s p show ?thesis
      by (simp add: catalogue_mount_def show_opt_def mount_scheme_def dot_name_def)
  next
    case Sftp
    from mount [OF _ _ dots(2), of "''sftp''"] Sftp p show ?thesis
      by (simp add: catalogue_mount_def mount_scheme_def dot_name_def)
  next
    case Rclone
    have sub: "''..'' \<notin> set (py_split path_sep (strip ''/'' (rc_remote_path r)))"
      using split_strip dots(1) by blast
    show ?thesis
    proof (cases "strip ''/'' (rc_remote_path r) = []")
      case True
      have "path_of (normpath (''/rclone/'' @ rc_host r)) = \<lparr>pp_root = ''/'', pp_parts = [''rclone'', rc_host r]\<rparr>"
      proof -
        have "py_split path_sep (''/rclone/'' @ rc_host r) = [[], ''rclone'', rc_host r]"
          using host(1) by (simp add: py_split_id)
        then show ?thesis using host(2)
          by (simp add: path_of_normpath leading_slashes_def dot_name_def norm_comps_def norm_step_def)
      qed
      with True Rclone show ?thesis by (simp add: catalogue_mount_def mount_scheme_def)
    next
      case False
      with mount [OF _ _ sub, of "''rclone''"] Rclone show ?thesis
        by (simp add: catalogue_mount_def mount_scheme_def dot_name_def)
    qed
  qed
qed

theorem catalogue_mount_contained_witness:
  "\<exists>rest. path_of (catalogue_mount (sample_remote ''nas2'' ''/pool'')) = \<lparr>pp_root = ''/'', pp_parts = ''sftp'' # ''nas2'' # rest\<rparr>"
  using catalogue_mount_contained [OF sample_remote_valid(1)] by (simp add: sample_remote_def mount_scheme_def)

text \<open>C29. The host is a hole in that rule: a target whose host is \<open>..\<close> passes every validator, and its mount
  is the local path \<open>/etc\<close>.\<close>

theorem catalogue_mount_aliases_by_host:
  "remote_valid (sample_remote ''..'' ''/etc'') \<and> catalogue_mount (sample_remote ''..'' ''/etc'') = ''/etc''"
  using sample_remote_valid(2) by (simp add: sample_remote_def catalogue_mount_def) code_simp

end
