(* ===== verification/Listener.thy ===== *)
theory Listener
  imports Executor_Guards Signing Agent_Config
begin

text \<open>
  The agent's side of the dispatch channel: the dry run (\<open>agent/actor/planner.py\<close>), the dispatchers
  (\<open>agent/actor/dispatch.py\<close>), the listener that verifies before it dispatches
  (\<open>agent/actor/listener.py\<close>), and the listen loop with its start-up checks and its result payload
  (\<open>agent/actor/listen.py\<close>, \<open>core/remediation/job_queue.py\<close>).

  The nonce ledger and the signature check are arguments, as in \<^theory_text>\<open>Signing\<close>; the state of the ledger is
  passed beside the world. The scan a scan-now job runs writes the staging database and the network
  only; its outcome is an argument.
\<close>

section \<open>The dry run\<close>

text \<open>\<open>BackendHasher.full\<close> over the POSIX backend: the path is opened without following a symbolic link
  at its end and read once.\<close>

definition hasher_full :: "(string \<Rightarrow> string) \<Rightarrow> string \<Rightarrow> world \<Rightarrow> (errno, string) result \<times> world" where
  "hasher_full H path w = full_hash_through_fd H (fs_cwd (w_fs w)) path w"

definition verify_item ::
    "(string \<Rightarrow> string) \<Rightarrow> bool \<Rightarrow> bool \<Rightarrow> plan_item \<Rightarrow> world \<Rightarrow> (errno, string option) result \<times> world" where
  "verify_item H has_hasher verify_hash item w =
     (case os_lstat (fs_cwd (w_fs w)) (pi_path item) w of
        (Inl e, w) \<Rightarrow> (Inr (Some ''missing''), w)
      | (Inr st, w) \<Rightarrow>
          if st_islnk st then (Inr (Some ''became_symlink''), w)
          else if st_ino st \<noteq> pi_prior_inode item then (Inr (Some ''inode_changed''), w)
          else if st_size st \<noteq> pi_prior_size item then (Inr (Some ''size_changed''), w)
          else
            (case pi_prior_hash item of
               Some prior \<Rightarrow>
                 if verify_hash \<and> has_hasher then
                   (case hasher_full H (pi_path item) w of
                      (Inl e, w) \<Rightarrow> (Inl e, w)
                    | (Inr current, w) \<Rightarrow> (Inr (if current \<noteq> prior then Some ''hash_changed'' else None), w))
                 else (Inr None, w)
             | None \<Rightarrow> (Inr None, w)))"

fun verify_items ::
    "(string \<Rightarrow> string) \<Rightarrow> bool \<Rightarrow> bool \<Rightarrow> plan_item list \<Rightarrow> drift_report \<Rightarrow> world
      \<Rightarrow> (errno, drift_report) result \<times> world" where
  "verify_items H has_hasher verify_hash [] drifted w = (Inr drifted, w)"
| "verify_items H has_hasher verify_hash (item # items) drifted w =
     (case verify_item H has_hasher verify_hash item w of
        (Inl e, w) \<Rightarrow> (Inl e, w)
      | (Inr None, w) \<Rightarrow> verify_items H has_hasher verify_hash items drifted w
      | (Inr (Some reason), w) \<Rightarrow>
          verify_items H has_hasher verify_hash items (dict_set (str_entry_id (pi_entry_id item)) reason drifted) w)"

definition dry_run_verify ::
    "(string \<Rightarrow> string) \<Rightarrow> bool \<Rightarrow> bool \<Rightarrow> remediation_plan \<Rightarrow> world \<Rightarrow> (errno, drift_report) result \<times> world" where
  "dry_run_verify H has_hasher verify_hash plan w = verify_items H has_hasher verify_hash (rp_items plan) [] w"

section \<open>Dispatch\<close>

definition plan_from_job :: "action_job \<Rightarrow> remediation_plan" where
  "plan_from_job j = \<lparr>rp_plan_id = aj_plan_id j, rp_created_by = ''orchestrator'', rp_keeper_path = aj_keeper_path j,
     rp_items = aj_items j, rp_move_root = aj_move_root j\<rparr>"

record job_result =
  jr_mode :: job_mode
  jr_plan_id :: string
  jr_drift :: drift_report
  jr_results :: "exec_result list"
  jr_audit :: "audit_record list"

definition item_drift :: "drift_report \<Rightarrow> plan_item \<Rightarrow> string option" where
  "item_drift report item = dict_get report (str_entry_id (pi_entry_id item))"

definition aborted_results :: "drift_report \<Rightarrow> plan_item list \<Rightarrow> exec_result list" where
  "aborted_results report items =
     concat (map (\<lambda>i. case item_drift report i of
       None \<Rightarrow> []
     | Some reason \<Rightarrow>
         [\<lparr>er_entry_id = str_entry_id (pi_entry_id i), er_action = action_value (pi_action i),
           er_status = ''aborted_drift'', er_detail = reason\<rparr>]) items)"

definition dispatch_execute ::
    "(string \<Rightarrow> string) \<Rightarrow> executor \<Rightarrow> bool \<Rightarrow> action_job \<Rightarrow> bool \<Rightarrow> world
      \<Rightarrow> (exec_error, exec_outcome) result \<times> world" where
  "dispatch_execute H ex has_hasher job confirm_blast w =
     (let plan = plan_from_job job
      in case dry_run_verify H has_hasher True plan w of
           (Inl e, w) \<Rightarrow> (Inl (OS_Error e), w)
         | (Inr report, w) \<Rightarrow>
             if report \<noteq> [] then
               (let clean = filter (\<lambda>i. item_drift report i = None) (rp_items plan)
                in if clean = [] then (Inr \<lparr>eo_results = aborted_results report (rp_items plan), eo_audit = []\<rparr>, w)
                   else
                     let plan = plan\<lparr>rp_items := clean\<rparr>
                     in case dry_run_verify H has_hasher True plan w of
                          (Inl e, w) \<Rightarrow> (Inl (OS_Error e), w)
                        | (Inr report, w) \<Rightarrow> execute_with_audit H ex plan report confirm_blast w)
             else execute_with_audit H ex plan report confirm_blast w)"

record scope_outcome =
  so_root :: string
  so_entries_seen :: nat
  so_rows_changed :: nat
  so_error :: "string option"
  so_fullbit_hashed :: nat
  so_fullbit_error :: "string option"

record agent_run_summary =
  rs_host_id :: string
  rs_scopes :: "scope_outcome list"
  rs_pushed :: nat

text \<open>A scan that raises has no summary.\<close>

type_synonym scan_runner = "scan_job \<Rightarrow> agent_run_summary option"

datatype handle_error =
    Verification verify_error | Scan_Scope_Error | Remediation_Unavailable | Scan_Raised | Execution exec_error

definition scan_status :: "scan_job \<Rightarrow> agent_run_summary \<Rightarrow> string \<times> string" where
  "scan_status job summary =
     (case find (\<lambda>s. so_root s = sj_root job) (rs_scopes summary) of
        None \<Rightarrow> (''failed'', ''scan produced no outcome for the requested root'')
      | Some scope \<Rightarrow>
          (case so_error scope of
             Some e \<Rightarrow> (''failed'', ''scan error: '' @ e)
           | None \<Rightarrow>
               (''completed'',
                ''mode='' @ scan_mode_value (sj_mode job) @ '' entries_seen='' @ str_nat (so_entries_seen scope) @
                '' rows_changed='' @ str_nat (so_rows_changed scope) @ '' pushed='' @ str_nat (rs_pushed summary) @
                '' fullbit_hashed='' @ str_nat (so_fullbit_hashed scope) @
                (case so_fullbit_error scope of None \<Rightarrow> [] | Some e \<Rightarrow> '' fullbit_error='' @ e))))"

definition dispatch_scan :: "agent_config \<Rightarrow> scan_runner \<Rightarrow> scan_job \<Rightarrow> (handle_error, job_result) result" where
  "dispatch_scan config run job =
     (case in_scope config (sj_root job) of
        Inl e \<Rightarrow> Inl Scan_Raised
      | Inr inside \<Rightarrow>
          if \<not> inside then Inl Scan_Scope_Error
          else case run job of
                 None \<Rightarrow> Inl Scan_Raised
               | Some summary \<Rightarrow>
                   (case scan_status job summary of (status, detail) \<Rightarrow>
                      Inr \<lparr>jr_mode = Dry_Run, jr_plan_id = ledger_ref (Scan_Job job), jr_drift = [],
                        jr_results = [\<lparr>er_entry_id = sj_root job, er_action = ''scan_now'', er_status = status,
                          er_detail = detail\<rparr>], jr_audit = []\<rparr>))"

section \<open>Verify before act\<close>

text \<open>The listener: without a dispatcher it is scan-only, and it may lack the scan branch.\<close>

record listener =
  li_executor :: "executor option"
  li_has_hasher :: bool
  li_host_id :: string
  li_write_enabled :: bool
  li_scan :: "(agent_config \<times> scan_runner) option"

text \<open>The dictionary comprehension over the results: a later result for the same entry wins.\<close>

definition drift_of_results :: "exec_result list \<Rightarrow> drift_report" where
  "drift_of_results rs =
     fold (\<lambda>r d. dict_set (er_entry_id r) (er_detail r) d) (filter (\<lambda>r. er_status r = ''aborted_drift'') rs) []"

fun handle_job ::
    "(string \<Rightarrow> string) \<Rightarrow> listener \<Rightarrow> bool \<Rightarrow> dispatch_job \<Rightarrow> world \<Rightarrow> (handle_error, job_result) result \<times> world" where
  "handle_job H li confirm_blast (Scan_Job job) w =
     (case li_scan li of
        None \<Rightarrow> (Inl Scan_Scope_Error, w)
      | Some (config, run) \<Rightarrow> (dispatch_scan config run job, w))"
| "handle_job H li confirm_blast (Action_Job job) w =
     (case li_executor li of
        None \<Rightarrow> (Inl Remediation_Unavailable, w)
      | Some ex \<Rightarrow>
          if aj_mode job = Dry_Run then
            (case dry_run_verify H (li_has_hasher li) True (plan_from_job job) w of
               (Inl e, w) \<Rightarrow> (Inl (Execution (OS_Error e)), w)
             | (Inr report, w) \<Rightarrow>
                 (Inr \<lparr>jr_mode = Dry_Run, jr_plan_id = aj_plan_id job, jr_drift = report, jr_results = [], jr_audit = []\<rparr>, w))
          else
            (case dispatch_execute H ex (li_has_hasher li) job confirm_blast w of
               (Inl e, w) \<Rightarrow> (Inl (Execution e), w)
             | (Inr out, w) \<Rightarrow>
                 (Inr \<lparr>jr_mode = Execute, jr_plan_id = aj_plan_id job, jr_drift = drift_of_results (eo_results out),
                    jr_results = eo_results out, jr_audit = eo_audit out\<rparr>, w)))"

definition handle ::
    "(string \<Rightarrow> string) \<Rightarrow> (signed_job \<Rightarrow> bool) \<Rightarrow> ('s \<Rightarrow> string \<Rightarrow> string \<Rightarrow> ledger_result \<times> 's) \<Rightarrow> listener
      \<Rightarrow> bool \<Rightarrow> int \<Rightarrow> signed_job \<Rightarrow> 's \<times> world \<Rightarrow> (handle_error, job_result) result \<times> 's \<times> world" where
  "handle H verifies consume li confirm_blast now signed sw =
     (case sw of (s, w) \<Rightarrow>
        (case verify_job verifies consume signed (li_host_id li) now s of
           (Inl e, s) \<Rightarrow> (Inl (Verification e), s, w)
         | (Inr job, s) \<Rightarrow> (case handle_job H li confirm_blast job w of (r, w) \<Rightarrow> (r, s, w))))"

section \<open>The result on the wire\<close>

definition MAX_RESULT_ITEMS :: nat where "MAX_RESULT_ITEMS = 10000"
definition MAX_AUDIT_RECORDS :: nat where "MAX_AUDIT_RECORDS = 20000"
definition MAX_FIELD_CHARS :: nat where "MAX_FIELD_CHARS = 4096"

record job_payload =
  jp_job_id :: string
  jp_plan_id :: string
  jp_mode :: job_mode
  jp_drift :: drift_report
  jp_results :: "exec_result list"
  jp_audit :: "audit_record list"

definition result_payload_valid :: "exec_result \<Rightarrow> bool" where
  "result_payload_valid r \<longleftrightarrow> length (er_entry_id r) \<le> MAX_FIELD_CHARS \<and> length (er_action r) \<le> 64 \<and>
     length (er_status r) \<le> 64 \<and> length (er_detail r) \<le> MAX_FIELD_CHARS"

definition audit_payload_valid :: "audit_record \<Rightarrow> bool" where
  "audit_payload_valid a \<longleftrightarrow> length (ar_ts a) \<le> 64 \<and> length (ar_actor a) \<le> 255 \<and> length (ar_action a) \<le> 64 \<and>
     length (ar_target a) \<le> MAX_FIELD_CHARS \<and> length (ar_result a) \<le> 64 \<and> length (ar_prev_hash a) \<le> 128 \<and>
     length (ar_row_hash a) \<le> 128"

definition job_payload_valid :: "job_payload \<Rightarrow> bool" where
  "job_payload_valid p \<longleftrightarrow> jp_job_id p \<noteq> [] \<and> length (jp_job_id p) \<le> MAX_FIELD_CHARS \<and>
     jp_plan_id p \<noteq> [] \<and> length (jp_plan_id p) \<le> MAX_FIELD_CHARS \<and>
     length (jp_results p) \<le> MAX_RESULT_ITEMS \<and> list_all result_payload_valid (jp_results p) \<and>
     length (jp_audit p) \<le> MAX_AUDIT_RECORDS \<and> list_all audit_payload_valid (jp_audit p)"

text \<open>\<open>None\<close> is the validation error the model raises on construction.\<close>

definition payload_from_job_result :: "string \<Rightarrow> job_result \<Rightarrow> job_payload option" where
  "payload_from_job_result job_id r =
     (let p = \<lparr>jp_job_id = job_id, jp_plan_id = jr_plan_id r, jp_mode = jr_mode r, jp_drift = jr_drift r,
                jp_results = jr_results r, jp_audit = jr_audit r\<rparr>
      in if job_payload_valid p then Some p else None)"

section \<open>The listen loop\<close>

text \<open>What a poll brings back, and what the cycle ends in. \<open>Cycle_Raised\<close> leaves the loop, as only
  transport errors and refused statuses are caught there.\<close>

datatype poll_response =
    Poll_Empty | Poll_Transport_Error | Poll_Bad_Status | Poll_Malformed | Poll_Claimed string signed_job

datatype cycle_outcome =
    Idle | Backed_Off | Dropped handle_error | Posted job_payload | Cycle_Raised

text \<open>\<open>post_ok\<close> is whether the result reaches the core; a transport error on the way is caught by the loop.\<close>

definition handle_one ::
    "(string \<Rightarrow> string) \<Rightarrow> (signed_job \<Rightarrow> bool) \<Rightarrow> ('s \<Rightarrow> string \<Rightarrow> string \<Rightarrow> ledger_result \<times> 's) \<Rightarrow> listener
      \<Rightarrow> bool \<Rightarrow> int \<Rightarrow> poll_response \<Rightarrow> bool \<Rightarrow> 's \<times> world \<Rightarrow> cycle_outcome \<times> 's \<times> world" where
  "handle_one H verifies consume li confirm_blast now resp post_ok sw =
     (case resp of
        Poll_Empty \<Rightarrow> (Idle, sw)
      | Poll_Transport_Error \<Rightarrow> (Backed_Off, sw)
      | Poll_Bad_Status \<Rightarrow> (Backed_Off, sw)
      | Poll_Malformed \<Rightarrow> (Cycle_Raised, sw)
      | Poll_Claimed job_id signed \<Rightarrow>
          (case handle H verifies consume li confirm_blast now signed sw of
             (Inl e, sw) \<Rightarrow> (Dropped e, sw)
           | (Inr result, sw) \<Rightarrow>
               (case payload_from_job_result job_id result of
                  None \<Rightarrow> (Cycle_Raised, sw)
                | Some p \<Rightarrow> (if post_ok then Posted p else Backed_Off, sw))))"

text \<open>The loop passes no confirmation: \<open>confirm_blast\<close> keeps its default.\<close>

fun run_listen ::
    "(string \<Rightarrow> string) \<Rightarrow> (signed_job \<Rightarrow> bool) \<Rightarrow> ('s \<Rightarrow> string \<Rightarrow> string \<Rightarrow> ledger_result \<times> 's) \<Rightarrow> listener
      \<Rightarrow> (int \<times> poll_response \<times> bool) list \<Rightarrow> 's \<times> world \<Rightarrow> cycle_outcome list \<times> 's \<times> world" where
  "run_listen H verifies consume li [] sw = ([], sw)"
| "run_listen H verifies consume li ((now, resp, post_ok) # polls) sw =
     (case handle_one H verifies consume li False now resp post_ok sw of
        (Cycle_Raised, sw) \<Rightarrow> ([Cycle_Raised], sw)
      | (out, sw) \<Rightarrow> (case run_listen H verifies consume li polls sw of (outs, sw) \<Rightarrow> (out # outs, sw)))"

section \<open>Start-up\<close>

datatype startup_error =
    No_Trusted_Key | Key_Not_Resolved | Bad_PEM | Not_Ed25519 | Secret_Too_Short | Unknown_Algorithm | No_Quarantine

datatype key_shape = Ed25519_Key | Other_Key | Not_PEM

datatype verifier = Ed25519_Verifier string string | Hmac_Verifier string string

text \<open>What PEM material holds is decided by the cryptography library.\<close>

definition build_verifier :: "(string \<Rightarrow> key_shape) \<Rightarrow> string \<Rightarrow> string \<Rightarrow> string \<Rightarrow> (startup_error, verifier) result" where
  "build_verifier pem material key_id algorithm =
     (let algo = lower algorithm
      in if algo = ''ed25519'' then
           (case pem material of
              Not_PEM \<Rightarrow> Inl Bad_PEM
            | Other_Key \<Rightarrow> Inl Not_Ed25519
            | Ed25519_Key \<Rightarrow> Inr (Ed25519_Verifier material key_id))
         else if algo = ''hmac'' \<or> algo = ''hmac-sha256'' then
           (let secret = utf8 material
            in if length secret < 32 then Inl Secret_Too_Short else Inr (Hmac_Verifier secret key_id))
         else Inl Unknown_Algorithm)"

record listener_setup =
  ls_listener :: listener
  ls_verifier :: verifier
  ls_nonce_db :: string
  ls_audit_path :: "string option"

definition build_listener_from_config ::
    "(string \<Rightarrow> key_shape) \<Rightarrow> (string \<Rightarrow> string) \<Rightarrow> scan_runner \<Rightarrow> string \<Rightarrow> agent_config
      \<Rightarrow> (startup_error, listener_setup) result" where
  "build_listener_from_config pem secret_provider run staging_path config =
     (case ac_orchestrator_pubkey_ref config of
        None \<Rightarrow> Inl No_Trusted_Key
      | Some ref \<Rightarrow>
          if ref = [] then Inl No_Trusted_Key
          else if secret_provider ref = [] then Inl Key_Not_Resolved
          else rbind (build_verifier pem (secret_provider ref) (ac_orchestrator_key_id config)
                       (ac_orchestrator_signing_algorithm config)) (\<lambda>verifier.
            if \<not> ac_write_enabled config then
              Inr \<lparr>ls_listener = \<lparr>li_executor = None, li_has_hasher = False, li_host_id = ac_host_id config,
                    li_write_enabled = False, li_scan = Some (config, run)\<rparr>,
                  ls_verifier = verifier,
                  ls_nonce_db = path_str (path_div (path_parent (path_of staging_path)) ''.scan-nonce-ledger.sqlite''),
                  ls_audit_path = None\<rparr>
            else if \<not> truthy (ac_quarantine_dir config) then Inl No_Quarantine
            else
              let qdir = the (ac_quarantine_dir config)
              in Inr \<lparr>ls_listener = \<lparr>li_executor = Some \<lparr>ex_quarantine_dir = qdir, ex_write_enabled = True,
                        ex_blast_cap = DEFAULT_BLAST_CAP, ex_allow_hard_delete = False, ex_actor = ''strata-actor''\<rparr>,
                      li_has_hasher = True, li_host_id = ac_host_id config, li_write_enabled = True,
                      li_scan = Some (config, run)\<rparr>,
                    ls_verifier = verifier,
                    ls_nonce_db = path_str (path_div (path_of qdir) ''.nonce-ledger.sqlite''),
                    ls_audit_path = Some (if truthy (ac_act_audit_path config) then the (ac_act_audit_path config)
                      else path_str (path_div (path_of qdir) ''.act-audit.jsonl''))\<rparr>))"


section \<open>What a dry run does and finds\<close>

lemma verify_item_silent: "verify_item H hh vh it w = (r, w') \<Longrightarrow> silent w w'"
  by (auto simp: verify_item_def hasher_full_def split: prod.splits sum.splits if_splits option.splits
      dest!: full_hash_grows os_query_grows intro: grows_trans)

lemma verify_items_silent: "verify_items H hh vh items d w = (r, w') \<Longrightarrow> silent w w'"
proof (induction items arbitrary: d w)
  case (Cons it items)
  obtain r1 v where a: "verify_item H hh vh it w = (r1, v)" by fastforce
  note v = verify_item_silent [OF a]
  from Cons.prems a have "w' = v \<or> (\<exists>d'. verify_items H hh vh items d' v = (r, w'))"
    by (auto split: sum.splits option.splits)
  with Cons.IH v grows_trans show ?case by blast
qed simp

lemma dry_run_silent: "dry_run_verify H hh vh plan w = (r, w') \<Longrightarrow> silent w w'"
  by (simp add: dry_run_verify_def verify_items_silent)

text \<open>The path of an item leads, without following a link at its end, to the node the plan describes.\<close>

definition path_matches :: "(string \<Rightarrow> string) \<Rightarrow> fs \<Rightarrow> plan_item \<Rightarrow> bool" where
  "path_matches H fs it =
     (case resolve_at fs (fs_cwd fs) False (pi_path it) of
        Inl e \<Rightarrow> False
      | Inr i \<Rightarrow> node_matches H fs (it\<lparr>pi_action := QUARANTINE\<rparr>) i)"

lemma full_hash_calm:
  assumes "calm w" "resolve_at (w_fs w) d False n = Inr i" "fs_nodes (w_fs w) i = Some nd" "\<not> st_islnk (stat_node i nd)"
  shows "\<exists>w'. full_hash_through_fd H d n w = ((case nd of File c \<Rightarrow> Inr (H c) | _ \<Rightarrow> Inl EISDIR), w') \<and>
    w_fs w' = w_fs w \<and> calm w'"
proof -
  have v: "w_fs (enter w) = w_fs w" "calm (enter w)" using enter_calm [OF assms(1)] by auto
  have "os_open_file d False n w = (Inr i, enter w)"
    using assms by (cases nd) (simp_all add: os_open_file_def fs_open_file_def query_calm stat_node_def)
  moreover have "os_read i (enter w) = ((case nd of File c \<Rightarrow> Inr c | _ \<Rightarrow> Inl EISDIR), enter (enter w))"
    using assms v by (cases nd) (simp_all add: os_read_def fs_read_def query_calm stat_node_def)
  ultimately show ?thesis using v enter_calm [OF v(2)]
    by (cases nd) (simp_all add: full_hash_through_fd_def)
qed

lemma verify_item_calm:
  assumes "calm w" "verify_item H True True it w = (Inr r, w')"
  shows "calm w' \<and> w_fs w' = w_fs w \<and> (r = None \<longleftrightarrow> path_matches H (w_fs w) it)"
proof -
  let ?fs = "w_fs w"
  have v: "w_fs (enter w) = ?fs" "calm (enter w)" using enter_calm [OF assms(1)] by auto
  have ls: "os_lstat (fs_cwd ?fs) (pi_path it) w = (fs_stat ?fs (fs_cwd ?fs) False (pi_path it), enter w)"
    by (simp add: os_lstat_def query_calm [OF assms(1)])
  show ?thesis
  proof (cases "fs_stat ?fs (fs_cwd ?fs) False (pi_path it)")
    case (Inl e)
    then have "\<not> path_matches H ?fs it"
      by (auto simp: fs_stat_def path_matches_def node_matches_def split: sum.splits option.splits)
    with assms(2) ls Inl v show ?thesis by (auto simp: verify_item_def)
  next
    case (Inr st)
    then obtain i nd where i: "resolve_at ?fs (fs_cwd ?fs) False (pi_path it) = Inr i" "fs_nodes ?fs i = Some nd"
      "st = stat_node i nd" by (auto simp: fs_stat_def split: option.splits)
    let ?basic = "\<not> st_islnk st \<and> st_ino st = pi_prior_inode it \<and> st_size st = pi_prior_size it"
    have m: "path_matches H ?fs it \<longleftrightarrow> ?basic \<and> (case pi_prior_hash it of None \<Rightarrow> True
        | Some h \<Rightarrow> (case nd of File c \<Rightarrow> H c = h | _ \<Rightarrow> False))"
      using i by (auto simp: path_matches_def node_matches_def Let_def split: option.splits)
    show ?thesis
    proof (cases "?basic \<and> pi_prior_hash it \<noteq> None")
      case False
      with assms(2) ls Inr v m show ?thesis by (auto simp: verify_item_def split: if_splits option.splits)
    next
      case True
      then obtain h where h: "pi_prior_hash it = Some h" by auto
      obtain u where u: "full_hash_through_fd H (fs_cwd ?fs) (pi_path it) (enter w) =
          ((case nd of File c \<Rightarrow> Inr (H c) | _ \<Rightarrow> Inl EISDIR), u)" "w_fs u = ?fs" "calm u"
        using full_hash_calm [OF v(2), of "fs_cwd ?fs" "pi_path it" i nd H] i True v by auto
      with assms(2) ls Inr v m h True show ?thesis
        by (cases nd) (auto simp: verify_item_def hasher_full_def)
    qed
  qed
qed

lemma verify_items_calm:
  assumes "calm w" "verify_items H True True items d w = (Inr report, w')"
  shows "calm w' \<and> w_fs w' = w_fs w \<and> (\<forall>k. dict_get report k = None \<longleftrightarrow> dict_get d k = None \<and>
    (\<forall>it \<in> set items. str_entry_id (pi_entry_id it) = k \<longrightarrow> path_matches H (w_fs w) it))"
  using assms
proof (induction items arbitrary: d w)
  case (Cons it items)
  obtain r1 v where a: "verify_item H True True it w = (r1, v)" by fastforce
  with Cons.prems obtain r where r: "r1 = Inr r" by (cases r1) auto
  note v = verify_item_calm [OF Cons.prems(1) a [unfolded r]]
  let ?d = "case r of None \<Rightarrow> d | Some reason \<Rightarrow> dict_set (str_entry_id (pi_entry_id it)) reason d"
  have "verify_items H True True items ?d v = (Inr report, w')"
    using Cons.prems a r by (auto split: option.splits)
  from Cons.IH [OF _ this] v show ?case by (auto simp: dict_get_set split: option.splits)
qed simp

text \<open>C20. A dry run is exact: in a tree nobody else changes and in which no call fails of itself, a dry run
  that returns reports an entry exactly when some plan item of that entry no longer matches, that
  is, when its path does not lead to a node that is no symbolic link and has the inode, the size
  and the content hash of the plan.\<close>

theorem dry_run_exact:
  assumes "calm w" "dry_run_verify H True True plan w = (Inr report, w')"
  shows "w_fs w' = w_fs w \<and> w_trace w' = w_trace w \<and>
    (\<forall>k. dict_get report k = None \<longleftrightarrow>
       (\<forall>it \<in> set (rp_items plan). str_entry_id (pi_entry_id it) = k \<longrightarrow> path_matches H (w_fs w) it))"
  using verify_items_calm [OF assms(1) assms(2) [unfolded dry_run_verify_def]] silent_trace [OF dry_run_silent [OF assms(2)]]
  by auto


section \<open>What an execution does\<close>

lemma item_trace_audits: "item_trace ex it es \<Longrightarrow> length (audits es) \<le> 2"
  by (auto simp: item_trace_def audits_mutations)

lemma setup_audits: "list_all setup_event es \<Longrightarrow> audits es = []"
  using audits_mutations setup_mutation by (metis (mono_tags, lifting) list_all_iff)

lemma items_audits:
  assumes "list_all2 (item_trace ex) items ess"
  shows "length (audits (concat ess)) \<le> 2 * length items"
  using assms by (induction rule: list_all2_induct) (auto dest: item_trace_audits)

lemma execute_bounded:
  assumes "execute_with_audit H ex plan report confirm w = (r, w')"
  shows "\<exists>es. leaves H es w w' \<and> (confirm \<or> length (audits es) \<le> 2 * ex_blast_cap ex) \<and>
    (es \<noteq> [] \<longrightarrow> ex_write_enabled ex \<and> (confirm \<or> length (rp_items plan) \<le> ex_blast_cap ex)) \<and>
    (\<forall>out. r = Inr out \<longrightarrow> eo_audit out = audits es)"
proof (cases "ex_write_enabled ex \<and> (confirm \<or> length (rp_items plan) \<le> ex_blast_cap ex)")
  case True
  from execute_trace [OF assms] obtain prep ess where es: "leaves H (prep @ concat ess) w w'" "list_all setup_event prep"
    "length ess \<le> length (rp_items plan)" "list_all2 (item_trace ex) (take (length ess) (rp_items plan)) ess"
    "case r of Inr out \<Rightarrow> length ess = length (rp_items plan) \<and> eo_audit out = audits (concat ess) | Inl _ \<Rightarrow> True" by blast
  have "length (audits (prep @ concat ess)) \<le> 2 * length ess"
    using items_audits [OF es(4)] setup_audits [OF es(2)] es(3) by simp
  moreover have "\<forall>out. r = Inr out \<longrightarrow> eo_audit out = audits (prep @ concat ess)"
    using es(5) setup_audits [OF es(2)] by auto
  ultimately show ?thesis using es(1,3) True
    by (intro exI [of _ "prep @ concat ess"] conjI impI) auto
next
  case False
  then have "w' = w \<and> (\<exists>e. r = Inl e)" using assms by (auto simp: execute_with_audit_def split: if_splits)
  then show ?thesis using leaves_refl by (intro exI [of _ "[]"]) auto
qed

lemma dispatch_execute_bounded:
  assumes "dispatch_execute H ex hh job confirm w = (r, w')"
  shows "\<exists>es. leaves H es w w' \<and> (confirm \<or> length (audits es) \<le> 2 * ex_blast_cap ex) \<and>
    (es \<noteq> [] \<longrightarrow> ex_write_enabled ex) \<and> (\<forall>out. r = Inr out \<longrightarrow> eo_audit out = audits es)"
proof -
  have "\<exists>v. silent w v \<and> (w' = v \<and> (\<forall>out. r = Inr out \<longrightarrow> eo_audit out = []) \<or>
      (\<exists>plan report. execute_with_audit H ex plan report confirm v = (r, w')))"
  proof -
    obtain r1 v where a: "dry_run_verify H hh True (plan_from_job job) w = (r1, v)" by fastforce
    note v = dry_run_silent [OF a]
    let ?clean = "filter (\<lambda>i. item_drift (projr r1) i = None) (aj_items job)"
    obtain r2 u where b: "dry_run_verify H hh True (plan_from_job job\<lparr>rp_items := ?clean\<rparr>) v = (r2, u)" by fastforce
    note u = grows_trans [OF v dry_run_silent [OF b]]
    show ?thesis
    proof (cases r1)
      case (Inl e)
      with assms a v show ?thesis by (auto simp: dispatch_execute_def)
    next
      case (Inr report)
      show ?thesis
      proof (cases "report \<noteq> [] \<and> ?clean \<noteq> []")
        case False
        with assms a v Inr show ?thesis by (auto simp: dispatch_execute_def plan_from_job_def Let_def split: if_splits)
      next
        case True
        with assms a b u Inr show ?thesis
          by (cases r2) (auto simp: dispatch_execute_def plan_from_job_def Let_def)
      qed
    qed
  qed
  then obtain v where v: "silent w v" and "w' = v \<and> (\<forall>out. r = Inr out \<longrightarrow> eo_audit out = []) \<or>
      (\<exists>plan report. execute_with_audit H ex plan report confirm v = (r, w'))" by blast
  then consider "w' = v" "\<forall>out. r = Inr out \<longrightarrow> eo_audit out = []"
    | plan report where "execute_with_audit H ex plan report confirm v = (r, w')" by blast
  then show ?thesis
  proof cases
    case 1
    with silent_leaves [OF v] show ?thesis by (intro exI [of _ "[]"]) auto
  next
    case 2
    from execute_bounded [OF this] obtain es where "leaves H es v w'" "(confirm \<or> length (audits es) \<le> 2 * ex_blast_cap ex)"
      "es \<noteq> [] \<longrightarrow> ex_write_enabled ex \<and> (confirm \<or> length (rp_items plan) \<le> ex_blast_cap ex)"
      "\<forall>out. r = Inr out \<longrightarrow> eo_audit out = audits es" by blast
    with leaves_trans [OF silent_leaves [OF v], of H es w'] show ?thesis by auto
  qed
qed

text \<open>A run that hands back results reports one per item it was given.\<close>

lemma act_result: "act H ex plan it w = (Inr (res, recs), w') \<Longrightarrow> er_entry_id res = str_entry_id (pi_entry_id it)"
  by (auto simp: act_def Let_def split: prod.splits sum.splits option.splits)

lemma execute_items_ids:
  "execute_items H ex plan items w = (Inr out, w') \<Longrightarrow>
     map er_entry_id (eo_results out) = map (\<lambda>it. str_entry_id (pi_entry_id it)) items"
proof (induction items arbitrary: w out)
  case (Cons it items)
  then show ?case by (auto dest: act_result split: prod.splits sum.splits)
qed auto

lemma execute_ids:
  "execute_with_audit H ex plan report confirm w = (Inr out, w') \<Longrightarrow>
     map er_entry_id (eo_results out) = map (\<lambda>it. str_entry_id (pi_entry_id it)) (rp_items plan)"
  by (auto simp: execute_with_audit_def Let_def dest: execute_items_ids split: if_splits prod.splits sum.splits)


section \<open>The properties of the listener\<close>

lemma dispatch_scan_pure: "handle_job H li confirm (Scan_Job job) w = (r, w') \<Longrightarrow> w' = w"
  by (auto split: option.splits)

lemma handle_cases:
  assumes "handle H v consume li confirm now signed (l, w) = (r, l', w')"
  shows "(\<exists>e. r = Inl (Verification e)) \<and> w' = w \<or>
    (\<exists>job. verify_job v consume signed (li_host_id li) now l = (Inr job, l') \<and> handle_job H li confirm job w = (r, w'))"
  using assms by (auto simp: handle_def split: prod.splits sum.splits)

lemma handle_action_leaves:
  assumes "handle_job H li confirm (Action_Job job) w = (r, w')"
  shows "silent w w' \<and> (\<forall>res. r = Inr res \<longrightarrow> jr_audit res = []) \<or>
    (\<exists>ex r'. li_executor li = Some ex \<and> aj_mode job = Execute \<and>
      dispatch_execute H ex (li_has_hasher li) job confirm w = (r', w') \<and>
      (\<forall>res. r = Inr res \<longrightarrow> (\<exists>out. r' = Inr out \<and> jr_audit res = eo_audit out \<and> jr_results res = eo_results out)))"
proof (cases "li_executor li")
  case None
  with assms show ?thesis by auto
next
  case (Some ex)
  show ?thesis
  proof (cases "aj_mode job")
    case Dry_Run
    with assms Some show ?thesis by (auto dest: dry_run_silent split: prod.splits sum.splits)
  next
    case Execute
    with assms Some show ?thesis by (auto split: prod.splits sum.splits)
  qed
qed

lemma handle_leaves:
  assumes "handle H v consume li confirm now signed (l, w) = (r, l', w')"
  shows "\<exists>es. leaves H es w w' \<and> (\<forall>res. r = Inr res \<longrightarrow> jr_audit res = audits es) \<and>
    (es \<noteq> [] \<longrightarrow> (\<exists>job ex. sg_job signed = Action_Job job \<and> aj_mode job = Execute \<and>
       verify_job v consume signed (li_host_id li) now l = (Inr (Action_Job job), l') \<and>
       li_executor li = Some ex \<and> ex_write_enabled ex \<and> (confirm \<or> length (audits es) \<le> 2 * ex_blast_cap ex)))"
proof -
  from handle_cases [OF assms] consider "w' = w" "\<forall>res. r \<noteq> Inr res"
    | job where "verify_job v consume signed (li_host_id li) now l = (Inr job, l')" "handle_job H li confirm job w = (r, w')"
    by auto
  then show ?thesis
  proof cases
    case 1
    with leaves_refl show ?thesis by (intro exI [of _ "[]"]) auto
  next
    case (2 job)
    then have sg: "job = sg_job signed" by (simp add: verify_job_Inr)
    show ?thesis
    proof (cases job)
      case (Scan_Job sj)
      with 2 dispatch_scan_pure have "w' = w" by metis
      moreover have "jr_audit res = []" if "r = Inr res" for res
        using 2(2) that Scan_Job by (auto simp: dispatch_scan_def split: option.splits sum.splits if_splits prod.splits)
      ultimately show ?thesis using leaves_refl by (intro exI [of _ "[]"]) auto
    next
      case (Action_Job aj)
      from handle_action_leaves [of H li confirm aj w r w'] 2(2) Action_Job
      consider "silent w w'" "\<forall>res. r = Inr res \<longrightarrow> jr_audit res = []"
        | ex r' where "li_executor li = Some ex" "aj_mode aj = Execute" "dispatch_execute H ex (li_has_hasher li) aj confirm w = (r', w')"
          "\<forall>res. r = Inr res \<longrightarrow> (\<exists>out. r' = Inr out \<and> jr_audit res = eo_audit out \<and> jr_results res = eo_results out)"
        by auto
      then show ?thesis
      proof cases
        case 1
        with silent_leaves show ?thesis by (intro exI [of _ "[]"]) auto
      next
        case a: (2 ex r')
        from dispatch_execute_bounded [OF a(3)] obtain es where es: "leaves H es w w'"
          "confirm \<or> length (audits es) \<le> 2 * ex_blast_cap ex" "es \<noteq> [] \<longrightarrow> ex_write_enabled ex"
          "\<forall>out. r' = Inr out \<longrightarrow> eo_audit out = audits es" by blast
        have "\<forall>res. r = Inr res \<longrightarrow> jr_audit res = audits es" using a(4) es(4) by auto
        moreover have "sg_job signed = Action_Job aj" using sg Action_Job by simp
        ultimately show ?thesis using es(1-3) 2(1) a(1,2) Action_Job
          by (intro exI [of _ es] conjI impI exI [of _ aj] exI [of _ ex]) auto
      qed
    qed
  qed
qed

text \<open>C19. Verify before act: when handling a pulled job changes the tree or writes an audit record at all, the
  job is an execute job that the signature check, the time window and the host scope admit, its nonce
  was not in the ledger and is now, and the listener carries an enabled executor. So an unsigned,
  tampered, expired, replayed or misaddressed job, a dry run and a scan touch nothing.\<close>

theorem acts_only_on_verified_jobs:
  assumes "handle H v sqlite_consume li confirm now signed (l, w) = (r, l', w')" "w_trace w' \<noteq> w_trace w"
  shows "\<exists>job ex. sg_job signed = Action_Job job \<and> aj_mode job = Execute \<and>
    job_admissible v (li_host_id li) now signed \<and> aj_nonce job \<notin> sqlite_used l \<and> aj_nonce job \<in> sqlite_used l' \<and>
    li_executor li = Some ex \<and> ex_write_enabled ex"
proof -
  from handle_leaves [OF assms(1)] obtain es where es: "leaves H es w w'" "es \<noteq> [] \<longrightarrow> (\<exists>job ex. sg_job signed = Action_Job job \<and>
      aj_mode job = Execute \<and> verify_job v sqlite_consume signed (li_host_id li) now l = (Inr (Action_Job job), l') \<and>
      li_executor li = Some ex \<and> ex_write_enabled ex \<and> (confirm \<or> length (audits es) \<le> 2 * ex_blast_cap ex))" by blast
  with assms(2) have "es \<noteq> []" by (auto simp: leaves_def)
  with es(2) obtain job ex where j: "sg_job signed = Action_Job job" "aj_mode job = Execute"
    "verify_job v sqlite_consume signed (li_host_id li) now l = (Inr (Action_Job job), l')"
    "li_executor li = Some ex" "ex_write_enabled ex" by blast
  from sqlite.verify_job_accepts [OF j(3)] j show ?thesis by auto
qed

text \<open>The agent's cap is absolute: the loop never confirms a large plan, so one cycle writes at most two
  audit records for each item its executor may act on, whatever the core has signed or confirmed.\<close>

theorem listen_cycle_bounded:
  assumes "handle_one H v consume li False now resp post_ok (l, w) = (out, l', w')" "li_executor li = Some ex"
  shows "\<exists>es. w_trace w' = w_trace w @ es \<and> length (audits es) \<le> 2 * ex_blast_cap ex \<and>
    (\<forall>p. out = Posted p \<longrightarrow> jp_audit p = audits es)"
proof (cases resp)
  case (Poll_Claimed job_id signed)
  obtain r l1 w1 where h: "handle H v consume li False now signed (l, w) = (r, l1, w1)" by (metis prod_cases3)
  from handle_leaves [OF h] obtain es where es: "leaves H es w w1" "\<forall>res. r = Inr res \<longrightarrow> jr_audit res = audits es"
    "es \<noteq> [] \<longrightarrow> (\<exists>ex. li_executor li = Some ex \<and> length (audits es) \<le> 2 * ex_blast_cap ex)" by blast
  have "w1 = w'" using assms(1) h Poll_Claimed by (auto simp: handle_one_def split: sum.splits option.splits)
  moreover have "jp_audit p = audits es" if "out = Posted p" for p
    using assms(1) h Poll_Claimed that es(2)
    by (auto simp: handle_one_def payload_from_job_result_def Let_def split: sum.splits option.splits if_splits)
  ultimately show ?thesis using es assms(2) by (intro exI [of _ es]) (auto simp: leaves_def)
qed (use assms in \<open>auto simp: handle_one_def\<close>)


text \<open>A drifted item vanishes from the answer: when an execution finds part of the job drifted and goes on with
  the rest, the outcome it hands back has one result for each item that did not drift, in order, and
  none for the others.\<close>

theorem partial_drift_unreported:
  assumes "dry_run_verify H hh True (plan_from_job job) w = (Inr report, v)"
    and "\<exists>it \<in> set (aj_items job). item_drift report it = None"
    and "dispatch_execute H ex hh job confirm w = (Inr out, w')"
  shows "map er_entry_id (eo_results out) =
    map (\<lambda>it. str_entry_id (pi_entry_id it)) (filter (\<lambda>it. item_drift report it = None) (aj_items job))"
proof (cases "report = []")
  case True
  then have "filter (\<lambda>it. item_drift report it = None) (aj_items job) = aj_items job" by (simp add: item_drift_def)
  with assms True show ?thesis
    by (auto simp: dispatch_execute_def Let_def plan_from_job_def dest: execute_ids)
next
  case False
  let ?clean = "filter (\<lambda>it. item_drift report it = None) (aj_items job)"
  have "?clean \<noteq> []" using assms(2) by (simp add: filter_empty_conv)
  moreover obtain r2 u where "dry_run_verify H hh True (plan_from_job job\<lparr>rp_items := ?clean\<rparr>) v = (r2, u)" by fastforce
  ultimately have "\<exists>report2. execute_with_audit H ex (plan_from_job job\<lparr>rp_items := ?clean\<rparr>) report2 confirm u = (Inr out, w')"
    using assms(1,3) False by (cases r2) (auto simp: dispatch_execute_def Let_def plan_from_job_def)
  then show ?thesis using execute_ids by force
qed

text \<open>The loop is not safe against a result that its own wire model refuses: a verified scan-now job whose
  scan reports an error text beyond the wire model's field length ends the loop, although the comment
  says that no failure may.\<close>

theorem long_scan_error_ends_loop:
  assumes "verify_job v consume signed (li_host_id li) now l = (Inr (Scan_Job job), l')"
    and "li_scan li = Some (config, run)" "in_scope config (sj_root job) = Inr True" "run job = Some summary"
    and "find (\<lambda>s. so_root s = sj_root job) (rs_scopes summary) = Some scope" "so_error scope = Some e"
    and "MAX_FIELD_CHARS < length e"
  shows "run_listen H v consume li ((now, Poll_Claimed job_id signed, post_ok) # polls) (l, w) = ([Cycle_Raised], l', w)"
proof -
  have status: "scan_status job summary = (''failed'', ''scan error: '' @ e)" using assms(5,6) by (simp add: scan_status_def)
  have "payload_from_job_result job_id r = None" if "dispatch_scan config run job = Inr r" for r
    using that assms(3,4,7) status
    by (auto simp: dispatch_scan_def payload_from_job_result_def job_payload_valid_def result_payload_valid_def Let_def)
  with assms(1-4) status show ?thesis by (simp add: handle_one_def handle_def dispatch_scan_def)
qed

section \<open>A concrete listener\<close>

definition drifted_item :: plan_item where
  "drifted_item = \<lparr>pi_entry_id = Id_Int 3, pi_path = ''/d/c'', pi_prior_inode = 13, pi_prior_size = 3,
     pi_prior_hash = None, pi_action = QUARANTINE, pi_dest_rel = None\<rparr>"

definition execute_job :: action_job where
  "execute_job = sample_job\<lparr>aj_mode := Execute, aj_items := [drifted_item, act_item QUARANTINE None]\<rparr>"

definition execute_signed :: signed_job where
  "execute_signed = sample_signed\<lparr>sg_job := Action_Job execute_job\<rparr>"

definition sample_listener :: listener where
  "sample_listener = \<lparr>li_executor = Some sample_executor, li_has_hasher = True, li_host_id = ''h1'',
     li_write_enabled = True, li_scan = None\<rparr>"

text \<open>The digest of the sample: every content and every record hashes to the same text.\<close>

lemma sample_execute:
  "map_sum (\<lambda>_. ()) (\<lambda>out. (map er_status (eo_results out), length (eo_audit out)))
     (fst (dispatch_execute (\<lambda>_. ''hxyz'') sample_executor True execute_job False sample_world)) = Inr ([''quarantined''], 2)"
  by code_simp


lemma sample_dry_run:
  "fst (dry_run_verify (\<lambda>_. ''hxyz'') True True (plan_from_job execute_job) sample_world) = Inr [(''3'', ''missing'')]"
  by code_simp

lemma sample_run:
  "\<exists>out w'. dispatch_execute (\<lambda>_. ''hxyz'') sample_executor True execute_job False sample_world = (Inr out, w') \<and>
     map er_status (eo_results out) = [''quarantined''] \<and> w_trace w' \<noteq> w_trace sample_world"
proof -
  let ?d = "dispatch_execute (\<lambda>_. ''hxyz'') sample_executor True execute_job False sample_world"
  obtain r w' where d: "?d = (r, w')" by fastforce
  with sample_execute obtain out where out: "r = Inr out" "map er_status (eo_results out) = [''quarantined'']" "length (eo_audit out) = 2"
    by (cases r) auto
  from dispatch_execute_bounded [OF d] obtain es where es: "w_trace w' = w_trace sample_world @ es"
    "\<forall>out. r = Inr out \<longrightarrow> eo_audit out = audits es" by (auto simp: leaves_def)
  have "eo_audit out = audits es" using es(2) out(1) by simp
  then have "es \<noteq> []" using out(3) by auto
  with d out es(1) show ?thesis by auto
qed

lemma sample_verified:
  "verify_job (\<lambda>_. True) sqlite_consume execute_signed ''h1'' (seconds 1100) sample_ledger =
     (Inr (Action_Job execute_job), snd (sqlite_consume sample_ledger ''0123456789abcdef'' ''p1''))"
  by (simp add: verify_job_def execute_signed_def sample_signed_def execute_job_def sample_job_def sqlite_consume_def
      sample_ledger_def seconds_def)

theorem dry_run_exact_witness:
  "\<not> path_matches (\<lambda>_. ''hxyz'') sample_fs drifted_item"
proof -
  obtain w' where "dry_run_verify (\<lambda>_. ''hxyz'') True True (plan_from_job execute_job) sample_world = (Inr [(''3'', ''missing'')], w')"
    using sample_dry_run by (metis prod.collapse)
  from dry_run_exact [OF sample_world_calm(1) this] have "dict_get [(''3'', ''missing'')] ''3'' = None \<longleftrightarrow>
      (\<forall>it \<in> set (rp_items (plan_from_job execute_job)). str_entry_id (pi_entry_id it) = ''3'' \<longrightarrow>
        path_matches (\<lambda>_. ''hxyz'') sample_fs it)"
    using sample_world_calm(2) by metis
  moreover have "str_int 3 = ''3''" "str_int 2 = ''2''" by code_simp+
  ultimately show ?thesis by (simp add: plan_from_job_def execute_job_def drifted_item_def act_item_def)
qed

theorem acts_only_on_verified_jobs_witness:
  "''0123456789abcdef'' \<in> sqlite_used (fst (snd (handle (\<lambda>_. ''hxyz'') (\<lambda>_. True) sqlite_consume sample_listener False
     (seconds 1100) execute_signed (sample_ledger, sample_world))))"
proof -
  let ?h = "handle (\<lambda>_. ''hxyz'') (\<lambda>_. True) sqlite_consume sample_listener False (seconds 1100) execute_signed (sample_ledger, sample_world)"
  obtain r l' w' where h: "?h = (r, l', w')" by (metis prod_cases3)
  have "aj_mode execute_job = Execute" by (simp add: execute_job_def)
  with sample_run h sample_verified have "w_trace w' \<noteq> w_trace sample_world"
    by (auto simp: handle_def sample_listener_def)
  from acts_only_on_verified_jobs [OF h this] h show ?thesis
    by (auto simp: execute_signed_def sample_signed_def execute_job_def sample_job_def)
qed

theorem listen_cycle_bounded_witness:
  "\<exists>es. w_trace (snd (snd (handle_one (\<lambda>_. ''hxyz'') (\<lambda>_. True) sqlite_consume sample_listener False (seconds 1100)
      (Poll_Claimed ''j1'' execute_signed) True (sample_ledger, sample_world)))) = es \<and> length (audits es) \<le> 200"
proof -
  obtain r l' w' where "handle_one (\<lambda>_. ''hxyz'') (\<lambda>_. True) sqlite_consume sample_listener False (seconds 1100)
      (Poll_Claimed ''j1'' execute_signed) True (sample_ledger, sample_world) = (r, l', w')" by (metis prod_cases3)
  moreover have "li_executor sample_listener = Some sample_executor" by (simp add: sample_listener_def)
  ultimately show ?thesis
    using listen_cycle_bounded [of "\<lambda>_. ''hxyz''" "\<lambda>_. True" sqlite_consume sample_listener "seconds 1100"
        "Poll_Claimed ''j1'' execute_signed" True sample_ledger sample_world r l' w' sample_executor]
    by (auto simp: sample_world_def sample_executor_def)
qed

theorem partial_drift_unreported_witness:
  "\<exists>out w'. dispatch_execute (\<lambda>_. ''hxyz'') sample_executor True execute_job False sample_world = (Inr out, w') \<and>
     map er_entry_id (eo_results out) = [''2'']"
proof -
  obtain out w' where out: "dispatch_execute (\<lambda>_. ''hxyz'') sample_executor True execute_job False sample_world = (Inr out, w')"
    using sample_run by blast
  obtain v where dry: "dry_run_verify (\<lambda>_. ''hxyz'') True True (plan_from_job execute_job) sample_world = (Inr [(''3'', ''missing'')], v)"
    using sample_dry_run by (metis prod.collapse)
  have "str_int 3 = ''3''" "str_int 2 = ''2''" by code_simp+
  then have clean: "item_drift [(''3'', ''missing'')] (act_item QUARANTINE None) = None"
    "item_drift [(''3'', ''missing'')] drifted_item \<noteq> None" "str_entry_id (pi_entry_id (act_item QUARANTINE None)) = ''2''"
    by (simp_all add: item_drift_def act_item_def drifted_item_def)
  then have "\<exists>it \<in> set (aj_items execute_job). item_drift [(''3'', ''missing'')] it = None" by (simp add: execute_job_def)
  from partial_drift_unreported [OF dry this out] out clean show ?thesis by (simp add: execute_job_def)
qed

definition scan_listener :: listener where
  "scan_listener = \<lparr>li_executor = None, li_has_hasher = False, li_host_id = ''h1'', li_write_enabled = False,
     li_scan = Some (sample_config, \<lambda>job. Some \<lparr>rs_host_id = ''h1'', rs_scopes = [\<lparr>so_root = sj_root job, so_entries_seen = 0,
       so_rows_changed = 0, so_error = Some (replicate 4097 (CHR ''x'')), so_fullbit_hashed = 0, so_fullbit_error = None\<rparr>],
       rs_pushed = 0\<rparr>)\<rparr>"

definition scan_signed :: signed_job where
  "scan_signed = sample_signed\<lparr>sg_job := Scan_Job (sample_scan\<lparr>sj_root := ''/srv/data/media''\<rparr>)\<rparr>"

theorem long_scan_error_ends_loop_witness:
  "fst (run_listen mark_hash (\<lambda>_. True) sqlite_consume scan_listener [(seconds 1100, Poll_Claimed ''j1'' scan_signed, True)]
     (sample_ledger, sample_world)) = [Cycle_Raised]"
proof -
  have "verify_job (\<lambda>_. True) sqlite_consume scan_signed (li_host_id scan_listener) (seconds 1100) sample_ledger =
      (Inr (Scan_Job (sample_scan\<lparr>sj_root := ''/srv/data/media''\<rparr>)),
       snd (sqlite_consume sample_ledger ''fedcba9876543210'' ''scan:h1:/srv/data/media''))"
    by (simp add: verify_job_def scan_signed_def scan_listener_def sample_signed_def sample_scan_def sqlite_consume_def
        sample_ledger_def seconds_def)
  from long_scan_error_ends_loop [OF this, of sample_config _ _ _ "replicate 4097 (CHR ''x'')" mark_hash "''j1''" True "[]" sample_world]
  show ?thesis using sample_scopes(1) by (simp add: scan_listener_def MAX_FIELD_CHARS_def sample_scan_def)
qed

end
