(* ===== verification/Job_Queue.thy ===== *)
theory Job_Queue
  imports Listener
begin

text \<open>
  The core's side of the dispatch channel: the per-host job queue with awaited results
  (\<open>core/remediation/job_queue.py\<close>) and the two agent routes over it
  (\<open>api/routers/agent_jobs.py\<close>), as steps of one event loop. A step is what runs between two
  awaits: issuing a job, a poll, a posted result, a timer, and a waiting dispatch that wakes up.

  The token of a job is drawn at random; it is an argument of the step that issues it, and the
  theorems assume that no two are equal.
\<close>

section \<open>The queue\<close>

datatype future = Pending | Resolved job_payload | Future_Failed string | Future_Cancelled

record job_queue =
  jq_queues :: "string \<Rightarrow> (string \<times> signed_job) list option"
  jq_results :: "string \<Rightarrow> future option"
  jq_job_host :: "string \<Rightarrow> string option"
  jq_job_nonce :: "string \<Rightarrow> string option"

definition job_queue_new :: job_queue where
  "job_queue_new = \<lparr>jq_queues = Map.empty, jq_results = Map.empty, jq_job_host = Map.empty, jq_job_nonce = Map.empty\<rparr>"

definition queue_for :: "job_queue \<Rightarrow> string \<Rightarrow> (string \<times> signed_job) list" where
  "queue_for q host = (case jq_queues q host of None \<Rightarrow> [] | Some jobs \<Rightarrow> jobs)"

definition job_expired :: "signed_job \<Rightarrow> int \<Rightarrow> bool" where
  "job_expired signed now \<longleftrightarrow> as_utc (job_expires_at (sg_job signed)) \<le> now"

text \<open>The part of \<open>enqueue_and_wait\<close> before it waits.\<close>

definition enqueue_job :: "string \<Rightarrow> signed_job \<Rightarrow> string \<Rightarrow> job_queue \<Rightarrow> job_queue" where
  "enqueue_job job_id signed host q =
     q\<lparr>jq_results := (jq_results q)(job_id \<mapsto> Pending),
       jq_job_host := (jq_job_host q)(job_id \<mapsto> host),
       jq_job_nonce := (jq_job_nonce q)(job_id \<mapsto> job_nonce (sg_job signed)),
       jq_queues := (jq_queues q)(host \<mapsto> queue_for q host @ [(job_id, signed)])\<rparr>"

text \<open>The \<open>finally\<close> of \<open>enqueue_and_wait\<close>.\<close>

definition forget_job :: "string \<Rightarrow> job_queue \<Rightarrow> job_queue" where
  "forget_job job_id q =
     q\<lparr>jq_results := (jq_results q)(job_id := None), jq_job_host := (jq_job_host q)(job_id := None),
       jq_job_nonce := (jq_job_nonce q)(job_id := None)\<rparr>"

definition fail_job :: "string \<Rightarrow> string \<Rightarrow> job_queue \<Rightarrow> job_queue" where
  "fail_job job_id reason q =
     (case jq_results q job_id of
        Some Pending \<Rightarrow> q\<lparr>jq_results := (jq_results q)(job_id \<mapsto> Future_Failed reason)\<rparr>
      | _ \<Rightarrow> q)"

text \<open>The loop of \<open>poll\<close> over the jobs that are there; the long wait is over when none is left.\<close>

fun poll_loop ::
    "int \<Rightarrow> (string \<times> signed_job) list \<Rightarrow> job_queue
      \<Rightarrow> (string \<times> signed_job) option \<times> (string \<times> signed_job) list \<times> job_queue" where
  "poll_loop now [] q = (None, [], q)"
| "poll_loop now ((job_id, signed) # jobs) q =
     (if job_expired signed now then poll_loop now jobs (fail_job job_id ''job expired before an agent claimed it'' q)
      else (Some (job_id, signed), jobs, q))"

definition poll :: "string \<Rightarrow> int \<Rightarrow> job_queue \<Rightarrow> (string \<times> signed_job) option \<times> job_queue" where
  "poll host now q =
     (case poll_loop now (queue_for q host) q of
        (claimed, jobs, q) \<Rightarrow> (claimed, q\<lparr>jq_queues := (jq_queues q)(host \<mapsto> jobs)\<rparr>))"

definition owner_of :: "job_queue \<Rightarrow> string \<Rightarrow> string option" where
  "owner_of q job_id = jq_job_host q job_id"

definition nonce_of :: "job_queue \<Rightarrow> string \<Rightarrow> string option" where
  "nonce_of q job_id = jq_job_nonce q job_id"

datatype correlation_error = No_Awaiting_Dispatch | Host_Mismatch | Already_Resolved

definition resolve :: "string \<Rightarrow> job_payload \<Rightarrow> job_queue \<Rightarrow> (correlation_error, job_queue) result" where
  "resolve host payload q =
     (case jq_job_host q (jp_job_id payload) of
        None \<Rightarrow> Inl No_Awaiting_Dispatch
      | Some expected \<Rightarrow>
          if expected \<noteq> host then Inl Host_Mismatch
          else case jq_results q (jp_job_id payload) of
                 Some Pending \<Rightarrow> Inr (q\<lparr>jq_results := (jq_results q)(jp_job_id payload \<mapsto> Resolved payload)\<rparr>)
               | _ \<Rightarrow> Inl Already_Resolved)"

section \<open>The routes\<close>

text \<open>The host a client certificate belongs to, from the host table.\<close>

type_synonym host_table = "string \<Rightarrow> string option"

datatype http_status = Ok_200 | No_Content_204 | Forbidden_403 | Conflict_409 | Unprocessable_422 | Server_Error_500

definition poll_job ::
    "host_table \<Rightarrow> string \<Rightarrow> int \<Rightarrow> job_queue \<Rightarrow> (http_status \<times> (string \<times> signed_job) option) \<times> job_queue" where
  "poll_job hosts fingerprint now q =
     (case hosts fingerprint of
        None \<Rightarrow> ((Forbidden_403, None), q)
      | Some name \<Rightarrow>
          (case poll name now q of
             (None, q) \<Rightarrow> ((No_Content_204, None), q)
           | (Some claimed, q) \<Rightarrow> ((Ok_200, Some claimed), q)))"

text \<open>The ledger row is part of the request's transaction: every refusal after it rolls it back.\<close>

definition submit_job_result ::
    "host_table \<Rightarrow> string \<Rightarrow> string \<Rightarrow> job_payload \<Rightarrow> job_queue \<times> db_ledger \<Rightarrow> http_status \<times> job_queue \<times> db_ledger" where
  "submit_job_result hosts fingerprint job_id payload qd =
     (case qd of (q, db) \<Rightarrow>
        (case hosts fingerprint of
           None \<Rightarrow> (Forbidden_403, q, db)
         | Some host_name \<Rightarrow>
             if jp_job_id payload \<noteq> job_id then (Unprocessable_422, q, db)
             else if owner_of q job_id = None \<or> owner_of q job_id \<noteq> Some host_name then (Conflict_409, q, db)
             else case nonce_of q job_id of
                    None \<Rightarrow> (Conflict_409, q, db)
                  | Some nonce \<Rightarrow>
                      (case db_consume db nonce job_id of
                         (Inl e, _) \<Rightarrow> (Server_Error_500, q, db)
                       | (Inr False, _) \<Rightarrow> (Conflict_409, q, db)
                       | (Inr True, db') \<Rightarrow>
                           (case resolve host_name payload q of
                              Inl e \<Rightarrow> (Conflict_409, q, db)
                            | Inr q' \<Rightarrow> (Ok_200, q', db')))))"

section \<open>The channel as a machine\<close>

datatype channel_event =
    Issue string signed_job string
  | Poll_Request string int
  | Post_Result string string job_payload
  | Timer string
  | Wake string

datatype dispatch_outcome = Answered job_payload | Dispatch_Timeout

datatype channel_output =
    Silent
  | Replied http_status
  | Claimed string string signed_job
  | Returned dispatch_outcome

record channel =
  cn_queue :: job_queue
  cn_ledger :: db_ledger

text \<open>A dispatch whose wait is over returns the payload or raises, and always forgets its job.\<close>

definition wake :: "string \<Rightarrow> job_queue \<Rightarrow> channel_output \<times> job_queue" where
  "wake job_id q =
     (case jq_results q job_id of
        Some (Resolved p) \<Rightarrow> (Returned (Answered p), forget_job job_id q)
      | Some (Future_Failed _) \<Rightarrow> (Returned Dispatch_Timeout, forget_job job_id q)
      | Some Future_Cancelled \<Rightarrow> (Returned Dispatch_Timeout, forget_job job_id q)
      | _ \<Rightarrow> (Silent, q))"

text \<open>The timer of \<open>wait_for\<close> cancels a future that is not done.\<close>

definition time_out :: "string \<Rightarrow> job_queue \<Rightarrow> job_queue" where
  "time_out job_id q =
     (case jq_results q job_id of
        Some Pending \<Rightarrow> q\<lparr>jq_results := (jq_results q)(job_id \<mapsto> Future_Cancelled)\<rparr>
      | _ \<Rightarrow> q)"

fun channel_step :: "host_table \<Rightarrow> channel_event \<Rightarrow> channel \<Rightarrow> channel_output \<times> channel" where
  "channel_step hosts (Issue job_id signed host) c =
     (Silent, c\<lparr>cn_queue := enqueue_job job_id signed host (cn_queue c)\<rparr>)"
| "channel_step hosts (Poll_Request fingerprint now) c =
     (case poll_job hosts fingerprint now (cn_queue c) of
        ((status, None), q) \<Rightarrow> (Replied status, c\<lparr>cn_queue := q\<rparr>)
      | ((status, Some (job_id, signed)), q) \<Rightarrow> (Claimed (the (hosts fingerprint)) job_id signed, c\<lparr>cn_queue := q\<rparr>))"
| "channel_step hosts (Post_Result fingerprint job_id payload) c =
     (case submit_job_result hosts fingerprint job_id payload (cn_queue c, cn_ledger c) of
        (status, q, db) \<Rightarrow> (Replied status, c\<lparr>cn_queue := q, cn_ledger := db\<rparr>))"
| "channel_step hosts (Timer job_id) c = (Silent, c\<lparr>cn_queue := time_out job_id (cn_queue c)\<rparr>)"
| "channel_step hosts (Wake job_id) c =
     (case wake job_id (cn_queue c) of (out, q) \<Rightarrow> (out, c\<lparr>cn_queue := q\<rparr>))"

fun channel_run :: "host_table \<Rightarrow> channel_event list \<Rightarrow> channel \<Rightarrow> channel_output list \<times> channel" where
  "channel_run hosts [] c = ([], c)"
| "channel_run hosts (ev # evs) c =
     (case channel_step hosts ev c of (out, c) \<Rightarrow>
        (case channel_run hosts evs c of (outs, c) \<Rightarrow> (out # outs, c)))"

section \<open>The promise: one record per job\<close>

text \<open>
  What the channel promises, without queues and dictionaries: a list of the jobs issued, in order,
  each with its host, whether it still waits to be claimed, and the state of its dispatch.
\<close>

datatype dispatch_phase = Waiting | Has_Answer job_payload | Gave_Up | Over

record job_card =
  jc_id :: string
  jc_signed :: signed_job
  jc_host :: string
  jc_unclaimed :: bool
  jc_phase :: dispatch_phase

definition give_up :: "job_card \<Rightarrow> job_card" where
  "give_up j = (if jc_phase j = Waiting then j\<lparr>jc_phase := Gave_Up\<rparr> else j)"

text \<open>A poll hands out the oldest unclaimed job of the host; those before it that have expired are given up.\<close>

fun hand_out :: "string \<Rightarrow> int \<Rightarrow> job_card list \<Rightarrow> job_card option \<times> job_card list" where
  "hand_out host now [] = (None, [])"
| "hand_out host now (j # js) =
     (if jc_host j \<noteq> host \<or> \<not> jc_unclaimed j then (case hand_out host now js of (c, js) \<Rightarrow> (c, j # js))
      else if job_expired (jc_signed j) now then
        (case hand_out host now js of (c, js) \<Rightarrow> (c, give_up (j\<lparr>jc_unclaimed := False\<rparr>) # js))
      else (Some j, j\<lparr>jc_unclaimed := False\<rparr> # js))"

definition set_phase :: "string \<Rightarrow> dispatch_phase \<Rightarrow> job_card list \<Rightarrow> job_card list" where
  "set_phase job_id ph js = map (\<lambda>j. if jc_id j = job_id then j\<lparr>jc_phase := ph\<rparr> else j) js"

definition card_of :: "job_card list \<Rightarrow> string \<Rightarrow> job_card option" where
  "card_of js job_id = find (\<lambda>j. jc_id j = job_id) js"

record ideal_channel =
  ic_cards :: "job_card list"
  ic_ledger :: db_ledger

fun ideal_step :: "host_table \<Rightarrow> channel_event \<Rightarrow> ideal_channel \<Rightarrow> channel_output \<times> ideal_channel" where
  "ideal_step hosts (Issue job_id signed host) s =
     (Silent, s\<lparr>ic_cards := ic_cards s @ [\<lparr>jc_id = job_id, jc_signed = signed, jc_host = host, jc_unclaimed = True,
        jc_phase = Waiting\<rparr>]\<rparr>)"
| "ideal_step hosts (Poll_Request fingerprint now) s =
     (case hosts fingerprint of
        None \<Rightarrow> (Replied Forbidden_403, s)
      | Some host \<Rightarrow>
          (case hand_out host now (ic_cards s) of
             (None, js) \<Rightarrow> (Replied No_Content_204, s\<lparr>ic_cards := js\<rparr>)
           | (Some j, js) \<Rightarrow> (Claimed host (jc_id j) (jc_signed j), s\<lparr>ic_cards := js\<rparr>)))"
| "ideal_step hosts (Post_Result fingerprint job_id payload) s =
     (case hosts fingerprint of
        None \<Rightarrow> (Replied Forbidden_403, s)
      | Some host \<Rightarrow>
          if jp_job_id payload \<noteq> job_id then (Replied Unprocessable_422, s)
          else case card_of (ic_cards s) job_id of
                 None \<Rightarrow> (Replied Conflict_409, s)
               | Some j \<Rightarrow>
                   if jc_phase j = Over \<or> jc_host j \<noteq> host then (Replied Conflict_409, s)
                   else case db_consume (ic_ledger s) (job_nonce (sg_job (jc_signed j))) job_id of
                          (Inl e, _) \<Rightarrow> (Replied Server_Error_500, s)
                        | (Inr False, _) \<Rightarrow> (Replied Conflict_409, s)
                        | (Inr True, db) \<Rightarrow>
                            if jc_phase j \<noteq> Waiting then (Replied Conflict_409, s)
                            else (Replied Ok_200,
                              s\<lparr>ic_cards := set_phase job_id (Has_Answer payload) (ic_cards s), ic_ledger := db\<rparr>))"
| "ideal_step hosts (Timer job_id) s =
     (Silent, s\<lparr>ic_cards := map (\<lambda>j. if jc_id j = job_id then give_up j else j) (ic_cards s)\<rparr>)"
| "ideal_step hosts (Wake job_id) s =
     (case card_of (ic_cards s) job_id of
        None \<Rightarrow> (Silent, s)
      | Some j \<Rightarrow>
          (case jc_phase j of
             Has_Answer p \<Rightarrow> (Returned (Answered p), s\<lparr>ic_cards := set_phase job_id Over (ic_cards s)\<rparr>)
           | Gave_Up \<Rightarrow> (Returned Dispatch_Timeout, s\<lparr>ic_cards := set_phase job_id Over (ic_cards s)\<rparr>)
           | _ \<Rightarrow> (Silent, s)))"

fun ideal_run :: "host_table \<Rightarrow> channel_event list \<Rightarrow> ideal_channel \<Rightarrow> channel_output list \<times> ideal_channel" where
  "ideal_run hosts [] s = ([], s)"
| "ideal_run hosts (ev # evs) s =
     (case ideal_step hosts ev s of (out, s) \<Rightarrow>
        (case ideal_run hosts evs s of (outs, s) \<Rightarrow> (out # outs, s)))"


section \<open>The queue keeps the promise\<close>

text \<open>How a card shows in the dictionaries: its future, while the dispatch has not ended.\<close>

fun phase_future :: "dispatch_phase \<Rightarrow> future option \<Rightarrow> bool" where
  "phase_future Waiting f = (f = Some Pending)"
| "phase_future (Has_Answer p) f = (f = Some (Resolved p))"
| "phase_future Gave_Up f = (f = Some Future_Cancelled \<or> (\<exists>r. f = Some (Future_Failed r)))"
| "phase_future Over f = (f = None)"

definition card_shows :: "job_queue \<Rightarrow> job_card \<Rightarrow> bool" where
  "card_shows q j \<longleftrightarrow> phase_future (jc_phase j) (jq_results q (jc_id j)) \<and>
     (let live = jc_phase j \<noteq> Over
      in jq_job_host q (jc_id j) = (if live then Some (jc_host j) else None) \<and>
         jq_job_nonce q (jc_id j) = (if live then Some (job_nonce (sg_job (jc_signed j))) else None))"

definition unclaimed :: "string \<Rightarrow> job_card list \<Rightarrow> (string \<times> signed_job) list" where
  "unclaimed host js = map (\<lambda>j. (jc_id j, jc_signed j)) (filter (\<lambda>j. jc_host j = host \<and> jc_unclaimed j) js)"

definition shows_queue :: "job_queue \<Rightarrow> job_card list \<Rightarrow> bool" where
  "shows_queue q js \<longleftrightarrow> distinct (map jc_id js) \<and> (\<forall>host. queue_for q host = unclaimed host js) \<and>
     (\<forall>j \<in> set js. card_shows q j) \<and>
     (\<forall>i. i \<notin> jc_id ` set js \<longrightarrow> jq_results q i = None \<and> jq_job_host q i = None \<and> jq_job_nonce q i = None)"

lemma card_of_Some: "distinct (map jc_id js) \<Longrightarrow> card_of js i = Some j \<longleftrightarrow> j \<in> set js \<and> jc_id j = i"
  by (induction js) (auto simp: card_of_def)

lemma card_of_None: "card_of js i = None \<longleftrightarrow> i \<notin> jc_id ` set js"
  by (induction js) (auto simp: card_of_def)

lemma unclaimed_simps [simp]:
  "unclaimed host [] = []"
  "unclaimed host (j # js) = (if jc_host j = host \<and> jc_unclaimed j then (jc_id j, jc_signed j) # unclaimed host js else unclaimed host js)"
  "unclaimed host (js @ ks) = unclaimed host js @ unclaimed host ks"
  by (auto simp: unclaimed_def)

lemma unclaimed_same_cards:
  assumes "\<And>j. jc_id (f j) = jc_id j \<and> jc_signed (f j) = jc_signed j \<and> jc_host (f j) = jc_host j \<and> jc_unclaimed (f j) = jc_unclaimed j"
  shows "unclaimed host (map f js) = unclaimed host js"
  using assms by (induction js) auto

text \<open>Changing one job's dictionary entries and its card together keeps the others' views.\<close>

lemma shows_queue_update:
  assumes "shows_queue q js" "\<And>j. jc_id (f j) = jc_id j \<and> jc_signed (f j) = jc_signed j \<and> jc_host (f j) = jc_host j \<and> jc_unclaimed (f j) = jc_unclaimed j"
    and "\<And>j. jc_id j \<noteq> i \<Longrightarrow> f j = j" "\<And>j. j \<in> set js \<Longrightarrow> jc_id j = i \<Longrightarrow> card_shows q' (f j)" "i \<in> jc_id ` set js"
    and "jq_queues q' = jq_queues q" "\<And>k. k \<noteq> i \<Longrightarrow> jq_results q' k = jq_results q k \<and> jq_job_host q' k = jq_job_host q k \<and> jq_job_nonce q' k = jq_job_nonce q k"
  shows "shows_queue q' (map f js)"
  unfolding shows_queue_def
proof (intro conjI ballI allI impI)
  show "distinct (map jc_id (map f js))" using assms(1,2) by (simp add: shows_queue_def comp_def)
  show "queue_for q' host = unclaimed host (map f js)" for host
    using assms(1,6) unclaimed_same_cards [of f, OF assms(2)] by (simp add: shows_queue_def queue_for_def)
next
  fix k assume "k \<in> set (map f js)"
  then obtain j where j: "j \<in> set js" "k = f j" by auto
  show "card_shows q' k"
  proof (cases "jc_id j = i")
    case True
    with j assms(4) show ?thesis by simp
  next
    case False
    with j assms(1,3,7) show ?thesis by (simp add: shows_queue_def card_shows_def)
  qed
next
  fix k assume k: "k \<notin> jc_id ` set (map f js)"
  then have "k \<notin> jc_id ` set js" using assms(2) by (force simp: image_image)
  moreover from this assms(5) have "k \<noteq> i" by blast
  ultimately show "jq_results q' k = None" "jq_job_host q' k = None" "jq_job_nonce q' k = None"
    using assms(1,7) by (simp_all add: shows_queue_def)
qed


lemma shows_issue:
  assumes "shows_queue q js" "i \<notin> jc_id ` set js"
  shows "shows_queue (enqueue_job i signed host q)
    (js @ [\<lparr>jc_id = i, jc_signed = signed, jc_host = host, jc_unclaimed = True, jc_phase = Waiting\<rparr>])"
proof -
  have "card_shows (enqueue_job i signed host q) j" if "j \<in> set js" for j
  proof -
    have "jc_id j \<noteq> i" using assms(2) that by auto
    then show ?thesis using assms(1) that by (simp add: shows_queue_def card_shows_def enqueue_job_def)
  qed
  then show ?thesis using assms
    by (auto simp: shows_queue_def card_shows_def enqueue_job_def queue_for_def Let_def)
qed

lemma fail_job_frame:
  "jq_queues (fail_job i r q) = jq_queues q" "jq_job_host (fail_job i r q) = jq_job_host q"
  "jq_job_nonce (fail_job i r q) = jq_job_nonce q" "k \<noteq> i \<Longrightarrow> jq_results (fail_job i r q) k = jq_results q k"
  by (auto simp: fail_job_def split: option.splits future.splits)

lemma fail_job_card:
  assumes "card_shows q j"
  shows "card_shows (fail_job (jc_id j) r q) (give_up (j\<lparr>jc_unclaimed := False\<rparr>))"
  using assms by (cases "jc_phase j") (auto simp: card_shows_def fail_job_def give_up_def Let_def split: option.splits future.splits)

lemma card_shows_claim: "card_shows q (j\<lparr>jc_unclaimed := b\<rparr>) = card_shows q j"
  by (simp add: card_shows_def)

lemma give_up_frame [simp]:
  "jc_id (give_up j) = jc_id j" "jc_signed (give_up j) = jc_signed j" "jc_host (give_up j) = jc_host j"
  "jc_unclaimed (give_up j) = jc_unclaimed j"
  by (simp_all add: give_up_def)

lemma card_shows_local:
  "jq_results q' (jc_id j) = jq_results q (jc_id j) \<Longrightarrow> jq_job_host q' = jq_job_host q \<Longrightarrow>
     jq_job_nonce q' = jq_job_nonce q \<Longrightarrow> card_shows q' j = card_shows q j"
  by (simp add: card_shows_def)

lemma poll_loop_hand_out:
  assumes "distinct (map jc_id js)" "\<forall>j \<in> set js. card_shows q j"
    and "poll_loop now (unclaimed host js) q = (c, rest, q')" "hand_out host now js = (d, js')"
  shows "c = map_option (\<lambda>j. (jc_id j, jc_signed j)) d \<and> rest = unclaimed host js' \<and>
    (\<forall>h. h \<noteq> host \<longrightarrow> unclaimed h js' = unclaimed h js) \<and> map jc_id js' = map jc_id js \<and>
    (\<forall>j \<in> set js'. card_shows q' j) \<and> jq_queues q' = jq_queues q \<and> jq_job_host q' = jq_job_host q \<and>
    jq_job_nonce q' = jq_job_nonce q \<and> (\<forall>k. k \<notin> jc_id ` set js \<longrightarrow> jq_results q' k = jq_results q k)"
  using assms
proof (induction js arbitrary: q c rest q' d js')
  case (Cons j js)
  have d: "distinct (map jc_id js)" "jc_id j \<notin> jc_id ` set js" using Cons.prems(1) by auto
  have shows_rest: "card_shows (fail_job (jc_id j) r q) k = card_shows q k" if "k \<in> set js" for k r
  proof -
    have "jc_id k \<noteq> jc_id j" using d(2) that by (metis imageI)
    then show ?thesis by (intro card_shows_local) (auto simp: fail_job_frame)
  qed
  show ?case
  proof (cases "jc_host j \<noteq> host \<or> \<not> jc_unclaimed j")
    case True
    obtain e ks where ho: "hand_out host now js = (e, ks)" by fastforce
    have "poll_loop now (unclaimed host js) q = (c, rest, q')" using Cons.prems(3) True by auto
    note IH = Cons.IH [OF d(1) _ this ho]
    have "jq_results q' (jc_id j) = jq_results q (jc_id j)" "jq_job_host q' = jq_job_host q" "jq_job_nonce q' = jq_job_nonce q"
      using IH Cons.prems(2) d(2) by auto
    then have "card_shows q' j" using card_shows_local [of q' j q] Cons.prems(2) by simp
    with IH Cons.prems ho True show ?thesis by auto
  next
    case here: False
    show ?thesis
    proof (cases "job_expired (jc_signed j) now")
      case False
      with Cons.prems here show ?thesis by (auto simp: card_shows_claim)
    next
      case True
      obtain e ks where ho: "hand_out host now js = (e, ks)" by fastforce
      let ?r = "''job expired before an agent claimed it''"
      have "poll_loop now (unclaimed host js) (fail_job (jc_id j) ?r q) = (c, rest, q')"
        using Cons.prems(3) here True by auto
      note IH = Cons.IH [OF d(1) _ this ho]
      have IH: "c = map_option (\<lambda>j. (jc_id j, jc_signed j)) e \<and> rest = unclaimed host ks \<and>
          (\<forall>h. h \<noteq> host \<longrightarrow> unclaimed h ks = unclaimed h js) \<and> map jc_id ks = map jc_id js \<and>
          (\<forall>j \<in> set ks. card_shows q' j) \<and> jq_queues q' = jq_queues q \<and> jq_job_host q' = jq_job_host q \<and>
          jq_job_nonce q' = jq_job_nonce q \<and> (\<forall>k. k \<notin> jc_id ` set js \<longrightarrow> jq_results q' k = jq_results (fail_job (jc_id j) ?r q) k)"
        using IH Cons.prems(2) shows_rest by (auto simp: fail_job_frame)
      have "card_shows (fail_job (jc_id j) ?r q) (give_up (j\<lparr>jc_unclaimed := False\<rparr>))"
        using fail_job_card [of q j] Cons.prems(2) by simp
      moreover have "jq_results q' (jc_id j) = jq_results (fail_job (jc_id j) ?r q) (jc_id j)" using IH d(2) by blast
      ultimately have "card_shows q' (give_up (j\<lparr>jc_unclaimed := False\<rparr>))"
        using IH card_shows_local [of q' "give_up (j\<lparr>jc_unclaimed := False\<rparr>)" "fail_job (jc_id j) ?r q"]
        by (simp add: fail_job_frame)
      with IH Cons.prems(4) ho here True show ?thesis by (auto simp: fail_job_frame)
    qed
  qed
qed auto

lemma shows_poll:
  assumes "shows_queue q js" "poll host now q = (c, q')" "hand_out host now js = (d, js')"
  shows "c = map_option (\<lambda>j. (jc_id j, jc_signed j)) d \<and> shows_queue q' js' \<and> map jc_id js' = map jc_id js"
proof -
  have q: "queue_for q host = unclaimed host js" using assms(1) by (simp add: shows_queue_def)
  obtain rest v where l: "poll_loop now (unclaimed host js) q = (c, rest, v)" and q': "q' = v\<lparr>jq_queues := (jq_queues v)(host \<mapsto> rest)\<rparr>"
    using assms(2) q by (auto simp: poll_def split: prod.splits)
  have L: "c = map_option (\<lambda>j. (jc_id j, jc_signed j)) d" "rest = unclaimed host js'"
      "\<forall>h. h \<noteq> host \<longrightarrow> unclaimed h js' = unclaimed h js" "map jc_id js' = map jc_id js"
      "\<forall>j \<in> set js'. card_shows v j" "jq_queues v = jq_queues q" "jq_job_host v = jq_job_host q"
      "jq_job_nonce v = jq_job_nonce q" "\<forall>k. k \<notin> jc_id ` set js \<longrightarrow> jq_results v k = jq_results q k"
    using poll_loop_hand_out [OF _ _ l assms(3)] assms(1) by (auto simp: shows_queue_def)
  have ids: "jc_id ` set js' = jc_id ` set js" using arg_cong [OF L(4), of set] by simp
  have "queue_for q' h = unclaimed h js'" for h
    using L assms(1) q' by (cases "h = host") (auto simp: queue_for_def shows_queue_def)
  moreover have "card_shows q' j" if "j \<in> set js'" for j
    using L(5) that q' by (simp add: card_shows_def)
  ultimately show ?thesis using L assms(1) q' ids unfolding shows_queue_def by auto
qed


lemma ids_set_phase [simp]: "jc_id ` set (set_phase i ph js) = jc_id ` set js"
proof -
  have "map jc_id (set_phase i ph js) = map jc_id js" by (simp add: set_phase_def)
  then show ?thesis by (metis list.set_map)
qed

lemma set_phase_mem: "k \<in> set (set_phase i ph js) \<Longrightarrow> jc_id k = i \<Longrightarrow> jc_phase k = ph"
proof -
  assume k: "k \<in> set (set_phase i ph js)" "jc_id k = i"
  from k(1) obtain j where "k = (if jc_id j = i then j\<lparr>jc_phase := ph\<rparr> else j)" unfolding set_phase_def set_map by (rule imageE)
  with k(2) show ?thesis by (cases "jc_id j = i") simp_all
qed

definition shows_channel :: "channel \<Rightarrow> ideal_channel \<Rightarrow> bool" where
  "shows_channel c s \<longleftrightarrow> shows_queue (cn_queue c) (ic_cards s) \<and> cn_ledger c = ic_ledger s"

fun fresh_for :: "channel_event \<Rightarrow> job_card list \<Rightarrow> bool" where
  "fresh_for (Issue i signed host) js = (i \<notin> jc_id ` set js)"
| "fresh_for _ js = True"

lemma shows_card:
  assumes "shows_queue q js" "card_of js i = Some j"
  shows "j \<in> set js" "jc_id j = i" "card_shows q j"
  using assms card_of_Some [of js i j] by (auto simp: shows_queue_def)

lemma shows_no_card:
  assumes "shows_queue q js" "card_of js i = None"
  shows "jq_results q i = None" "jq_job_host q i = None" "jq_job_nonce q i = None"
  using assms by (auto simp: shows_queue_def card_of_None)

lemma shows_set_phase:
  assumes "shows_queue q js" "card_of js i = Some j" "jq_queues q' = jq_queues q"
    and "\<And>k. k \<noteq> i \<Longrightarrow> jq_results q' k = jq_results q k \<and> jq_job_host q' k = jq_job_host q k \<and> jq_job_nonce q' k = jq_job_nonce q k"
    and "card_shows q' (j\<lparr>jc_phase := ph\<rparr>)"
  shows "shows_queue q' (set_phase i ph js)"
  unfolding set_phase_def
proof (rule shows_queue_update [OF assms(1), where i = i])
  fix k assume k: "k \<in> set js" "jc_id k = i"
  have "card_of js i = Some k" using k assms(1) card_of_Some [of js i k] by (simp add: shows_queue_def)
  with assms(2,5) k show "card_shows q' (if jc_id k = i then k\<lparr>jc_phase := ph\<rparr> else k)" by simp
qed (use assms shows_card [OF assms(1,2)] in auto)

lemma shows_submit:
  assumes "shows_channel c s" "channel_step hosts (Post_Result fp i p) c = (out, c')" "ideal_step hosts (Post_Result fp i p) s = (out', s')"
  shows "out = out' \<and> shows_channel c' s' \<and> jc_id ` set (ic_cards s') = jc_id ` set (ic_cards s)"
proof -
  note q = assms(1) [unfolded shows_channel_def, THEN conjunct1]
  show ?thesis
  proof (cases "hosts fp = None \<or> jp_job_id p \<noteq> i \<or> card_of (ic_cards s) i = None")
    case True
    with assms shows_no_card [OF q] show ?thesis
      by (auto simp: submit_job_result_def owner_of_def split: option.splits if_splits)
  next
    case False
    then obtain host j where h: "hosts fp = Some host" "jp_job_id p = i" "card_of (ic_cards s) i = Some j" by auto
    note j = shows_card [OF q h(3)]
    have own: "jq_job_host (cn_queue c) i = (if jc_phase j = Over then None else Some (jc_host j))"
      "jq_job_nonce (cn_queue c) i = (if jc_phase j = Over then None else Some (job_nonce (sg_job (jc_signed j))))"
      using j by (auto simp: card_shows_def Let_def)
    show ?thesis
    proof (cases "jc_phase j = Over \<or> jc_host j \<noteq> host")
      case True
      then have "jq_job_host (cn_queue c) i = None \<or> jq_job_host (cn_queue c) i \<noteq> Some host" using own by auto
      then have "submit_job_result hosts fp i p (cn_queue c, cn_ledger c) = (Conflict_409, cn_queue c, cn_ledger c)"
        using h by (simp add: submit_job_result_def owner_of_def)
      with assms h True show ?thesis by (auto simp: shows_channel_def)
    next
      case live: False
      obtain r db where db: "db_consume (ic_ledger s) (job_nonce (sg_job (jc_signed j))) i = (r, db)" by fastforce
      have led: "cn_ledger c = ic_ledger s" using assms(1) by (simp add: shows_channel_def)
      show ?thesis
      proof (cases "r = Inr True \<and> jc_phase j = Waiting")
        case False
        have "jq_results (cn_queue c) i \<noteq> Some Pending" if "jc_phase j \<noteq> Waiting"
          using j that by (cases "jc_phase j") (auto simp: card_shows_def)
        then have "resolve host p (cn_queue c) = Inl Already_Resolved" if "jc_phase j \<noteq> Waiting"
          using that own live h(2) by (auto simp: resolve_def split: option.splits future.splits)
        with False assms h own live db led show ?thesis
          by (cases r) (auto simp: submit_job_result_def owner_of_def nonce_of_def shows_channel_def split: bool.splits)
      next
        case True
        let ?q = "cn_queue c\<lparr>jq_results := (jq_results (cn_queue c))(i \<mapsto> Resolved p)\<rparr>"
        have "jq_results (cn_queue c) i = Some Pending" using j True by (simp add: card_shows_def)
        then have "resolve host p (cn_queue c) = Inr ?q" using own live h(2) by (simp add: resolve_def)
        with True assms h own live db led
        have out: "out = Replied Ok_200" "out' = Replied Ok_200" "c' = c\<lparr>cn_queue := ?q, cn_ledger := db\<rparr>"
          "s' = s\<lparr>ic_cards := set_phase i (Has_Answer p) (ic_cards s), ic_ledger := db\<rparr>"
          by (auto simp: submit_job_result_def owner_of_def nonce_of_def)
        have "shows_queue ?q (set_phase i (Has_Answer p) (ic_cards s))"
          by (rule shows_set_phase [OF q h(3)]) (use j live in \<open>auto simp: card_shows_def Let_def\<close>)
        with out show ?thesis by (simp add: shows_channel_def)
      qed
    qed
  qed
qed

lemma shows_wake:
  assumes "shows_channel c s" "channel_step hosts (Wake i) c = (out, c')" "ideal_step hosts (Wake i) s = (out', s')"
  shows "out = out' \<and> shows_channel c' s' \<and> jc_id ` set (ic_cards s') = jc_id ` set (ic_cards s)"
proof -
  note q = assms(1) [unfolded shows_channel_def, THEN conjunct1]
  show ?thesis
  proof (cases "card_of (ic_cards s) i")
    case None
    with assms shows_no_card [OF q None] show ?thesis by (auto simp: wake_def)
  next
    case (Some j)
    note j = shows_card [OF q Some]
    have over: "shows_queue (forget_job i (cn_queue c)) (set_phase i Over (ic_cards s))"
      by (rule shows_set_phase [OF q Some]) (use j in \<open>auto simp: forget_job_def card_shows_def Let_def\<close>)
    show ?thesis
    proof (cases "jc_phase j = Waiting \<or> jc_phase j = Over")
      case True
      with assms Some j show ?thesis by (auto simp: wake_def card_shows_def)
    next
      case False
      then obtain o1 where "wake i (cn_queue c) = (o1, forget_job i (cn_queue c))"
        and "ideal_step hosts (Wake i) s = (o1, s\<lparr>ic_cards := set_phase i Over (ic_cards s)\<rparr>)"
        using Some j by (cases "jc_phase j") (auto simp: wake_def card_shows_def)
      with assms have "out = o1" "out' = o1" "c' = c\<lparr>cn_queue := forget_job i (cn_queue c)\<rparr>"
        "s' = s\<lparr>ic_cards := set_phase i Over (ic_cards s)\<rparr>" by simp_all
      with assms(1) over show ?thesis by (simp add: shows_channel_def)
    qed
  qed
qed

lemma shows_timer:
  assumes "shows_channel c s" "channel_step hosts (Timer i) c = (out, c')" "ideal_step hosts (Timer i) s = (out', s')"
  shows "out = out' \<and> shows_channel c' s' \<and> jc_id ` set (ic_cards s') = jc_id ` set (ic_cards s)"
proof -
  note q = assms(1) [unfolded shows_channel_def, THEN conjunct1]
  let ?js = "map (\<lambda>j. if jc_id j = i then give_up j else j) (ic_cards s)"
  have "shows_queue (time_out i (cn_queue c)) ?js"
  proof (cases "card_of (ic_cards s) i")
    case None
    then have "?js = ic_cards s" by (intro map_idI) (auto simp: card_of_None)
    with q shows_no_card [OF q None] show ?thesis by (simp add: time_out_def)
  next
    case (Some j)
    note j = shows_card [OF q Some]
    show ?thesis
    proof (rule shows_queue_update [OF q, where i = i])
      fix k assume k: "k \<in> set (ic_cards s)" "jc_id k = i"
      have "card_of (ic_cards s) i = Some k" using k q card_of_Some [of "ic_cards s" i k] by (simp add: shows_queue_def)
      with Some have "k = j" by simp
      with j show "card_shows (time_out i (cn_queue c)) (if jc_id k = i then give_up k else k)"
        by (cases "jc_phase j") (auto simp: card_shows_def time_out_def give_up_def Let_def)
    qed (use j in \<open>auto simp: time_out_def split: option.splits future.splits\<close>)
  qed
  moreover have "jc_id ` set ?js = jc_id ` set (ic_cards s)"
  proof -
    have "map jc_id ?js = map jc_id (ic_cards s)" by simp
    then show ?thesis by (metis list.set_map)
  qed
  ultimately show ?thesis using assms by (auto simp: shows_channel_def)
qed

lemma shows_poll_request:
  assumes "shows_channel c s" "channel_step hosts (Poll_Request fp now) c = (out, c')" "ideal_step hosts (Poll_Request fp now) s = (out', s')"
  shows "out = out' \<and> shows_channel c' s' \<and> jc_id ` set (ic_cards s') = jc_id ` set (ic_cards s)"
proof (cases "hosts fp")
  case None
  with assms show ?thesis by (simp add: poll_job_def)
next
  case (Some host)
  note q = assms(1) [unfolded shows_channel_def, THEN conjunct1]
  obtain d js where ho: "hand_out host now (ic_cards s) = (d, js)" by fastforce
  obtain r q' where p: "poll host now (cn_queue c) = (r, q')" by fastforce
  note S = shows_poll [OF q p ho]
  then have "jc_id ` set js = jc_id ` set (ic_cards s)" by (metis list.set_map)
  with S assms Some ho p show ?thesis
    by (cases d) (auto simp: poll_job_def shows_channel_def)
qed

lemma channel_step_shows:
  assumes "shows_channel c s" "fresh_for ev (ic_cards s)" "channel_step hosts ev c = (out, c')" "ideal_step hosts ev s = (out', s')"
  shows "out = out' \<and> shows_channel c' s' \<and>
    jc_id ` set (ic_cards s') = jc_id ` set (ic_cards s) \<union> (case ev of Issue i signed host \<Rightarrow> {i} | _ \<Rightarrow> {})"
proof (cases ev)
  case (Issue i signed host)
  with assms shows_issue [of "cn_queue c" "ic_cards s" i signed host] show ?thesis
    by (auto simp: shows_channel_def)
next
  case (Poll_Request fp now)
  with shows_poll_request [of c s hosts fp now out c' out' s'] assms show ?thesis by simp
next
  case (Post_Result fp i p)
  with shows_submit [of c s hosts fp i p out c' out' s'] assms show ?thesis by simp
next
  case (Timer i)
  with shows_timer [of c s hosts i out c' out' s'] assms show ?thesis by simp
next
  case (Wake i)
  with shows_wake [of c s hosts i out c' out' s'] assms show ?thesis by simp
qed


fun issue_ids :: "channel_event list \<Rightarrow> string list" where
  "issue_ids [] = []"
| "issue_ids (Issue i signed host # evs) = i # issue_ids evs"
| "issue_ids (_ # evs) = issue_ids evs"

lemma channel_run_shows:
  assumes "shows_channel c s" "distinct (issue_ids evs)" "jc_id ` set (ic_cards s) \<inter> set (issue_ids evs) = {}"
    and "channel_run hosts evs c = (outs, c')" "ideal_run hosts evs s = (outs', s')"
  shows "outs = outs' \<and> shows_channel c' s'"
  using assms
proof (induction evs arbitrary: c s outs outs')
  case (Cons ev evs)
  obtain out v where c: "channel_step hosts ev c = (out, v)" by fastforce
  obtain out' u where s: "ideal_step hosts ev s = (out', u)" by fastforce
  have "fresh_for ev (ic_cards s)" using Cons.prems(3) by (cases ev) auto
  note step = channel_step_shows [OF Cons.prems(1) this c s]
  have "distinct (issue_ids evs)" "jc_id ` set (ic_cards u) \<inter> set (issue_ids evs) = {}"
    using Cons.prems(2,3) step by (cases ev; auto)+
  with Cons.IH [of v u] step Cons.prems(4,5) c s show ?case by (auto split: prod.splits)
qed auto

definition channel_new :: "db_ledger \<Rightarrow> channel" where
  "channel_new db = \<lparr>cn_queue = job_queue_new, cn_ledger = db\<rparr>"

definition ideal_new :: "db_ledger \<Rightarrow> ideal_channel" where
  "ideal_new db = \<lparr>ic_cards = [], ic_ledger = db\<rparr>"

text \<open>C21. The queue refines its promise: with tokens drawn afresh, whatever the order of issued jobs, polls,
  posted results, timers and wake-ups, the queues and dictionaries answer every request exactly as the
  list of job records does, and end in a state that shows the same jobs.\<close>

theorem channel_refines_cards:
  assumes "distinct (issue_ids evs)"
  shows "fst (channel_run hosts evs (channel_new db)) = fst (ideal_run hosts evs (ideal_new db)) \<and>
    shows_channel (snd (channel_run hosts evs (channel_new db))) (snd (ideal_run hosts evs (ideal_new db)))"
proof -
  have "shows_channel (channel_new db) (ideal_new db)"
    by (simp add: shows_channel_def channel_new_def ideal_new_def shows_queue_def job_queue_new_def queue_for_def)
  from channel_run_shows [OF this assms _ prod.collapse [symmetric] prod.collapse [symmetric]] show ?thesis
    by (simp add: ideal_new_def)
qed

section \<open>What the promise gives\<close>

text \<open>What a step may do to a job's card.\<close>

definition evolves :: "host_table \<Rightarrow> channel_event \<Rightarrow> job_card \<Rightarrow> job_card \<Rightarrow> bool" where
  "evolves hosts ev j k \<longleftrightarrow> jc_id k = jc_id j \<and> jc_signed k = jc_signed j \<and> jc_host k = jc_host j \<and>
     (jc_unclaimed k \<longrightarrow> jc_unclaimed j) \<and> (jc_phase j = Over \<longrightarrow> jc_phase k = Over) \<and>
     (\<forall>p. jc_phase k = Has_Answer p \<longrightarrow> jc_phase j = Has_Answer p \<or>
       (\<exists>fp. ev = Post_Result fp (jc_id j) p \<and> jp_job_id p = jc_id j \<and> hosts fp = Some (jc_host j)))"

lemma evolves_refl [simp]: "evolves hosts ev j j"
  by (simp add: evolves_def)

lemma evolves_give_up [simp]: "evolves hosts ev j (give_up j)" "evolves hosts ev j (give_up (j\<lparr>jc_unclaimed := False\<rparr>))"
    "evolves hosts ev j (j\<lparr>jc_unclaimed := False\<rparr>)"
  by (auto simp: evolves_def give_up_def)

lemma hand_out_cards:
  "hand_out host now js = (c, ks) \<Longrightarrow> list_all2 (evolves hosts ev) js ks \<and>
     (\<forall>j. c = Some j \<longrightarrow> j \<in> set js \<and> jc_host j = host \<and> jc_unclaimed j \<and> \<not> job_expired (jc_signed j) now \<and>
        (distinct (map jc_id js) \<longrightarrow> (\<forall>k \<in> set ks. jc_id k = jc_id j \<longrightarrow> \<not> jc_unclaimed k)))"
proof (induction js arbitrary: c ks)
  case (Cons j js)
  have ids: "map jc_id ks = map jc_id js" if "list_all2 (evolves hosts ev) js ks" for js ks
    using that by (induction rule: list_all2_induct) (auto simp: evolves_def)
  show ?case
  proof (cases "jc_host j \<noteq> host \<or> \<not> jc_unclaimed j \<or> job_expired (jc_signed j) now")
    case True
    obtain d ls where ho: "hand_out host now js = (d, ls)" by fastforce
    note IH = Cons.IH [OF ho]
    obtain k where ks: "c = d" "ks = k # ls" "evolves hosts ev j k" "jc_id k = jc_id j"
      using Cons.prems True ho by (auto split: if_splits)
    with IH show ?thesis by (auto simp: image_iff)
  next
    case False
    with Cons.prems have ks: "c = Some j" "ks = j\<lparr>jc_unclaimed := False\<rparr> # js" by auto
    have "list_all2 (evolves hosts ev) js js" by (simp add: list_all2_same)
    moreover have "\<forall>k \<in> set js. jc_id k \<noteq> jc_id j" if "distinct (map jc_id (j # js))" using that by (auto simp: image_iff)
    ultimately show ?thesis using False ks by auto
  qed
qed auto


lemma ideal_step_cards:
  assumes "ideal_step hosts ev s = (out, s')" "distinct (map jc_id (ic_cards s))"
  shows "\<exists>ks. list_all2 (evolves hosts ev) (ic_cards s) ks \<and> ic_cards s' = ks @ (case ev of
      Issue i signed host \<Rightarrow> [\<lparr>jc_id = i, jc_signed = signed, jc_host = host, jc_unclaimed = True, jc_phase = Waiting\<rparr>] | _ \<Rightarrow> [])"
proof -
  have same: "list_all2 (evolves hosts ev) js js" for js by (simp add: list_all2_same)
  have over: "list_all2 (evolves hosts ev) js (set_phase i Over js)" for i js
    by (auto simp: set_phase_def list_all2_map2 list_all2_same evolves_def)
  show ?thesis
  proof (cases ev)
    case (Issue i signed host)
    with assms same show ?thesis by (intro exI [of _ "ic_cards s"]) auto
  next
    case (Poll_Request fp now)
    show ?thesis
    proof (cases "hosts fp")
      case None
      with assms Poll_Request same show ?thesis by (intro exI [of _ "ic_cards s"]) auto
    next
      case (Some host)
      obtain c ks where ho: "hand_out host now (ic_cards s) = (c, ks)" by fastforce
      with assms Poll_Request Some hand_out_cards [OF ho] show ?thesis
        by (intro exI [of _ ks]) (auto split: option.splits)
    qed
  next
    case (Post_Result fp i p)
    show ?thesis
    proof (cases "ic_cards s' = ic_cards s")
      case True
      with Post_Result same show ?thesis by (intro exI [of _ "ic_cards s"]) auto
    next
      case False
      from assms Post_Result False obtain host j where h: "hosts fp = Some host" "jp_job_id p = i" "card_of (ic_cards s) i = Some j"
        by (auto split: option.splits if_splits)
      with assms Post_Result False have j: "jc_host j = host" "jc_phase j = Waiting" "ic_cards s' = set_phase i (Has_Answer p) (ic_cards s)"
        by (auto split: if_splits prod.splits sum.splits bool.splits)
      have "k = j" if "k \<in> set (ic_cards s)" "jc_id k = i" for k
        using that h(3) assms(2) card_of_Some [of "ic_cards s" i k] by simp
      then have "list_all2 (evolves hosts ev) (ic_cards s) (set_phase i (Has_Answer p) (ic_cards s))"
        using h j Post_Result by (auto simp: set_phase_def list_all2_map2 list_all2_same evolves_def)
      with j(3) Post_Result show ?thesis by auto
    qed
  next
    case (Timer i)
    have "list_all2 (evolves hosts ev) (ic_cards s) (map (\<lambda>j. if jc_id j = i then give_up j else j) (ic_cards s))"
      by (simp add: list_all2_map2 list_all2_same)
    with assms Timer show ?thesis by auto
  next
    case (Wake i)
    with assms have "ic_cards s' = ic_cards s \<or> ic_cards s' = set_phase i Over (ic_cards s)"
      by (auto split: option.splits dispatch_phase.splits)
    with same over Wake show ?thesis by auto
  qed
qed

lemma list_all2_right: "list_all2 P xs ys \<Longrightarrow> y \<in> set ys \<Longrightarrow> \<exists>x \<in> set xs. P x y"
  by (induction rule: list_all2_induct) auto

lemma evolves_ids: "list_all2 (evolves hosts ev) js ks \<Longrightarrow> map jc_id ks = map jc_id js"
  by (induction rule: list_all2_induct) (auto simp: evolves_def)

lemma ideal_step_ids:
  assumes "ideal_step hosts ev s = (out, s')" "distinct (map jc_id (ic_cards s) @ issue_ids (ev # evs))"
  shows "distinct (map jc_id (ic_cards s') @ issue_ids evs)"
proof -
  from assms(2) have "distinct (map jc_id (ic_cards s))" by simp
  from ideal_step_cards [OF assms(1) this] obtain ks where "list_all2 (evolves hosts ev) (ic_cards s) ks" and
    "ic_cards s' = ks @ (case ev of
      Issue i signed host \<Rightarrow> [\<lparr>jc_id = i, jc_signed = signed, jc_host = host, jc_unclaimed = True, jc_phase = Waiting\<rparr>] | _ \<Rightarrow> [])"
    by blast
  with assms(2) evolves_ids [of hosts ev "ic_cards s" ks] show ?thesis by (cases ev) auto
qed

lemma ideal_step_back:
  assumes "ideal_step hosts ev s = (out, s')" "distinct (map jc_id (ic_cards s))" "k \<in> set (ic_cards s')"
  shows "(\<exists>j \<in> set (ic_cards s). evolves hosts ev j k) \<or>
    (\<exists>i signed host. ev = Issue i signed host \<and> k = \<lparr>jc_id = i, jc_signed = signed, jc_host = host, jc_unclaimed = True, jc_phase = Waiting\<rparr>)"
  using ideal_step_cards [OF assms(1,2)] assms(3) list_all2_right [of "evolves hosts ev" "ic_cards s" _ k]
  by (cases ev) fastforce+

text \<open>The claims and the answers of a run.\<close>

fun claims :: "channel_event list \<Rightarrow> channel_output list \<Rightarrow> (string \<times> string \<times> signed_job \<times> int) list" where
  "claims (Poll_Request fp now # evs) (Claimed host i signed # outs) = (i, host, signed, now) # claims evs outs"
| "claims (ev # evs) (out # outs) = claims evs outs"
| "claims _ _ = []"

fun answers :: "channel_event list \<Rightarrow> channel_output list \<Rightarrow> (string \<times> job_payload) list" where
  "answers (Wake i # evs) (Returned (Answered p) # outs) = (i, p) # answers evs outs"
| "answers (ev # evs) (out # outs) = answers evs outs"
| "answers _ _ = []"

lemma claims_step: "claims (ev # evs) (out # outs) = (case (ev, out) of
    (Poll_Request fp now, Claimed host i signed) \<Rightarrow> (i, host, signed, now) # claims evs outs | _ \<Rightarrow> claims evs outs)"
  by (cases ev; cases out) auto

lemma answers_step: "answers (ev # evs) (out # outs) = (case (ev, out) of
    (Wake i, Returned (Answered p)) \<Rightarrow> (i, p) # answers evs outs | _ \<Rightarrow> answers evs outs)"
  by (cases ev; cases out) (auto split: dispatch_outcome.splits)


definition issued_as :: "channel_event list \<Rightarrow> job_card list \<Rightarrow> string \<Rightarrow> signed_job \<Rightarrow> string \<Rightarrow> bool" where
  "issued_as evs js i signed host \<longleftrightarrow> Issue i signed host \<in> set evs \<or>
     (\<exists>j \<in> set js. jc_id j = i \<and> jc_signed j = signed \<and> jc_host j = host)"

lemma issued_as_step:
  assumes "ideal_step hosts ev s = (out, s')" "distinct (map jc_id (ic_cards s))" "issued_as evs (ic_cards s') i signed host"
  shows "issued_as (ev # evs) (ic_cards s) i signed host"
  using assms(3) ideal_step_back [OF assms(1,2)] by (fastforce simp: issued_as_def evolves_def)

lemma ideal_claims:
  assumes "ideal_run hosts evs s = (outs, s')" "distinct (map jc_id (ic_cards s) @ issue_ids evs)"
  shows "distinct (map fst (claims evs outs)) \<and> (\<forall>(i, host, signed, now) \<in> set (claims evs outs).
     \<not> job_expired signed now \<and> issued_as evs (ic_cards s) i signed host \<and>
     (i \<in> set (issue_ids evs) \<or> (\<exists>j \<in> set (ic_cards s). jc_id j = i \<and> jc_unclaimed j)))"
  using assms
proof (induction evs arbitrary: s outs)
  case (Cons ev evs)
  obtain out u where s: "ideal_step hosts ev s = (out, u)" by fastforce
  obtain os where outs: "outs = out # os" "ideal_run hosts evs u = (os, s')"
    using Cons.prems(1) s by (auto split: prod.splits)
  have dist: "distinct (map jc_id (ic_cards s))" using Cons.prems(2) by simp
  note d = ideal_step_ids [OF s Cons.prems(2)]
  note IH = Cons.IH [OF outs(2) d]
  have older: "i \<in> set (issue_ids (ev # evs)) \<or> (\<exists>j \<in> set (ic_cards s). jc_id j = i \<and> jc_unclaimed j)"
    if "i \<in> set (issue_ids evs) \<or> (\<exists>j \<in> set (ic_cards u). jc_id j = i \<and> jc_unclaimed j)" for i
  proof (cases "i \<in> set (issue_ids evs)")
    case True
    then show ?thesis by (cases ev) auto
  next
    case False
    with that obtain k where "k \<in> set (ic_cards u)" "jc_id k = i" "jc_unclaimed k" by auto
    with ideal_step_back [OF s dist, of k] show ?thesis by (auto simp: evolves_def)
  qed
  have rest: "\<forall>(i, host, signed, now) \<in> set (claims evs os).
     \<not> job_expired signed now \<and> issued_as (ev # evs) (ic_cards s) i signed host \<and>
     (i \<in> set (issue_ids (ev # evs)) \<or> (\<exists>j \<in> set (ic_cards s). jc_id j = i \<and> jc_unclaimed j))"
  proof (intro ballI, clarify)
    fix i host signed now assume a: "(i, host, signed, now) \<in> set (claims evs os)"
    from IH a have "\<not> job_expired signed now" "issued_as evs (ic_cards u) i signed host"
      "i \<in> set (issue_ids evs) \<or> (\<exists>j \<in> set (ic_cards u). jc_id j = i \<and> jc_unclaimed j)" by blast+
    with older [OF this(3)] issued_as_step [OF s dist this(2)]
    show "\<not> job_expired signed now \<and> issued_as (ev # evs) (ic_cards s) i signed host \<and>
     (i \<in> set (issue_ids (ev # evs)) \<or> (\<exists>j \<in> set (ic_cards s). jc_id j = i \<and> jc_unclaimed j))" by simp
  qed
  show ?case
  proof (cases "\<exists>fp now host i signed. ev = Poll_Request fp now \<and> out = Claimed host i signed")
    case False
    then have "claims (ev # evs) outs = claims evs os" unfolding outs(1) by (cases ev; cases out) auto
    with IH rest show ?thesis by simp
  next
    case True
    then obtain fp now host i signed where ev: "ev = Poll_Request fp now" "out = Claimed host i signed" by blast
    with s obtain j ks where ho: "hosts fp = Some host" "hand_out host now (ic_cards s) = (Some j, ks)" "i = jc_id j" "signed = jc_signed j"
      "ic_cards u = ks" by (auto split: option.splits prod.splits)
    have H: "j \<in> set (ic_cards s)" "jc_host j = host" "jc_unclaimed j" "\<not> job_expired (jc_signed j) now"
      "\<forall>k \<in> set ks. jc_id k = jc_id j \<longrightarrow> \<not> jc_unclaimed k"
      using hand_out_cards [OF ho(2), of hosts ev] dist by auto
    have "jc_id j \<notin> set (issue_ids evs)" using Cons.prems(2) H(1) ev(1) by auto
    have "i \<notin> fst ` set (claims evs os)"
    proof
      assume "i \<in> fst ` set (claims evs os)"
      then obtain host' signed' now' where "(i, host', signed', now') \<in> set (claims evs os)" by auto
      with IH have "i \<in> set (issue_ids evs) \<or> (\<exists>j \<in> set (ic_cards u). jc_id j = i \<and> jc_unclaimed j)" by blast
      with \<open>jc_id j \<notin> set (issue_ids evs)\<close> H(5) ho(3,5) show False by auto
    qed
    moreover have "claims (ev # evs) outs = (i, host, signed, now) # claims evs os" using ev outs(1) by simp
    moreover have "issued_as (ev # evs) (ic_cards s) i signed host" using H(1,2) ho(3,4) by (auto simp: issued_as_def)
    ultimately show ?thesis using IH rest H ho(3,4) by auto
  qed
qed auto

lemma ideal_answers:
  assumes "ideal_run hosts evs s = (outs, s')" "distinct (map jc_id (ic_cards s) @ issue_ids evs)"
  shows "distinct (map fst (answers evs outs)) \<and> (\<forall>(i, p) \<in> set (answers evs outs).
     (i \<in> set (issue_ids evs) \<or> (\<exists>j \<in> set (ic_cards s). jc_id j = i \<and> jc_phase j \<noteq> Over)) \<and>
     ((\<exists>j \<in> set (ic_cards s). jc_id j = i \<and> jc_phase j = Has_Answer p) \<or>
      (\<exists>fp host signed. Post_Result fp i p \<in> set evs \<and> jp_job_id p = i \<and> hosts fp = Some host \<and> issued_as evs (ic_cards s) i signed host)))"
  using assms
proof (induction evs arbitrary: s outs)
  case (Cons ev evs)
  obtain out u where s: "ideal_step hosts ev s = (out, u)" by fastforce
  obtain os where outs: "outs = out # os" "ideal_run hosts evs u = (os, s')"
    using Cons.prems(1) s by (auto split: prod.splits)
  have dist: "distinct (map jc_id (ic_cards s))" using Cons.prems(2) by simp
  note d = ideal_step_ids [OF s Cons.prems(2)]
  note IH = Cons.IH [OF outs(2) d]
  have live: "i \<in> set (issue_ids (ev # evs)) \<or> (\<exists>j \<in> set (ic_cards s). jc_id j = i \<and> jc_phase j \<noteq> Over)"
    if "i \<in> set (issue_ids evs) \<or> (\<exists>j \<in> set (ic_cards u). jc_id j = i \<and> jc_phase j \<noteq> Over)" for i
  proof (cases "i \<in> set (issue_ids evs)")
    case True
    then show ?thesis by (cases ev) auto
  next
    case False
    with that obtain k where "k \<in> set (ic_cards u)" "jc_id k = i" "jc_phase k \<noteq> Over" by auto
    with ideal_step_back [OF s dist, of k] show ?thesis by (auto simp: evolves_def)
  qed
  have origin: "(\<exists>j \<in> set (ic_cards s). jc_id j = i \<and> jc_phase j = Has_Answer p) \<or>
      (\<exists>fp host signed. Post_Result fp i p \<in> set (ev # evs) \<and> jp_job_id p = i \<and> hosts fp = Some host \<and> issued_as (ev # evs) (ic_cards s) i signed host)"
    if "(\<exists>j \<in> set (ic_cards u). jc_id j = i \<and> jc_phase j = Has_Answer p) \<or>
      (\<exists>fp host signed. Post_Result fp i p \<in> set evs \<and> jp_job_id p = i \<and> hosts fp = Some host \<and> issued_as evs (ic_cards u) i signed host)" for i p
    using that
  proof
    assume "\<exists>j \<in> set (ic_cards u). jc_id j = i \<and> jc_phase j = Has_Answer p"
    then obtain k where k: "k \<in> set (ic_cards u)" "jc_id k = i" "jc_phase k = Has_Answer p" by auto
    with ideal_step_back [OF s dist k(1)] obtain j where j: "j \<in> set (ic_cards s)" "evolves hosts ev j k" by auto
    with k have "jc_id j = i" and "jc_phase j = Has_Answer p \<or> (\<exists>fp. ev = Post_Result fp i p \<and> jp_job_id p = i \<and> hosts fp = Some (jc_host j))"
      by (auto simp: evolves_def)
    moreover from j(1) this(1) have "issued_as (ev # evs) (ic_cards s) i (jc_signed j) (jc_host j)" by (auto simp: issued_as_def)
    ultimately show ?thesis using j(1) by (metis list.set_intros(1))
  next
    assume "\<exists>fp host signed. Post_Result fp i p \<in> set evs \<and> jp_job_id p = i \<and> hosts fp = Some host \<and> issued_as evs (ic_cards u) i signed host"
    with issued_as_step [OF s dist] show ?thesis by (meson list.set_intros(2))
  qed
  have rest: "\<forall>(i, p) \<in> set (answers evs os).
     (i \<in> set (issue_ids (ev # evs)) \<or> (\<exists>j \<in> set (ic_cards s). jc_id j = i \<and> jc_phase j \<noteq> Over)) \<and>
     ((\<exists>j \<in> set (ic_cards s). jc_id j = i \<and> jc_phase j = Has_Answer p) \<or>
      (\<exists>fp host signed. Post_Result fp i p \<in> set (ev # evs) \<and> jp_job_id p = i \<and> hosts fp = Some host \<and> issued_as (ev # evs) (ic_cards s) i signed host))"
  proof (intro ballI, clarify)
    fix i p assume a: "(i, p) \<in> set (answers evs os)"
    from IH a have "i \<in> set (issue_ids evs) \<or> (\<exists>j \<in> set (ic_cards u). jc_id j = i \<and> jc_phase j \<noteq> Over)" by blast
    note 1 = live [OF this]
    from IH a have "(\<exists>j \<in> set (ic_cards u). jc_id j = i \<and> jc_phase j = Has_Answer p) \<or>
      (\<exists>fp host signed. Post_Result fp i p \<in> set evs \<and> jp_job_id p = i \<and> hosts fp = Some host \<and> issued_as evs (ic_cards u) i signed host)"
      by blast
    from 1 origin [OF this] show "(i \<in> set (issue_ids (ev # evs)) \<or> (\<exists>j \<in> set (ic_cards s). jc_id j = i \<and> jc_phase j \<noteq> Over)) \<and>
     ((\<exists>j \<in> set (ic_cards s). jc_id j = i \<and> jc_phase j = Has_Answer p) \<or>
      (\<exists>fp host signed. Post_Result fp i p \<in> set (ev # evs) \<and> jp_job_id p = i \<and> hosts fp = Some host \<and> issued_as (ev # evs) (ic_cards s) i signed host))"
      by (rule conjI)
  qed
  show ?case
  proof (cases "\<exists>i p. ev = Wake i \<and> out = Returned (Answered p)")
    case False
    then have "answers (ev # evs) outs = answers evs os" unfolding outs(1) answers_step
      by (cases ev; cases out) (auto split: dispatch_outcome.splits)
    with IH rest show ?thesis by simp
  next
    case True
    then obtain i p where ev: "ev = Wake i" "out = Returned (Answered p)" by blast
    with s obtain j where j: "card_of (ic_cards s) i = Some j" "jc_phase j = Has_Answer p" "ic_cards u = set_phase i Over (ic_cards s)"
      by (auto split: option.splits dispatch_phase.splits)
    from j(1) card_of_Some [OF dist, of i j] have ji: "j \<in> set (ic_cards s)" "jc_id j = i" by simp_all
    have "jc_phase k = Over" if "k \<in> set (ic_cards u)" "jc_id k = i" for k
      using that(1) unfolding j(3) by (rule set_phase_mem) (rule that(2))
    note over = this
    have new: "i \<notin> set (issue_ids evs)" using Cons.prems(2) ji ev(1) by auto
    have "i \<notin> fst ` set (answers evs os)"
    proof
      assume "i \<in> fst ` set (answers evs os)"
      then obtain p' where "(i, p') \<in> set (answers evs os)" by auto
      with IH have "i \<in> set (issue_ids evs) \<or> (\<exists>j \<in> set (ic_cards u). jc_id j = i \<and> jc_phase j \<noteq> Over)" by blast
      with new over show False by blast
    qed
    moreover have "answers (ev # evs) outs = (i, p) # answers evs os" using ev outs(1) by simp
    moreover have "(i \<in> set (issue_ids (ev # evs)) \<or> (\<exists>j \<in> set (ic_cards s). jc_id j = i \<and> jc_phase j \<noteq> Over)) \<and>
        (\<exists>j \<in> set (ic_cards s). jc_id j = i \<and> jc_phase j = Has_Answer p)"
      using ji j(2) by (metis dispatch_phase.distinct(9))
    ultimately show ?thesis using IH rest by simp
  qed
qed auto


lemma run_from_new:
  assumes "distinct (issue_ids evs)" "channel_run hosts evs (channel_new db) = (outs, c)"
  shows "\<exists>s. ideal_run hosts evs (ideal_new db) = (outs, s) \<and> distinct (map jc_id (ic_cards (ideal_new db)) @ issue_ids evs)"
  using channel_refines_cards [OF assms(1), of hosts db] assms
  by (intro exI [of _ "snd (ideal_run hosts evs (ideal_new db))"]) (simp add: ideal_new_def prod_eq_iff)

text \<open>C22. Claim once, and only by the right host: over any run of the channel from the start, no job is handed
  out twice, and a job that is handed out was issued, as it is, for the host whose certificate polled,
  and has not expired at that moment.\<close>

theorem jobs_claimed_once:
  assumes "distinct (issue_ids evs)" "channel_run hosts evs (channel_new db) = (outs, c)"
  shows "distinct (map fst (claims evs outs)) \<and>
    (\<forall>(i, host, signed, now) \<in> set (claims evs outs). Issue i signed host \<in> set evs \<and> \<not> job_expired signed now)"
proof -
  from run_from_new [OF assms] obtain s where "ideal_run hosts evs (ideal_new db) = (outs, s)"
    "distinct (map jc_id (ic_cards (ideal_new db)) @ issue_ids evs)" by blast
  from ideal_claims [OF this] show ?thesis by (auto simp: issued_as_def ideal_new_def)
qed

text \<open>C23. Answer once, and only by the right host: over any run of the channel from the start, a dispatch gets
  at most one payload, and that payload was posted for its own job by the holder of a certificate of
  the host the job was issued to.\<close>

theorem results_from_owner_once:
  assumes "distinct (issue_ids evs)" "channel_run hosts evs (channel_new db) = (outs, c)"
  shows "distinct (map fst (answers evs outs)) \<and> (\<forall>(i, p) \<in> set (answers evs outs).
    \<exists>fp host signed. Post_Result fp i p \<in> set evs \<and> jp_job_id p = i \<and> hosts fp = Some host \<and> Issue i signed host \<in> set evs)"
proof -
  from run_from_new [OF assms] obtain s where "ideal_run hosts evs (ideal_new db) = (outs, s)"
    "distinct (map jc_id (ic_cards (ideal_new db)) @ issue_ids evs)" by blast
  note A = ideal_answers [OF this]
  have "\<exists>fp host signed. Post_Result fp i p \<in> set evs \<and> jp_job_id p = i \<and> hosts fp = Some host \<and> Issue i signed host \<in> set evs"
    if "(i, p) \<in> set (answers evs outs)" for i p
  proof -
    from A that have "(\<exists>j \<in> set (ic_cards (ideal_new db)). jc_id j = i \<and> jc_phase j = Has_Answer p) \<or>
      (\<exists>fp host signed. Post_Result fp i p \<in> set evs \<and> jp_job_id p = i \<and> hosts fp = Some host \<and>
        issued_as evs (ic_cards (ideal_new db)) i signed host)" by blast
    then show ?thesis by (simp add: issued_as_def ideal_new_def)
  qed
  with A show ?thesis by blast
qed

section \<open>A concrete run\<close>

text \<open>Two jobs for two hosts; the wrong host posts first, the right one answers twice.\<close>

definition answer_payload :: job_payload where
  "answer_payload = \<lparr>jp_job_id = ''j1'', jp_plan_id = ''p1'', jp_mode = Dry_Run, jp_drift = [], jp_results = [], jp_audit = []\<rparr>"

definition sample_hosts :: host_table where
  "sample_hosts = [''fp1'' \<mapsto> ''h1'', ''fp2'' \<mapsto> ''h2'']"

definition sample_events :: "channel_event list" where
  "sample_events =
     [Issue ''j1'' sample_signed ''h1'', Issue ''j2'' sample_signed ''h2'', Poll_Request ''fp1'' (seconds 1100),
      Poll_Request ''fp1'' (seconds 1100), Poll_Request ''fp2'' (seconds 1400), Post_Result ''fp2'' ''j1'' answer_payload,
      Post_Result ''fp1'' ''j1'' answer_payload, Post_Result ''fp1'' ''j1'' answer_payload, Wake ''j1'', Wake ''j2'']"

lemma sample_channel:
  "fst (channel_run sample_hosts sample_events (channel_new [])) =
     [Silent, Silent, Claimed ''h1'' ''j1'' sample_signed, Replied No_Content_204, Replied No_Content_204, Replied Conflict_409,
      Replied Ok_200, Replied Conflict_409, Returned (Answered answer_payload), Returned Dispatch_Timeout]"
  by (simp add: sample_events_def sample_hosts_def channel_new_def job_queue_new_def poll_job_def poll_def enqueue_job_def
      queue_for_def job_expired_def sample_signed_def sample_job_def seconds_def submit_job_result_def owner_of_def
      nonce_of_def db_consume_def resolve_def wake_def fail_job_def forget_job_def answer_payload_def)

lemma sample_fresh: "distinct (issue_ids sample_events)"
  by (simp add: sample_events_def)

theorem channel_refines_cards_witness:
  "fst (ideal_run sample_hosts sample_events (ideal_new [])) =
     [Silent, Silent, Claimed ''h1'' ''j1'' sample_signed, Replied No_Content_204, Replied No_Content_204, Replied Conflict_409,
      Replied Ok_200, Replied Conflict_409, Returned (Answered answer_payload), Returned Dispatch_Timeout]"
  using channel_refines_cards [OF sample_fresh, of sample_hosts "[]"] sample_channel by simp

theorem jobs_claimed_once_witness:
  "claims sample_events (fst (channel_run sample_hosts sample_events (channel_new []))) =
     [(''j1'', ''h1'', sample_signed, seconds 1100)] \<and> \<not> job_expired sample_signed (seconds 1100)"
proof -
  have c: "claims sample_events (fst (channel_run sample_hosts sample_events (channel_new []))) =
     [(''j1'', ''h1'', sample_signed, seconds 1100)]"
    unfolding sample_channel by (simp add: sample_events_def)
  with jobs_claimed_once [OF sample_fresh prod.collapse [symmetric], of sample_hosts "[]"] show ?thesis by simp
qed

theorem results_from_owner_once_witness:
  "answers sample_events (fst (channel_run sample_hosts sample_events (channel_new []))) = [(''j1'', answer_payload)] \<and>
     jp_job_id answer_payload = ''j1''"
proof -
  have c: "answers sample_events (fst (channel_run sample_hosts sample_events (channel_new []))) = [(''j1'', answer_payload)]"
    unfolding sample_channel by (simp add: sample_events_def)
  with results_from_owner_once [OF sample_fresh prod.collapse [symmetric], of sample_hosts "[]"] show ?thesis by auto
qed

end
