(* ===== verification/Orchestrator.thy ===== *)
theory Orchestrator
  imports Job_Queue
begin

text \<open>
  The orchestrator of the core (\<open>core/remediation/orchestrator.py\<close>) and the wiring of its dispatch
  callables to the job queue (\<open>api/remediation_runtime.py\<close>): building a plan, signing jobs, the audit
  records around each dispatch, the blast cap and the drop of drifted items.

  The nonce and the clock reading of a job are arguments, as are the signer and the dispatch, which
  waits for the agent: \<open>None\<close> is a dispatch that raised. Every operation also returns the jobs it sent.
\<close>

section \<open>Data\<close>

record group_member =
  gm_entry_id :: int
  gm_host_id :: int
  gm_volume_id :: int
  gm_path :: string
  gm_inode :: int
  gm_size :: int

record execute_outcome =
  xo_results :: "(string \<times> string \<times> string) list"
  xo_audit :: "audit_record list"

record orchestrator =
  oc_signer :: "dispatch_job \<Rightarrow> signed_job option"
  oc_blast_cap :: nat
  oc_job_ttl :: int

definition DEFAULT_JOB_TTL_SECONDS :: int where
  "DEFAULT_JOB_TTL_SECONDS = 300"

datatype orchestrator_error =
    Unsafe_Member_Path path_safety_error | Plan_Refused plan_error | Job_Refused | Blast_Cap_Exceeded nat
  | Audit_Failed | Dispatch_Failed

section \<open>Building a plan\<close>

fun check_member_paths :: "group_member list \<Rightarrow> (orchestrator_error, unit) result" where
  "check_member_paths [] = Inr ()"
| "check_member_paths (m # ms) =
     (case validate_config_path (gm_path m) of
        Inl e \<Rightarrow> Inl (Unsafe_Member_Path e)
      | Inr p \<Rightarrow> check_member_paths ms)"

definition plan_member :: "group_member \<Rightarrow> member" where
  "plan_member m = \<lparr>mb_entry_id = Id_Int (gm_entry_id m), mb_path = gm_path m, mb_inode = gm_inode m, mb_size = gm_size m\<rparr>"

definition build ::
    "(string \<Rightarrow> string) \<Rightarrow> string \<Rightarrow> group_member list \<Rightarrow> int \<Rightarrow> string \<Rightarrow> string \<Rightarrow> plan_action \<Rightarrow> audit_chain
      \<Rightarrow> (orchestrator_error, remediation_plan) result \<times> audit_chain" where
  "build H plan_id members keep_id full_hash created_by action ch =
     (case check_member_paths members of
        Inl e \<Rightarrow> (Inl e, ch)
      | Inr _ \<Rightarrow>
          (case build_plan plan_id created_by (map plan_member members) (Id_Int keep_id) full_hash action of
             Inl e \<Rightarrow> (Inl (Plan_Refused e), ch)
           | Inr plan \<Rightarrow>
               (case audit_append H ch created_by ''remediation.plan.build'' (rp_plan_id plan)
                   [(''keeper'', JStr (rp_keeper_path plan)), (''blast'', JInt (int (length (rp_items plan))))] ''built'' of
                  (None, ch) \<Rightarrow> (Inl Audit_Failed, ch)
                | (Some _, ch) \<Rightarrow> (Inr plan, ch))))"

section \<open>Jobs\<close>

definition make_job :: "orchestrator \<Rightarrow> remediation_plan \<Rightarrow> job_mode \<Rightarrow> string \<Rightarrow> string \<Rightarrow> int \<Rightarrow> action_job" where
  "make_job oc plan mode host nonce now =
     \<lparr>aj_plan_id = rp_plan_id plan, aj_mode = mode, aj_nonce = nonce, aj_issued_at = utc now,
       aj_expires_at = utc (now + seconds (oc_job_ttl oc)), aj_host_id = host, aj_keeper_path = rp_keeper_path plan,
       aj_items = rp_items plan, aj_move_root = rp_move_root plan\<rparr>"

definition make_scan_job :: "orchestrator \<Rightarrow> string \<Rightarrow> string \<Rightarrow> scan_mode \<Rightarrow> string \<Rightarrow> int \<Rightarrow> scan_job" where
  "make_scan_job oc host directory mode nonce now =
     \<lparr>sj_nonce = nonce, sj_issued_at = utc now, sj_expires_at = utc (now + seconds (oc_job_ttl oc)), sj_host_id = host,
       sj_root = directory, sj_mode = mode\<rparr>"

text \<open>The models validate on construction, then the signer signs.\<close>

definition sign_new_job :: "orchestrator \<Rightarrow> dispatch_job \<Rightarrow> signed_job option" where
  "sign_new_job oc job = (if job_valid job then sign_job job (oc_signer oc) else None)"

definition dispatch_scan_job ::
    "(string \<Rightarrow> string) \<Rightarrow> orchestrator \<Rightarrow> string \<Rightarrow> string \<Rightarrow> string \<Rightarrow> scan_mode \<Rightarrow> string \<Rightarrow> int \<Rightarrow> audit_chain
      \<Rightarrow> (orchestrator_error, string) result \<times> audit_chain \<times> signed_job list" where
  "dispatch_scan_job H oc created_by host directory mode nonce now ch =
     (case sign_new_job oc (Scan_Job (make_scan_job oc host directory mode nonce now)) of
        None \<Rightarrow> (Inl Job_Refused, ch, [])
      | Some signed \<Rightarrow>
          (case audit_append H ch created_by ''scan.dispatch'' (ledger_ref (sg_job signed))
              [(''nonce'', JStr (job_nonce (sg_job signed))), (''root'', JStr directory), (''mode'', JStr (scan_mode_value mode)),
               (''host'', JStr host)] ''enqueued'' of
             (None, ch) \<Rightarrow> (Inl Audit_Failed, ch, [])
           | (Some _, ch) \<Rightarrow> (Inr (job_nonce (sg_job signed)), ch, [signed])))"

section \<open>Dry run\<close>

definition dry_run ::
    "(string \<Rightarrow> string) \<Rightarrow> orchestrator \<Rightarrow> remediation_plan \<Rightarrow> string \<Rightarrow> (signed_job \<Rightarrow> drift_report option)
      \<Rightarrow> string \<Rightarrow> int \<Rightarrow> audit_chain \<Rightarrow> (orchestrator_error, drift_report) result \<times> audit_chain \<times> signed_job list" where
  "dry_run H oc plan host dispatch nonce now ch =
     (case sign_new_job oc (Action_Job (make_job oc plan Dry_Run host nonce now)) of
        None \<Rightarrow> (Inl Job_Refused, ch, [])
      | Some signed \<Rightarrow>
          (case audit_append H ch (rp_created_by plan) ''remediation.dry_run.dispatch'' (rp_plan_id plan)
              [(''nonce'', JStr (job_nonce (sg_job signed))), (''items'', JInt (int (length (rp_items plan))))] ''dispatched'' of
             (None, ch) \<Rightarrow> (Inl Audit_Failed, ch, [])
           | (Some _, ch) \<Rightarrow>
               (case dispatch signed of
                  None \<Rightarrow> (Inl Dispatch_Failed, ch, [signed])
                | Some report \<Rightarrow>
                    (case audit_append H ch (rp_created_by plan) ''remediation.dry_run.result'' (rp_plan_id plan)
                        [(''drifted'', JList (map JStr (sort (map fst report))))] (if report = [] then ''ok'' else ''drift'') of
                       (None, ch) \<Rightarrow> (Inl Audit_Failed, ch, [signed])
                     | (Some _, ch) \<Rightarrow> (Inr report, ch, [signed])))))"

section \<open>Execute\<close>

fun splice_all :: "(string \<Rightarrow> string) \<Rightarrow> audit_chain \<Rightarrow> audit_record list \<Rightarrow> unit option \<times> audit_chain" where
  "splice_all H ch [] = (Some (), ch)"
| "splice_all H ch (r # rs) =
     (case audit_splice H ch r of (None, ch) \<Rightarrow> (None, ch) | (Some _, ch) \<Rightarrow> splice_all H ch rs)"

definition result_json :: "string \<times> string \<times> string \<Rightarrow> json" where
  "result_json r = (case r of (entry, action, status) \<Rightarrow> JList [JStr entry, JStr action, JStr status])"

definition live_items :: "remediation_plan \<Rightarrow> drift_report \<Rightarrow> plan_item list" where
  "live_items plan verify = filter (\<lambda>it. item_drift verify it = None) (rp_items plan)"

definition orchestrate_execute ::
    "(string \<Rightarrow> string) \<Rightarrow> orchestrator \<Rightarrow> remediation_plan \<Rightarrow> drift_report \<Rightarrow> string \<Rightarrow> bool
      \<Rightarrow> (signed_job \<Rightarrow> execute_outcome option) \<Rightarrow> string \<Rightarrow> int \<Rightarrow> audit_chain
      \<Rightarrow> (orchestrator_error, (string \<times> string \<times> string) list) result \<times> audit_chain \<times> signed_job list" where
  "orchestrate_execute H oc plan verify host confirm_blast dispatch nonce now ch =
     (let live = live_items plan verify
      in if live = [] then
           (case audit_append H ch (rp_created_by plan) ''remediation.execute.skip'' (rp_plan_id plan)
               [(''reason'', JStr ''all items drifted'')] ''noop'' of
              (None, ch) \<Rightarrow> (Inl Audit_Failed, ch, [])
            | (Some _, ch) \<Rightarrow> (Inr [], ch, []))
         else if oc_blast_cap oc < length live \<and> \<not> confirm_blast then (Inl (Blast_Cap_Exceeded (length live)), ch, [])
         else
           (case sign_new_job oc (Action_Job (make_job oc (plan\<lparr>rp_items := live\<rparr>) Execute host nonce now)) of
              None \<Rightarrow> (Inl Job_Refused, ch, [])
            | Some signed \<Rightarrow>
                (case audit_append H ch (rp_created_by plan) ''remediation.execute.dispatch'' (rp_plan_id plan)
                    [(''nonce'', JStr (job_nonce (sg_job signed))), (''items'', JInt (int (length live))),
                     (''dropped_drifted'', JList (map JStr (sort (map fst verify))))] ''dispatched'' of
                   (None, ch) \<Rightarrow> (Inl Audit_Failed, ch, [])
                 | (Some _, ch) \<Rightarrow>
                     (case dispatch signed of
                        None \<Rightarrow> (Inl Dispatch_Failed, ch, [signed])
                      | Some outcome \<Rightarrow>
                          (case splice_all H ch (xo_audit outcome) of
                             (None, ch) \<Rightarrow> (Inl Audit_Failed, ch, [signed])
                           | (Some _, ch) \<Rightarrow>
                               (case audit_append H ch (rp_created_by plan) ''remediation.execute.result'' (rp_plan_id plan)
                                   [(''results'', JList (map result_json (xo_results outcome)))] ''completed'' of
                                  (None, ch) \<Rightarrow> (Inl Audit_Failed, ch, [signed])
                                | (Some _, ch) \<Rightarrow> (Inr (xo_results outcome), ch, [signed])))))))"

section \<open>The dispatch callables\<close>

definition drift_from_payload :: "job_payload \<Rightarrow> drift_report" where
  "drift_from_payload p = jp_drift p"

definition outcome_from_payload :: "job_payload \<Rightarrow> execute_outcome" where
  "outcome_from_payload p =
     \<lparr>xo_results = map (\<lambda>r. (er_entry_id r, er_action r, er_status r)) (jp_results p), xo_audit = jp_audit p\<rparr>"

text \<open>A dispatch over the queue: what the wait for the answer of the job it issued returned.\<close>

definition answered :: "(job_payload \<Rightarrow> 'a) \<Rightarrow> dispatch_outcome \<Rightarrow> 'a option" where
  "answered f outcome = (case outcome of Answered p \<Rightarrow> Some (f p) | Dispatch_Timeout \<Rightarrow> None)"

section \<open>Provisioning\<close>

datatype provisioning_error =
    Key_Ref_Unresolved | Key_Empty | Bad_Private_PEM | Private_Not_Ed25519 | Signing_Secret_Too_Short
  | Unknown_Signing_Algorithm

datatype loaded_signer = Ed25519_Signer string string | Hmac_Signer string string

record remediation_settings =
  rm_enabled :: bool
  rm_signing_key_ref :: "string option"
  rm_signing_algorithm :: string
  rm_signing_key_id :: string
  rm_job_ttl_seconds :: int

text \<open>The resolver may raise; what a PEM text holds is decided by the cryptography library.\<close>

definition load_orchestrator_signer ::
    "(string \<Rightarrow> key_shape) \<Rightarrow> (string \<Rightarrow> string option) \<Rightarrow> remediation_settings
      \<Rightarrow> (provisioning_error, loaded_signer option) result" where
  "load_orchestrator_signer pem provider st =
     (if \<not> truthy (rm_signing_key_ref st) then Inr None
      else case provider (the (rm_signing_key_ref st)) of
             None \<Rightarrow> Inl Key_Ref_Unresolved
           | Some material \<Rightarrow>
               if material = [] then Inl Key_Empty
               else
                 let algorithm = lower (rm_signing_algorithm st); key_id = rm_signing_key_id st
                 in if algorithm = ''ed25519'' then
                      (case pem material of
                         Not_PEM \<Rightarrow> Inl Bad_Private_PEM
                       | Other_Key \<Rightarrow> Inl Private_Not_Ed25519
                       | Ed25519_Key \<Rightarrow> Inr (Some (Ed25519_Signer material key_id)))
                    else if algorithm = ''hmac'' \<or> algorithm = ''hmac-sha256'' then
                      (let secret = utf8 material
                       in if length secret < 32 then Inl Signing_Secret_Too_Short
                          else Inr (Some (Hmac_Signer secret key_id)))
                    else Inl Unknown_Signing_Algorithm)"

text \<open>The runtime is the signer; the callables carry the job lifetime as their wait.\<close>

definition build_remediation_runtime ::
    "(string \<Rightarrow> key_shape) \<Rightarrow> (string \<Rightarrow> string option) \<Rightarrow> remediation_settings
      \<Rightarrow> (provisioning_error, (loaded_signer \<times> int) option) result" where
  "build_remediation_runtime pem provider st =
     (if \<not> rm_enabled st then Inr None
      else rbind (load_orchestrator_signer pem provider st)
             (\<lambda>signer. Inr (map_option (\<lambda>s. (s, rm_job_ttl_seconds st)) signer)))"


section \<open>What an operation leaves in the log\<close>

text \<open>A record the log got, by what it says.\<close>

definition says :: "audit_record \<Rightarrow> string \<Rightarrow> string \<Rightarrow> string \<Rightarrow> (string \<times> json) list \<Rightarrow> string \<Rightarrow> bool" where
  "says r actor action target before result \<longleftrightarrow> ar_actor r = actor \<and> ar_action r = action \<and> ar_target r = target \<and>
     ar_before_state r = before \<and> ar_result r = result"

lemma append_says:
  assumes "audit_append H ch actor action target before result = (Some r, ch')"
  shows "ch_log ch' = ch_log ch @ [r] \<and> says r actor action target before result"
  using assms by (auto simp: audit_append_def emit_record_def says_def Let_def split: if_splits)

lemma append_refused_log: "audit_append H ch actor action target before result = (None, ch') \<Longrightarrow> ch_log ch' = ch_log ch"
  by (auto simp: audit_append_def emit_record_def Let_def split: if_splits)

lemma splice_says: "audit_splice H ch r = (Some r', ch') \<Longrightarrow> ch_log ch' = ch_log ch @ [r'] \<and> content r' = content r"
  by (auto simp: audit_splice_def emit_record_def chain_simps split: if_splits)

lemma splice_refused_log: "audit_splice H ch r = (None, ch') \<Longrightarrow> ch_log ch' = ch_log ch"
  by (auto simp: audit_splice_def emit_record_def split: if_splits)

lemma splice_all_log:
  "splice_all H ch rs = (r, ch') \<Longrightarrow> \<exists>new. ch_log ch' = ch_log ch @ new \<and> prefix (map content new) (map content rs) \<and>
     (r = Some () \<longrightarrow> map content new = map content rs)"
proof (induction rs arbitrary: ch)
  case (Cons a rs)
  obtain x ch1 where s: "audit_splice H ch a = (x, ch1)" by fastforce
  show ?case
  proof (cases x)
    case None
    with Cons.prems s splice_refused_log [of H ch a ch1] show ?thesis by auto
  next
    case (Some b)
    with Cons.prems s have "splice_all H ch1 rs = (r, ch')" by simp
    from Cons.IH [OF this] obtain new where "ch_log ch' = ch_log ch1 @ new" "prefix (map content new) (map content rs)"
      "r = Some () \<longrightarrow> map content new = map content rs" by blast
    with splice_says [of H ch a b ch1] s Some show ?thesis by (intro exI [of _ "b # new"]) auto
  qed
qed auto

lemma append_keeps_chain: "chain_ok H g ch \<Longrightarrow> audit_append H ch a b c d e = (r, ch') \<Longrightarrow> chain_ok H g ch'"
  by (metis audit_append_ok snd_conv)

lemma splice_all_keeps_chain: "chain_ok H g ch \<Longrightarrow> splice_all H ch rs = (r, ch') \<Longrightarrow> chain_ok H g ch'"
proof (induction rs arbitrary: ch)
  case (Cons a rs)
  obtain x ch1 where s: "audit_splice H ch a = (x, ch1)" by fastforce
  with Cons.prems(1) memory_log.put_invar [of H g ch a] have "chain_ok H g ch1" by simp
  with Cons s show ?case by (auto split: option.splits)
qed auto


section \<open>What an execution sends and records\<close>

definition dispatch_before :: "string \<Rightarrow> remediation_plan \<Rightarrow> drift_report \<Rightarrow> (string \<times> json) list" where
  "dispatch_before nonce plan verify =
     [(''nonce'', JStr nonce), (''items'', JInt (int (length (live_items plan verify)))),
      (''dropped_drifted'', JList (map JStr (sort (map fst verify))))]"

lemma orchestrate_sent:
  assumes "orchestrate_execute H oc plan verify host confirm dispatch nonce now ch = (r, ch', signed # sent)"
    and "\<And>j s. oc_signer oc j = Some s \<Longrightarrow> sg_job s = j"
  shows "sent = [] \<and> sg_job signed = Action_Job (make_job oc (plan\<lparr>rp_items := live_items plan verify\<rparr>) Execute host nonce now) \<and>
    live_items plan verify \<noteq> [] \<and> (length (live_items plan verify) \<le> oc_blast_cap oc \<or> confirm) \<and>
    (\<exists>rec ch1. audit_append H ch (rp_created_by plan) ''remediation.execute.dispatch'' (rp_plan_id plan)
        (dispatch_before nonce plan verify) ''dispatched'' = (Some rec, ch1) \<and>
      (case dispatch signed of
         None \<Rightarrow> r = Inl Dispatch_Failed \<and> ch' = ch1
       | Some outcome \<Rightarrow> \<exists>x ch2. splice_all H ch1 (xo_audit outcome) = (x, ch2) \<and>
           (case x of
              None \<Rightarrow> r = Inl Audit_Failed \<and> ch' = ch2
            | Some _ \<Rightarrow> \<exists>y. audit_append H ch2 (rp_created_by plan) ''remediation.execute.result'' (rp_plan_id plan)
                [(''results'', JList (map result_json (xo_results outcome)))] ''completed'' = (y, ch') \<and>
                r = (case y of None \<Rightarrow> Inl Audit_Failed | Some _ \<Rightarrow> Inr (xo_results outcome)))))"
proof -
  let ?live = "live_items plan verify"
  let ?job = "Action_Job (make_job oc (plan\<lparr>rp_items := ?live\<rparr>) Execute host nonce now)"
  have live: "?live \<noteq> []" "length ?live \<le> oc_blast_cap oc \<or> confirm"
    using assms(1) by (auto simp: orchestrate_execute_def Let_def not_less split: if_splits prod.splits option.splits)
  then obtain s where s: "sign_new_job oc ?job = Some s"
    using assms(1) by (auto simp: orchestrate_execute_def Let_def not_less split: option.splits)
  then have job: "sg_job s = ?job" using assms(2) by (auto simp: sign_new_job_def sign_job_def split: if_splits)
  then have n: "job_nonce (sg_job s) = nonce" by (simp add: make_job_def)
  obtain x ch1 where a: "audit_append H ch (rp_created_by plan) ''remediation.execute.dispatch'' (rp_plan_id plan)
      (dispatch_before nonce plan verify) ''dispatched'' = (x, ch1)" by fastforce
  have cap: "\<not> (oc_blast_cap oc < length ?live \<and> \<not> confirm)" using live(2) by auto
  note step = assms(1) [unfolded orchestrate_execute_def Let_def if_not_P [OF live(1)] if_not_P [OF cap] s option.case
      n a [unfolded dispatch_before_def] prod.case]
  obtain rec where rec: "x = Some rec" using step by (cases x) auto
  note step = step [unfolded rec option.case]
  have "signed = s \<and> sent = []" using step by (auto split: option.splits prod.splits)
  with job live a rec step show ?thesis by (auto split: option.splits prod.splits)
qed

text \<open>C24. An execution is server-authoritative: whatever the operator confirmed, at most one job leaves, it is an
  execute job for the named host over exactly the items the dry run did not find drifted, there is
  at least one and more than the cap only with confirmation, and the log holds the record of the
  dispatch with the job's nonce before anything the agent answered.\<close>

theorem execute_sends_live_items:
  assumes "\<And>j s. oc_signer oc j = Some s \<Longrightarrow> sg_job s = j"
    and "orchestrate_execute H oc plan verify host confirm dispatch nonce now ch = (r, ch', signed # sent)"
  shows "sent = [] \<and> (\<exists>job. sg_job signed = Action_Job job \<and> aj_mode job = Execute \<and> aj_host_id job = host \<and>
      aj_items job = live_items plan verify \<and> aj_items job \<noteq> [] \<and> (length (aj_items job) \<le> oc_blast_cap oc \<or> confirm)) \<and>
    (\<exists>rec rest. ch_log ch' = ch_log ch @ rec # rest \<and>
      says rec (rp_created_by plan) ''remediation.execute.dispatch'' (rp_plan_id plan) (dispatch_before nonce plan verify) ''dispatched'')"
proof -
  note S = orchestrate_sent [OF assms(2,1)]
  let ?job = "make_job oc (plan\<lparr>rp_items := live_items plan verify\<rparr>) Execute host nonce now"
  have "\<exists>rec rest. ch_log ch' = ch_log ch @ rec # rest \<and>
      says rec (rp_created_by plan) ''remediation.execute.dispatch'' (rp_plan_id plan) (dispatch_before nonce plan verify) ''dispatched''"
  proof -
    from S obtain rec ch1 where a: "audit_append H ch (rp_created_by plan) ''remediation.execute.dispatch'' (rp_plan_id plan)
        (dispatch_before nonce plan verify) ''dispatched'' = (Some rec, ch1)" by blast
    have "\<exists>rest. ch_log ch' = ch_log ch1 @ rest"
    proof (cases "dispatch signed")
      case None
      with S a show ?thesis by auto
    next
      case (Some outcome)
      with S a obtain x ch2 where sp: "splice_all H ch1 (xo_audit outcome) = (x, ch2)"
        "case x of None \<Rightarrow> r = Inl Audit_Failed \<and> ch' = ch2
            | Some _ \<Rightarrow> \<exists>y. audit_append H ch2 (rp_created_by plan) ''remediation.execute.result'' (rp_plan_id plan)
                [(''results'', JList (map result_json (xo_results outcome)))] ''completed'' = (y, ch') \<and>
                r = (case y of None \<Rightarrow> Inl Audit_Failed | Some _ \<Rightarrow> Inr (xo_results outcome))" by auto
      have "\<exists>rest. ch_log ch' = ch_log ch2 @ rest"
        using sp(2) by (auto split: option.splits dest: append_says append_refused_log)
      with splice_all_log [OF sp(1)] show ?thesis by auto
    qed
    with append_says [OF a] show ?thesis by auto
  qed
  with S show ?thesis by (auto simp: make_job_def)
qed

text \<open>C25. The act is on the record: when an execution returns, the log is the old one followed by the dispatch
  record, the agent's own records in their order and with their content, and the summary of the
  results, and it is an unbroken chain if it was one before.\<close>

theorem execute_log_tells_all:
  assumes "\<And>j s. oc_signer oc j = Some s \<Longrightarrow> sg_job s = j"
    and "orchestrate_execute H oc plan verify host confirm dispatch nonce now ch = (Inr results, ch', signed # sent)"
    and "chain_ok H g ch"
  shows "chain_ok H g ch' \<and> (\<exists>outcome first acts final. dispatch signed = Some outcome \<and> results = xo_results outcome \<and>
    ch_log ch' = ch_log ch @ first # acts @ [final] \<and>
    says first (rp_created_by plan) ''remediation.execute.dispatch'' (rp_plan_id plan) (dispatch_before nonce plan verify) ''dispatched'' \<and>
    map content acts = map content (xo_audit outcome) \<and>
    says final (rp_created_by plan) ''remediation.execute.result'' (rp_plan_id plan)
      [(''results'', JList (map result_json results))] ''completed'')"
proof -
  note S = orchestrate_sent [OF assms(2,1)]
  from S obtain rec ch1 where a: "audit_append H ch (rp_created_by plan) ''remediation.execute.dispatch'' (rp_plan_id plan)
        (dispatch_before nonce plan verify) ''dispatched'' = (Some rec, ch1)" by blast
  obtain outcome where d: "dispatch signed = Some outcome" using S by (cases "dispatch signed") auto
  with S a obtain x ch2 where sp: "splice_all H ch1 (xo_audit outcome) = (x, ch2)"
     "case x of None \<Rightarrow> Inr results = Inl Audit_Failed \<and> ch' = ch2
        | Some _ \<Rightarrow> \<exists>y. audit_append H ch2 (rp_created_by plan) ''remediation.execute.result'' (rp_plan_id plan)
            [(''results'', JList (map result_json (xo_results outcome)))] ''completed'' = (y, ch') \<and>
            Inr results = (case y of None \<Rightarrow> Inl Audit_Failed | Some _ \<Rightarrow> Inr (xo_results outcome))" by auto
  then obtain u where x: "x = Some u" by (cases x) auto
  then obtain final where f: "audit_append H ch2 (rp_created_by plan) ''remediation.execute.result'' (rp_plan_id plan)
            [(''results'', JList (map result_json (xo_results outcome)))] ''completed'' = (Some final, ch')" "results = xo_results outcome"
    using sp(2) by (auto split: option.splits)
  from splice_all_log [OF sp(1)] x obtain acts where acts: "ch_log ch2 = ch_log ch1 @ acts" "map content acts = map content (xo_audit outcome)"
    by auto
  have "chain_ok H g ch'"
    using append_keeps_chain [OF splice_all_keeps_chain [OF append_keeps_chain [OF assms(3) a] sp(1)] f(1)] .
  moreover have "ch_log ch' = ch_log ch @ rec # acts @ [final]" using append_says [OF a] acts(1) append_says [OF f(1)] by simp
  ultimately show ?thesis using append_says [OF a] append_says [OF f(1)] acts(2) d f(2) by blast
qed


section \<open>The two caps\<close>

text \<open>A confirmation does not reach the agent: a plan the operator confirmed above the agent's own cap is
  signed and dispatched, but when the agent finds no drift in it, its listen loop refuses it whole,
  drops it and changes nothing.\<close>

theorem confirmed_plan_refused_by_agent:
  assumes "\<And>j s. oc_signer oc j = Some s \<Longrightarrow> sg_job s = j"
    and "orchestrate_execute H oc plan verify host True dispatch nonce now ch = (r, ch', signed # sent)"
    and "li_executor li = Some ex" "ex_write_enabled ex" "ex_blast_cap ex < length (live_items plan verify)"
    and "verify_job v consume signed (li_host_id li) later l = (Inr (sg_job signed), l')"
    and "dry_run_verify H (li_has_hasher li) True (plan_from_job (make_job oc (plan\<lparr>rp_items := live_items plan verify\<rparr>) Execute host nonce now)) w = (Inr [], w')"
  shows "handle_one H v consume li False later (Poll_Claimed job_id signed) post_ok (l, w) =
    (Dropped (Execution (Blast_Radius (length (live_items plan verify)))), l', w') \<and> w_trace w' = w_trace w"
proof -
  let ?job = "make_job oc (plan\<lparr>rp_items := live_items plan verify\<rparr>) Execute host nonce now"
  have job: "sg_job signed = Action_Job ?job" using orchestrate_sent [OF assms(2,1)] by blast
  have "aj_mode ?job = Execute" "length (aj_items ?job) = length (live_items plan verify)" by (simp_all add: make_job_def)
  with assms(3-7) job have "handle H v consume li False later signed (l, w) =
      (Inl (Execution (Blast_Radius (length (live_items plan verify)))), l', w')"
    by (simp add: handle_def dispatch_execute_def execute_with_audit_def plan_from_job_def Let_def)
  then show ?thesis using silent_trace [OF dry_run_silent [OF assms(7)]] by (simp add: handle_one_def)
qed

section \<open>A concrete dispatch\<close>

definition sample_orchestrator :: orchestrator where
  "sample_orchestrator = \<lparr>oc_signer = ed25519_sign (\<lambda>m. ''sig:'' @ m) ''k1'', oc_blast_cap = 100, oc_job_ttl = 300\<rparr>"

definition two_plan :: remediation_plan where
  "two_plan = (act_plan (act_item QUARANTINE None))\<lparr>rp_items := [drifted_item, act_item QUARANTINE None]\<rparr>"

definition sample_outcome :: execute_outcome where
  "sample_outcome = \<lparr>xo_results = [(''2'', ''quarantine'', ''quarantined'')],
     xo_audit = [draft_record ''t'' ''strata-actor'' ''quarantine'' ''/d/b'' [] ''pending'',
       draft_record ''t'' ''strata-actor'' ''quarantine'' ''/d/b'' [] ''quarantined'']\<rparr>"

lemma sample_signer: "oc_signer sample_orchestrator j = Some s \<Longrightarrow> sg_job s = j"
  by (auto simp: sample_orchestrator_def ed25519_sign_def make_signed_job_def split: if_splits)

lemma sample_live: "live_items two_plan [(''3'', ''missing'')] = [act_item QUARANTINE None]"
proof -
  have "str_int 3 = ''3''" "str_int 2 = ''2''" by code_simp+
  then show ?thesis by (simp add: live_items_def two_plan_def item_drift_def act_item_def drifted_item_def)
qed

lemma sample_sent:
  "\<exists>ch' signed. orchestrate_execute H sample_orchestrator two_plan [(''3'', ''missing'')] ''h1'' confirm (\<lambda>_. Some sample_outcome)
     ''0123456789abcdef'' (seconds 1000) sample_chain = (Inr [(''2'', ''quarantine'', ''quarantined'')], ch', [signed])"
proof -
  let ?job = "make_job sample_orchestrator (two_plan\<lparr>rp_items := [act_item QUARANTINE None]\<rparr>) Execute ''h1'' ''0123456789abcdef'' (seconds 1000)"
  have "job_valid (Action_Job ?job)"
    by (simp add: action_job_valid_def make_job_def two_plan_def act_plan_def act_item_def plan_item_valid_def datetime_ok_def
        seconds_def sample_orchestrator_def)
  then obtain s where "sign_new_job sample_orchestrator (Action_Job ?job) = Some s"
    by (simp add: sign_new_job_def sign_job_def sample_orchestrator_def ed25519_sign_def make_signed_job_def)
  moreover have "\<exists>x ch2. splice_all H ch1 (xo_audit sample_outcome) = (Some (), ch2) \<and> ch_accepts ch2 = (\<lambda>_ _. True)"
    if "ch_accepts ch1 = (\<lambda>_ _. True)" for ch1
    using that by (simp add: sample_outcome_def audit_splice_def emit_record_def)
  ultimately show ?thesis
    by (simp add: orchestrate_execute_def sample_live Let_def audit_append_def emit_record_def sample_chain_def
        sample_orchestrator_def sample_outcome_def audit_splice_def)
qed

theorem execute_sends_live_items_witness:
  "\<exists>r ch' signed job. orchestrate_execute mark_hash sample_orchestrator two_plan [(''3'', ''missing'')] ''h1'' False
     (\<lambda>_. Some sample_outcome) ''0123456789abcdef'' (seconds 1000) sample_chain = (r, ch', [signed]) \<and>
     sg_job signed = Action_Job job \<and> aj_items job = [act_item QUARANTINE None]"
proof -
  obtain ch' signed where s: "orchestrate_execute mark_hash sample_orchestrator two_plan [(''3'', ''missing'')] ''h1'' False
     (\<lambda>_. Some sample_outcome) ''0123456789abcdef'' (seconds 1000) sample_chain = (Inr [(''2'', ''quarantine'', ''quarantined'')], ch', [signed])"
    using sample_sent by blast
  from execute_sends_live_items [OF sample_signer s] s show ?thesis by (auto simp: sample_live)
qed

theorem execute_log_tells_all_witness:
  "\<exists>ch' signed. orchestrate_execute mark_hash sample_orchestrator two_plan [(''3'', ''missing'')] ''h1'' False
     (\<lambda>_. Some sample_outcome) ''0123456789abcdef'' (seconds 1000) sample_chain =
       (Inr [(''2'', ''quarantine'', ''quarantined'')], ch', [signed]) \<and> length (ch_log ch') = 4"
proof -
  obtain ch' signed where s: "orchestrate_execute mark_hash sample_orchestrator two_plan [(''3'', ''missing'')] ''h1'' False
     (\<lambda>_. Some sample_outcome) ''0123456789abcdef'' (seconds 1000) sample_chain = (Inr [(''2'', ''quarantine'', ''quarantined'')], ch', [signed])"
    using sample_sent by blast
  have "chain_ok mark_hash GENESIS_HASH sample_chain"
    by (simp add: chain_ok_def sample_chain_def chain_simps)
  from execute_log_tells_all [OF sample_signer s this] obtain acts where
    "length (ch_log ch') = length (ch_log sample_chain) + 2 + length acts" "map content acts = map content (xo_audit sample_outcome)"
    by auto
  moreover from this(2) have "length acts = 2" by (auto simp: sample_outcome_def dest: map_eq_imp_length_eq)
  ultimately show ?thesis using s by (auto simp: sample_chain_def)
qed


lemma sample_no_drift:
  "fst (verify_items (\<lambda>_. ''hxyz'') True True [act_item QUARANTINE None] [] sample_world) = Inr []"
  by code_simp

theorem confirmed_plan_refused_by_agent_witness:
  "\<exists>ch' signed. orchestrate_execute (\<lambda>_. ''hxyz'') sample_orchestrator two_plan [(''3'', ''missing'')] ''h1'' True
     (\<lambda>_. Some sample_outcome) ''0123456789abcdef'' (seconds 1000) sample_chain =
       (Inr [(''2'', ''quarantine'', ''quarantined'')], ch', [signed]) \<and>
     fst (handle_one (\<lambda>_. ''hxyz'') (\<lambda>_. True) sqlite_consume
       (sample_listener\<lparr>li_executor := Some (sample_executor\<lparr>ex_blast_cap := 0\<rparr>)\<rparr>) False (seconds 1100)
       (Poll_Claimed ''j1'' signed) True (sample_ledger, sample_world)) = Dropped (Execution (Blast_Radius 1))"
proof -
  let ?li = "sample_listener\<lparr>li_executor := Some (sample_executor\<lparr>ex_blast_cap := 0\<rparr>)\<rparr>"
  let ?job = "make_job sample_orchestrator (two_plan\<lparr>rp_items := live_items two_plan [(''3'', ''missing'')]\<rparr>) Execute ''h1''
    ''0123456789abcdef'' (seconds 1000)"
  obtain ch' signed where s: "orchestrate_execute (\<lambda>_. ''hxyz'') sample_orchestrator two_plan [(''3'', ''missing'')] ''h1'' True
     (\<lambda>_. Some sample_outcome) ''0123456789abcdef'' (seconds 1000) sample_chain = (Inr [(''2'', ''quarantine'', ''quarantined'')], ch', [signed])"
    using sample_sent by blast
  have job: "sg_job signed = Action_Job ?job" using orchestrate_sent [OF s sample_signer] by blast
  have ver: "verify_job (\<lambda>_. True) sqlite_consume signed (li_host_id ?li) (seconds 1100) sample_ledger =
      (Inr (sg_job signed), snd (sqlite_consume sample_ledger ''0123456789abcdef'' ''p1''))"
    by (simp add: verify_job_def job make_job_def sample_orchestrator_def sample_listener_def seconds_def
        sqlite_consume_def sample_ledger_def two_plan_def act_plan_def)
  have hasher: "li_has_hasher ?li = True" by (simp add: sample_listener_def)
  have items: "rp_items (plan_from_job ?job) = [act_item QUARANTINE None]"
    by (simp add: plan_from_job_def make_job_def sample_live)
  have "fst (dry_run_verify (\<lambda>_. ''hxyz'') (li_has_hasher ?li) True (plan_from_job ?job) sample_world) = Inr []"
    unfolding dry_run_verify_def hasher items by (rule sample_no_drift)
  then obtain w' where dry: "dry_run_verify (\<lambda>_. ''hxyz'') (li_has_hasher ?li) True (plan_from_job ?job) sample_world = (Inr [], w')"
    unfolding fst_eq_iff by (rule exE)
  have li: "li_executor ?li = Some (sample_executor\<lparr>ex_blast_cap := 0\<rparr>)"
    "ex_write_enabled (sample_executor\<lparr>ex_blast_cap := 0\<rparr>)"
    "ex_blast_cap (sample_executor\<lparr>ex_blast_cap := 0\<rparr>) < length (live_items two_plan [(''3'', ''missing'')])"
    by (simp_all add: sample_live sample_executor_def)
  from confirmed_plan_refused_by_agent [OF sample_signer s li ver dry, of "''j1''" True] s show ?thesis
    by (simp add: sample_live)
qed

end
