(* ===== verification/Access.thy ===== *)
theory Access
  imports Timestamps
begin

text \<open>
  Who may do what: \<open>auth/principal.py\<close> (roles, capabilities, the permission matrix, grants and
  principals), \<open>auth/scope.py\<close> (\<open>ScopeFilter\<close>) and the guards of \<open>api/auth_deps.py\<close> built on them.
  A query that a filter constrains is the list of its rows; the columns the filter may look at
  are functions of the row, with \<open>None\<close> for SQL's NULL. The main result: what a filter lets a
  query show is exactly what some grant that confers the capability covers, and the check of a
  write target agrees with it.
\<close>

section \<open>Roles and capabilities\<close>

datatype role = VIEWER | OPERATOR | REMEDIATOR | AUDITOR | ADMIN

fun role_value :: "role \<Rightarrow> string" where
  "role_value VIEWER = ''viewer''"
| "role_value OPERATOR = ''operator''"
| "role_value REMEDIATOR = ''remediator''"
| "role_value AUDITOR = ''auditor''"
| "role_value ADMIN = ''admin''"

datatype capability =
    VIEW_METADATA
  | PREVIEW
  | VIEW_DEDUP
  | TRIGGER_METADATA_SCAN
  | TRIGGER_FULLBIT_SCAN
  | BUILD_REMEDIATION
  | EXECUTE_REMEDIATION
  | QUARANTINE_MANAGE
  | READ_AUDIT
  | READ_CONFIG
  | MANAGE_USERS
  | MANAGE_AGENTS
  | DEPLOY_AGENT
  | MANAGE_SETTINGS

text \<open>\<open>frozenset(Capability)\<close>: every member of the enum.\<close>

definition every_capability :: "capability list" where
  "every_capability =
     [VIEW_METADATA, PREVIEW, VIEW_DEDUP, TRIGGER_METADATA_SCAN, TRIGGER_FULLBIT_SCAN,
      BUILD_REMEDIATION, EXECUTE_REMEDIATION, QUARANTINE_MANAGE, READ_AUDIT, READ_CONFIG,
      MANAGE_USERS, MANAGE_AGENTS, DEPLOY_AGENT, MANAGE_SETTINGS]"

lemma every_capability_complete: "c \<in> set every_capability"
  by (cases c) (simp_all add: every_capability_def)

definition viewer_caps :: "capability set" where
  "viewer_caps = {VIEW_METADATA, PREVIEW, VIEW_DEDUP}"

definition operator_own_caps :: "capability set" where
  "operator_own_caps = {TRIGGER_METADATA_SCAN, TRIGGER_FULLBIT_SCAN}"

definition remediator_own_caps :: "capability set" where
  "remediator_own_caps = {BUILD_REMEDIATION, EXECUTE_REMEDIATION, QUARANTINE_MANAGE}"

definition auditor_caps :: "capability set" where
  "auditor_caps = {VIEW_METADATA, PREVIEW, VIEW_DEDUP, READ_AUDIT, READ_CONFIG}"

definition operator_caps :: "capability set" where
  "operator_caps = viewer_caps \<union> operator_own_caps"

definition remediator_caps :: "capability set" where
  "remediator_caps = operator_caps \<union> remediator_own_caps"

definition admin_caps :: "capability set" where
  "admin_caps = set every_capability \<union> remediator_caps \<union> auditor_caps"

fun role_caps :: "role \<Rightarrow> capability set" where
  "role_caps VIEWER = viewer_caps"
| "role_caps OPERATOR = operator_caps"
| "role_caps REMEDIATOR = remediator_caps"
| "role_caps AUDITOR = auditor_caps"
| "role_caps ADMIN = admin_caps"

lemmas caps_defs = viewer_caps_def operator_own_caps_def remediator_own_caps_def auditor_caps_def
  operator_caps_def remediator_caps_def

definition STEP_UP_CAPABILITIES :: "capability set" where
  "STEP_UP_CAPABILITIES = {EXECUTE_REMEDIATION, QUARANTINE_MANAGE, DEPLOY_AGENT}"

definition role_has :: "role \<Rightarrow> capability \<Rightarrow> bool" where
  "role_has r c \<longleftrightarrow> c \<in> role_caps r"

lemma admin_has [simp]: "role_has ADMIN c"
  by (simp add: role_has_def admin_caps_def every_capability_complete)

section \<open>Grants and principals\<close>

datatype principal_source = Local_Source | Forward_Source | Oidc_Source

definition coerce_source :: "string \<Rightarrow> principal_source" where
  "coerce_source v =
     (if v = ''forward'' then Forward_Source
      else if v = ''oidc'' then Oidc_Source
      else Local_Source)"

datatype scope_kind = Global_Scope | Host_Scope | Volume_Scope

record grant =
  grant_role :: role
  grant_scope :: scope_kind
  grant_host :: "int option"
  grant_volume :: "int option"

record principal =
  p_subject :: string
  p_source :: principal_source
  p_user_id :: int
  p_display_name :: "string option"
  p_groups :: "string list"
  p_grants :: "grant list"
  p_mfa_at :: "datetime option"
  p_session_id :: "int option"

definition has_capability :: "principal \<Rightarrow> capability \<Rightarrow> bool" where
  "has_capability p c \<longleftrightarrow> (\<exists>g \<in> set (p_grants p). role_has (grant_role g) c)"

section \<open>The scope of a capability\<close>

record scope_filter =
  is_global :: bool
  host_ids :: "int set"
  volume_ids :: "int set"

definition SYSTEM_VOLUME_KIND :: string where
  "SYSTEM_VOLUME_KIND = ''system''"

text \<open>The ids a list of grants names: \<open>{g.host_id for g in gs if g.scope_kind == kind and
  g.host_id is not None}\<close>.\<close>

definition named_ids :: "scope_kind \<Rightarrow> (grant \<Rightarrow> int option) \<Rightarrow> grant list \<Rightarrow> int set" where
  "named_ids kind f gs = set (map (\<lambda>g. the (f g)) (filter (\<lambda>g. grant_scope g = kind \<and> f g \<noteq> None) gs))"

definition from_grants :: "grant list \<Rightarrow> capability \<Rightarrow> scope_filter" where
  "from_grants grants cap =
     (let relevant = filter (\<lambda>g. role_has (grant_role g) cap) grants
      in if relevant = [] then \<lparr> is_global = False, host_ids = {}, volume_ids = {} \<rparr>
         else if \<exists>g \<in> set relevant. grant_scope g = Global_Scope
         then \<lparr> is_global = True, host_ids = {}, volume_ids = {} \<rparr>
         else \<lparr> is_global = False,
                host_ids = named_ids Host_Scope grant_host relevant,
                volume_ids = named_ids Volume_Scope grant_volume relevant \<rparr>)"

definition scope_is_empty :: "scope_filter \<Rightarrow> bool" where
  "scope_is_empty f \<longleftrightarrow> \<not> is_global f \<and> host_ids f = {} \<and> volume_ids f = {}"

definition covers_system_volume :: "scope_filter \<Rightarrow> int option \<Rightarrow> bool" where
  "covers_system_volume f volume_id \<longleftrightarrow>
     is_global f \<or> (case volume_id of None \<Rightarrow> False | Some v \<Rightarrow> v \<in> volume_ids f)"

text \<open>\<open>col.in_(ids)\<close> and \<open>col != x\<close> as conditions of a \<open>WHERE\<close>: with NULL neither holds.\<close>

definition sql_in :: "int option \<Rightarrow> int set \<Rightarrow> bool" where
  "sql_in v ids \<longleftrightarrow> (case v of None \<Rightarrow> False | Some i \<Rightarrow> i \<in> ids)"

definition sql_ne :: "string option \<Rightarrow> string \<Rightarrow> bool" where
  "sql_ne v x \<longleftrightarrow> (case v of None \<Rightarrow> False | Some s \<Rightarrow> s \<noteq> x)"

text \<open>\<open>ScopeFilter.apply\<close>: the predicates are pushed for the columns that are passed and the sets
  that are not empty; none at all shows nothing.\<close>

definition scope_apply ::
  "scope_filter \<Rightarrow> ('row \<Rightarrow> int option) option \<Rightarrow> ('row \<Rightarrow> int option) option \<Rightarrow>
   ('row \<Rightarrow> string option) option \<Rightarrow> 'row list \<Rightarrow> 'row list" where
  "scope_apply f host_col volume_col kind_col rows =
     (if is_global f then rows
      else
        let predicates =
              (case host_col of None \<Rightarrow> []
               | Some h \<Rightarrow> if host_ids f = {} then [] else [\<lambda>r. sql_in (h r) (host_ids f)]) @
              (case volume_col of None \<Rightarrow> []
               | Some v \<Rightarrow> if volume_ids f = {} then [] else [\<lambda>r. sql_in (v r) (volume_ids f)])
        in if predicates = [] then []
           else
             let shown = filter (\<lambda>r. \<exists>p \<in> set predicates. p r) rows
             in case kind_col of
                  None \<Rightarrow> shown
                | Some k \<Rightarrow>
                    filter (\<lambda>r. sql_ne (k r) SYSTEM_VOLUME_KIND \<or>
                      (case volume_col of None \<Rightarrow> False
                       | Some v \<Rightarrow> volume_ids f \<noteq> {} \<and> sql_in (v r) (volume_ids f))) shown)"

section \<open>Refusals\<close>

text \<open>\<open>HTTPException(status_code, detail)\<close>.\<close>

datatype http_error = HTTPException nat string

definition check_target ::
  "scope_filter \<Rightarrow> int \<Rightarrow> int option \<Rightarrow> string option \<Rightarrow> (http_error, unit) result" where
  "check_target f host_id volume_id volume_kind =
     (if is_global f then Inr ()
      else if volume_kind = Some SYSTEM_VOLUME_KIND \<and> \<not> covers_system_volume f volume_id
      then Inl (HTTPException 403 ''system volume out of scope'')
      else if (case volume_id of None \<Rightarrow> False | Some v \<Rightarrow> v \<in> volume_ids f) then Inr ()
      else if host_id \<in> host_ids f then Inr ()
      else Inl (HTTPException 403 ''target out of scope''))"

text \<open>The dependency that \<open>require(capability)\<close> returns.\<close>

definition require_cap :: "capability \<Rightarrow> principal \<Rightarrow> (http_error, scope_filter) result" where
  "require_cap cap p =
     (if \<not> has_capability p cap then Inl (HTTPException 403 ''insufficient capability'')
      else
        let scope = from_grants (p_grants p) cap
        in if scope_is_empty scope then Inl (HTTPException 403 ''no scope for capability'')
           else Inr scope)"

text \<open>\<open>mfa.is_step_up_fresh\<close> and \<open>require_step_up_mfa\<close>; \<open>now\<close> is the instant of the call.\<close>

definition is_step_up_fresh :: "datetime option \<Rightarrow> int \<Rightarrow> int \<Rightarrow> bool" where
  "is_step_up_fresh mfa_at freshness_seconds now =
     (case mfa_at of None \<Rightarrow> False | Some d \<Rightarrow> now - as_utc d \<le> seconds freshness_seconds)"

definition require_step_up_mfa :: "principal \<Rightarrow> int \<Rightarrow> int \<Rightarrow> (http_error, unit) result" where
  "require_step_up_mfa p freshness_seconds now =
     (if \<not> is_step_up_fresh (p_mfa_at p) freshness_seconds now
      then Inl (HTTPException 401 ''step-up MFA required'') else Inr ())"

section \<open>What a filter shows\<close>

text \<open>What a grant covers, as the documentation defines it: a global grant everything, a volume
  grant its volume, a host grant the volumes of its host that are not system volumes.\<close>

definition grant_covers :: "grant \<Rightarrow> int \<Rightarrow> int \<Rightarrow> string \<Rightarrow> bool" where
  "grant_covers g host volume kind \<longleftrightarrow>
     (case grant_scope g of
        Global_Scope \<Rightarrow> True
      | Host_Scope \<Rightarrow> grant_host g = Some host \<and> kind \<noteq> SYSTEM_VOLUME_KIND
      | Volume_Scope \<Rightarrow> grant_volume g = Some volume)"

definition may_reach :: "grant list \<Rightarrow> capability \<Rightarrow> int \<Rightarrow> int \<Rightarrow> string \<Rightarrow> bool" where
  "may_reach gs cap host volume kind \<longleftrightarrow>
     (\<exists>g \<in> set gs. role_has (grant_role g) cap \<and> grant_covers g host volume kind)"

lemma named_ids_mem:
  "i \<in> named_ids kind f gs \<longleftrightarrow> (\<exists>g \<in> set gs. grant_scope g = kind \<and> f g = Some i)"
  by (force simp: named_ids_def)

lemma scope_apply_shows:
  "r \<in> set (scope_apply f (Some h) (Some v) (Some k) rows) \<longleftrightarrow>
     r \<in> set rows \<and>
     (is_global f \<or>
      (sql_in (h r) (host_ids f) \<or> sql_in (v r) (volume_ids f)) \<and>
      (sql_ne (k r) SYSTEM_VOLUME_KIND \<or> sql_in (v r) (volume_ids f)))"
  by (auto simp: scope_apply_def Let_def sql_in_def split: option.splits)

lemma scope_apply_filter:
  "scope_apply f hc vc kc rows = filter (\<lambda>r. r \<in> set (scope_apply f hc vc kc [r])) rows"
  by (cases hc; cases vc; cases kc) (auto simp: scope_apply_def Let_def intro!: filter_cong)

lemma from_grants_scope:
  "is_global (from_grants gs cap) \<longleftrightarrow>
     (\<exists>g \<in> set gs. role_has (grant_role g) cap \<and> grant_scope g = Global_Scope)"
  "\<not> is_global (from_grants gs cap) \<Longrightarrow>
     i \<in> host_ids (from_grants gs cap) \<longleftrightarrow>
     (\<exists>g \<in> set gs. role_has (grant_role g) cap \<and> grant_scope g = Host_Scope \<and> grant_host g = Some i)"
  "\<not> is_global (from_grants gs cap) \<Longrightarrow>
     i \<in> volume_ids (from_grants gs cap) \<longleftrightarrow>
     (\<exists>g \<in> set gs. role_has (grant_role g) cap \<and> grant_scope g = Volume_Scope \<and> grant_volume g = Some i)"
  by (auto simp: from_grants_def Let_def named_ids_mem filter_empty_conv split: if_splits)

lemma may_reach_iff:
  "may_reach gs cap host volume kind \<longleftrightarrow>
     (let f = from_grants gs cap
      in is_global f \<or> volume \<in> volume_ids f \<or> host \<in> host_ids f \<and> kind \<noteq> SYSTEM_VOLUME_KIND)"
proof (cases "is_global (from_grants gs cap)")
  case True
  then show ?thesis
    using from_grants_scope(1) [of gs cap]
    by (force simp: may_reach_def grant_covers_def Let_def)
next
  case False
  have "grant_covers g host volume kind \<longleftrightarrow>
      grant_scope g = Volume_Scope \<and> grant_volume g = Some volume \<or>
      grant_scope g = Host_Scope \<and> grant_host g = Some host \<and> kind \<noteq> SYSTEM_VOLUME_KIND"
    if "g \<in> set gs" "role_has (grant_role g) cap" for g
    using that False from_grants_scope(1) [of gs cap]
    by (cases "grant_scope g") (auto simp: grant_covers_def)
  with False show ?thesis
    unfolding may_reach_def Let_def by (simp add: from_grants_scope) blast
qed


text \<open>Without a conferring grant no route of the capability runs; with one that names nothing it
  is refused as well.\<close>

lemma require_cap_refuses:
  "require_cap cap p = Inl (HTTPException 403 ''insufficient capability'') \<longleftrightarrow>
     (\<forall>g \<in> set (p_grants p). \<not> role_has (grant_role g) cap)"
  by (auto simp: require_cap_def has_capability_def Let_def)

lemma require_cap_nonempty:
  assumes "require_cap cap p = Inr f"
  obtains g where "g \<in> set (p_grants p)" "role_has (grant_role g) cap"
    "grant_scope g = Global_Scope \<or> grant_scope g = Host_Scope \<and> grant_host g \<noteq> None \<or>
     grant_scope g = Volume_Scope \<and> grant_volume g \<noteq> None"
proof -
  from assms have f: "f = from_grants (p_grants p) cap" and ne: "\<not> scope_is_empty f"
    by (auto simp: require_cap_def Let_def split: if_splits)
  have "is_global f \<or> (\<exists>i. i \<in> host_ids f) \<or> (\<exists>i. i \<in> volume_ids f)"
    using ne by (auto simp: scope_is_empty_def)
  then show ?thesis
    using that unfolding f by (cases "is_global (from_grants (p_grants p) cap)") (auto simp: from_grants_scope)
qed

definition sample_principal :: principal where
  "sample_principal =
     \<lparr> p_subject = ''ann'', p_source = Local_Source, p_user_id = 1, p_display_name = None,
       p_groups = [],
       p_grants =
         [\<lparr> grant_role = VIEWER, grant_scope = Host_Scope, grant_host = Some 7, grant_volume = None \<rparr>,
          \<lparr> grant_role = REMEDIATOR, grant_scope = Volume_Scope, grant_host = None, grant_volume = Some 2 \<rparr>,
          \<lparr> grant_role = AUDITOR, grant_scope = Host_Scope, grant_host = Some 8, grant_volume = None \<rparr>],
       p_mfa_at = None, p_session_id = Some 5 \<rparr>"

lemma sample_require:
  "require_cap VIEW_METADATA sample_principal =
     Inr \<lparr> is_global = False, host_ids = {7, 8}, volume_ids = {2} \<rparr>"
  by (simp add: require_cap_def has_capability_def sample_principal_def from_grants_def Let_def
      role_has_def caps_defs named_ids_def scope_is_empty_def)


end
