(* ===== verification/Ip_Network.thy ===== *)
theory Ip_Network
  imports Prelude "HOL-Library.Word"
begin

unbundle bit_operations_syntax

text \<open>
  Addresses and networks as Python's \<open>ipaddress\<close> reads them, for the source test of
  \<open>auth/providers/forward_auth.py\<close>: \<open>ip_address\<close>, \<open>ip_network(strict=False)\<close> and \<open>in\<close>. An
  address is a 32-bit or a 128-bit word; a text that Python refuses with \<open>ValueError\<close> is \<open>None\<close>.
\<close>

section \<open>Reading addresses\<close>

text \<open>An octet: one to three digits, no leading zero, at most 255.\<close>

definition parse_octet :: "string \<Rightarrow> 32 word option" where
  "parse_octet s =
     (if s = [] \<or> \<not> list_all is_digit s \<or> 3 < length s then None
      else if s \<noteq> ''0'' \<and> hd s = CHR ''0'' then None
      else if 255 < read_nat s then None else Some (word_of_nat (read_nat s)))"

fun parse_octets :: "string list \<Rightarrow> 32 word \<Rightarrow> 32 word option" where
  "parse_octets [] acc = Some acc"
| "parse_octets (s # ss) acc =
     (case parse_octet s of None \<Rightarrow> None | Some b \<Rightarrow> parse_octets ss (push_bit 8 acc OR b))"

definition parse_ipv4 :: "string \<Rightarrow> 32 word option" where
  "parse_ipv4 s =
     (let octets = py_split (CHR ''.'') s
      in if length octets \<noteq> 4 then None else parse_octets octets 0)"

definition hex_value :: "char \<Rightarrow> int option" where
  "hex_value c =
     (let n = (of_char c :: int)
      in if is_digit c then Some (n - 48)
         else if 97 \<le> n \<and> n \<le> 102 then Some (n - 87)
         else if 65 \<le> n \<and> n \<le> 70 then Some (n - 55)
         else None)"

fun read_hex :: "string \<Rightarrow> int \<Rightarrow> int option" where
  "read_hex [] acc = Some acc"
| "read_hex (c # cs) acc =
     (case hex_value c of None \<Rightarrow> None | Some d \<Rightarrow> read_hex cs (16 * acc + d))"

definition parse_hextet :: "string \<Rightarrow> 128 word option" where
  "parse_hextet s =
     (if s = [] \<or> 4 < length s then None else map_option word_of_int (read_hex s 0))"

fun parse_hextets :: "string list \<Rightarrow> 128 word \<Rightarrow> 128 word option" where
  "parse_hextets [] acc = Some acc"
| "parse_hextets (s # ss) acc =
     (case parse_hextet s of None \<Rightarrow> None | Some h \<Rightarrow> parse_hextets ss (push_bit 16 acc OR h))"

text \<open>\<open>'%x' % n\<close> for a 16-bit value, by its four digits: leading zeros do not change what
  \<open>parse_hextet\<close> reads.\<close>

definition hex_char :: "int \<Rightarrow> char" where
  "hex_char d = (if d < 10 then char_of (48 + d) else char_of (87 + d))"

definition hex4 :: "int \<Rightarrow> string" where
  "hex4 n = map hex_char [n div 4096 mod 16, n div 256 mod 16, n div 16 mod 16, n mod 16]"

text \<open>A dotted IPv4 tail becomes two hextets.\<close>

definition expand_ipv4_tail :: "string list \<Rightarrow> string list option" where
  "expand_ipv4_tail parts =
     (if CHR ''.'' \<notin> set (last parts) then Some parts
      else case parse_ipv4 (last parts) of
          None \<Rightarrow> None
        | Some ip \<Rightarrow> Some (butlast parts @ [hex4 (uint (drop_bit 16 ip)), hex4 (uint (ip AND 65535))]))"

text \<open>The indices of the empty parts strictly inside, where \<open>::\<close> stands.\<close>

definition inner_gaps :: "string list \<Rightarrow> nat list" where
  "inner_gaps parts = filter (\<lambda>i. parts ! i = []) [1..<length parts - 1]"

definition parse_ipv6_parts :: "string list \<Rightarrow> 128 word option" where
  "parse_ipv6_parts parts =
     (case inner_gaps parts of
        [] \<Rightarrow>
          if length parts \<noteq> 8 \<or> hd parts = [] \<or> last parts = [] then None
          else parse_hextets parts 0
      | [skip] \<Rightarrow>
          let hi = (if hd parts = [] then skip - 1 else skip);
              lo = length parts - skip - 1;
              lo' = (if last parts = [] then lo - 1 else lo)
          in if hd parts = [] \<and> hi \<noteq> 0 \<or> last parts = [] \<and> lo' \<noteq> 0 then None
             else if 8 < hi + lo' + 1 then None
             else
               (case parse_hextets (take hi parts) 0 of
                  None \<Rightarrow> None
                | Some high \<Rightarrow>
                    parse_hextets (drop (length parts - lo') parts)
                      (push_bit (16 * (8 - (hi + lo'))) high))
      | _ \<Rightarrow> None)"

definition parse_ipv6_int :: "string \<Rightarrow> 128 word option" where
  "parse_ipv6_int s =
     (let parts = py_split (CHR '':'') s
      in if length parts < 3 then None
         else case expand_ipv4_tail parts of
             None \<Rightarrow> None
           | Some parts' \<Rightarrow> if 9 < length parts' then None else parse_ipv6_parts parts')"

text \<open>An IPv6 address may carry a scope id after one \<open>%\<close>.\<close>

definition parse_ipv6 :: "string \<Rightarrow> 128 word option" where
  "parse_ipv6 s =
     (case py_split (CHR ''%'') s of
        [a] \<Rightarrow> parse_ipv6_int a
      | [a, scope] \<Rightarrow> if scope = [] then None else parse_ipv6_int a
      | _ \<Rightarrow> None)"

datatype ip_addr = IPv4 "32 word" | IPv6 "128 word"

definition ip_address :: "string \<Rightarrow> ip_addr option" where
  "ip_address s =
     (if CHR ''/'' \<in> set s then None
      else case parse_ipv4 s of
          Some ip \<Rightarrow> Some (IPv4 ip)
        | None \<Rightarrow> map_option IPv6 (parse_ipv6 s))"

section \<open>Networks\<close>

text \<open>A network is its address and the length of its prefix; \<open>strict=False\<close> clears the host bits.\<close>

datatype ip_net = Net4 "32 word" nat | Net6 "128 word" nat

definition netmask :: "nat \<Rightarrow> nat \<Rightarrow> 'a::len word" where
  "netmask width p = push_bit (width - p) (mask p)"

definition prefix_string :: "nat \<Rightarrow> string \<Rightarrow> nat option" where
  "prefix_string width s =
     (if s = [] \<or> \<not> list_all is_digit s \<or> width < read_nat s then None else Some (read_nat s))"

text \<open>A netmask (or a host mask) written as an address names the prefix whose mask it is.\<close>

definition prefix_of_mask :: "32 word \<Rightarrow> nat option" where
  "prefix_of_mask ip = List.find (\<lambda>p. netmask 32 p = ip) [0..<33]"

definition prefix_from_ip_string :: "string \<Rightarrow> nat option" where
  "prefix_from_ip_string s =
     (case parse_ipv4 s of
        None \<Rightarrow> None
      | Some ip \<Rightarrow>
          (case prefix_of_mask ip of
             Some p \<Rightarrow> Some p
           | None \<Rightarrow> prefix_of_mask (NOT ip)))"

definition make_net4 :: "32 word option \<Rightarrow> nat option \<Rightarrow> ip_net option" where
  "make_net4 ip p =
     (case (ip, p) of
        (Some a, Some n) \<Rightarrow> Some (Net4 (a AND netmask 32 n) n)
      | _ \<Rightarrow> None)"

definition make_net6 :: "128 word option \<Rightarrow> nat option \<Rightarrow> ip_net option" where
  "make_net6 ip p =
     (case (ip, p) of
        (Some a, Some n) \<Rightarrow> Some (Net6 (a AND netmask 128 n) n)
      | _ \<Rightarrow> None)"

definition ip_network :: "string \<Rightarrow> ip_net option" where
  "ip_network s =
     (case py_split (CHR ''/'') s of
        [a] \<Rightarrow>
          (case make_net4 (parse_ipv4 a) (Some 32) of
             Some n \<Rightarrow> Some n
           | None \<Rightarrow> make_net6 (parse_ipv6 a) (Some 128))
      | [a, m] \<Rightarrow>
          (case make_net4 (parse_ipv4 a)
                  (case prefix_string 32 m of Some p \<Rightarrow> Some p | None \<Rightarrow> prefix_from_ip_string m) of
             Some n \<Rightarrow> Some n
           | None \<Rightarrow> make_net6 (parse_ipv6 a) (prefix_string 128 m))
      | _ \<Rightarrow> None)"

fun in_network :: "ip_addr \<Rightarrow> ip_net \<Rightarrow> bool" where
  "in_network (IPv4 a) (Net4 n p) = (a AND netmask 32 p = n)"
| "in_network (IPv6 a) (Net6 n p) = (a AND netmask 128 p = n)"
| "in_network _ _ = False"

section \<open>The trusted source\<close>

fun any_network :: "ip_addr \<Rightarrow> string list \<Rightarrow> bool" where
  "any_network addr [] = False"
| "any_network addr (cidr # cidrs) =
     (case ip_network cidr of
        Some net \<Rightarrow> in_network addr net \<or> any_network addr cidrs
      | None \<Rightarrow> any_network addr cidrs)"

definition is_trusted_source :: "string option \<Rightarrow> string list \<Rightarrow> bool" where
  "is_trusted_source ip trusted_cidrs =
     (case ip of
        None \<Rightarrow> False
      | Some s \<Rightarrow>
          if trusted_cidrs = [] then False
          else (case ip_address s of None \<Rightarrow> False | Some addr \<Rightarrow> any_network addr trusted_cidrs))"

section \<open>What the test decides\<close>

text \<open>Two addresses of a family agree on their first \<open>p\<close> bits.\<close>

fun same_prefix :: "nat \<Rightarrow> ip_addr \<Rightarrow> ip_addr \<Rightarrow> bool" where
  "same_prefix p (IPv4 a) (IPv4 b) = (drop_bit (32 - p) a = drop_bit (32 - p) b)"
| "same_prefix p (IPv6 a) (IPv6 b) = (drop_bit (128 - p) a = drop_bit (128 - p) b)"
| "same_prefix p _ _ = False"

lemma bit_netmask:
  "p \<le> LENGTH('a) \<Longrightarrow>
     bit (netmask LENGTH('a) p :: 'a::len word) i \<longleftrightarrow> LENGTH('a) - p \<le> i \<and> i < LENGTH('a)"
  by (auto simp: netmask_def bit_simps)

lemma masked_eq_iff:
  fixes a b :: "'a::len word"
  assumes "p \<le> LENGTH('a)"
  shows "a AND netmask LENGTH('a) p = b AND netmask LENGTH('a) p \<longleftrightarrow>
    drop_bit (LENGTH('a) - p) a = drop_bit (LENGTH('a) - p) b"
proof
  assume eq: "a AND netmask LENGTH('a) p = b AND netmask LENGTH('a) p"
  show "drop_bit (LENGTH('a) - p) a = drop_bit (LENGTH('a) - p) b"
  proof (rule bit_word_eqI)
    fix i assume "i < LENGTH('a)"
    show "bit (drop_bit (LENGTH('a) - p) a) i = bit (drop_bit (LENGTH('a) - p) b) i"
      using arg_cong [OF eq, of "\<lambda>w. bit w (LENGTH('a) - p + i)"] assms
      by (auto simp: bit_drop_bit_eq bit_and_iff bit_netmask dest: bit_imp_le_length)
  qed
next
  assume eq: "drop_bit (LENGTH('a) - p) a = drop_bit (LENGTH('a) - p) b"
  show "a AND netmask LENGTH('a) p = b AND netmask LENGTH('a) p"
  proof (rule bit_word_eqI)
    fix i assume "i < LENGTH('a)"
    show "bit (a AND netmask LENGTH('a) p) i = bit (b AND netmask LENGTH('a) p) i"
      using arg_cong [OF eq, of "\<lambda>w. bit w (i - (LENGTH('a) - p))"] assms
      by (auto simp: bit_drop_bit_eq bit_and_iff bit_netmask)
  qed
qed

text \<open>The address and the prefix length a network text writes.\<close>

definition written_net :: "string \<Rightarrow> (ip_addr \<times> nat) option" where
  "written_net s =
     (case py_split (CHR ''/'') s of
        [a] \<Rightarrow>
          (case parse_ipv4 a of
             Some ip \<Rightarrow> Some (IPv4 ip, 32)
           | None \<Rightarrow> map_option (\<lambda>ip. (IPv6 ip, 128)) (parse_ipv6 a))
      | [a, m] \<Rightarrow>
          (case (parse_ipv4 a,
                 case prefix_string 32 m of Some p \<Rightarrow> Some p | None \<Rightarrow> prefix_from_ip_string m) of
             (Some ip, Some p) \<Rightarrow> Some (IPv4 ip, p)
           | _ \<Rightarrow> (case (parse_ipv6 a, prefix_string 128 m) of
                     (Some ip, Some p) \<Rightarrow> Some (IPv6 ip, p)
                   | _ \<Rightarrow> None))
      | _ \<Rightarrow> None)"

lemma prefix_string_le: "prefix_string w s = Some p \<Longrightarrow> p \<le> w"
  by (auto simp: prefix_string_def split: if_splits)

lemma prefix_of_mask_le: "prefix_of_mask ip = Some p \<Longrightarrow> p \<le> 32"
  by (auto simp: prefix_of_mask_def find_Some_iff)

lemma prefix_from_ip_string_le: "prefix_from_ip_string s = Some p \<Longrightarrow> p \<le> 32"
  by (auto simp: prefix_from_ip_string_def dest: prefix_of_mask_le split: option.splits)

lemma ip_network_written:
  "ip_network s = map_option (\<lambda>(ip, p). case ip of
       IPv4 a \<Rightarrow> Net4 (a AND netmask 32 p) p
     | IPv6 a \<Rightarrow> Net6 (a AND netmask 128 p) p) (written_net s)"
  by (auto simp: ip_network_def written_net_def make_net4_def make_net6_def
      split: list.splits option.splits)

lemma written_net_le:
  "written_net s = Some (ip, p) \<Longrightarrow> p \<le> (case ip of IPv4 _ \<Rightarrow> 32 | IPv6 _ \<Rightarrow> 128)"
  by (auto simp: written_net_def dest: prefix_string_le prefix_from_ip_string_le
      split: list.splits option.splits)

lemma in_network_iff:
  assumes "written_net s = Some (ip, p)" "ip_network s = Some net"
  shows "in_network a net \<longleftrightarrow> same_prefix p a ip"
  using assms written_net_le [OF assms(1)]
    masked_eq_iff [where 'a = 32, of p] masked_eq_iff [where 'a = 128, of p]
  by (cases a; cases ip) (auto simp: ip_network_written)

lemma any_network_iff:
  "any_network a cidrs \<longleftrightarrow>
     (\<exists>c \<in> set cidrs. \<exists>ip p. written_net c = Some (ip, p) \<and> same_prefix p a ip)"
proof (induction cidrs)
  case (Cons c cidrs)
  show ?case
  proof (cases "ip_network c")
    case None
    then have "written_net c = None" by (simp add: ip_network_written)
    with None Cons show ?thesis by simp
  next
    case (Some net)
    then obtain ip p where w: "written_net c = Some (ip, p)" by (auto simp: ip_network_written)
    from in_network_iff [OF w Some] w Some Cons show ?thesis by simp
  qed
qed simp

lemma is_trusted_source_iff:
  "is_trusted_source ip cidrs \<longleftrightarrow>
     (\<exists>s a c b p. ip = Some s \<and> ip_address s = Some a \<and> c \<in> set cidrs \<and>
        written_net c = Some (b, p) \<and> same_prefix p a b)"
  by (auto simp: is_trusted_source_def any_network_iff split: option.splits)

lemma leading_zero_refused: "ip_address ''172.20.5.09'' = None"
  by code_simp

lemma scoped_address_read: "ip_address ''fe80::1%eth0'' = Some (IPv6 0xFE800000000000000000000000000001)"
  by code_simp

lemma mapped_address_read: "ip_address ''::ffff:10.0.0.1'' = Some (IPv6 0xFFFF0A000001)"
  by code_simp

lemma sample_source_trusted: "is_trusted_source (Some ''172.20.5.9'') [''bad'', ''172.20.1.0/16'']"
  by code_simp

lemma sample_source_untrusted: "\<not> is_trusted_source (Some ''172.21.5.9'') [''bad'', ''172.20.1.0/16'']"
  by code_simp

end
