(* ===== verification/Identity.thy ===== *)
theory Identity
  imports Access Ip_Network
begin

text \<open>
  From a request to a principal: the assignment store (\<open>auth/store.py\<close>, \<open>auth/models.py\<close>),
  server-side sessions (\<open>auth/sessions.py\<close>), the local and the forward-auth provider
  (\<open>auth/providers/local.py\<close>, \<open>forward_auth.py\<close>), the ordered chain (\<open>auth/providers/__init__.py\<close>,
  \<open>build_provider_chain\<close> and \<open>current_principal\<close> of \<open>api/auth_deps.py\<close>) and the agent's identity
  (\<open>require_client_fingerprint\<close> of \<open>api/deps.py\<close>). Tables are lists of rows in the order the
  database returns them. Parameters: SHA-256 (\<open>sha\<close>), the fresh token of \<open>secrets\<close>, the clock and
  the three Argon2 calls.
\<close>

section \<open>Tables\<close>

record user =
  u_id :: int
  u_subject :: string
  u_source :: string
  u_display_name :: "string option"
  u_password_hash :: "string option"
  u_is_active :: bool

record role_assignment =
  ra_user_id :: int
  ra_role :: string
  ra_scope_kind :: string
  ra_host_id :: "int option"
  ra_volume_id :: "int option"

record user_session =
  us_id :: int
  us_user_id :: int
  us_token_hash :: string
  us_expires_at :: datetime
  us_mfa_at :: "datetime option"
  us_revoked_at :: "datetime option"
  us_ip :: "string option"
  us_user_agent :: "string option"

record identity_binding =
  ib_group_claim :: string
  ib_role :: string

text \<open>The auth tables. The two counters are the next ids the database assigns.\<close>

record auth_db =
  users :: "user list"
  assignments :: "role_assignment list"
  sessions :: "user_session list"
  bindings :: "identity_binding list"
  next_user :: int
  next_session :: int

text \<open>\<open>scalar_one_or_none()\<close> raises when a query has several rows; a flush raises when a row breaks
  a unique constraint.\<close>

datatype db_error = Multiple_Results | Integrity_Error

fun one_or_none :: "'a list \<Rightarrow> (db_error, 'a option) result" where
  "one_or_none [] = Inr None"
| "one_or_none [x] = Inr (Some x)"
| "one_or_none (x # y # xs) = Inl Multiple_Results"

section \<open>The assignment store\<close>

definition coerce_role :: "string \<Rightarrow> role option" where
  "coerce_role s = List.find (\<lambda>r. role_value r = s) [VIEWER, OPERATOR, REMEDIATOR, AUDITOR, ADMIN]"

definition coerce_scope_kind :: "string \<Rightarrow> scope_kind option" where
  "coerce_scope_kind s =
     (if s = ''global'' then Some Global_Scope
      else if s = ''host'' then Some Host_Scope
      else if s = ''volume'' then Some Volume_Scope
      else None)"

fun assignment_grant :: "role_assignment \<Rightarrow> grant option" where
  "assignment_grant a =
     (case (coerce_role (ra_role a), coerce_scope_kind (ra_scope_kind a)) of
        (Some r, Some k) \<Rightarrow>
          Some \<lparr> grant_role = r, grant_scope = k, grant_host = ra_host_id a, grant_volume = ra_volume_id a \<rparr>
      | _ \<Rightarrow> None)"

declare assignment_grant.simps [simp del]

text \<open>The loop of \<open>grants_for_user\<close>: \<open>seen\<close> holds the keys of the grants so far.\<close>

fun collect_grants :: "role_assignment list \<Rightarrow> grant list \<Rightarrow> grant list" where
  "collect_grants [] seen = []"
| "collect_grants (a # as) seen =
     (case assignment_grant a of
        None \<Rightarrow> collect_grants as seen
      | Some g \<Rightarrow>
          if g \<in> set seen then collect_grants as seen
          else g # collect_grants as (g # seen))"

definition grants_for_user :: "auth_db \<Rightarrow> int \<Rightarrow> grant list" where
  "grants_for_user db user_id =
     collect_grants (filter (\<lambda>a. ra_user_id a = user_id) (assignments db)) []"

definition roles_for_groups :: "auth_db \<Rightarrow> string list \<Rightarrow> role list" where
  "roles_for_groups db groups =
     (if groups = [] then []
      else List.map_filter (\<lambda>b. coerce_role (ib_role b))
        (filter (\<lambda>b. ib_group_claim b \<in> set groups) (bindings db)))"

definition find_user :: "auth_db \<Rightarrow> string \<Rightarrow> string \<Rightarrow> (db_error, user option) result" where
  "find_user db source subject =
     one_or_none (filter (\<lambda>u. u_source u = source \<and> u_subject u = subject) (users db))"

definition get_active_user :: "auth_db \<Rightarrow> string \<Rightarrow> string \<Rightarrow> (db_error, user option) result" where
  "get_active_user db source subject =
     rbind (find_user db source subject) (\<lambda>u.
       case u of
         None \<Rightarrow> Inr None
       | Some usr \<Rightarrow> Inr (if u_is_active usr then Some usr else None))"

definition upsert_federated_user ::
  "auth_db \<Rightarrow> string \<Rightarrow> string \<Rightarrow> string option \<Rightarrow> (db_error, user \<times> auth_db) result" where
  "upsert_federated_user db source subject display_name =
     rbind (find_user db source subject) (\<lambda>u.
       case u of
         Some usr \<Rightarrow> Inr (usr, db)
       | None \<Rightarrow>
           let usr = \<lparr> u_id = next_user db, u_subject = subject, u_source = source,
                 u_display_name = display_name, u_password_hash = None, u_is_active = True \<rparr>
           in Inr (usr, db\<lparr> users := users db @ [usr], next_user := next_user db + 1 \<rparr>))"

section \<open>Sessions\<close>

text \<open>\<open>create_session\<close>: the token hash is unique in the table.\<close>

definition create_session ::
  "(string \<Rightarrow> string) \<Rightarrow> auth_db \<Rightarrow> string \<Rightarrow> int \<Rightarrow> int \<Rightarrow> int \<Rightarrow> string option \<Rightarrow> string option \<Rightarrow>
   (db_error, user_session \<times> auth_db) result" where
  "create_session sha db raw now user_id ttl_seconds ip user_agent =
     (let row = \<lparr> us_id = next_session db, us_user_id = user_id, us_token_hash = sha raw,
            us_expires_at = utc (now + seconds ttl_seconds), us_mfa_at = None,
            us_revoked_at = None, us_ip = ip, us_user_agent = user_agent \<rparr>
      in if sha raw \<in> us_token_hash ` set (sessions db) then Inl Integrity_Error
         else Inr (row, db\<lparr> sessions := sessions db @ [row], next_session := next_session db + 1 \<rparr>))"

definition lookup_session ::
  "(string \<Rightarrow> string) \<Rightarrow> auth_db \<Rightarrow> string \<Rightarrow> int \<Rightarrow> (db_error, user_session option) result" where
  "lookup_session sha db raw now =
     rbind (one_or_none (filter (\<lambda>s. us_token_hash s = sha raw) (sessions db))) (\<lambda>r.
       case r of
         None \<Rightarrow> Inr None
       | Some row \<Rightarrow>
           if us_revoked_at row \<noteq> None then Inr None
           else if as_utc (us_expires_at row) \<le> now then Inr None
           else Inr (Some row))"

definition update_session :: "int \<Rightarrow> (user_session \<Rightarrow> user_session) \<Rightarrow> auth_db \<Rightarrow> auth_db" where
  "update_session i f db = db\<lparr> sessions := map (\<lambda>s. if us_id s = i then f s else s) (sessions db) \<rparr>"

definition revoke_session :: "auth_db \<Rightarrow> user_session \<Rightarrow> int \<Rightarrow> auth_db" where
  "revoke_session db row now =
     update_session (us_id row) (\<lambda>s. s\<lparr> us_revoked_at := Some (utc now) \<rparr>) db"

definition mark_step_up :: "auth_db \<Rightarrow> user_session \<Rightarrow> int \<Rightarrow> auth_db" where
  "mark_step_up db row now =
     update_session (us_id row) (\<lambda>s. s\<lparr> us_mfa_at := Some (utc now) \<rparr>) db"

section \<open>Requests and providers\<close>

record request =
  rq_cookie :: "string option"
  rq_authorization :: "string option"
  rq_remote_user :: "string option"
  rq_remote_groups :: "string option"
  rq_client :: "string option"

text \<open>What \<open>str.strip()\<close> removes among the code points below 256.\<close>

definition whitespace :: string where
  "whitespace = map char_of ([9, 10, 11, 12, 13, 28, 29, 30, 31, 32, 133, 160] :: nat list)"

definition extract_session_token :: "request \<Rightarrow> string option" where
  "extract_session_token rq =
     (case rq_cookie rq of
        Some (c # cs) \<Rightarrow> Some (c # cs)
      | _ \<Rightarrow>
          (case rq_authorization rq of
             None \<Rightarrow> None
           | Some h \<Rightarrow>
               if h \<noteq> [] \<and> startswith h ''Bearer ''
               then (case strip whitespace (drop 7 h) of [] \<Rightarrow> None | t \<Rightarrow> Some t)
               else None))"

text \<open>\<open>session.get(User, id)\<close>: by the primary key.\<close>

definition user_by_id :: "auth_db \<Rightarrow> int \<Rightarrow> user option" where
  "user_by_id db i = List.find (\<lambda>u. u_id u = i) (users db)"

definition local_authenticate ::
  "(string \<Rightarrow> string) \<Rightarrow> int \<Rightarrow> auth_db \<Rightarrow> request \<Rightarrow> (db_error, principal option) result" where
  "local_authenticate sha now db rq =
     (case extract_session_token rq of
        None \<Rightarrow> Inr None
      | Some token \<Rightarrow>
          rbind (lookup_session sha db token now) (\<lambda>r.
            case r of
              None \<Rightarrow> Inr None
            | Some row \<Rightarrow>
                (case user_by_id db (us_user_id row) of
                   None \<Rightarrow> Inr None
                 | Some usr \<Rightarrow>
                     if \<not> u_is_active usr then Inr None
                     else Inr (Some
                       \<lparr> p_subject = u_subject usr, p_source = coerce_source (u_source usr),
                         p_user_id = u_id usr, p_display_name = u_display_name usr, p_groups = [],
                         p_grants = grants_for_user db (u_id usr), p_mfa_at = us_mfa_at row,
                         p_session_id = Some (us_id row) \<rparr>))))"

definition split_groups :: "string option \<Rightarrow> string list" where
  "split_groups header =
     filter (\<lambda>g. g \<noteq> [])
       (map (strip whitespace) (py_split (CHR '','') (case header of None \<Rightarrow> [] | Some h \<Rightarrow> h)))"

definition forward_authenticate ::
  "string list \<Rightarrow> auth_db \<Rightarrow> request \<Rightarrow> (db_error, principal option \<times> auth_db) result" where
  "forward_authenticate trusted db rq =
     (case rq_remote_user rq of
        None \<Rightarrow> Inr (None, db)
      | Some user_id \<Rightarrow>
          if user_id = [] then Inr (None, db)
          else if \<not> is_trusted_source (rq_client rq) trusted then Inr (None, db)
          else
            let groups = split_groups (rq_remote_groups rq)
            in rbind (upsert_federated_user db ''forward'' user_id (Some user_id)) (\<lambda>(usr, db').
              Inr (Some
                \<lparr> p_subject = u_subject usr, p_source = Forward_Source, p_user_id = u_id usr,
                  p_display_name = u_display_name usr, p_groups = groups,
                  p_grants = map (\<lambda>r. \<lparr> grant_role = r, grant_scope = Global_Scope,
                      grant_host = None, grant_volume = None \<rparr>) (roles_for_groups db' groups),
                  p_mfa_at = None, p_session_id = None \<rparr>, db')))"

section \<open>The chain\<close>

datatype auth_provider = Local_Provider | Forward_Provider "string list"

definition provider_named :: "string list \<Rightarrow> string \<Rightarrow> auth_provider option" where
  "provider_named cidrs name =
     (if name = ''local'' then Some Local_Provider
      else if name = ''forward'' \<and> cidrs \<noteq> [] then Some (Forward_Provider cidrs)
      else None)"

definition build_provider_chain :: "string list \<Rightarrow> string list \<Rightarrow> auth_provider list" where
  "build_provider_chain cidrs auth_providers =
     (let chain = List.map_filter (provider_named cidrs) auth_providers
      in if Local_Provider \<notin> set chain then Local_Provider # chain else chain)"

fun provider_authenticate ::
  "(string \<Rightarrow> string) \<Rightarrow> int \<Rightarrow> auth_db \<Rightarrow> request \<Rightarrow> auth_provider \<Rightarrow>
   (db_error, principal option \<times> auth_db) result" where
  "provider_authenticate sha now db rq Local_Provider =
     rbind (local_authenticate sha now db rq) (\<lambda>p. Inr (p, db))"
| "provider_authenticate sha now db rq (Forward_Provider cidrs) = forward_authenticate cidrs db rq"

fun resolve_principal ::
  "(string \<Rightarrow> string) \<Rightarrow> int \<Rightarrow> auth_db \<Rightarrow> request \<Rightarrow> auth_provider list \<Rightarrow>
   (db_error, principal option \<times> auth_db) result" where
  "resolve_principal sha now db rq [] = Inr (None, db)"
| "resolve_principal sha now db rq (p # ps) =
     rbind (provider_authenticate sha now db rq p) (\<lambda>(r, db').
       case r of
         Some who \<Rightarrow> Inr (Some who, db')
       | None \<Rightarrow> resolve_principal sha now db' rq ps)"

text \<open>\<open>current_principal\<close>: a request no provider knows is answered with 401.\<close>

definition current_principal ::
  "(string \<Rightarrow> string) \<Rightarrow> int \<Rightarrow> string list \<Rightarrow> string list \<Rightarrow> auth_db \<Rightarrow> request \<Rightarrow>
   (db_error, (http_error, principal) result \<times> auth_db) result" where
  "current_principal sha now cidrs auth_providers db rq =
     rbind (resolve_principal sha now db rq (build_provider_chain cidrs auth_providers)) (\<lambda>(r, db').
       Inr (case r of
              None \<Rightarrow> Inl (HTTPException 401 ''authentication required'')
            | Some p \<Rightarrow> Inr p, db'))"

section \<open>Login\<close>

record password_hasher =
  hash_password :: "string \<Rightarrow> string"
  verify_password :: "string \<Rightarrow> string \<Rightarrow> bool"
  needs_rehash :: "string \<Rightarrow> bool"

definition set_password_hash :: "int \<Rightarrow> string \<Rightarrow> auth_db \<Rightarrow> auth_db" where
  "set_password_hash i h db =
     db\<lparr> users := map (\<lambda>u. if u_id u = i then u\<lparr> u_password_hash := Some h \<rparr> else u) (users db) \<rparr>"

definition login ::
  "(string \<Rightarrow> string) \<Rightarrow> password_hasher \<Rightarrow> string \<Rightarrow> int \<Rightarrow> auth_db \<Rightarrow> string \<Rightarrow> string \<Rightarrow> int \<Rightarrow>
   string option \<Rightarrow> string option \<Rightarrow> (db_error, (principal \<times> string) option \<times> auth_db) result" where
  "login sha ph raw now db username password ttl_seconds ip user_agent =
     rbind (get_active_user db ''local'' username) (\<lambda>u.
       case u of
         None \<Rightarrow> Inr (None, db)
       | Some usr \<Rightarrow>
           (case u_password_hash usr of
              None \<Rightarrow> Inr (None, db)
            | Some h \<Rightarrow>
                if \<not> verify_password ph password h then Inr (None, db)
                else
                  let db' = (if needs_rehash ph h
                             then set_password_hash (u_id usr) (hash_password ph password) db else db)
                  in rbind (create_session sha db' raw now (u_id usr) ttl_seconds ip user_agent)
                    (\<lambda>(row, db'').
                      Inr (Some
                        (\<lparr> p_subject = u_subject usr, p_source = Local_Source, p_user_id = u_id usr,
                           p_display_name = u_display_name usr, p_groups = [],
                           p_grants = grants_for_user db'' (u_id usr), p_mfa_at = us_mfa_at row,
                           p_session_id = Some (us_id row) \<rparr>, raw), db''))))"

section \<open>The agent's identity\<close>

text \<open>\<open>require_client_fingerprint\<close>: \<open>expected\<close> is the configured proxy secret; an empty header is
  as good as none.\<close>

abbreviation truthy :: "string option \<Rightarrow> bool" where
  "truthy s \<equiv> s \<noteq> None \<and> s \<noteq> Some []"

definition require_client_fingerprint ::
  "string option \<Rightarrow> string option \<Rightarrow> string option \<Rightarrow> (http_error, string) result" where
  "require_client_fingerprint expected fingerprint proxy_secret =
     (if truthy expected \<and> (\<not> truthy proxy_secret \<or> proxy_secret \<noteq> expected)
      then Inl (HTTPException 401 ''ingest must transit the trusted proxy'')
      else case fingerprint of
          Some (c # cs) \<Rightarrow> Inr (c # cs)
        | _ \<Rightarrow> Inl (HTTPException 401 ''client certificate required''))"

end
