(* ===== verification/Identity_Facts.thy ===== *)
theory Identity_Facts
  imports Identity
begin

text \<open>
  What authentication guarantees: the tables stay well-formed under every operation; a session
  names exactly its user's grants; a login's token is accepted until it expires or is revoked and
  never after; identity headers count only from a trusted peer.
\<close>

section \<open>The tables stay well-formed\<close>

definition auth_ok :: "auth_db \<Rightarrow> bool" where
  "auth_ok db \<longleftrightarrow>
     distinct (map u_id (users db)) \<and> (\<forall>u \<in> set (users db). u_id u < next_user db) \<and>
     distinct (map (\<lambda>u. (u_source u, u_subject u)) (users db)) \<and>
     distinct (map us_id (sessions db)) \<and> (\<forall>s \<in> set (sessions db). us_id s < next_session db) \<and>
     distinct (map us_token_hash (sessions db))"

lemma one_or_none_filter:
  assumes "distinct (map f xs)"
  shows "one_or_none (filter (\<lambda>x. f x = k) xs) = Inr (List.find (\<lambda>x. f x = k) xs)"
  using assms
proof (induction xs)
  case (Cons x xs)
  show ?case
  proof (cases "f x = k")
    case True
    with Cons.prems have "filter (\<lambda>x. f x = k) xs = []" by (auto simp: filter_empty_conv image_iff)
    with True show ?thesis by simp
  qed (use Cons in simp)
qed simp

lemma find_distinct_iff:
  "distinct (map f xs) \<Longrightarrow> List.find (\<lambda>x. f x = k) xs = Some x \<longleftrightarrow> x \<in> set xs \<and> f x = k"
  by (induction xs) (auto simp: find_None_iff)

lemma find_user_ok:
  assumes "auth_ok db"
  shows "find_user db source subject =
    Inr (List.find (\<lambda>u. (u_source u, u_subject u) = (source, subject)) (users db))"
  using one_or_none_filter [of "\<lambda>u. (u_source u, u_subject u)" "users db" "(source, subject)"] assms
  by (simp add: find_user_def auth_ok_def)

definition session_live :: "user_session \<Rightarrow> int \<Rightarrow> bool" where
  "session_live s now \<longleftrightarrow> us_revoked_at s = None \<and> now < as_utc (us_expires_at s)"

lemma lookup_session_ok:
  assumes "auth_ok db"
  shows "lookup_session sha db raw now =
    Inr (case List.find (\<lambda>s. us_token_hash s = sha raw) (sessions db) of
           None \<Rightarrow> None | Some s \<Rightarrow> if session_live s now then Some s else None)"
  using assms
  by (auto simp: lookup_session_def auth_ok_def one_or_none_filter session_live_def split: option.splits)

lemma lookup_session_Some:
  assumes "auth_ok db"
  shows "lookup_session sha db raw now = Inr (Some s) \<longleftrightarrow>
    s \<in> set (sessions db) \<and> us_token_hash s = sha raw \<and> session_live s now"
proof -
  let ?f = "List.find (\<lambda>s. us_token_hash s = sha raw) (sessions db)"
  have "?f = Some s \<longleftrightarrow> s \<in> set (sessions db) \<and> us_token_hash s = sha raw"
    using assms by (intro find_distinct_iff) (simp add: auth_ok_def)
  then show ?thesis
    unfolding lookup_session_ok [OF assms] by (cases ?f) auto
qed

lemma user_by_id_iff:
  "auth_ok db \<Longrightarrow> user_by_id db i = Some u \<longleftrightarrow> u \<in> set (users db) \<and> u_id u = i"
  by (simp add: user_by_id_def auth_ok_def find_distinct_iff)

lemma upsert_keeps:
  assumes "auth_ok db" "upsert_federated_user db source subject name = Inr (u, db')"
  shows "auth_ok db'"
proof (cases "List.find (\<lambda>u. (u_source u, u_subject u) = (source, subject)) (users db)")
  case None
  then have "\<And>u. u \<in> set (users db) \<Longrightarrow> (u_source u, u_subject u) \<noteq> (source, subject)"
    by (auto simp: find_None_iff)
  with None assms show ?thesis
    by (force simp: upsert_federated_user_def find_user_ok auth_ok_def Let_def)
next
  case (Some a)
  with assms show ?thesis by (simp add: upsert_federated_user_def find_user_ok)
qed

lemma create_session_keeps:
  assumes "auth_ok db" "create_session sha db raw now uid ttl ip ua = Inr (row, db')"
  shows "auth_ok db'"
  using assms by (force simp: create_session_def auth_ok_def Let_def split: if_splits)

lemma map_if_same:
  "(\<And>x. P x \<Longrightarrow> f (g x) = f x) \<Longrightarrow> map f (map (\<lambda>x. if P x then g x else x) xs) = map f xs"
  by simp

lemma update_session_keeps:
  assumes "auth_ok db"
    and "\<And>s. us_id (f s) = us_id s" "\<And>s. us_token_hash (f s) = us_token_hash s"
  shows "auth_ok (update_session i f db)"
proof -
  let ?upd = "\<lambda>s. if us_id s = i then f s else s"
  have "map us_id (map ?upd (sessions db)) = map us_id (sessions db)"
    "map us_token_hash (map ?upd (sessions db)) = map us_token_hash (sessions db)"
    "\<And>s. us_id (?upd s) = us_id s"
    by (simp_all add: assms(2,3))
  with assms show ?thesis by (auto simp: auth_ok_def update_session_def simp del: map_map)
qed

lemma set_password_keeps: "auth_ok db \<Longrightarrow> auth_ok (set_password_hash i h db)"
proof -
  let ?upd = "\<lambda>u. if u_id u = i then u\<lparr> u_password_hash := Some h \<rparr> else u"
  have "map u_id (map ?upd (users db)) = map u_id (users db)"
    "map (\<lambda>u. (u_source u, u_subject u)) (map ?upd (users db)) =
      map (\<lambda>u. (u_source u, u_subject u)) (users db)"
    "\<And>u. u_id (?upd u) = u_id u"
    by simp_all
  then show "auth_ok db \<Longrightarrow> auth_ok (set_password_hash i h db)"
    by (auto simp: auth_ok_def set_password_hash_def simp del: map_map)
qed

lemma forward_keeps:
  assumes "auth_ok db" "forward_authenticate cidrs db rq = Inr (r, db')"
  shows "auth_ok db'"
  using assms upsert_keeps [OF assms(1)]
  by (auto simp: forward_authenticate_def Let_def split: option.splits if_splits prod.splits)

lemma resolve_keeps:
  "\<lbrakk> auth_ok db; resolve_principal sha now db rq ps = Inr (r, db') \<rbrakk> \<Longrightarrow> auth_ok db'"
proof (induction ps arbitrary: db)
  case (Cons p ps)
  then show ?case
    by (cases p) (auto split: option.splits dest: forward_keeps)
qed simp

text \<open>The tables a login leaves before it adds the session: the stored hash is upgraded when its
  cost parameters are stale.\<close>

definition rehashed :: "password_hasher \<Rightarrow> string \<Rightarrow> user \<Rightarrow> string \<Rightarrow> auth_db \<Rightarrow> auth_db" where
  "rehashed ph pw u h db =
     (if needs_rehash ph h then set_password_hash (u_id u) (hash_password ph pw) db else db)"

lemma login_cases:
  assumes "login sha ph raw now db name pw ttl ip ua = Inr (r, db')"
  obtains "r = None" "db' = db"
  | u h row where "get_active_user db ''local'' name = Inr (Some u)" "u_password_hash u = Some h"
      "verify_password ph pw h"
      "create_session sha (rehashed ph pw u h db) raw now (u_id u) ttl ip ua = Inr (row, db')"
      "r = Some (\<lparr> p_subject = u_subject u, p_source = Local_Source, p_user_id = u_id u,
         p_display_name = u_display_name u, p_groups = [], p_grants = grants_for_user db' (u_id u),
         p_mfa_at = us_mfa_at row, p_session_id = Some (us_id row) \<rparr>, raw)"
proof -
  obtain o' where o': "get_active_user db ''local'' name = Inr o'"
    using assms by (cases "get_active_user db ''local'' name") (auto simp: login_def)
  show ?thesis
  proof (cases o')
    case None
    with o' assms that(1) show ?thesis by (auto simp: login_def)
  next
    case (Some u)
    show ?thesis
    proof (cases "u_password_hash u")
      case None
      with o' Some assms that(1) show ?thesis by (auto simp: login_def)
    next
      case h: (Some h)
      show ?thesis
      proof (cases "verify_password ph pw h")
        case False
        with o' Some h assms that(1) show ?thesis by (auto simp: login_def)
      next
        case True
        with o' Some h assms that(2) show ?thesis
          by (auto simp: login_def Let_def rehashed_def)
      qed
    qed
  qed
qed

lemma rehashed_keeps: "auth_ok db \<Longrightarrow> auth_ok (rehashed ph pw u h db)"
  by (simp add: rehashed_def set_password_keeps)

lemma login_keeps:
  assumes "auth_ok db" "login sha ph raw now db name pw ttl ip ua = Inr (r, db')"
  shows "auth_ok db'"
  using assms(2)
  by (cases rule: login_cases) (auto intro: assms(1) create_session_keeps rehashed_keeps)

section \<open>What the store grants\<close>

lemma set_collect_grants:
  "set (collect_grants as seen) = {g. \<exists>a \<in> set as. assignment_grant a = Some g} - set seen"
  by (induction as seen rule: collect_grants.induct) (auto split: option.splits)

lemma distinct_collect_grants: "distinct (collect_grants as seen)"
  by (induction as seen rule: collect_grants.induct) (auto simp: set_collect_grants split: option.splits)

lemma grants_exact:
  "set (grants_for_user db i) =
     {g. \<exists>a \<in> set (assignments db). ra_user_id a = i \<and> assignment_grant a = Some g}"
  by (auto simp: grants_for_user_def set_collect_grants)

lemma coerce_role_iff: "coerce_role s = Some r \<longleftrightarrow> s = role_value r"
  by (cases r) (auto simp: coerce_role_def split: if_splits)


section \<open>Sessions\<close>

definition session_principal :: "auth_db \<Rightarrow> user_session \<Rightarrow> user \<Rightarrow> principal" where
  "session_principal db s u =
     \<lparr> p_subject = u_subject u, p_source = coerce_source (u_source u), p_user_id = u_id u,
       p_display_name = u_display_name u, p_groups = [], p_grants = grants_for_user db (u_id u),
       p_mfa_at = us_mfa_at s, p_session_id = Some (us_id s) \<rparr>"

lemma local_authenticate_Some:
  assumes "auth_ok db"
  shows "local_authenticate sha now db rq = Inr (Some p) \<longleftrightarrow>
    (\<exists>token s u. extract_session_token rq = Some token \<and>
       s \<in> set (sessions db) \<and> us_token_hash s = sha token \<and> session_live s now \<and>
       u \<in> set (users db) \<and> u_id u = us_user_id s \<and> u_is_active u \<and>
       p = session_principal db s u)"
proof (cases "extract_session_token rq")
  case None
  then show ?thesis by (simp add: local_authenticate_def)
next
  case (Some token)
  have "local_authenticate sha now db rq = Inr (Some p) \<longleftrightarrow>
      (\<exists>s u. lookup_session sha db token now = Inr (Some s) \<and>
         user_by_id db (us_user_id s) = Some u \<and> u_is_active u \<and> p = session_principal db s u)"
    by (cases "lookup_session sha db token now")
      (auto simp: local_authenticate_def Some session_principal_def split: option.splits)
  then show ?thesis
    unfolding lookup_session_Some [OF assms] user_by_id_iff [OF assms] using Some by auto
qed

lemma local_authenticate_total:
  assumes "auth_ok db"
  shows "\<exists>r. local_authenticate sha now db rq = Inr r"
  by (simp add: local_authenticate_def lookup_session_ok [OF assms] split: option.split)

text \<open>C27. A request is a local user's exactly when its token hashes to the one session that is
  neither revoked nor expired and whose user is active; the principal then carries that user's
  assignments, each well-formed one and no other.\<close>

theorem session_names_its_user:
  assumes "auth_ok db"
  shows "(local_authenticate sha now db rq = Inr (Some p) \<longleftrightarrow>
      (\<exists>token s u. extract_session_token rq = Some token \<and>
         s \<in> set (sessions db) \<and> us_token_hash s = sha token \<and>
         us_revoked_at s = None \<and> now < as_utc (us_expires_at s) \<and>
         u \<in> set (users db) \<and> u_id u = us_user_id s \<and> u_is_active u \<and>
         p = session_principal db s u)) \<and>
    set (p_grants (session_principal db s u)) =
      {\<lparr> grant_role = r, grant_scope = k, grant_host = ra_host_id a, grant_volume = ra_volume_id a \<rparr> | a r k.
        a \<in> set (assignments db) \<and> ra_user_id a = u_id u \<and> ra_role a = role_value r \<and>
        coerce_scope_kind (ra_scope_kind a) = Some k}"
proof -
  have "assignment_grant a = Some g \<longleftrightarrow>
      (\<exists>r k. ra_role a = role_value r \<and> coerce_scope_kind (ra_scope_kind a) = Some k \<and>
         g = \<lparr> grant_role = r, grant_scope = k, grant_host = ra_host_id a, grant_volume = ra_volume_id a \<rparr>)"
    for a g
    by (cases "coerce_role (ra_role a)"; cases "coerce_scope_kind (ra_scope_kind a)")
      (auto simp: assignment_grant.simps coerce_role_iff simp flip: coerce_role_iff)
  then show ?thesis
    unfolding local_authenticate_Some [OF assms] session_live_def
    by (auto simp: session_principal_def grants_exact)
qed

section \<open>Login and logout\<close>

lemma chain_has_local: "Local_Provider \<in> set (build_provider_chain cidrs names)"
  by (simp add: build_provider_chain_def Let_def)

lemma forward_without_header:
  "rq_remote_user rq = None \<Longrightarrow> forward_authenticate cidrs db rq = Inr (None, db)"
  by (simp add: forward_authenticate_def)

lemma resolve_session:
  assumes "rq_remote_user rq = None" "local_authenticate sha now db rq = Inr r"
  shows "resolve_principal sha now db rq ps = Inr (if Local_Provider \<in> set ps then r else None, db)"
proof (induction ps)
  case (Cons p ps)
  then show ?case
    by (cases p; cases r) (simp_all add: assms forward_without_header)
qed simp

lemma current_principal_session:
  assumes "rq_remote_user rq = None" "local_authenticate sha now db rq = Inr r"
  shows "current_principal sha now cidrs names db rq =
    Inr (case r of None \<Rightarrow> Inl (HTTPException 401 ''authentication required'') | Some p \<Rightarrow> Inr p, db)"
  by (simp add: current_principal_def resolve_session [OF assms] chain_has_local)

lemma get_active_user_Some:
  assumes "auth_ok db"
  shows "get_active_user db source subject = Inr (Some u) \<longleftrightarrow>
    u \<in> set (users db) \<and> u_source u = source \<and> u_subject u = subject \<and> u_is_active u"
proof -
  let ?f = "List.find (\<lambda>u. (u_source u, u_subject u) = (source, subject)) (users db)"
  have "?f = Some u \<longleftrightarrow> u \<in> set (users db) \<and> (u_source u, u_subject u) = (source, subject)"
    using assms by (intro find_distinct_iff) (simp add: auth_ok_def)
  then show ?thesis
    unfolding get_active_user_def find_user_ok [OF assms] by (cases ?f) auto
qed

lemma rehashed_user:
  assumes "u \<in> set (users db)"
  obtains u' where "u' \<in> set (users (rehashed ph pw v h db))" "u_id u' = u_id u"
    "u_subject u' = u_subject u" "u_source u' = u_source u"
    "u_display_name u' = u_display_name u" "u_is_active u' = u_is_active u"
proof -
  let ?u = "if needs_rehash ph h \<and> u_id u = u_id v
    then u\<lparr> u_password_hash := Some (hash_password ph pw) \<rparr> else u"
  have "?u \<in> set (users (rehashed ph pw v h db))"
    using assms by (auto simp: rehashed_def set_password_hash_def image_iff)
  then show ?thesis by (rule that) simp_all
qed

lemma create_session_tables:
  assumes "create_session sha db raw now uid ttl ip ua = Inr (row, db')"
  shows "users db' = users db" "assignments db' = assignments db" "row \<in> set (sessions db')"
    "us_token_hash row = sha raw" "us_user_id row = uid" "us_revoked_at row = None"
    "as_utc (us_expires_at row) = now + seconds ttl"
  using assms by (auto simp: create_session_def Let_def split: if_splits)

lemma unique_session:
  "\<lbrakk> auth_ok db; s \<in> set (sessions db); t \<in> set (sessions db);
     us_token_hash s = us_token_hash t \<or> us_id s = us_id t \<rbrakk> \<Longrightarrow> s = t"
  by (auto simp: auth_ok_def distinct_map inj_on_def)

lemma unique_user: "\<lbrakk> auth_ok db; u \<in> set (users db); v \<in> set (users db); u_id u = u_id v \<rbrakk> \<Longrightarrow> u = v"
  by (auto simp: auth_ok_def distinct_map inj_on_def)

lemma revoke_keeps: "auth_ok db \<Longrightarrow> auth_ok (revoke_session db row t)"
  by (simp add: revoke_session_def update_session_keeps)

lemma revoked_session_refused:
  assumes ok: "auth_ok db" and "row \<in> set (sessions db)" "us_token_hash row = sha token"
    and "extract_session_token rq = Some token"
  shows "local_authenticate sha now (revoke_session db row t) rq = Inr None"
proof -
  let ?db = "revoke_session db row t"
  obtain r where r: "local_authenticate sha now ?db rq = Inr r"
    using local_authenticate_total [OF revoke_keeps [OF ok]] by blast
  have "us_revoked_at s \<noteq> None" if "s \<in> set (sessions ?db)" "us_token_hash s = sha token" for s
  proof -
    from that obtain s0 where s0: "s0 \<in> set (sessions db)"
      "s = (if us_id s0 = us_id row then s0\<lparr> us_revoked_at := Some (utc t) \<rparr> else s0)"
      by (auto simp: revoke_session_def update_session_def)
    with that(2) have "us_token_hash s0 = us_token_hash row" using assms(3) by (simp split: if_splits)
    with unique_session [OF ok s0(1) assms(2)] s0(2) show ?thesis by simp
  qed
  then have "\<not> local_authenticate sha now ?db rq = Inr (Some p)" for p
    unfolding local_authenticate_Some [OF revoke_keeps [OF ok]] session_live_def
    using assms(4) by auto
  with r show ?thesis by (cases r) auto
qed


text \<open>C28. A login's token is accepted as the very principal the login returned until it expires,
  by any chain, and never after; revoking the session ends it at once.\<close>

theorem login_round_trip:
  assumes ok: "auth_ok db"
    and login: "login sha ph raw now db name pw ttl ip ua = Inr (Some (p, token), db')"
    and rq: "extract_session_token rq = Some token" "rq_remote_user rq = None"
  shows "current_principal sha t cidrs names db' rq =
      Inr (if t < now + seconds ttl then Inr p else Inl (HTTPException 401 ''authentication required''), db') \<and>
    (\<exists>row \<in> set (sessions db'). p_session_id p = Some (us_id row) \<and>
       (\<forall>t'. current_principal sha t cidrs names (revoke_session db' row t') rq =
          Inr (Inl (HTTPException 401 ''authentication required''), revoke_session db' row t')))"
  using login
proof (cases rule: login_cases)
  case (2 u h row)
  let ?db1 = "rehashed ph pw u h db"
  from 2(5) have token: "token = raw" by simp
  have ok1: "auth_ok ?db1" using ok by (rule rehashed_keeps)
  have ok': "auth_ok db'" using ok1 2(4) by (rule create_session_keeps)
  note created = create_session_tables [OF 2(4)]
  from 2(1) have u: "u \<in> set (users db)" "u_source u = ''local''" "u_is_active u"
    by (simp_all add: get_active_user_Some [OF ok])
  obtain u' where "u' \<in> set (users ?db1)" and u': "u_id u' = u_id u" "u_subject u' = u_subject u"
    "u_source u' = u_source u" "u_display_name u' = u_display_name u" "u_is_active u' = u_is_active u"
    using rehashed_user [OF u(1)] .
  then have mem: "u' \<in> set (users db')" by (simp add: created)
  have p: "p = session_principal db' row u'"
    using 2(5) u u' by (simp add: session_principal_def coerce_source_def)
  have local: "local_authenticate sha t db' rq = Inr (if t < now + seconds ttl then Some p else None)"
  proof (cases "t < now + seconds ttl")
    case True
    then have "session_live row t" by (simp add: session_live_def created)
    with True rq(1) mem u u' show ?thesis
      by (auto simp: local_authenticate_Some [OF ok'] p token created intro!: exI [of _ row] exI [of _ u'])
  next
    case False
    then have "\<not> session_live row t" by (simp add: session_live_def created)
    with rq(1) token have "\<not> local_authenticate sha t db' rq = Inr (Some q)" for q
      using unique_session [OF ok' _ created(3)] created(4)
      by (auto simp: local_authenticate_Some [OF ok'])
    with False local_authenticate_total [OF ok', of sha t rq] show ?thesis
      by (metis option.exhaust)
  qed
  have "current_principal sha t cidrs names (revoke_session db' row t') rq =
      Inr (Inl (HTTPException 401 ''authentication required''), revoke_session db' row t')" for t'
    using current_principal_session [OF rq(2) revoked_session_refused [OF ok' created(3) _ rq(1)]]
      created(4) token
    by simp
  moreover have "p_session_id p = Some (us_id row)" by (simp add: p session_principal_def)
  ultimately show ?thesis
    using created(3) by (auto simp: current_principal_session [OF rq(2) local])
qed simp

text \<open>No operation breaks the tables: logging in, authenticating a request by any chain,
  revoking a session and stamping a step-up keep every id, every token hash and every
  (source, subject) pair unique.\<close>

theorem auth_operations_keep_tables:
  assumes "auth_ok db"
  shows "(login sha ph raw now db name pw ttl ip ua = Inr (r, db1) \<longrightarrow> auth_ok db1) \<and>
    (current_principal sha now cidrs names db rq = Inr (w, db2) \<longrightarrow> auth_ok db2) \<and>
    auth_ok (revoke_session db row now) \<and> auth_ok (mark_step_up db row now)"
  using assms login_keeps [OF assms] resolve_keeps [OF assms] revoke_keeps [OF assms]
  by (auto simp: current_principal_def mark_step_up_def update_session_keeps)

section \<open>Identity headers\<close>

text \<open>Identity headers count only from a trusted peer: unless the address the request comes
  from agrees with a configured network on the bits of its prefix, the request is answered as if
  the headers were not there, and no user is created for them.\<close>

theorem untrusted_headers_ignored:
  assumes "\<And>s a c b k. \<lbrakk> rq_client rq = Some s; ip_address s = Some a; c \<in> set cidrs;
      written_net c = Some (b, k) \<rbrakk> \<Longrightarrow> \<not> same_prefix k a b"
  shows "current_principal sha now cidrs names db rq =
    current_principal sha now cidrs names db (rq\<lparr> rq_remote_user := None, rq_remote_groups := None \<rparr>)"
proof -
  let ?rq = "rq\<lparr> rq_remote_user := None, rq_remote_groups := None \<rparr>"
  have untrusted: "\<not> is_trusted_source (rq_client rq) cidrs"
    unfolding is_trusted_source_iff using assms by blast
  have forward: "forward_authenticate cidrs d rq = forward_authenticate cidrs d ?rq" for d
    using untrusted by (simp add: forward_authenticate_def split: option.split)
  have "extract_session_token ?rq = extract_session_token rq"
    by (simp add: extract_session_token_def cong: option.case_cong list.case_cong)
  then have "local_authenticate sha now d rq = local_authenticate sha now d ?rq" for d
    by (simp add: local_authenticate_def)
  with forward have "resolve_principal sha now d rq ps = resolve_principal sha now d ?rq ps"
    if "\<And>c. Forward_Provider c \<in> set ps \<Longrightarrow> c = cidrs" for d ps
    using that
  proof (induction ps arbitrary: d)
    case (Cons p ps)
    then have "provider_authenticate sha now d rq p = provider_authenticate sha now d ?rq p"
      by (cases p) auto
    moreover have "resolve_principal sha now d' rq ps = resolve_principal sha now d' ?rq ps" for d'
      using Cons by simp
    ultimately show ?case by (simp only: resolve_principal.simps)
  qed simp
  moreover have "c = cidrs" if "Forward_Provider c \<in> set (build_provider_chain cidrs names)" for c
    using that
    by (auto simp: build_provider_chain_def Let_def provider_named_def map_filter_def split: if_splits)
  ultimately show ?thesis by (simp add: current_principal_def)
qed

text \<open>From a trusted peer, a user whose record has been deactivated is still authenticated, with
  the roles its groups map to: the forward provider does not look at \<open>is_active\<close>.\<close>

theorem deactivated_forward_user_authenticated:
  assumes ok: "auth_ok db"
    and u: "u \<in> set (users db)" "u_source u = ''forward''" "u_subject u = c # name" "\<not> u_is_active u"
    and trusted: "is_trusted_source (rq_client rq) cidrs"
    and rq: "rq_remote_user rq = Some (c # name)" "extract_session_token rq = None"
    and chain: "''forward'' \<in> set names" "cidrs \<noteq> []"
  shows "\<exists>p. current_principal sha now cidrs names db rq = Inr (Inr p, db) \<and> p_user_id p = u_id u \<and>
    p_grants p = map (\<lambda>r. \<lparr> grant_role = r, grant_scope = Global_Scope, grant_host = None,
      grant_volume = None \<rparr>) (roles_for_groups db (split_groups (rq_remote_groups rq)))"
proof -
  let ?f = "List.find (\<lambda>u. (u_source u, u_subject u) = (''forward'', c # name)) (users db)"
  have "?f = Some u" using ok u by (subst find_distinct_iff) (simp_all add: auth_ok_def)
  then have "upsert_federated_user db ''forward'' (c # name) (Some (c # name)) = Inr (u, db)"
    by (simp add: upsert_federated_user_def find_user_ok [OF ok])
  then obtain p where p: "forward_authenticate cidrs db rq = Inr (Some p, db)" "p_user_id p = u_id u"
    "p_grants p = map (\<lambda>r. \<lparr> grant_role = r, grant_scope = Global_Scope, grant_host = None,
      grant_volume = None \<rparr>) (roles_for_groups db (split_groups (rq_remote_groups rq)))"
    by (simp add: forward_authenticate_def rq trusted Let_def)
  have "resolve_principal sha now db rq ps = Inr (Some p, db)"
    if "Forward_Provider cidrs \<in> set ps" "set ps \<subseteq> {Local_Provider, Forward_Provider cidrs}" for ps
    using that
  proof (induction ps)
    case (Cons q ps)
    show ?case
    proof (cases q)
      case Local_Provider
      have "resolve_principal sha now db rq ps = Inr (Some p, db)"
        using Cons.prems Local_Provider by (intro Cons.IH) auto
      moreover have "local_authenticate sha now db rq = Inr None"
        by (simp add: local_authenticate_def rq(2))
      ultimately show ?thesis by (simp add: Local_Provider)
    next
      case (Forward_Provider d)
      then have "d = cidrs" using Cons.prems(2) by simp
      with Forward_Provider show ?thesis by (simp add: p(1))
    qed
  qed simp
  moreover have "Forward_Provider cidrs \<in> set (build_provider_chain cidrs names)"
    "set (build_provider_chain cidrs names) \<subseteq> {Local_Provider, Forward_Provider cidrs}"
    using chain
    by (auto simp: build_provider_chain_def Let_def provider_named_def map_filter_def image_iff split: if_splits)
  ultimately show ?thesis using p by (simp add: current_principal_def)
qed


section \<open>A concrete store\<close>

definition sample_auth :: auth_db where
  "sample_auth =
     \<lparr> users =
         [\<lparr> u_id = 1, u_subject = ''ann'', u_source = ''local'', u_display_name = None,
            u_password_hash = Some ''old'', u_is_active = True \<rparr>,
          \<lparr> u_id = 2, u_subject = ''bob'', u_source = ''forward'', u_display_name = None,
            u_password_hash = None, u_is_active = False \<rparr>],
       assignments =
         [\<lparr> ra_user_id = 1, ra_role = ''viewer'', ra_scope_kind = ''host'', ra_host_id = Some 7,
            ra_volume_id = None \<rparr>,
          \<lparr> ra_user_id = 1, ra_role = ''owner'', ra_scope_kind = ''global'', ra_host_id = None,
            ra_volume_id = None \<rparr>],
       sessions = [],
       bindings = [\<lparr> ib_group_claim = ''ops'', ib_role = ''admin'' \<rparr>],
       next_user = 3, next_session = 1 \<rparr>"

definition sample_hasher :: password_hasher where
  "sample_hasher =
     \<lparr> hash_password = (\<lambda>p. ''new''), verify_password = (\<lambda>p h. p = ''pw''), needs_rehash = (\<lambda>h. h = ''old'') \<rparr>"

definition sample_request :: "string option \<Rightarrow> string option \<Rightarrow> request" where
  "sample_request cookie remote =
     \<lparr> rq_cookie = cookie, rq_authorization = None, rq_remote_user = remote,
       rq_remote_groups = Some ''ops, dev'', rq_client = Some ''10.0.0.9'' \<rparr>"

lemma sample_auth_ok: "auth_ok sample_auth"
  by (simp add: auth_ok_def sample_auth_def)

definition sample_login :: "(principal \<times> string) \<times> auth_db" where
  "sample_login =
     (case login (\<lambda>s. CHR ''h'' # s) sample_hasher ''tok'' 0 sample_auth ''ann'' ''pw'' 60 None None of
        Inr (Some r, db) \<Rightarrow> (r, db) | _ \<Rightarrow> undefined)"

lemma sample_login:
  "login (\<lambda>s. CHR ''h'' # s) sample_hasher ''tok'' 0 sample_auth ''ann'' ''pw'' 60 None None =
     Inr (Some (fst (fst sample_login), ''tok''), snd sample_login)"
  by code_simp

lemma sample_login_session:
  "sessions (snd sample_login) =
     [\<lparr> us_id = 1, us_user_id = 1, us_token_hash = ''htok'', us_expires_at = utc 60000000,
        us_mfa_at = None, us_revoked_at = None, us_ip = None, us_user_agent = None \<rparr>]"
  by code_simp

theorem login_round_trip_witness:
  "current_principal (\<lambda>s. CHR ''h'' # s) 59999999 [] [''local''] (snd sample_login)
      (sample_request (Some ''tok'') None) =
    Inr (Inr (fst (fst sample_login)), snd sample_login) \<and>
   current_principal (\<lambda>s. CHR ''h'' # s) 60000000 [] [''local''] (snd sample_login)
      (sample_request (Some ''tok'') None) =
    Inr (Inl (HTTPException 401 ''authentication required''), snd sample_login)"
proof -
  have rq: "extract_session_token (sample_request (Some ''tok'') None) = Some ''tok''"
    "rq_remote_user (sample_request (Some ''tok'') None) = None"
    by (simp_all add: extract_session_token_def sample_request_def)
  note trip = login_round_trip [OF sample_auth_ok sample_login rq, THEN conjunct1]
  show ?thesis
    by (rule conjI; subst trip) (simp_all add: seconds_def)
qed

theorem session_names_its_user_witness:
  "\<exists>p. local_authenticate (\<lambda>s. CHR ''h'' # s) 5 (snd sample_login)
      (sample_request (Some ''tok'') None) = Inr (Some p)"
proof -
  have ok: "auth_ok (snd sample_login)"
    using login_keeps [OF sample_auth_ok sample_login] .
  have u: "\<exists>u \<in> set (users (snd sample_login)). u_id u = 1 \<and> u_is_active u" by code_simp
  then obtain u where u: "u \<in> set (users (snd sample_login))" "u_id u = 1" "u_is_active u" by blast
  let ?s = "\<lparr> us_id = 1, us_user_id = 1, us_token_hash = ''htok'', us_expires_at = utc 60000000,
        us_mfa_at = None, us_revoked_at = None, us_ip = None, us_user_agent = None \<rparr>"
  have "local_authenticate (\<lambda>s. CHR ''h'' # s) 5 (snd sample_login)
      (sample_request (Some ''tok'') None) = Inr (Some (session_principal (snd sample_login) ?s u))"
    using u
    by (intro session_names_its_user [OF ok, THEN conjunct1, THEN iffD2] exI [of _ "''tok''"] exI [of _ ?s]
        exI [of _ u]) (simp_all add: sample_login_session extract_session_token_def sample_request_def)
  then show ?thesis by blast
qed

theorem auth_operations_keep_tables_witness: "auth_ok (snd sample_login)"
  using auth_operations_keep_tables [OF sample_auth_ok, THEN conjunct1, THEN mp, OF sample_login] .

theorem untrusted_headers_ignored_witness:
  "current_principal (\<lambda>s. s) 0 [''172.20.0.0/16''] [''forward''] sample_auth (sample_request None (Some ''bob'')) =
   current_principal (\<lambda>s. s) 0 [''172.20.0.0/16''] [''forward''] sample_auth
     ((sample_request None (Some ''bob''))\<lparr> rq_remote_user := None, rq_remote_groups := None \<rparr>)"
proof (rule untrusted_headers_ignored)
  have "\<not> is_trusted_source (Some ''10.0.0.9'') [''172.20.0.0/16'']" by code_simp
  then show "\<not> same_prefix k a b"
    if "rq_client (sample_request None (Some ''bob'')) = Some s" "ip_address s = Some a"
      "c \<in> set [''172.20.0.0/16'']" "written_net c = Some (b, k)" for s a c b k
    using that unfolding is_trusted_source_iff by (auto simp: sample_request_def)
qed

theorem deactivated_forward_user_authenticated_witness:
  "\<exists>p. current_principal (\<lambda>s. s) 0 [''10.0.0.0/8''] [''forward''] sample_auth
      (sample_request None (Some ''bob'')) = Inr (Inr p, sample_auth) \<and> has_capability p EXECUTE_REMEDIATION"
proof -
  have trusted: "is_trusted_source (rq_client (sample_request None (Some ''bob''))) [''10.0.0.0/8'']"
    by code_simp
  have rq: "rq_remote_user (sample_request None (Some ''bob'')) = Some (CHR ''b'' # ''ob'')"
    "extract_session_token (sample_request None (Some ''bob'')) = None"
    by (simp_all add: sample_request_def extract_session_token_def)
  have "roles_for_groups sample_auth (split_groups (rq_remote_groups (sample_request None (Some ''bob'')))) =
      [ADMIN]"
    by code_simp
  with deactivated_forward_user_authenticated [OF sample_auth_ok _ _ _ _ trusted rq, of
      "\<lparr> u_id = 2, u_subject = ''bob'', u_source = ''forward'', u_display_name = None,
         u_password_hash = None, u_is_active = False \<rparr>" "[''forward'']" "\<lambda>s. s" 0]
  show ?thesis by (auto simp: sample_auth_def has_capability_def)
qed

end
