(* ===== verification/Dedup.thy ===== *)
theory Dedup
  imports Prelude
begin

text \<open>
  Duplicate detection (\<open>core/dedup.py\<close>): candidates are grouped by size, then by the partial hash,
  then by the full hash, and a file is hashed only if it still shares everything so far with
  another. The hasher is a parameter whose two calls may raise. The loops over the
  \<open>defaultdict(list)\<close> groups are in insertion order, as Python's.
\<close>

section \<open>Candidates and groups\<close>

datatype file_id = Int_Id int | Str_Id string

record candidate =
  c_id :: file_id
  c_path :: string
  c_size :: int
  c_dev :: int

record duplicate_group =
  dg_full_hash :: string
  dg_size :: int
  dg_member_ids :: "file_id list"
  dg_reclaimable_bytes :: int
  dg_suggested_keeper_id :: file_id

record 'e hasher =
  partial_hash :: "string \<Rightarrow> int \<Rightarrow> ('e, string) result"
  full_hash :: "string \<Rightarrow> ('e, string) result"

text \<open>\<open>min(members, key=lambda c: (c.path.count("/"), c.path))\<close>; the callers pass two members or
  more.\<close>

definition keeper_key :: "candidate \<Rightarrow> nat \<times> string" where
  "keeper_key c = (count_list (c_path c) (CHR ''/''), c_path c)"

fun keep_shortest_path :: "candidate list \<Rightarrow> candidate" where
  "keep_shortest_path (c # cs) = min_by keeper_key c cs"
| "keep_shortest_path [] = undefined"

section \<open>The funnel\<close>

text \<open>\<open>for c in cs: d[await key(c)].append(c)\<close>: the first key that raises ends the loop.\<close>

fun group_loop ::
  "('a \<Rightarrow> ('e, 'k) result) \<Rightarrow> 'a list \<Rightarrow> ('k \<times> 'a list) list \<Rightarrow> ('e, ('k \<times> 'a list) list) result" where
  "group_loop key [] d = Inr d"
| "group_loop key (x # xs) d = rbind (key x) (\<lambda>k. group_loop key xs (dict_append k x d))"

text \<open>The loop over groups: those of one member are skipped, the others give their results in
  turn.\<close>

fun concat_groups ::
  "('k \<Rightarrow> 'a list \<Rightarrow> ('e, 'b list) result) \<Rightarrow> ('k \<times> 'a list) list \<Rightarrow> ('e, 'b list) result" where
  "concat_groups f [] = Inr []"
| "concat_groups f ((k, xs) # d) =
     (if length xs < 2 then concat_groups f d
      else rbind (f k xs) (\<lambda>us. rbind (concat_groups f d) (\<lambda>vs. Inr (us @ vs))))"

definition make_group ::
  "(candidate list \<Rightarrow> candidate) \<Rightarrow> int \<Rightarrow> string \<Rightarrow> candidate list \<Rightarrow> duplicate_group" where
  "make_group keeper sz hash members =
     \<lparr> dg_full_hash = hash, dg_size = sz, dg_member_ids = map c_id members,
       dg_reclaimable_bytes = sz * (int (length members) - 1),
       dg_suggested_keeper_id = c_id (keeper members) \<rparr>"

definition full_stage ::
  "'e hasher \<Rightarrow> (candidate list \<Rightarrow> candidate) \<Rightarrow> int \<Rightarrow> candidate list \<Rightarrow>
   ('e, duplicate_group list) result" where
  "full_stage h keeper sz members =
     rbind (group_loop (\<lambda>c. full_hash h (c_path c)) members [])
       (concat_groups (\<lambda>hash full_members. Inr [make_group keeper sz hash full_members]))"

definition partial_stage ::
  "'e hasher \<Rightarrow> (candidate list \<Rightarrow> candidate) \<Rightarrow> int \<Rightarrow> candidate list \<Rightarrow>
   ('e, duplicate_group list) result" where
  "partial_stage h keeper sz sized =
     rbind (group_loop (\<lambda>c. partial_hash h (c_path c) sz) sized [])
       (concat_groups (\<lambda>_ members. full_stage h keeper sz members))"

definition find_duplicates ::
  "'e hasher \<Rightarrow> (candidate list \<Rightarrow> candidate) \<Rightarrow> bool \<Rightarrow> candidate list \<Rightarrow>
   ('e, duplicate_group list) result" where
  "find_duplicates h keeper skip_empty candidates =
     concat_groups (partial_stage h keeper)
       (group_by c_size (filter (\<lambda>c. \<not> (skip_empty \<and> c_size c = 0)) candidates))"

section \<open>The loops\<close>

lemma group_loop_fold:
  "(\<And>x. x \<in> set xs \<Longrightarrow> key x = Inr (k x)) \<Longrightarrow>
     group_loop key xs d = Inr (fold (\<lambda>x d. dict_append (k x) x d) xs d)"
  by (induction xs arbitrary: d) simp_all

lemma group_loop_ok:
  "(\<And>x. x \<in> set xs \<Longrightarrow> key x = Inr (k x)) \<Longrightarrow> group_loop key xs [] = Inr (group_by k xs)"
  by (simp add: group_by_def group_loop_fold)

lemma concat_groups_ok:
  assumes "\<And>k xs. (k, xs) \<in> set d \<Longrightarrow> 2 \<le> length xs \<Longrightarrow> f k xs = Inr (g k xs)"
  shows "concat_groups f d = Inr (concat (map (\<lambda>(k, xs). if length xs < 2 then [] else g k xs) d))"
  using assms by (induction d) auto

text \<open>A candidate that reaches a hash: one that shares its size, respectively its size and its
  partial hash, with another candidate.\<close>

definition considered :: "bool \<Rightarrow> candidate list \<Rightarrow> candidate list" where
  "considered skip_empty cs = filter (\<lambda>c. \<not> (skip_empty \<and> c_size c = 0)) cs"

definition alike :: "('a \<Rightarrow> 'k) \<Rightarrow> 'a list \<Rightarrow> 'a \<Rightarrow> 'a list" where
  "alike key cs c = filter (\<lambda>x. key x = key c) cs"

text \<open>What a run needs of the hasher: a partial hash of each candidate that shares its size, a full
  hash of each that shares its partial hash as well. Nothing is asked about the others.\<close>

definition hashes ::
  "'e hasher \<Rightarrow> candidate list \<Rightarrow> (candidate \<Rightarrow> string) \<Rightarrow> (candidate \<Rightarrow> string) \<Rightarrow> bool" where
  "hashes h cs p q \<longleftrightarrow>
     (\<forall>c \<in> set cs. 2 \<le> length (alike c_size cs c) \<longrightarrow>
        partial_hash h (c_path c) (c_size c) = Inr (p c) \<and>
        (2 \<le> length (alike (\<lambda>x. (c_size x, p x)) cs c) \<longrightarrow> full_hash h (c_path c) = Inr (q c)))"

text \<open>The reference: one grouping by size and both hashes.\<close>

definition confirmed_groups ::
  "(candidate list \<Rightarrow> candidate) \<Rightarrow> (candidate \<Rightarrow> string) \<Rightarrow> (candidate \<Rightarrow> string) \<Rightarrow> candidate list \<Rightarrow>
   duplicate_group set" where
  "confirmed_groups keeper p q cs =
     (\<lambda>(s, a, b). make_group keeper s b (filter (\<lambda>x. (c_size x, p x, q x) = (s, a, b)) cs)) `
       {k. 2 \<le> length (filter (\<lambda>x. (c_size x, p x, q x) = k) cs)}"

definition stage :: "('k \<Rightarrow> 'a list \<Rightarrow> 'b list) \<Rightarrow> ('a \<Rightarrow> 'k) \<Rightarrow> 'a list \<Rightarrow> 'b list" where
  "stage f key ms = concat (map (\<lambda>(b, xs). if length xs < 2 then [] else f b xs) (group_by key ms))"

lemma stage_mem:
  "x \<in> set (stage f key ms) \<longleftrightarrow>
     (\<exists>b. 2 \<le> length (filter (\<lambda>y. key y = b) ms) \<and> x \<in> set (f b (filter (\<lambda>y. key y = b) ms)))"
  (is "_ \<longleftrightarrow> (\<exists>b. ?P b)")
proof
  assume "x \<in> set (stage f key ms)"
  then obtain b xs where "(b, xs) \<in> set (group_by key ms)" "\<not> length xs < 2" "x \<in> set (f b xs)"
    by (auto simp: stage_def split: if_splits)
  then have "?P b" by (simp add: group_by_mem)
  then show "\<exists>b. ?P b" ..
next
  assume "\<exists>b. ?P b"
  then obtain b where b: "?P b" ..
  then have "(b, filter (\<lambda>y. key y = b) ms) \<in> set (group_by key ms)"
    by (auto simp: group_by_mem)
  with b show "x \<in> set (stage f key ms)" by (force simp: stage_def)
qed

lemma concat_groups_stage:
  assumes "\<And>b. 2 \<le> length (filter (\<lambda>y. key y = b) ms) \<Longrightarrow>
    f b (filter (\<lambda>y. key y = b) ms) = Inr (g b (filter (\<lambda>y. key y = b) ms))"
  shows "concat_groups f (group_by key ms) = Inr (stage g key ms)"
  unfolding stage_def using assms by (intro concat_groups_ok) (simp add: group_by_mem)

lemma stage_filter_twice: "filter P (filter Q xs) = filter (\<lambda>x. Q x \<and> P x) xs"
  by (simp add: conj_commute)

abbreviation full_groups where
  "full_groups keeper s q \<equiv> stage (\<lambda>b xs. [make_group keeper s b xs]) q"

lemma full_stage_groups:
  assumes "\<And>c. c \<in> set ms \<Longrightarrow> full_hash h (c_path c) = Inr (q c)"
  shows "full_stage h keeper s ms = Inr (full_groups keeper s q ms)"
  unfolding full_stage_def by (simp add: group_loop_ok [OF assms] concat_groups_stage)

lemma partial_stage_groups:
  assumes "hashes h cs p q" "ms = filter (\<lambda>x. c_size x = s) cs" "2 \<le> length ms"
  shows "partial_stage h keeper s ms = Inr (stage (\<lambda>_. full_groups keeper s q) p ms)"
proof -
  have part: "partial_hash h (c_path c) s = Inr (p c)" if "c \<in> set ms" for c
  proof -
    have "alike c_size cs c = ms" "c_size c = s" using that assms(2) by (auto simp: alike_def)
    with that assms show ?thesis by (auto simp: hashes_def)
  qed
  have "full_stage h keeper s (filter (\<lambda>x. p x = a) ms) =
      Inr (full_groups keeper s q (filter (\<lambda>x. p x = a) ms))"
    if "2 \<le> length (filter (\<lambda>x. p x = a) ms)" for a
  proof (rule full_stage_groups)
    fix c assume c: "c \<in> set (filter (\<lambda>x. p x = a) ms)"
    then have "alike c_size cs c = ms" "alike (\<lambda>x. (c_size x, p x)) cs c = filter (\<lambda>x. p x = a) ms"
      using assms(2) by (auto simp: alike_def stage_filter_twice intro!: filter_cong)
    with c that assms show "full_hash h (c_path c) = Inr (q c)" by (auto simp: hashes_def)
  qed
  then show ?thesis
    unfolding partial_stage_def by (simp add: group_loop_ok [of ms _ p] part concat_groups_stage)
qed

lemma find_duplicates_groups:
  assumes "hashes h (considered skip_empty cs) p q"
  shows "find_duplicates h keeper skip_empty cs =
    Inr (stage (\<lambda>s. stage (\<lambda>_. full_groups keeper s q) p) c_size (considered skip_empty cs))"
  unfolding find_duplicates_def considered_def [symmetric]
  by (rule concat_groups_stage) (rule partial_stage_groups [OF assms refl])

lemma length_filter_mono: "\<lbrakk> n \<le> length (filter P (filter Q xs)) \<rbrakk> \<Longrightarrow> n \<le> length (filter Q xs)"
  by (meson dual_order.trans length_filter_le)

lemma stage_confirmed:
  "set (stage (\<lambda>s. stage (\<lambda>_. full_groups keeper s q) p) c_size cs) = confirmed_groups keeper p q cs"
proof (intro set_eqI)
  fix g
  let ?F = "\<lambda>s a b. filter (\<lambda>x. q x = b) (filter (\<lambda>x. p x = a) (filter (\<lambda>x. c_size x = s) cs))"
  have F: "?F s a b = filter (\<lambda>x. (c_size x, p x, q x) = (s, a, b)) cs" for s a b
    by (simp add: stage_filter_twice)
  have "g \<in> set (stage (\<lambda>s. stage (\<lambda>_. full_groups keeper s q) p) c_size cs) \<longleftrightarrow>
      (\<exists>s a b. 2 \<le> length (?F s a b) \<and> g = make_group keeper s b (?F s a b))"
    unfolding stage_mem by (simp del: filter_filter) (blast dest: length_filter_mono)
  also have "\<dots> \<longleftrightarrow> g \<in> confirmed_groups keeper p q cs"
    unfolding F confirmed_groups_def by (auto simp: image_iff)
  finally show "g \<in> set (stage (\<lambda>s. stage (\<lambda>_. full_groups keeper s q) p) c_size cs) \<longleftrightarrow>
      g \<in> confirmed_groups keeper p q cs" .
qed


section \<open>What a run reports\<close>

lemma make_group_keeper:
  assumes "2 \<le> length ms"
  shows "\<exists>k \<in> set ms. dg_suggested_keeper_id (make_group keep_shortest_path s b ms) = c_id k \<and>
    (\<forall>m \<in> set ms. keeper_key k \<le> keeper_key m)"
proof -
  from assms obtain c cs where ms: "ms = c # cs" by (cases ms) auto
  show ?thesis
    by (rule bexI [of _ "min_by keeper_key c cs"])
      (use min_by_mem [of keeper_key c cs] min_by_le [of _ c cs keeper_key] in
        \<open>auto simp: ms make_group_def simp del: set_simps\<close>)
qed

lemma sum_same_size: "\<forall>m \<in> set ms. c_size m = s \<Longrightarrow> sum_list (map c_size ms) = s * int (length ms)"
  by (induction ms) (simp_all add: algebra_simps)

lemma make_group_reclaimable:
  assumes "2 \<le> length ms" "\<forall>m \<in> set ms. c_size m = s"
  shows "dg_reclaimable_bytes (make_group keeper s b ms) = sum_list (map c_size (tl ms))"
  using assms by (cases ms) (simp_all add: make_group_def sum_same_size [of _ s])

text \<open>A run reports exactly the classes of two or more candidates that agree on size, partial
  hash and full hash, as one grouping by all three would, while it asks the hasher nothing about a
  file that is alone with its size, and no full hash of one that is alone with its partial hash. In
  each group the suggested keeper is a member with the fewest separators in its path, first in
  order among those, and all copies but one are counted as reclaimable.\<close>

theorem duplicate_groups_exact:
  assumes "hashes h (considered skip_empty cs) p q"
  shows "\<exists>gs. find_duplicates h keep_shortest_path skip_empty cs = Inr gs \<and>
    set gs = confirmed_groups keep_shortest_path p q (considered skip_empty cs) \<and>
    (\<forall>g \<in> set gs. \<exists>ms. 2 \<le> length ms \<and> set ms \<subseteq> set cs \<and> dg_member_ids g = map c_id ms \<and>
       (\<forall>m \<in> set ms. c_size m = dg_size g \<and> q m = dg_full_hash g) \<and>
       dg_reclaimable_bytes g = sum_list (map c_size (tl ms)) \<and>
       (\<exists>k \<in> set ms. dg_suggested_keeper_id g = c_id k \<and> (\<forall>m \<in> set ms. keeper_key k \<le> keeper_key m)))"
proof (rule exI, intro conjI ballI)
  let ?gs = "stage (\<lambda>s. stage (\<lambda>_. full_groups keep_shortest_path s q) p) c_size (considered skip_empty cs)"
  show "find_duplicates h keep_shortest_path skip_empty cs = Inr ?gs"
    by (rule find_duplicates_groups [OF assms])
  show "set ?gs = confirmed_groups keep_shortest_path p q (considered skip_empty cs)"
    by (rule stage_confirmed)
  fix g assume "g \<in> set ?gs"
  then obtain s a b where
    len: "2 \<le> length (filter (\<lambda>x. (c_size x, p x, q x) = (s, a, b)) (considered skip_empty cs))"
    and g: "g = make_group keep_shortest_path s b
      (filter (\<lambda>x. (c_size x, p x, q x) = (s, a, b)) (considered skip_empty cs))"
    by (auto simp: stage_confirmed confirmed_groups_def)
  define ms where "ms = filter (\<lambda>x. (c_size x, p x, q x) = (s, a, b)) (considered skip_empty cs)"
  have mem: "\<forall>m \<in> set ms. m \<in> set cs \<and> c_size m = s \<and> q m = b"
    by (simp add: ms_def considered_def)
  note ms = len [folded ms_def] g [folded ms_def]
  show "\<exists>ms. 2 \<le> length ms \<and> set ms \<subseteq> set cs \<and> dg_member_ids g = map c_id ms \<and>
      (\<forall>m \<in> set ms. c_size m = dg_size g \<and> q m = dg_full_hash g) \<and>
      dg_reclaimable_bytes g = sum_list (map c_size (tl ms)) \<and>
      (\<exists>k \<in> set ms. dg_suggested_keeper_id g = c_id k \<and> (\<forall>m \<in> set ms. keeper_key k \<le> keeper_key m))"
    using ms(1) mem make_group_keeper [OF ms(1), of s b]
      make_group_reclaimable [OF ms(1), of s keep_shortest_path b]
    by (intro exI [of _ ms]) (auto simp: ms(2) make_group_def)
qed

definition sample_candidates :: "candidate list" where
  "sample_candidates =
     [\<lparr> c_id = Int_Id 1, c_path = ''a/b/x'', c_size = 5, c_dev = 0 \<rparr>,
      \<lparr> c_id = Int_Id 2, c_path = ''a/y'', c_size = 5, c_dev = 0 \<rparr>,
      \<lparr> c_id = Int_Id 3, c_path = ''a/x'', c_size = 5, c_dev = 0 \<rparr>,
      \<lparr> c_id = Int_Id 4, c_path = ''a/z'', c_size = 5, c_dev = 0 \<rparr>,
      \<lparr> c_id = Int_Id 5, c_path = ''gone'', c_size = 9, c_dev = 0 \<rparr>,
      \<lparr> c_id = Int_Id 6, c_path = ''e1'', c_size = 0, c_dev = 0 \<rparr>,
      \<lparr> c_id = Int_Id 7, c_path = ''e2'', c_size = 0, c_dev = 0 \<rparr>]"

text \<open>The hasher cannot read the file that is alone with its size, nor the empty ones.\<close>

definition sample_hasher :: "unit hasher" where
  "sample_hasher =
     \<lparr> partial_hash = (\<lambda>p n. if n = 5 then Inr (if p = ''a/z'' then ''q'' else ''p'') else Inl ()),
       full_hash = (\<lambda>p. if p = ''a/z'' then Inl () else Inr (if p = ''a/y'' then ''g'' else ''h'')) \<rparr>"

theorem duplicate_groups_exact_witness:
  "\<exists>gs. find_duplicates sample_hasher keep_shortest_path True sample_candidates = Inr gs \<and>
     set gs = {\<lparr> dg_full_hash = ''h'', dg_size = 5, dg_member_ids = [Int_Id 1, Int_Id 3],
       dg_reclaimable_bytes = 5, dg_suggested_keeper_id = Int_Id 3 \<rparr>}"
proof -
  let ?p = "\<lambda>c. if c_path c = ''a/z'' then ''q'' else ''p''"
  let ?q = "\<lambda>c. if c_path c = ''a/y'' then ''g'' else ''h''"
  have "hashes sample_hasher (considered True sample_candidates) ?p ?q" by code_simp
  from duplicate_groups_exact [OF this] obtain gs where
    gs: "find_duplicates sample_hasher keep_shortest_path True sample_candidates = Inr gs" by blast
  moreover have "find_duplicates sample_hasher keep_shortest_path True sample_candidates =
      Inr [\<lparr> dg_full_hash = ''h'', dg_size = 5, dg_member_ids = [Int_Id 1, Int_Id 3],
        dg_reclaimable_bytes = 5, dg_suggested_keeper_id = Int_Id 3 \<rparr>]"
    by code_simp
  ultimately show ?thesis by auto
qed

end
