(* ===== verification/Catalogue.thy ===== *)
theory Catalogue
  imports Json
begin

text \<open>
  The catalogue's tables (\<open>core/catalogue/models.py\<close>) as lists of rows in insertion order, and the
  one store they make. An instant is a number of microseconds. A file time is a finite double;
  it stands here as the whole multiple of \<open>2^-1074\<close> that every finite double is, since the code
  only compares file times. Columns of the database that no code reads are left out.
\<close>

section \<open>Rows\<close>

record host =
  h_id :: int
  h_name :: string
  h_os :: "string option"
  h_agent_version :: "string option"
  h_fingerprint :: string
  h_last_seen :: "int option"
  h_facts :: "json option"

record volume =
  v_id :: int
  v_host_id :: int
  v_mountpoint :: string
  v_display_name :: "string option"
  v_kind :: string
  v_fs_type :: string
  v_device :: string
  v_transport :: string
  v_raid_role :: "string option"
  v_pool :: "string option"
  v_dataset :: "string option"
  v_total :: int
  v_used :: int
  v_free :: int
  v_change_log_enabled :: bool
  v_updated_at :: int

record snapshot =
  sn_id :: int
  sn_host_id :: int
  sn_volume_id :: int
  sn_mode :: string
  sn_started :: int
  sn_finished :: "int option"
  sn_total_size :: int
  sn_file_count :: int

record fs_entry =
  e_id :: int
  e_host_id :: int
  e_volume_id :: int
  e_name :: string
  e_path :: string
  e_depth :: int
  e_is_dir :: bool
  e_is_symlink :: bool
  e_size_logical :: int
  e_size_on_disk :: int
  e_mtime :: int
  e_ctime :: int
  e_uid :: int
  e_gid :: int
  e_inode :: int
  e_dev :: int
  e_flags :: "(string \<times> bool) list"
  e_last_seen_snapshot :: "int option"
  e_present :: bool
  e_removed_at :: "int option"
  e_partial_hash :: "string option"
  e_full_hash :: "string option"
  e_hashed_at :: "int option"
  e_provider_hash :: "string option"
  e_provider_hash_algo :: "string option"

record subtree_rollup =
  ru_volume_id :: int
  ru_path :: string
  ru_depth :: nat
  ru_total_size_logical :: int
  ru_total_size_on_disk :: int
  ru_file_count :: int
  ru_dir_count :: int
  ru_computed_at :: int

record size_history =
  hi_volume_id :: int
  hi_path :: string
  hi_ts :: int
  hi_total_size_logical :: int
  hi_total_size_on_disk :: int
  hi_file_count :: int

datatype change_type = Change_Create | Change_Modify | Change_Delete

record change_log =
  cl_volume_id :: int
  cl_path :: string
  cl_change_type :: change_type
  cl_size_delta :: int
  cl_ts :: int

record dup_member =
  dm_entry_id :: int
  dm_host_id :: int
  dm_volume_id :: int
  dm_path :: string
  dm_is_mount_alias :: bool

record dup_group =
  dg_id :: int
  dg_full_hash :: string
  dg_size :: int
  dg_member_count :: nat
  dg_reclaimable_bytes :: int
  dg_scope :: json
  dg_job_id :: "string option"
  dg_suggested_keeper :: int
  dg_suggested_reason :: string
  dg_members :: "dup_member list"

text \<open>The store; \<open>next_row\<close> is the next surrogate id of each table of hosts, volumes, snapshots and
  entries (in this order).\<close>

record catalogue =
  hosts :: "host list"
  volumes :: "volume list"
  snapshots :: "snapshot list"
  entries :: "fs_entry list"
  rollups :: "subtree_rollup list"
  history :: "size_history list"
  changes :: "change_log list"
  dup_groups :: "dup_group list"
  next_row :: "int \<times> int \<times> int \<times> int"
  next_group :: int

text \<open>The identity of an entry: the unique constraint \<open>uq_fs_entry_identity\<close>.\<close>

definition entry_key :: "fs_entry \<Rightarrow> int \<times> int \<times> int \<times> int" where
  "entry_key e = (e_host_id e, e_volume_id e, e_dev e, e_inode e)"

section \<open>Constraints\<close>

text \<open>The unique constraints and primary keys, and the references between the tables.\<close>

definition hosts_ok :: "host list \<Rightarrow> int \<Rightarrow> bool" where
  "hosts_ok hs nh \<longleftrightarrow> distinct (map h_id hs) \<and> (\<forall>h \<in> set hs. h_id h < nh) \<and>
     distinct (map h_name hs) \<and> distinct (map h_fingerprint hs)"

definition volumes_ok :: "int set \<Rightarrow> volume list \<Rightarrow> int \<Rightarrow> bool" where
  "volumes_ok host_ids vs nv \<longleftrightarrow> distinct (map v_id vs) \<and> (\<forall>v \<in> set vs. v_id v < nv) \<and>
     distinct (map (\<lambda>v. (v_host_id v, v_mountpoint v)) vs) \<and> v_host_id ` set vs \<subseteq> host_ids"

definition snapshots_ok :: "snapshot list \<Rightarrow> int \<Rightarrow> bool" where
  "snapshots_ok ss ns \<longleftrightarrow> distinct (map sn_id ss) \<and> (\<forall>s \<in> set ss. sn_id s < ns)"

definition volume_key :: "volume \<Rightarrow> int \<times> int" where
  "volume_key v = (v_host_id v, v_id v)"

definition entries_ok :: "(int \<times> int) set \<Rightarrow> fs_entry list \<Rightarrow> int \<Rightarrow> bool" where
  "entries_ok volume_keys es ne \<longleftrightarrow>
     distinct (map e_id es) \<and> (\<forall>e \<in> set es. e_id e < ne) \<and> distinct (map entry_key es) \<and>
     (\<forall>e \<in> set es. (e_host_id e, e_volume_id e) \<in> volume_keys)"

definition catalogue_ok :: "catalogue \<Rightarrow> bool" where
  "catalogue_ok c \<longleftrightarrow>
     (case next_row c of (nh, nv, ns, ne) \<Rightarrow>
        hosts_ok (hosts c) nh \<and> volumes_ok (h_id ` set (hosts c)) (volumes c) nv \<and>
        snapshots_ok (snapshots c) ns \<and> entries_ok (volume_key ` set (volumes c)) (entries c) ne)"

text \<open>A query that names a unique key finds at most one row: \<open>scalar_one_or_none()\<close> raises on more,
  which the constraints exclude.\<close>

definition find_row :: "('a \<Rightarrow> 'k) \<Rightarrow> 'k \<Rightarrow> 'a list \<Rightarrow> 'a option" where
  "find_row f k xs = List.find (\<lambda>x. f x = k) xs"

lemma find_row_Some: "distinct (map f xs) \<Longrightarrow> find_row f k xs = Some x \<longleftrightarrow> x \<in> set xs \<and> f x = k"
  unfolding find_row_def by (induction xs) (auto simp: find_None_iff)

lemma find_row_None: "find_row f k xs = None \<longleftrightarrow> (\<forall>x \<in> set xs. f x \<noteq> k)"
  by (auto simp: find_row_def find_None_iff)

lemma find_row_mem: "find_row f k xs = Some x \<Longrightarrow> x \<in> set xs \<and> f x = k"
  by (auto simp: find_row_def find_Some_iff)

text \<open>An update of the rows that satisfy a condition.\<close>

definition update_where :: "('a \<Rightarrow> bool) \<Rightarrow> ('a \<Rightarrow> 'a) \<Rightarrow> 'a list \<Rightarrow> 'a list" where
  "update_where P f xs = map (\<lambda>x. if P x then f x else x) xs"

lemma map_update_where: "(\<And>x. g (f x) = g x) \<Longrightarrow> map g (update_where P f xs) = map g xs"
  by (simp add: update_where_def)

lemma set_update_where: "y \<in> set (update_where P f xs) \<longleftrightarrow> (\<exists>x \<in> set xs. y = (if P x then f x else x))"
  by (auto simp: update_where_def)

lemma mem_map_filter: "y \<in> set (List.map_filter f xs) \<longleftrightarrow> (\<exists>x \<in> set xs. f x = Some y)"
  by (force simp: map_filter_def)

lemma image_update_where: "(\<And>x. g (f x) = g x) \<Longrightarrow> g ` set (update_where P f xs) = g ` set xs"
  by (metis map_update_where set_map)

lemma find_row_append:
  "find_row f k (xs @ ys) = (case find_row f k xs of None \<Rightarrow> find_row f k ys | Some x \<Rightarrow> Some x)"
  unfolding find_row_def by (induction xs) auto

lemma find_row_single: "find_row f k [x] = (if f x = k then Some x else None)"
  by (simp add: find_row_def)

lemma find_row_update:
  assumes "\<And>x. f (g x) = f x"
  shows "find_row f j (update_where P g xs) =
    map_option (\<lambda>x. if P x then g x else x) (find_row f j xs)"
  unfolding find_row_def update_where_def using assms by (induction xs) auto

lemma hosts_ok_update:
  assumes "\<And>h. h_id (f h) = h_id h" "\<And>h. h_name (f h) = h_name h" "\<And>h. h_fingerprint (f h) = h_fingerprint h"
  shows "hosts_ok (update_where P f hs) nh = hosts_ok hs nh"
  unfolding hosts_ok_def map_update_where [of h_id f, OF assms(1)] map_update_where [of h_name f, OF assms(2)]
    map_update_where [of h_fingerprint f, OF assms(3)]
  using image_update_where [of h_id f P hs, OF assms(1)] by (metis (mono_tags, lifting) image_iff)

lemma volumes_ok_update:
  assumes "\<And>v. v_id (f v) = v_id v" "\<And>v. v_host_id (f v) = v_host_id v"
    "\<And>v. v_mountpoint (f v) = v_mountpoint v"
  shows "volumes_ok hs (update_where P f vs) nv = volumes_ok hs vs nv"
proof -
  have "map (\<lambda>v. (v_host_id v, v_mountpoint v)) (update_where P f vs) =
      map (\<lambda>v. (v_host_id v, v_mountpoint v)) vs"
    by (rule map_update_where) (simp add: assms)
  then show ?thesis
    unfolding volumes_ok_def map_update_where [of v_id f, OF assms(1)] image_update_where [of v_host_id f, OF assms(2)]
    using image_update_where [of v_id f P vs, OF assms(1)] by (metis (mono_tags, lifting) image_iff)
qed

lemma entries_ok_insert:
  assumes "entries_ok vk es ne" "find_row entry_key (entry_key row) es = None"
    and "(e_host_id row, e_volume_id row) \<in> vk"
  shows "entries_ok vk (es @ [row\<lparr> e_id := ne \<rparr>]) (ne + 1)"
proof -
  have "entry_key (row\<lparr> e_id := ne \<rparr>) = entry_key row" by (simp add: entry_key_def)
  with assms show ?thesis by (force simp: entries_ok_def find_row_None)
qed

lemma ball_update_where:
  assumes "\<And>x. Q (f x) = Q x"
  shows "(\<forall>x \<in> set (update_where P f xs). Q x) = (\<forall>x \<in> set xs. Q x)"
  by (induction xs) (simp_all add: update_where_def assms)

lemma entries_ok_update:
  assumes "\<And>e. e_id (f e) = e_id e" "\<And>e. entry_key (f e) = entry_key e"
  shows "entries_ok vk (update_where P f es) ne = entries_ok vk es ne"
proof -
  have key: "(e_host_id (f e), e_volume_id (f e)) = (e_host_id e, e_volume_id e)" for e
    using assms(2) [of e] by (simp add: entry_key_def)
  have "(\<forall>e \<in> set (update_where P f es). (e_host_id e, e_volume_id e) \<in> vk) =
      (\<forall>e \<in> set es. (e_host_id e, e_volume_id e) \<in> vk)"
    by (rule ball_update_where) (simp only: key)
  moreover have "(\<forall>e \<in> set (update_where P f es). e_id e < ne) = (\<forall>e \<in> set es. e_id e < ne)"
    by (rule ball_update_where) (simp add: assms(1))
  ultimately show ?thesis
    unfolding entries_ok_def map_update_where [of e_id f, OF assms(1)]
      map_update_where [of entry_key f, OF assms(2)]
    by simp
qed

end
