(* ===== verification/Ingest.thy ===== *)
theory Ingest
  imports Catalogue WinPaths
begin

text \<open>
  Accepting an agent's batch: \<open>core/ingest.py\<close> (the checks, the upserts, the vetting of entries) and
  \<open>core/incremental.py\<close> (churn rows and removals). One call is one transaction: an error leaves the
  store as it was. The clock readings of a call are an argument.
\<close>

section \<open>Batches\<close>

record host_frame =
  hf_name :: string
  hf_os :: "string option"
  hf_agent_version :: "string option"
  hf_facts :: "json option"

record volume_frame =
  vf_mountpoint :: string
  vf_display_name :: "string option"
  vf_fs_type :: string
  vf_device :: string
  vf_transport :: string
  vf_raid_role :: "string option"
  vf_pool :: "string option"
  vf_dataset :: "string option"
  vf_total :: int
  vf_used :: int
  vf_free :: int

record entry_frame =
  ef_path :: string
  ef_name :: string
  ef_is_dir :: bool
  ef_is_symlink :: bool
  ef_size_logical :: int
  ef_size_on_disk :: int
  ef_mtime :: int
  ef_ctime :: int
  ef_uid :: int
  ef_gid :: int
  ef_inode :: int
  ef_dev :: int
  ef_flags :: "(string \<times> bool) list"
  ef_partial_hash :: "string option"
  ef_full_hash :: "string option"
  ef_provider_hash :: "string option"
  ef_provider_hash_algo :: "string option"

record ingest_batch =
  b_host :: host_frame
  b_volume :: volume_frame
  b_mode :: string
  b_snapshot_id :: "int option"
  b_entries :: "entry_frame list"
  b_removed :: "(int \<times> int) list"
  b_removed_inodes :: "int list"

record ingest_result =
  r_snapshot_id :: int
  r_host_id :: int
  r_volume_id :: int
  r_entries_received :: nat
  r_entries_rejected :: nat
  r_entries_removed :: nat
  r_changes_logged :: nat

datatype ingest_error =
    Batch_Too_Large
  | Removals_Too_Large
  | Unsafe_Mountpoint
  | Noncanonical_Mountpoint
  | Foreign_Snapshot
  | Integrity_Violation
  | Cardinality_Violation

record clock_readings =
  at_host :: int
  at_volume :: int
  at_snapshot :: int
  at_hash :: int
  at_reconcile :: int
  at_change :: int

section \<open>Agent paths\<close>

text \<open>\<open>PureWindowsPath(s)\<close> of a normalised text, by \<open>ntpath.splitroot\<close>; a UNC share without a root
  gets one.\<close>

record win_path =
  wp_drive :: string
  wp_root :: string
  wp_parts :: "string list"

definition win_path_of :: "string \<Rightarrow> win_path" where
  "win_path_of s =
     (case nt_splitroot (to_bslash s) of
        (drive, root, rest) \<Rightarrow>
          let fields = py_split bslash drive;
              unc = prefix [bslash] drive \<and> \<not> ends_with drive [bslash] \<and>
                (length fields = 4 \<and> fields ! 2 \<noteq> ''?'' \<and> fields ! 2 \<noteq> ''.'' \<or> length fields = 6)
          in \<lparr> wp_drive = drive, wp_root = (if root = [] \<and> unc then [bslash] else root),
               wp_parts = filter (\<lambda>p. p \<noteq> [] \<and> p \<noteq> ''.'') (py_split bslash rest) \<rparr>)"

definition win_path_str :: "win_path \<Rightarrow> string" where
  "win_path_str p =
     (if wp_drive p \<noteq> [] \<or> wp_root p \<noteq> []
      then wp_drive p @ wp_root p @ py_join [bslash] (wp_parts p)
      else if wp_parts p = [] then ''.'' else py_join [bslash] (wp_parts p))"

datatype agent_path = Posix_Path pure_path | Windows_Path win_path

text \<open>Equality of paths: a Windows path compares by its text without regard to case.\<close>

fun same_path :: "agent_path \<Rightarrow> agent_path \<Rightarrow> bool" where
  "same_path (Posix_Path p) (Posix_Path q) = (p = q)"
| "same_path (Windows_Path p) (Windows_Path q) = (lower (win_path_str p) = lower (win_path_str q))"
| "same_path _ _ = False"

fun agent_parents :: "agent_path \<Rightarrow> agent_path list" where
  "agent_parents (Posix_Path p) = map Posix_Path (path_parents p)"
| "agent_parents (Windows_Path p) =
     map (\<lambda>n. Windows_Path (p\<lparr> wp_parts := take n (wp_parts p) \<rparr>)) (rev [0..<length (wp_parts p)])"

fun agent_path_str :: "agent_path \<Rightarrow> string" where
  "agent_path_str (Posix_Path p) = path_str p"
| "agent_path_str (Windows_Path p) = win_path_str p"

text \<open>\<open>len(p.parts)\<close>: the anchor counts as one part.\<close>

fun path_length :: "agent_path \<Rightarrow> int" where
  "path_length (Posix_Path p) = (if pp_root p = [] then 0 else 1) + int (length (pp_parts p))"
| "path_length (Windows_Path p) =
     (if wp_drive p = [] \<and> wp_root p = [] then 0 else 1) + int (length (wp_parts p))"

text \<open>The pattern \<open>^(?:[A-Za-z]:[\\/]|\\\\)\<close>.\<close>

definition ascii_letter :: "char \<Rightarrow> bool" where
  "ascii_letter c =
     (let n = (of_char c :: nat) in (65 \<le> n \<and> n \<le> 90) \<or> (97 \<le> n \<and> n \<le> 122))"

fun windows_shaped :: "string \<Rightarrow> bool" where
  "windows_shaped (a # b # cs) =
     (a = bslash \<and> b = bslash \<or>
      ascii_letter a \<and> b = CHR '':'' \<and>
        (case cs of [] \<Rightarrow> False | c # _ \<Rightarrow> c = bslash \<or> c = path_sep))"
| "windows_shaped _ = False"

definition validate_agent_path :: "string \<Rightarrow> agent_path option" where
  "validate_agent_path text =
     (if windows_shaped text
      then (case validate_windows_config_path text of
              Inl _ \<Rightarrow> None | Inr norm \<Rightarrow> Some (Windows_Path (win_path_of norm)))
      else (case validate_config_path text of Inl _ \<Rightarrow> None | Inr p \<Rightarrow> Some (Posix_Path p)))"

definition within :: "agent_path \<Rightarrow> agent_path \<Rightarrow> bool" where
  "within mount candidate \<longleftrightarrow>
     same_path candidate mount \<or> (\<exists>p \<in> set (agent_parents candidate). same_path p mount)"

section \<open>Vetting the entries\<close>

text \<open>The row of an entry; the ids, the snapshot and the presence are set by the upsert.\<close>

definition entry_row :: "bool \<Rightarrow> int \<Rightarrow> agent_path \<Rightarrow> agent_path \<Rightarrow> entry_frame \<Rightarrow> fs_entry" where
  "entry_row fullbit hashed_at mount candidate e =
     \<lparr> e_id = 0, e_host_id = 0, e_volume_id = 0, e_name = ef_name e, e_path = agent_path_str candidate,
       e_depth = path_length candidate - path_length mount, e_is_dir = ef_is_dir e,
       e_is_symlink = ef_is_symlink e, e_size_logical = ef_size_logical e,
       e_size_on_disk = ef_size_on_disk e, e_mtime = ef_mtime e, e_ctime = ef_ctime e,
       e_uid = ef_uid e, e_gid = ef_gid e, e_inode = ef_inode e, e_dev = ef_dev e,
       e_flags = ef_flags e, e_last_seen_snapshot = None, e_present = True, e_removed_at = None,
       e_partial_hash = (if fullbit then ef_partial_hash e else None),
       e_full_hash = (if fullbit then ef_full_hash e else None),
       e_hashed_at = (if fullbit then Some hashed_at else None),
       e_provider_hash = ef_provider_hash e, e_provider_hash_algo = ef_provider_hash_algo e \<rparr>"

text \<open>The loop of \<open>_vet_entries\<close>: an entry is kept when its path is valid and at or under the mount.\<close>

definition vet_entry :: "bool \<Rightarrow> int \<Rightarrow> agent_path \<Rightarrow> entry_frame \<Rightarrow> fs_entry option" where
  "vet_entry fullbit hashed_at mount e =
     (case validate_agent_path (ef_path e) of
        None \<Rightarrow> None
      | Some candidate \<Rightarrow>
          if within mount candidate then Some (entry_row fullbit hashed_at mount candidate e) else None)"

definition vet_entries :: "bool \<Rightarrow> int \<Rightarrow> agent_path \<Rightarrow> entry_frame list \<Rightarrow> fs_entry list \<times> nat" where
  "vet_entries fullbit hashed_at mount es =
     (let rows = List.map_filter (vet_entry fullbit hashed_at mount) es
      in (rows, length es - length rows))"

section \<open>Upserts\<close>

definition upsert_host ::
  "clock_readings \<Rightarrow> ingest_batch \<Rightarrow> string \<Rightarrow> catalogue \<Rightarrow> (ingest_error, host \<times> catalogue) result" where
  "upsert_host t b fingerprint c =
     (let frame = b_host b;
          refresh = (\<lambda>h. h\<lparr> h_os := hf_os frame, h_agent_version := hf_agent_version frame,
              h_facts := (case hf_facts frame of None \<Rightarrow> h_facts h | Some f \<Rightarrow> Some f),
              h_last_seen := Some (at_host t) \<rparr>)
      in case find_row h_fingerprint fingerprint (hosts c) of
           Some h \<Rightarrow>
             Inr (refresh h, c\<lparr> hosts := update_where (\<lambda>x. h_id x = h_id h) refresh (hosts c) \<rparr>)
         | None \<Rightarrow>
             (case next_row c of (nh, nv, ns, ne) \<Rightarrow>
                let h = refresh \<lparr> h_id = nh, h_name = hf_name frame, h_os = None, h_agent_version = None,
                      h_fingerprint = fingerprint, h_last_seen = None, h_facts = None \<rparr>
                in if hf_name frame \<in> h_name ` set (hosts c) then Inl Integrity_Violation
                   else Inr (h, c\<lparr> hosts := hosts c @ [h], next_row := (nh + 1, nv, ns, ne) \<rparr>)))"

definition refresh_volume :: "clock_readings \<Rightarrow> volume_frame \<Rightarrow> volume \<Rightarrow> volume" where
  "refresh_volume t f v =
     v\<lparr> v_fs_type := vf_fs_type f, v_device := vf_device f, v_transport := vf_transport f,
        v_raid_role := vf_raid_role f, v_pool := vf_pool f, v_dataset := vf_dataset f,
        v_display_name := vf_display_name f, v_total := vf_total f, v_used := vf_used f,
        v_free := vf_free f, v_updated_at := at_volume t \<rparr>"

definition upsert_volume ::
  "clock_readings \<Rightarrow> host \<Rightarrow> ingest_batch \<Rightarrow> catalogue \<Rightarrow> volume \<times> catalogue" where
  "upsert_volume t h b c =
     (let f = b_volume b
      in case find_row (\<lambda>v. (v_host_id v, v_mountpoint v)) (h_id h, vf_mountpoint f) (volumes c) of
           Some v \<Rightarrow>
             (refresh_volume t f v,
              c\<lparr> volumes := update_where (\<lambda>x. v_id x = v_id v) (refresh_volume t f) (volumes c) \<rparr>)
         | None \<Rightarrow>
             (case next_row c of (nh, nv, ns, ne) \<Rightarrow>
                let v = refresh_volume t f
                  \<lparr> v_id = nv, v_host_id = h_id h, v_mountpoint = vf_mountpoint f, v_display_name = None,
                    v_kind = ''data'', v_fs_type = vf_fs_type f, v_device = vf_device f,
                    v_transport = vf_transport f, v_raid_role = None, v_pool = None, v_dataset = None,
                    v_total = 0, v_used = 0, v_free = 0, v_change_log_enabled = True, v_updated_at = 0 \<rparr>
                in (v, c\<lparr> volumes := volumes c @ [v], next_row := (nh, nv + 1, ns, ne) \<rparr>)))"

definition resolve_snapshot ::
  "clock_readings \<Rightarrow> host \<Rightarrow> volume \<Rightarrow> ingest_batch \<Rightarrow> catalogue \<Rightarrow>
   (ingest_error, int \<times> catalogue) result" where
  "resolve_snapshot t h v b c =
     (case b_snapshot_id b of
        Some i \<Rightarrow>
          (case find_row sn_id i (snapshots c) of
             None \<Rightarrow> Inl Foreign_Snapshot
           | Some s \<Rightarrow>
               if sn_host_id s \<noteq> h_id h \<or> sn_volume_id s \<noteq> v_id v then Inl Foreign_Snapshot
               else Inr (sn_id s, c))
      | None \<Rightarrow>
          (case next_row c of (nh, nv, ns, ne) \<Rightarrow>
             let s = \<lparr> sn_id = ns, sn_host_id = h_id h, sn_volume_id = v_id v, sn_mode = b_mode b,
                   sn_started = at_snapshot t, sn_finished = None, sn_total_size = 0, sn_file_count = 0 \<rparr>
             in Inr (ns, c\<lparr> snapshots := snapshots c @ [s], next_row := (nh, nv, ns + 1, ne) \<rparr>)))"

text \<open>\<open>set_\<close> of the upsert: the columns a conflicting row takes over. Hash columns only in a full-bit
  batch, presence only in a metadata batch.\<close>

definition overwrite_entry :: "bool \<Rightarrow> fs_entry \<Rightarrow> fs_entry \<Rightarrow> fs_entry" where
  "overwrite_entry fullbit new old =
     (let e = old\<lparr> e_path := e_path new, e_name := e_name new, e_depth := e_depth new,
            e_is_dir := e_is_dir new, e_is_symlink := e_is_symlink new,
            e_size_logical := e_size_logical new, e_size_on_disk := e_size_on_disk new,
            e_mtime := e_mtime new, e_ctime := e_ctime new, e_uid := e_uid new, e_gid := e_gid new,
            e_flags := e_flags new, e_last_seen_snapshot := e_last_seen_snapshot new,
            e_provider_hash := e_provider_hash new, e_provider_hash_algo := e_provider_hash_algo new \<rparr>
      in if fullbit
         then e\<lparr> e_partial_hash := e_partial_hash new, e_full_hash := e_full_hash new,
                 e_hashed_at := e_hashed_at new \<rparr>
         else e\<lparr> e_present := e_present new, e_removed_at := e_removed_at new \<rparr>)"

definition upsert_guard :: "bool \<Rightarrow> fs_entry \<Rightarrow> fs_entry \<Rightarrow> bool" where
  "upsert_guard fullbit new old \<longleftrightarrow>
     fullbit \<or> e_mtime new \<noteq> e_mtime old \<or> e_size_logical new \<noteq> e_size_logical old \<or> \<not> e_present old"

text \<open>One row of the \<open>INSERT ... ON CONFLICT DO UPDATE ... WHERE\<close>; \<open>touched\<close> holds the keys this
  statement has already written. PostgreSQL (\<open>pg\<close>) refuses to write a row twice in one
  statement, SQLite does not mind.\<close>

definition upsert_entry ::
  "bool \<Rightarrow> bool \<Rightarrow> fs_entry \<Rightarrow> (int \<times> int \<times> int \<times> int) set \<times> fs_entry list \<times> int \<Rightarrow>
   (ingest_error, (int \<times> int \<times> int \<times> int) set \<times> fs_entry list \<times> int) result" where
  "upsert_entry pg fullbit row st =
     (case st of (touched, es, ne) \<Rightarrow>
        (case find_row entry_key (entry_key row) es of
           None \<Rightarrow> Inr (insert (entry_key row) touched, es @ [row\<lparr> e_id := ne \<rparr>], ne + 1)
         | Some old \<Rightarrow>
             if pg \<and> entry_key row \<in> touched then Inl Cardinality_Violation
             else if upsert_guard fullbit row old
             then Inr (insert (entry_key row) touched,
                       update_where (\<lambda>e. entry_key e = entry_key row) (overwrite_entry fullbit row) es, ne)
             else Inr (touched, es, ne)))"

fun upsert_loop ::
  "bool \<Rightarrow> bool \<Rightarrow> fs_entry list \<Rightarrow> (int \<times> int \<times> int \<times> int) set \<times> fs_entry list \<times> int \<Rightarrow>
   (ingest_error, (int \<times> int \<times> int \<times> int) set \<times> fs_entry list \<times> int) result" where
  "upsert_loop pg fullbit [] st = Inr st"
| "upsert_loop pg fullbit (row # rows) st =
     rbind (upsert_entry pg fullbit row st) (upsert_loop pg fullbit rows)"

definition stamp_row :: "int \<Rightarrow> int \<Rightarrow> int \<Rightarrow> fs_entry \<Rightarrow> fs_entry" where
  "stamp_row host_id volume_id snapshot_id row =
     row\<lparr> e_host_id := host_id, e_volume_id := volume_id, e_last_seen_snapshot := Some snapshot_id \<rparr>"

definition upsert_entries ::
  "bool \<Rightarrow> bool \<Rightarrow> fs_entry list \<Rightarrow> catalogue \<Rightarrow> (ingest_error, catalogue) result" where
  "upsert_entries pg fullbit rows c =
     (case next_row c of (nh, nv, ns, ne) \<Rightarrow>
        rbind (upsert_loop pg fullbit rows ({}, entries c, ne)) (\<lambda>(touched, es, ne').
          Inr (c\<lparr> entries := es, next_row := (nh, nv, ns, ne') \<rparr>)))"

section \<open>Churn and removals\<close>

record prior_state =
  pr_present :: bool
  pr_mtime :: int
  pr_size_logical :: int
  pr_path :: string

definition snapshot_prior :: "int \<Rightarrow> int \<Rightarrow> int list \<Rightarrow> fs_entry list \<Rightarrow> (int \<times> int) \<Rightarrow> prior_state option" where
  "snapshot_prior host_id volume_id inodes es =
     map_of (map (\<lambda>e. ((e_dev e, e_inode e),
         \<lparr> pr_present = e_present e, pr_mtime = e_mtime e, pr_size_logical = e_size_logical e, pr_path = e_path e \<rparr>))
       (filter (\<lambda>e. e_host_id e = host_id \<and> e_volume_id e = volume_id \<and> e_inode e \<in> set inodes) es))"

definition classify :: "prior_state option \<Rightarrow> int \<Rightarrow> int \<Rightarrow> change_type option" where
  "classify before new_size new_mtime =
     (case before of
        None \<Rightarrow> Some Change_Create
      | Some p \<Rightarrow>
          if \<not> pr_present p then Some Change_Create
          else if pr_size_logical p \<noteq> new_size \<or> pr_mtime p \<noteq> new_mtime then Some Change_Modify
          else None)"

definition upsert_churn ::
  "int \<Rightarrow> int \<Rightarrow> ((int \<times> int) \<Rightarrow> prior_state option) \<Rightarrow> fs_entry \<Rightarrow> change_log option" where
  "upsert_churn ts volume_id prior row =
     (let before = prior (e_dev row, e_inode row)
      in case classify before (e_size_logical row) (e_mtime row) of
           None \<Rightarrow> None
         | Some change \<Rightarrow>
             Some \<lparr> cl_volume_id = volume_id, cl_path = e_path row, cl_change_type = change,
               cl_size_delta = e_size_logical row -
                 (case before of None \<Rightarrow> 0 | Some p \<Rightarrow> pr_size_logical p), cl_ts = ts \<rparr>)"

text \<open>\<open>_removal_filter\<close>: a precise key matches device and inode, a legacy one the inode only.\<close>

definition removal_match :: "(int option \<times> int) list \<Rightarrow> fs_entry \<Rightarrow> bool" where
  "removal_match keys e \<longleftrightarrow> (Some (e_dev e), e_inode e) \<in> set keys \<or> (None, e_inode e) \<in> set keys"

definition removable :: "int \<Rightarrow> int \<Rightarrow> (int option \<times> int) list \<Rightarrow> fs_entry \<Rightarrow> bool" where
  "removable host_id volume_id keys e \<longleftrightarrow>
     e_host_id e = host_id \<and> e_volume_id e = volume_id \<and> removal_match keys e \<and> e_present e"

definition mark_removed ::
  "int \<Rightarrow> int \<Rightarrow> (int option \<times> int) list \<Rightarrow> int \<Rightarrow> fs_entry list \<Rightarrow> nat \<times> fs_entry list" where
  "mark_removed host_id volume_id keys when es =
     (length (filter (removable host_id volume_id keys) es),
      update_where (removable host_id volume_id keys) (\<lambda>e. e\<lparr> e_present := False, e_removed_at := Some when \<rparr>) es)"

definition removal_churn ::
  "int \<Rightarrow> int \<Rightarrow> int \<Rightarrow> (int option \<times> int) list \<Rightarrow> int \<Rightarrow> fs_entry list \<Rightarrow> change_log list" where
  "removal_churn ts host_id volume_id keys when es =
     map (\<lambda>e. \<lparr> cl_volume_id = volume_id, cl_path = e_path e, cl_change_type = Change_Delete,
         cl_size_delta = - e_size_logical e, cl_ts = ts \<rparr>)
       (filter (\<lambda>e. e_host_id e = host_id \<and> e_volume_id e = volume_id \<and> removal_match keys e \<and>
          e_removed_at e = Some when) es)"

text \<open>\<open>ChangeReconciler.reconcile\<close>, after the upsert.\<close>

definition reconcile ::
  "clock_readings \<Rightarrow> int \<Rightarrow> int \<Rightarrow> fs_entry list \<Rightarrow> ((int \<times> int) \<Rightarrow> prior_state option) \<Rightarrow>
   (int option \<times> int) list \<Rightarrow> bool \<Rightarrow> catalogue \<Rightarrow> (nat \<times> nat) \<times> catalogue" where
  "reconcile t host_id volume_id rows prior keys log_changes c =
     (let (removed, es) = mark_removed host_id volume_id keys (at_reconcile t) (entries c);
          churn = List.map_filter (upsert_churn (at_change t) volume_id prior) rows @
            removal_churn (at_change t) host_id volume_id keys (at_reconcile t) es
      in if log_changes
         then ((removed, length churn), c\<lparr> entries := es, changes := changes c @ churn \<rparr>)
         else ((removed, 0), c\<lparr> entries := es \<rparr>))"

section \<open>One batch\<close>

definition removed_keys :: "ingest_batch \<Rightarrow> (int option \<times> int) list" where
  "removed_keys b =
     (if b_removed b \<noteq> [] then map (\<lambda>(dev, inode). (Some dev, inode)) (b_removed b)
      else map (\<lambda>i. (None, i)) (b_removed_inodes b))"

text \<open>The checks before anything is written.\<close>

definition check_batch :: "nat \<Rightarrow> ingest_batch \<Rightarrow> (ingest_error, agent_path) result" where
  "check_batch max_batch b =
     (if max_batch < length (b_entries b) then Inl Batch_Too_Large
      else if max_batch < max (length (b_removed b)) (length (b_removed_inodes b)) then Inl Removals_Too_Large
      else
        case validate_agent_path (vf_mountpoint (b_volume b)) of
          None \<Rightarrow> Inl Unsafe_Mountpoint
        | Some mount \<Rightarrow>
            if agent_path_str mount \<noteq> vf_mountpoint (b_volume b) then Inl Noncanonical_Mountpoint
            else Inr mount)"

definition ingest ::
  "bool \<Rightarrow> nat \<Rightarrow> clock_readings \<Rightarrow> ingest_batch \<Rightarrow> string \<Rightarrow> catalogue \<Rightarrow>
   (ingest_error, ingest_result \<times> catalogue) result" where
  "ingest pg max_batch t b fingerprint c0 =
     rbind (check_batch max_batch b) (\<lambda>mount.
     rbind (upsert_host t b fingerprint c0) (\<lambda>(h, c1).
       let (v, c2) = upsert_volume t h b c1 in
     rbind (resolve_snapshot t h v b c2) (\<lambda>(snap, c3).
       let fullbit = (b_mode b = ''fullbit'');
           (vetted, rejected) = vet_entries fullbit (at_hash t) mount (b_entries b);
           rows = map (stamp_row (h_id h) (v_id v) snap) vetted;
           prior = snapshot_prior (h_id h) (v_id v) (map e_inode vetted) (entries c3) in
     rbind (upsert_entries pg fullbit rows c3) (\<lambda>c4.
       let ((removed, logged), c5) =
             (if fullbit then ((0, 0), c4)
              else reconcile t (h_id h) (v_id v) rows prior (removed_keys b) (v_change_log_enabled v) c4)
       in Inr (\<lparr> r_snapshot_id = snap, r_host_id = h_id h, r_volume_id = v_id v,
                 r_entries_received = length rows, r_entries_rejected = rejected,
                 r_entries_removed = removed, r_changes_logged = logged \<rparr>, c5)))))"

end
