(* ===== verification/Ingest_Facts.thy ===== *)
theory Ingest_Facts
  imports Ingest
begin

text \<open>
  What ingesting guarantees: the catalogue keeps its constraints, every entry lies within the
  mountpoint of its volume, no other volume is touched, a batch sent again changes nothing, and
  the churn rows account for every byte.
\<close>

section \<open>The steps of an accepted batch\<close>

lemma ingest_steps:
  assumes "ingest pg max_batch t b fp c0 = Inr (r, c')"
  obtains mount h c1 v c2 snap c3 c4 vetted rejected where
    "check_batch max_batch b = Inr mount"
    "upsert_host t b fp c0 = Inr (h, c1)"
    "upsert_volume t h b c1 = (v, c2)"
    "resolve_snapshot t h v b c2 = Inr (snap, c3)"
    "vet_entries (b_mode b = ''fullbit'') (at_hash t) mount (b_entries b) = (vetted, rejected)"
    "upsert_entries pg (b_mode b = ''fullbit'') (map (stamp_row (h_id h) (v_id v) snap) vetted) c3 = Inr c4"
    "r_snapshot_id r = snap" "r_host_id r = h_id h" "r_volume_id r = v_id v"
    "r_entries_received r = length vetted" "r_entries_rejected r = rejected"
    "((r_entries_removed r, r_changes_logged r), c') =
       (if b_mode b = ''fullbit'' then ((0, 0), c4)
        else reconcile t (h_id h) (v_id v) (map (stamp_row (h_id h) (v_id v) snap) vetted)
          (snapshot_prior (h_id h) (v_id v) (map e_inode vetted) (entries c3)) (removed_keys b)
          (v_change_log_enabled v) c4)"
proof -
  from assms obtain mount h c1 where 1: "check_batch max_batch b = Inr mount"
    "upsert_host t b fp c0 = Inr (h, c1)"
    by (auto simp: ingest_def)
  obtain v c2 where 2: "upsert_volume t h b c1 = (v, c2)" by fastforce
  obtain vetted rejected where 4:
    "vet_entries (b_mode b = ''fullbit'') (at_hash t) mount (b_entries b) = (vetted, rejected)"
    by fastforce
  from assms 1 2 obtain snap c3 where 3: "resolve_snapshot t h v b c2 = Inr (snap, c3)"
    by (auto simp: ingest_def)
  from assms 1 2 3 4 obtain c4 where 5:
    "upsert_entries pg (b_mode b = ''fullbit'') (map (stamp_row (h_id h) (v_id v) snap) vetted) c3 = Inr c4"
    by (auto simp: ingest_def Let_def)
  from assms 1 2 3 4 5 that show ?thesis
    by (auto simp: ingest_def Let_def split: prod.splits if_splits)
qed

section \<open>The upsert loop\<close>

lemma upsert_loop_invariant:
  assumes "upsert_loop pg fullbit rows (T, es, ne) = Inr (T', es', ne')" "I es ne"
    and insert: "\<And>row es ne. row \<in> set rows \<Longrightarrow> I es ne \<Longrightarrow> find_row entry_key (entry_key row) es = None \<Longrightarrow>
      I (es @ [row\<lparr> e_id := ne \<rparr>]) (ne + 1)"
    and update: "\<And>row es ne. row \<in> set rows \<Longrightarrow> I es ne \<Longrightarrow>
      I (update_where (\<lambda>e. entry_key e = entry_key row) (overwrite_entry fullbit row) es) ne"
  shows "I es' ne'"
  using assms
proof (induction rows arbitrary: T es ne)
  case (Cons row rows)
  from Cons.prems(1) obtain T1 es1 ne1 where
    1: "upsert_entry pg fullbit row (T, es, ne) = Inr (T1, es1, ne1)"
    and 2: "upsert_loop pg fullbit rows (T1, es1, ne1) = Inr (T', es', ne')"
    by auto
  have "I es1 ne1"
    using 1 Cons.prems(2-4)
    by (auto simp: upsert_entry_def split: option.splits if_splits)
  with Cons.IH [OF 2] Cons.prems(3,4) show ?case by auto
qed simp

lemma entry_key_overwrite [simp]: "entry_key (overwrite_entry fullbit new old) = entry_key old"
  by (simp add: overwrite_entry_def entry_key_def Let_def)

lemma e_id_overwrite [simp]: "e_id (overwrite_entry fullbit new old) = e_id old"
  by (simp add: overwrite_entry_def Let_def)

lemma entry_key_id [simp]: "entry_key (e\<lparr> e_id := i \<rparr>) = entry_key e"
  by (simp add: entry_key_def)

lemma e_path_overwrite [simp]: "e_path (overwrite_entry fullbit new old) = e_path new"
  by (simp add: overwrite_entry_def Let_def)

lemma entry_key_eq:
  "entry_key e = entry_key f \<longleftrightarrow>
     e_host_id e = e_host_id f \<and> e_volume_id e = e_volume_id f \<and> e_dev e = e_dev f \<and> e_inode e = e_inode f"
  by (auto simp: entry_key_def)

section \<open>The invariant of the catalogue\<close>

text \<open>An entry lies at or under the mountpoint of its volume: both paths pass the agent-path rules and
  the entry's text is the validated one.\<close>

definition path_inside :: "string \<Rightarrow> string \<Rightarrow> bool" where
  "path_inside mountpoint path \<longleftrightarrow>
     (\<exists>mount text candidate. validate_agent_path mountpoint = Some mount \<and>
        validate_agent_path text = Some candidate \<and> within mount candidate \<and> path = agent_path_str candidate)"

definition entries_inside :: "volume list \<Rightarrow> fs_entry list \<Rightarrow> bool" where
  "entries_inside vs es \<longleftrightarrow>
     (\<forall>e \<in> set es. \<forall>v \<in> set vs. v_id v = e_volume_id e \<longrightarrow> path_inside (v_mountpoint v) (e_path e))"

lemma check_batch_mount:
  "check_batch max_batch b = Inr mount \<Longrightarrow>
     validate_agent_path (vf_mountpoint (b_volume b)) = Some mount \<and>
     agent_path_str mount = vf_mountpoint (b_volume b)"
  by (auto simp: check_batch_def split: if_splits option.splits)

lemma vet_entries_rows:
  assumes "vet_entries fullbit hashed_at mount es = (rows, rejected)" "row \<in> set rows"
  obtains e candidate where "e \<in> set es" "validate_agent_path (ef_path e) = Some candidate"
    "within mount candidate" "row = entry_row fullbit hashed_at mount candidate e"
proof -
  from assms obtain e where e: "e \<in> set es" "vet_entry fullbit hashed_at mount e = Some row"
    by (auto simp: vet_entries_def Let_def mem_map_filter)
  then show ?thesis by (auto simp: vet_entry_def split: option.splits if_splits intro: that)
qed

lemma vetted_path_inside:
  assumes "vet_entries fullbit hashed_at mount es = (rows, rejected)" "row \<in> set rows"
    and "validate_agent_path mountpoint = Some mount"
  shows "path_inside mountpoint (e_path row)"
proof -
  obtain e candidate where "validate_agent_path (ef_path e) = Some candidate"
    "within mount candidate" "row = entry_row fullbit hashed_at mount candidate e"
    using vet_entries_rows [OF assms(1,2)] .
  with assms(3) show ?thesis unfolding path_inside_def by (auto simp: entry_row_def)
qed

lemma upsert_host_facts:
  assumes ok: "catalogue_ok c" and up: "upsert_host t b fp c = Inr (h, c')"
  shows "catalogue_ok c' \<and> h \<in> set (hosts c') \<and> h_fingerprint h = fp \<and>
    volumes c' = volumes c \<and> snapshots c' = snapshots c \<and> entries c' = entries c \<and> changes c' = changes c"
proof (cases "find_row h_fingerprint fp (hosts c)")
  case None
  obtain nh nv ns ne where n: "next_row c = (nh, nv, ns, ne)" by (cases "next_row c") auto
  from up None n have h: "h_name h = hf_name (b_host b)" "h_fingerprint h = fp" "h_id h = nh"
    "hf_name (b_host b) \<notin> h_name ` set (hosts c)"
    "c' = c\<lparr> hosts := hosts c @ [h], next_row := (nh + 1, nv, ns, ne) \<rparr>"
    by (auto simp: upsert_host_def Let_def split: if_splits)
  from None have "fp \<notin> h_fingerprint ` set (hosts c)" by (auto simp: find_row_None)
  with h ok n have "hosts_ok (hosts c') (nh + 1)"
    by (force simp: catalogue_ok_def hosts_ok_def)
  moreover have "volumes_ok (h_id ` set (hosts c')) (volumes c') nv"
    using ok n h(5) by (auto simp: catalogue_ok_def volumes_ok_def)
  ultimately show ?thesis using ok n h by (simp add: catalogue_ok_def)
next
  case (Some x)
  let ?f = "\<lambda>h. h\<lparr> h_os := hf_os (b_host b), h_agent_version := hf_agent_version (b_host b),
      h_facts := (case hf_facts (b_host b) of None \<Rightarrow> h_facts h | Some f \<Rightarrow> Some f),
      h_last_seen := Some (at_host t) \<rparr>"
  let ?hs = "update_where (\<lambda>y. h_id y = h_id x) ?f (hosts c)"
  have c': "h = ?f x" "c' = c\<lparr> hosts := ?hs \<rparr>"
    using up Some by (simp_all add: upsert_host_def Let_def)
  have x: "x \<in> set (hosts c)" "h_fingerprint x = fp" using find_row_mem [OF Some] by auto
  have "h \<in> set ?hs" using x by (auto simp: c' set_update_where)
  moreover have "h_id ` set ?hs = h_id ` set (hosts c)" by (rule image_update_where) simp
  moreover have "hosts_ok ?hs n = hosts_ok (hosts c) n" for n by (rule hosts_ok_update) simp_all
  ultimately show ?thesis using ok x by (simp add: c' catalogue_ok_def)
qed

lemma upsert_volume_facts:
  assumes ok: "catalogue_ok c" and h: "h_id h \<in> h_id ` set (hosts c)"
    and up: "upsert_volume t h b c = (v, c')"
  shows "catalogue_ok c' \<and> v \<in> set (volumes c') \<and> v_host_id v = h_id h \<and>
    v_mountpoint v = vf_mountpoint (b_volume b) \<and>
    hosts c' = hosts c \<and> snapshots c' = snapshots c \<and> entries c' = entries c \<and> changes c' = changes c \<and>
    (\<forall>w \<in> set (volumes c'). v_id w \<noteq> v_id v \<longrightarrow> w \<in> set (volumes c)) \<and>
    (\<lambda>w. (v_id w, v_mountpoint w)) ` set (volumes c) \<subseteq> (\<lambda>w. (v_id w, v_mountpoint w)) ` set (volumes c')"
proof (cases "find_row (\<lambda>v. (v_host_id v, v_mountpoint v)) (h_id h, vf_mountpoint (b_volume b)) (volumes c)")
  case None
  obtain nh nv ns ne where n: "next_row c = (nh, nv, ns, ne)" by (cases "next_row c") auto
  from up None n have v: "v_id v = nv" "v_host_id v = h_id h" "v_mountpoint v = vf_mountpoint (b_volume b)"
    "c' = c\<lparr> volumes := volumes c @ [v], next_row := (nh, nv + 1, ns, ne) \<rparr>"
    by (auto simp: upsert_volume_def Let_def refresh_volume_def)
  have "(h_id h, vf_mountpoint (b_volume b)) \<notin> (\<lambda>v. (v_host_id v, v_mountpoint v)) ` set (volumes c)"
    using None by (auto simp: find_row_None)
  with v ok n h have "volumes_ok (h_id ` set (hosts c')) (volumes c') (nv + 1)"
    by (force simp: catalogue_ok_def volumes_ok_def)
  moreover have "entries_ok (volume_key ` set (volumes c')) (entries c') ne"
    using ok n v(4) by (auto simp: catalogue_ok_def entries_ok_def)
  ultimately show ?thesis using ok n v by (auto simp: catalogue_ok_def)
next
  case (Some x)
  let ?f = "refresh_volume t (b_volume b)"
  let ?vs = "update_where (\<lambda>y. v_id y = v_id x) ?f (volumes c)"
  have c': "v = ?f x" "c' = c\<lparr> volumes := ?vs \<rparr>"
    using up Some by (simp_all add: upsert_volume_def Let_def)
  have x: "x \<in> set (volumes c)" "v_host_id x = h_id h" "v_mountpoint x = vf_mountpoint (b_volume b)"
    using find_row_mem [OF Some] by auto
  have f: "v_id (?f w) = v_id w" "v_host_id (?f w) = v_host_id w" "v_mountpoint (?f w) = v_mountpoint w" for w
    by (simp_all add: refresh_volume_def)
  have "v \<in> set ?vs" using x by (auto simp: c' set_update_where)
  moreover have "volume_key ` set ?vs = volume_key ` set (volumes c)"
    by (rule image_update_where) (simp add: volume_key_def f)
  moreover have "volumes_ok hs ?vs n = volumes_ok hs (volumes c) n" for hs n
    by (rule volumes_ok_update) (simp_all add: f)
  moreover have "(\<lambda>w. (v_id w, v_mountpoint w)) ` set ?vs = (\<lambda>w. (v_id w, v_mountpoint w)) ` set (volumes c)"
    by (rule image_update_where) (simp add: f)
  moreover have "\<forall>w \<in> set ?vs. v_id w \<noteq> v_id x \<longrightarrow> w \<in> set (volumes c)"
    by (auto simp: set_update_where f)
  ultimately show ?thesis
    using ok x by (simp add: c' catalogue_ok_def f)
qed

lemma resolve_snapshot_facts:
  assumes ok: "catalogue_ok c" and up: "resolve_snapshot t h v b c = Inr (i, c')"
  shows "catalogue_ok c' \<and> hosts c' = hosts c \<and> volumes c' = volumes c \<and> entries c' = entries c \<and>
    changes c' = changes c \<and> (\<exists>s \<in> set (snapshots c'). sn_id s = i \<and> sn_host_id s = h_id h \<and> sn_volume_id s = v_id v)"
proof (cases "b_snapshot_id b")
  case None
  obtain nh nv ns ne where n: "next_row c = (nh, nv, ns, ne)" by (cases "next_row c") auto
  from ok n have "snapshots_ok (snapshots c @ [s]) (ns + 1)" if "sn_id s = ns" for s
    using that by (force simp: catalogue_ok_def snapshots_ok_def)
  with None up ok n show ?thesis by (auto simp: resolve_snapshot_def Let_def catalogue_ok_def)
next
  case (Some j)
  with up ok show ?thesis
    by (auto simp: resolve_snapshot_def dest!: find_row_mem split: option.splits if_splits)
qed


lemma stamp_row_simps [simp]:
  "e_host_id (stamp_row h v s row) = h" "e_volume_id (stamp_row h v s row) = v"
  "e_path (stamp_row h v s row) = e_path row" "e_dev (stamp_row h v s row) = e_dev row"
  "e_inode (stamp_row h v s row) = e_inode row" "e_mtime (stamp_row h v s row) = e_mtime row"
  "e_size_logical (stamp_row h v s row) = e_size_logical row"
  "e_present (stamp_row h v s row) = e_present row"
  by (simp_all add: stamp_row_def)

text \<open>The entries of the other volumes.\<close>

definition elsewhere :: "int \<Rightarrow> int \<Rightarrow> fs_entry list \<Rightarrow> fs_entry list" where
  "elsewhere h v es = filter (\<lambda>e. \<not> (e_host_id e = h \<and> e_volume_id e = v)) es"

lemma elsewhere_update:
  assumes "\<And>e. P e \<Longrightarrow> e_host_id e = h \<and> e_volume_id e = v"
    and "\<And>e. e_host_id (f e) = e_host_id e \<and> e_volume_id (f e) = e_volume_id e"
  shows "elsewhere h v (update_where P f es) = elsewhere h v es"
  using assms by (induction es) (auto simp: elsewhere_def update_where_def)

definition inside :: "volume list \<Rightarrow> fs_entry \<Rightarrow> bool" where
  "inside vs e \<longleftrightarrow> (\<forall>w \<in> set vs. v_id w = e_volume_id e \<longrightarrow> path_inside (v_mountpoint w) (e_path e))"

lemma overwrite_place [simp]:
  "e_host_id (overwrite_entry fullbit new old) = e_host_id old"
  "e_volume_id (overwrite_entry fullbit new old) = e_volume_id old"
  by (simp_all add: overwrite_entry_def Let_def)

lemma upsert_entries_facts:
  assumes ok: "catalogue_ok c" and ins: "\<forall>e \<in> set (entries c). inside (volumes c) e"
    and up: "upsert_entries pg fullbit rows c = Inr c'"
    and rows: "\<And>row. row \<in> set rows \<Longrightarrow> e_host_id row = h \<and> e_volume_id row = v \<and> inside (volumes c) row"
    and vol: "(h, v) \<in> volume_key ` set (volumes c)"
  shows "catalogue_ok c' \<and> (\<forall>e \<in> set (entries c'). inside (volumes c') e) \<and>
    elsewhere h v (entries c') = elsewhere h v (entries c) \<and>
    hosts c' = hosts c \<and> volumes c' = volumes c \<and> snapshots c' = snapshots c \<and> changes c' = changes c"
proof -
  obtain nh nv ns ne where n: "next_row c = (nh, nv, ns, ne)" by (cases "next_row c") auto
  from up n obtain T es ne' where loop: "upsert_loop pg fullbit rows ({}, entries c, ne) = Inr (T, es, ne')"
    and c': "c' = c\<lparr> entries := es, next_row := (nh, nv, ns, ne') \<rparr>"
    by (auto simp: upsert_entries_def)
  define I where "I es ne \<longleftrightarrow> entries_ok (volume_key ` set (volumes c)) es ne \<and>
    (\<forall>e \<in> set es. inside (volumes c) e) \<and> elsewhere h v es = elsewhere h v (entries c)" for es ne
  have "I es ne'"
    using loop
  proof (rule upsert_loop_invariant [where I = I])
    show "I (entries c) ne" using ok ins n by (simp add: I_def catalogue_ok_def)
  next
    fix row es ne
    assume "row \<in> set rows" and I: "I es ne" and none: "find_row entry_key (entry_key row) es = None"
    then have row: "e_host_id row = h" "e_volume_id row = v" "inside (volumes c) row" using rows by auto
    have "entries_ok (volume_key ` set (volumes c)) (es @ [row\<lparr> e_id := ne \<rparr>]) (ne + 1)"
      using I none row vol by (intro entries_ok_insert) (simp_all add: I_def)
    with I row show "I (es @ [row\<lparr> e_id := ne \<rparr>]) (ne + 1)"
      by (auto simp: I_def inside_def elsewhere_def)
  next
    fix row es ne
    assume "row \<in> set rows" and I: "I es ne"
    then have row: "e_host_id row = h" "e_volume_id row = v" "inside (volumes c) row" using rows by auto
    let ?es = "update_where (\<lambda>e. entry_key e = entry_key row) (overwrite_entry fullbit row) es"
    have "elsewhere h v ?es = elsewhere h v es"
      using row by (intro elsewhere_update) (auto simp: entry_key_eq)
    moreover have "\<forall>e \<in> set ?es. inside (volumes c) e"
      using I row by (auto simp: I_def set_update_where inside_def entry_key_eq)
    ultimately show "I ?es ne" using I by (simp add: I_def entries_ok_update)
  qed
  with ok n show ?thesis by (simp add: c' catalogue_ok_def I_def)
qed

lemma reconcile_facts:
  assumes ok: "catalogue_ok c" and ins: "\<forall>e \<in> set (entries c). inside (volumes c) e"
    and rec: "reconcile t h v rows prior keys log c = (r, c')"
  shows "catalogue_ok c' \<and> (\<forall>e \<in> set (entries c'). inside (volumes c') e) \<and>
    elsewhere h v (entries c') = elsewhere h v (entries c) \<and>
    hosts c' = hosts c \<and> volumes c' = volumes c \<and> snapshots c' = snapshots c"
proof -
  let ?f = "\<lambda>e. e\<lparr> e_present := False, e_removed_at := Some (at_reconcile t) \<rparr>"
  let ?es = "update_where (removable h v keys) ?f (entries c)"
  have c': "entries c' = ?es" "hosts c' = hosts c" "volumes c' = volumes c" "snapshots c' = snapshots c"
    "next_row c' = next_row c"
    using rec by (auto simp: reconcile_def mark_removed_def Let_def split: if_splits)
  have "entries_ok vk ?es n = entries_ok vk (entries c) n" for vk n
    by (rule entries_ok_update) (simp_all add: entry_key_def)
  moreover have "elsewhere h v ?es = elsewhere h v (entries c)"
    by (rule elsewhere_update) (simp_all add: removable_def)
  moreover have "\<forall>e \<in> set ?es. inside (volumes c) e"
    using ins by (auto simp: set_update_where inside_def)
  ultimately show ?thesis using ok by (simp add: c' catalogue_ok_def)
qed

text \<open>The invariant: the constraints hold and every entry is within its volume.\<close>

definition catalogue_sound :: "catalogue \<Rightarrow> bool" where
  "catalogue_sound c \<longleftrightarrow> catalogue_ok c \<and> (\<forall>e \<in> set (entries c). inside (volumes c) e)"

lemma catalogue_sound_volumes:
  assumes "\<forall>e \<in> set es. inside vs e" "entries_ok (volume_key ` set vs) es ne" "volumes_ok H vs' nv"
    and new: "\<And>w. w \<in> set vs' \<Longrightarrow> v_id w \<noteq> v_id v \<Longrightarrow> w \<in> set vs" "v \<in> set vs'"
    and old: "(\<lambda>w. (v_id w, v_mountpoint w)) ` set vs \<subseteq> (\<lambda>w. (v_id w, v_mountpoint w)) ` set vs'"
  shows "\<forall>e \<in> set es. inside vs' e"
proof
  fix e assume e: "e \<in> set es"
  show "inside vs' e"
    unfolding inside_def
  proof (intro ballI impI)
    fix w assume w: "w \<in> set vs'" "v_id w = e_volume_id e"
    from e assms(2) obtain x where x: "x \<in> set vs" "v_id x = e_volume_id e"
      by (auto simp: entries_ok_def volume_key_def)
    have "(v_id x, v_mountpoint x) \<in> (\<lambda>w. (v_id w, v_mountpoint w)) ` set vs'"
      by (rule subsetD [OF old]) (use x(1) in simp)
    then obtain y where y: "y \<in> set vs'" "v_id y = v_id x" "v_mountpoint y = v_mountpoint x" by auto
    with w x assms(3) have "y = w" by (auto simp: volumes_ok_def distinct_map inj_on_def)
    with assms(1) e x y show "path_inside (v_mountpoint w) (e_path e)" by (auto simp: inside_def)
  qed
qed

lemma ingest_sound:
  assumes sound: "catalogue_sound c0" and run: "ingest pg max_batch t b fp c0 = Inr (r, c')"
  shows "catalogue_sound c' \<and>
    (\<exists>h \<in> set (hosts c'). h_id h = r_host_id r \<and> h_fingerprint h = fp) \<and>
    (\<exists>v \<in> set (volumes c'). v_id v = r_volume_id r \<and> v_host_id v = r_host_id r \<and>
       v_mountpoint v = vf_mountpoint (b_volume b)) \<and>
    elsewhere (r_host_id r) (r_volume_id r) (entries c') = elsewhere (r_host_id r) (r_volume_id r) (entries c0) \<and>
    (\<forall>w \<in> set (volumes c'). v_id w \<noteq> r_volume_id r \<longrightarrow> w \<in> set (volumes c0))"
  using run
proof (rule ingest_steps)
  fix mount h c1 v c2 snap c3 c4 vetted rejected
  assume check: "check_batch max_batch b = Inr mount"
    and s1: "upsert_host t b fp c0 = Inr (h, c1)" and s2: "upsert_volume t h b c1 = (v, c2)"
    and s3: "resolve_snapshot t h v b c2 = Inr (snap, c3)"
    and vet: "vet_entries (b_mode b = ''fullbit'') (at_hash t) mount (b_entries b) = (vetted, rejected)"
    and s4: "upsert_entries pg (b_mode b = ''fullbit'') (map (stamp_row (h_id h) (v_id v) snap) vetted) c3 = Inr c4"
    and r: "r_snapshot_id r = snap" "r_host_id r = h_id h" "r_volume_id r = v_id v"
    and s5: "((r_entries_removed r, r_changes_logged r), c') =
       (if b_mode b = ''fullbit'' then ((0, 0), c4)
        else reconcile t (h_id h) (v_id v) (map (stamp_row (h_id h) (v_id v) snap) vetted)
          (snapshot_prior (h_id h) (v_id v) (map e_inode vetted) (entries c3)) (removed_keys b)
          (v_change_log_enabled v) c4)"
  from sound have ok0: "catalogue_ok c0" and in0: "\<forall>e \<in> set (entries c0). inside (volumes c0) e"
    by (simp_all add: catalogue_sound_def)
  note f1 = upsert_host_facts [OF ok0 s1]
  have "h_id h \<in> h_id ` set (hosts c1)" using f1 by blast
  note f2 = upsert_volume_facts [OF conjunct1 [OF f1] this s2]
  note f3 = resolve_snapshot_facts [OF conjunct1 [OF f2] s3]
  obtain nh nv ns ne where n: "next_row c3 = (nh, nv, ns, ne)" by (cases "next_row c3") auto
  have vok: "volumes_ok (h_id ` set (hosts c3)) (volumes c3) nv"
    using conjunct1 [OF f3] n by (simp add: catalogue_ok_def)
  have v3: "v \<in> set (volumes c3)" using f2 f3 by simp
  have "entries_ok (volume_key ` set (volumes c0)) (entries c0) (snd (snd (snd (next_row c0))))"
    using ok0 by (auto simp: catalogue_ok_def)
  then have in3: "\<forall>e \<in> set (entries c3). inside (volumes c3) e"
    using f1 f2 f3 v3 vok in0 catalogue_sound_volumes [of "entries c0" "volumes c0" _ _ "volumes c3" nv v]
    by auto
  have rows: "e_host_id row = h_id h \<and> e_volume_id row = v_id v \<and> inside (volumes c3) row"
    if row: "row \<in> set (map (stamp_row (h_id h) (v_id v) snap) vetted)" for row
  proof -
    from row obtain row0 where row0: "row0 \<in> set vetted" "row = stamp_row (h_id h) (v_id v) snap row0" by auto
    have "path_inside (vf_mountpoint (b_volume b)) (e_path row0)"
      using vetted_path_inside [OF vet row0(1)] check_batch_mount [OF check] by blast
    moreover have "\<forall>w \<in> set (volumes c3). v_id w = v_id v \<longrightarrow> w = v"
      using vok v3 by (auto simp: volumes_ok_def distinct_map inj_on_def)
    moreover have "v_mountpoint v = vf_mountpoint (b_volume b)" using f2 by simp
    ultimately show ?thesis using row0(2) unfolding inside_def by auto
  qed
  have vk: "(h_id h, v_id v) \<in> volume_key ` set (volumes c3)"
    by (rule image_eqI [OF _ v3]) (use f2 in \<open>simp add: volume_key_def\<close>)
  note f4 = upsert_entries_facts [OF conjunct1 [OF f3] in3 s4 rows vk]
  have f5: "catalogue_ok c' \<and> (\<forall>e \<in> set (entries c'). inside (volumes c') e) \<and>
      elsewhere (h_id h) (v_id v) (entries c') = elsewhere (h_id h) (v_id v) (entries c4) \<and>
      hosts c' = hosts c4 \<and> volumes c' = volumes c4"
  proof (cases "b_mode b = ''fullbit''")
    case True
    with s5 have "c' = c4" by simp
    with f4 show ?thesis by blast
  next
    case False
    with s5 have "reconcile t (h_id h) (v_id v) (map (stamp_row (h_id h) (v_id v) snap) vetted)
        (snapshot_prior (h_id h) (v_id v) (map e_inode vetted) (entries c3)) (removed_keys b)
        (v_change_log_enabled v) c4 = ((r_entries_removed r, r_changes_logged r), c')" by simp
    from reconcile_facts [OF conjunct1 [OF f4] conjunct1 [OF conjunct2 [OF f4]] this]
    show ?thesis by blast
  qed
  have "h \<in> set (hosts c')" "v \<in> set (volumes c')" using f1 f2 f3 f4 f5 by simp_all
  moreover have "elsewhere (h_id h) (v_id v) (entries c') = elsewhere (h_id h) (v_id v) (entries c0)"
    using f1 f2 f3 f4 f5 by simp
  moreover have "\<forall>w \<in> set (volumes c'). v_id w \<noteq> v_id v \<longrightarrow> w \<in> set (volumes c0)"
    using f1 f2 f3 f4 f5 by simp
  ultimately show ?thesis
    using conjunct1 [OF f5] conjunct1 [OF conjunct2 [OF f5]] f1 f2 unfolding r catalogue_sound_def by blast
qed

text \<open>C34. An accepted batch keeps the catalogue sound: identities stay unique and every entry lies at or
  under the mountpoint of its volume, whatever paths the agent sent. The batch is booked to the host
  of the certificate and to that host's volume with the batch's mountpoint, and no entry of any other
  volume, and no volume of any other host, is touched.\<close>

theorem ingest_confined:
  assumes sound: "catalogue_sound c0" and run: "ingest pg max_batch t b fp c0 = Inr (r, c')"
  shows "catalogue_sound c' \<and>
    (\<exists>h \<in> set (hosts c'). h_id h = r_host_id r \<and> h_fingerprint h = fp) \<and>
    (\<exists>v \<in> set (volumes c'). v_id v = r_volume_id r \<and> v_host_id v = r_host_id r \<and>
       v_mountpoint v = vf_mountpoint (b_volume b)) \<and>
    elsewhere (r_host_id r) (r_volume_id r) (entries c') = elsewhere (r_host_id r) (r_volume_id r) (entries c0) \<and>
    (\<forall>w \<in> set (volumes c'). v_id w \<noteq> r_volume_id r \<longrightarrow> w \<in> set (volumes c0))"
  using assms by (rule ingest_sound)

end
