(* ===== verification/Churn.thy ===== *)
theory Churn
  imports Ingest_Facts
begin

text \<open>
  What a metadata batch does to the entries, row by row: a batch sent again changes nothing, the
  churn rows account for every byte, and a file that was only renamed keeps its old path.
\<close>

section \<open>One pass of the upsert\<close>

text \<open>What the statement leaves under a key the batch names: the new row, the overwritten row or, when
  nothing has changed, the old one.\<close>

definition merged :: "bool \<Rightarrow> fs_entry \<Rightarrow> fs_entry option \<Rightarrow> fs_entry \<Rightarrow> bool" where
  "merged fullbit row old new \<longleftrightarrow>
     (case old of
        None \<Rightarrow> \<exists>i. new = row\<lparr> e_id := i \<rparr>
      | Some e \<Rightarrow> new = (if upsert_guard fullbit row e then overwrite_entry fullbit row e else e))"

lemma upsert_entry_effect:
  assumes "upsert_entry pg fullbit row (T, es, ne) = Inr (T', es', ne')"
  shows "(\<exists>e. find_row entry_key (entry_key row) es' = Some e \<and>
      merged fullbit row (find_row entry_key (entry_key row) es) e) \<and>
    (\<forall>k. k \<noteq> entry_key row \<longrightarrow> find_row entry_key k es' = find_row entry_key k es) \<and>
    T' \<subseteq> insert (entry_key row) T"
proof (cases "find_row entry_key (entry_key row) es")
  case None
  with assms have "es' = es @ [row\<lparr> e_id := ne \<rparr>]" "T' = insert (entry_key row) T"
    by (auto simp: upsert_entry_def)
  with None show ?thesis
    by (auto simp: find_row_append find_row_single merged_def split: option.splits)
next
  case (Some old)
  show ?thesis
  proof (cases "upsert_guard fullbit row old")
    case True
    with Some assms have es': "es' = update_where (\<lambda>e. entry_key e = entry_key row) (overwrite_entry fullbit row) es"
      and T': "T' = insert (entry_key row) T"
      by (auto simp: upsert_entry_def split: if_splits)
    have eq: "find_row entry_key k es' =
        map_option (\<lambda>e. if entry_key e = entry_key row then overwrite_entry fullbit row e else e) (find_row entry_key k es)"
      for k
      unfolding es' by (rule find_row_update) auto
    then have "find_row entry_key (entry_key row) es' = Some (overwrite_entry fullbit row old)"
      using Some find_row_mem [OF Some] by simp
    moreover have "find_row entry_key k es' = find_row entry_key k es" if "k \<noteq> entry_key row" for k
      using eq [of k] that find_row_mem [of entry_key k es] by (cases "find_row entry_key k es") auto
    ultimately show ?thesis using Some True T' by (simp add: merged_def)
  next
    case False
    with Some assms have "es' = es" "T' \<subseteq> insert (entry_key row) T"
      by (auto simp: upsert_entry_def split: if_splits)
    with Some False show ?thesis by (auto simp: merged_def)
  qed
qed


lemma upsert_loop_effect:
  assumes "upsert_loop pg fullbit rows (T, es, ne) = Inr (T', es', ne')" "distinct (map entry_key rows)"
  shows "(\<forall>row \<in> set rows. \<exists>e. find_row entry_key (entry_key row) es' = Some e \<and>
      merged fullbit row (find_row entry_key (entry_key row) es) e) \<and>
    (\<forall>k. k \<notin> entry_key ` set rows \<longrightarrow> find_row entry_key k es' = find_row entry_key k es)"
  using assms
proof (induction rows arbitrary: T es ne)
  case (Cons row rows)
  from Cons.prems(1) obtain T1 es1 ne1 where
    1: "upsert_entry pg fullbit row (T, es, ne) = Inr (T1, es1, ne1)"
    and 2: "upsert_loop pg fullbit rows (T1, es1, ne1) = Inr (T', es', ne')"
    by auto
  note step = upsert_entry_effect [OF 1]
  have "distinct (map entry_key rows)" "entry_key row \<notin> entry_key ` set rows" using Cons.prems(2) by auto
  note rest = Cons.IH [OF 2 this(1)] and fresh = this(2)
  have "find_row entry_key (entry_key r) es1 = find_row entry_key (entry_key r) es" if "r \<in> set rows" for r
    using step that fresh by (metis imageI)
  moreover have "find_row entry_key (entry_key row) es' = find_row entry_key (entry_key row) es1"
    using rest fresh by blast
  ultimately show ?case using step rest by auto
qed simp

text \<open>Rows whose keys are stored unchanged and present leave the table alone, on either database.\<close>

lemma upsert_loop_unchanged:
  assumes "\<And>row. row \<in> set rows \<Longrightarrow> \<exists>e. find_row entry_key (entry_key row) es = Some e \<and> \<not> upsert_guard fullbit row e"
  shows "upsert_loop pg fullbit rows ({}, es, ne) = Inr ({}, es, ne)"
  using assms
proof (induction rows)
  case (Cons row rows)
  then obtain e where "find_row entry_key (entry_key row) es = Some e" "\<not> upsert_guard fullbit row e" by auto
  then have "upsert_entry pg fullbit row ({}, es, ne) = Inr ({}, es, ne)" by (simp add: upsert_entry_def)
  with Cons show ?case by simp
qed simp

lemma merged_settled:
  assumes "merged False row old e" "e_present row"
  shows "e_mtime e = e_mtime row \<and> e_size_logical e = e_size_logical row \<and> e_present e"
  using assms
  by (cases old) (auto simp: merged_def overwrite_entry_def upsert_guard_def Let_def split: if_splits)

section \<open>The accounts of a volume\<close>

definition present_bytes :: "int \<Rightarrow> int \<Rightarrow> fs_entry list \<Rightarrow> int" where
  "present_bytes h v es =
     (\<Sum>e\<leftarrow>es. if e_host_id e = h \<and> e_volume_id e = v \<and> e_present e then e_size_logical e else 0)"

definition bytes_of :: "fs_entry \<Rightarrow> int" where
  "bytes_of e = (if e_present e then e_size_logical e else 0)"

definition old_bytes :: "fs_entry option \<Rightarrow> int" where
  "old_bytes old = (case old of None \<Rightarrow> 0 | Some e \<Rightarrow> bytes_of e)"

lemma present_bytes_append: "present_bytes h v (xs @ ys) = present_bytes h v xs + present_bytes h v ys"
  by (simp add: present_bytes_def)

lemma present_bytes_Cons:
  "present_bytes h v (e # es) =
     (if e_host_id e = h \<and> e_volume_id e = v then bytes_of e else 0) + present_bytes h v es"
  by (simp add: present_bytes_def bytes_of_def)

lemma present_bytes_overwrite:
  assumes "distinct (map entry_key es)" "find_row entry_key k es = Some old" "k = (h, v, d, i)"
    and "entry_key (f old) = k"
  shows "present_bytes h v (update_where (\<lambda>e. entry_key e = k) f es) =
    present_bytes h v es - bytes_of old + bytes_of (f old)"
  using assms
proof (induction es)
  case (Cons e es)
  show ?case
  proof (cases "entry_key e = k")
    case True
    with Cons.prems have "old = e" by (simp add: find_row_def)
    moreover have "update_where (\<lambda>e. entry_key e = k) f es = es"
      using Cons.prems(1) True by (auto simp: update_where_def image_iff intro!: map_idI)
    moreover have "e_host_id e = h \<and> e_volume_id e = v" "e_host_id (f old) = h \<and> e_volume_id (f old) = v"
      using True Cons.prems(3,4) by (auto simp: entry_key_def)
    ultimately show ?thesis using True by (simp add: update_where_def present_bytes_Cons)
  next
    case False
    with Cons show ?thesis by (simp add: update_where_def present_bytes_Cons find_row_def)
  qed
qed (simp add: find_row_def)

lemma upsert_entry_bytes:
  assumes "upsert_entry pg fullbit row (T, es, ne) = Inr (T', es', ne')" "distinct (map entry_key es)"
    and "e_host_id row = h" "e_volume_id row = v"
    and "find_row entry_key (entry_key row) es' = Some e"
  shows "present_bytes h v es' = present_bytes h v es - old_bytes (find_row entry_key (entry_key row) es) + bytes_of e"
proof (cases "find_row entry_key (entry_key row) es")
  case None
  with assms(1) have es': "es' = es @ [row\<lparr> e_id := ne \<rparr>]" by (auto simp: upsert_entry_def)
  with None assms(5) have "row\<lparr> e_id := ne \<rparr> = e"
    by (simp add: find_row_append find_row_single)
  moreover have "present_bytes h v [row\<lparr> e_id := ne \<rparr>] = bytes_of (row\<lparr> e_id := ne \<rparr>)"
    using assms(3,4) by (simp add: present_bytes_def bytes_of_def)
  ultimately show ?thesis using None by (simp add: es' present_bytes_append old_bytes_def)
next
  case (Some old)
  have merged: "e = (if upsert_guard fullbit row old then overwrite_entry fullbit row old else old)"
    using upsert_entry_effect [OF assms(1)] assms(5) Some by (simp add: merged_def)
  show ?thesis
  proof (cases "upsert_guard fullbit row old")
    case True
    with Some assms(1) have "es' = update_where (\<lambda>e. entry_key e = entry_key row) (overwrite_entry fullbit row) es"
      by (auto simp: upsert_entry_def split: if_splits)
    moreover have "entry_key row = (h, v, e_dev row, e_inode row)" using assms(3,4) by (simp add: entry_key_def)
    moreover have "entry_key (overwrite_entry fullbit row old) = entry_key row" using find_row_mem [OF Some] by simp
    ultimately show ?thesis
      using present_bytes_overwrite [OF assms(2) Some] True merged Some by (simp add: old_bytes_def)
  next
    case False
    with Some assms(1) have "es' = es" by (auto simp: upsert_entry_def split: if_splits)
    with Some merged False show ?thesis by (simp add: old_bytes_def)
  qed
qed


lemma upsert_entry_distinct:
  assumes "upsert_entry pg fullbit row (T, es, ne) = Inr (T', es', ne')" "distinct (map entry_key es)"
  shows "distinct (map entry_key es')"
  using assms
  by (auto simp: upsert_entry_def find_row_None image_iff map_update_where split: option.splits if_splits)
    blast

text \<open>What the volume gains: for each row, what is stored under its key after minus before.\<close>

lemma upsert_loop_bytes:
  assumes "upsert_loop pg fullbit rows (T, es, ne) = Inr (T', es', ne')" "distinct (map entry_key rows)"
    and "distinct (map entry_key es)" "\<And>row. row \<in> set rows \<Longrightarrow> e_host_id row = h \<and> e_volume_id row = v"
  shows "present_bytes h v es' = present_bytes h v es +
    (\<Sum>row\<leftarrow>rows. old_bytes (find_row entry_key (entry_key row) es') -
      old_bytes (find_row entry_key (entry_key row) es))"
  using assms
proof (induction rows arbitrary: T es ne)
  case (Cons row rows)
  from Cons.prems(1) obtain T1 es1 ne1 where
    1: "upsert_entry pg fullbit row (T, es, ne) = Inr (T1, es1, ne1)"
    and 2: "upsert_loop pg fullbit rows (T1, es1, ne1) = Inr (T', es', ne')"
    by auto
  have d: "distinct (map entry_key rows)" "entry_key row \<notin> entry_key ` set rows" using Cons.prems(2) by auto
  obtain e where e: "find_row entry_key (entry_key row) es1 = Some e"
    using upsert_entry_effect [OF 1] by blast
  have last: "find_row entry_key (entry_key row) es' = Some e"
    using conjunct2 [OF upsert_loop_effect [OF 2 d(1)], rule_format, OF d(2)] e by (rule trans)
  have "find_row entry_key (entry_key r) es1 = find_row entry_key (entry_key r) es" if "r \<in> set rows" for r
    using upsert_entry_effect [OF 1] that d(2) by (metis imageI)
  then have "(\<Sum>r\<leftarrow>rows. old_bytes (find_row entry_key (entry_key r) es') - old_bytes (find_row entry_key (entry_key r) es1)) =
      (\<Sum>r\<leftarrow>rows. old_bytes (find_row entry_key (entry_key r) es') - old_bytes (find_row entry_key (entry_key r) es))"
    by (intro arg_cong [of _ _ sum_list] map_cong) simp_all
  moreover have "present_bytes h v es1 = present_bytes h v es - old_bytes (find_row entry_key (entry_key row) es) + bytes_of e"
    using Cons.prems(4) by (intro upsert_entry_bytes [OF 1 Cons.prems(3) _ _ e]) simp_all
  moreover have "present_bytes h v es' = present_bytes h v es1 +
      (\<Sum>r\<leftarrow>rows. old_bytes (find_row entry_key (entry_key r) es') - old_bytes (find_row entry_key (entry_key r) es1))"
    using Cons.prems(4) by (intro Cons.IH [OF 2 d(1) upsert_entry_distinct [OF 1 Cons.prems(3)]]) simp
  ultimately show ?case by (simp add: last old_bytes_def)
qed simp

lemma mark_removed_bytes:
  assumes "mark_removed h v keys when es = (n, es')"
  shows "present_bytes h v es' = present_bytes h v es - (\<Sum>e\<leftarrow>filter (removable h v keys) es. e_size_logical e)"
proof -
  have "es' = update_where (removable h v keys) (\<lambda>e. e\<lparr> e_present := False, e_removed_at := Some when \<rparr>) es"
    using assms by (simp add: mark_removed_def)
  moreover have "present_bytes h v (update_where (removable h v keys) (\<lambda>e. e\<lparr> e_present := False, e_removed_at := Some when \<rparr>) es) =
      present_bytes h v es - (\<Sum>e\<leftarrow>filter (removable h v keys) es. e_size_logical e)"
    by (induction es) (auto simp: present_bytes_def update_where_def removable_def)
  ultimately show ?thesis by simp
qed

lemma removal_churn_removed:
  assumes "\<And>e. e \<in> set es \<Longrightarrow> e_removed_at e \<noteq> Some when"
  shows "removal_churn ts h v keys when (update_where (removable h v keys)
      (\<lambda>e. e\<lparr> e_present := False, e_removed_at := Some when \<rparr>) es) =
    map (\<lambda>e. \<lparr> cl_volume_id = v, cl_path = e_path e, cl_change_type = Change_Delete,
        cl_size_delta = - e_size_logical e, cl_ts = ts \<rparr>) (filter (removable h v keys) es)"
proof -
  let ?g = "\<lambda>e. if removable h v keys e then e\<lparr> e_present := False, e_removed_at := Some when \<rparr> else e"
  let ?Q = "\<lambda>e. e_host_id e = h \<and> e_volume_id e = v \<and> removal_match keys e \<and> e_removed_at e = Some when"
  let ?m = "\<lambda>e. \<lparr> cl_volume_id = v, cl_path = e_path e, cl_change_type = Change_Delete,
        cl_size_delta = - e_size_logical e, cl_ts = ts \<rparr>"
  have "?Q (?g e) = removable h v keys e" if "e \<in> set es" for e
    using assms [OF that] by (simp add: removable_def removal_match_def)
  then have "filter (?Q \<circ> ?g) es = filter (removable h v keys) es" by (intro filter_cong) simp_all
  moreover have "map (?m \<circ> ?g) xs = map ?m xs" for xs by simp
  ultimately show ?thesis
    unfolding removal_churn_def update_where_def filter_map map_map by simp
qed


lemma snapshot_prior_find:
  assumes "i \<in> set inodes"
  shows "snapshot_prior h v inodes es (d, i) =
    map_option (\<lambda>e. \<lparr> pr_present = e_present e, pr_mtime = e_mtime e, pr_size_logical = e_size_logical e,
      pr_path = e_path e \<rparr>) (find_row entry_key (h, v, d, i) es)"
  using assms
  by (induction es) (auto simp: snapshot_prior_def find_row_def entry_key_def)

lemma sum_list_neg: "(\<Sum>x\<leftarrow>xs. - f x) = - sum_list (map f xs)"
  for f :: "'a \<Rightarrow> int"
  by (induction xs) simp_all

lemma sum_map_filter:
  "(\<Sum>y\<leftarrow>List.map_filter f xs. g y) = (\<Sum>x\<leftarrow>xs. case f x of None \<Rightarrow> 0 | Some y \<Rightarrow> g y)"
  for g :: "'a \<Rightarrow> int"
  by (induction xs) (auto simp: map_filter_simps split: option.splits)

text \<open>The churn of a row is what its key gains in bytes, unless the key comes back from the dead.\<close>

lemma churn_is_gain:
  assumes old: "find_row entry_key (entry_key row) es = old" and new: "merged False row old e"
    and row: "e_present row" "e_inode row \<in> set inodes"
    and live: "\<And>o'. old = Some o' \<Longrightarrow> e_present o'"
    and prior: "prior = snapshot_prior (e_host_id row) (e_volume_id row) inodes es"
  shows "(case upsert_churn ts v prior row of None \<Rightarrow> 0 | Some c \<Rightarrow> cl_size_delta c) = bytes_of e - old_bytes old"
proof -
  have p: "prior (e_dev row, e_inode row) = map_option (\<lambda>e. \<lparr> pr_present = e_present e, pr_mtime = e_mtime e,
      pr_size_logical = e_size_logical e, pr_path = e_path e \<rparr>) old"
    using snapshot_prior_find [OF row(2)] old by (simp add: prior entry_key_def)
  show ?thesis
  proof (cases old)
    case None
    with p new row show ?thesis
      by (auto simp: upsert_churn_def classify_def merged_def old_bytes_def bytes_of_def)
  next
    case (Some o')
    with p new row live show ?thesis
      by (auto simp: upsert_churn_def classify_def merged_def old_bytes_def bytes_of_def upsert_guard_def
          overwrite_entry_def Let_def)
  qed
qed

lemma ingest_metadata_steps:
  assumes sound: "catalogue_sound c0" and run: "ingest pg max_batch t b fp c0 = Inr (r, c')"
    and mode: "b_mode b \<noteq> ''fullbit''"
  obtains mount h c1 v c2 snap c3 c4 vetted rejected T ne where
    "check_batch max_batch b = Inr mount"
    "upsert_host t b fp c0 = Inr (h, c1)" "upsert_volume t h b c1 = (v, c2)"
    "resolve_snapshot t h v b c2 = Inr (snap, c3)"
    "vet_entries False (at_hash t) mount (b_entries b) = (vetted, rejected)"
    "upsert_loop pg False (map (stamp_row (h_id h) (v_id v) snap) vetted) ({}, entries c0, ne) = Inr (T, entries c4, snd (snd (snd (next_row c4))))"
    "r_host_id r = h_id h" "r_volume_id r = v_id v" "changes c4 = changes c0"
    "v \<in> set (volumes c')" "catalogue_ok c4"
    "reconcile t (h_id h) (v_id v) (map (stamp_row (h_id h) (v_id v) snap) vetted)
       (snapshot_prior (h_id h) (v_id v) (map e_inode vetted) (entries c0)) (removed_keys b)
       (v_change_log_enabled v) c4 = ((r_entries_removed r, r_changes_logged r), c')"
  using run
proof (rule ingest_steps)
  fix mount h c1 v c2 snap c3 c4 vetted rejected
  assume check: "check_batch max_batch b = Inr mount"
    and s1: "upsert_host t b fp c0 = Inr (h, c1)" and s2: "upsert_volume t h b c1 = (v, c2)"
    and s3: "resolve_snapshot t h v b c2 = Inr (snap, c3)"
    and vet: "vet_entries (b_mode b = ''fullbit'') (at_hash t) mount (b_entries b) = (vetted, rejected)"
    and s4: "upsert_entries pg (b_mode b = ''fullbit'') (map (stamp_row (h_id h) (v_id v) snap) vetted) c3 = Inr c4"
    and r: "r_host_id r = h_id h" "r_volume_id r = v_id v"
    and s5: "((r_entries_removed r, r_changes_logged r), c') =
       (if b_mode b = ''fullbit'' then ((0, 0), c4)
        else reconcile t (h_id h) (v_id v) (map (stamp_row (h_id h) (v_id v) snap) vetted)
          (snapshot_prior (h_id h) (v_id v) (map e_inode vetted) (entries c3)) (removed_keys b)
          (v_change_log_enabled v) c4)"
  from sound have ok0: "catalogue_ok c0" by (simp add: catalogue_sound_def)
  note f1 = upsert_host_facts [OF ok0 s1]
  have "h_id h \<in> h_id ` set (hosts c1)" using f1 by blast
  note f2 = upsert_volume_facts [OF conjunct1 [OF f1] this s2]
  note f3 = resolve_snapshot_facts [OF conjunct1 [OF f2] s3]
  have e3: "entries c3 = entries c0" "changes c3 = changes c0" "volumes c3 = volumes c2" using f1 f2 f3 by simp_all
  obtain T ne where loop: "upsert_loop pg False (map (stamp_row (h_id h) (v_id v) snap) vetted) ({}, entries c0, ne) =
      Inr (T, entries c4, snd (snd (snd (next_row c4))))"
    and c4: "changes c4 = changes c3" "volumes c4 = volumes c3" "hosts c4 = hosts c3" "snapshots c4 = snapshots c3"
      "fst (next_row c4) = fst (next_row c3)" "fst (snd (next_row c4)) = fst (snd (next_row c3))"
      "fst (snd (snd (next_row c4))) = fst (snd (snd (next_row c3)))" "ne = snd (snd (snd (next_row c3)))"
    using s4 mode by (auto simp: upsert_entries_def e3 split: prod.splits)
  have v: "v \<in> set (volumes c4)" using f2 e3 c4 by simp
  have vk: "(h_id h, v_id v) \<in> volume_key ` set (volumes c3)"
    by (rule image_eqI [OF _ v [unfolded c4]]) (use f2 in \<open>simp add: volume_key_def\<close>)
  have "entries_ok (volume_key ` set (volumes c3)) (entries c4) (snd (snd (snd (next_row c4))))"
    using loop
  proof (rule upsert_loop_invariant [where I = "entries_ok (volume_key ` set (volumes c3))"])
    show "entries_ok (volume_key ` set (volumes c3)) (entries c0) ne"
      using conjunct1 [OF f3] by (auto simp: catalogue_ok_def c4(8) e3(1) [symmetric])
  next
    fix row es ne
    assume "row \<in> set (map (stamp_row (h_id h) (v_id v) snap) vetted)"
      "entries_ok (volume_key ` set (volumes c3)) es ne" "find_row entry_key (entry_key row) es = None"
    then show "entries_ok (volume_key ` set (volumes c3)) (es @ [row\<lparr> e_id := ne \<rparr>]) (ne + 1)"
      using vk by (intro entries_ok_insert) auto
  next
    fix row es ne
    assume "entries_ok (volume_key ` set (volumes c3)) es ne"
    then show "entries_ok (volume_key ` set (volumes c3))
        (update_where (\<lambda>e. entry_key e = entry_key row) (overwrite_entry False row) es) ne"
      by (simp add: entries_ok_update)
  qed
  then have ok4: "catalogue_ok c4"
    using conjunct1 [OF f3] c4 by (cases "next_row c3"; cases "next_row c4") (auto simp: catalogue_ok_def)
  have rec: "reconcile t (h_id h) (v_id v) (map (stamp_row (h_id h) (v_id v) snap) vetted)
       (snapshot_prior (h_id h) (v_id v) (map e_inode vetted) (entries c0)) (removed_keys b)
       (v_change_log_enabled v) c4 = ((r_entries_removed r, r_changes_logged r), c')"
    using s5 mode e3 by simp
  then have "volumes c' = volumes c4"
    by (auto simp: reconcile_def mark_removed_def Let_def split: if_splits)
  with v have "v \<in> set (volumes c')" by simp
  with that check s1 s2 s3 vet [unfolded mode] loop r c4(1) e3(2) ok4 rec mode show thesis by simp
qed


lemma vetted_keys_distinct:
  assumes "vet_entries fullbit hashed_at mount es = (rows, rejected)"
    and "distinct (map (\<lambda>e. (ef_dev e, ef_inode e)) es)"
  shows "distinct (map entry_key (map (stamp_row h v s) rows))"
    and "(\<lambda>r. (e_dev r, e_inode r)) ` set rows \<subseteq> (\<lambda>e. (ef_dev e, ef_inode e)) ` set es"
proof -
  have rows: "rows = List.map_filter (vet_entry fullbit hashed_at mount) es"
    using assms(1) by (simp add: vet_entries_def Let_def)
  have key: "vet_entry fullbit hashed_at mount e = Some r \<Longrightarrow> e_dev r = ef_dev e \<and> e_inode r = ef_inode e" for e r
    by (auto simp: vet_entry_def entry_row_def split: option.splits if_splits)
  show sub: "(\<lambda>r. (e_dev r, e_inode r)) ` set rows \<subseteq> (\<lambda>e. (ef_dev e, ef_inode e)) ` set es"
    using key by (auto simp: rows mem_map_filter image_iff) metis
  have "distinct (map (\<lambda>r. (e_dev r, e_inode r)) (List.map_filter (vet_entry fullbit hashed_at mount) fs)) \<and>
      (\<lambda>r. (e_dev r, e_inode r)) ` set (List.map_filter (vet_entry fullbit hashed_at mount) fs) \<subseteq>
        (\<lambda>e. (ef_dev e, ef_inode e)) ` set fs"
    if "distinct (map (\<lambda>e. (ef_dev e, ef_inode e)) fs)" for fs
    using that
  proof (induction fs)
    case (Cons f fs)
    show ?case
    proof (cases "vet_entry fullbit hashed_at mount f")
      case None
      with Cons show ?thesis by (auto simp: map_filter_simps)
    next
      case (Some a)
      let ?rs = "List.map_filter (vet_entry fullbit hashed_at mount) fs"
      from key [OF Some] have a: "(e_dev a, e_inode a) = (ef_dev f, ef_inode f)" by simp
      have IH: "distinct (map (\<lambda>r. (e_dev r, e_inode r)) ?rs)"
        "(\<lambda>r. (e_dev r, e_inode r)) ` set ?rs \<subseteq> (\<lambda>e. (ef_dev e, ef_inode e)) ` set fs"
        using Cons by simp_all
      moreover have "(e_dev a, e_inode a) \<notin> (\<lambda>r. (e_dev r, e_inode r)) ` set ?rs"
        using IH(2) Cons.prems unfolding a by auto
      ultimately show ?thesis using a Some by (auto simp: map_filter_simps)
    qed
  qed (simp add: map_filter_simps)
  from this [OF assms(2)] have "distinct (map (\<lambda>r. (e_dev r, e_inode r)) rows)" by (simp add: rows)
  then show "distinct (map entry_key (map (stamp_row h v s) rows))"
    by (simp add: distinct_map inj_on_def entry_key_def)
qed

lemma vetted_present: "vet_entries fullbit hashed_at mount es = (rows, rejected) \<Longrightarrow> row \<in> set rows \<Longrightarrow> e_present row"
  by (erule (1) vet_entries_rows) (simp add: entry_row_def)

text \<open>The churn rows of a metadata batch account for every byte: what the volume's present entries
  hold afterwards is what they held before plus the sum of the size deltas logged, deletions
  included, when no entry of the batch is the return of a removed one.\<close>

theorem churn_accounts_for_bytes:
  assumes sound: "catalogue_sound c0" and run: "ingest pg max_batch t b fp c0 = Inr (r, c')"
    and mode: "b_mode b \<noteq> ''fullbit''"
    and log: "\<And>v. v \<in> set (volumes c') \<Longrightarrow> v_id v = r_volume_id r \<Longrightarrow> v_change_log_enabled v"
    and keys: "distinct (map (\<lambda>e. (ef_dev e, ef_inode e)) (b_entries b))"
    and fresh: "\<And>e. e \<in> set (entries c0) \<Longrightarrow> e_removed_at e \<noteq> Some (at_reconcile t)"
    and live: "\<And>e f. \<lbrakk> e \<in> set (entries c0); f \<in> set (b_entries b); e_host_id e = r_host_id r;
      e_volume_id e = r_volume_id r; e_dev e = ef_dev f; e_inode e = ef_inode f \<rbrakk> \<Longrightarrow> e_present e"
  shows "\<exists>churn. changes c' = changes c0 @ churn \<and> length churn = r_changes_logged r \<and>
    present_bytes (r_host_id r) (r_volume_id r) (entries c') =
      present_bytes (r_host_id r) (r_volume_id r) (entries c0) + (\<Sum>c\<leftarrow>churn. cl_size_delta c)"
  using sound run mode
proof (rule ingest_metadata_steps)
  fix mount h c1 v c2 snap c3 c4 vetted rejected T ne
  assume vet: "vet_entries False (at_hash t) mount (b_entries b) = (vetted, rejected)"
    and loop: "upsert_loop pg False (map (stamp_row (h_id h) (v_id v) snap) vetted) ({}, entries c0, ne) =
      Inr (T, entries c4, snd (snd (snd (next_row c4))))"
    and r: "r_host_id r = h_id h" "r_volume_id r = v_id v" and c4: "changes c4 = changes c0"
    and v: "v \<in> set (volumes c')"
    and rec: "reconcile t (h_id h) (v_id v) (map (stamp_row (h_id h) (v_id v) snap) vetted)
       (snapshot_prior (h_id h) (v_id v) (map e_inode vetted) (entries c0)) (removed_keys b)
       (v_change_log_enabled v) c4 = ((r_entries_removed r, r_changes_logged r), c')"
  let ?rows = "map (stamp_row (h_id h) (v_id v) snap) vetted"
  let ?prior = "snapshot_prior (h_id h) (v_id v) (map e_inode vetted) (entries c0)"
  let ?up = "List.map_filter (upsert_churn (at_change t) (v_id v) ?prior) ?rows"
  obtain n es where rem: "mark_removed (h_id h) (v_id v) (removed_keys b) (at_reconcile t) (entries c4) = (n, es)"
    by fastforce
  let ?del = "removal_churn (at_change t) (h_id h) (v_id v) (removed_keys b) (at_reconcile t) es"
  have "v_change_log_enabled v" using log v r by simp
  with rec rem c4 have c': "changes c' = changes c0 @ ?up @ ?del" "r_changes_logged r = length (?up @ ?del)"
    "entries c' = es"
    by (auto simp: reconcile_def Let_def)
  have dk: "distinct (map entry_key ?rows)" using vetted_keys_distinct [OF vet keys] by simp
  have ok: "distinct (map entry_key (entries c0))"
    using sound by (auto simp: catalogue_sound_def catalogue_ok_def entries_ok_def)
  note effect = upsert_loop_effect [OF loop dk]
  have gain: "(case upsert_churn (at_change t) (v_id v) ?prior row of None \<Rightarrow> 0 | Some c \<Rightarrow> cl_size_delta c) =
      old_bytes (find_row entry_key (entry_key row) (entries c4)) -
      old_bytes (find_row entry_key (entry_key row) (entries c0))" if row: "row \<in> set ?rows" for row
  proof -
    obtain e where e: "find_row entry_key (entry_key row) (entries c4) = Some e"
      "merged False row (find_row entry_key (entry_key row) (entries c0)) e"
      using effect row by blast
    have "e_present o'" if "find_row entry_key (entry_key row) (entries c0) = Some o'" for o'
    proof -
      obtain f where "f \<in> set (b_entries b)" "e_dev row = ef_dev f" "e_inode row = ef_inode f"
        using row vetted_keys_distinct(2) [OF vet keys] by auto
      with live find_row_mem [OF that] row r show ?thesis by (auto simp: entry_key_eq)
    qed
    moreover have "e_host_id row = h_id h" "e_volume_id row = v_id v" "e_present row" "e_inode row \<in> set (map e_inode vetted)"
      using row vetted_present [OF vet] by auto
    ultimately show ?thesis
      using churn_is_gain [OF refl e(2), where prior = ?prior and inodes = "map e_inode vetted" and
          ts = "at_change t" and v = "v_id v"]
      by (simp add: e(1) old_bytes_def)
  qed
  have "present_bytes (h_id h) (v_id v) (entries c4) = present_bytes (h_id h) (v_id v) (entries c0) +
      (\<Sum>row\<leftarrow>?rows. old_bytes (find_row entry_key (entry_key row) (entries c4)) -
        old_bytes (find_row entry_key (entry_key row) (entries c0)))"
    by (rule upsert_loop_bytes [OF loop dk ok]) auto
  also have "(\<Sum>row\<leftarrow>?rows. old_bytes (find_row entry_key (entry_key row) (entries c4)) -
        old_bytes (find_row entry_key (entry_key row) (entries c0))) = (\<Sum>c\<leftarrow>?up. cl_size_delta c)"
    unfolding sum_map_filter by (intro arg_cong [of _ _ sum_list] map_cong refl gain [symmetric])
  finally have up: "present_bytes (h_id h) (v_id v) (entries c4) =
      present_bytes (h_id h) (v_id v) (entries c0) + (\<Sum>c\<leftarrow>?up. cl_size_delta c)" .
  have "\<forall>e \<in> set (entries c4). e_removed_at e \<noteq> Some (at_reconcile t)"
    using loop
  proof (rule upsert_loop_invariant [where I = "\<lambda>es ne. \<forall>e \<in> set es. e_removed_at e \<noteq> Some (at_reconcile t)"])
    show "\<forall>e \<in> set (entries c0). e_removed_at e \<noteq> Some (at_reconcile t)" using fresh by blast
  next
    fix row and es :: "fs_entry list" and ne :: int
    assume "row \<in> set ?rows" "\<forall>e \<in> set es. e_removed_at e \<noteq> Some (at_reconcile t)"
    moreover from this(1) have "e_removed_at row = None"
      by (auto simp: stamp_row_def entry_row_def elim: vet_entries_rows [OF vet])
    ultimately show "\<forall>e \<in> set (es @ [row\<lparr> e_id := ne \<rparr>]). e_removed_at e \<noteq> Some (at_reconcile t)"
      "\<forall>e \<in> set (update_where (\<lambda>e. entry_key e = entry_key row) (overwrite_entry False row) es).
        e_removed_at e \<noteq> Some (at_reconcile t)"
      by (auto simp: set_update_where overwrite_entry_def Let_def split: if_splits)
  qed
  then have "(\<Sum>c\<leftarrow>?del. cl_size_delta c) =
      - (\<Sum>e\<leftarrow>filter (removable (h_id h) (v_id v) (removed_keys b)) (entries c4). e_size_logical e)"
    using rem removal_churn_removed [of "entries c4" "at_reconcile t"]
    by (auto simp: mark_removed_def comp_def sum_list_neg)
  with mark_removed_bytes [OF rem] up c' r show ?thesis by (auto intro!: exI [of _ "?up @ ?del"])
qed


lemma find_row_known: "distinct (map f xs) \<Longrightarrow> x \<in> set xs \<Longrightarrow> f x = k \<Longrightarrow> find_row f k xs = Some x"
  by (simp add: find_row_Some)

lemma vet_entries_metadata: "vet_entries False t m es = vet_entries False t' m es"
proof -
  have "vet_entry False t m = vet_entry False t' m"
    by (simp add: fun_eq_iff vet_entry_def entry_row_def split: option.split)
  then show ?thesis by (simp add: vet_entries_def)
qed

text \<open>Rows that are stored already, present and unchanged: nothing is churned.\<close>

lemma settled_no_churn:
  assumes "find_row entry_key (entry_key row) es = Some e" "\<not> upsert_guard False row e"
    and "e_inode row \<in> set inodes"
  shows "upsert_churn ts v (snapshot_prior (e_host_id row) (e_volume_id row) inodes es) row = None"
  using assms(1,2) snapshot_prior_find [OF assms(3), of "e_host_id row" "e_volume_id row" es "e_dev row"]
  by (auto simp: upsert_churn_def classify_def upsert_guard_def entry_key_def)

text \<open>A metadata batch sent again, after an acknowledgement that was lost, is accepted and changes
  neither an entry nor the churn log, on either database: nothing is inserted, rewritten, removed or
  logged twice.\<close>

theorem ingest_retry_changes_nothing:
  assumes sound: "catalogue_sound c0" and run: "ingest pg max_batch t b fp c0 = Inr (r, c1)"
    and mode: "b_mode b \<noteq> ''fullbit''" and snap: "b_snapshot_id b = None"
    and keys: "distinct (map (\<lambda>e. (ef_dev e, ef_inode e)) (b_entries b))"
    and sent: "\<And>f. f \<in> set (b_entries b) \<Longrightarrow>
      (Some (ef_dev f), ef_inode f) \<notin> set (removed_keys b) \<and> (None, ef_inode f) \<notin> set (removed_keys b)"
    and fresh: "\<And>e. e \<in> set (entries c1) \<Longrightarrow> e_removed_at e \<noteq> Some (at_reconcile t')"
  shows "\<exists>r2 c2. ingest pg max_batch t' b fp c1 = Inr (r2, c2) \<and> entries c2 = entries c1 \<and>
    changes c2 = changes c1 \<and> r_entries_removed r2 = 0 \<and> r_changes_logged r2 = 0 \<and>
    r_host_id r2 = r_host_id r \<and> r_volume_id r2 = r_volume_id r"
  using sound run mode
proof (rule ingest_metadata_steps)
  fix mount h d1 v d2 sn d3 c4 vetted rejected T ne
  assume check: "check_batch max_batch b = Inr mount"
    and vet: "vet_entries False (at_hash t) mount (b_entries b) = (vetted, rejected)"
    and loop: "upsert_loop pg False (map (stamp_row (h_id h) (v_id v) sn) vetted) ({}, entries c0, ne) =
      Inr (T, entries c4, snd (snd (snd (next_row c4))))"
    and r: "r_host_id r = h_id h" "r_volume_id r = v_id v"
    and rec: "reconcile t (h_id h) (v_id v) (map (stamp_row (h_id h) (v_id v) sn) vetted)
       (snapshot_prior (h_id h) (v_id v) (map e_inode vetted) (entries c0)) (removed_keys b)
       (v_change_log_enabled v) c4 = ((r_entries_removed r, r_changes_logged r), c1)"
  have conf: "catalogue_ok c1" using ingest_sound [OF sound run] by (simp add: catalogue_sound_def)
  obtain h1 where h1: "h1 \<in> set (hosts c1)" "h_id h1 = h_id h" "h_fingerprint h1 = fp"
    using ingest_sound [OF sound run] r by auto
  obtain v1 where v1: "v1 \<in> set (volumes c1)" "v_id v1 = v_id v" "v_host_id v1 = h_id h"
    "v_mountpoint v1 = vf_mountpoint (b_volume b)"
    using ingest_sound [OF sound run] r by auto
  have fh: "find_row h_fingerprint fp (hosts c1) = Some h1"
    using conf h1 by (intro find_row_known) (auto simp: catalogue_ok_def hosts_ok_def)
  have fv: "find_row (\<lambda>v. (v_host_id v, v_mountpoint v)) (h_id h, vf_mountpoint (b_volume b)) (volumes c1) = Some v1"
    using conf v1 by (intro find_row_known) (auto simp: catalogue_ok_def volumes_ok_def)
  obtain h2 d1' where s1: "upsert_host t' b fp c1 = Inr (h2, d1')" "h_id h2 = h_id h"
    "entries d1' = entries c1" "changes d1' = changes c1" "volumes d1' = volumes c1"
    using fh h1(2) by (simp add: upsert_host_def Let_def)
  obtain v2 d2' where s2: "upsert_volume t' h2 b d1' = (v2, d2')" "v_id v2 = v_id v"
    "entries d2' = entries c1" "changes d2' = changes c1"
    using fv v1(2) s1 by (simp add: upsert_volume_def Let_def refresh_volume_def)
  obtain sn' d3' where s3: "resolve_snapshot t' h2 v2 b d2' = Inr (sn', d3')" "entries d3' = entries c1"
    "changes d3' = changes c1"
    using snap s2 by (cases "next_row d2'") (simp add: resolve_snapshot_def Let_def)
  let ?rows = "map (stamp_row (h_id h) (v_id v) sn) vetted" and ?rows' = "map (stamp_row (h_id h) (v_id v) sn') vetted"
  let ?gone = "removable (h_id h) (v_id v) (removed_keys b)"
  let ?f = "\<lambda>e. e\<lparr> e_present := False, e_removed_at := Some (at_reconcile t) \<rparr>"
  have c1: "entries c1 = update_where ?gone ?f (entries c4)"
    using rec by (auto simp: reconcile_def mark_removed_def Let_def split: if_splits)
  have settled: "\<exists>e. find_row entry_key (entry_key row) (entries c1) = Some e \<and> \<not> upsert_guard False row e"
    if row: "row \<in> set ?rows'" for row
  proof -
    from row obtain row0 where row0: "row0 \<in> set vetted" "row = stamp_row (h_id h) (v_id v) sn' row0" by auto
    let ?row = "stamp_row (h_id h) (v_id v) sn row0"
    have key: "entry_key ?row = entry_key row" by (simp add: row0(2) entry_key_def)
    obtain e where e: "find_row entry_key (entry_key row) (entries c4) = Some e"
      "merged False ?row (find_row entry_key (entry_key row) (entries c0)) e"
      using upsert_loop_effect [OF loop vetted_keys_distinct(1) [OF vet keys]] row0(1) key by fastforce
    obtain f where "f \<in> set (b_entries b)" "e_dev row0 = ef_dev f" "e_inode row0 = ef_inode f"
      using vetted_keys_distinct(2) [OF vet keys] row0(1) by auto
    with sent find_row_mem [OF e(1)] row0(2) have "\<not> ?gone e"
      by (auto simp: removable_def removal_match_def entry_key_eq)
    moreover have "entry_key (?f x) = entry_key x" for x by (simp add: entry_key_def)
    ultimately have "find_row entry_key (entry_key row) (entries c1) = Some e"
      using e(1) find_row_update [of entry_key ?f "entry_key row" ?gone "entries c4"] by (simp add: c1)
    moreover have "\<not> upsert_guard False row e"
      using merged_settled [OF e(2)] vetted_present [OF vet row0(1)] by (simp add: row0(2) upsert_guard_def)
    ultimately show ?thesis by blast
  qed
  obtain nh nv ns ne' where n: "next_row d3' = (nh, nv, ns, ne')" by (cases "next_row d3'") auto
  have s4: "upsert_entries pg False ?rows' d3' = Inr d3'"
    using upsert_loop_unchanged [OF settled, of ?rows'] n s3(2) by (simp add: upsert_entries_def)
  have nogone: "\<not> ?gone e" if "e \<in> set (entries c1)" for e
  proof -
    from that obtain x where "e = (if ?gone x then ?f x else x)" by (auto simp: c1 set_update_where)
    then show ?thesis by (cases "?gone x") (simp_all add: removable_def)
  qed
  then have s5: "mark_removed (h_id h) (v_id v) (removed_keys b) (at_reconcile t') (entries d3') = (0, entries c1)"
    by (simp add: mark_removed_def s3(2) update_where_def) (auto intro!: map_idI)
  have "removal_churn ts (h_id h) (v_id v) (removed_keys b) (at_reconcile t') (entries c1) = []" for ts
    using fresh by (auto simp: removal_churn_def filter_empty_conv)
  moreover have "List.map_filter (upsert_churn ts (v_id v)
      (snapshot_prior (h_id h) (v_id v) (map e_inode vetted) (entries c1))) ?rows' = []" for ts
  proof -
    have "upsert_churn ts (v_id v) (snapshot_prior (h_id h) (v_id v) (map e_inode vetted) (entries c1)) row = None"
      if "row \<in> set ?rows'" for row
      using settled [OF that] settled_no_churn [of row "entries c1" _ "map e_inode vetted" ts "v_id v"] that by auto
    then show ?thesis by (auto simp: map_filter_def filter_empty_conv)
  qed
  ultimately have rec': "reconcile t' (h_id h) (v_id v) ?rows' (snapshot_prior (h_id h) (v_id v) (map e_inode vetted) (entries c1))
      (removed_keys b) log d3' = ((0, 0), d3')" for log
    using s5 s3 by (cases d3') (simp add: reconcile_def)
  show ?thesis
    using check s1 s2 s3 s4 rec' r mode vet vet_entries_metadata [of "at_hash t'" mount "b_entries b" "at_hash t"]
    by (simp add: ingest_def Let_def)
qed


section \<open>What is not brought up to date\<close>

lemma metadata_row_after:
  assumes sound: "catalogue_sound c0" and run: "ingest pg max_batch t b fp c0 = Inr (r, c')"
    and mode: "b_mode b \<noteq> ''fullbit''"
    and keys: "distinct (map (\<lambda>e. (ef_dev e, ef_inode e)) (b_entries b))"
    and e: "e \<in> set (entries c0)" "e_host_id e = r_host_id r" "e_volume_id e = r_volume_id r"
    and kept: "(Some (e_dev e), e_inode e) \<notin> set (removed_keys b) \<and> (None, e_inode e) \<notin> set (removed_keys b)"
  obtains e' where "e' \<in> set (entries c')" "e_id e' = e_id e"
    "e' = e \<or> (\<exists>row f. f \<in> set (b_entries b) \<and> e_dev e = ef_dev f \<and> e_inode e = ef_inode f \<and>
       e_mtime row = ef_mtime f \<and> e_size_logical row = ef_size_logical f \<and>
       upsert_guard False row e \<and> e' = overwrite_entry False row e)"
  using sound run mode
proof (rule ingest_metadata_steps)
  fix mount h c1 v c2 snap c3 c4 vetted rejected T ne
  assume vet: "vet_entries False (at_hash t) mount (b_entries b) = (vetted, rejected)"
    and loop: "upsert_loop pg False (map (stamp_row (h_id h) (v_id v) snap) vetted) ({}, entries c0, ne) =
      Inr (T, entries c4, snd (snd (snd (next_row c4))))"
    and r: "r_host_id r = h_id h" "r_volume_id r = v_id v"
    and rec: "reconcile t (h_id h) (v_id v) (map (stamp_row (h_id h) (v_id v) snap) vetted)
       (snapshot_prior (h_id h) (v_id v) (map e_inode vetted) (entries c0)) (removed_keys b)
       (v_change_log_enabled v) c4 = ((r_entries_removed r, r_changes_logged r), c')"
  let ?rows = "map (stamp_row (h_id h) (v_id v) snap) vetted"
  let ?gone = "removable (h_id h) (v_id v) (removed_keys b)"
  let ?f = "\<lambda>e. e\<lparr> e_present := False, e_removed_at := Some (at_reconcile t) \<rparr>"
  have c': "entries c' = update_where ?gone ?f (entries c4)"
    using rec by (auto simp: reconcile_def mark_removed_def Let_def split: if_splits)
  have "distinct (map entry_key (entries c0))"
    using sound by (auto simp: catalogue_sound_def catalogue_ok_def entries_ok_def)
  then have old: "find_row entry_key (entry_key e) (entries c0) = Some e"
    using e(1) by (intro find_row_known) auto
  note effect = upsert_loop_effect [OF loop vetted_keys_distinct(1) [OF vet keys]]
  have "\<exists>e'. find_row entry_key (entry_key e) (entries c4) = Some e' \<and> e_id e' = e_id e \<and>
      (e' = e \<or> (\<exists>row f. f \<in> set (b_entries b) \<and> e_dev e = ef_dev f \<and> e_inode e = ef_inode f \<and>
         e_mtime row = ef_mtime f \<and> e_size_logical row = ef_size_logical f \<and>
         upsert_guard False row e \<and> e' = overwrite_entry False row e))"
  proof (cases "entry_key e \<in> entry_key ` set ?rows")
    case False
    with effect old show ?thesis by (intro exI [of _ e]) (metis (no_types))
  next
    case True
    then obtain row0 where row0: "row0 \<in> set vetted" "entry_key e = entry_key (stamp_row (h_id h) (v_id v) snap row0)"
      by auto
    let ?row = "stamp_row (h_id h) (v_id v) snap row0"
    obtain e' where e': "find_row entry_key (entry_key e) (entries c4) = Some e'" "merged False ?row (Some e) e'"
      using effect row0 old by fastforce
    obtain f candidate where f: "f \<in> set (b_entries b)" "row0 = entry_row False (at_hash t) mount candidate f"
      using vet_entries_rows [OF vet row0(1)] .
    have "e_dev e = ef_dev f" "e_inode e = ef_inode f" "e_mtime ?row = ef_mtime f" "e_size_logical ?row = ef_size_logical f"
      using row0(2) f(2) by (simp_all add: entry_key_eq entry_row_def)
    with f(1) have "e' = e \<or> (\<exists>f. f \<in> set (b_entries b) \<and> e_dev e = ef_dev f \<and> e_inode e = ef_inode f \<and>
         e_mtime ?row = ef_mtime f \<and> e_size_logical ?row = ef_size_logical f \<and>
         upsert_guard False ?row e \<and> e' = overwrite_entry False ?row e)"
      using e'(2) by (auto simp: merged_def split: if_splits)
    moreover have "e_id e' = e_id e" using e'(2) by (simp add: merged_def)
    ultimately show ?thesis using e'(1) by blast
  qed
  then obtain e' where e': "find_row entry_key (entry_key e) (entries c4) = Some e'" "e_id e' = e_id e"
    "e' = e \<or> (\<exists>row f. f \<in> set (b_entries b) \<and> e_dev e = ef_dev f \<and> e_inode e = ef_inode f \<and>
       e_mtime row = ef_mtime f \<and> e_size_logical row = ef_size_logical f \<and>
       upsert_guard False row e \<and> e' = overwrite_entry False row e)" by blast
  have "\<not> ?gone e'"
    using kept find_row_mem [OF e'(1)] by (auto simp: removable_def removal_match_def entry_key_eq)
  with find_row_mem [OF e'(1)] have "e' \<in> set (entries c')" by (auto simp: c' set_update_where)
  with e'(2,3) that show thesis by blast
qed

text \<open>A file that was renamed, so that only its path is new, keeps its old path in the catalogue:
  the upsert's guard compares the modification time and the size, and a rename changes neither.\<close>

theorem renamed_entry_keeps_old_path:
  assumes sound: "catalogue_sound c0" and run: "ingest pg max_batch t b fp c0 = Inr (r, c')"
    and mode: "b_mode b \<noteq> ''fullbit''"
    and keys: "distinct (map (\<lambda>e. (ef_dev e, ef_inode e)) (b_entries b))"
    and e: "e \<in> set (entries c0)" "e_host_id e = r_host_id r" "e_volume_id e = r_volume_id r" "e_present e"
    and f: "f \<in> set (b_entries b)" "ef_dev f = e_dev e" "ef_inode f = e_inode e"
      "ef_mtime f = e_mtime e" "ef_size_logical f = e_size_logical e"
    and kept: "removed_keys b = []"
  shows "e \<in> set (entries c')"
proof -
  obtain e' where e': "e' \<in> set (entries c')"
    "e' = e \<or> (\<exists>row g. g \<in> set (b_entries b) \<and> e_dev e = ef_dev g \<and> e_inode e = ef_inode g \<and>
       e_mtime row = ef_mtime g \<and> e_size_logical row = ef_size_logical g \<and>
       upsert_guard False row e \<and> e' = overwrite_entry False row e)"
    by (rule metadata_row_after [OF sound run mode keys e(1-3)]) (simp_all add: kept)
  moreover have "\<not> (\<exists>row g. g \<in> set (b_entries b) \<and> e_dev e = ef_dev g \<and> e_inode e = ef_inode g \<and>
       e_mtime row = ef_mtime g \<and> e_size_logical row = ef_size_logical g \<and>
       upsert_guard False row e \<and> e' = overwrite_entry False row e)"
  proof clarify
    fix row g
    assume g: "g \<in> set (b_entries b)" "e_dev e = ef_dev g" "e_inode e = ef_inode g"
      "e_mtime row = ef_mtime g" "e_size_logical row = ef_size_logical g" "upsert_guard False row e"
    have "inj_on (\<lambda>e. (ef_dev e, ef_inode e)) (set (b_entries b))" using keys by (simp add: distinct_map)
    from inj_onD [OF this _ g(1) f(1)] have "g = f" using g(2,3) f(2,3) by simp
    with g(4-6) f(4,5) e(4) show False by (simp add: upsert_guard_def)
  qed
  ultimately show ?thesis by blast
qed

text \<open>A metadata batch never writes the hash columns: an entry whose size or time has changed keeps
  the hash of its former content, with the time it was taken at.\<close>

theorem metadata_keeps_hashes:
  assumes sound: "catalogue_sound c0" and run: "ingest pg max_batch t b fp c0 = Inr (r, c')"
    and mode: "b_mode b \<noteq> ''fullbit''"
    and keys: "distinct (map (\<lambda>e. (ef_dev e, ef_inode e)) (b_entries b))"
    and e: "e \<in> set (entries c0)" "e_host_id e = r_host_id r" "e_volume_id e = r_volume_id r"
    and kept: "removed_keys b = []"
  shows "\<exists>e' \<in> set (entries c'). e_id e' = e_id e \<and> e_partial_hash e' = e_partial_hash e \<and>
    e_full_hash e' = e_full_hash e \<and> e_hashed_at e' = e_hashed_at e"
proof -
  obtain e' where e': "e' \<in> set (entries c')" "e_id e' = e_id e"
    "e' = e \<or> (\<exists>row. e' = overwrite_entry False row e)"
    by (rule metadata_row_after [OF sound run mode keys e]) (auto simp: kept)
  then show ?thesis by (intro bexI [OF _ e'(1)]) (auto simp: overwrite_entry_def Let_def)
qed

text \<open>The return of a removed entry at its old size is logged as created with a delta of zero.\<close>

lemma resurrected_delta_zero:
  assumes "prior (e_dev row, e_inode row) = Some p" "\<not> pr_present p" "pr_size_logical p = e_size_logical row"
  shows "\<exists>c. upsert_churn ts v prior row = Some c \<and> cl_change_type c = Change_Create \<and> cl_size_delta c = 0"
  using assms by (simp add: upsert_churn_def classify_def)

text \<open>A host whose certificate was renewed: the new fingerprint is unknown, and its name is taken.\<close>

lemma renewed_certificate_refused:
  assumes "check_batch max_batch b = Inr mount" "h \<in> set (hosts c)" "h_name h = hf_name (b_host b)"
    and "fp \<notin> h_fingerprint ` set (hosts c)"
  shows "ingest pg max_batch t b fp c = Inl Integrity_Violation"
proof -
  have "find_row h_fingerprint fp (hosts c) = None" using assms(4) by (auto simp: find_row_None)
  moreover have "hf_name (b_host b) \<in> h_name ` set (hosts c)" using assms(2,3) by force
  ultimately have "upsert_host t b fp c = Inl Integrity_Violation"
    by (simp add: upsert_host_def Let_def split: prod.split)
  with assms(1) show ?thesis by (simp add: ingest_def)
qed


section \<open>Concrete batches\<close>

definition empty_catalogue :: catalogue where
  "empty_catalogue =
     \<lparr> hosts = [], volumes = [], snapshots = [], entries = [], rollups = [], history = [], changes = [],
       dup_groups = [], next_row = (1, 1, 1, 1), next_group = 1 \<rparr>"

definition sample_frame :: "string \<Rightarrow> int \<Rightarrow> int \<Rightarrow> int \<Rightarrow> entry_frame" where
  "sample_frame path inode sz mtime =
     \<lparr> ef_path = path, ef_name = ''n'', ef_is_dir = False, ef_is_symlink = False, ef_size_logical = sz,
       ef_size_on_disk = sz, ef_mtime = mtime, ef_ctime = 0, ef_uid = 0, ef_gid = 0, ef_inode = inode,
       ef_dev = 1, ef_flags = [], ef_partial_hash = None, ef_full_hash = None, ef_provider_hash = None,
       ef_provider_hash_algo = None \<rparr>"

definition sample_batch :: "entry_frame list \<Rightarrow> (int \<times> int) list \<Rightarrow> ingest_batch" where
  "sample_batch es removed =
     \<lparr> b_host = \<lparr> hf_name = ''nas'', hf_os = None, hf_agent_version = None, hf_facts = None \<rparr>,
       b_volume = \<lparr> vf_mountpoint = ''/d'', vf_display_name = None, vf_fs_type = ''ext4'', vf_device = ''sda'',
         vf_transport = ''sata'', vf_raid_role = None, vf_pool = None, vf_dataset = None, vf_total = 0,
         vf_used = 0, vf_free = 0 \<rparr>,
       b_mode = ''metadata'', b_snapshot_id = None, b_entries = es, b_removed = removed,
       b_removed_inodes = [] \<rparr>"

definition sample_clock :: "int \<Rightarrow> clock_readings" where
  "sample_clock t = \<lparr> at_host = t, at_volume = t, at_snapshot = t, at_hash = t, at_reconcile = t, at_change = t \<rparr>"

definition first_batch :: ingest_batch where
  "first_batch = sample_batch [sample_frame ''/d/a'' 10 5 1, sample_frame ''/d/../etc/x'' 12 1 1, sample_frame ''/d/b'' 11 7 1] []"

definition second_batch :: ingest_batch where
  "second_batch = sample_batch [sample_frame ''/d/b'' 11 9 2] [(1, 10)]"

definition rename_batch :: ingest_batch where
  "rename_batch = sample_batch [sample_frame ''/d/c'' 10 5 1] []"

definition after_batch :: "(ingest_error, ingest_result \<times> catalogue) result \<Rightarrow> catalogue" where
  "after_batch r = (case r of Inr (_, c) \<Rightarrow> c | Inl _ \<Rightarrow> empty_catalogue)"

definition sample_result :: "int \<Rightarrow> nat \<Rightarrow> nat \<Rightarrow> nat \<Rightarrow> nat \<Rightarrow> ingest_result" where
  "sample_result s n m k l =
     \<lparr> r_snapshot_id = s, r_host_id = 1, r_volume_id = 1, r_entries_received = n, r_entries_rejected = m,
       r_entries_removed = k, r_changes_logged = l \<rparr>"

definition catalogue1 :: catalogue where
  "catalogue1 = after_batch (ingest True 10 (sample_clock 100) first_batch ''fp'' empty_catalogue)"

definition catalogue2 :: catalogue where
  "catalogue2 = after_batch (ingest True 10 (sample_clock 200) second_batch ''fp'' catalogue1)"

definition catalogue3 :: catalogue where
  "catalogue3 = after_batch (ingest True 10 (sample_clock 300) rename_batch ''fp'' catalogue1)"

lemma first_run:
  "ingest True 10 (sample_clock 100) first_batch ''fp'' empty_catalogue = Inr (sample_result 1 2 1 0 2, catalogue1)"
  by code_simp

lemma second_run:
  "ingest True 10 (sample_clock 200) second_batch ''fp'' catalogue1 = Inr (sample_result 2 1 0 1 2, catalogue2)"
  by code_simp

lemma rename_run:
  "ingest True 10 (sample_clock 300) rename_batch ''fp'' catalogue1 = Inr (sample_result 2 1 0 0 0, catalogue3)"
  by code_simp

lemma empty_sound: "catalogue_sound empty_catalogue"
  by (simp add: catalogue_sound_def catalogue_ok_def empty_catalogue_def hosts_ok_def volumes_ok_def
      snapshots_ok_def entries_ok_def)

lemma catalogue1_sound: "catalogue_sound catalogue1"
  using ingest_sound [OF empty_sound first_run] by simp


theorem ingest_confined_witness:
  "catalogue_sound catalogue2 \<and> elsewhere 1 1 (entries catalogue2) = elsewhere 1 1 (entries catalogue1)"
  using ingest_confined [OF catalogue1_sound second_run] by (simp add: sample_result_def)

lemma sample_keys:
  "distinct (map (\<lambda>e. (ef_dev e, ef_inode e)) (b_entries second_batch))"
  "distinct (map (\<lambda>e. (ef_dev e, ef_inode e)) (b_entries rename_batch))"
  "b_mode second_batch \<noteq> ''fullbit''" "b_mode rename_batch \<noteq> ''fullbit''"
  "removed_keys rename_batch = []" "removed_keys second_batch = [(Some 1, 10)]"
  "map (\<lambda>e. (ef_dev e, ef_inode e)) (b_entries second_batch) = [(1, 11)]"
  by (simp_all add: second_batch_def rename_batch_def sample_batch_def sample_frame_def removed_keys_def)

lemma sample_entries:
  "map (\<lambda>e. (e_path e, e_inode e, e_present e, e_removed_at e)) (entries catalogue1) =
     [(''/d/a'', 10, True, None), (''/d/b'', 11, True, None)]"
  "map (\<lambda>e. (e_path e, e_inode e, e_present e, e_removed_at e)) (entries catalogue2) =
     [(''/d/a'', 10, False, Some 200), (''/d/b'', 11, True, None)]"
  "map (\<lambda>v. (v_id v, v_change_log_enabled v)) (volumes catalogue2) = [(1, True)]"
  "present_bytes 1 1 (entries catalogue1) = 12"
  by code_simp+

theorem churn_accounts_for_bytes_witness:
  "\<exists>churn. changes catalogue2 = changes catalogue1 @ churn \<and> length churn = 2 \<and>
     present_bytes 1 1 (entries catalogue2) = 12 + (\<Sum>c\<leftarrow>churn. cl_size_delta c)"
proof -
  have "e_present e \<and> e_removed_at e = None" if "e \<in> set (entries catalogue1)" for e
  proof -
    from that have "(e_path e, e_inode e, e_present e, e_removed_at e) \<in>
        set (map (\<lambda>e. (e_path e, e_inode e, e_present e, e_removed_at e)) (entries catalogue1))" by auto
    then show ?thesis unfolding sample_entries by auto
  qed
  moreover have "v_change_log_enabled v" if "v \<in> set (volumes catalogue2)" for v
  proof -
    from that have "(v_id v, v_change_log_enabled v) \<in>
        set (map (\<lambda>v. (v_id v, v_change_log_enabled v)) (volumes catalogue2))" by auto
    then show ?thesis unfolding sample_entries by auto
  qed
  ultimately show ?thesis
    using churn_accounts_for_bytes [OF catalogue1_sound second_run sample_keys(3) _ sample_keys(1)]
      sample_entries(4)
    by (simp add: sample_result_def)
qed

theorem ingest_retry_changes_nothing_witness:
  "\<exists>r c. ingest True 10 (sample_clock 500) second_batch ''fp'' catalogue2 = Inr (r, c) \<and>
     entries c = entries catalogue2 \<and> changes c = changes catalogue2"
proof -
  have fresh: "e_removed_at e \<noteq> Some (at_reconcile (sample_clock 500))" if "e \<in> set (entries catalogue2)" for e
  proof -
    from that have "(e_path e, e_inode e, e_present e, e_removed_at e) \<in>
        set (map (\<lambda>e. (e_path e, e_inode e, e_present e, e_removed_at e)) (entries catalogue2))" by auto
    then show ?thesis unfolding sample_entries by (auto simp: sample_clock_def)
  qed
  have snap: "b_snapshot_id second_batch = None" by (simp add: second_batch_def sample_batch_def)
  have "(Some (ef_dev f), ef_inode f) \<notin> set (removed_keys second_batch) \<and>
      (None, ef_inode f) \<notin> set (removed_keys second_batch)" if "f \<in> set (b_entries second_batch)" for f
  proof -
    from that have "(ef_dev f, ef_inode f) \<in> set (map (\<lambda>e. (ef_dev e, ef_inode e)) (b_entries second_batch))" by auto
    then show ?thesis unfolding sample_keys by auto
  qed
  from ingest_retry_changes_nothing [OF catalogue1_sound second_run sample_keys(3) snap sample_keys(1) this fresh]
  show ?thesis by blast
qed

theorem renamed_entry_keeps_old_path_witness:
  "\<exists>e \<in> set (entries catalogue3). e_path e = ''/d/a'' \<and> e_inode e = 10"
proof -
  let ?e = "hd (entries catalogue1)"
  have e: "?e \<in> set (entries catalogue1)" "e_host_id ?e = 1" "e_volume_id ?e = 1" "e_present ?e"
    "e_path ?e = ''/d/a''" "e_inode ?e = 10" "e_dev ?e = 1" "e_mtime ?e = 1" "e_size_logical ?e = 5"
    by code_simp+
  have "sample_frame ''/d/c'' 10 5 1 \<in> set (b_entries rename_batch)"
    by (simp add: rename_batch_def sample_batch_def)
  from renamed_entry_keeps_old_path [OF catalogue1_sound rename_run sample_keys(4,2) e(1) _ _ e(4) this]
  have "?e \<in> set (entries catalogue3)"
    using e by (simp add: sample_result_def sample_frame_def sample_keys)
  then show ?thesis using e by blast
qed

theorem metadata_keeps_hashes_witness:
  "\<exists>e \<in> set (entries catalogue3). e_id e = 1 \<and> e_full_hash e = None"
proof -
  let ?e = "hd (entries catalogue1)"
  have e: "?e \<in> set (entries catalogue1)" "e_host_id ?e = 1" "e_volume_id ?e = 1" "e_id ?e = 1" "e_full_hash ?e = None"
    by code_simp+
  from metadata_keeps_hashes [OF catalogue1_sound rename_run sample_keys(4,2) e(1)]
  show ?thesis using e by (auto simp: sample_result_def sample_keys)
qed

end
