(* ===== verification/Rollup.thy ===== *)
theory Rollup
  imports Catalogue
begin

text \<open>
  The subtree rollups (\<open>core/rollup.py\<close>): every present entry of a volume adds its sizes and one unit
  to each directory above it, up to the mountpoint. The reference is the direct definition: the
  rollup of a directory is the total of the entries beneath it.
\<close>

section \<open>The directories above a path\<close>

text \<open>\<open>for part in parts[:-1]: cur = f"{cur}/{part}"; out.append(cur)\<close>.\<close>

fun extend_dirs :: "string \<Rightarrow> string list \<Rightarrow> string list" where
  "extend_dirs cur [] = []"
| "extend_dirs cur (part # parts) = (let next = cur @ ''/'' @ part in next # extend_dirs next parts)"

definition ancestor_dirs :: "string \<Rightarrow> string \<Rightarrow> string list" where
  "ancestor_dirs path mount =
     (if path = mount \<or> \<not> startswith path (rstrip ''/'' mount @ ''/'')
      then (if path = mount then [] else [mount])
      else
        let rel = strip ''/'' (drop (length mount) path);
            parts = py_split (CHR ''/'') rel
        in mount # extend_dirs (rstrip ''/'' mount) (butlast parts))"

definition depth_within :: "string \<Rightarrow> string \<Rightarrow> nat" where
  "depth_within mount path =
     (let rel = strip ''/'' (drop (length mount) path)
      in if rel = [] then 0 else count_list rel (CHR ''/'') + 1)"

section \<open>The tally\<close>

record acc =
  total_size_logical :: int
  total_size_on_disk :: int
  file_count :: int
  dir_count :: int

definition zero_acc :: acc where
  "zero_acc = \<lparr> total_size_logical = 0, total_size_on_disk = 0, file_count = 0, dir_count = 0 \<rparr>"

definition add_entry :: "fs_entry \<Rightarrow> acc \<Rightarrow> acc" where
  "add_entry e a =
     a\<lparr> total_size_logical := total_size_logical a + e_size_logical e,
        total_size_on_disk := total_size_on_disk a + e_size_on_disk e,
        file_count := (if e_is_dir e then file_count a else file_count a + 1),
        dir_count := (if e_is_dir e then dir_count a + 1 else dir_count a) \<rparr>"

text \<open>\<open>tally.by_path[ancestor]\<close> on a \<open>defaultdict(_Acc)\<close>, updated in place.\<close>

definition tally_add :: "fs_entry \<Rightarrow> string \<Rightarrow> (string \<times> acc) list \<Rightarrow> (string \<times> acc) list" where
  "tally_add e dir tally =
     dict_set dir (add_entry e (case dict_get tally dir of None \<Rightarrow> zero_acc | Some a \<Rightarrow> a)) tally"

definition tally_entry :: "string \<Rightarrow> fs_entry \<Rightarrow> (string \<times> acc) list \<Rightarrow> (string \<times> acc) list" where
  "tally_entry mount e tally = fold (tally_add e) (ancestor_dirs (e_path e) mount) tally"

definition tally_volume :: "string \<Rightarrow> fs_entry list \<Rightarrow> (string \<times> acc) list" where
  "tally_volume mount es = fold (tally_entry mount) es []"

section \<open>Writing the rows\<close>

definition rollup_rows :: "int \<Rightarrow> string \<Rightarrow> (string \<times> acc) list \<Rightarrow> int \<Rightarrow> subtree_rollup list" where
  "rollup_rows volume_id mount tally now =
     map (\<lambda>(path, a).
       \<lparr> ru_volume_id = volume_id, ru_path = path, ru_depth = depth_within mount path,
         ru_total_size_logical = total_size_logical a, ru_total_size_on_disk = total_size_on_disk a,
         ru_file_count = file_count a, ru_dir_count = dir_count a, ru_computed_at = now \<rparr>) tally"

text \<open>\<open>_batched\<close>: a batch is handed out when it has reached the size; the last one may be shorter.\<close>

fun batched_from :: "'a list \<Rightarrow> 'a list \<Rightarrow> nat \<Rightarrow> 'a list list" where
  "batched_from batch [] n = (if batch = [] then [] else [batch])"
| "batched_from batch (row # rows) n =
     (let batch' = batch @ [row]
      in if n \<le> length batch' then batch' # batched_from [] rows n else batched_from batch' rows n)"

definition batched :: "'a list \<Rightarrow> nat \<Rightarrow> 'a list list" where
  "batched rows n = batched_from [] rows n"

definition ROLLUP_INSERT_CHUNK :: nat where
  "ROLLUP_INSERT_CHUNK = 5000"

text \<open>\<open>recompute_full\<close>: the new rows and their number; \<open>None\<close> for the \<open>ValueError\<close> of an unknown
  volume.\<close>

definition recompute_full :: "int \<Rightarrow> int \<Rightarrow> catalogue \<Rightarrow> (nat \<times> catalogue) option" where
  "recompute_full now volume_id c =
     (case find_row v_id volume_id (volumes c) of
        None \<Rightarrow> None
      | Some v \<Rightarrow>
          let mount = v_mountpoint v;
              tally = tally_volume mount
                (filter (\<lambda>e. e_volume_id e = volume_id \<and> e_present e) (entries c));
              kept = filter (\<lambda>r. ru_volume_id r \<noteq> volume_id) (rollups c);
              batches = batched (rollup_rows volume_id mount tally now) ROLLUP_INSERT_CHUNK;
              top = (case dict_get tally mount of None \<Rightarrow> zero_acc | Some a \<Rightarrow> a);
              point = \<lparr> hi_volume_id = volume_id, hi_path = mount, hi_ts = now,
                hi_total_size_logical = total_size_logical top,
                hi_total_size_on_disk = total_size_on_disk top, hi_file_count = file_count top \<rparr>
          in Some (sum_list (map length batches),
               c\<lparr> rollups := fold (\<lambda>batch rows. rows @ batch) batches kept, history := history c @ [point] \<rparr>))"

section \<open>Batching loses nothing\<close>

lemma batched_from_concat: "concat (batched_from batch rows n) = batch @ rows"
  by (induction batch rows n rule: batched_from.induct) (auto simp: Let_def)

lemma batched_concat: "concat (batched rows n) = rows"
  by (simp add: batched_def batched_from_concat)

lemma batched_from_bounded:
  "0 < n \<Longrightarrow> length batch < n \<Longrightarrow> xs \<in> set (batched_from batch rows n) \<Longrightarrow> xs \<noteq> [] \<and> length xs \<le> n"
  by (induction batch rows n rule: batched_from.induct) (auto simp: Let_def split: if_splits)

lemma fold_append_batches: "fold (\<lambda>batch rows. rows @ batch) bs kept = kept @ concat bs"
  by (induction bs arbitrary: kept) auto

section \<open>What a directory totals\<close>

text \<open>The sum over the entries that count a directory among those above them.\<close>

definition beneath :: "string \<Rightarrow> string \<Rightarrow> fs_entry list \<Rightarrow> fs_entry list" where
  "beneath mount dir es = filter (\<lambda>e. dir \<in> set (ancestor_dirs (e_path e) mount)) es"

definition totals :: "fs_entry list \<Rightarrow> acc" where
  "totals es =
     \<lparr> total_size_logical = (\<Sum>e\<leftarrow>es. e_size_logical e), total_size_on_disk = (\<Sum>e\<leftarrow>es. e_size_on_disk e),
       file_count = int (length (filter (\<lambda>e. \<not> e_is_dir e) es)),
       dir_count = int (length (filter e_is_dir es)) \<rparr>"

lemma add_entry_totals: "add_entry e (totals es) = totals (es @ [e])"
  by (simp add: add_entry_def totals_def)

lemma zero_totals: "zero_acc = totals []"
  by (simp add: zero_acc_def totals_def)

lemma fold_tally_add:
  assumes "distinct dirs"
  shows "dict_get (fold (tally_add e) dirs tally) d =
    (if d \<in> set dirs
     then Some (add_entry e (case dict_get tally d of None \<Rightarrow> zero_acc | Some a \<Rightarrow> a))
     else dict_get tally d)"
  using assms by (induction dirs arbitrary: tally) (auto simp: tally_add_def dict_get_set)

lemma tally_entry_get:
  assumes "distinct (ancestor_dirs (e_path e) mount)"
  shows "dict_get (tally_entry mount e tally) d =
    (if d \<in> set (ancestor_dirs (e_path e) mount)
     then Some (add_entry e (case dict_get tally d of None \<Rightarrow> zero_acc | Some a \<Rightarrow> a))
     else dict_get tally d)"
  unfolding tally_entry_def by (rule fold_tally_add [OF assms])

lemma tally_get:
  assumes "\<And>e. e \<in> set es \<Longrightarrow> distinct (ancestor_dirs (e_path e) mount)"
  shows "dict_get (fold (tally_entry mount) es []) d =
    (if beneath mount d es = [] then None else Some (totals (beneath mount d es)))"
  using assms
proof (induction es rule: rev_induct)
  case (snoc e es)
  then have IH: "dict_get (fold (tally_entry mount) es []) d =
      (if beneath mount d es = [] then None else Some (totals (beneath mount d es)))" by simp
  have step: "beneath mount d (es @ [e]) =
      (if d \<in> set (ancestor_dirs (e_path e) mount) then beneath mount d es @ [e] else beneath mount d es)"
    by (simp add: beneath_def)
  have "distinct (ancestor_dirs (e_path e) mount)" using snoc.prems by simp
  then show ?case
    by (simp add: tally_entry_get IH step zero_totals add_entry_totals)
qed (simp add: beneath_def)

lemma distinct_tally_add: "distinct (map fst t) \<Longrightarrow> distinct (map fst (fold (tally_add e) dirs t))"
  by (induction dirs arbitrary: t) (auto simp: tally_add_def distinct_dict_set)

lemma distinct_tally: "distinct (map fst t) \<Longrightarrow> distinct (map fst (fold (tally_entry mount) es t))"
proof (induction es arbitrary: t)
  case (Cons e es)
  have "distinct (map fst (tally_entry mount e t))"
    unfolding tally_entry_def by (rule distinct_tally_add [OF Cons.prems])
  from Cons.IH [OF this] show ?case by simp
qed simp

section \<open>The directories above a path, by components\<close>

text \<open>The directory reached from the mountpoint by components; the mountpoint itself is written as it
  is.\<close>

definition clean_part :: "string \<Rightarrow> bool" where
  "clean_part c \<longleftrightarrow> c \<noteq> [] \<and> CHR ''/'' \<notin> set c"

fun down :: "string \<Rightarrow> string list \<Rightarrow> string" where
  "down base [] = base"
| "down base (c # cs) = down (base @ ''/'' @ c) cs"

definition dir_at :: "string \<Rightarrow> string list \<Rightarrow> string" where
  "dir_at mount cs = (if cs = [] then mount else down (rstrip ''/'' mount) cs)"

lemma down_append: "down base cs = base @ concat (map ((#) (CHR ''/'')) cs)"
  by (induction base cs rule: down.induct) auto

lemma extend_dirs_down: "extend_dirs base cs = map (\<lambda>k. down base (take (Suc k) cs)) [0..<length cs]"
proof (induction base cs rule: extend_dirs.induct)
  case (2 cur part parts)
  have "[0..<length (part # parts)] = 0 # map Suc [0..<length parts]"
    by (metis length_Cons list.map_ident map_Suc_upt upt_conv_Cons zero_less_Suc)
  with 2 show ?case by (simp add: Let_def)
qed simp

lemma concat_slash_join: "cs \<noteq> [] \<Longrightarrow> concat (map ((#) (CHR ''/'')) cs) = CHR ''/'' # py_join ''/'' cs"
proof (induction cs)
  case (Cons c cs)
  then show ?case by (cases cs) auto
qed simp

lemma py_join_snoc: "py_join sep (es @ [d]) = (if es = [] then d else py_join sep es @ sep @ d)"
proof (induction es)
  case (Cons e es)
  then show ?case by (cases es) auto
qed simp

lemma split_down:
  assumes "cs \<noteq> []" "list_all clean_part cs"
  shows "py_split (CHR ''/'') (concat (map ((#) (CHR ''/'')) cs)) = [] # cs"
proof -
  have "py_split (CHR ''/'') (py_join ''/'' cs) = cs"
    using assms by (intro py_split_join) (auto simp: list_all_iff clean_part_def)
  with assms(1) show ?thesis by (simp add: concat_slash_join)
qed

lemma down_inj:
  assumes "list_all clean_part cs" "list_all clean_part ds" "down base cs = down base ds"
  shows "cs = ds"
proof -
  have eq: "concat (map ((#) (CHR ''/'')) cs) = concat (map ((#) (CHR ''/'')) ds)"
    using assms(3) by (simp add: down_append)
  show ?thesis
  proof (cases "cs = [] \<or> ds = []")
    case True
    with eq show ?thesis by (cases cs; cases ds; simp)
  next
    case False
    then have "[] # cs = [] # ds"
      using split_down [of cs] split_down [of ds] assms(1,2) eq by metis
    then show ?thesis by simp
  qed
qed

lemma strip_rel:
  assumes "cs \<noteq> []" "list_all clean_part cs"
  shows "strip ''/'' (CHR ''/'' # py_join ''/'' cs) = py_join ''/'' cs"
    and "strip ''/'' (py_join ''/'' cs) = py_join ''/'' cs"
proof -
  let ?s = "py_join ''/'' cs"
  from assms obtain c ds where cs: "cs = c # ds" by (cases cs) auto
  then obtain x c' where c: "c = x # c'" "x \<noteq> CHR ''/''"
    using assms(2) by (cases c) (auto simp: clean_part_def)
  have hd: "\<exists>u. ?s = x # u" using c by (cases ds) (auto simp: cs)
  from assms obtain ds' d where d: "cs = ds' @ [d]" by (cases cs rule: rev_cases) auto
  then obtain u where u: "?s = u @ d" by (cases "ds' = []") (auto simp: py_join_snoc)
  have "d \<noteq> []" "CHR ''/'' \<notin> set d" using assms(2) d by (auto simp: clean_part_def)
  with u have "last ?s \<noteq> CHR ''/''" by (metis last_appendR last_in_set)
  then have r: "rstrip ''/'' ?s = ?s" by (intro rstrip_id) simp
  have l: "lstrip ''/'' ?s = ?s" "lstrip ''/'' (CHR ''/'' # ?s) = ?s"
    using hd c(2) by (auto simp: lstrip_def)
  show "strip ''/'' (CHR ''/'' # ?s) = ?s" "strip ''/'' ?s = ?s"
    by (simp_all add: strip_def l r)
qed

text \<open>The mountpoint is the root, or a path that does not end in a slash.\<close>

definition mount_ok :: "string \<Rightarrow> bool" where
  "mount_ok mount \<longleftrightarrow> mount = ''/'' \<or> mount \<noteq> [] \<and> last mount \<noteq> CHR ''/''"

lemma ancestors_by_parts:
  assumes "mount_ok mount" "list_all clean_part cs"
  shows "ancestor_dirs (dir_at mount cs) mount = map (\<lambda>k. dir_at mount (take k cs)) [0..<length cs]"
proof (cases "cs = []")
  case True
  then show ?thesis by (simp add: ancestor_dirs_def dir_at_def)
next
  case False
  let ?base = "rstrip ''/'' mount"
  have base: "?base = (if mount = ''/'' then [] else mount)"
    using assms(1) by (auto simp: mount_ok_def rstrip_id) (simp add: rstrip_def)
  have path: "dir_at mount cs = ?base @ CHR ''/'' # py_join ''/'' cs"
    using False by (simp add: dir_at_def down_append concat_slash_join)
  have "py_join ''/'' cs \<noteq> []" using assms(2) False by (cases cs; cases "tl cs") (auto simp: clean_part_def)
  then have ne: "dir_at mount cs \<noteq> mount" unfolding path base by auto
  have rel: "strip ''/'' (drop (length mount) (dir_at mount cs)) = py_join ''/'' cs"
    using strip_rel [OF False assms(2)] unfolding path base by (cases "mount = ''/''") auto
  have parts: "py_split (CHR ''/'') (py_join ''/'' cs) = cs"
    using assms(2) False by (intro py_split_join) (auto simp: list_all_iff clean_part_def)
  have starts: "prefix (?base @ ''/'') (dir_at mount cs)" unfolding path by simp
  have "[0..<length cs] = 0 # map Suc [0..<length cs - 1]"
    using False by (metis One_nat_def Suc_pred length_greater_0_conv list.map_ident map_Suc_upt upt_conv_Cons)
  moreover have "extend_dirs ?base (butlast cs) = map (\<lambda>k. dir_at mount (take (Suc k) cs)) [0..<length cs - 1]"
    using False by (auto simp: extend_dirs_down dir_at_def take_butlast)
  ultimately show ?thesis
    using ne starts by (simp add: ancestor_dirs_def Let_def rel parts) (simp add: dir_at_def)
qed

section \<open>A directory's row is the total of what lies beneath it\<close>

text \<open>The reference: an entry lies strictly beneath a directory when its path starts with the
  directory's path and a slash.\<close>

definition under_dir :: "string \<Rightarrow> fs_entry \<Rightarrow> bool" where
  "under_dir dir e \<longleftrightarrow> e_path e \<noteq> dir \<and> startswith (e_path e) (rstrip ''/'' dir @ ''/'')"

definition volume_entries :: "int \<Rightarrow> fs_entry list \<Rightarrow> fs_entry list" where
  "volume_entries vid es = filter (\<lambda>e. e_volume_id e = vid \<and> e_present e) es"

lemma parts_prefix:
  assumes "list_all clean_part ds" "list_all clean_part cs"
  shows "prefix (concat (map ((#) (CHR ''/'')) ds) @ ''/'') (concat (map ((#) (CHR ''/'')) cs)) \<longleftrightarrow>
    strict_prefix ds cs"
  using assms
proof (induction ds arbitrary: cs)
  case Nil
  then show ?case by (cases cs) auto
next
  case (Cons d ds)
  let ?g = "\<lambda>xs. concat (map ((#) (CHR ''/'')) xs)"
  have slash: "\<exists>u. ?g ds @ ''/'' = CHR ''/'' # u" by (cases ds) auto
  show ?case
  proof (cases cs)
    case (Cons c cs')
    have "prefix (d @ ?g ds @ ''/'') (c @ ?g cs') \<longleftrightarrow> d = c \<and> prefix (?g ds @ ''/'') (?g cs')"
    proof
      assume "prefix (d @ ?g ds @ ''/'') (c @ ?g cs')"
      then obtain w where w: "c @ ?g cs' = d @ (?g ds @ ''/'') @ w" by (auto simp: prefix_def)
      obtain u where u: "?g ds @ ''/'' = CHR ''/'' # u" using slash by blast
      have "CHR ''/'' \<notin> set c" "CHR ''/'' \<notin> set d" using Cons Cons.prems by (auto simp: clean_part_def)
      moreover have "cs' \<noteq> []"
      proof
        assume "cs' = []"
        with w u have "c = d @ CHR ''/'' # u @ w" by simp
        with \<open>CHR ''/'' \<notin> set c\<close> show False by simp
      qed
      then obtain u' where "?g cs' = CHR ''/'' # u'" by (cases cs') auto
      ultimately have "c = d \<and> u' = u @ w" using w u split_first_separator [of c _ u' d "u @ w"] by auto
      then show "d = c \<and> prefix (?g ds @ ''/'') (?g cs')" using u \<open>?g cs' = CHR ''/'' # u'\<close> by simp
    qed auto
    then show ?thesis using Cons Cons.prems Cons.IH [of cs'] by auto
  qed simp
qed

lemma dir_base:
  assumes "mount_ok mount" "list_all clean_part ds"
  shows "rstrip ''/'' (dir_at mount ds) = rstrip ''/'' mount @ concat (map ((#) (CHR ''/'')) ds)"
proof (cases "ds = []")
  case False
  then obtain ds' d where d: "ds = ds' @ [d]" by (cases ds rule: rev_cases) auto
  then have "d \<noteq> []" "CHR ''/'' \<notin> set d" using assms(2) by (auto simp: clean_part_def)
  then have "last (dir_at mount ds) \<notin> set ''/''"
    using d by (auto simp: dir_at_def down_append) (metis last_in_set)
  then show ?thesis using False by (simp add: rstrip_id dir_at_def down_append)
qed (simp add: dir_at_def)

lemma mount_base: "mount_ok mount \<Longrightarrow> rstrip ''/'' mount = (if mount = ''/'' then [] else mount)"
  by (auto simp: mount_ok_def rstrip_id) (simp_all add: rstrip_def)

lemma slash_parts_length: "cs \<noteq> [] \<Longrightarrow> list_all clean_part cs \<Longrightarrow> 2 \<le> length (concat (map ((#) (CHR ''/'')) cs))"
  by (cases cs; cases "hd cs") (auto simp: clean_part_def)

lemma dir_at_inj:
  assumes "mount_ok mount" "list_all clean_part ds" "list_all clean_part cs"
    and "dir_at mount ds = dir_at mount cs"
  shows "ds = cs"
proof (cases "ds = [] \<or> cs = []")
  case True
  have "dir_at mount xs \<noteq> mount" if xs: "xs \<noteq> []" "list_all clean_part xs" for xs
  proof
    assume "dir_at mount xs = mount"
    then have "length (rstrip ''/'' mount) + length (concat (map ((#) (CHR ''/'')) xs)) = length mount"
      using xs by (simp add: dir_at_def down_append) (metis length_append)
    then show False
      using slash_parts_length [OF xs] mount_base [OF assms(1)] by (auto split: if_splits)
  qed
  from this [of ds] this [of cs] True assms(2-4) show ?thesis
    by (cases "ds = []"; cases "cs = []") (auto simp: dir_at_def)
next
  case False
  with assms show ?thesis by (intro down_inj) (auto simp: dir_at_def)
qed

lemma under_dir_parts:
  assumes "mount_ok mount" "list_all clean_part ds" "list_all clean_part cs"
    and "e_path e = dir_at mount cs"
  shows "under_dir (dir_at mount ds) e \<longleftrightarrow> strict_prefix ds cs"
proof (cases "cs = []")
  case True
  show ?thesis
  proof (cases "ds = []")
    case False
    then have "length mount < length (rstrip ''/'' (dir_at mount ds) @ ''/'')"
      using dir_base [OF assms(1,2)] mount_base [OF assms(1)] slash_parts_length [OF _ assms(2)]
      by (auto split: if_splits)
    then have "\<not> prefix (rstrip ''/'' (dir_at mount ds) @ ''/'') mount"
      using prefix_length_le by fastforce
    with True assms(4) show ?thesis by (simp add: under_dir_def dir_at_def)
  qed (simp add: True assms(4) under_dir_def)
next
  case False
  then have path: "e_path e = rstrip ''/'' mount @ concat (map ((#) (CHR ''/'')) cs)"
    using assms(4) by (simp add: dir_at_def down_append)
  have "e_path e = dir_at mount ds \<longleftrightarrow> ds = cs"
    using dir_at_inj [OF assms(1-3)] assms(4) by metis
  moreover have "startswith (e_path e) (rstrip ''/'' (dir_at mount ds) @ ''/'') \<longleftrightarrow> strict_prefix ds cs"
    unfolding path dir_base [OF assms(1,2)] by (simp add: parts_prefix [OF assms(2,3)])
  ultimately show ?thesis by (auto simp: under_dir_def)
qed

lemma strict_prefix_take: "strict_prefix ds cs \<longleftrightarrow> (\<exists>k < length cs. ds = take k cs)"
proof
  assume "strict_prefix ds cs"
  then have "ds = take (length ds) cs" "length ds < length cs"
    by (auto simp: prefix_length_less strict_prefix_def prefix_def)
  then show "\<exists>k < length cs. ds = take k cs" by blast
next
  assume "\<exists>k < length cs. ds = take k cs"
  then obtain k where k: "k < length cs" "ds = take k cs" by blast
  then have "length ds < length cs" by simp
  with k show "strict_prefix ds cs" by (auto simp: strict_prefix_def take_is_prefix)
qed

lemma in_ancestors:
  assumes "mount_ok mount" "list_all clean_part cs"
  shows "d \<in> set (ancestor_dirs (dir_at mount cs) mount) \<longleftrightarrow> (\<exists>ds. strict_prefix ds cs \<and> d = dir_at mount ds)"
  unfolding ancestors_by_parts [OF assms] strict_prefix_take by (simp add: image_iff Bex_def) blast

lemma distinct_ancestors:
  assumes "mount_ok mount" "list_all clean_part cs"
  shows "distinct (ancestor_dirs (dir_at mount cs) mount)"
proof -
  have clean: "list_all clean_part (take k cs)" for k
    using assms(2) by (auto simp: list_all_iff dest: in_set_takeD)
  have "k = l" if "k < length cs" "l < length cs" "dir_at mount (take k cs) = dir_at mount (take l cs)" for k l
  proof -
    have "length (take k cs) = length (take l cs)" using dir_at_inj [OF assms(1) clean clean that(3)] by simp
    with that(1,2) show ?thesis by simp
  qed
  then show ?thesis unfolding ancestors_by_parts [OF assms] by (auto simp: distinct_map intro: inj_onI)
qed

lemma strict_prefix_clean: "strict_prefix ds cs \<Longrightarrow> list_all clean_part cs \<Longrightarrow> list_all clean_part ds"
  by (auto simp: strict_prefix_take list_all_iff dest: in_set_takeD)

lemma depth_of_parts:
  assumes "mount_ok mount" "list_all clean_part ds"
  shows "depth_within mount (dir_at mount ds) = length ds"
proof (cases "ds = []")
  case True
  then show ?thesis by (simp add: depth_within_def dir_at_def strip_def rstrip_def lstrip_def)
next
  case False
  have join: "count_list (py_join ''/'' cs) (CHR ''/'') + 1 = length cs" if "cs \<noteq> []" "list_all clean_part cs" for cs
    using that
  proof (induction cs)
    case (Cons c cs)
    then show ?case by (cases cs) (auto simp: clean_part_def count_notin)
  qed simp
  have "strip ''/'' (drop (length mount) (dir_at mount ds)) = py_join ''/'' ds"
    using strip_rel [OF False assms(2)] mount_base [OF assms(1)] False
    by (cases "mount = ''/''") (auto simp: dir_at_def down_append concat_slash_join)
  moreover have "py_join ''/'' ds \<noteq> []"
    using slash_parts_length [OF False assms(2)] False by (auto simp: concat_slash_join)
  ultimately show ?thesis using join [OF False assms(2)] by (simp add: depth_within_def)
qed

text \<open>The entries of a volume lie at paths below the mountpoint.\<close>

definition placed :: "string \<Rightarrow> fs_entry list \<Rightarrow> bool" where
  "placed mount es \<longleftrightarrow> (\<forall>e \<in> set es. \<exists>cs. list_all clean_part cs \<and> e_path e = dir_at mount cs)"

lemma beneath_under:
  assumes "mount_ok mount" "placed mount es" "list_all clean_part ds"
  shows "beneath mount (dir_at mount ds) es = filter (under_dir (dir_at mount ds)) es"
  unfolding beneath_def
proof (rule filter_cong [OF refl])
  fix e assume "e \<in> set es"
  then obtain cs where cs: "list_all clean_part cs" "e_path e = dir_at mount cs"
    using assms(2) by (auto simp: placed_def)
  have "(\<exists>ds'. strict_prefix ds' cs \<and> dir_at mount ds = dir_at mount ds') \<longleftrightarrow> strict_prefix ds cs"
    using dir_at_inj [OF assms(1,3)] strict_prefix_clean [OF _ cs(1)] by metis
  then show "(dir_at mount ds \<in> set (ancestor_dirs (e_path e) mount)) = under_dir (dir_at mount ds) e"
    using in_ancestors [OF assms(1) cs(1)] under_dir_parts [OF assms(1,3) cs] cs(2) by simp
qed

lemma tally_rows:
  assumes "mount_ok mount" "placed mount es"
  shows "(d, a) \<in> set (tally_volume mount es) \<longleftrightarrow>
    (\<exists>ds. list_all clean_part ds \<and> d = dir_at mount ds \<and> filter (under_dir d) es \<noteq> [] \<and>
      a = totals (filter (under_dir d) es))"
proof -
  have distinct: "distinct (ancestor_dirs (e_path e) mount)" if "e \<in> set es" for e
    using assms that distinct_ancestors by (force simp: placed_def)
  have "(d, a) \<in> set (tally_volume mount es) \<longleftrightarrow> dict_get (tally_volume mount es) d = Some a"
    using distinct_tally [of "[]"] by (simp add: tally_volume_def map_of_eq_Some_iff)
  also have "\<dots> \<longleftrightarrow> beneath mount d es \<noteq> [] \<and> a = totals (beneath mount d es)"
    using tally_get [of es mount d] distinct by (auto simp: tally_volume_def split: if_splits)
  also have "\<dots> \<longleftrightarrow> (\<exists>ds. list_all clean_part ds \<and> d = dir_at mount ds \<and>
      beneath mount d es \<noteq> [] \<and> a = totals (beneath mount d es))"
  proof -
    have "\<exists>ds. list_all clean_part ds \<and> d = dir_at mount ds" if "beneath mount d es \<noteq> []"
    proof -
      from that obtain e where "e \<in> set es" "d \<in> set (ancestor_dirs (e_path e) mount)"
        by (auto simp: beneath_def filter_empty_conv)
      moreover from this(1) assms(2) obtain cs where "list_all clean_part cs" "e_path e = dir_at mount cs"
        by (auto simp: placed_def)
      ultimately show ?thesis using in_ancestors [OF assms(1)] strict_prefix_clean by metis
    qed
    then show ?thesis by blast
  qed
  also have "\<dots> \<longleftrightarrow> (\<exists>ds. list_all clean_part ds \<and> d = dir_at mount ds \<and> filter (under_dir d) es \<noteq> [] \<and>
      a = totals (filter (under_dir d) es))"
    using beneath_under [OF assms] by metis
  finally show ?thesis .
qed

lemma rollup_rows_mem:
  "r \<in> set (rollup_rows vid mount tally now) \<longleftrightarrow> (\<exists>d a. (d, a) \<in> set tally \<and>
    r = \<lparr> ru_volume_id = vid, ru_path = d, ru_depth = depth_within mount d,
      ru_total_size_logical = total_size_logical a, ru_total_size_on_disk = total_size_on_disk a,
      ru_file_count = file_count a, ru_dir_count = dir_count a, ru_computed_at = now \<rparr>)"
  by (force simp: rollup_rows_def)

lemma recompute_full_rows:
  assumes "recompute_full now vid c = Some (n, c')" "find_row v_id vid (volumes c) = Some v"
  shows "rollups c' = filter (\<lambda>r. ru_volume_id r \<noteq> vid) (rollups c) @
      rollup_rows vid (v_mountpoint v) (tally_volume (v_mountpoint v) (volume_entries vid (entries c))) now"
    and "n = length (tally_volume (v_mountpoint v) (volume_entries vid (entries c)))"
proof -
  let ?b = "batched (rollup_rows vid (v_mountpoint v) (tally_volume (v_mountpoint v)
    (volume_entries vid (entries c))) now) ROLLUP_INSERT_CHUNK"
  show "rollups c' = filter (\<lambda>r. ru_volume_id r \<noteq> vid) (rollups c) @
      rollup_rows vid (v_mountpoint v) (tally_volume (v_mountpoint v) (volume_entries vid (entries c))) now"
    using assms by (auto simp: recompute_full_def Let_def fold_append_batches batched_concat volume_entries_def)
  have "sum_list (map length ?b) = length (concat ?b)" by (simp add: length_concat)
  then show "n = length (tally_volume (v_mountpoint v) (volume_entries vid (entries c)))"
    using assms unfolding batched_concat
    by (auto simp: recompute_full_def Let_def volume_entries_def rollup_rows_def)
qed

text \<open>After a recomputation the rows of the volume are exactly one for every directory that has
  something present beneath it: its depth below the mountpoint, and the sizes and the numbers of
  files and directories of the entries whose path starts with the directory's and a slash. The rows
  of other volumes and the entries are as they were, and the number returned is that of the rows.\<close>

theorem rollup_totals_exact:
  assumes run: "recompute_full now vid c = Some (n, c')" and vol: "find_row v_id vid (volumes c) = Some v"
    and mount: "mount_ok (v_mountpoint v)" and paths: "placed (v_mountpoint v) (volume_entries vid (entries c))"
  shows "\<exists>rows. rollups c' = filter (\<lambda>r. ru_volume_id r \<noteq> vid) (rollups c) @ rows \<and> n = length rows \<and>
    distinct (map ru_path rows) \<and> entries c' = entries c \<and>
    (\<forall>r. r \<in> set rows \<longleftrightarrow> (\<exists>ds. let d = dir_at (v_mountpoint v) ds;
        es = filter (under_dir d) (volume_entries vid (entries c))
      in list_all clean_part ds \<and> es \<noteq> [] \<and>
        r = \<lparr> ru_volume_id = vid, ru_path = d, ru_depth = length ds,
          ru_total_size_logical = (\<Sum>e\<leftarrow>es. e_size_logical e),
          ru_total_size_on_disk = (\<Sum>e\<leftarrow>es. e_size_on_disk e),
          ru_file_count = int (length (filter (\<lambda>e. \<not> e_is_dir e) es)),
          ru_dir_count = int (length (filter e_is_dir es)), ru_computed_at = now \<rparr>))"
proof -
  let ?m = "v_mountpoint v"
  let ?t = "tally_volume ?m (volume_entries vid (entries c))"
  let ?rows = "rollup_rows vid ?m ?t now"
  have "map ru_path ?rows = map fst ?t" by (auto simp: rollup_rows_def)
  then have "distinct (map ru_path ?rows)" using distinct_tally [of "[]"] by (simp add: tally_volume_def)
  moreover have "entries c' = entries c" using run vol by (auto simp: recompute_full_def Let_def)
  moreover have "\<forall>r. r \<in> set ?rows \<longleftrightarrow> (\<exists>ds. let d = dir_at ?m ds;
        es = filter (under_dir d) (volume_entries vid (entries c))
      in list_all clean_part ds \<and> es \<noteq> [] \<and>
        r = \<lparr> ru_volume_id = vid, ru_path = d, ru_depth = length ds,
          ru_total_size_logical = (\<Sum>e\<leftarrow>es. e_size_logical e),
          ru_total_size_on_disk = (\<Sum>e\<leftarrow>es. e_size_on_disk e),
          ru_file_count = int (length (filter (\<lambda>e. \<not> e_is_dir e) es)),
          ru_dir_count = int (length (filter e_is_dir es)), ru_computed_at = now \<rparr>)"
    unfolding rollup_rows_mem tally_rows [OF mount paths] Let_def
    by (intro allI iffI; elim exE conjE; hypsubst)
      (rule exI, intro conjI, assumption, assumption, simp add: totals_def depth_of_parts [OF mount],
       intro exI conjI, assumption, rule refl, assumption, rule refl, simp add: totals_def depth_of_parts [OF mount])
  ultimately show ?thesis
    using recompute_full_rows [OF run vol] by (intro exI [of _ ?rows]) (simp add: rollup_rows_def)
qed

text \<open>A Windows mountpoint: a path with backslashes never starts with the mountpoint and a slash, so
  it counts toward the mountpoint alone and no folder below gets a row.\<close>

lemma backslash_path_counts_to_mount:
  assumes "CHR ''/'' \<notin> set path" "path \<noteq> mount"
  shows "ancestor_dirs path mount = [mount]"
proof -
  have "\<not> startswith path (rstrip ''/'' mount @ ''/'')"
    using assms(1) by (auto simp: prefix_def)
  with assms(2) show ?thesis by (simp add: ancestor_dirs_def)
qed

section \<open>A run\<close>

definition rollup_entry :: "int \<Rightarrow> string \<Rightarrow> bool \<Rightarrow> int \<Rightarrow> fs_entry" where
  "rollup_entry i p d n = \<lparr> e_id = i, e_host_id = 1, e_volume_id = 1, e_name = ''n'', e_path = p, e_depth = 1,
     e_is_dir = d, e_is_symlink = False, e_size_logical = n, e_size_on_disk = n, e_mtime = 0, e_ctime = 0,
     e_uid = 0, e_gid = 0, e_inode = i, e_dev = 0, e_flags = [], e_last_seen_snapshot = None,
     e_present = True, e_removed_at = None, e_partial_hash = None, e_full_hash = None, e_hashed_at = None,
     e_provider_hash = None, e_provider_hash_algo = None \<rparr>"

definition rollup_volume :: volume where
  "rollup_volume = \<lparr> v_id = 1, v_host_id = 1, v_mountpoint = ''/d'', v_display_name = None, v_kind = ''disk'',
     v_fs_type = ''ext4'', v_device = ''sda'', v_transport = ''sata'', v_raid_role = None, v_pool = None,
     v_dataset = None, v_total = 9, v_used = 5, v_free = 4, v_change_log_enabled = True, v_updated_at = 0 \<rparr>"

definition rollup_catalogue :: catalogue where
  "rollup_catalogue = \<lparr> hosts = [], volumes = [rollup_volume], snapshots = [],
     entries = [rollup_entry 1 ''/d/a'' True 0, rollup_entry 2 ''/d/a/f'' False 3, rollup_entry 3 ''/d/g'' False 2],
     rollups = [], history = [], changes = [], dup_groups = [], next_row = (2, 2, 2, 4), next_group = 1 \<rparr>"

lemma sample_placed: "placed ''/d'' (entries rollup_catalogue)"
proof -
  have "\<exists>cs. list_all clean_part cs \<and> ''/d/a'' = dir_at ''/d'' cs"
    by (rule exI [of _ "[''a'']"]) (simp add: clean_part_def dir_at_def rstrip_def)
  moreover have "\<exists>cs. list_all clean_part cs \<and> ''/d/a/f'' = dir_at ''/d'' cs"
    by (rule exI [of _ "[''a'', ''f'']"]) (simp add: clean_part_def dir_at_def rstrip_def)
  moreover have "\<exists>cs. list_all clean_part cs \<and> ''/d/g'' = dir_at ''/d'' cs"
    by (rule exI [of _ "[''g'']"]) (simp add: clean_part_def dir_at_def rstrip_def)
  ultimately show ?thesis by (simp add: placed_def rollup_catalogue_def rollup_entry_def)
qed

lemma sample_volume_entries: "volume_entries 1 (entries rollup_catalogue) = entries rollup_catalogue"
  by (simp add: volume_entries_def rollup_catalogue_def rollup_entry_def)

lemma sample_tally:
  "map (\<lambda>(p, a). (p, total_size_logical a, file_count a, dir_count a))
     (tally_volume ''/d'' (entries rollup_catalogue)) = [(''/d'', 5, 2, 1), (''/d/a'', 3, 1, 0)]"
  by code_simp

theorem rollup_totals_exact_witness:
  "\<exists>c'. recompute_full 7 1 rollup_catalogue = Some (2, c') \<and> entries c' = entries rollup_catalogue"
proof -
  have vol: "find_row v_id 1 (volumes rollup_catalogue) = Some rollup_volume"
    by (simp add: find_row_def rollup_catalogue_def rollup_volume_def)
  then obtain n c' where run: "recompute_full 7 1 rollup_catalogue = Some (n, c')"
    by (simp add: recompute_full_def Let_def)
  have mount: "v_mountpoint rollup_volume = ''/d''" by (simp add: rollup_volume_def)
  have "n = 2"
    using recompute_full_rows(2) [OF run vol] arg_cong [OF sample_tally, of length]
    unfolding mount sample_volume_entries by simp
  moreover have "mount_ok (v_mountpoint rollup_volume)" by (simp add: mount mount_ok_def)
  moreover have "placed (v_mountpoint rollup_volume) (volume_entries 1 (entries rollup_catalogue))"
    unfolding mount sample_volume_entries by (rule sample_placed)
  ultimately have "entries c' = entries rollup_catalogue"
    using rollup_totals_exact [OF run vol] by blast
  with run \<open>n = 2\<close> show ?thesis by blast
qed

end
