(* ===== verification/Like.thy ===== *)
theory Like
  imports Prelude
begin

text \<open>
  SQL's \<open>LIKE\<close> with the backslash as its escape character, and \<open>core/query.py\<close>'s \<open>escape_like\<close>,
  which every query that follows a path prefix goes through. The production database compares
  characters as they are; SQLite's \<open>LIKE\<close> ignores the case of ASCII letters.
\<close>

section \<open>Patterns\<close>

abbreviation LIKE_ESCAPE :: char where
  "LIKE_ESCAPE \<equiv> CHR 0x5C"

definition ascii_fold :: "char \<Rightarrow> char" where
  "ascii_fold c = (let n = (of_char c :: nat) in if 65 \<le> n \<and> n \<le> 90 then char_of (n + 32) else c)"

definition same_char :: "bool \<Rightarrow> char \<Rightarrow> char \<Rightarrow> bool" where
  "same_char fold_case a b = (if fold_case then ascii_fold a = ascii_fold b else a = b)"

text \<open>A pattern that ends in the escape character matches nothing (PostgreSQL raises).\<close>

fun like :: "bool \<Rightarrow> string \<Rightarrow> string \<Rightarrow> bool" where
  "like fc [] s = (s = [])"
| "like fc (p # ps) s =
     (if p = LIKE_ESCAPE then
        (case ps of [] \<Rightarrow> False
         | q # qs \<Rightarrow> (case s of [] \<Rightarrow> False | c # cs \<Rightarrow> same_char fc c q \<and> like fc qs cs))
      else if p = CHR ''%'' then list_ex (\<lambda>t. like fc ps t) (suffixes s)
      else (case s of [] \<Rightarrow> False
            | c # cs \<Rightarrow> (p = CHR ''_'' \<or> same_char fc c p) \<and> like fc ps cs))"

text \<open>\<open>s.replace(c, w)\<close> for one character.\<close>

definition replace_char :: "char \<Rightarrow> string \<Rightarrow> string \<Rightarrow> string" where
  "replace_char c w s = concat (map (\<lambda>x. if x = c then w else [x]) s)"

definition escape_like :: "string \<Rightarrow> string" where
  "escape_like s =
     replace_char (CHR ''_'') (LIKE_ESCAPE # ''_'')
       (replace_char (CHR ''%'') (LIKE_ESCAPE # ''%'')
         (replace_char LIKE_ESCAPE [LIKE_ESCAPE, LIKE_ESCAPE] s))"

text \<open>\<open>escape_like(prefix.rstrip("/")) + "/%"\<close> and \<open>f"%{escape_like(q)}%"\<close>.\<close>

definition below_pattern :: "string \<Rightarrow> string" where
  "below_pattern dir = escape_like (rstrip ''/'' dir) @ ''/%''"

definition infix_pattern :: "string \<Rightarrow> string" where
  "infix_pattern q = ''%'' @ escape_like q @ ''%''"

section \<open>An escaped text matches itself\<close>

definition escaped_char :: "char \<Rightarrow> string" where
  "escaped_char c = (if c = LIKE_ESCAPE \<or> c = CHR ''%'' \<or> c = CHR ''_'' then [LIKE_ESCAPE, c] else [c])"

lemma replace_char_append: "replace_char c w (s @ t) = replace_char c w s @ replace_char c w t"
  by (simp add: replace_char_def)

lemma escape_like_append: "escape_like (s @ t) = escape_like s @ escape_like t"
  by (simp add: escape_like_def replace_char_append)

lemma escape_like_single: "escape_like [c] = escaped_char c"
  by (auto simp: escape_like_def replace_char_def escaped_char_def)

lemma escape_like_Nil [simp]: "escape_like [] = []"
  by (simp add: escape_like_def replace_char_def)

lemma escape_like_Cons: "escape_like (c # s) = escaped_char c @ escape_like s"
  using escape_like_append [of "[c]" s] by (simp add: escape_like_single)

lemma like_escape_like:
  "like fc (escape_like p @ q) s \<longleftrightarrow>
    (\<exists>u t. s = u @ t \<and> list_all2 (same_char fc) u p \<and> like fc q t)"
proof (induction p arbitrary: s)
  case (Cons c p)
  have "like fc (escape_like (c # p) @ q) s \<longleftrightarrow>
      (\<exists>d ds. s = d # ds \<and> same_char fc d c \<and> like fc (escape_like p @ q) ds)"
    by (cases s) (auto simp: escape_like_Cons escaped_char_def)
  also have "\<dots> \<longleftrightarrow> (\<exists>u t. s = u @ t \<and> list_all2 (same_char fc) u (c # p) \<and> like fc q t)"
    unfolding Cons.IH list_all2_Cons2 by (metis append_Cons)
  finally show ?case .
qed simp

lemma like_percent: "like fc (CHR ''%'' # ps) s \<longleftrightarrow> (\<exists>u t. s = u @ t \<and> like fc ps t)"
proof -
  have "like fc (CHR ''%'' # ps) s \<longleftrightarrow> (\<exists>t. suffix t s \<and> like fc ps t)"
    by (simp add: list_ex_iff Bex_def)
  also have "\<dots> \<longleftrightarrow> (\<exists>u t. s = u @ t \<and> like fc ps t)" unfolding suffix_def by metis
  finally show ?thesis .
qed

lemma like_any: "like fc ''%'' s"
  unfolding like_percent by (rule exI [of _ s]) simp

lemma like_slash_any: "like fc ''/%'' t \<longleftrightarrow> (\<exists>t'. t = CHR ''/'' # t' \<and> like fc ''%'' t') \<or> (\<exists>c t'. t = c # t' \<and> same_char fc c (CHR ''/'') \<and> like fc ''%'' t')"
  by (cases t) (auto simp add: same_char_def)

lemma ascii_fold_slash: "ascii_fold c = CHR ''/'' \<longleftrightarrow> c = CHR ''/''"
proof (cases "65 \<le> (of_char c :: nat) \<and> (of_char c :: nat) \<le> 90")
  case True
  then have "(of_char (ascii_fold c) :: nat) = of_char c + 32" by (simp add: ascii_fold_def)
  with True have "(of_char (ascii_fold c) :: nat) \<noteq> of_char (CHR ''/'')" by simp
  moreover have "c \<noteq> CHR ''/''" using True by auto
  ultimately show ?thesis by auto
qed (auto simp: ascii_fold_def)

lemma same_char_slash: "same_char fc c (CHR ''/'') \<longleftrightarrow> c = CHR ''/''"
proof -
  have "ascii_fold (CHR ''/'') = CHR ''/''" by (simp add: ascii_fold_slash)
  then show ?thesis using ascii_fold_slash [of c] by (simp add: same_char_def)
qed

lemma same_char_exact: "same_char False = (=)"
  by (simp add: fun_eq_iff same_char_def)

text \<open>A pattern made of a directory selects what lies beneath the directory; with SQLite's folding, also
  what lies beneath a directory whose name differs in case.\<close>

lemma like_below:
  "like fc (below_pattern dir) s \<longleftrightarrow>
    (\<exists>u t. s = u @ ''/'' @ t \<and> list_all2 (same_char fc) u (rstrip ''/'' dir))"
proof -
  have "like fc ''/%'' t \<longleftrightarrow> (\<exists>t'. t = CHR ''/'' # t')" for t
    using like_slash_any [of fc t] same_char_slash like_any by metis
  then show ?thesis unfolding below_pattern_def like_escape_like by auto
qed

lemma like_below_exact: "like False (below_pattern dir) s \<longleftrightarrow> startswith s (rstrip ''/'' dir @ ''/'')"
  unfolding like_below same_char_exact by (auto simp: list.rel_eq prefix_def)

lemma like_infix_exact: "like False (infix_pattern q) s \<longleftrightarrow> contains s q"
proof -
  have "like False (infix_pattern q) s \<longleftrightarrow> (\<exists>u t. s = u @ t \<and> like False (escape_like q @ ''%'') t)"
    unfolding infix_pattern_def using like_percent by simp
  also have "\<dots> \<longleftrightarrow> (\<exists>u v. s = u @ q @ v)"
    unfolding like_escape_like same_char_exact list.rel_eq using like_any by metis
  finally show ?thesis by (simp add: contains_iff)
qed

end
