(* ===== verification/Dedup_Service.thy ===== *)
theory Dedup_Service
  imports Rollup Like Identity
begin

text \<open>
  The server's duplicate report (\<open>core/dedup_service.py\<close>): groups of entries with one stored full
  hash and size, each with a suggested keeper, written to the report tables. A file time is compared
  only (\<^theory_text>\<open>Catalogue\<close>). The database's \<open>LIKE\<close> compares characters as they are.
\<close>

section \<open>Network mounts\<close>

definition NETWORK_FS :: "string list" where
  "NETWORK_FS =
     [''nfs'', ''nfs4'', ''nfsd'', ''cifs'', ''smbfs'', ''smb'', ''smb2'', ''smb3'', ''sshfs'', ''fuse.sshfs'',
      ''fuse.rclone'', ''9p'', ''afs'', ''glusterfs'', ''ceph'', ''fuse.cephfs'']"

definition is_network_fs :: "string \<Rightarrow> bool" where
  "is_network_fs fs_type \<longleftrightarrow> lower (strip whitespace fs_type) \<in> set NETWORK_FS"

definition DEDUP_FLUSH_BATCH :: nat where
  "DEDUP_FLUSH_BATCH = 1000"

section \<open>Entries, scopes and the keeper rule\<close>

record entry_ref =
  er_entry_id :: int
  er_host_id :: int
  er_volume_id :: int
  er_path :: string
  er_size :: int
  er_mtime :: int
  er_ctime :: int
  er_full_hash :: string
  er_fs_type :: string

record dedup_scope =
  ds_volume_ids :: "int set"
  ds_path_prefix :: "string option"
  ds_path_prefix_volume_id :: "int option"
  ds_preferred_volume_ids :: "int set"
  ds_preferred_path_prefixes :: "string list"

definition estate_scope :: dedup_scope where
  "estate_scope =
     \<lparr> ds_volume_ids = {}, ds_path_prefix = None, ds_path_prefix_volume_id = None,
       ds_preferred_volume_ids = {}, ds_preferred_path_prefixes = [] \<rparr>"

definition opt_json :: "('a \<Rightarrow> json) \<Rightarrow> 'a option \<Rightarrow> json" where
  "opt_json f x = (case x of None \<Rightarrow> JNull | Some y \<Rightarrow> f y)"

definition scope_as_json :: "dedup_scope \<Rightarrow> json" where
  "scope_as_json s = JObj
     [(''volume_ids'', JList (map JInt (sorted_list_of_set (ds_volume_ids s)))),
      (''path_prefix'', opt_json JStr (ds_path_prefix s)),
      (''path_prefix_volume_id'', opt_json JInt (ds_path_prefix_volume_id s)),
      (''preferred_volume_ids'', JList (map JInt (sorted_list_of_set (ds_preferred_volume_ids s)))),
      (''preferred_path_prefixes'', JList (map JStr (ds_preferred_path_prefixes s)))]"

record keeper_choice =
  kc_entry_id :: int
  kc_reason :: string

definition oldest_ts :: "entry_ref \<Rightarrow> int" where
  "oldest_ts m = min (er_mtime m) (er_ctime m)"

definition is_native :: "entry_ref \<Rightarrow> bool" where
  "is_native m \<longleftrightarrow> \<not> is_network_fs (er_fs_type m)"

definition is_preferred :: "dedup_scope \<Rightarrow> entry_ref \<Rightarrow> bool" where
  "is_preferred s m \<longleftrightarrow>
     er_volume_id m \<in> ds_preferred_volume_ids s \<or>
     (\<exists>p \<in> set (ds_preferred_path_prefixes s). startswith (er_path m) p)"

text \<open>\<open>(m.path.count("/"), len(m.path), m.path)\<close>.\<close>

definition path_rank :: "entry_ref \<Rightarrow> nat \<times> nat \<times> string" where
  "path_rank m = (count_list (er_path m) (CHR ''/''), length (er_path m), er_path m)"

text \<open>\<open>xs or list(ys)\<close>.\<close>

definition or_else :: "'a list \<Rightarrow> 'a list \<Rightarrow> 'a list" where
  "or_else xs ys = (if xs = [] then ys else xs)"

definition keeper_candidates :: "entry_ref list \<Rightarrow> entry_ref list" where
  "keeper_candidates members = or_else (filter is_native members) members"

definition oldest_of :: "entry_ref list \<Rightarrow> entry_ref list" where
  "oldest_of ms = filter (\<lambda>m. oldest_ts m = Min (oldest_ts ` set ms)) ms"

definition min_rank :: "entry_ref list \<Rightarrow> entry_ref" where
  "min_rank pool = min_by path_rank (hd pool) (tl pool)"

definition rank_oldest_then_preferred_then_shortest :: "entry_ref list \<Rightarrow> dedup_scope \<Rightarrow> keeper_choice" where
  "rank_oldest_then_preferred_then_shortest members s =
     (let oldest = oldest_of (keeper_candidates members)
      in if length oldest = 1 then \<lparr> kc_entry_id = er_entry_id (hd oldest), kc_reason = ''oldest copy'' \<rparr>
         else
           let preferred = filter (is_preferred s) oldest;
               pool = or_else preferred oldest;
               reason = (if preferred \<noteq> [] then ''oldest copy on preferred volume/path'' else ''oldest copy'');
               chosen = min_rank pool
           in \<lparr> kc_entry_id = er_entry_id chosen,
                kc_reason = (if length pool > 1
                  then (if preferred \<noteq> [] then reason @ '', shortest path'' else ''shortest path'')
                  else reason) \<rparr>)"

section \<open>Loading, grouping and writing\<close>

text \<open>The outer join: the volume's \<open>fs_type\<close>, or empty when there is no such volume.\<close>

definition entry_fs_type :: "volume list \<Rightarrow> fs_entry \<Rightarrow> string" where
  "entry_fs_type vs e = (case find_row v_id (e_volume_id e) vs of None \<Rightarrow> [] | Some v \<Rightarrow> v_fs_type v)"

definition in_dedup_scope :: "dedup_scope \<Rightarrow> fs_entry \<Rightarrow> bool" where
  "in_dedup_scope s e \<longleftrightarrow>
     (ds_volume_ids s \<noteq> {} \<longrightarrow> e_volume_id e \<in> ds_volume_ids s) \<and>
     (case (ds_path_prefix s, ds_path_prefix_volume_id s) of
        (Some p, Some vid) \<Rightarrow>
          e_volume_id e = vid \<and> (e_path e = p \<or> like False (below_pattern p) (e_path e))
      | _ \<Rightarrow> True)"

definition hashed_ref :: "catalogue \<Rightarrow> dedup_scope \<Rightarrow> fs_entry \<Rightarrow> entry_ref option" where
  "hashed_ref c s e =
     (case e_full_hash e of
        None \<Rightarrow> None
      | Some h \<Rightarrow>
          if e_present e \<and> \<not> e_is_dir e \<and> in_dedup_scope s e
          then Some \<lparr> er_entry_id = e_id e, er_host_id = e_host_id e, er_volume_id = e_volume_id e,
                 er_path = e_path e, er_size = e_size_logical e, er_mtime = e_mtime e, er_ctime = e_ctime e,
                 er_full_hash = h, er_fs_type = entry_fs_type (volumes c) e \<rparr>
          else None)"

definition load_hashed_entries :: "catalogue \<Rightarrow> dedup_scope \<Rightarrow> entry_ref list" where
  "load_hashed_entries c s = List.map_filter (hashed_ref c s) (entries c)"

definition clear_scope :: "dedup_scope \<Rightarrow> catalogue \<Rightarrow> catalogue" where
  "clear_scope s c = c\<lparr> dup_groups := filter (\<lambda>g. dg_scope g \<noteq> scope_as_json s) (dup_groups c) \<rparr>"

type_synonym keeper_rule = "entry_ref list \<Rightarrow> dedup_scope \<Rightarrow> keeper_choice"

definition dup_member_of :: "entry_ref \<Rightarrow> dup_member" where
  "dup_member_of m =
     \<lparr> dm_entry_id = er_entry_id m, dm_host_id = er_host_id m, dm_volume_id = er_volume_id m,
       dm_path = er_path m, dm_is_mount_alias = is_network_fs (er_fs_type m) \<rparr>"

text \<open>A group before it is written; the id is the database's.\<close>

definition build_group ::
  "dedup_scope \<Rightarrow> keeper_rule \<Rightarrow> string option \<Rightarrow> (int \<times> string) \<times> entry_ref list \<Rightarrow> dup_group" where
  "build_group s keeper job g =
     (case g of ((sz, hash), members) \<Rightarrow>
        let choice = keeper members s
        in \<lparr> dg_id = 0, dg_full_hash = hash, dg_size = sz, dg_member_count = length members,
             dg_reclaimable_bytes = sz * max 0 (int (length (filter is_native members)) - 1),
             dg_scope = scope_as_json s, dg_job_id = job, dg_suggested_keeper = kc_entry_id choice,
             dg_suggested_reason = kc_reason choice, dg_members = map dup_member_of members \<rparr>)"

text \<open>\<open>_flush_and_detach\<close>: the pending groups get their ids.\<close>

fun number_groups :: "int \<Rightarrow> dup_group list \<Rightarrow> dup_group list" where
  "number_groups n [] = []"
| "number_groups n (g # gs) = g\<lparr> dg_id := n \<rparr> # number_groups (n + 1) gs"

definition flush_and_detach :: "dup_group list \<Rightarrow> catalogue \<Rightarrow> dup_group list \<times> catalogue" where
  "flush_and_detach pending c =
     (let gs = number_groups (next_group c) pending
      in (gs, c\<lparr> dup_groups := dup_groups c @ gs, next_group := next_group c + int (length pending) \<rparr>))"

fun build_loop ::
  "((int \<times> string) \<times> entry_ref list \<Rightarrow> dup_group) \<Rightarrow> ((int \<times> string) \<times> entry_ref list) list \<Rightarrow>
   dup_group list \<Rightarrow> catalogue \<Rightarrow> dup_group list \<times> catalogue" where
  "build_loop mk [] pending c = (if pending = [] then ([], c) else flush_and_detach pending c)"
| "build_loop mk (g # gs) pending c =
     (if length (snd g) < 2 then build_loop mk gs pending c
      else
        let pending = pending @ [mk g]
        in if DEDUP_FLUSH_BATCH \<le> length pending
           then (case flush_and_detach pending c of
                   (flushed, c) \<Rightarrow> (case build_loop mk gs [] c of (rest, c) \<Rightarrow> (flushed @ rest, c)))
           else build_loop mk gs pending c)"

definition dedup_build ::
  "dedup_scope option \<Rightarrow> keeper_rule \<Rightarrow> string option \<Rightarrow> bool \<Rightarrow> catalogue \<Rightarrow> dup_group list \<times> catalogue" where
  "dedup_build scope keeper job replace c =
     (let s = (case scope of None \<Rightarrow> estate_scope | Some s \<Rightarrow> s);
          c = (if replace then clear_scope s c else c);
          by_hash = group_by (\<lambda>r. (er_size r, er_full_hash r)) (load_hashed_entries c s)
      in build_loop (build_group s keeper job) by_hash [] c)"

definition dedup_rebuild ::
  "dedup_scope option \<Rightarrow> keeper_rule \<Rightarrow> string option \<Rightarrow> bool \<Rightarrow> catalogue \<Rightarrow> nat \<times> catalogue" where
  "dedup_rebuild scope keeper job replace c =
     (case dedup_build scope keeper job replace c of (gs, c) \<Rightarrow> (length gs, c))"

section \<open>The loop writes what grouping gives\<close>

lemma number_groups_append:
  "number_groups n (gs @ hs) = number_groups n gs @ number_groups (n + int (length gs)) hs"
  by (induction gs arbitrary: n) (simp_all add: algebra_simps)

lemma length_number_groups [simp]: "length (number_groups n gs) = length gs"
  by (induction gs arbitrary: n) auto

lemma number_groups_ids: "map dg_id (number_groups n gs) = map (\<lambda>i. n + int i) [0..<length gs]"
proof (induction gs arbitrary: n)
  case (Cons g gs)
  have "[0..<Suc (length gs)] = 0 # map Suc [0..<length gs]" by (simp only: map_Suc_upt upt_conv_Cons zero_less_Suc)
  with Cons show ?case by (simp add: algebra_simps)
qed simp

lemma number_groups_mem:
  "g \<in> set (number_groups n gs) \<Longrightarrow> \<exists>h \<in> set gs. \<exists>i. n \<le> i \<and> i < n + int (length gs) \<and> g = h\<lparr> dg_id := i \<rparr>"
proof (induction gs arbitrary: n)
  case (Cons h gs)
  show ?case
  proof (cases "g = h\<lparr> dg_id := n \<rparr>")
    case False
    with Cons.prems have "g \<in> set (number_groups (n + 1) gs)" by simp
    from Cons.IH [OF this] obtain h' i where "h' \<in> set gs" "n + 1 \<le> i" "i < n + 1 + int (length gs)"
      "g = h'\<lparr> dg_id := i \<rparr>" by blast
    then show ?thesis by (intro bexI [of _ h'] exI [of _ i]) auto
  qed force
qed simp

lemma build_loop_writes:
  "build_loop mk gs pending c =
     (let new = number_groups (next_group c) (pending @ map mk (filter (\<lambda>g. 2 \<le> length (snd g)) gs))
      in (new, c\<lparr> dup_groups := dup_groups c @ new, next_group := next_group c + int (length new) \<rparr>))"
proof (induction mk gs pending c rule: build_loop.induct)
  case (1 mk pending c)
  show ?case by (simp add: flush_and_detach_def Let_def)
next
  case (2 mk g gs pending c)
  show ?case
  proof (cases "2 \<le> length (snd g) \<and> DEDUP_FLUSH_BATCH \<le> length (pending @ [mk g])")
    case False
    with 2 show ?thesis by (auto simp: Let_def not_le)
  next
    case True
    then show ?thesis
      using "2.IH"(2) [OF _ refl] by (simp add: flush_and_detach_def Let_def number_groups_append algebra_simps)
  qed
qed

section \<open>The keeper\<close>

text \<open>The best copy of some members under a scope: a native one if there is any, of the oldest of those,
  a preferred one if there is any of that age, and then the least by separators, length and text.\<close>

definition best_copy :: "dedup_scope \<Rightarrow> entry_ref list \<Rightarrow> entry_ref \<Rightarrow> bool" where
  "best_copy s members m \<longleftrightarrow> m \<in> set members \<and>
     (\<forall>x \<in> set members.
        (is_native x \<longrightarrow> is_native m) \<and>
        (is_native x = is_native m \<longrightarrow> oldest_ts m \<le> oldest_ts x \<and>
           (oldest_ts x = oldest_ts m \<longrightarrow> (is_preferred s x \<longrightarrow> is_preferred s m) \<and>
              (is_preferred s x = is_preferred s m \<longrightarrow> path_rank m \<le> path_rank x))))"

lemma min_rank_mem: "pool \<noteq> [] \<Longrightarrow> min_rank pool \<in> set pool"
  using min_by_mem [of path_rank "hd pool" "tl pool"] by (simp add: min_rank_def)

lemma min_rank_le: "x \<in> set pool \<Longrightarrow> path_rank (min_rank pool) \<le> path_rank x"
  using min_by_le [of x "hd pool" "tl pool" path_rank] by (cases pool) (auto simp: min_rank_def)

lemma oldest_of_mem: "m \<in> set (oldest_of ms) \<longleftrightarrow> m \<in> set ms \<and> (\<forall>x \<in> set ms. oldest_ts m \<le> oldest_ts x)"
proof -
  have "oldest_ts m = Min (oldest_ts ` set ms) \<longleftrightarrow> (\<forall>x \<in> set ms. oldest_ts m \<le> oldest_ts x)" if "m \<in> set ms"
    using that by (subst eq_Min_iff) auto
  then show ?thesis by (auto simp: oldest_of_def)
qed

lemma oldest_of_nonempty:
  assumes "ms \<noteq> []"
  shows "oldest_of ms \<noteq> []"
proof -
  have "Min (oldest_ts ` set ms) \<in> oldest_ts ` set ms" using assms by (intro Min_in) auto
  then show ?thesis by (auto simp: oldest_of_def filter_empty_conv)
qed

lemma keeper_candidates_mem:
  "m \<in> set (keeper_candidates members) \<longleftrightarrow>
     m \<in> set members \<and> (\<forall>x \<in> set members. is_native x \<longrightarrow> is_native m)"
  by (auto simp: keeper_candidates_def or_else_def filter_empty_conv)

lemma keeper_candidates_nonempty: "members \<noteq> [] \<Longrightarrow> keeper_candidates members \<noteq> []"
  by (simp add: keeper_candidates_def or_else_def)

lemma keeper_is_min_rank:
  assumes "members \<noteq> []"
  defines "oldest \<equiv> oldest_of (keeper_candidates members)"
  shows "kc_entry_id (rank_oldest_then_preferred_then_shortest members s) =
    er_entry_id (min_rank (or_else (filter (is_preferred s) oldest) oldest))"
proof (cases "length oldest = 1")
  case True
  then obtain m where "oldest = [m]" by (cases oldest) auto
  then show ?thesis
    by (simp add: rank_oldest_then_preferred_then_shortest_def Let_def or_else_def min_rank_def flip: oldest_def)
qed (simp add: rank_oldest_then_preferred_then_shortest_def Let_def flip: oldest_def)

lemma keeper_best_copy:
  assumes "members \<noteq> []"
  shows "\<exists>m. best_copy s members m \<and>
    kc_entry_id (rank_oldest_then_preferred_then_shortest members s) = er_entry_id m"
proof -
  let ?o = "oldest_of (keeper_candidates members)"
  let ?pool = "or_else (filter (is_preferred s) ?o) ?o"
  let ?m = "min_rank ?pool"
  have "?o \<noteq> []" using assms by (intro oldest_of_nonempty keeper_candidates_nonempty)
  then have "?pool \<noteq> []" by (simp add: or_else_def)
  then have m: "?m \<in> set ?pool" by (rule min_rank_mem)
  then have old: "?m \<in> set ?o" by (auto simp: or_else_def split: if_splits)
  then have cand: "?m \<in> set members" "\<forall>x \<in> set members. is_native x \<longrightarrow> is_native ?m"
    by (auto simp: oldest_of_mem keeper_candidates_mem)
  have least: "oldest_ts ?m \<le> oldest_ts x" if "x \<in> set members" "is_native x = is_native ?m" for x
  proof -
    have "x \<in> set (keeper_candidates members)" using that cand by (auto simp: keeper_candidates_mem)
    with old show ?thesis by (simp add: oldest_of_mem)
  qed
  have tie: "x \<in> set ?o" if "x \<in> set members" "is_native x = is_native ?m" "oldest_ts x = oldest_ts ?m" for x
    using that old cand by (auto simp: oldest_of_mem keeper_candidates_mem)
  have pref: "is_preferred s ?m" if "x \<in> set ?o" "is_preferred s x" for x
    using that m by (auto simp: or_else_def filter_empty_conv split: if_splits)
  have "x \<in> set ?pool" if "x \<in> set ?o" "is_preferred s x = is_preferred s ?m" for x
    using that m pref by (auto simp: or_else_def filter_empty_conv split: if_splits)
  then have "best_copy s members ?m"
    unfolding best_copy_def using cand least tie pref min_rank_le by metis
  then show ?thesis using keeper_is_min_rank [OF assms] by blast
qed

section \<open>The report\<close>

definition copies :: "catalogue \<Rightarrow> dedup_scope \<Rightarrow> int \<Rightarrow> string \<Rightarrow> entry_ref list" where
  "copies c s sz hash =
     filter (\<lambda>r. er_size r = sz \<and> er_full_hash r = hash) (load_hashed_entries c s)"

lemma load_clear_scope: "load_hashed_entries (clear_scope s' c) s = load_hashed_entries c s"
proof -
  have "hashed_ref (clear_scope s' c) s = hashed_ref c s"
    by (auto simp: fun_eq_iff hashed_ref_def clear_scope_def split: option.splits)
  then show ?thesis by (simp add: load_hashed_entries_def clear_scope_def)
qed

lemma build_writes:
  assumes "dedup_build (Some s) keeper job True c = (gs, c')"
  shows "gs = number_groups (next_group c) (map (build_group s keeper job)
      (filter (\<lambda>g. 2 \<le> length (snd g)) (group_by (\<lambda>r. (er_size r, er_full_hash r)) (load_hashed_entries c s))))"
    and "c' = (clear_scope s c)\<lparr> dup_groups := dup_groups (clear_scope s c) @ gs,
      next_group := next_group c + int (length gs) \<rparr>"
  using assms by (auto simp: dedup_build_def build_loop_writes Let_def load_clear_scope) (simp_all add: clear_scope_def)

lemma built_group_keys:
  "((sz, hash), ms) \<in> set (group_by (\<lambda>r. (er_size r, er_full_hash r)) (load_hashed_entries c s)) \<longleftrightarrow>
    ms \<noteq> [] \<and> ms = copies c s sz hash"
  by (simp add: group_by_mem copies_def)

lemma number_groups_map: "(\<And>g i. f (g\<lparr> dg_id := i \<rparr>) = f g) \<Longrightarrow> map f (number_groups n gs) = map f gs"
  by (induction gs arbitrary: n) auto

text \<open>What a report group says of its key.\<close>

definition reports :: "catalogue \<Rightarrow> dedup_scope \<Rightarrow> dup_group \<Rightarrow> bool" where
  "reports c s g \<longleftrightarrow>
     (let ms = copies c s (dg_size g) (dg_full_hash g)
      in 2 \<le> length ms \<and> dg_scope g = scope_as_json s \<and> dg_members g = map dup_member_of ms \<and>
         dg_member_count g = length ms \<and>
         dg_reclaimable_bytes g = dg_size g * max 0 (int (length (filter is_native ms)) - 1) \<and>
         (\<exists>m. best_copy s ms m \<and> dg_suggested_keeper g = er_entry_id m))"

lemma build_group_reports:
  assumes "((sz, hash), ms) \<in> set (group_by (\<lambda>r. (er_size r, er_full_hash r)) (load_hashed_entries c s))"
    and "2 \<le> length ms"
  shows "reports c s ((build_group s rank_oldest_then_preferred_then_shortest job ((sz, hash), ms))\<lparr> dg_id := i \<rparr>)"
proof -
  have ms: "ms \<noteq> []" "copies c s sz hash = ms" using assms(1) unfolding built_group_keys by blast+
  then show ?thesis
    using assms(2) keeper_best_copy [OF ms(1), of s] by (simp add: reports_def build_group_def Let_def)
qed

lemma built_groups_report:
  assumes "dedup_build (Some s) rank_oldest_then_preferred_then_shortest job True c = (gs, c')" "g \<in> set gs"
  shows "reports c s g"
proof -
  from assms obtain h i where h: "h \<in> set (map (build_group s rank_oldest_then_preferred_then_shortest job)
      (filter (\<lambda>g. 2 \<le> length (snd g)) (group_by (\<lambda>r. (er_size r, er_full_hash r)) (load_hashed_entries c s))))"
    "g = h\<lparr> dg_id := i \<rparr>"
    unfolding build_writes(1) [OF assms(1)] by (blast dest: number_groups_mem)
  then obtain sz hash ms where
    "((sz, hash), ms) \<in> set (group_by (\<lambda>r. (er_size r, er_full_hash r)) (load_hashed_entries c s))"
    "2 \<le> length ms" "h = build_group s rank_oldest_then_preferred_then_shortest job ((sz, hash), ms)"
    by auto
  with h(2) show ?thesis using build_group_reports by blast
qed

lemma built_groups_keys:
  assumes "dedup_build (Some s) keeper job True c = (gs, c')"
  shows "distinct (map (\<lambda>g. (dg_size g, dg_full_hash g)) gs)"
    and "2 \<le> length (copies c s sz hash) \<Longrightarrow> \<exists>g \<in> set gs. dg_size g = sz \<and> dg_full_hash g = hash"
proof -
  let ?by = "group_by (\<lambda>r. (er_size r, er_full_hash r)) (load_hashed_entries c s)"
  let ?kept = "filter (\<lambda>g. 2 \<le> length (snd g)) ?by"
  have keys: "map (\<lambda>g. (dg_size g, dg_full_hash g)) gs = map fst ?kept"
    unfolding build_writes(1) [OF assms] by (subst number_groups_map) (auto simp: build_group_def Let_def)
  have "distinct (map fst ?by)" by simp
  then show "distinct (map (\<lambda>g. (dg_size g, dg_full_hash g)) gs)"
    unfolding keys by (rule distinct_map_filter)
  show "\<exists>g \<in> set gs. dg_size g = sz \<and> dg_full_hash g = hash" if "2 \<le> length (copies c s sz hash)"
  proof -
    have "((sz, hash), copies c s sz hash) \<in> set ?kept" using that by (auto simp: built_group_keys)
    then have "(sz, hash) \<in> set (map (\<lambda>g. (dg_size g, dg_full_hash g)) gs)"
      unfolding keys by force
    then show ?thesis by auto
  qed
qed

text \<open>The ids of a table of groups are below the next one and differ.\<close>

definition groups_ok :: "catalogue \<Rightarrow> bool" where
  "groups_ok c \<longleftrightarrow> distinct (map dg_id (dup_groups c)) \<and> (\<forall>g \<in> set (dup_groups c). dg_id g < next_group c)"

text \<open>C37. A rebuild replaces exactly the groups of its scope, with fresh ids. Afterwards that scope has
  one group for every size and full hash that two or more live hashed files of the scope share: its
  members are those files, only native copies but one are counted as reclaimable, and the suggested
  keeper is native where any copy is, of the oldest of those, preferred where any of that age is, and
  with the shortest path among what remains.\<close>

theorem dedup_report_exact:
  assumes run: "dedup_build (Some s) rank_oldest_then_preferred_then_shortest job True c = (gs, c')"
    and ok: "groups_ok c"
  shows "groups_ok c' \<and>
    filter (\<lambda>g. dg_scope g = scope_as_json s) (dup_groups c') = gs \<and>
    filter (\<lambda>g. dg_scope g \<noteq> scope_as_json s) (dup_groups c') =
      filter (\<lambda>g. dg_scope g \<noteq> scope_as_json s) (dup_groups c) \<and>
    (\<forall>g \<in> set gs. reports c s g) \<and> distinct (map (\<lambda>g. (dg_size g, dg_full_hash g)) gs) \<and>
    (\<forall>sz hash. 2 \<le> length (copies c s sz hash) \<longrightarrow> (\<exists>g \<in> set gs. dg_size g = sz \<and> dg_full_hash g = hash))"
proof -
  note w = build_writes [OF run]
  have rep: "\<forall>g \<in> set gs. reports c s g" using built_groups_report [OF run] by blast
  then have sc: "\<forall>g \<in> set gs. dg_scope g = scope_as_json s" by (simp add: reports_def Let_def)
  have ids: "map dg_id gs = map (\<lambda>i. next_group c + int i) [0..<length gs]"
    using w(1) number_groups_ids [of "next_group c"] length_number_groups by metis
  have "distinct (map dg_id gs)" unfolding ids by (simp add: distinct_map inj_on_def)
  moreover have new: "next_group c \<le> dg_id g \<and> dg_id g < next_group c + int (length gs)" if "g \<in> set gs" for g
  proof -
    have "dg_id g \<in> set (map dg_id gs)" using that by simp
    then show ?thesis unfolding ids by auto
  qed
  moreover have "distinct (map dg_id (dup_groups (clear_scope s c)))"
    "\<forall>g \<in> set (dup_groups (clear_scope s c)). dg_id g < next_group c"
    using ok by (auto simp: groups_ok_def clear_scope_def distinct_map_filter)
  ultimately have "groups_ok c'"
    unfolding groups_ok_def w(2) by (fastforce simp: disjoint_iff)
  moreover have "filter (\<lambda>g. dg_scope g = scope_as_json s) (dup_groups c') = gs"
    using sc by (simp add: w(2) clear_scope_def)
  moreover have "filter (\<lambda>g. dg_scope g \<noteq> scope_as_json s) (dup_groups c') =
      filter (\<lambda>g. dg_scope g \<noteq> scope_as_json s) (dup_groups c)"
    using sc by (simp add: w(2) clear_scope_def)
  ultimately show ?thesis using rep built_groups_keys [OF run] by blast
qed

section \<open>A run\<close>

definition report_entry :: "int \<Rightarrow> string \<Rightarrow> int \<Rightarrow> fs_entry" where
  "report_entry i p t = (rollup_entry i p False 5)\<lparr> e_full_hash := Some ''aa'', e_mtime := t, e_ctime := t \<rparr>"

definition report_catalogue :: catalogue where
  "report_catalogue = rollup_catalogue\<lparr> entries :=
     [report_entry 1 ''/d/a'' 9, report_entry 2 ''/d/b'' 3, report_entry 3 ''/d/c/d'' 3, rollup_entry 4 ''/d/e'' False 5] \<rparr>"

lemma sample_copies: "map er_entry_id (copies report_catalogue estate_scope 5 ''aa'') = [1, 2, 3]"
  by code_simp

lemma sample_keeper:
  "rank_oldest_then_preferred_then_shortest (copies report_catalogue estate_scope 5 ''aa'') estate_scope =
     \<lparr> kc_entry_id = 2, kc_reason = ''shortest path'' \<rparr>"
  by code_simp

theorem dedup_report_exact_witness:
  "\<exists>gs c'. dedup_build (Some estate_scope) rank_oldest_then_preferred_then_shortest None True report_catalogue = (gs, c') \<and>
     (\<exists>g \<in> set gs. dg_member_count g = 3 \<and> dg_full_hash g = ''aa'')"
proof -
  obtain gs c' where run: "dedup_build (Some estate_scope) rank_oldest_then_preferred_then_shortest None True
      report_catalogue = (gs, c')" by (meson surj_pair)
  have "groups_ok report_catalogue" by (simp add: groups_ok_def report_catalogue_def rollup_catalogue_def)
  note exact = dedup_report_exact [OF run this]
  have three: "length (copies report_catalogue estate_scope 5 ''aa'') = 3"
    using arg_cong [OF sample_copies, of length] by simp
  then obtain g where "g \<in> set gs" "dg_size g = 5" "dg_full_hash g = ''aa''" using exact by force
  moreover have "reports report_catalogue estate_scope g" using exact \<open>g \<in> set gs\<close> by blast
  ultimately have "dg_member_count g = 3" using three by (simp add: reports_def Let_def)
  with run \<open>g \<in> set gs\<close> \<open>dg_full_hash g = ''aa''\<close> show ?thesis by blast
qed

text \<open>A group whose copies all lie on network mounts is reported with nothing to reclaim, although the
  model's column comment promises the size times the members but one.\<close>

lemma aliases_reclaim_nothing:
  assumes "\<forall>m \<in> set members. \<not> is_native m"
  shows "dg_reclaimable_bytes (build_group s keeper job ((sz, hash), members)) = 0"
  using assms by (simp add: build_group_def Let_def)

text \<open>On a Windows volume a scope's path prefix reaches the entry itself and nothing below it.\<close>

lemma windows_prefix_selects_itself:
  assumes "CHR ''/'' \<notin> set (e_path e)" "ds_path_prefix s = Some p" "ds_path_prefix_volume_id s = Some vid"
    and "in_dedup_scope s e"
  shows "e_path e = p"
  using assms by (auto simp: in_dedup_scope_def like_below_exact prefix_def)

end
