(* ===== verification/Query.thy ===== *)
theory Query
  imports Access Dedup_Service
begin

text \<open>
  The read side of the catalogue (\<open>core/query.py\<close>) and the routes over it (\<open>api/routers/read.py\<close>,
  \<open>api/routers/duplicates.py\<close>). A query is a filter over the tables; rows that an \<open>ORDER BY\<close> leaves
  tied are in insertion order. Strings are ordered by code point, as under the C collation.
\<close>

section \<open>Volumes\<close>

text \<open>\<open>ValueError\<close> for an unknown volume, or the refusal of the scope check.\<close>

datatype read_error = Unknown_Volume int | Refused http_error

definition list_volumes :: "scope_filter option \<Rightarrow> catalogue \<Rightarrow> volume list" where
  "list_volumes scope c =
     (let vs = sort_key v_id (volumes c)
      in case scope of None \<Rightarrow> vs
         | Some f \<Rightarrow> scope_apply f (Some (Some \<circ> v_host_id)) (Some (Some \<circ> v_id)) (Some (Some \<circ> v_kind)) vs)"

definition check_volume_in_scope :: "volume \<Rightarrow> scope_filter option \<Rightarrow> (http_error, unit) result" where
  "check_volume_in_scope v scope =
     (case scope of None \<Rightarrow> Inr () | Some f \<Rightarrow> check_target f (v_host_id v) (Some (v_id v)) (Some (v_kind v)))"

definition get_volume_in_scope ::
  "int \<Rightarrow> scope_filter option \<Rightarrow> catalogue \<Rightarrow> (http_error, volume option) result" where
  "get_volume_in_scope vid scope c =
     (case find_row v_id vid (volumes c) of
        None \<Rightarrow> Inr None
      | Some v \<Rightarrow> rbind (check_volume_in_scope v scope) (\<lambda>_. Inr (Some v)))"

definition volume_for_read :: "int \<Rightarrow> scope_filter option \<Rightarrow> catalogue \<Rightarrow> (read_error, volume) result" where
  "volume_for_read vid scope c =
     (case find_row v_id vid (volumes c) of
        None \<Rightarrow> Inl (Unknown_Volume vid)
      | Some v \<Rightarrow> (case check_volume_in_scope v scope of Inl e \<Rightarrow> Inl (Refused e) | Inr _ \<Rightarrow> Inr v))"

section \<open>Drill-down\<close>

record tree_child =
  tc_entry_id :: int
  tc_path :: string
  tc_name :: string
  tc_is_dir :: bool
  tc_is_symlink :: bool
  tc_size_logical :: int
  tc_size_on_disk :: int
  tc_subtree_size_logical :: int
  tc_subtree_size_on_disk :: int
  tc_file_count :: int
  tc_mtime :: int
  tc_uid :: int
  tc_gid :: int
  tc_inode :: int
  tc_flags :: "(string \<times> bool) list"
  tc_content_hash :: "string option"

definition tree_child_of :: "fs_entry \<Rightarrow> subtree_rollup option \<Rightarrow> tree_child" where
  "tree_child_of e rollup =
     \<lparr> tc_entry_id = e_id e, tc_path = e_path e, tc_name = e_name e, tc_is_dir = e_is_dir e,
       tc_is_symlink = e_is_symlink e, tc_size_logical = e_size_logical e, tc_size_on_disk = e_size_on_disk e,
       tc_subtree_size_logical = (case rollup of None \<Rightarrow> e_size_logical e | Some r \<Rightarrow> ru_total_size_logical r),
       tc_subtree_size_on_disk = (case rollup of None \<Rightarrow> e_size_on_disk e | Some r \<Rightarrow> ru_total_size_on_disk r),
       tc_file_count = (case rollup of None \<Rightarrow> if e_is_dir e then 0 else 1 | Some r \<Rightarrow> ru_file_count r),
       tc_mtime = e_mtime e, tc_uid = e_uid e, tc_gid = e_gid e, tc_inode = e_inode e, tc_flags = e_flags e,
       tc_content_hash = e_full_hash e \<rparr>"

text \<open>The outer join of the entries with their rollup rows.\<close>

definition with_rollup :: "subtree_rollup list \<Rightarrow> fs_entry \<Rightarrow> (fs_entry \<times> subtree_rollup option) list" where
  "with_rollup rs e =
     (case filter (\<lambda>r. ru_volume_id r = e_volume_id e \<and> ru_path r = e_path e) rs of
        [] \<Rightarrow> [(e, None)]
      | found \<Rightarrow> map (\<lambda>r. (e, Some r)) found)"

definition is_child_row :: "bool \<Rightarrow> int \<Rightarrow> nat \<Rightarrow> string \<Rightarrow> fs_entry \<Rightarrow> bool" where
  "is_child_row fc vid child_depth path e \<longleftrightarrow>
     e_volume_id e = vid \<and> e_depth e = int child_depth \<and> like fc (below_pattern path) (e_path e) \<and> e_present e"

definition list_children ::
  "bool \<Rightarrow> scope_filter option \<Rightarrow> int \<Rightarrow> string \<Rightarrow> catalogue \<Rightarrow> (read_error, tree_child list) result" where
  "list_children fc scope vid path c =
     rbind (volume_for_read vid scope c) (\<lambda>v.
       let child_depth = depth_within (v_mountpoint v) path + 1;
           rows = concat (map (with_rollup (rollups c)) (filter (is_child_row fc vid child_depth path) (entries c)))
       in Inr (map (\<lambda>(e, r). tree_child_of e r) (sort_key (\<lambda>(e, r). e_name e) rows)))"

section \<open>Search, history and changes\<close>

record search_result =
  sr_path :: string
  sr_name :: string
  sr_is_dir :: bool
  sr_size_logical :: int
  sr_size_on_disk :: int
  sr_host_id :: int
  sr_volume_id :: int

definition search_result_of :: "fs_entry \<Rightarrow> search_result" where
  "search_result_of e =
     \<lparr> sr_path = e_path e, sr_name = e_name e, sr_is_dir = e_is_dir e, sr_size_logical = e_size_logical e,
       sr_size_on_disk = e_size_on_disk e, sr_host_id = e_host_id e, sr_volume_id = e_volume_id e \<rparr>"

text \<open>The join with the volume; \<open>ilike\<close> compares the lower-case texts.\<close>

definition with_volume :: "volume list \<Rightarrow> fs_entry \<Rightarrow> (fs_entry \<times> volume) list" where
  "with_volume vs e = map (\<lambda>v. (e, v)) (filter (\<lambda>v. v_id v = e_volume_id e) vs)"

definition search_entries ::
  "string \<Rightarrow> scope_filter option \<Rightarrow> int option \<Rightarrow> nat \<Rightarrow> catalogue \<Rightarrow> search_result list" where
  "search_entries q scope volume_id limit c =
     (let rows = filter (\<lambda>(e, v). e_present e \<and> like False (lower (infix_pattern q)) (lower (e_name e)))
            (concat (map (with_volume (volumes c)) (entries c)));
          rows = (case volume_id of None \<Rightarrow> rows | Some i \<Rightarrow> filter (\<lambda>(e, v). e_volume_id e = i) rows);
          rows = (case scope of None \<Rightarrow> rows
            | Some f \<Rightarrow> scope_apply f (Some (\<lambda>(e, v). Some (e_host_id e))) (Some (\<lambda>(e, v). Some (e_volume_id e)))
                (Some (\<lambda>(e, v). Some (v_kind v))) rows)
      in map (\<lambda>(e, v). search_result_of e) (take limit (sort_key (\<lambda>(e, v). - e_size_on_disk e) rows)))"

definition in_window :: "int option \<Rightarrow> int option \<Rightarrow> int \<Rightarrow> bool" where
  "in_window since until t \<longleftrightarrow>
     (case since of None \<Rightarrow> True | Some s \<Rightarrow> s \<le> t) \<and> (case until of None \<Rightarrow> True | Some u \<Rightarrow> t \<le> u)"

text \<open>Without a scope the volume is not looked at.\<close>

definition scope_gate :: "int \<Rightarrow> scope_filter option \<Rightarrow> catalogue \<Rightarrow> (read_error, unit) result" where
  "scope_gate vid scope c =
     (case scope of None \<Rightarrow> Inr () | Some f \<Rightarrow> rbind (volume_for_read vid scope c) (\<lambda>_. Inr ()))"

definition get_history ::
  "int \<Rightarrow> string \<Rightarrow> int option \<Rightarrow> int option \<Rightarrow> scope_filter option \<Rightarrow> catalogue \<Rightarrow>
   (read_error, size_history list) result" where
  "get_history vid path since until scope c =
     rbind (scope_gate vid scope c) (\<lambda>_.
       Inr (sort_key hi_ts (filter (\<lambda>h. hi_volume_id h = vid \<and> hi_path h = path \<and> in_window since until (hi_ts h))
         (history c))))"

definition get_changes ::
  "bool \<Rightarrow> int \<Rightarrow> string option \<Rightarrow> int option \<Rightarrow> int option \<Rightarrow> nat \<Rightarrow> scope_filter option \<Rightarrow> catalogue \<Rightarrow>
   (read_error, change_log list) result" where
  "get_changes fc vid path since until limit scope c =
     rbind (scope_gate vid scope c) (\<lambda>_.
       let rows = filter (\<lambda>l. cl_volume_id l = vid \<and> in_window since until (cl_ts l) \<and>
             (case path of None \<Rightarrow> True
              | Some p \<Rightarrow> cl_path l = p \<or> like fc (below_pattern p) (cl_path l))) (changes c)
       in Inr (take limit (sort_key (\<lambda>l. - cl_ts l) (rev rows))))"

section \<open>Duplicates\<close>

definition members_in_scope :: "scope_filter \<Rightarrow> dup_member list \<Rightarrow> dup_member list" where
  "members_in_scope f ms = scope_apply f (Some (Some \<circ> dm_host_id)) (Some (Some \<circ> dm_volume_id)) None ms"

text \<open>The \<open>EXISTS\<close> over the members, and the narrowing to a volume.\<close>

definition group_visible :: "scope_filter option \<Rightarrow> int option \<Rightarrow> dup_group \<Rightarrow> bool" where
  "group_visible scope volume_id g \<longleftrightarrow>
     (case volume_id of None \<Rightarrow> True | Some v \<Rightarrow> \<exists>m \<in> set (dg_members g). dm_volume_id m = v) \<and>
     (case scope of None \<Rightarrow> True | Some f \<Rightarrow> is_global f \<or> members_in_scope f (dg_members g) \<noteq> [])"

definition list_duplicate_groups ::
  "scope_filter option \<Rightarrow> int option \<Rightarrow> int option \<Rightarrow> nat \<Rightarrow> catalogue \<Rightarrow> dup_group list \<times> int option" where
  "list_duplicate_groups scope volume_id cursor limit c =
     (let rows = take (limit + 1) (filter (\<lambda>g. (case cursor of None \<Rightarrow> True | Some k \<Rightarrow> k < dg_id g) \<and>
            group_visible scope volume_id g) (sort_key dg_id (dup_groups c)));
          groups = take limit rows
      in (groups, if limit < length rows then Some (dg_id (last groups)) else None))"

definition duplicate_summary :: "scope_filter option \<Rightarrow> int option \<Rightarrow> catalogue \<Rightarrow> nat \<times> int" where
  "duplicate_summary scope volume_id c =
     (let gs = filter (group_visible scope volume_id) (dup_groups c)
      in (length gs, \<Sum>g\<leftarrow>gs. dg_reclaimable_bytes g))"

definition get_duplicate_group ::
  "scope_filter option \<Rightarrow> int \<Rightarrow> catalogue \<Rightarrow> (dup_group \<times> dup_member list) option" where
  "get_duplicate_group scope group_id c =
     (case find_row dg_id group_id (dup_groups c) of
        None \<Rightarrow> None
      | Some g \<Rightarrow>
          let members = (case scope of None \<Rightarrow> dg_members g
                | Some f \<Rightarrow> if is_global f then dg_members g else members_in_scope f (dg_members g))
          in if members = [] then None else Some (g, members))"

section \<open>Routes\<close>

definition http_of_read :: "(read_error, 'a) result \<Rightarrow> (http_error, 'a) result" where
  "http_of_read r =
     (case r of Inr x \<Rightarrow> Inr x
      | Inl (Refused e) \<Rightarrow> Inl e
      | Inl (Unknown_Volume vid) \<Rightarrow> Inl (HTTPException 404 (''unknown volume_id '' @ str_int vid)))"

definition get_tree ::
  "bool \<Rightarrow> principal \<Rightarrow> int \<Rightarrow> string \<Rightarrow> catalogue \<Rightarrow> (http_error, tree_child list) result" where
  "get_tree fc p vid path c =
     rbind (require_cap VIEW_METADATA p) (\<lambda>scope. http_of_read (list_children fc (Some scope) vid path c))"

definition get_volumes :: "principal \<Rightarrow> catalogue \<Rightarrow> (http_error, volume list) result" where
  "get_volumes p c = rbind (require_cap VIEW_METADATA p) (\<lambda>scope. Inr (list_volumes (Some scope) c))"

definition search_route ::
  "principal \<Rightarrow> string \<Rightarrow> int option \<Rightarrow> nat \<Rightarrow> catalogue \<Rightarrow> (http_error, search_result list) result" where
  "search_route p q volume_id limit c =
     rbind (require_cap VIEW_METADATA p) (\<lambda>scope.
       case volume_id of
         None \<Rightarrow> Inr (search_entries q (Some scope) None limit c)
       | Some vid \<Rightarrow>
           rbind (get_volume_in_scope vid (Some scope) c) (\<lambda>v.
             case v of None \<Rightarrow> Inl (HTTPException 404 ''unknown volume'')
             | Some _ \<Rightarrow> Inr (search_entries q (Some scope) (Some vid) limit c)))"

record group_detail =
  gd_id :: int
  gd_full_hash :: string
  gd_size :: int
  gd_member_count :: nat
  gd_reclaimable_bytes :: int
  gd_suggested_keeper :: "int option"
  gd_suggested_reason :: "string option"
  gd_members :: "dup_member list"

definition group_detail_of :: "dup_group \<Rightarrow> dup_member list \<Rightarrow> group_detail" where
  "group_detail_of g members =
     (let visible_native = length (filter (\<lambda>m. \<not> dm_is_mount_alias m) members);
          keeper_visible = dg_suggested_keeper g \<in> dm_entry_id ` set members
      in \<lparr> gd_id = dg_id g, gd_full_hash = dg_full_hash g, gd_size = dg_size g, gd_member_count = length members,
           gd_reclaimable_bytes = dg_size g * max 0 (int visible_native - 1),
           gd_suggested_keeper = (if keeper_visible then Some (dg_suggested_keeper g) else None),
           gd_suggested_reason = (if keeper_visible then Some (dg_suggested_reason g) else None),
           gd_members = members \<rparr>)"

definition get_duplicate :: "principal \<Rightarrow> int \<Rightarrow> catalogue \<Rightarrow> (http_error, group_detail) result" where
  "get_duplicate p group_id c =
     rbind (require_cap VIEW_DEDUP p) (\<lambda>scope.
       case get_duplicate_group (Some scope) group_id c of
         None \<Rightarrow> Inl (HTTPException 404 ''duplicate group not found'')
       | Some (g, members) \<Rightarrow> Inr (group_detail_of g members))"

text \<open>One page of the listing: a row shows the stored counts.\<close>

record group_row =
  gr_id :: int
  gr_full_hash :: string
  gr_size :: int
  gr_member_count :: nat
  gr_reclaimable_bytes :: int
  gr_suggested_keeper :: int
  gr_suggested_reason :: string

definition group_row_of :: "dup_group \<Rightarrow> group_row" where
  "group_row_of g =
     \<lparr> gr_id = dg_id g, gr_full_hash = dg_full_hash g, gr_size = dg_size g, gr_member_count = dg_member_count g,
       gr_reclaimable_bytes = dg_reclaimable_bytes g, gr_suggested_keeper = dg_suggested_keeper g,
       gr_suggested_reason = dg_suggested_reason g \<rparr>"

definition list_duplicates ::
  "principal \<Rightarrow> int option \<Rightarrow> int option \<Rightarrow> nat \<Rightarrow> catalogue \<Rightarrow> (http_error, group_row list \<times> string option) result" where
  "list_duplicates p volume_id cursor limit c =
     rbind (require_cap VIEW_DEDUP p) (\<lambda>scope.
       case list_duplicate_groups (Some scope) volume_id cursor limit c of
         (groups, next) \<Rightarrow> Inr (map group_row_of groups, map_option str_int next))"

end
