(* ===== verification/Query_Facts.thy ===== *)
theory Query_Facts
  imports Query
begin

text \<open>
  What the read side shows: a drill-down is the immediate children with the totals beneath them, the
  pages of the duplicate listing are complete, and a group's detail depends on the members in scope only.
\<close>

section \<open>Drill-down\<close>

lemma child_row_parts:
  assumes "mount_ok mount" "list_all clean_part ds" "list_all clean_part cs" "e_path e = dir_at mount cs"
    and "e_depth e = int (length cs)"
  shows "is_child_row False vid (depth_within mount (dir_at mount ds) + 1) (dir_at mount ds) e \<longleftrightarrow>
    e_volume_id e = vid \<and> e_present e \<and> (\<exists>x. cs = ds @ [x])"
proof -
  have depth: "depth_within mount (dir_at mount ds) = length ds" using depth_of_parts [OF assms(1,2)] .
  have "length cs = length ds + 1 \<and> like False (below_pattern (dir_at mount ds)) (e_path e) \<longleftrightarrow> (\<exists>x. cs = ds @ [x])"
  proof (cases "length cs = length ds + 1")
    case True
    then have "cs \<noteq> ds" by auto
    then have "e_path e \<noteq> dir_at mount ds" using dir_at_inj [OF assms(1,2,3)] assms(4) by metis
    then have "like False (below_pattern (dir_at mount ds)) (e_path e) \<longleftrightarrow> strict_prefix ds cs"
      using under_dir_parts [OF assms(1-4)] by (simp add: like_below_exact under_dir_def)
    also have "\<dots> \<longleftrightarrow> (\<exists>x. cs = ds @ [x])"
    proof
      assume "strict_prefix ds cs"
      then obtain zs where zs: "cs = ds @ zs" by (auto simp: strict_prefix_def prefix_def)
      with True obtain x where "zs = [x]" by (cases zs) auto
      with zs show "\<exists>x. cs = ds @ [x]" by blast
    qed (auto simp: strict_prefix_def)
    finally show ?thesis using True by simp
  qed auto
  then show ?thesis using assms(5) by (auto simp: is_child_row_def depth)
qed

text \<open>An immediate child: one component further down.\<close>

definition child_of_dir :: "string \<Rightarrow> string list \<Rightarrow> fs_entry \<Rightarrow> bool" where
  "child_of_dir mount ds e \<longleftrightarrow> (\<exists>x. clean_part x \<and> e_path e = dir_at mount (ds @ [x]))"

text \<open>Every entry of the volume has the depth of its path.\<close>

definition depths_ok :: "string \<Rightarrow> fs_entry list \<Rightarrow> bool" where
  "depths_ok mount es \<longleftrightarrow> (\<forall>e \<in> set es. \<exists>cs. list_all clean_part cs \<and> e_path e = dir_at mount cs \<and> e_depth e = int (length cs))"

lemma depths_placed: "depths_ok mount es \<Longrightarrow> placed mount es"
  by (auto simp: depths_ok_def placed_def)

lemma child_rows:
  assumes "mount_ok mount" "list_all clean_part ds" "depths_ok mount (volume_entries vid es)"
  shows "filter (is_child_row False vid (depth_within mount (dir_at mount ds) + 1) (dir_at mount ds)) es =
    filter (child_of_dir mount ds) (volume_entries vid es)"
  unfolding volume_entries_def filter_filter
proof (rule filter_cong [OF refl])
  fix e assume e: "e \<in> set es"
  show "is_child_row False vid (depth_within mount (dir_at mount ds) + 1) (dir_at mount ds) e =
      ((e_volume_id e = vid \<and> e_present e) \<and> child_of_dir mount ds e)"
  proof (cases "e_volume_id e = vid \<and> e_present e")
    case True
    then obtain cs where cs: "list_all clean_part cs" "e_path e = dir_at mount cs" "e_depth e = int (length cs)"
      using assms(3) e by (auto simp: depths_ok_def volume_entries_def)
    have "child_of_dir mount ds e \<longleftrightarrow> (\<exists>x. cs = ds @ [x])"
    proof
      assume "child_of_dir mount ds e"
      then obtain x where "clean_part x" "dir_at mount cs = dir_at mount (ds @ [x])" using cs(2) by (auto simp: child_of_dir_def)
      then show "\<exists>x. cs = ds @ [x]" using dir_at_inj [OF assms(1) cs(1), of "ds @ [x]"] assms(2) by auto
    qed (use cs in \<open>auto simp: child_of_dir_def\<close>)
    then show ?thesis using child_row_parts [OF assms(1,2) cs] True by simp
  qed (auto simp: is_child_row_def)
qed

text \<open>The sizes a child is shown with: the totals beneath it, or its own where nothing is beneath.\<close>

definition child_with_totals :: "fs_entry list \<Rightarrow> fs_entry \<Rightarrow> tree_child" where
  "child_with_totals es e =
     (let below = filter (under_dir (e_path e)) es
      in if below = [] then tree_child_of e None
         else (tree_child_of e None)\<lparr>
           tc_subtree_size_logical := (\<Sum>x\<leftarrow>below. e_size_logical x),
           tc_subtree_size_on_disk := (\<Sum>x\<leftarrow>below. e_size_on_disk x),
           tc_file_count := int (length (filter (\<lambda>x. \<not> e_is_dir x) below)) \<rparr>)"

lemma filter_unique: "distinct (map f xs) \<Longrightarrow> r \<in> set xs \<Longrightarrow> f r = k \<Longrightarrow> filter (\<lambda>x. f x = k) xs = [r]"
  by (induction xs) (auto simp: filter_empty_conv image_iff)

lemma rollup_row_of_entry:
  assumes "recompute_full now vid c = Some (n, c')" "find_row v_id vid (volumes c) = Some v"
    and "mount_ok (v_mountpoint v)" "placed (v_mountpoint v) (volume_entries vid (entries c))"
    and "e_volume_id e = vid" "list_all clean_part cs" "e_path e = dir_at (v_mountpoint v) cs"
  shows "\<exists>rs. with_rollup (rollups c') e = [(e, rs)] \<and>
    tree_child_of e rs = child_with_totals (volume_entries vid (entries c)) e"
proof -
  let ?m = "v_mountpoint v" and ?es = "volume_entries vid (entries c)"
  let ?below = "filter (under_dir (e_path e)) ?es"
  let ?rows = "rollup_rows vid ?m (tally_volume ?m ?es) now"
  have "filter (\<lambda>r. ru_volume_id r = vid \<and> ru_path r = e_path e) (filter (\<lambda>r. ru_volume_id r \<noteq> vid) (rollups c)) = []"
    by (simp add: filter_empty_conv)
  then have found: "filter (\<lambda>r. ru_volume_id r = vid \<and> ru_path r = e_path e) (rollups c') =
      filter (\<lambda>r. ru_path r = e_path e) ?rows"
    using recompute_full_rows(1) [OF assms(1,2)] by (auto simp: rollup_rows_def intro!: filter_cong)
  have paths: "map ru_path ?rows = map fst (tally_volume ?m ?es)" by (auto simp: rollup_rows_def)
  then have dist: "distinct (map ru_path ?rows)" using distinct_tally [of "[]"] by (simp add: tally_volume_def)
  show ?thesis
  proof (cases "?below = []")
    case True
    then have "filter (\<lambda>r. ru_path r = e_path e) ?rows = []"
      using tally_rows [OF assms(3,4)] by (auto simp: filter_empty_conv rollup_rows_mem)
    then have "with_rollup (rollups c') e = [(e, None)]" using found assms(5) by (simp add: with_rollup_def)
    with True show ?thesis by (simp add: child_with_totals_def)
  next
    case False
    then have "(e_path e, totals ?below) \<in> set (tally_volume ?m ?es)"
      using tally_rows [OF assms(3,4)] assms(6,7) by blast
    then obtain r where r: "r \<in> set ?rows" "ru_path r = e_path e"
        "ru_total_size_logical r = (\<Sum>x\<leftarrow>?below. e_size_logical x)"
        "ru_total_size_on_disk r = (\<Sum>x\<leftarrow>?below. e_size_on_disk x)"
        "ru_file_count r = int (length (filter (\<lambda>x. \<not> e_is_dir x) ?below))"
      unfolding rollup_rows_mem by (force simp: totals_def)
    have "filter (\<lambda>r. ru_path r = e_path e) ?rows = [r]"
      using filter_unique [OF dist r(1,2)] .
    then have "with_rollup (rollups c') e = [(e, Some r)]" using found assms(5) by (simp add: with_rollup_def)
    with False r show ?thesis by (simp add: child_with_totals_def tree_child_of_def Let_def)
  qed
qed

lemma insort_key_map: "insort_key f (g x) (map g xs) = map g (insort_key (\<lambda>y. f (g y)) x xs)"
  by (induction xs) auto

lemma sort_key_map: "sort_key f (map g xs) = map g (sort_key (\<lambda>x. f (g x)) xs)"
  by (induction xs) (simp_all add: insort_key_map)


section \<open>Pages of duplicate groups\<close>

text \<open>A client that follows the cursors, for at most so many pages.\<close>

fun all_pages :: "nat \<Rightarrow> (int option \<Rightarrow> 'a list \<times> int option) \<Rightarrow> int option \<Rightarrow> 'a list option" where
  "all_pages 0 page cursor = None"
| "all_pages (Suc n) page cursor =
     (case page cursor of
        (xs, None) \<Rightarrow> Some xs
      | (xs, Some k) \<Rightarrow> map_option ((@) xs) (all_pages n page (Some k)))"

definition after :: "int option \<Rightarrow> dup_group list \<Rightarrow> dup_group list" where
  "after cursor = filter (\<lambda>g. case cursor of None \<Rightarrow> True | Some k \<Rightarrow> k < dg_id g)"

lemma last_largest: "sorted_wrt (\<lambda>a b. dg_id a < dg_id b) xs \<Longrightarrow> a \<in> set xs \<Longrightarrow> \<not> dg_id (last xs) < dg_id a"
  by (cases xs rule: rev_cases) (auto simp: sorted_wrt_append)

lemma after_last:
  assumes "sorted_wrt (\<lambda>a b. dg_id a < dg_id b) xs" "0 < k" "k < length xs"
  shows "after (Some (dg_id (last (take k xs)))) xs = drop k xs"
proof -
  have split: "xs = take k xs @ drop k xs" by simp
  have ne: "take k xs \<noteq> []" using assms by auto
  have cross: "dg_id a < dg_id b" if "a \<in> set (take k xs)" "b \<in> set (drop k xs)" for a b
  proof -
    have "sorted_wrt (\<lambda>a b. dg_id a < dg_id b) (take k xs @ drop k xs)" using assms(1) by simp
    with that show ?thesis unfolding sorted_wrt_append by blast
  qed
  have "sorted_wrt (\<lambda>a b. dg_id a < dg_id b) (take k xs)" using assms(1) by (rule sorted_wrt_take)
  then have "\<not> dg_id (last (take k xs)) < dg_id a" if "a \<in> set (take k xs)" for a
    using that last_largest by blast
  then have "filter (\<lambda>g. dg_id (last (take k xs)) < dg_id g) (take k xs) = []" by (simp add: filter_empty_conv)
  moreover have "filter (\<lambda>g. dg_id (last (take k xs)) < dg_id g) (drop k xs) = drop k xs"
    using cross ne by (intro filter_True) auto
  ultimately show ?thesis
    unfolding after_def by (subst split) (simp only: filter_append option.case append_Nil)
qed

definition visible_groups :: "scope_filter option \<Rightarrow> int option \<Rightarrow> catalogue \<Rightarrow> dup_group list" where
  "visible_groups scope volume_id c = filter (group_visible scope volume_id) (sort_key dg_id (dup_groups c))"

lemma page_of_visible:
  "list_duplicate_groups scope volume_id cursor limit c =
     (let rest = after cursor (visible_groups scope volume_id c)
      in (take limit rest, if limit < length rest then Some (dg_id (last (take limit rest))) else None))"
proof -
  have rest: "filter (\<lambda>g. (case cursor of None \<Rightarrow> True | Some k \<Rightarrow> k < dg_id g) \<and> group_visible scope volume_id g)
      (sort_key dg_id (dup_groups c)) = after cursor (visible_groups scope volume_id c)"
    by (simp add: after_def visible_groups_def conj_commute)
  have "take limit (take (limit + 1) xs) = take limit xs" "limit < length (take (limit + 1) xs) \<longleftrightarrow> limit < length xs"
    for xs :: "dup_group list" by (simp_all add: take_take)
  then show ?thesis unfolding list_duplicate_groups_def rest Let_def by presburger
qed

lemma visible_sorted:
  assumes "groups_ok c"
  shows "sorted_wrt (\<lambda>a b. dg_id a < dg_id b) (visible_groups scope volume_id c)"
proof -
  have "sorted (map dg_id (sort_key dg_id (dup_groups c)))" by simp
  moreover have "distinct (map dg_id (sort_key dg_id (dup_groups c)))"
    using assms by (metis groups_ok_def mset_map mset_sort mset_eq_imp_distinct_iff)
  ultimately have "sorted_wrt (<) (map dg_id (sort_key dg_id (dup_groups c)))"
    by (simp add: strict_sorted_iff)
  then have "sorted_wrt (\<lambda>a b. dg_id a < dg_id b) (sort_key dg_id (dup_groups c))" by (simp add: sorted_wrt_map)
  then show ?thesis unfolding visible_groups_def by (rule sorted_wrt_filter)
qed

lemma pages_from:
  assumes "sorted_wrt (\<lambda>a b. dg_id a < dg_id b) v" "0 < limit" "v = visible_groups scope volume_id c"
    and "length (after cursor v) < n"
  shows "all_pages n (\<lambda>k. list_duplicate_groups scope volume_id k limit c) cursor = Some (after cursor v)"
  using assms(4)
proof (induction n arbitrary: cursor)
  case (Suc n)
  let ?rest = "after cursor v"
  show ?case
  proof (cases "limit < length ?rest")
    case False
    then show ?thesis by (simp add: page_of_visible Let_def flip: assms(3))
  next
    case True
    let ?k = "dg_id (last (take limit ?rest))"
    have "last (take limit ?rest) \<in> set ?rest"
      using True assms(2) by (metis gr_implies_not0 in_set_takeD last_in_set list.size(3) take_eq_Nil)
    moreover have "case cursor of None \<Rightarrow> True | Some j \<Rightarrow> j < dg_id g" if "g \<in> set ?rest" for g
      using that by (simp add: after_def)
    ultimately have "case cursor of None \<Rightarrow> True | Some j \<Rightarrow> j < ?k" by blast
    then have "after (Some ?k) v = after (Some ?k) ?rest"
      by (auto simp: after_def intro!: filter_cong split: option.splits)
    also have "\<dots> = drop limit ?rest"
      using True assms(1,2) by (intro after_last) (simp_all add: after_def sorted_wrt_filter)
    finally have next_rest: "after (Some ?k) v = drop limit ?rest" .
    then have "length (after (Some ?k) v) < n" using Suc.prems True assms(2) by simp
    from Suc.IH [OF this] show ?thesis
      using True next_rest by (simp add: page_of_visible Let_def flip: assms(3))
  qed
qed simp

text \<open>C40. Following the cursors ends, after at most one page more than there are groups, and the pages
  together are the visible groups in the order of their ids, each once.\<close>

theorem duplicate_pages_complete:
  assumes "groups_ok c" "0 < limit"
  shows "all_pages (Suc (length (dup_groups c))) (\<lambda>k. list_duplicate_groups scope volume_id k limit c) None =
    Some (filter (group_visible scope volume_id) (sort_key dg_id (dup_groups c)))"
proof -
  let ?v = "visible_groups scope volume_id c"
  have "after None ?v = ?v" by (simp add: after_def)
  moreover have "length ?v \<le> length (dup_groups c)"
    unfolding visible_groups_def using length_filter_le length_sort le_trans by metis
  ultimately show ?thesis
    using pages_from [OF visible_sorted [OF assms(1)] assms(2) refl,
      where cursor = None and n = "Suc (length (dup_groups c))"]
    by (simp add: visible_groups_def)
qed

section \<open>What a group's detail reveals\<close>

lemma members_in_scope_filter:
  "\<not> is_global f \<Longrightarrow> members_in_scope f ms = filter (\<lambda>m. dm_host_id m \<in> host_ids f \<or> dm_volume_id m \<in> volume_ids f) ms"
  by (auto simp: members_in_scope_def scope_apply_def sql_in_def Let_def filter_empty_conv intro!: filter_cong)

text \<open>A principal that may not see every host gets a group's detail exactly when the group has a member
  on a host or volume of its scope; it gets those members, and counts and the suggestion that depend on
  them alone: two catalogues whose groups differ in members outside the scope answer alike.\<close>

theorem duplicate_detail_confined:
  assumes cap: "require_cap VIEW_DEDUP p = Inr f" and scope: "\<not> is_global f"
    and g: "find_row dg_id i (dup_groups c) = Some g" and g2: "find_row dg_id i (dup_groups c2) = Some g2"
    and same: "dg_id g2 = dg_id g" "dg_full_hash g2 = dg_full_hash g" "dg_size g2 = dg_size g"
      "dg_suggested_keeper g2 = dg_suggested_keeper g" "dg_suggested_reason g2 = dg_suggested_reason g"
    and members: "filter (\<lambda>m. dm_host_id m \<in> host_ids f \<or> dm_volume_id m \<in> volume_ids f) (dg_members g2) =
      filter (\<lambda>m. dm_host_id m \<in> host_ids f \<or> dm_volume_id m \<in> volume_ids f) (dg_members g)"
  shows "get_duplicate p i c2 = get_duplicate p i c \<and>
    (case get_duplicate p i c of
       Inl e \<Rightarrow> e = HTTPException 404 ''duplicate group not found'' \<and>
         (\<forall>m \<in> set (dg_members g). dm_host_id m \<notin> host_ids f \<and> dm_volume_id m \<notin> volume_ids f)
     | Inr d \<Rightarrow> gd_members d \<noteq> [] \<and> gd_member_count d = length (gd_members d) \<and>
         gd_members d = filter (\<lambda>m. dm_host_id m \<in> host_ids f \<or> dm_volume_id m \<in> volume_ids f) (dg_members g) \<and>
         (\<forall>k. gd_suggested_keeper d = Some k \<longrightarrow> (\<exists>m \<in> set (gd_members d). dm_entry_id m = k)))"
proof -
  let ?ms = "members_in_scope f (dg_members g)"
  have ms: "members_in_scope f (dg_members g2) = ?ms"
    using members by (simp add: members_in_scope_filter [OF scope])
  have "get_duplicate p i c = (if ?ms = [] then Inl (HTTPException 404 ''duplicate group not found'')
      else Inr (group_detail_of g ?ms))"
    by (simp add: get_duplicate_def cap get_duplicate_group_def g scope Let_def)
  moreover have "get_duplicate p i c2 = (if ?ms = [] then Inl (HTTPException 404 ''duplicate group not found'')
      else Inr (group_detail_of g2 ?ms))"
    by (simp add: get_duplicate_def cap get_duplicate_group_def g2 scope Let_def ms)
  moreover have "group_detail_of g2 ?ms = group_detail_of g ?ms"
    by (simp add: group_detail_of_def Let_def same)
  moreover have "\<forall>k. gd_suggested_keeper (group_detail_of g ?ms) = Some k \<longrightarrow> (\<exists>m \<in> set ?ms. dm_entry_id m = k)"
    by (auto simp: group_detail_of_def Let_def)
  ultimately show ?thesis
    using members_in_scope_filter [OF scope, of "dg_members g"]
    by (auto simp: group_detail_of_def Let_def filter_empty_conv)
qed

text \<open>The listing shows the stored count of a visible group, with the members outside the scope.\<close>

lemma listing_shows_stored_count:
  assumes "require_cap VIEW_DEDUP p = Inr f" "dup_groups c = [g]" "group_visible (Some f) None g"
  shows "list_duplicates p None None 50 c = Inr ([group_row_of g], None)"
  using assms by (simp add: list_duplicates_def list_duplicate_groups_def Let_def)

section \<open>Runs\<close>

definition drill_catalogue :: catalogue where
  "drill_catalogue = rollup_catalogue\<lparr> entries :=
     [rollup_entry 1 ''/d/a'' True 0, (rollup_entry 2 ''/d/a/f'' False 3)\<lparr> e_depth := 2 \<rparr>,
      rollup_entry 3 ''/d/g'' False 2] \<rparr>"

lemma drill_entries: "volume_entries 1 (entries drill_catalogue) = entries drill_catalogue"
  by (simp add: volume_entries_def drill_catalogue_def rollup_entry_def)

lemma drill_depths: "depths_ok ''/d'' (entries drill_catalogue)"
proof -
  have a: "\<exists>cs. list_all clean_part cs \<and> ''/d/a'' = dir_at ''/d'' cs \<and> (1::int) = int (length cs)"
    by (rule exI [of _ "[''a'']"]) (simp add: clean_part_def dir_at_def rstrip_def)
  have f: "\<exists>cs. list_all clean_part cs \<and> ''/d/a/f'' = dir_at ''/d'' cs \<and> (2::int) = int (length cs)"
    by (rule exI [of _ "[''a'', ''f'']"]) (simp add: clean_part_def dir_at_def rstrip_def)
  have "\<exists>cs. list_all clean_part cs \<and> ''/d/g'' = dir_at ''/d'' cs \<and> (1::int) = int (length cs)"
    by (rule exI [of _ "[''g'']"]) (simp add: clean_part_def dir_at_def rstrip_def)
  with a f show ?thesis by (simp add: depths_ok_def drill_catalogue_def rollup_entry_def)
qed


definition sample_member :: "int \<Rightarrow> int \<Rightarrow> dup_member" where
  "sample_member e h = \<lparr> dm_entry_id = e, dm_host_id = h, dm_volume_id = h, dm_path = ''/p'', dm_is_mount_alias = False \<rparr>"

definition sample_group :: "int \<Rightarrow> dup_member list \<Rightarrow> dup_group" where
  "sample_group i ms = \<lparr> dg_id = i, dg_full_hash = ''aa'', dg_size = 5, dg_member_count = length ms,
     dg_reclaimable_bytes = 5 * (int (length ms) - 1), dg_scope = JNull, dg_job_id = None, dg_suggested_keeper = 2,
     dg_suggested_reason = ''oldest copy'', dg_members = ms \<rparr>"

definition groups_catalogue :: "dup_group list \<Rightarrow> catalogue" where
  "groups_catalogue gs = rollup_catalogue\<lparr> dup_groups := gs, next_group := 9 \<rparr>"

theorem duplicate_pages_complete_witness:
  "all_pages 4 (\<lambda>k. list_duplicate_groups None None k 1
       (groups_catalogue [sample_group 3 [], sample_group 1 [], sample_group 8 []])) None =
     Some [sample_group 1 [], sample_group 3 [], sample_group 8 []]"
proof -
  let ?c = "groups_catalogue [sample_group 3 [], sample_group 1 [], sample_group 8 []]"
  have "groups_ok ?c" by (simp add: groups_ok_def groups_catalogue_def sample_group_def)
  from duplicate_pages_complete [OF this, of 1 None None] show ?thesis
    by (simp add: groups_catalogue_def group_visible_def sample_group_def numeral_eq_Suc)
qed

definition dedup_viewer :: principal where
  "dedup_viewer = \<lparr> p_subject = ''bob'', p_source = Local_Source, p_user_id = 1, p_display_name = None, p_groups = [],
     p_grants = [\<lparr> grant_role = REMEDIATOR, grant_scope = Host_Scope, grant_host = Some 7, grant_volume = None \<rparr>],
     p_mfa_at = None, p_session_id = None \<rparr>"

lemma dedup_viewer_scope:
  "require_cap VIEW_DEDUP dedup_viewer = Inr \<lparr> is_global = False, host_ids = {7}, volume_ids = {} \<rparr>"
  by (simp add: require_cap_def has_capability_def dedup_viewer_def from_grants_def Let_def
      role_has_def caps_defs named_ids_def scope_is_empty_def)

theorem duplicate_detail_confined_witness:
  "get_duplicate dedup_viewer 4 (groups_catalogue [sample_group 4 [sample_member 1 7, sample_member 2 8, sample_member 3 9]]) =
   get_duplicate dedup_viewer 4 (groups_catalogue [sample_group 4 [sample_member 1 7]])"
proof -
  let ?g2 = "sample_group 4 [sample_member 1 7, sample_member 2 8, sample_member 3 9]"
  let ?g = "sample_group 4 [sample_member 1 7]"
  have rows: "find_row dg_id 4 (dup_groups (groups_catalogue [?g])) = Some ?g"
    "find_row dg_id 4 (dup_groups (groups_catalogue [?g2])) = Some ?g2"
    by (simp_all add: find_row_def groups_catalogue_def sample_group_def)
  show ?thesis
    by (rule duplicate_detail_confined [OF dedup_viewer_scope _ rows, THEN conjunct1])
      (simp_all add: sample_group_def sample_member_def)
qed

end
