(* ===== verification/Scan_Lease.thy ===== *)
theory Scan_Lease
  imports Access Catalogue
begin

text \<open>
  The scan coordinator (\<open>core/scan_coordinator.py\<close>, \<open>core/agent_runs.py\<close>): an agent asks for a lease
  before it walks, a heavy scan is deferred while enough others run, and reporting the run releases
  the lease. A request is one transaction; the steps of two requests are not interleaved here, and
  \<open>stale_count_exceeds\<close> shows what happens when they are. Instants are numbers of seconds.
\<close>

section \<open>Tables\<close>

datatype lease_status = LEASE_ACTIVE | LEASE_RELEASED | LEASE_EXPIRED | LEASE_DEFERRED

record scan_lease =
  sl_id :: int
  sl_host_id :: int
  sl_is_heavy :: bool
  sl_status :: lease_status
  sl_reason :: "string option"
  sl_blocking_host_id :: "int option"
  sl_retry_after :: "int option"
  sl_granted_at :: int
  sl_expires_at :: "int option"
  sl_released_at :: "int option"

record agent_run =
  ar_id :: int
  ar_host_id :: int
  ar_started_at :: int
  ar_finished_at :: int
  ar_outcome :: string
  ar_entries_seen :: int
  ar_rows_changed :: int
  ar_pushed :: int
  ar_scopes_total :: nat
  ar_scopes_failed :: nat
  ar_finalized :: "int option"
  ar_error_summary :: "string option"
  ar_agent_version :: "string option"
  ar_reported_config :: "json option"
  ar_created_at :: int

record coordinator_settings =
  cs_enabled :: bool
  cs_max_concurrent_heavy :: nat
  cs_heavy_entries :: int
  cs_lease_ttl :: int
  cs_retry_after :: int

text \<open>\<open>reported\<close> is the column \<open>reported_config\<close> of the hosts.\<close>

record coordination =
  co_hosts :: "host list"
  co_reported :: "(int \<times> json) list"
  co_leases :: "scan_lease list"
  co_runs :: "agent_run list"
  co_next_lease :: int
  co_next_run :: int

section \<open>Recording runs\<close>

record run_scope =
  rs_root :: string
  rs_entries_seen :: int
  rs_rows_changed :: int
  rs_error :: "string option"

record run_report =
  rr_started_at :: int
  rr_finished_at :: int
  rr_pushed :: int
  rr_finalized :: "int option"
  rr_agent_version :: "string option"
  rr_scopes :: "run_scope list"
  rr_reported_config :: "json option"

definition derive_outcome :: "nat \<Rightarrow> nat \<Rightarrow> string" where
  "derive_outcome scopes_total scopes_failed =
     (if scopes_total = 0 \<or> scopes_total \<le> scopes_failed then ''failed''
      else if 0 < scopes_failed then ''partial'' else ''ok'')"

definition error_summary :: "run_scope list \<Rightarrow> string option" where
  "error_summary failed =
     (case failed of [] \<Rightarrow> None
      | s # _ \<Rightarrow> (case rs_error s of None \<Rightarrow> None | Some [] \<Rightarrow> None | Some e \<Rightarrow> Some (take 1024 e)))"

definition record_agent_run ::
  "int \<Rightarrow> string \<Rightarrow> run_report \<Rightarrow> coordination \<Rightarrow> agent_run option \<times> coordination" where
  "record_agent_run now fp report c =
     (case find_row h_fingerprint fp (co_hosts c) of
        None \<Rightarrow> (None, c)
      | Some h \<Rightarrow>
          let scopes = rr_scopes report;
              failed = filter (\<lambda>s. rs_error s \<noteq> None) scopes;
              run = \<lparr> ar_id = co_next_run c, ar_host_id = h_id h, ar_started_at = rr_started_at report,
                ar_finished_at = rr_finished_at report,
                ar_outcome = derive_outcome (length scopes) (length failed),
                ar_entries_seen = (\<Sum>s\<leftarrow>scopes. rs_entries_seen s),
                ar_rows_changed = (\<Sum>s\<leftarrow>scopes. rs_rows_changed s), ar_pushed = rr_pushed report,
                ar_scopes_total = length scopes, ar_scopes_failed = length failed,
                ar_finalized = rr_finalized report, ar_error_summary = error_summary failed,
                ar_agent_version = rr_agent_version report, ar_reported_config = rr_reported_config report,
                ar_created_at = now \<rparr>
          in (Some run, c\<lparr> co_runs := co_runs c @ [run], co_next_run := co_next_run c + 1,
                co_reported := (case rr_reported_config report of None \<Rightarrow> co_reported c
                  | Some cfg \<Rightarrow> dict_set (h_id h) cfg (co_reported c)) \<rparr>))"

text \<open>The rows whose creation time is their host's latest, in the order of the query; the first of a
  host is kept.\<close>

definition latest_rows :: "agent_run list \<Rightarrow> int list \<Rightarrow> agent_run list" where
  "latest_rows runs ids =
     sort_key (\<lambda>r. (ar_host_id r, - ar_id r))
       (filter (\<lambda>r. ar_host_id r \<in> set ids \<and>
          (\<forall>x \<in> set runs. ar_host_id x = ar_host_id r \<longrightarrow> ar_created_at x \<le> ar_created_at r)) runs)"

definition set_default :: "agent_run \<Rightarrow> (int \<times> agent_run) list \<Rightarrow> (int \<times> agent_run) list" where
  "set_default r out = (if dict_get out (ar_host_id r) = None then out @ [(ar_host_id r, r)] else out)"

definition latest_run_by_host :: "agent_run list \<Rightarrow> int list \<Rightarrow> (int \<times> agent_run) list" where
  "latest_run_by_host runs ids = fold set_default (latest_rows runs ids) []"

section \<open>Leases\<close>

record lease_decision =
  ld_granted :: bool
  ld_status :: lease_status
  ld_reason :: "string option"
  ld_retry_after :: "int option"
  ld_blocking_host :: "string option"

definition granted_decision :: lease_decision where
  "granted_decision =
     \<lparr> ld_granted = True, ld_status = LEASE_ACTIVE, ld_reason = None, ld_retry_after = None,
       ld_blocking_host = None \<rparr>"

definition host_is_heavy :: "coordinator_settings \<Rightarrow> int \<Rightarrow> coordination \<Rightarrow> bool" where
  "host_is_heavy cs host_id c =
     (case dict_get (latest_run_by_host (co_runs c) [host_id]) host_id of
        None \<Rightarrow> True
      | Some run \<Rightarrow> cs_heavy_entries cs \<le> ar_entries_seen run)"

definition past_expiry :: "int \<Rightarrow> scan_lease \<Rightarrow> bool" where
  "past_expiry now l \<longleftrightarrow>
     sl_status l = LEASE_ACTIVE \<and> (case sl_expires_at l of None \<Rightarrow> False | Some t \<Rightarrow> t \<le> now)"

definition expire_stale :: "int \<Rightarrow> coordination \<Rightarrow> coordination" where
  "expire_stale now c =
     c\<lparr> co_leases := update_where (past_expiry now) (\<lambda>l. l\<lparr> sl_status := LEASE_EXPIRED \<rparr>) (co_leases c) \<rparr>"

definition holds_lease :: "int \<Rightarrow> scan_lease \<Rightarrow> bool" where
  "holds_lease host_id l \<longleftrightarrow> sl_host_id l = host_id \<and> sl_status l = LEASE_ACTIVE"

definition release_lease :: "int \<Rightarrow> int \<Rightarrow> coordination \<Rightarrow> nat \<times> coordination" where
  "release_lease now host_id c =
     (length (filter (holds_lease host_id) (co_leases c)),
      c\<lparr> co_leases := update_where (holds_lease host_id)
           (\<lambda>l. l\<lparr> sl_status := LEASE_RELEASED, sl_released_at := Some now \<rparr>) (co_leases c) \<rparr>)"

definition add_lease :: "scan_lease \<Rightarrow> coordination \<Rightarrow> coordination" where
  "add_lease l c =
     c\<lparr> co_leases := co_leases c @ [l\<lparr> sl_id := co_next_lease c \<rparr>], co_next_lease := co_next_lease c + 1 \<rparr>"

definition grant_lease :: "coordinator_settings \<Rightarrow> int \<Rightarrow> int \<Rightarrow> bool \<Rightarrow> coordination \<Rightarrow> coordination" where
  "grant_lease cs now host_id heavy =
     add_lease \<lparr> sl_id = 0, sl_host_id = host_id, sl_is_heavy = heavy, sl_status = LEASE_ACTIVE, sl_reason = None,
       sl_blocking_host_id = None, sl_retry_after = None, sl_granted_at = now,
       sl_expires_at = Some (now + cs_lease_ttl cs), sl_released_at = None \<rparr>"

definition active_heavy :: "scan_lease \<Rightarrow> bool" where
  "active_heavy l \<longleftrightarrow> sl_status l = LEASE_ACTIVE \<and> sl_is_heavy l"

definition host_label :: "host list \<Rightarrow> int \<Rightarrow> string" where
  "host_label hs i = (case find_row h_id i hs of None \<Rightarrow> ''host '' @ str_int i | Some h \<Rightarrow> h_name h)"

definition defer_lease ::
  "coordinator_settings \<Rightarrow> int \<Rightarrow> int \<Rightarrow> int \<Rightarrow> coordination \<Rightarrow> lease_decision \<times> coordination" where
  "defer_lease cs now host_id blocking_id c =
     (let blocking = host_label (co_hosts c) blocking_id;
          reason = ''a heavy scan on '' @ blocking @
            '' is in progress; deferring to avoid overloading the core''
      in (\<lparr> ld_granted = False, ld_status = LEASE_DEFERRED, ld_reason = Some reason,
            ld_retry_after = Some (cs_retry_after cs), ld_blocking_host = Some blocking \<rparr>,
          add_lease \<lparr> sl_id = 0, sl_host_id = host_id, sl_is_heavy = True, sl_status = LEASE_DEFERRED,
            sl_reason = Some reason, sl_blocking_host_id = Some blocking_id,
            sl_retry_after = Some (cs_retry_after cs), sl_granted_at = now, sl_expires_at = None,
            sl_released_at = None \<rparr> c))"

text \<open>The decision on the heavy leases that were counted.\<close>

definition decide_lease ::
  "coordinator_settings \<Rightarrow> int \<Rightarrow> int \<Rightarrow> int list \<Rightarrow> coordination \<Rightarrow> lease_decision \<times> coordination" where
  "decide_lease cs now host_id counted c =
     (if length counted < cs_max_concurrent_heavy cs
      then (granted_decision, grant_lease cs now host_id True c)
      else defer_lease cs now host_id (hd counted) c)"

definition counted_heavy :: "coordination \<Rightarrow> int list" where
  "counted_heavy c = map sl_host_id (filter active_heavy (co_leases c))"

definition request_lease ::
  "coordinator_settings \<Rightarrow> int \<Rightarrow> int \<Rightarrow> coordination \<Rightarrow> lease_decision \<times> coordination" where
  "request_lease cs now host_id c =
     (let c = snd (release_lease now host_id (expire_stale now c))
      in if \<not> host_is_heavy cs host_id c then (granted_decision, grant_lease cs now host_id False c)
         else decide_lease cs now host_id (counted_heavy c) c)"

section \<open>Routes and advisories\<close>

definition request_scan_lease ::
  "coordinator_settings \<Rightarrow> int \<Rightarrow> string \<Rightarrow> coordination \<Rightarrow> lease_decision \<times> coordination" where
  "request_scan_lease cs now fp c =
     (if \<not> cs_enabled cs then (granted_decision, c)
      else case find_row h_fingerprint fp (co_hosts c) of
             None \<Rightarrow> (granted_decision, c)
           | Some h \<Rightarrow> request_lease cs now (h_id h) c)"

record run_result =
  rn_run_id :: int
  rn_host_id :: int
  rn_outcome :: string

definition report_run ::
  "coordinator_settings \<Rightarrow> int \<Rightarrow> string \<Rightarrow> run_report \<Rightarrow> coordination \<Rightarrow> run_result \<times> coordination" where
  "report_run cs now fp report c =
     (case record_agent_run now fp report c of
        (None, c) \<Rightarrow> (\<lparr> rn_run_id = 0, rn_host_id = 0, rn_outcome = ''unknown_host'' \<rparr>, c)
      | (Some run, c) \<Rightarrow>
          (\<lparr> rn_run_id = ar_id run, rn_host_id = ar_host_id run, rn_outcome = ar_outcome run \<rparr>,
           if cs_enabled cs then snd (release_lease now (ar_host_id run) c) else c))"

record advisory =
  ad_host_name :: string
  ad_status :: lease_status
  ad_is_heavy :: bool
  ad_reason :: "string option"
  ad_blocking_host :: "string option"
  ad_retry_after :: "int option"
  ad_granted_at :: int

definition advisory_of :: "host list \<Rightarrow> scan_lease \<Rightarrow> host \<Rightarrow> advisory" where
  "advisory_of hs l h =
     \<lparr> ad_host_name = h_name h, ad_status = sl_status l, ad_is_heavy = sl_is_heavy l, ad_reason = sl_reason l,
       ad_blocking_host = (case sl_blocking_host_id l of None \<Rightarrow> None
         | Some i \<Rightarrow> map_option h_name (find_row h_id i hs)),
       ad_retry_after = sl_retry_after l, ad_granted_at = sl_granted_at l \<rparr>"

definition recent_advisories :: "scope_filter option \<Rightarrow> nat \<Rightarrow> coordination \<Rightarrow> advisory list" where
  "recent_advisories scope limit c =
     (let rows = sort_key (\<lambda>l. (- sl_granted_at l, - sl_id l)) (co_leases c);
          rows = (case scope of None \<Rightarrow> rows | Some f \<Rightarrow> scope_apply f (Some (Some \<circ> sl_host_id)) None None rows);
          joined = List.map_filter (\<lambda>l. map_option (\<lambda>h. advisory_of (co_hosts c) l h)
            (find_row h_id (sl_host_id l) (co_hosts c))) rows
      in take limit joined)"

section \<open>Reachable states\<close>

datatype coord_event =
  Ask_Lease string int
| Report_Run string run_report int
| Host_Registered host

fun coord_step :: "coordinator_settings \<Rightarrow> coord_event \<Rightarrow> coordination \<Rightarrow> coordination" where
  "coord_step cs (Ask_Lease fp now) c = snd (request_scan_lease cs now fp c)"
| "coord_step cs (Report_Run fp report now) c = snd (report_run cs now fp report c)"
| "coord_step cs (Host_Registered h) c = c\<lparr> co_hosts := co_hosts c @ [h] \<rparr>"

inductive coord_reachable :: "coordinator_settings \<Rightarrow> coordination \<Rightarrow> bool" for cs where
  start: "co_leases c = [] \<Longrightarrow> co_runs c = [] \<Longrightarrow> coord_reachable cs c"
| step: "coord_reachable cs c \<Longrightarrow> coord_reachable cs (coord_step cs ev c)"

inductive_cases coord_reachableE: "coord_reachable cs c"

section \<open>The bound on heavy leases\<close>

definition active_leases :: "coordination \<Rightarrow> scan_lease list" where
  "active_leases c = filter (\<lambda>l. sl_status l = LEASE_ACTIVE) (co_leases c)"

text \<open>No host holds two active leases, and the heavy ones are within the bound.\<close>

definition leases_ok :: "coordinator_settings \<Rightarrow> coordination \<Rightarrow> bool" where
  "leases_ok cs c \<longleftrightarrow>
     distinct (map sl_host_id (active_leases c)) \<and>
     length (filter active_heavy (co_leases c)) \<le> cs_max_concurrent_heavy cs"

lemma filter_update_where_off:
  assumes "\<And>x. P x \<Longrightarrow> \<not> Q (f x)"
  shows "filter Q (update_where P f xs) = filter (\<lambda>x. Q x \<and> \<not> P x) xs"
  using assms by (induction xs) (auto simp: update_where_def)

lemma active_expire: "active_leases (expire_stale now c) = filter (\<lambda>l. \<not> past_expiry now l) (active_leases c)"
  unfolding active_leases_def expire_stale_def
  by (simp add: filter_update_where_off conj_commute)

lemma active_release:
  "active_leases (snd (release_lease now h c)) = filter (\<lambda>l. sl_host_id l \<noteq> h) (active_leases c)"
  unfolding active_leases_def release_lease_def
  by (simp add: filter_update_where_off holds_lease_def) (rule filter_cong; auto)

lemma heavy_of_active: "filter active_heavy (co_leases c) = filter sl_is_heavy (active_leases c)"
  unfolding active_leases_def filter_filter by (rule filter_cong) (auto simp: active_heavy_def)

lemma active_add:
  "active_leases (add_lease l c) = active_leases c @ (if sl_status l = LEASE_ACTIVE then [l\<lparr> sl_id := co_next_lease c \<rparr>] else [])"
  by (simp add: active_leases_def add_lease_def)

lemma length_filter_both: "length (filter (\<lambda>x. P x \<and> Q x) xs) \<le> length (filter Q xs)"
  by (induction xs) auto

lemma leases_ok_filter:
  assumes "leases_ok cs c" "active_leases c' = filter P (active_leases c)"
  shows "leases_ok cs c'"
proof -
  have "length (filter sl_is_heavy (active_leases c')) \<le> length (filter sl_is_heavy (active_leases c))"
    unfolding assms(2) filter_filter by (rule length_filter_both)
  then show ?thesis
    using assms(1) unfolding leases_ok_def heavy_of_active
    by (auto simp: assms(2) distinct_map_filter)
qed

lemma leases_ok_release: "leases_ok cs c \<Longrightarrow> leases_ok cs (snd (release_lease now h c))"
  by (rule leases_ok_filter [OF _ active_release])

lemma leases_ok_expire: "leases_ok cs c \<Longrightarrow> leases_ok cs (expire_stale now c)"
  by (rule leases_ok_filter [OF _ active_expire])

lemma leases_ok_same: "co_leases c' = co_leases c \<Longrightarrow> leases_ok cs c' = leases_ok cs c"
  by (simp add: leases_ok_def active_leases_def)

lemma leases_ok_grant:
  assumes "leases_ok cs c" "h \<notin> sl_host_id ` set (active_leases c)"
    and "heavy \<Longrightarrow> length (counted_heavy c) < cs_max_concurrent_heavy cs"
  shows "leases_ok cs (grant_lease cs now h heavy c)"
  using assms unfolding leases_ok_def heavy_of_active grant_lease_def active_add
  by (auto simp: counted_heavy_def heavy_of_active)

lemma leases_ok_defer: "leases_ok cs (snd (defer_lease cs now h b c)) = leases_ok cs c"
  unfolding leases_ok_def heavy_of_active defer_lease_def by (simp add: Let_def active_add)

lemma leases_ok_request:
  assumes "leases_ok cs c"
  shows "leases_ok cs (snd (request_lease cs now h c))"
proof -
  let ?c = "snd (release_lease now h (expire_stale now c))"
  have ok: "leases_ok cs ?c" by (intro leases_ok_release leases_ok_expire assms)
  have "h \<notin> sl_host_id ` set (active_leases ?c)" unfolding active_release by auto
  with ok show ?thesis
    by (auto simp: request_lease_def Let_def decide_lease_def leases_ok_defer intro!: leases_ok_grant)
qed

lemma record_run_leases: "co_leases (snd (record_agent_run now fp report c)) = co_leases c"
  by (simp add: record_agent_run_def Let_def split: option.splits)

lemma leases_ok_step: "leases_ok cs c \<Longrightarrow> leases_ok cs (coord_step cs ev c)"
proof (cases ev)
  case (Ask_Lease fp now)
  assume "leases_ok cs c"
  then show ?thesis
    by (auto simp: Ask_Lease request_scan_lease_def leases_ok_request split: option.splits)
next
  case (Report_Run fp report now)
  assume "leases_ok cs c"
  then have "leases_ok cs (snd (record_agent_run now fp report c))"
    using leases_ok_same [OF record_run_leases] by blast
  then show ?thesis
    by (auto simp: Report_Run report_run_def leases_ok_release split: prod.splits option.splits)
next
  case (Host_Registered h)
  assume "leases_ok cs c"
  then show ?thesis using leases_ok_same [of "coord_step cs ev c" c cs] by (simp add: Host_Registered)
qed

lemma reachable_leases_ok: "coord_reachable cs c \<Longrightarrow> leases_ok cs c"
proof (induction rule: coord_reachable.induct)
  case (start c)
  then show ?case by (simp add: leases_ok_def active_leases_def)
next
  case (step c ev)
  then show ?case by (simp add: leases_ok_step)
qed


section \<open>A run\<close>

definition lease_host :: "int \<Rightarrow> string \<Rightarrow> host" where
  "lease_host i n = \<lparr> h_id = i, h_name = n, h_os = None, h_agent_version = None, h_fingerprint = n, h_last_seen = None,
     h_facts = None \<rparr>"

definition lease_settings :: coordinator_settings where
  "lease_settings = \<lparr> cs_enabled = True, cs_max_concurrent_heavy = 1, cs_heavy_entries = 100, cs_lease_ttl = 60,
     cs_retry_after = 30 \<rparr>"

definition lease_start :: coordination where
  "lease_start = \<lparr> co_hosts = [lease_host 1 ''nas'', lease_host 2 ''node''], co_reported = [], co_leases = [],
     co_runs = [], co_next_lease = 1, co_next_run = 1 \<rparr>"

definition lease_busy :: coordination where
  "lease_busy = coord_step lease_settings (Ask_Lease ''nas'' 0) lease_start"

lemma lease_busy_reachable: "coord_reachable lease_settings lease_busy"
  unfolding lease_busy_def by (intro coord_reachable.intros) (simp_all add: lease_start_def)

lemma sample_deferral:
  "ld_blocking_host (fst (request_lease lease_settings 10 2 lease_busy)) = Some ''nas'' \<and>
   \<not> ld_granted (fst (request_lease lease_settings 10 2 lease_busy)) \<and>
   ld_granted (fst (request_lease lease_settings 60 2 lease_busy))"
  by code_simp


section \<open>Where the coordinator falls short of its description\<close>

text \<open>A host that has never ingested has no row yet: its first scan, which the settings say is always
  heavy, is granted without a lease.\<close>

lemma first_scan_uncoordinated:
  assumes "find_row h_fingerprint fp (co_hosts c) = None"
  shows "request_scan_lease cs now fp c = (granted_decision, c)"
  using assms by (simp add: request_scan_lease_def)

text \<open>Two requests that both count before either writes are both granted.\<close>

lemma stale_count_exceeds:
  assumes "cs_max_concurrent_heavy cs = 1" "co_leases c = []"
  shows "length (filter active_heavy (co_leases (snd (decide_lease cs now 2 (counted_heavy c)
    (snd (decide_lease cs now 1 (counted_heavy c) c)))))) = 2"
  using assms by (simp add: decide_lease_def counted_heavy_def grant_lease_def add_lease_def active_heavy_def)

text \<open>An advisory of a host in scope names the host that blocks it, in scope or not.\<close>

lemma advisory_names_blocker:
  assumes "co_leases c = [l]" "sl_host_id l = h_id h" "find_row h_id (h_id h) (co_hosts c) = Some h"
    and "sl_blocking_host_id l = Some (h_id b)" "find_row h_id (h_id b) (co_hosts c) = Some b"
    and "h_id b \<noteq> h_id h"
  shows "map ad_blocking_host (recent_advisories
    (Some \<lparr> is_global = False, host_ids = {h_id h}, volume_ids = {} \<rparr>) 50 c) = [Some (h_name b)]"
  using assms by (simp add: recent_advisories_def scope_apply_def sql_in_def advisory_of_def map_filter_def Let_def)

end
