(* ===== verification/Tree_Walk.thy ===== *)
theory Tree_Walk
  imports Paths
begin

text \<open>
  The metadata walk of a local tree (\<open>backends/posix.py\<close>): workers take directories from a queue, report
  their entries and put the sub-directories to visit back. The tree is what the directory reads deliver
  and does not change during a walk; a directory that cannot be listed and an entry that cannot be
  \<open>stat\<close>ed are marked in it. Symbolic links are not followed: no caller asks for it. The hooks of the
  subclasses are parameters (\<open>wc_skip\<close>, \<open>wc_annotate\<close>). File times are as in the catalogue.
\<close>

section \<open>Trees and entries\<close>

record stat_result =
  st_is_dir :: bool
  st_is_link :: bool
  st_size :: int
  st_blocks :: "int option"
  st_mtime :: int
  st_ctime :: int
  st_uid :: int
  st_gid :: int
  st_ino :: int
  st_dev :: int

text \<open>A name, what \<open>lstat\<close> answers, and what listing it delivers (nothing for what is no directory or
  cannot be read).\<close>

datatype fs_tree = Fs_Node (node_name: string) (node_stat: "stat_result option") (node_list: "fs_tree list")

record scan_entry =
  se_path :: string
  se_name :: string
  se_is_dir :: bool
  se_is_symlink :: bool
  se_size_logical :: int
  se_size_on_disk :: int
  se_mtime :: int
  se_ctime :: int
  se_uid :: int
  se_gid :: int
  se_inode :: int
  se_dev :: int
  se_flags :: "(string \<times> bool) list"

definition U64 :: int where "U64 = 2 ^ 64"
definition I64_MAX :: int where "I64_MAX = 2 ^ 63 - 1"

definition to_signed64 :: "int \<Rightarrow> int" where
  "to_signed64 x = (if I64_MAX < x then x - U64 else x)"

record walk_config =
  wc_one_filesystem :: bool
  wc_excluded :: "string list"
  wc_skip :: "string \<Rightarrow> string \<Rightarrow> bool"
  wc_annotate :: "string \<Rightarrow> string \<Rightarrow> stat_result \<Rightarrow> (string \<times> bool) list \<Rightarrow> (string \<times> bool) list"

definition normalise_excludes :: "string list \<Rightarrow> string list" where
  "normalise_excludes exclude = remdups (map normpath (filter (\<lambda>e. e \<noteq> []) exclude))"

definition is_excluded_path :: "string \<Rightarrow> string list \<Rightarrow> bool" where
  "is_excluded_path path excluded \<longleftrightarrow>
     (let p = normpath path in \<exists>e \<in> set excluded. p = e \<or> startswith p (e @ ''/''))"

text \<open>\<open>os.path.join(path, name)\<close>, the path of a directory entry.\<close>

definition join_name :: "string \<Rightarrow> string \<Rightarrow> string" where
  "join_name path name = (if path = [] \<or> last path = CHR ''/'' then path @ name else path @ ''/'' @ name)"

definition entry_of :: "walk_config \<Rightarrow> string \<Rightarrow> string \<Rightarrow> stat_result \<Rightarrow> scan_entry" where
  "entry_of cfg path name st =
     (let on_disk = (case st_blocks st of None \<Rightarrow> st_size st | Some b \<Rightarrow> b * 512);
          sparse = \<not> st_is_dir st \<and> \<not> st_is_link st \<and> on_disk < st_size st
      in \<lparr> se_path = path, se_name = name, se_is_dir = st_is_dir st, se_is_symlink = st_is_link st,
           se_size_logical = st_size st, se_size_on_disk = on_disk, se_mtime = st_mtime st,
           se_ctime = st_ctime st, se_uid = st_uid st, se_gid = st_gid st,
           se_inode = to_signed64 (st_ino st), se_dev = to_signed64 (st_dev st),
           se_flags = wc_annotate cfg path name st (if sparse then [(''sparse'', True)] else []) \<rparr>)"

section \<open>One directory\<close>

definition should_descend :: "walk_config \<Rightarrow> int \<Rightarrow> stat_result \<Rightarrow> bool" where
  "should_descend cfg root_dev st \<longleftrightarrow>
     st_is_dir st \<and> \<not> st_is_link st \<and> (wc_one_filesystem cfg \<longrightarrow> st_dev st = root_dev)"

text \<open>What the loop does with one entry: report it, and visit it later.\<close>

definition reported :: "walk_config \<Rightarrow> string \<Rightarrow> fs_tree \<Rightarrow> stat_result option" where
  "reported cfg path t =
     (if is_excluded_path (join_name path (node_name t)) (wc_excluded cfg) then None else node_stat t)"

definition visited :: "walk_config \<Rightarrow> int \<Rightarrow> string \<Rightarrow> fs_tree \<Rightarrow> bool" where
  "visited cfg root_dev path t \<longleftrightarrow>
     (case reported cfg path t of None \<Rightarrow> False
      | Some st \<Rightarrow> \<not> wc_skip cfg (join_name path (node_name t)) (node_name t) \<and> should_descend cfg root_dev st)"

fun scan_dir ::
  "walk_config \<Rightarrow> int \<Rightarrow> string \<Rightarrow> fs_tree list \<Rightarrow> scan_entry list \<times> (string \<times> fs_tree list) list" where
  "scan_dir cfg root_dev path [] = ([], [])"
| "scan_dir cfg root_dev path (t # ts) =
     (case scan_dir cfg root_dev path ts of (entries, subdirs) \<Rightarrow>
        ((case reported cfg path t of None \<Rightarrow> entries
          | Some st \<Rightarrow> entry_of cfg (join_name path (node_name t)) (node_name t) st # entries),
         (if visited cfg root_dev path t
          then (join_name path (node_name t), node_list t) # subdirs else subdirs)))"

section \<open>The queue\<close>

text \<open>Any worker may take any directory next: a step removes it and reports its entries.\<close>

type_synonym walk_state = "(string \<times> fs_tree list) list \<times> scan_entry list"

inductive walk_step :: "walk_config \<Rightarrow> int \<Rightarrow> walk_state \<Rightarrow> walk_state \<Rightarrow> bool" for cfg root_dev where
  take_dir: "scan_dir cfg root_dev path ts = (found, subdirs) \<Longrightarrow>
    walk_step cfg root_dev (before @ (path, ts) # later, out) (before @ later @ subdirs, out @ found)"

inductive_cases walk_stepE: "walk_step cfg root_dev s s'"

text \<open>The weight of the work that is left.\<close>

fun tree_weight :: "fs_tree \<Rightarrow> nat" where
  "tree_weight (Fs_Node name st ts) = Suc (sum_list (map tree_weight ts))"

definition work_weight :: "(string \<times> fs_tree list) list \<Rightarrow> nat" where
  "work_weight work = sum_list (map (\<lambda>(path, ts). Suc (sum_list (map tree_weight ts))) work)"

lemma tree_weight_node: "tree_weight t = Suc (sum_list (map tree_weight (node_list t)))"
  by (cases t) simp

lemma work_weight_simps [simp]:
  "work_weight [] = 0"
  "work_weight (w # ws) = Suc (sum_list (map tree_weight (snd w))) + work_weight ws"
  "work_weight (ws @ vs) = work_weight ws + work_weight vs"
  by (simp_all add: work_weight_def case_prod_beta)

lemma scan_dir_weight: "work_weight (snd (scan_dir cfg root_dev path ts)) \<le> sum_list (map tree_weight ts)"
proof (induction ts)
  case (Cons t ts)
  then show ?case by (auto simp: tree_weight_node [of t] split: prod.splits)
qed simp

text \<open>One worker, first in first out.\<close>

function walk_all :: "walk_config \<Rightarrow> int \<Rightarrow> (string \<times> fs_tree list) list \<Rightarrow> scan_entry list" where
  "walk_all cfg root_dev [] = []"
| "walk_all cfg root_dev ((path, ts) # work) =
     fst (scan_dir cfg root_dev path ts) @ walk_all cfg root_dev (work @ snd (scan_dir cfg root_dev path ts))"
  by pat_completeness auto

termination
proof (relation "measure (\<lambda>(cfg, root_dev, work). work_weight work)")
  fix cfg root_dev path ts work
  show "((cfg, root_dev, work @ snd (scan_dir cfg root_dev path ts)), cfg, root_dev, (path, ts) # work)
      \<in> measure (\<lambda>(cfg, root_dev, work). work_weight work)"
    using scan_dir_weight [of cfg root_dev path ts] by simp
qed simp

text \<open>\<open>walk\<close> below a resolved root.\<close>

definition walk :: "walk_config \<Rightarrow> string \<Rightarrow> fs_tree \<Rightarrow> scan_entry list" where
  "walk cfg root_real t =
     (if is_excluded_path root_real (wc_excluded cfg) then []
      else case node_stat t of None \<Rightarrow> []
        | Some st \<Rightarrow>
            entry_of cfg root_real (case path_name (path_of root_real) of [] \<Rightarrow> root_real | n \<Rightarrow> n) st #
            walk_all cfg (st_dev st) [(root_real, node_list t)])"

section \<open>The tree in order\<close>

text \<open>The reference: a recursion over the tree.\<close>

fun tree_entries :: "walk_config \<Rightarrow> int \<Rightarrow> string \<Rightarrow> fs_tree \<Rightarrow> scan_entry list" where
  "tree_entries cfg root_dev path (Fs_Node name st ts) =
     (case reported cfg path (Fs_Node name st ts) of None \<Rightarrow> []
      | Some st' \<Rightarrow>
          entry_of cfg (join_name path name) name st' #
          (if visited cfg root_dev path (Fs_Node name st ts)
           then concat (map (tree_entries cfg root_dev (join_name path name)) ts) else []))"

definition dir_entries :: "walk_config \<Rightarrow> int \<Rightarrow> string \<times> fs_tree list \<Rightarrow> scan_entry list" where
  "dir_entries cfg root_dev w = concat (map (tree_entries cfg root_dev (fst w)) (snd w))"

definition left_entries :: "walk_config \<Rightarrow> int \<Rightarrow> (string \<times> fs_tree list) list \<Rightarrow> scan_entry multiset" where
  "left_entries cfg root_dev work = mset (concat (map (dir_entries cfg root_dev) work))"

lemma left_entries_simps [simp]:
  "left_entries cfg root_dev [] = {#}"
  "left_entries cfg root_dev (w # ws) = mset (dir_entries cfg root_dev w) + left_entries cfg root_dev ws"
  "left_entries cfg root_dev (ws @ vs) = left_entries cfg root_dev ws + left_entries cfg root_dev vs"
  by (simp_all add: left_entries_def)

lemma tree_entries_node:
  "tree_entries cfg root_dev path t =
     (case reported cfg path t of None \<Rightarrow> []
      | Some st \<Rightarrow> entry_of cfg (join_name path (node_name t)) (node_name t) st #
          (if visited cfg root_dev path t
           then dir_entries cfg root_dev (join_name path (node_name t), node_list t) else []))"
  by (cases t) (simp add: dir_entries_def split: option.splits)

lemma scan_dir_entries:
  "mset (dir_entries cfg root_dev (path, ts)) =
     mset (fst (scan_dir cfg root_dev path ts)) + left_entries cfg root_dev (snd (scan_dir cfg root_dev path ts))"
proof (induction ts)
  case (Cons t ts)
  have "mset (dir_entries cfg root_dev (path, t # ts)) =
      mset (tree_entries cfg root_dev path t) + mset (dir_entries cfg root_dev (path, ts))"
    by (simp add: dir_entries_def)
  also have "\<dots> = mset (fst (scan_dir cfg root_dev path (t # ts))) +
      left_entries cfg root_dev (snd (scan_dir cfg root_dev path (t # ts)))"
    unfolding Cons.IH tree_entries_node
    by (cases "scan_dir cfg root_dev path ts") (auto simp: visited_def split: option.splits)
  finally show ?case .
qed (simp add: dir_entries_def)

lemma walk_step_keeps:
  assumes "walk_step cfg root_dev (work, out) (work', out')"
  shows "mset out' + left_entries cfg root_dev work' = mset out + left_entries cfg root_dev work"
    and "work_weight work' < work_weight work"
proof -
  from assms obtain before path ts later found subdirs where
    s: "scan_dir cfg root_dev path ts = (found, subdirs)" "work = before @ (path, ts) # later"
      "work' = before @ later @ subdirs" "out' = out @ found"
    by (auto elim: walk_stepE)
  have "mset (dir_entries cfg root_dev (path, ts)) = mset found + left_entries cfg root_dev subdirs"
    using scan_dir_entries [of cfg root_dev path ts] s(1) by simp
  then show "mset out' + left_entries cfg root_dev work' = mset out + left_entries cfg root_dev work"
    by (simp add: s)
  have "work_weight subdirs \<le> sum_list (map tree_weight ts)"
    using scan_dir_weight [of cfg root_dev path ts] s(1) by simp
  then show "work_weight work' < work_weight work" by (simp add: s)
qed

lemma walk_steps_keep:
  assumes "(walk_step cfg root_dev)\<^sup>*\<^sup>* (work, out) (work', out')"
  shows "mset out' + left_entries cfg root_dev work' = mset out + left_entries cfg root_dev work"
  using assms
proof (induction rule: rtranclp_induct2)
  case (step w o' w' o'')
  then show ?case using walk_step_keeps(1) by metis
qed simp

lemma walk_step_wf: "wfP (\<lambda>s' s. walk_step cfg root_dev s s')"
proof (rule wfp_if_convertible_to_nat [where f = "\<lambda>s. work_weight (fst s)"])
  fix s' s :: walk_state
  assume "walk_step cfg root_dev s s'"
  then show "work_weight (fst s') < work_weight (fst s)" using walk_step_keeps(2) by (cases s; cases s') auto
qed

lemma walk_step_live: "work \<noteq> [] \<Longrightarrow> \<exists>s'. walk_step cfg root_dev (work, out) s'"
proof -
  assume "work \<noteq> []"
  then obtain path ts later where w: "work = (path, ts) # later" by (cases work) auto
  obtain found subdirs where "scan_dir cfg root_dev path ts = (found, subdirs)" by (meson surj_pair)
  from take_dir [OF this, of "[]" later out] show ?thesis unfolding w by auto
qed

lemma walk_all_run: "(walk_step cfg root_dev)\<^sup>*\<^sup>* (work, out) ([], out @ walk_all cfg root_dev work)"
proof (induction cfg root_dev work arbitrary: out rule: walk_all.induct)
  case (2 cfg root_dev path ts work)
  obtain found subdirs where f: "scan_dir cfg root_dev path ts = (found, subdirs)" by (meson surj_pair)
  have "walk_step cfg root_dev ((path, ts) # work, out) (work @ subdirs, out @ found)"
    using take_dir [OF f, of "[]" work out] by simp
  moreover have "(walk_step cfg root_dev)\<^sup>*\<^sup>* (work @ subdirs, out @ found) ([], out @ walk_all cfg root_dev ((path, ts) # work))"
    using "2.IH" [of "out @ found"] by (simp add: f)
  ultimately show ?case by (rule converse_rtranclp_into_rtranclp)
qed simp

lemma walk_all_entries: "mset (walk_all cfg root_dev work) = left_entries cfg root_dev work"
  using walk_steps_keep [OF walk_all_run [of cfg root_dev work "[]"]] by simp

text \<open>A path and what lies under it.\<close>

definition dir_slash :: "string \<Rightarrow> string" where
  "dir_slash path = (if path = [] \<or> last path = CHR ''/'' then path else path @ ''/'')"

lemma join_name_slash: "join_name path name = dir_slash path @ name"
  by (simp add: join_name_def dir_slash_def)

lemma dir_slash_mono: "prefix (dir_slash path) (dir_slash (join_name path name))"
  by (auto simp: join_name_slash dir_slash_def)

lemma entry_of_path [simp]: "se_path (entry_of cfg path name st) = path"
  by (simp add: entry_of_def Let_def)

lemma tree_entries_confined:
  "e \<in> set (tree_entries cfg root_dev path t) \<Longrightarrow>
    \<not> is_excluded_path (se_path e) (wc_excluded cfg) \<and> startswith (se_path e) (dir_slash path)"
proof (induction cfg root_dev path t arbitrary: e rule: tree_entries.induct)
  case (1 cfg root_dev path name st ts)
  from "1.prems" obtain st' where r: "reported cfg path (Fs_Node name st ts) = Some st'"
    by (cases "reported cfg path (Fs_Node name st ts)") simp_all
  then have ok: "\<not> is_excluded_path (join_name path name) (wc_excluded cfg)"
    by (auto simp: reported_def split: if_splits)
  from "1.prems" r consider "e = entry_of cfg (join_name path name) name st'"
    | u where "visited cfg root_dev path (Fs_Node name st ts)" "u \<in> set ts"
        "e \<in> set (tree_entries cfg root_dev (join_name path name) u)"
    by (auto split: if_splits)
  then show ?case
  proof cases
    case 1
    then show ?thesis using ok by (simp add: join_name_slash)
  next
    case 2
    from "1.IH" [OF r 2(1,2,3)] show ?thesis using dir_slash_mono prefix_order.trans by blast
  qed
qed

text \<open>C29. However many workers take directories from the queue, and in whatever order, the walk ends, and
  what it has reported is then exactly the reference listing of the tree, each entry as often: every
  entry that can be read, outside the excluded prefixes, of every directory that can be reached through
  real directories of the root's file system. Nothing it reports lies outside the root.\<close>

theorem walk_complete:
  shows "wfP (\<lambda>s' s. walk_step cfg root_dev s s') \<and>
    (\<forall>work' out'. (walk_step cfg root_dev)\<^sup>*\<^sup>* ([(root_path, ts)], []) (work', out') \<longrightarrow>
       (work' \<noteq> [] \<longrightarrow> (\<exists>s'. walk_step cfg root_dev (work', out') s')) \<and>
       (work' = [] \<longrightarrow> mset out' = mset (concat (map (tree_entries cfg root_dev root_path) ts)) \<and>
          (\<forall>e \<in> set out'. \<not> is_excluded_path (se_path e) (wc_excluded cfg) \<and>
             startswith (se_path e) (dir_slash root_path))))"
proof (intro conjI allI impI)
  show "wfP (\<lambda>s' s. walk_step cfg root_dev s s')" by (rule walk_step_wf)
next
  fix work' :: "(string \<times> fs_tree list) list" and out' :: "scan_entry list"
  assume run: "(walk_step cfg root_dev)\<^sup>*\<^sup>* ([(root_path, ts)], []) (work', out')"
  show "\<exists>s'. walk_step cfg root_dev (work', out') s'" if "work' \<noteq> []" using that by (rule walk_step_live)
  assume "work' = []"
  then have m: "mset out' = mset (concat (map (tree_entries cfg root_dev root_path) ts))"
    using walk_steps_keep [OF run] by (simp add: dir_entries_def)
  then show "mset out' = mset (concat (map (tree_entries cfg root_dev root_path) ts))" .
  show "\<forall>e \<in> set out'. \<not> is_excluded_path (se_path e) (wc_excluded cfg) \<and>
      startswith (se_path e) (dir_slash root_path)"
    using mset_eq_setD [OF m] tree_entries_confined by fastforce
qed

section \<open>Identities\<close>

text \<open>The numbers that identify a file fit the signed 64-bit columns they are stored in, and stay
  distinct.\<close>

theorem identity_fits_and_stays_distinct:
  assumes "0 \<le> x" "x < 2 ^ 64" "0 \<le> y" "y < 2 ^ 64"
  shows "- (2 ^ 63) \<le> to_signed64 x \<and> to_signed64 x < 2 ^ 63 \<and> (to_signed64 x = to_signed64 y \<longleftrightarrow> x = y)"
  using assms by (auto simp: to_signed64_def U64_def I64_MAX_def)

theorem identity_fits_and_stays_distinct_witness:
  "to_signed64 (2 ^ 64 - 1) < 2 ^ 63 \<and> to_signed64 (2 ^ 64 - 1) \<noteq> to_signed64 7"
  using identity_fits_and_stays_distinct [of "2 ^ 64 - 1" 7] by simp

section \<open>A run\<close>

definition sample_stat :: "bool \<Rightarrow> int \<Rightarrow> int \<Rightarrow> stat_result" where
  "sample_stat d i dev = \<lparr> st_is_dir = d, st_is_link = False, st_size = 10, st_blocks = Some 1, st_mtime = 5,
     st_ctime = 5, st_uid = 0, st_gid = 0, st_ino = i, st_dev = dev \<rparr>"

definition sample_walk_config :: walk_config where
  "sample_walk_config = \<lparr> wc_one_filesystem = True, wc_excluded = [''/d/tmp''], wc_skip = (\<lambda>_ _. False),
     wc_annotate = (\<lambda>_ _ _ f. f) \<rparr>"

definition sample_listing :: "fs_tree list" where
  "sample_listing =
     [Fs_Node ''a'' (Some (sample_stat True 2 1)) [Fs_Node ''f'' (Some (sample_stat False 3 1)) []],
      Fs_Node ''tmp'' (Some (sample_stat True 4 1)) [Fs_Node ''x'' (Some (sample_stat False 5 1)) []],
      Fs_Node ''mnt'' (Some (sample_stat True 2 9)) [Fs_Node ''y'' (Some (sample_stat False 3 9)) []],
      Fs_Node ''gone'' None []]"

lemma sample_walk:
  "map se_path (walk_all sample_walk_config 1 [(''/d'', sample_listing)]) = [''/d/a'', ''/d/mnt'', ''/d/a/f'']"
  by code_simp

theorem walk_complete_witness:
  "mset (walk_all sample_walk_config 1 [(''/d'', sample_listing)]) =
     mset (concat (map (tree_entries sample_walk_config 1 ''/d'') sample_listing))"
proof -
  have "(walk_step sample_walk_config 1)\<^sup>*\<^sup>* ([(''/d'', sample_listing)], [])
      ([], [] @ walk_all sample_walk_config 1 [(''/d'', sample_listing)])"
    by (rule walk_all_run)
  then show ?thesis
    using walk_complete [of sample_walk_config 1 "''/d''" sample_listing] by (simp del: walk_all.simps)
qed

end
