(* ===== verification/Staging.thy ===== *)
theory Staging
  imports Tree_Walk Catalogue Like
begin

text \<open>
  The agent's staging queue (\<open>agent/staging/store.py\<close>, \<open>schema.sql\<close>): scan runs, staged entries and
  staged removals, and the queries the scanners and the push client ask. A call holds the lock and is one
  transaction. A table is a list in the order of its \<open>rowid\<close>; the JSON columns are the values they encode.
\<close>

section \<open>Tables\<close>

record volume_info =
  vi_mountpoint :: string
  vi_fs_type :: string
  vi_total :: int
  vi_used :: int
  vi_free :: int
  vi_device :: string
  vi_transport :: string
  vi_raid_role :: "string option"
  vi_dataset :: "string option"
  vi_display_name :: "string option"

record warning_ack =
  wa_operator :: string
  wa_acknowledged_at :: int
  wa_target :: string
  wa_mode :: string

record scan_run =
  sr_id :: int
  sr_host_id :: string
  sr_volume_id :: string
  sr_mode :: string
  sr_root :: string
  sr_started_at :: int
  sr_finished_at :: "int option"
  sr_entry_count :: nat
  sr_warning_ack :: "warning_ack option"
  sr_volume :: "volume_info option"

record staged_entry =
  sg_host_id :: string
  sg_volume_id :: string
  sg_entry :: scan_entry
  sg_partial_hash :: "string option"
  sg_full_hash :: "string option"
  sg_run :: int
  sg_pushed :: bool

record staged_removal =
  rv_host_id :: string
  rv_volume_id :: string
  rv_dev :: int
  rv_inode :: int
  rv_path :: string
  rv_run :: int
  rv_pushed :: bool

record staging =
  sq_runs :: "scan_run list"
  sq_next_run :: int
  sq_entries :: "staged_entry list"
  sq_removals :: "staged_removal list"

type_synonym stage_key = "string \<times> string \<times> int \<times> int"

definition staged_key :: "staged_entry \<Rightarrow> stage_key" where
  "staged_key e = (sg_host_id e, sg_volume_id e, se_dev (sg_entry e), se_inode (sg_entry e))"

definition removal_key :: "staged_removal \<Rightarrow> stage_key" where
  "removal_key r = (rv_host_id r, rv_volume_id r, rv_dev r, rv_inode r)"

definition empty_staging :: staging where
  "empty_staging = \<lparr> sq_runs = [], sq_next_run = 1, sq_entries = [], sq_removals = [] \<rparr>"

section \<open>Runs\<close>

definition start_run ::
  "string \<Rightarrow> string \<Rightarrow> string \<Rightarrow> string \<Rightarrow> int \<Rightarrow> warning_ack option \<Rightarrow> volume_info option \<Rightarrow> staging \<Rightarrow>
   int \<times> staging" where
  "start_run host_id volume_id mode root_path started_at ack volume s =
     (sq_next_run s,
      s\<lparr> sq_runs := sq_runs s @ [\<lparr> sr_id = sq_next_run s, sr_host_id = host_id, sr_volume_id = volume_id,
           sr_mode = mode, sr_root = root_path, sr_started_at = started_at, sr_finished_at = None,
           sr_entry_count = 0, sr_warning_ack = ack, sr_volume = volume \<rparr>],
         sq_next_run := sq_next_run s + 1 \<rparr>)"

definition finish_run :: "int \<Rightarrow> int \<Rightarrow> nat \<Rightarrow> staging \<Rightarrow> staging" where
  "finish_run run_id finished_at entry_count s =
     s\<lparr> sq_runs := update_where (\<lambda>r. sr_id r = run_id)
          (\<lambda>r. r\<lparr> sr_finished_at := Some finished_at, sr_entry_count := entry_count \<rparr>) (sq_runs s) \<rparr>"

definition has_baseline_run :: "string \<Rightarrow> string \<Rightarrow> staging \<Rightarrow> bool" where
  "has_baseline_run host_id volume_id s \<longleftrightarrow>
     (\<exists>r \<in> set (sq_runs s). sr_host_id r = host_id \<and> sr_volume_id r = volume_id \<and> sr_mode r = ''metadata'' \<and>
        sr_finished_at r \<noteq> None)"

section \<open>Staging entries and removals\<close>

text \<open>\<open>INSERT ... ON CONFLICT (key) DO UPDATE SET ... WHERE guard\<close>, with the count of rows written.\<close>

definition upsert_row ::
  "('a \<Rightarrow> 'k) \<Rightarrow> ('a \<Rightarrow> 'a \<Rightarrow> bool) \<Rightarrow> ('a \<Rightarrow> 'a \<Rightarrow> 'a) \<Rightarrow> 'a \<Rightarrow> nat \<times> 'a list \<Rightarrow> nat \<times> 'a list" where
  "upsert_row key guard overwrite new nrows =
     (case nrows of (n, rows) \<Rightarrow>
        (case find_row key (key new) rows of
           None \<Rightarrow> (Suc n, rows @ [new])
         | Some old \<Rightarrow>
             if guard new old then (Suc n, update_where (\<lambda>r. key r = key new) (overwrite new) rows)
             else (n, rows)))"

definition upsert_rows ::
  "('a \<Rightarrow> 'k) \<Rightarrow> ('a \<Rightarrow> 'a \<Rightarrow> bool) \<Rightarrow> ('a \<Rightarrow> 'a \<Rightarrow> 'a) \<Rightarrow> 'a list \<Rightarrow> 'a list \<Rightarrow> nat \<times> 'a list" where
  "upsert_rows key guard overwrite news rows = fold (upsert_row key guard overwrite) news (0, rows)"

definition stage_guard :: "staged_entry \<Rightarrow> staged_entry \<Rightarrow> bool" where
  "stage_guard new old \<longleftrightarrow>
     se_mtime (sg_entry new) \<noteq> se_mtime (sg_entry old) \<or>
     se_size_logical (sg_entry new) \<noteq> se_size_logical (sg_entry old)"

text \<open>The hash columns are not assigned.\<close>

definition restage :: "staged_entry \<Rightarrow> staged_entry \<Rightarrow> staged_entry" where
  "restage new old = old\<lparr> sg_entry := sg_entry new, sg_run := sg_run new, sg_pushed := False \<rparr>"

definition staged_row :: "int \<Rightarrow> string \<Rightarrow> string \<Rightarrow> scan_entry \<Rightarrow> staged_entry" where
  "staged_row run_id host_id volume_id e =
     \<lparr> sg_host_id = host_id, sg_volume_id = volume_id, sg_entry = e, sg_partial_hash = None,
       sg_full_hash = None, sg_run = run_id, sg_pushed = False \<rparr>"

definition stage_batch :: "int \<Rightarrow> string \<Rightarrow> string \<Rightarrow> scan_entry list \<Rightarrow> staging \<Rightarrow> nat \<times> staging" where
  "stage_batch run_id host_id volume_id es s =
     (case upsert_rows staged_key stage_guard restage (map (staged_row run_id host_id volume_id) es)
             (sq_entries s) of
        (n, rows) \<Rightarrow> (n, s\<lparr> sq_entries := rows \<rparr>))"

definition removal_row :: "int \<Rightarrow> string \<Rightarrow> string \<Rightarrow> int \<times> int \<times> string \<Rightarrow> staged_removal" where
  "removal_row run_id host_id volume_id r =
     (case r of (dev, inode, path) \<Rightarrow>
        \<lparr> rv_host_id = host_id, rv_volume_id = volume_id, rv_dev = dev, rv_inode = inode, rv_path = path,
          rv_run = run_id, rv_pushed = False \<rparr>)"

definition restage_removal :: "staged_removal \<Rightarrow> staged_removal \<Rightarrow> staged_removal" where
  "restage_removal new old = old\<lparr> rv_path := rv_path new, rv_run := rv_run new, rv_pushed := False \<rparr>"

definition stage_removals ::
  "int \<Rightarrow> string \<Rightarrow> string \<Rightarrow> (int \<times> int \<times> string) list \<Rightarrow> staging \<Rightarrow> nat \<times> staging" where
  "stage_removals run_id host_id volume_id rs s =
     (case upsert_rows removal_key (\<lambda>_ _. True) restage_removal (map (removal_row run_id host_id volume_id) rs)
             (sq_removals s) of
        (n, rows) \<Rightarrow> (n, s\<lparr> sq_removals := rows \<rparr>))"

definition stage_hash ::
  "string \<Rightarrow> string \<Rightarrow> int \<Rightarrow> int \<Rightarrow> string \<Rightarrow> string \<Rightarrow> int \<Rightarrow> staging \<Rightarrow> staging" where
  "stage_hash host_id volume_id dev inode partial_hash full_hash run_id s =
     s\<lparr> sq_entries := update_where (\<lambda>e. staged_key e = (host_id, volume_id, dev, inode))
          (\<lambda>e. e\<lparr> sg_partial_hash := Some partial_hash, sg_full_hash := Some full_hash, sg_run := run_id,
                  sg_pushed := False \<rparr>) (sq_entries s) \<rparr>"

section \<open>Queries\<close>

definition load_baseline :: "string \<Rightarrow> string \<Rightarrow> staging \<Rightarrow> ((int \<times> int) \<times> (int \<times> string)) list" where
  "load_baseline host_id volume_id s =
     map (\<lambda>e. ((se_dev (sg_entry e), se_inode (sg_entry e)), (se_mtime (sg_entry e), se_path (sg_entry e))))
       (filter (\<lambda>e. sg_host_id e = host_id \<and> sg_volume_id e = volume_id) (sq_entries s))"

text \<open>SQLite's \<open>LIKE\<close> without an escape character; it ignores the case of ASCII letters.\<close>

fun sqlite_like :: "string \<Rightarrow> string \<Rightarrow> bool" where
  "sqlite_like [] s = (s = [])"
| "sqlite_like (p # ps) s =
     (if p = CHR ''%'' then list_ex (sqlite_like ps) (suffixes s)
      else (case s of [] \<Rightarrow> False | c # cs \<Rightarrow> (p = CHR ''_'' \<or> same_char True c p) \<and> sqlite_like ps cs))"

definition under_prefix :: "string \<Rightarrow> string \<Rightarrow> bool" where
  "under_prefix scope_prefix path \<longleftrightarrow>
     path = scope_prefix \<or> sqlite_like (rstrip ''/'' scope_prefix @ ''/%'') path"

definition iter_candidates :: "string \<Rightarrow> string \<Rightarrow> string \<Rightarrow> staging \<Rightarrow> staged_entry list" where
  "iter_candidates host_id volume_id scope_prefix s =
     filter (\<lambda>e. sg_host_id e = host_id \<and> sg_volume_id e = volume_id \<and> \<not> se_is_dir (sg_entry e) \<and>
       \<not> se_is_symlink (sg_entry e) \<and> under_prefix scope_prefix (se_path (sg_entry e))) (sq_entries s)"

definition candidates_of_size :: "string \<Rightarrow> string \<Rightarrow> string \<Rightarrow> int \<Rightarrow> staging \<Rightarrow> staged_entry list" where
  "candidates_of_size host_id volume_id scope_prefix sz s =
     filter (\<lambda>e. se_size_logical (sg_entry e) = sz) (iter_candidates host_id volume_id scope_prefix s)"

text \<open>\<open>GROUP BY size HAVING COUNT(*) >= 2 ORDER BY size\<close>.\<close>

definition collision_sizes :: "string \<Rightarrow> string \<Rightarrow> string \<Rightarrow> staging \<Rightarrow> int list" where
  "collision_sizes host_id volume_id scope_prefix s =
     (let sizes = filter (\<lambda>z. 0 < z)
            (map (\<lambda>e. se_size_logical (sg_entry e)) (iter_candidates host_id volume_id scope_prefix s))
      in sort (remdups (filter (\<lambda>z. 2 \<le> length (filter (\<lambda>y. y = z) sizes)) sizes)))"

section \<open>Draining\<close>

definition unpushed_for_run :: "int \<Rightarrow> nat \<Rightarrow> staging \<Rightarrow> staged_entry list" where
  "unpushed_for_run run_id limit s = take limit (filter (\<lambda>e. sg_run e = run_id \<and> \<not> sg_pushed e) (sq_entries s))"

definition unpushed_removals_for_run :: "int \<Rightarrow> nat \<Rightarrow> staging \<Rightarrow> staged_removal list" where
  "unpushed_removals_for_run run_id limit s =
     take limit (filter (\<lambda>r. rv_run r = run_id \<and> \<not> rv_pushed r) (sq_removals s))"

text \<open>Rows of one run come in any order; here in that of the table.\<close>

definition iter_unpushed :: "nat \<Rightarrow> staging \<Rightarrow> staged_entry list" where
  "iter_unpushed limit s = take limit (sort_key sg_run (filter (\<lambda>e. \<not> sg_pushed e) (sq_entries s)))"

definition iter_unpushed_hashes :: "nat \<Rightarrow> staging \<Rightarrow> staged_entry list" where
  "iter_unpushed_hashes limit s =
     take limit (sort_key sg_run (filter (\<lambda>e. \<not> sg_pushed e \<and> sg_full_hash e \<noteq> None) (sq_entries s)))"

definition count_unpushed :: "staging \<Rightarrow> nat" where
  "count_unpushed s = length (filter (\<lambda>e. \<not> sg_pushed e) (sq_entries s))"

definition pending_runs :: "staging \<Rightarrow> scan_run list" where
  "pending_runs s =
     sort_key sr_id (filter (\<lambda>r.
       sr_id r \<in> sg_run ` set (filter (\<lambda>e. \<not> sg_pushed e) (sq_entries s)) \<or>
       sr_id r \<in> rv_run ` set (filter (\<lambda>v. \<not> rv_pushed v) (sq_removals s))) (sq_runs s))"

text \<open>\<open>executemany\<close> of an update by key, with the count of rows written.\<close>

definition mark_rows :: "('a \<Rightarrow> 'k) \<Rightarrow> ('a \<Rightarrow> 'a) \<Rightarrow> 'k list \<Rightarrow> 'a list \<Rightarrow> nat \<times> 'a list" where
  "mark_rows key f keys rows =
     fold (\<lambda>k (n, xs). (n + length (filter (\<lambda>x. key x = k) xs), update_where (\<lambda>x. key x = k) f xs)) keys (0, rows)"

definition mark_pushed :: "stage_key list \<Rightarrow> staging \<Rightarrow> nat \<times> staging" where
  "mark_pushed keys s =
     (case mark_rows staged_key (\<lambda>e. e\<lparr> sg_pushed := True \<rparr>) keys (sq_entries s) of
        (n, rows) \<Rightarrow> (n, s\<lparr> sq_entries := rows \<rparr>))"

definition mark_removals_pushed :: "stage_key list \<Rightarrow> staging \<Rightarrow> nat \<times> staging" where
  "mark_removals_pushed keys s =
     (case mark_rows removal_key (\<lambda>r. r\<lparr> rv_pushed := True \<rparr>) keys (sq_removals s) of
        (n, rows) \<Rightarrow> (n, s\<lparr> sq_removals := rows \<rparr>))"

section \<open>The constraints of the schema\<close>

text \<open>Primary keys, and the references from rows to runs.\<close>

definition staging_ok :: "staging \<Rightarrow> bool" where
  "staging_ok s \<longleftrightarrow>
     distinct (map sr_id (sq_runs s)) \<and> (\<forall>r \<in> set (sq_runs s). sr_id r < sq_next_run s) \<and>
     distinct (map staged_key (sq_entries s)) \<and> distinct (map removal_key (sq_removals s)) \<and>
     sg_run ` set (sq_entries s) \<subseteq> sr_id ` set (sq_runs s) \<and>
     rv_run ` set (sq_removals s) \<subseteq> sr_id ` set (sq_runs s)"

lemma staging_ok_empty: "staging_ok empty_staging"
  by (simp add: staging_ok_def empty_staging_def)

lemma staged_key_row [simp]: "staged_key (staged_row run_id h v e) = (h, v, se_dev e, se_inode e)"
  by (simp add: staged_key_def staged_row_def)

lemma removal_key_row [simp]: "removal_key (removal_row run_id h v (dev, inode, path)) = (h, v, dev, inode)"
  by (simp add: removal_key_def removal_row_def)

lemma staged_key_restage [simp]: "staged_key new = staged_key old \<Longrightarrow> staged_key (restage new old) = staged_key old"
  by (auto simp: staged_key_def restage_def)

lemma removal_key_restage [simp]: "removal_key (restage_removal new old) = removal_key old"
  by (simp add: removal_key_def restage_removal_def)

text \<open>What an upsert leaves: the new row, an untouched one, or an overwritten one.\<close>

lemma upsert_rows_rows:
  assumes "r \<in> set (snd (fold (upsert_row key guard overwrite) news (n, rows)))"
    and "\<And>r. r \<in> set rows \<Longrightarrow> P r" "\<And>new. new \<in> set news \<Longrightarrow> P new"
    and "\<And>new old. new \<in> set news \<Longrightarrow> P old \<Longrightarrow> key old = key new \<Longrightarrow> P (overwrite new old)"
  shows "P r"
  using assms
proof (induction news arbitrary: n rows)
  case (Cons new news)
  let ?s = "upsert_row key guard overwrite new (n, rows)"
  have "P x" if "x \<in> set (snd ?s)" for x
    using that Cons.prems(2-4)
    by (auto simp: upsert_row_def set_update_where split: option.splits if_splits)
  with Cons.IH [of "fst ?s" "snd ?s"] Cons.prems(1,3,4) show ?case by (simp add: prod.collapse)
qed simp

lemma upsert_rows_distinct:
  assumes "distinct (map key rows)"
    and "\<And>new old. new \<in> set news \<Longrightarrow> key old = key new \<Longrightarrow> key (overwrite new old) = key old"
  shows "distinct (map key (snd (fold (upsert_row key guard overwrite) news (n, rows))))"
  using assms
proof (induction news arbitrary: n rows)
  case (Cons new news)
  let ?s = "upsert_row key guard overwrite new (n, rows)"
  have "map key (update_where (\<lambda>r. key r = key new) (overwrite new) rows) = map key rows"
    using Cons.prems(2) [of new] by (simp add: update_where_def)
  then have "distinct (map key (snd ?s))"
    using Cons.prems(1) by (auto simp: upsert_row_def find_row_None split: option.splits)
  with Cons.IH [of "snd ?s" "fst ?s"] Cons.prems(2) show ?case by (simp add: prod.collapse)
qed simp

lemma mark_rows_map:
  assumes "\<And>x. key (f x) = key x" "\<And>x. f (f x) = f x"
  shows "snd (mark_rows key f keys rows) = map (\<lambda>x. if key x \<in> set keys then f x else x) rows"
proof -
  have "snd (fold (\<lambda>k (n, xs). (n + length (filter (\<lambda>x. key x = k) xs), update_where (\<lambda>x. key x = k) f xs)) keys (n, rows)) =
      map (\<lambda>x. if key x \<in> set keys then f x else x) rows" for n
  proof (induction keys arbitrary: n rows)
    case (Cons k keys)
    show ?case unfolding fold_simps comp_def prod.case Cons.IH by (simp add: update_where_def assms)
  qed simp
  then show ?thesis unfolding mark_rows_def .
qed

lemma mark_snd: "snd (case p of (n, rows) \<Rightarrow> (n, f rows)) = f (snd p)"
  by (cases p) simp

lemma mark_pushed_rows:
  "sq_entries (snd (mark_pushed keys s)) =
     map (\<lambda>e. if staged_key e \<in> set keys then e\<lparr> sg_pushed := True \<rparr> else e) (sq_entries s)"
  "sq_runs (snd (mark_pushed keys s)) = sq_runs s" "sq_next_run (snd (mark_pushed keys s)) = sq_next_run s"
  "sq_removals (snd (mark_pushed keys s)) = sq_removals s"
  unfolding mark_pushed_def mark_snd by (simp_all add: mark_rows_map staged_key_def)

lemma mark_removals_pushed_rows:
  "sq_removals (snd (mark_removals_pushed keys s)) =
     map (\<lambda>r. if removal_key r \<in> set keys then r\<lparr> rv_pushed := True \<rparr> else r) (sq_removals s)"
  "sq_runs (snd (mark_removals_pushed keys s)) = sq_runs s"
  "sq_next_run (snd (mark_removals_pushed keys s)) = sq_next_run s"
  "sq_entries (snd (mark_removals_pushed keys s)) = sq_entries s"
  unfolding mark_removals_pushed_def mark_snd by (simp_all add: mark_rows_map removal_key_def)

text \<open>The operations of the queue; a row is staged for a run that has been started.\<close>

datatype staging_op =
    Start_Run string string string string int "warning_ack option" "volume_info option"
  | Stage_Batch int string string "scan_entry list"
  | Stage_Removals int string string "(int \<times> int \<times> string) list"
  | Stage_Hash string string int int string string int
  | Finish_Run int int nat
  | Mark_Pushed "stage_key list"
  | Mark_Removals_Pushed "stage_key list"

fun run_staging_op :: "staging_op \<Rightarrow> staging \<Rightarrow> staging" where
  "run_staging_op (Start_Run h v mode root_path t ack vol) s = snd (start_run h v mode root_path t ack vol s)"
| "run_staging_op (Stage_Batch i h v es) s = snd (stage_batch i h v es s)"
| "run_staging_op (Stage_Removals i h v rs) s = snd (stage_removals i h v rs s)"
| "run_staging_op (Stage_Hash h v dev inode p f i) s = stage_hash h v dev inode p f i s"
| "run_staging_op (Finish_Run i t n) s = finish_run i t n s"
| "run_staging_op (Mark_Pushed keys) s = snd (mark_pushed keys s)"
| "run_staging_op (Mark_Removals_Pushed keys) s = snd (mark_removals_pushed keys s)"

fun op_run :: "staging_op \<Rightarrow> int option" where
  "op_run (Stage_Batch i h v es) = Some i"
| "op_run (Stage_Removals i h v rs) = Some i"
| "op_run (Stage_Hash h v dev inode p f i) = Some i"
| "op_run _ = None"

definition op_known :: "staging_op \<Rightarrow> staging \<Rightarrow> bool" where
  "op_known a s \<longleftrightarrow> (case op_run a of None \<Rightarrow> True | Some i \<Rightarrow> i \<in> sr_id ` set (sq_runs s))"

lemma stage_batch_ok:
  assumes "staging_ok s" "run_id \<in> sr_id ` set (sq_runs s)"
  shows "staging_ok (snd (stage_batch run_id h v es s))"
proof -
  let ?news = "map (staged_row run_id h v) es"
  let ?rows = "snd (upsert_rows staged_key stage_guard restage ?news (sq_entries s))"
  have "distinct (map staged_key ?rows)"
    unfolding upsert_rows_def
    by (rule upsert_rows_distinct) (use assms in \<open>auto simp: staging_ok_def\<close>)
  moreover have "sg_run r \<in> sr_id ` set (sq_runs s)" if "r \<in> set ?rows" for r
    using that unfolding upsert_rows_def
    by (rule upsert_rows_rows) (use assms in \<open>auto simp: staging_ok_def staged_row_def restage_def\<close>)
  ultimately show ?thesis
    using assms(1) by (auto simp: staging_ok_def stage_batch_def split: prod.splits)
qed

lemma stage_removals_ok:
  assumes "staging_ok s" "run_id \<in> sr_id ` set (sq_runs s)"
  shows "staging_ok (snd (stage_removals run_id h v rs s))"
proof -
  let ?news = "map (removal_row run_id h v) rs"
  let ?rows = "snd (upsert_rows removal_key (\<lambda>_ _. True) restage_removal ?news (sq_removals s))"
  have "distinct (map removal_key ?rows)"
    unfolding upsert_rows_def
    by (rule upsert_rows_distinct) (use assms in \<open>auto simp: staging_ok_def\<close>)
  moreover have "rv_run r \<in> sr_id ` set (sq_runs s)" if "r \<in> set ?rows" for r
    using that unfolding upsert_rows_def
    by (rule upsert_rows_rows)
      (use assms in \<open>auto simp: staging_ok_def removal_row_def restage_removal_def split: prod.splits\<close>)
  ultimately show ?thesis
    using assms(1) by (auto simp: staging_ok_def stage_removals_def split: prod.splits)
qed

lemma update_where_ok:
  assumes "staging_ok s" "\<And>e. staged_key (f e) = staged_key e" "\<And>e. sg_run (f e) = sg_run e \<or> sg_run (f e) \<in> sr_id ` set (sq_runs s)"
  shows "staging_ok (s\<lparr> sq_entries := update_where P f (sq_entries s) \<rparr>)"
proof -
  have "sg_run r \<in> sr_id ` set (sq_runs s)" if "r \<in> set (update_where P f (sq_entries s))" for r
  proof -
    from that obtain x where x: "x \<in> set (sq_entries s)" "r = (if P x then f x else x)" by (auto simp: set_update_where)
    with assms(1) have "sg_run x \<in> sr_id ` set (sq_runs s)" by (auto simp: staging_ok_def)
    with x(2) assms(3) [of x] show ?thesis by (auto split: if_splits)
  qed
  with assms(1) show ?thesis by (auto simp: staging_ok_def map_update_where assms(2))
qed

lemma staging_op_ok: "staging_ok s \<Longrightarrow> op_known a s \<Longrightarrow> staging_ok (run_staging_op a s)"
proof (induction a)
  case (Stage_Hash h v dev inode p f i)
  then show ?case
    unfolding run_staging_op.simps stage_hash_def
    by (intro update_where_ok) (auto simp: staged_key_def op_known_def)
next
  case (Finish_Run i t n)
  have "map sr_id (update_where (\<lambda>r. sr_id r = i) (\<lambda>r. r\<lparr> sr_finished_at := Some t, sr_entry_count := n \<rparr>) (sq_runs s)) =
      map sr_id (sq_runs s)"
    by (simp add: update_where_def)
  moreover have "sr_id ` set (update_where (\<lambda>r. sr_id r = i) (\<lambda>r. r\<lparr> sr_finished_at := Some t, sr_entry_count := n \<rparr>) (sq_runs s)) =
      sr_id ` set (sq_runs s)"
    by (rule image_update_where) simp
  ultimately show ?case using Finish_Run
    by (simp add: staging_ok_def finish_run_def) (metis (no_types, lifting) imageE imageI)
next
  case (Mark_Pushed keys)
  have "map staged_key (sq_entries (snd (mark_pushed keys s))) = map staged_key (sq_entries s)"
    by (simp add: mark_pushed_rows staged_key_def)
  moreover have "map sg_run (sq_entries (snd (mark_pushed keys s))) = map sg_run (sq_entries s)"
    by (simp add: mark_pushed_rows)
  then have "sg_run ` set (sq_entries (snd (mark_pushed keys s))) = sg_run ` set (sq_entries s)" by (metis set_map)
  ultimately show ?case using Mark_Pushed by (simp add: staging_ok_def mark_pushed_rows(2-4))
next
  case (Mark_Removals_Pushed keys)
  have "map removal_key (sq_removals (snd (mark_removals_pushed keys s))) = map removal_key (sq_removals s)"
    by (simp add: mark_removals_pushed_rows removal_key_def)
  moreover have "map rv_run (sq_removals (snd (mark_removals_pushed keys s))) = map rv_run (sq_removals s)"
    by (simp add: mark_removals_pushed_rows)
  then have "rv_run ` set (sq_removals (snd (mark_removals_pushed keys s))) = rv_run ` set (sq_removals s)" by (metis set_map)
  ultimately show ?case using Mark_Removals_Pushed by (simp add: staging_ok_def mark_removals_pushed_rows(2-4))
next
  case (Start_Run h v mode root_path t ack vol)
  then show ?case by (auto simp: staging_ok_def start_run_def)
qed (simp_all add: stage_batch_ok stage_removals_ok op_known_def)

end
