(* ===== verification/Push.thy ===== *)
theory Push
  imports Complex_Main Staging Ingest
begin

text \<open>
  The push client (\<open>agent/transport/push.py\<close>): the wire frames, the retries and the drain of the staging
  queue. What a POST does to the core, of any type, is a parameter; its failures are network errors and
  HTTP errors alike.
\<close>

section \<open>Retries\<close>

record retry_policy =
  rt_max_attempts :: nat
  rt_base_delay :: rat
  rt_max_delay :: rat

definition default_retry :: retry_policy where
  "default_retry = \<lparr> rt_max_attempts = 5, rt_base_delay = 1, rt_max_delay = 30 \<rparr>"

text \<open>\<open>r\<close> is what \<open>random()\<close> answers.\<close>

definition delay_for :: "retry_policy \<Rightarrow> nat \<Rightarrow> rat \<Rightarrow> rat" where
  "delay_for p attempt r = min (rt_max_delay p) (rt_base_delay p * 2 ^ (attempt - 1)) * (1 / 2 + r / 2)"

type_synonym 'w post = "ingest_batch \<Rightarrow> 'w \<Rightarrow> (string, ingest_result) result \<times> 'w"

fun push_attempts :: "nat \<Rightarrow> 'w post \<Rightarrow> ingest_batch \<Rightarrow> 'w \<Rightarrow> (string, ingest_result) result \<times> 'w" where
  "push_attempts 0 post b w = (Inl ''push failed'', w)"
| "push_attempts (Suc n) post b w =
     (case post b w of
        (Inr r, w') \<Rightarrow> (Inr r, w')
      | (Inl e, w') \<Rightarrow> push_attempts n post b w')"

definition push :: "retry_policy \<Rightarrow> 'w post \<Rightarrow> ingest_batch \<Rightarrow> 'w \<Rightarrow> (string, ingest_result) result \<times> 'w" where
  "push p post b w = push_attempts (rt_max_attempts p) post b w"

section \<open>Frames\<close>

definition row_to_entry :: "staged_entry \<Rightarrow> entry_frame" where
  "row_to_entry row =
     (let e = sg_entry row
      in \<lparr> ef_path = se_path e, ef_name = se_name e, ef_is_dir = se_is_dir e, ef_is_symlink = se_is_symlink e,
           ef_size_logical = se_size_logical e, ef_size_on_disk = se_size_on_disk e, ef_mtime = se_mtime e,
           ef_ctime = se_ctime e, ef_uid = se_uid e, ef_gid = se_gid e, ef_inode = se_inode e, ef_dev = se_dev e,
           ef_flags = se_flags e, ef_partial_hash = sg_partial_hash row, ef_full_hash = sg_full_hash row,
           ef_provider_hash = None, ef_provider_hash_algo = None \<rparr>)"

text \<open>A stored \<open>VolumeInfo\<close> has no pool.\<close>

definition volume_frame_of :: "scan_run \<Rightarrow> volume_frame" where
  "volume_frame_of run =
     (case sr_volume run of
        Some v \<Rightarrow>
          \<lparr> vf_mountpoint = vi_mountpoint v, vf_display_name = vi_display_name v, vf_fs_type = vi_fs_type v,
            vf_device = vi_device v, vf_transport = vi_transport v, vf_raid_role = vi_raid_role v, vf_pool = None,
            vf_dataset = vi_dataset v, vf_total = vi_total v, vf_used = vi_used v, vf_free = vi_free v \<rparr>
      | None \<Rightarrow>
          \<lparr> vf_mountpoint = sr_volume_id run, vf_display_name = None, vf_fs_type = ''unknown'',
            vf_device = ''unknown'', vf_transport = ''unknown'', vf_raid_role = None, vf_pool = None,
            vf_dataset = None, vf_total = 0, vf_used = 0, vf_free = 0 \<rparr>)"

definition host_frame_of :: "scan_run \<Rightarrow> json option \<Rightarrow> host_frame" where
  "host_frame_of run facts =
     \<lparr> hf_name = sr_host_id run, hf_os = None, hf_agent_version = None, hf_facts = facts \<rparr>"

definition entry_batch :: "json option \<Rightarrow> scan_run \<Rightarrow> int option \<Rightarrow> staged_entry list \<Rightarrow> ingest_batch" where
  "entry_batch facts run snapshot_id rows =
     \<lparr> b_host = host_frame_of run facts, b_volume = volume_frame_of run, b_mode = sr_mode run,
       b_snapshot_id = snapshot_id, b_entries = map row_to_entry rows, b_removed = [], b_removed_inodes = [] \<rparr>"

definition removal_batch :: "scan_run \<Rightarrow> int option \<Rightarrow> staged_removal list \<Rightarrow> ingest_batch" where
  "removal_batch run snapshot_id rows =
     \<lparr> b_host = host_frame_of run None, b_volume = volume_frame_of run, b_mode = ''metadata'',
       b_snapshot_id = snapshot_id, b_entries = [], b_removed = map (\<lambda>r. (rv_dev r, rv_inode r)) rows,
       b_removed_inodes = map rv_inode rows \<rparr>"

section \<open>The drain\<close>

text \<open>Marking a chunk pushed leaves less to push.\<close>

lemma unpushed_rows_shrink:
  assumes "take n (filter P xs) \<noteq> []" "\<And>x. P x \<Longrightarrow> key x \<in> key ` set (take n (filter P xs)) \<Longrightarrow> \<not> P (f x)"
    and "\<And>x. \<not> P x \<Longrightarrow> \<not> P (f x)"
  shows "length (filter P (map (\<lambda>x. if key x \<in> key ` set (take n (filter P xs)) then f x else x) xs)) < length (filter P xs)"
proof -
  let ?K = "key ` set (take n (filter P xs))"
  let ?g = "\<lambda>x. if key x \<in> ?K then f x else x"
  have "filter P (map ?g ys) = filter P (filter (\<lambda>x. key x \<notin> ?K) ys)" for ys
  proof (induction ys)
    case (Cons y ys)
    then show ?case using assms(2,3) [of y] by (cases "P y"; cases "key y \<in> ?K") simp_all
  qed simp
  moreover have "length (filter P (filter (\<lambda>x. key x \<notin> ?K) xs)) < length (filter P xs)"
  proof -
    from assms(1) obtain y ys where y: "filter P xs = y # ys" by (cases "filter P xs") auto
    from assms(1) obtain m where "n = Suc m" by (cases n) auto
    with y have k: "key y \<in> ?K" by simp
    have "filter P (filter (\<lambda>x. key x \<notin> ?K) xs) = filter (\<lambda>x. key x \<notin> ?K) (filter P xs)"
      by (simp add: conj_commute)
    with length_filter_less [of y "filter P xs" "\<lambda>x. key x \<notin> ?K"] y k show ?thesis by simp
  qed
  ultimately show ?thesis by simp
qed

definition left_entries_of :: "int \<Rightarrow> staging \<Rightarrow> staged_entry list" where
  "left_entries_of run_id s = filter (\<lambda>e. sg_run e = run_id \<and> \<not> sg_pushed e) (sq_entries s)"

definition left_removals_of :: "int \<Rightarrow> staging \<Rightarrow> staged_removal list" where
  "left_removals_of run_id s = filter (\<lambda>r. rv_run r = run_id \<and> \<not> rv_pushed r) (sq_removals s)"

lemma drain_entries_progress:
  assumes "unpushed_for_run run_id n s \<noteq> []"
  shows "length (left_entries_of run_id (snd (mark_pushed (map staged_key (unpushed_for_run run_id n s)) s))) <
    length (left_entries_of run_id s)"
  using assms unfolding left_entries_of_def unpushed_for_run_def mark_pushed_rows set_map
  by (intro unpushed_rows_shrink) auto

lemma drain_removals_progress:
  assumes "unpushed_removals_for_run run_id n s \<noteq> []"
  shows "length (left_removals_of run_id (snd (mark_removals_pushed (map removal_key (unpushed_removals_for_run run_id n s)) s))) <
    length (left_removals_of run_id s)"
  using assms unfolding left_removals_of_def unpushed_removals_for_run_def mark_removals_pushed_rows set_map
  by (intro unpushed_rows_shrink) auto

text \<open>The chunks of entries of one run: the snapshot of the first serves all.\<close>

function drain_entries ::
  "retry_policy \<Rightarrow> nat \<Rightarrow> 'w post \<Rightarrow> json option \<Rightarrow> scan_run \<Rightarrow> int option \<Rightarrow> nat \<Rightarrow> staging \<Rightarrow> 'w \<Rightarrow>
   (string, int option \<times> nat) result \<times> staging \<times> 'w" where
  "drain_entries p chunk post facts run snapshot_id sent s w =
     (let rows = unpushed_for_run (sr_id run) chunk s
      in if rows = [] then (Inr (snapshot_id, sent), s, w)
         else (case push p post (entry_batch facts run snapshot_id rows) w of
                 (Inl e, w') \<Rightarrow> (Inl e, s, w')
               | (Inr r, w') \<Rightarrow>
                   drain_entries p chunk post facts run (Some (r_snapshot_id r)) (sent + length rows)
                     (snd (mark_pushed (map staged_key rows) s)) w'))"
  by auto

termination
  by (relation "measure (\<lambda>(p, chunk, post, facts, run, snapshot_id, sent, s, w). length (left_entries_of (sr_id run) s))")
    (auto simp: drain_entries_progress)

function drain_removals ::
  "retry_policy \<Rightarrow> nat \<Rightarrow> 'w post \<Rightarrow> scan_run \<Rightarrow> int option \<Rightarrow> staging \<Rightarrow> 'w \<Rightarrow> (string, unit) result \<times> staging \<times> 'w" where
  "drain_removals p chunk post run snapshot_id s w =
     (let rows = unpushed_removals_for_run (sr_id run) chunk s
      in if rows = [] then (Inr (), s, w)
         else (case push p post (removal_batch run snapshot_id rows) w of
                 (Inl e, w') \<Rightarrow> (Inl e, s, w')
               | (Inr r, w') \<Rightarrow>
                   drain_removals p chunk post run snapshot_id
                     (snd (mark_removals_pushed (map removal_key rows) s)) w'))"
  by auto

termination
  by (relation "measure (\<lambda>(p, chunk, post, run, snapshot_id, s, w). length (left_removals_of (sr_id run) s))")
    (auto simp: drain_removals_progress)

declare drain_entries.simps [simp del] drain_removals.simps [simp del]

definition drain_run ::
  "retry_policy \<Rightarrow> nat \<Rightarrow> 'w post \<Rightarrow> json option \<Rightarrow> scan_run \<Rightarrow> nat \<Rightarrow> staging \<Rightarrow> 'w \<Rightarrow>
   (string, nat) result \<times> staging \<times> 'w" where
  "drain_run p chunk post facts run sent s w =
     (case drain_entries p chunk post facts run None sent s w of
        (Inl e, s1, w1) \<Rightarrow> (Inl e, s1, w1)
      | (Inr (snapshot_id, sent'), s1, w1) \<Rightarrow>
          (case drain_removals p chunk post run snapshot_id s1 w1 of
             (Inl e, s2, w2) \<Rightarrow> (Inl e, s2, w2)
           | (Inr u, s2, w2) \<Rightarrow> (Inr sent', s2, w2)))"

text \<open>The runs are read once, before the first POST.\<close>

fun drain_runs ::
  "retry_policy \<Rightarrow> nat \<Rightarrow> 'w post \<Rightarrow> json option \<Rightarrow> scan_run list \<Rightarrow> nat \<Rightarrow> staging \<Rightarrow> 'w \<Rightarrow>
   (string, nat) result \<times> staging \<times> 'w" where
  "drain_runs p chunk post facts [] sent s w = (Inr sent, s, w)"
| "drain_runs p chunk post facts (run # runs) sent s w =
     (case drain_run p chunk post facts run sent s w of
        (Inl e, s1, w1) \<Rightarrow> (Inl e, s1, w1)
      | (Inr sent', s1, w1) \<Rightarrow> drain_runs p chunk post facts runs sent' s1 w1)"

text \<open>The facts of the host are probed once; a failing probe leaves none.\<close>

definition drain ::
  "retry_policy \<Rightarrow> nat \<Rightarrow> 'w post \<Rightarrow> json option \<Rightarrow> staging \<Rightarrow> 'w \<Rightarrow> (string, nat) result \<times> staging \<times> 'w" where
  "drain p chunk post facts s w = drain_runs p chunk post facts (pending_runs s) 0 s w"

end
