(* ===== verification/Push_Facts.thy ===== *)
theory Push_Facts
  imports Push Ingest_Facts
begin

text \<open>
  What a drain guarantees: it ends, it marks a row only when a batch that carries it was acknowledged,
  even when it fails half-way, and when it succeeds nothing is left. With the core as the server, the
  rows of the volume are then as the drained ones say, however often requests or replies were lost.
\<close>

section \<open>Marked rows\<close>

definition marked :: "stage_key set \<Rightarrow> stage_key set \<Rightarrow> staging \<Rightarrow> staging" where
  "marked A B s =
     s\<lparr> sq_entries := map (\<lambda>e. if staged_key e \<in> A then e\<lparr> sg_pushed := True \<rparr> else e) (sq_entries s),
        sq_removals := map (\<lambda>r. if removal_key r \<in> B then r\<lparr> rv_pushed := True \<rparr> else r) (sq_removals s) \<rparr>"

lemma staged_key_pushed [simp]: "staged_key (e\<lparr> sg_pushed := b \<rparr>) = staged_key e"
  by (simp add: staged_key_def)

lemma removal_key_pushed [simp]: "removal_key (r\<lparr> rv_pushed := b \<rparr>) = removal_key r"
  by (simp add: removal_key_def)

lemma marked_empty [simp]: "marked {} {} s = s"
  by (simp add: marked_def)

lemma marked_marked: "marked A B (marked A' B' s) = marked (A \<union> A') (B \<union> B') s"
  by (auto simp: marked_def)

lemma mark_pushed_marked: "snd (mark_pushed keys s) = marked (set keys) {} s"
  by (rule staging.equality) (simp_all add: mark_pushed_rows marked_def)

lemma mark_removals_pushed_marked: "snd (mark_removals_pushed keys s) = marked {} (set keys) s"
  by (rule staging.equality) (simp_all add: mark_removals_pushed_rows marked_def)

lemma marked_parts [simp]:
  "sq_runs (marked A B s) = sq_runs s" "sq_next_run (marked A B s) = sq_next_run s"
  "map staged_key (sq_entries (marked A B s)) = map staged_key (sq_entries s)"
  "map removal_key (sq_removals (marked A B s)) = map removal_key (sq_removals s)"
  "map sg_run (sq_entries (marked A B s)) = map sg_run (sq_entries s)"
  "map rv_run (sq_removals (marked A B s)) = map rv_run (sq_removals s)"
  by (simp_all add: marked_def)

lemma marked_ok [simp]: "staging_ok (marked A B s) = staging_ok s"
  unfolding staging_ok_def marked_parts by (metis marked_parts(5,6) set_map)

lemma left_entries_marked:
  "left_entries_of run_id (marked A B s) = filter (\<lambda>e. staged_key e \<notin> A) (left_entries_of run_id s)"
proof -
  have "filter P (map (\<lambda>e. if staged_key e \<in> A then e\<lparr> sg_pushed := True \<rparr> else e) es) =
      filter (\<lambda>e. staged_key e \<notin> A) (filter P es)" if "\<And>e. P e \<Longrightarrow> \<not> sg_pushed e" "\<And>e. \<not> P (e\<lparr> sg_pushed := True \<rparr>)" for P es
    using that by (induction es) auto
  from this [of "\<lambda>e. sg_run e = run_id \<and> \<not> sg_pushed e" "sq_entries s"] show ?thesis
    by (simp add: left_entries_of_def marked_def)
qed

lemma left_removals_marked:
  "left_removals_of run_id (marked A B s) = filter (\<lambda>r. removal_key r \<notin> B) (left_removals_of run_id s)"
proof -
  have "filter P (map (\<lambda>r. if removal_key r \<in> B then r\<lparr> rv_pushed := True \<rparr> else r) rs) =
      filter (\<lambda>r. removal_key r \<notin> B) (filter P rs)" if "\<And>r. P r \<Longrightarrow> \<not> rv_pushed r" "\<And>r. \<not> P (r\<lparr> rv_pushed := True \<rparr>)" for P rs
    using that by (induction rs) auto
  from this [of "\<lambda>r. rv_run r = run_id \<and> \<not> rv_pushed r" "sq_removals s"] show ?thesis
    by (simp add: left_removals_of_def marked_def)
qed

lemma filter_take_drop:
  "distinct (map key xs) \<Longrightarrow> filter (\<lambda>x. key x \<notin> key ` set (take n xs)) xs = drop n xs"
proof (induction xs arbitrary: n)
  case (Cons x xs)
  show ?case
  proof (cases n)
    case 0
    then show ?thesis by simp
  next
    case (Suc m)
    from Cons.prems have "filter (\<lambda>y. key y \<notin> key ` set (take n (x # xs))) xs = filter (\<lambda>y. key y \<notin> key ` set (take m xs)) xs"
      by (intro filter_cong) (auto simp: Suc, metis imageI)
    with Cons show ?thesis by (simp add: Suc)
  qed
qed simp

lemma left_entries_distinct: "staging_ok s \<Longrightarrow> distinct (map staged_key (left_entries_of run_id s))"
  by (simp add: staging_ok_def left_entries_of_def distinct_map_filter)

lemma left_removals_distinct: "staging_ok s \<Longrightarrow> distinct (map removal_key (left_removals_of run_id s))"
  by (simp add: staging_ok_def left_removals_of_def distinct_map_filter)

lemma unpushed_take: "unpushed_for_run run_id n s = take n (left_entries_of run_id s)"
  by (simp add: unpushed_for_run_def left_entries_of_def)

lemma unpushed_removals_take: "unpushed_removals_for_run run_id n s = take n (left_removals_of run_id s)"
  by (simp add: unpushed_removals_for_run_def left_removals_of_def)

lemma staged_key_unique:
  "staging_ok s \<Longrightarrow> e \<in> set (sq_entries s) \<Longrightarrow> e' \<in> set (sq_entries s) \<Longrightarrow> staged_key e = staged_key e' \<Longrightarrow> e = e'"
  by (auto simp: staging_ok_def distinct_map inj_on_def)

lemma removal_key_unique:
  "staging_ok s \<Longrightarrow> r \<in> set (sq_removals s) \<Longrightarrow> r' \<in> set (sq_removals s) \<Longrightarrow> removal_key r = removal_key r' \<Longrightarrow> r = r'"
  by (auto simp: staging_ok_def distinct_map inj_on_def)

section \<open>The loops\<close>

text \<open>Both loops deliver a list in chunks; \<open>out\<close> has been delivered.\<close>

function chunk_loop ::
  "nat \<Rightarrow> ('acc \<Rightarrow> 'x list \<Rightarrow> 'w \<Rightarrow> ('e, 'acc) result \<times> 'w) \<Rightarrow> 'x list \<Rightarrow> 'x list \<Rightarrow> 'acc \<Rightarrow> 'w \<Rightarrow>
   ('e, 'acc) result \<times> 'x list \<times> 'w" where
  "chunk_loop n send out rows acc w =
     (if take n rows = [] then (Inr acc, out, w)
      else (case send acc (take n rows) w of
              (Inl e, w') \<Rightarrow> (Inl e, out, w')
            | (Inr acc', w') \<Rightarrow> chunk_loop n send (out @ take n rows) (drop n rows) acc' w'))"
  by auto

termination by (relation "measure (\<lambda>(n, send, out, rows, acc, w). length rows)") auto

declare chunk_loop.simps [simp del]

lemma chunk_loop_invariant:
  assumes "chunk_loop n send out rows acc w = (res, out', w')" "I out acc w"
    and "\<And>o1 rs a w1 a' w2. I o1 a w1 \<Longrightarrow> set rs \<subseteq> set rows \<Longrightarrow> length rs \<le> n \<Longrightarrow> send a rs w1 = (Inr a', w2) \<Longrightarrow>
      I (o1 @ rs) a' w2"
    and "\<And>o1 rs a w1 e w2. I o1 a w1 \<Longrightarrow> set rs \<subseteq> set rows \<Longrightarrow> length rs \<le> n \<Longrightarrow> send a rs w1 = (Inl e, w2) \<Longrightarrow> E o1 w2"
  shows "(\<exists>k. out' = out @ take k rows) \<and>
    (case res of Inl e \<Rightarrow> E out' w' | Inr acc' \<Rightarrow> I out' acc' w' \<and> (0 < n \<longrightarrow> out' = out @ rows))"
  using assms
proof (induction n send out rows acc w rule: chunk_loop.induct)
  case (1 n send out rows acc w)
  show ?case
  proof (cases "take n rows = []")
    case True
    with "1.prems"(1) have "res = Inr acc" "out' = out" "w' = w" by (subst (asm) chunk_loop.simps; simp)+
    with True "1.prems"(2) show ?thesis by (auto intro: exI [of _ 0])
  next
    case False
    obtain r w1 where r: "send acc (take n rows) w = (r, w1)" by fastforce
    show ?thesis
    proof (cases r)
      case (Inl e)
      with "1.prems"(1) False r have "res = Inl e" "out' = out" "w' = w1" by (subst (asm) chunk_loop.simps; simp)+
      moreover have "E out w1"
        using "1.prems"(4) [of out acc w "take n rows" e w1] "1.prems"(2) r Inl by (simp add: set_take_subset)
      ultimately show ?thesis by (auto intro: exI [of _ 0])
    next
      case (Inr a)
      have sub: "set (drop n rows) \<subseteq> set rows" by (rule set_drop_subset)
      have next_call: "chunk_loop n send (out @ take n rows) (drop n rows) a w1 = (res, out', w')"
        using "1.prems"(1) False r Inr by (subst (asm) chunk_loop.simps) simp
      have "I (out @ take n rows) a w1"
        using "1.prems"(3) [of out acc w "take n rows" a w1] "1.prems"(2) r Inr by (simp add: set_take_subset)
      from "1.IH" [OF False r [symmetric] Inr next_call this] "1.prems"(3,4) sub
      have IH: "(\<exists>k. out' = (out @ take n rows) @ take k (drop n rows)) \<and>
        (case res of Inl e \<Rightarrow> E out' w' | Inr acc' \<Rightarrow> I out' acc' w' \<and> (0 < n \<longrightarrow> out' = (out @ take n rows) @ drop n rows))"
        by (meson subset_trans)
      then obtain k where "out' = (out @ take n rows) @ take k (drop n rows)" by blast
      then have "out' = out @ take (n + k) rows" by (simp add: take_add)
      with IH show ?thesis by (auto split: sum.splits)
    qed
  qed
qed

definition send_entries where
  "send_entries p post facts run acc rows w =
     (case push p post (entry_batch facts run (fst acc) rows) w of
        (Inl e, w') \<Rightarrow> (Inl e, w')
      | (Inr r, w') \<Rightarrow> (Inr (Some (r_snapshot_id r), snd acc + length rows), w'))"

definition send_removals where
  "send_removals p post run snap (acc :: unit) rows w =
     (case push p post (removal_batch run snap rows) w of
        (Inl e, w') \<Rightarrow> (Inl e, w')
      | (Inr r, w') \<Rightarrow> (Inr (), w'))"

lemma drain_entries_chunks:
  assumes "staging_ok s" "left_entries_of (sr_id run) s = out @ rows"
  shows "drain_entries p chunk post facts run snap sent (marked (staged_key ` set out) {} s) w =
    (case chunk_loop chunk (send_entries p post facts run) out rows (snap, sent) w of
       (res, out', w') \<Rightarrow> (res, marked (staged_key ` set out') {} s, w'))"
  using assms(2)
proof (induction "length rows" arbitrary: out rows snap sent w rule: less_induct)
  case less
  let ?s = "marked (staged_key ` set out) {} s"
  have keys: "distinct (map staged_key (out @ rows))"
    using left_entries_distinct [OF assms(1)] less.prems by metis
  have left: "left_entries_of (sr_id run) ?s = rows"
    using filter_take_drop [OF keys, of "length out"] by (simp add: left_entries_marked less.prems)
  show ?case
  proof (cases "take chunk rows = []")
    case True
    then show ?thesis
      by (subst drain_entries.simps, subst chunk_loop.simps) (simp add: unpushed_take left)
  next
    case False
    obtain pr w1 where pr: "push p post (entry_batch facts run snap (take chunk rows)) w = (pr, w1)" by fastforce
    show ?thesis
    proof (cases pr)
      case (Inl e)
      with False pr show ?thesis
        by (subst drain_entries.simps, subst chunk_loop.simps) (simp add: unpushed_take left send_entries_def)
    next
      case (Inr r)
      have m: "snd (mark_pushed (map staged_key (take chunk rows)) ?s) = marked (staged_key ` set (out @ take chunk rows)) {} s"
        by (simp add: mark_pushed_marked marked_marked image_Un Un_commute)
      have "length (drop chunk rows) < length rows" using False by (cases chunk; cases rows) auto
      from less.hyps [OF this, of "out @ take chunk rows"] less.prems False pr Inr m show ?thesis
        by (subst drain_entries.simps, subst chunk_loop.simps) (simp add: unpushed_take left send_entries_def)
    qed
  qed
qed

lemma drain_removals_chunks:
  assumes "staging_ok s" "left_removals_of (sr_id run) s = out @ rows"
  shows "drain_removals p chunk post run snap (marked {} (removal_key ` set out) s) w =
    (case chunk_loop chunk (send_removals p post run snap) out rows () w of
       (res, out', w') \<Rightarrow> (res, marked {} (removal_key ` set out') s, w'))"
  using assms(2)
proof (induction "length rows" arbitrary: out rows w rule: less_induct)
  case less
  let ?s = "marked {} (removal_key ` set out) s"
  have keys: "distinct (map removal_key (out @ rows))"
    using left_removals_distinct [OF assms(1)] less.prems by metis
  have left: "left_removals_of (sr_id run) ?s = rows"
    using filter_take_drop [OF keys, of "length out"] by (simp add: left_removals_marked less.prems)
  show ?case
  proof (cases "take chunk rows = []")
    case True
    then show ?thesis
      by (subst drain_removals.simps, subst chunk_loop.simps) (simp add: unpushed_removals_take left)
  next
    case False
    obtain pr w1 where pr: "push p post (removal_batch run snap (take chunk rows)) w = (pr, w1)" by fastforce
    show ?thesis
    proof (cases pr)
      case (Inl e)
      with False pr show ?thesis
        by (subst drain_removals.simps, subst chunk_loop.simps) (simp add: unpushed_removals_take left send_removals_def)
    next
      case (Inr r)
      have m: "snd (mark_removals_pushed (map removal_key (take chunk rows)) ?s) = marked {} (removal_key ` set (out @ take chunk rows)) s"
        by (simp add: mark_removals_pushed_marked marked_marked image_Un Un_commute)
      have "length (drop chunk rows) < length rows" using False by (cases chunk; cases rows) auto
      from less.hyps [OF this, of "out @ take chunk rows"] less.prems False pr Inr m show ?thesis
        by (subst drain_removals.simps, subst chunk_loop.simps) (simp add: unpushed_removals_take left send_removals_def)
    qed
  qed
qed

text \<open>Rows of different runs have different keys.\<close>

lemma left_entries_other:
  assumes "staging_ok s" "set es \<subseteq> set (sq_entries s)" "\<And>e. e \<in> set es \<Longrightarrow> sg_run e \<noteq> run_id"
  shows "left_entries_of run_id (marked (staged_key ` set es) B s) = left_entries_of run_id s"
proof -
  have "staged_key x \<notin> staged_key ` set es" if "x \<in> set (left_entries_of run_id s)" for x
  proof
    assume "staged_key x \<in> staged_key ` set es"
    then obtain e where e: "e \<in> set es" "staged_key e = staged_key x" by auto
    moreover from that have "x \<in> set (sq_entries s)" "sg_run x = run_id" by (auto simp: left_entries_of_def)
    ultimately have "e = x" using assms(1,2) by (auto simp: staging_ok_def distinct_map inj_on_def)
    with assms(3) e \<open>sg_run x = run_id\<close> show False by blast
  qed
  then show ?thesis by (simp add: left_entries_marked)
qed

lemma left_removals_other:
  assumes "staging_ok s" "set rs \<subseteq> set (sq_removals s)" "\<And>r. r \<in> set rs \<Longrightarrow> rv_run r \<noteq> run_id"
  shows "left_removals_of run_id (marked A (removal_key ` set rs) s) = left_removals_of run_id s"
proof -
  have "removal_key x \<notin> removal_key ` set rs" if "x \<in> set (left_removals_of run_id s)" for x
  proof
    assume "removal_key x \<in> removal_key ` set rs"
    then obtain r where r: "r \<in> set rs" "removal_key r = removal_key x" by auto
    moreover from that have "x \<in> set (sq_removals s)" "rv_run x = run_id" by (auto simp: left_removals_of_def)
    ultimately have "r = x" using assms(1,2) by (auto simp: staging_ok_def distinct_map inj_on_def)
    with assms(3) r \<open>rv_run x = run_id\<close> show False by blast
  qed
  then show ?thesis by (simp add: left_removals_marked)
qed

lemma left_removals_marked_entries: "left_removals_of run_id (marked A {} s) = left_removals_of run_id s"
  by (simp add: left_removals_marked)

text \<open>One run: \<open>J\<close> describes the core after the rows that were acknowledged, \<open>E\<close> after a failure.\<close>

definition sends_entries where
  "sends_entries p chunk post facts J E run left \<longleftrightarrow>
     (\<forall>es rs snap rows w res w'.
        J es rs w \<and> set rows \<subseteq> set left \<and> length rows \<le> chunk \<and>
        push p post (entry_batch facts run snap rows) w = (res, w') \<longrightarrow>
        (case res of Inl e \<Rightarrow> E es rs w' | Inr r \<Rightarrow> J (es @ rows) rs w'))"

definition sends_removals where
  "sends_removals p chunk post J E run left \<longleftrightarrow>
     (\<forall>es rs snap rows w res w'.
        J es rs w \<and> set rows \<subseteq> set left \<and> length rows \<le> chunk \<and>
        push p post (removal_batch run snap rows) w = (res, w') \<longrightarrow>
        (case res of Inl e \<Rightarrow> E es rs w' | Inr r \<Rightarrow> J es (rs @ rows) w'))"

definition keeps_entries where
  "keeps_entries p chunk post facts runs s J E \<longleftrightarrow>
     (\<forall>run \<in> set runs. sends_entries p chunk post facts J E run (left_entries_of (sr_id run) s))"

definition keeps_removals where
  "keeps_removals p chunk post runs s J E \<longleftrightarrow>
     (\<forall>run \<in> set runs. sends_removals p chunk post J E run (left_removals_of (sr_id run) s))"

lemma keeps_entriesD:
  assumes "keeps_entries p chunk post facts runs s J E" "J es rs w" "run \<in> set runs"
    "set rows \<subseteq> set (left_entries_of (sr_id run) s)" "length rows \<le> chunk"
  shows "push p post (entry_batch facts run snap rows) w = (Inr r, w') \<Longrightarrow> J (es @ rows) rs w'"
    and "push p post (entry_batch facts run snap rows) w = (Inl e, w') \<Longrightarrow> E es rs w'"
proof -
  have c: "case res of Inl e \<Rightarrow> E es rs w' | Inr r \<Rightarrow> J (es @ rows) rs w'" if "push p post (entry_batch facts run snap rows) w = (res, w')" for res
    using assms that unfolding keeps_entries_def sends_entries_def by blast
  show "push p post (entry_batch facts run snap rows) w = (Inr r, w') \<Longrightarrow> J (es @ rows) rs w'" using c [of "Inr r"] by simp
  show "push p post (entry_batch facts run snap rows) w = (Inl e, w') \<Longrightarrow> E es rs w'" using c [of "Inl e"] by simp
qed

lemma keeps_removalsD:
  assumes "keeps_removals p chunk post runs s J E" "J es rs w" "run \<in> set runs"
    "set rows \<subseteq> set (left_removals_of (sr_id run) s)" "length rows \<le> chunk"
  shows "push p post (removal_batch run snap rows) w = (Inr r, w') \<Longrightarrow> J es (rs @ rows) w'"
    and "push p post (removal_batch run snap rows) w = (Inl e, w') \<Longrightarrow> E es rs w'"
proof -
  have c: "case res of Inl e \<Rightarrow> E es rs w' | Inr r \<Rightarrow> J es (rs @ rows) w'" if "push p post (removal_batch run snap rows) w = (res, w')" for res
    using assms that unfolding keeps_removals_def sends_removals_def by blast
  show "push p post (removal_batch run snap rows) w = (Inr r, w') \<Longrightarrow> J es (rs @ rows) w'" using c [of "Inr r"] by simp
  show "push p post (removal_batch run snap rows) w = (Inl e, w') \<Longrightarrow> E es rs w'" using c [of "Inl e"] by simp
qed

lemma drain_run_invariant:
  assumes "drain_run p chunk post facts run sent s w = (res, s', w')" "staging_ok s" "run \<in> set runs" "J es rs w"
    and keeps: "keeps_entries p chunk post facts runs s J E" "keeps_removals p chunk post runs s J E"
  shows "\<exists>es1 rs1. s' = marked (staged_key ` set es1) (removal_key ` set rs1) s \<and>
    set es1 \<subseteq> set (left_entries_of (sr_id run) s) \<and> set rs1 \<subseteq> set (left_removals_of (sr_id run) s) \<and>
    (case res of
       Inl e \<Rightarrow> E (es @ es1) (rs @ rs1) w'
     | Inr n \<Rightarrow> J (es @ es1) (rs @ rs1) w' \<and>
         (0 < chunk \<longrightarrow> es1 = left_entries_of (sr_id run) s \<and> rs1 = left_removals_of (sr_id run) s \<and> n = sent + length es1))"
proof -
  let ?L = "left_entries_of (sr_id run) s"
  let ?R = "left_removals_of (sr_id run) s"
  obtain r1 out w1 where c1: "chunk_loop chunk (send_entries p post facts run) [] ?L (None, sent) w = (r1, out, w1)"
    using prod_cases3 by blast
  have d1: "drain_entries p chunk post facts run None sent s w = (r1, marked (staged_key ` set out) {} s, w1)"
    using drain_entries_chunks [OF assms(2), of run "[]" ?L p chunk post facts None sent w] by (simp add: c1)
  have i1: "(\<exists>k. out = [] @ take k ?L) \<and> (case r1 of Inl e \<Rightarrow> E (es @ out) rs w1
      | Inr acc \<Rightarrow> (J (es @ out) rs w1 \<and> snd acc = sent + length out) \<and> (0 < chunk \<longrightarrow> out = [] @ ?L))"
  proof (rule chunk_loop_invariant [OF c1, where I = "\<lambda>o1 acc w. J (es @ o1) rs w \<and> snd acc = sent + length o1"
        and E = "\<lambda>o1 w. E (es @ o1) rs w"])
    show "J (es @ []) rs w \<and> snd (None, sent) = sent + length []" using assms(4) by simp
    fix o1 rows a w1 a' w2
    assume a: "J (es @ o1) rs w1 \<and> snd a = sent + length o1" "set rows \<subseteq> set ?L" "length rows \<le> chunk"
      "send_entries p post facts run a rows w1 = (Inr a', w2)"
    then obtain r where "push p post (entry_batch facts run (fst a) rows) w1 = (Inr r, w2)"
      "snd a' = snd a + length rows"
      by (auto simp: send_entries_def split: prod.splits sum.splits)
    with keeps_entriesD(1) [OF keeps(1), of "es @ o1" rs w1 run rows "fst a" r w2] a assms(3)
    show "J (es @ o1 @ rows) rs w2 \<and> snd a' = sent + length (o1 @ rows)" by simp
  next
    fix o1 rows a w1 e w2
    assume a: "J (es @ o1) rs w1 \<and> snd a = sent + length o1" "set rows \<subseteq> set ?L" "length rows \<le> chunk"
      "send_entries p post facts run a rows w1 = (Inl e, w2)"
    then have "push p post (entry_batch facts run (fst a) rows) w1 = (Inl e, w2)"
      by (auto simp: send_entries_def split: prod.splits sum.splits)
    with keeps_entriesD(2) [OF keeps(1), of "es @ o1" rs w1 run rows "fst a" e w2] a assms(3)
    show "E (es @ o1) rs w2" by simp
  qed
  then have sub1: "set out \<subseteq> set ?L" using set_take_subset by fastforce
  show ?thesis
  proof (cases r1)
    case (Inl e)
    with d1 assms(1) have "res = Inl e" "s' = marked (staged_key ` set out) {} s" "w' = w1"
      by (simp_all add: drain_run_def)
    with i1 Inl sub1 show ?thesis by (intro exI [of _ out] exI [of _ "[]"]) simp
  next
    case (Inr acc)
    let ?s1 = "marked (staged_key ` set out) {} s"
    obtain r2 out2 w2 where c2: "chunk_loop chunk (send_removals p post run (fst acc)) [] ?R () w1 = (r2, out2, w2)"
      using prod_cases3 by blast
    have d2: "drain_removals p chunk post run (fst acc) ?s1 w1 = (r2, marked {} (removal_key ` set out2) ?s1, w2)"
      using drain_removals_chunks [of ?s1 run "[]" ?R p chunk post "fst acc" w1] assms(2) c2
      by (simp add: left_removals_marked_entries)
    from i1 Inr have j: "J (es @ out) rs w1" "snd acc = sent + length out" "0 < chunk \<longrightarrow> out = ?L" by simp_all
    have i2: "(\<exists>k. out2 = [] @ take k ?R) \<and> (case r2 of Inl e \<Rightarrow> E (es @ out) (rs @ out2) w2
        | Inr _ \<Rightarrow> J (es @ out) (rs @ out2) w2 \<and> (0 < chunk \<longrightarrow> out2 = [] @ ?R))"
    proof (rule chunk_loop_invariant [OF c2, where I = "\<lambda>o1 _ w. J (es @ out) (rs @ o1) w"
          and E = "\<lambda>o1 w. E (es @ out) (rs @ o1) w"])
      show "J (es @ out) (rs @ []) w1" using j by simp
      fix o1 rows a w1 a' w2
      assume a: "J (es @ out) (rs @ o1) w1" "set rows \<subseteq> set ?R" "length rows \<le> chunk"
        "send_removals p post run (fst acc) a rows w1 = (Inr a', w2)"
      then obtain r where "push p post (removal_batch run (fst acc) rows) w1 = (Inr r, w2)"
        by (auto simp: send_removals_def split: prod.splits sum.splits)
      with keeps_removalsD(1) [OF keeps(2), of "es @ out" "rs @ o1" w1 run rows "fst acc" r w2] a assms(3)
      show "J (es @ out) (rs @ o1 @ rows) w2" by simp
    next
      fix o1 rows a w1 e w2
      assume a: "J (es @ out) (rs @ o1) w1" "set rows \<subseteq> set ?R" "length rows \<le> chunk"
        "send_removals p post run (fst acc) a rows w1 = (Inl e, w2)"
      then have "push p post (removal_batch run (fst acc) rows) w1 = (Inl e, w2)"
        by (auto simp: send_removals_def split: prod.splits sum.splits)
      with keeps_removalsD(2) [OF keeps(2), of "es @ out" "rs @ o1" w1 run rows "fst acc" e w2] a assms(3)
      show "E (es @ out) (rs @ o1) w2" by simp
    qed
    then have sub2: "set out2 \<subseteq> set ?R" using set_take_subset by fastforce
    have m: "marked {} (removal_key ` set out2) ?s1 = marked (staged_key ` set out) (removal_key ` set out2) s"
      by (simp add: marked_marked)
    from assms(1) d1 Inr d2 have "s' = marked (staged_key ` set out) (removal_key ` set out2) s" "w' = w2"
      "res = (case r2 of Inl e \<Rightarrow> Inl e | Inr _ \<Rightarrow> Inr (snd acc))"
      by (cases acc; cases r2; simp add: drain_run_def m)+
    with i2 j sub1 sub2 show ?thesis
      by (intro exI [of _ out] exI [of _ out2]) (auto split: sum.splits)
  qed
qed

lemma keeps_marked:
  assumes "staging_ok s" "set es \<subseteq> set (sq_entries s)" "set rs \<subseteq> set (sq_removals s)"
    and "\<And>e run. e \<in> set es \<Longrightarrow> run \<in> set runs \<Longrightarrow> sg_run e \<noteq> sr_id run"
    and "\<And>r run. r \<in> set rs \<Longrightarrow> run \<in> set runs \<Longrightarrow> rv_run r \<noteq> sr_id run"
    and run: "run \<in> set runs"
  shows "left_entries_of (sr_id run) (marked (staged_key ` set es) (removal_key ` set rs) s) = left_entries_of (sr_id run) s"
    and "left_removals_of (sr_id run) (marked (staged_key ` set es) (removal_key ` set rs) s) = left_removals_of (sr_id run) s"
  using left_entries_other [OF assms(1,2)] left_removals_other [OF assms(1,3)] assms(4,5) run by blast+

lemma left_entries_mem: "e \<in> set (left_entries_of i s) \<longleftrightarrow> e \<in> set (sq_entries s) \<and> sg_run e = i \<and> \<not> sg_pushed e"
  by (auto simp: left_entries_of_def)

lemma left_removals_mem: "r \<in> set (left_removals_of i s) \<longleftrightarrow> r \<in> set (sq_removals s) \<and> rv_run r = i \<and> \<not> rv_pushed r"
  by (auto simp: left_removals_of_def)

lemma drain_runs_invariant:
  assumes "drain_runs p chunk post facts runs sent (marked (staged_key ` set es) (removal_key ` set rs) s) w = (res, s', w')"
    and ok: "staging_ok s" "distinct (map sr_id runs)" and J: "J es rs w"
    and keeps: "keeps_entries p chunk post facts runs s J E" "keeps_removals p chunk post runs s J E"
    and old: "set es \<subseteq> {e \<in> set (sq_entries s). \<not> sg_pushed e}" "set rs \<subseteq> {r \<in> set (sq_removals s). \<not> rv_pushed r}"
      "\<forall>e \<in> set es. \<forall>run \<in> set runs. sg_run e \<noteq> sr_id run" "\<forall>r \<in> set rs. \<forall>run \<in> set runs. rv_run r \<noteq> sr_id run"
  shows "\<exists>es' rs'. s' = marked (staged_key ` set es') (removal_key ` set rs') s \<and>
    set es' \<subseteq> {e \<in> set (sq_entries s). \<not> sg_pushed e} \<and> set rs' \<subseteq> {r \<in> set (sq_removals s). \<not> rv_pushed r} \<and>
    (case res of
       Inl e \<Rightarrow> E es' rs' w'
     | Inr n \<Rightarrow> J es' rs' w' \<and>
         (0 < chunk \<longrightarrow> es' = es @ concat (map (\<lambda>run. left_entries_of (sr_id run) s) runs) \<and>
            rs' = rs @ concat (map (\<lambda>run. left_removals_of (sr_id run) s) runs) \<and> n + length es = sent + length es'))"
  using assms
proof (induction runs arbitrary: sent es rs w)
  case Nil
  then show ?case by (intro exI [of _ es] exI [of _ rs]) auto
next
  case (Cons run runs)
  let ?s1 = "marked (staged_key ` set es) (removal_key ` set rs) s"
  obtain r1 s1 w1 where d: "drain_run p chunk post facts run sent ?s1 w = (r1, s1, w1)" using prod_cases3 by blast
  have left: "left_entries_of (sr_id x) ?s1 = left_entries_of (sr_id x) s" "left_removals_of (sr_id x) ?s1 = left_removals_of (sr_id x) s"
    if "x \<in> set (run # runs)" for x
    using keeps_marked [OF ok(1) _ _ _ _ that, of es rs] Cons.prems(7-10) by auto
  have k1: "keeps_entries p chunk post facts [run] ?s1 J E" "keeps_removals p chunk post [run] ?s1 J E"
    using Cons.prems(5,6) left unfolding keeps_entries_def keeps_removals_def by simp_all
  obtain es1 rs1 where 1: "s1 = marked (staged_key ` set es1) (removal_key ` set rs1) ?s1"
    "set es1 \<subseteq> set (left_entries_of (sr_id run) s)" "set rs1 \<subseteq> set (left_removals_of (sr_id run) s)"
    "case r1 of Inl e \<Rightarrow> E (es @ es1) (rs @ rs1) w1
     | Inr n \<Rightarrow> J (es @ es1) (rs @ rs1) w1 \<and>
         (0 < chunk \<longrightarrow> es1 = left_entries_of (sr_id run) s \<and> rs1 = left_removals_of (sr_id run) s \<and> n = sent + length es1)"
  proof -
    have "staging_ok ?s1" "run \<in> set [run]" using ok(1) by simp_all
    from drain_run_invariant [OF d this Cons.prems(4) k1] that show thesis
      unfolding left(1) [OF list.set_intros(1)] left(2) [OF list.set_intros(1)] by blast
  qed
  have m: "s1 = marked (staged_key ` set (es @ es1)) (removal_key ` set (rs @ rs1)) s"
    unfolding 1(1) marked_marked by (simp add: image_Un Un_commute)
  have new: "set (es @ es1) \<subseteq> {e \<in> set (sq_entries s). \<not> sg_pushed e}" "set (rs @ rs1) \<subseteq> {r \<in> set (sq_removals s). \<not> rv_pushed r}"
    using Cons.prems(7,8) 1(2,3) left_entries_mem left_removals_mem by auto
  show ?case
  proof (cases r1)
    case (Inl e)
    with Cons.prems(1) d have "res = Inl e" "s' = s1" "w' = w1" by simp_all
    with 1(4) Inl m new show ?thesis by (intro exI [of _ "es @ es1"] exI [of _ "rs @ rs1"]) simp
  next
    case (Inr n)
    with Cons.prems(1) d m have rest: "drain_runs p chunk post facts runs n
        (marked (staged_key ` set (es @ es1)) (removal_key ` set (rs @ rs1)) s) w1 = (res, s', w')" by simp
    have k2: "keeps_entries p chunk post facts runs s J E" "keeps_removals p chunk post runs s J E"
      using Cons.prems(5,6) unfolding keeps_entries_def keeps_removals_def by simp_all
    have d2: "distinct (map sr_id runs)" and fresh: "\<And>x. x \<in> set runs \<Longrightarrow> sr_id x \<noteq> sr_id run"
      using Cons.prems(3) by (auto, metis imageI)
    have o3: "\<forall>e \<in> set (es @ es1). \<forall>x \<in> set runs. sg_run e \<noteq> sr_id x"
      using 1(2) Cons.prems(9) fresh left_entries_mem by (fastforce simp: subset_iff)
    have o4: "\<forall>r \<in> set (rs @ rs1). \<forall>x \<in> set runs. rv_run r \<noteq> sr_id x"
      using 1(3) Cons.prems(10) fresh left_removals_mem by (fastforce simp: subset_iff)
    have j: "J (es @ es1) (rs @ rs1) w1" using 1(4) Inr by simp
    from Cons.IH [OF rest ok(1) d2 j k2 new o3 o4] obtain es' rs' where
      2: "s' = marked (staged_key ` set es') (removal_key ` set rs') s"
      "set es' \<subseteq> {e \<in> set (sq_entries s). \<not> sg_pushed e}" "set rs' \<subseteq> {r \<in> set (sq_removals s). \<not> rv_pushed r}"
      "case res of Inl e \<Rightarrow> E es' rs' w'
       | Inr m \<Rightarrow> J es' rs' w' \<and>
           (0 < chunk \<longrightarrow> es' = (es @ es1) @ concat (map (\<lambda>run. left_entries_of (sr_id run) s) runs) \<and>
              rs' = (rs @ rs1) @ concat (map (\<lambda>run. left_removals_of (sr_id run) s) runs) \<and>
              m + length (es @ es1) = n + length es')" by blast
    with 1(4) Inr show ?thesis by (intro exI [of _ es'] exI [of _ rs']) (auto split: sum.splits)
  qed
qed

section \<open>Nothing is marked that was not acknowledged\<close>

text \<open>A core that keeps a acks of the batches it acknowledged.\<close>

definition logged :: "'w post \<Rightarrow> ('w \<times> ingest_batch list) post" where
  "logged post b wl =
     (case post b (fst wl) of
        (Inl e, w') \<Rightarrow> (Inl e, (w', snd wl))
      | (Inr r, w') \<Rightarrow> (Inr r, (w', snd wl @ [b])))"

lemma push_logged:
  "push p (logged post) b wl = (res, wl') \<Longrightarrow> snd wl' = (case res of Inl _ \<Rightarrow> snd wl | Inr _ \<Rightarrow> snd wl @ [b])"
proof -
  have "push_attempts n (logged post) b wl = (res, wl') \<Longrightarrow>
      snd wl' = (case res of Inl _ \<Rightarrow> snd wl | Inr _ \<Rightarrow> snd wl @ [b])" for n
    by (induction n arbitrary: wl) (auto simp: logged_def split: prod.splits sum.splits)
  then show "push p (logged post) b wl = (res, wl') \<Longrightarrow> snd wl' = (case res of Inl _ \<Rightarrow> snd wl | Inr _ \<Rightarrow> snd wl @ [b])"
    by (simp add: push_def)
qed

definition entry_acked :: "staging \<Rightarrow> ingest_batch list \<Rightarrow> staged_entry \<Rightarrow> bool" where
  "entry_acked s acks e \<longleftrightarrow>
     (\<exists>b \<in> set acks. \<exists>run \<in> set (sq_runs s). sr_id run = sg_run e \<and> b_volume b = volume_frame_of run \<and>
        hf_name (b_host b) = sr_host_id run \<and> b_mode b = sr_mode run \<and> row_to_entry e \<in> set (b_entries b))"

definition removal_acked :: "staging \<Rightarrow> ingest_batch list \<Rightarrow> staged_removal \<Rightarrow> bool" where
  "removal_acked s acks r \<longleftrightarrow>
     (\<exists>b \<in> set acks. \<exists>run \<in> set (sq_runs s). sr_id run = rv_run r \<and> b_volume b = volume_frame_of run \<and>
        hf_name (b_host b) = sr_host_id run \<and> b_mode b = ''metadata'' \<and> (rv_dev r, rv_inode r) \<in> set (b_removed b))"

definition batches_bounded :: "nat \<Rightarrow> ingest_batch list \<Rightarrow> bool" where
  "batches_bounded n acks \<longleftrightarrow>
     (\<forall>b \<in> set acks. length (b_entries b) \<le> n \<and> length (b_removed b) \<le> n \<and> length (b_removed_inodes b) \<le> n)"

lemma acked_mono:
  "entry_acked s acks e \<Longrightarrow> entry_acked s (acks @ acks') e" "removal_acked s acks r \<Longrightarrow> removal_acked s (acks @ acks') r"
  unfolding entry_acked_def removal_acked_def by auto

lemma pending_runs_mem:
  "run \<in> set (pending_runs s) \<longleftrightarrow> run \<in> set (sq_runs s) \<and> (left_entries_of (sr_id run) s \<noteq> [] \<or> left_removals_of (sr_id run) s \<noteq> [])"
  by (auto simp: pending_runs_def left_entries_of_def left_removals_of_def filter_empty_conv image_iff)

lemma pending_runs_distinct: "staging_ok s \<Longrightarrow> distinct (map sr_id (pending_runs s))"
proof -
  assume "staging_ok s"
  then have "distinct (map sr_id (filter P (sq_runs s)))" for P by (simp add: staging_ok_def distinct_map_filter)
  then show ?thesis unfolding pending_runs_def by (simp add: distinct_map)
qed

lemma pending_cover_entries:
  assumes "staging_ok s"
  shows "set (concat (map (\<lambda>run. left_entries_of (sr_id run) s) (pending_runs s))) = {e \<in> set (sq_entries s). \<not> sg_pushed e}"
proof -
  have "\<exists>run \<in> set (pending_runs s). e \<in> set (left_entries_of (sr_id run) s)" if "e \<in> set (sq_entries s)" "\<not> sg_pushed e" for e
  proof -
    from assms that(1) obtain run where "run \<in> set (sq_runs s)" "sr_id run = sg_run e" by (force simp: staging_ok_def)
    with that have "e \<in> set (left_entries_of (sr_id run) s)" "run \<in> set (sq_runs s)" by (simp_all add: left_entries_mem)
    then show ?thesis using pending_runs_mem by (metis empty_iff empty_set)
  qed
  then show ?thesis by (auto simp: left_entries_mem)
qed

lemma pending_cover_removals:
  assumes "staging_ok s"
  shows "set (concat (map (\<lambda>run. left_removals_of (sr_id run) s) (pending_runs s))) = {r \<in> set (sq_removals s). \<not> rv_pushed r}"
proof -
  have "\<exists>run \<in> set (pending_runs s). r \<in> set (left_removals_of (sr_id run) s)" if "r \<in> set (sq_removals s)" "\<not> rv_pushed r" for r
  proof -
    from assms that(1) obtain run where "run \<in> set (sq_runs s)" "sr_id run = rv_run r" by (force simp: staging_ok_def)
    with that have "r \<in> set (left_removals_of (sr_id run) s)" "run \<in> set (sq_runs s)" by (simp_all add: left_removals_mem)
    then show ?thesis using pending_runs_mem by (metis empty_iff empty_set)
  qed
  then show ?thesis by (auto simp: left_removals_mem)
qed

lemma pending_count:
  assumes "staging_ok s"
  shows "length (concat (map (\<lambda>run. left_entries_of (sr_id run) s) (pending_runs s))) = count_unpushed s"
proof -
  let ?es = "concat (map (\<lambda>run. left_entries_of (sr_id run) s) (pending_runs s))"
  have "distinct ?es"
  proof -
    have d: "distinct (left_entries_of i s)" for i
      using left_entries_distinct [OF assms, of i] by (simp add: distinct_map)
    have "distinct (concat (map (\<lambda>run. left_entries_of (sr_id run) s) runs))" if "distinct (map sr_id runs)" for runs
      using that
    proof (induction runs)
      case (Cons run runs)
      then show ?case by (auto simp: d left_entries_mem)
    qed simp
    with pending_runs_distinct [OF assms] show ?thesis by blast
  qed
  then have "length ?es = card {e \<in> set (sq_entries s). \<not> sg_pushed e}"
    using pending_cover_entries [OF assms] by (metis distinct_card)
  moreover have "distinct (sq_entries s)" using assms by (simp add: staging_ok_def distinct_map)
  ultimately show ?thesis
    unfolding count_unpushed_def by (metis distinct_card distinct_filter set_filter)
qed

lemma drain_invariant:
  assumes d: "drain p chunk post facts s w = (res, s', w')" and ok: "staging_ok s" "0 < chunk" and J: "J [] [] w"
    and keeps: "keeps_entries p chunk post facts (pending_runs s) s J E" "keeps_removals p chunk post (pending_runs s) s J E"
  obtains es rs where "s' = marked (staged_key ` set es) (removal_key ` set rs) s"
    "set es \<subseteq> {e \<in> set (sq_entries s). \<not> sg_pushed e}" "set rs \<subseteq> {r \<in> set (sq_removals s). \<not> rv_pushed r}"
    "case res of Inl e \<Rightarrow> E es rs w'
     | Inr n \<Rightarrow> J es rs w' \<and> set es = {e \<in> set (sq_entries s). \<not> sg_pushed e} \<and>
         set rs = {r \<in> set (sq_removals s). \<not> rv_pushed r} \<and> n = count_unpushed s"
proof -
  have d0: "drain_runs p chunk post facts (pending_runs s) 0 (marked (staged_key ` set []) (removal_key ` set []) s) w = (res, s', w')"
    using d by (simp add: drain_def)
  have none: "set [] \<subseteq> {e \<in> set (sq_entries s). \<not> sg_pushed e}" "set [] \<subseteq> {r \<in> set (sq_removals s). \<not> rv_pushed r}"
    "\<forall>e \<in> set []. \<forall>run \<in> set (pending_runs s). sg_run e \<noteq> sr_id run"
    "\<forall>r \<in> set []. \<forall>run \<in> set (pending_runs s). rv_run r \<noteq> sr_id run"
    by simp_all
  from drain_runs_invariant [OF d0 ok(1) pending_runs_distinct [OF ok(1)] J keeps none]
  show ?thesis
  proof (elim exE conjE)
    fix es rs
    assume x: "s' = marked (staged_key ` set es) (removal_key ` set rs) s"
      "set es \<subseteq> {e \<in> set (sq_entries s). \<not> sg_pushed e}" "set rs \<subseteq> {r \<in> set (sq_removals s). \<not> rv_pushed r}"
      "case res of Inl e \<Rightarrow> E es rs w'
       | Inr n \<Rightarrow> J es rs w' \<and>
           (0 < chunk \<longrightarrow> es = [] @ concat (map (\<lambda>run. left_entries_of (sr_id run) s) (pending_runs s)) \<and>
              rs = [] @ concat (map (\<lambda>run. left_removals_of (sr_id run) s) (pending_runs s)) \<and> n + length [] = 0 + length es)"
    show ?thesis
      by (rule that [OF x(1-3)])
        (use x(4) ok(2) pending_cover_entries [OF ok(1)] pending_cover_removals [OF ok(1)] pending_count [OF ok(1)] in
          \<open>auto split: sum.splits\<close>)
  qed
qed

text \<open>C32. A drain ends, whatever the core does with each batch. A row is marked pushed only when a batch
  with its frame, the name of its host, its volume and the mode of its run was acknowledged, be the drain
  completed or broken off; no batch exceeds the chunk size; and a drain that returns has sent everything
  and tells how many entries that were.\<close>

theorem drain_marks_acknowledged:
  assumes ok: "staging_ok s" "0 < chunk"
    and run: "drain p chunk (logged post) facts s (w, []) = (res, s', (w', acks))"
  shows "\<exists>A B. s' = marked A B s \<and> batches_bounded chunk acks \<and>
    (\<forall>e \<in> set (sq_entries s). staged_key e \<in> A \<and> \<not> sg_pushed e \<longrightarrow> entry_acked s acks e) \<and>
    (\<forall>r \<in> set (sq_removals s). removal_key r \<in> B \<and> \<not> rv_pushed r \<longrightarrow> removal_acked s acks r) \<and>
    (\<forall>n. res = Inr n \<longrightarrow> n = count_unpushed s \<and> (\<forall>e \<in> set (sq_entries s'). sg_pushed e) \<and>
       (\<forall>r \<in> set (sq_removals s'). rv_pushed r))"
proof -
  let ?J = "\<lambda>es rs (wl :: 'a \<times> ingest_batch list). batches_bounded chunk (snd wl) \<and>
    (\<forall>e \<in> set es. entry_acked s (snd wl) e) \<and> (\<forall>r \<in> set rs. removal_acked s (snd wl) r)"
  have runs: "run \<in> set (sq_runs s)" if "run \<in> set (pending_runs s)" for run
    using that pending_runs_mem by blast
  have k1: "keeps_entries p chunk (logged post) facts (pending_runs s) s ?J ?J"
    unfolding keeps_entries_def sends_entries_def
  proof (intro ballI allI impI)
    fix run es rs snap rows wl res wl'
    assume r: "run \<in> set (pending_runs s)"
      and a: "?J es rs wl \<and> set rows \<subseteq> set (left_entries_of (sr_id run) s) \<and> length rows \<le> chunk \<and>
        push p (logged post) (entry_batch facts run snap rows) wl = (res, wl')"
    then have l: "snd wl' = (case res of Inl _ \<Rightarrow> snd wl | Inr _ \<Rightarrow> snd wl @ [entry_batch facts run snap rows])"
      using push_logged by blast
    show "case res of Inl e \<Rightarrow> ?J es rs wl' | Inr r \<Rightarrow> ?J (es @ rows) rs wl'"
    proof (cases res)
      case (Inl x)
      with a l show ?thesis by simp
    next
      case (Inr x)
      have "entry_acked s (snd wl') e" if "e \<in> set rows" for e
        using that a runs [OF r] l Inr
        by (auto simp: entry_acked_def entry_batch_def host_frame_of_def left_entries_mem subset_iff)
      with a l Inr show ?thesis
        by (auto simp: acked_mono batches_bounded_def entry_batch_def)
    qed
  qed
  have k2: "keeps_removals p chunk (logged post) (pending_runs s) s ?J ?J"
    unfolding keeps_removals_def sends_removals_def
  proof (intro ballI allI impI)
    fix run es rs snap rows wl res wl'
    assume r: "run \<in> set (pending_runs s)"
      and a: "?J es rs wl \<and> set rows \<subseteq> set (left_removals_of (sr_id run) s) \<and> length rows \<le> chunk \<and>
        push p (logged post) (removal_batch run snap rows) wl = (res, wl')"
    then have l: "snd wl' = (case res of Inl _ \<Rightarrow> snd wl | Inr _ \<Rightarrow> snd wl @ [removal_batch run snap rows])"
      using push_logged by blast
    show "case res of Inl e \<Rightarrow> ?J es rs wl' | Inr r \<Rightarrow> ?J es (rs @ rows) wl'"
    proof (cases res)
      case (Inl x)
      with a l show ?thesis by simp
    next
      case (Inr x)
      have "removal_acked s (snd wl') v" if "v \<in> set rows" for v
        using that a runs [OF r] l Inr
        by (auto simp: removal_acked_def removal_batch_def host_frame_of_def left_removals_mem subset_iff)
      with a l Inr show ?thesis
        by (auto simp: acked_mono batches_bounded_def removal_batch_def)
    qed
  qed
  have J0: "?J [] [] (w, [])" by (simp add: batches_bounded_def)
  obtain es rs where x: "s' = marked (staged_key ` set es) (removal_key ` set rs) s"
    "set es \<subseteq> {e \<in> set (sq_entries s). \<not> sg_pushed e}" "set rs \<subseteq> {r \<in> set (sq_removals s). \<not> rv_pushed r}"
    "case res of Inl e \<Rightarrow> ?J es rs (w', acks)
     | Inr n \<Rightarrow> ?J es rs (w', acks) \<and> set es = {e \<in> set (sq_entries s). \<not> sg_pushed e} \<and>
         set rs = {r \<in> set (sq_removals s). \<not> rv_pushed r} \<and> n = count_unpushed s"
    using drain_invariant [OF run ok J0 k1 k2] by blast
  then have J: "?J es rs (w', acks)" by (auto split: sum.splits)
  have e: "e \<in> set es" if "e \<in> set (sq_entries s)" "staged_key e \<in> staged_key ` set es" for e
    using that x(2) staged_key_unique [OF ok(1)] by blast
  have r: "r \<in> set rs" if "r \<in> set (sq_removals s)" "removal_key r \<in> removal_key ` set rs" for r
    using that x(3) removal_key_unique [OF ok(1)] by blast
  have all: "n = count_unpushed s \<and> (\<forall>e \<in> set (sq_entries s'). sg_pushed e) \<and> (\<forall>r \<in> set (sq_removals s'). rv_pushed r)"
    if "res = Inr n" for n
  proof -
    from x(4) that have "set es = {e \<in> set (sq_entries s). \<not> sg_pushed e}" "n = count_unpushed s"
      "set rs = {r \<in> set (sq_removals s). \<not> rv_pushed r}" by simp_all
    then show ?thesis unfolding x(1) by (auto simp: marked_def)
  qed
  show ?thesis
    by (intro exI [of _ "staged_key ` set es"] exI [of _ "removal_key ` set rs"] conjI)
      (use x(1) J e r all in auto)
qed

section \<open>A drain\<close>

definition sample_row :: "string \<Rightarrow> int \<Rightarrow> bool \<Rightarrow> staged_entry" where
  "sample_row path inode pushed =
     (staged_row 1 ''h'' ''/d'' \<lparr> se_path = path, se_name = [], se_is_dir = False, se_is_symlink = False,
        se_size_logical = 7, se_size_on_disk = 7, se_mtime = 5, se_ctime = 5, se_uid = 0, se_gid = 0,
        se_inode = inode, se_dev = 1, se_flags = [] \<rparr>)\<lparr> sg_pushed := pushed \<rparr>"

definition sample_queue :: staging where
  "sample_queue = \<lparr>
     sq_runs = [\<lparr> sr_id = 1, sr_host_id = ''h'', sr_volume_id = ''/d'', sr_mode = ''metadata'', sr_root = ''/d'',
       sr_started_at = 1, sr_finished_at = Some 2, sr_entry_count = 3, sr_warning_ack = None, sr_volume = None \<rparr>],
     sq_next_run = 2, sq_entries = [sample_row ''/d/a'' 11 False, sample_row ''/d/b'' 12 True, sample_row ''/d/c'' 13 False],
     sq_removals = [removal_row 1 ''h'' ''/d'' (1, 10, ''/d/gone'')] \<rparr>"

text \<open>A core that fails every other POST.\<close>

definition sample_post :: "nat post" where
  "sample_post b n =
     (if even n then (Inl ''timeout'', Suc n)
      else (Inr \<lparr> r_snapshot_id = 9, r_host_id = 1, r_volume_id = 1, r_entries_received = 1, r_entries_rejected = 0,
              r_entries_removed = 0, r_changes_logged = 0 \<rparr>, Suc n))"

abbreviation sample_drain where
  "sample_drain \<equiv> drain default_retry 1 (logged sample_post) None sample_queue (0, [])"

lemma sample_drain_sent: "fst sample_drain = Inr 2"
  by code_simp

theorem drain_marks_acknowledged_witness:
  "filter (\<lambda>e. \<not> sg_pushed e) (sq_entries (fst (snd sample_drain))) = []"
proof -
  have ok: "staging_ok sample_queue" by code_simp
  have "sample_drain = (Inr 2, fst (snd sample_drain), (fst (snd (snd sample_drain)), snd (snd (snd sample_drain))))"
    using sample_drain_sent by (metis prod.collapse)
  from drain_marks_acknowledged [OF ok _ this] show ?thesis by auto
qed

end
