(* ===== verification/Feed.thy ===== *)
theory Feed
  imports Staging
begin

text \<open>
  The change feeds of an incremental cycle (\<open>agent/reader/feed.py\<close>): the events, their reduction to
  a delta, the feed that walks the tree again and compares, and the one that reads \<open>zfs diff\<close>. A feed
  is the list of the events it yields, or the exception it ends in. The output of \<open>zfs diff\<close> is an
  argument.
\<close>

section \<open>Storage backends\<close>

text \<open>What the scanners call of a \<open>StorageBackend\<close>: \<open>volume_info(root)\<close>, and \<open>walk(root,
  one_filesystem, exclude)\<close>, the entries it yields before it ends or raises. The digests are what the hasher
  makes of an opened file; an \<open>OSError\<close> concerns one file, the other failure the whole backend.\<close>

datatype hash_failure = Os_Failure string | Full_Bit_Unsupported string

record backend =
  bk_volume_info :: "string \<Rightarrow> (string, volume_info) result"
  bk_walk :: "string \<Rightarrow> bool \<Rightarrow> string list \<Rightarrow> scan_entry list \<times> string option"
  bk_partial :: "string \<Rightarrow> int \<Rightarrow> (hash_failure, string) result"
  bk_full :: "string \<Rightarrow> (hash_failure, string) result"

section \<open>Events and deltas\<close>

datatype event_kind = Ev_Create | Ev_Modify | Ev_Delete

record change_event =
  ev_kind :: event_kind
  ev_path :: string
  ev_inode :: int
  ev_entry :: "scan_entry option"
  ev_dev :: int

text \<open>The constructor and its check.\<close>

definition new_event :: "event_kind \<Rightarrow> string \<Rightarrow> int \<Rightarrow> scan_entry option \<Rightarrow> int \<Rightarrow> (string, change_event) result" where
  "new_event kind path inode entry dev =
     (if kind \<noteq> Ev_Delete \<and> entry = None then Inl ''requires an entry''
      else Inr \<lparr> ev_kind = kind, ev_path = path, ev_inode = inode, ev_entry = entry, ev_dev = dev \<rparr>)"

record change_delta =
  cd_upserts :: "scan_entry list"
  cd_removals :: "(int \<times> int \<times> string) list"

definition removed_keys_of :: "change_delta \<Rightarrow> (int \<times> int) list" where
  "removed_keys_of d = map (\<lambda>(dev, inode, path). (dev, inode)) (cd_removals d)"

definition removed_inodes_of :: "change_delta \<Rightarrow> int list" where
  "removed_inodes_of d = map (\<lambda>(dev, inode, path). inode) (cd_removals d)"

definition delta_is_empty :: "change_delta \<Rightarrow> bool" where
  "delta_is_empty d \<longleftrightarrow> cd_upserts d = [] \<and> cd_removals d = []"

definition entry_dev_inode :: "scan_entry \<Rightarrow> int \<times> int" where
  "entry_dev_inode e = (se_dev e, se_inode e)"

definition dict_pop :: "'k \<Rightarrow> ('k \<times> 'v) list \<Rightarrow> ('k \<times> 'v) list" where
  "dict_pop k d = filter (\<lambda>kv. fst kv \<noteq> k) d"

text \<open>The state of the loop: pending upserts, removals and the keys created in this cycle.\<close>

type_synonym collect_state =
  "((int \<times> int) \<times> scan_entry) list \<times> ((int \<times> int) \<times> string) list \<times> (int \<times> int) set"

fun collect_event :: "change_event \<Rightarrow> collect_state \<Rightarrow> (string, collect_state) result" where
  "collect_event ev (upserts, removed, created) =
     (let key = (ev_dev ev, ev_inode ev)
      in if ev_kind ev = Ev_Delete
         then (let had_pending = (dict_get upserts key \<noteq> None)
               in if had_pending \<and> key \<in> created
                  then Inr (dict_pop key upserts, removed, created - {key})
                  else Inr (dict_pop key upserts, dict_set key (ev_path ev) removed, created))
         else (case ev_entry ev of
                 None \<Rightarrow> Inl ''AssertionError''
               | Some e \<Rightarrow>
                   Inr (dict_set key e upserts, dict_pop key removed,
                        if ev_kind ev = Ev_Create then insert key created else created)))"

fun collect_events :: "change_event list \<Rightarrow> collect_state \<Rightarrow> (string, collect_state) result" where
  "collect_events [] s = Inr s"
| "collect_events (ev # evs) s = rbind (collect_event ev s) (collect_events evs)"

definition delta_of :: "collect_state \<Rightarrow> change_delta" where
  "delta_of s =
     (case s of (upserts, removed, created) \<Rightarrow>
        \<lparr> cd_upserts = map snd upserts, cd_removals = map (\<lambda>((dev, inode), path). (dev, inode, path)) (sort removed) \<rparr>)"

definition collect_delta :: "(string, change_event list) result \<Rightarrow> (string, change_delta) result" where
  "collect_delta feed = rbind feed (\<lambda>evs. rbind (collect_events evs ([], [], {})) (\<lambda>s. Inr (delta_of s)))"

section \<open>Walking again\<close>

type_synonym baseline = "((int \<times> int) \<times> (int \<times> string)) list"

definition entry_event :: "event_kind \<Rightarrow> scan_entry \<Rightarrow> change_event" where
  "entry_event kind e =
     \<lparr> ev_kind = kind, ev_path = se_path e, ev_inode = se_inode e, ev_entry = Some e, ev_dev = se_dev e \<rparr>"

definition delete_event :: "(int \<times> int) \<times> (int \<times> string) \<Rightarrow> change_event" where
  "delete_event b =
     (case b of ((dev, inode), (mtime, path)) \<Rightarrow>
        \<lparr> ev_kind = Ev_Delete, ev_path = path, ev_inode = inode, ev_entry = None, ev_dev = dev \<rparr>)"

definition restat_event :: "baseline \<Rightarrow> scan_entry \<Rightarrow> change_event option" where
  "restat_event b e =
     (case dict_get b (entry_dev_inode e) of
        None \<Rightarrow> Some (entry_event Ev_Create e)
      | Some (mtime, path) \<Rightarrow>
          if mtime \<noteq> se_mtime e \<or> path \<noteq> se_path e then Some (entry_event Ev_Modify e) else None)"

definition restat_events :: "baseline \<Rightarrow> scan_entry list \<Rightarrow> change_event list" where
  "restat_events b es =
     List.map_filter (restat_event b) es @
     map delete_event (filter (\<lambda>x. fst x \<notin> entry_dev_inode ` set es) b)"

definition restat_changes :: "backend \<Rightarrow> baseline \<Rightarrow> string list \<Rightarrow> string \<Rightarrow> (string, change_event list) result" where
  "restat_changes bk b exclude root_path =
     (case bk_walk bk root_path True exclude of
        (es, Some err) \<Rightarrow> Inl err
      | (es, None) \<Rightarrow> Inr (restat_events b es))"

section \<open>Reading \<open>zfs diff\<close>\<close>

definition is_space :: "char \<Rightarrow> bool" where
  "is_space c = (let n = (of_char c :: nat) in
     (9 \<le> n \<and> n \<le> 13) \<or> (28 \<le> n \<and> n \<le> 32) \<or> n = 133 \<or> n = 160)"

text \<open>\<open>line.split()\<close>.\<close>

fun split_when :: "('a \<Rightarrow> bool) \<Rightarrow> 'a list \<Rightarrow> 'a list list" where
  "split_when P [] = [[]]"
| "split_when P (c # cs) =
     (if P c then [] # split_when P cs
      else (case split_when P cs of [] \<Rightarrow> [[c]] | w # ws \<Rightarrow> (c # w) # ws))"

definition py_words :: "string \<Rightarrow> string list" where
  "py_words s = filter (\<lambda>w. w \<noteq> []) (split_when is_space s)"

definition stat_one :: "backend \<Rightarrow> string \<Rightarrow> (string, scan_entry option) result" where
  "stat_one bk path =
     (case bk_walk bk path True [] of
        (es, err) \<Rightarrow>
          (case List.find (\<lambda>e. se_path e = path) es of
             Some e \<Rightarrow> Inr (Some e)
           | None \<Rightarrow> (case err of None \<Rightarrow> Inr None | Some x \<Rightarrow> Inl x)))"

text \<open>A removed path that the baseline does not know is dropped. The device is left at 0.\<close>

definition gone_event :: "(string \<times> int) list \<Rightarrow> string \<Rightarrow> change_event option" where
  "gone_event baseline_paths path =
     map_option (\<lambda>inode. \<lparr> ev_kind = Ev_Delete, ev_path = path, ev_inode = inode, ev_entry = None, ev_dev = 0 \<rparr>)
       (dict_get baseline_paths path)"

definition found_event :: "event_kind \<Rightarrow> string \<Rightarrow> scan_entry \<Rightarrow> change_event" where
  "found_event kind path e =
     \<lparr> ev_kind = kind, ev_path = path, ev_inode = se_inode e, ev_entry = Some e, ev_dev = se_dev e \<rparr>"

definition rename_event ::
  "backend \<Rightarrow> (string \<times> int) list \<Rightarrow> string list \<Rightarrow> string \<Rightarrow> string \<Rightarrow> string \<Rightarrow>
   (string, change_event option) result" where
  "rename_event bk baseline_paths excluded root_path old new =
     (if \<not> startswith new root_path \<or> is_excluded_path new excluded then Inr (gone_event baseline_paths old)
      else rbind (stat_one bk new) (\<lambda>found. Inr (map_option (found_event Ev_Modify new) found)))"

definition parse_line ::
  "backend \<Rightarrow> (string \<times> int) list \<Rightarrow> string list \<Rightarrow> string \<Rightarrow> string \<Rightarrow> (string, change_event option) result" where
  "parse_line bk baseline_paths excluded root_path line =
     (case (if CHR 0x09 \<in> set line then py_split (CHR 0x09) line else py_words line) of
        change # path # others \<Rightarrow>
          if \<not> startswith path root_path then Inr None
          else if is_excluded_path path excluded then Inr None
          else if change = ''-'' then Inr (gone_event baseline_paths path)
          else if change = ''+'' \<or> change = ''M'' then
            rbind (stat_one bk path) (\<lambda>found.
              Inr (map_option (found_event (if change = ''+'' then Ev_Create else Ev_Modify) path) found))
          else if change = ''R'' \<and> others \<noteq> [] then rename_event bk baseline_paths excluded root_path path (hd others)
          else Inr None
      | _ \<Rightarrow> Inr None)"

fun zfs_changes ::
  "backend \<Rightarrow> (string \<times> int) list \<Rightarrow> string list \<Rightarrow> string \<Rightarrow> string list \<Rightarrow> (string, change_event list) result" where
  "zfs_changes bk baseline_paths excluded root_path [] = Inr []"
| "zfs_changes bk baseline_paths excluded root_path (line # lines) =
     rbind (parse_line bk baseline_paths excluded root_path line) (\<lambda>ev.
     rbind (zfs_changes bk baseline_paths excluded root_path lines) (\<lambda>evs.
       Inr (case ev of None \<Rightarrow> evs | Some x \<Rightarrow> x # evs)))"

section \<open>What a delta holds\<close>

lemma dict_pop_get [simp]: "dict_get (dict_pop k d) = (dict_get d)(k := None)"
  by (induction d) (auto simp: dict_pop_def fun_eq_iff)

lemma distinct_dict_pop: "distinct (map fst d) \<Longrightarrow> distinct (map fst (dict_pop k d))"
  by (simp add: dict_pop_def distinct_map_filter)

lemma keys_dict_pop: "fst ` set (dict_pop k d) = fst ` set d - {k}"
  by (auto simp: dict_pop_def)

definition event_key :: "change_event \<Rightarrow> int \<times> int" where
  "event_key ev = (ev_dev ev, ev_inode ev)"

text \<open>A run of creations and modifications, then a run of deletions of other keys.\<close>

lemma collect_entry_events:
  assumes "\<And>ev. ev \<in> set evs \<Longrightarrow> ev_kind ev \<noteq> Ev_Delete \<and> ev_entry ev \<noteq> None"
  shows "\<exists>created'. collect_events evs (upserts, [], created) =
    Inr (fold (\<lambda>ev. dict_set (event_key ev) (the (ev_entry ev))) evs upserts, [], created')"
  using assms
proof (induction evs arbitrary: upserts created)
  case (Cons ev evs)
  from Cons.prems obtain e where "ev_entry ev = Some e" "ev_kind ev \<noteq> Ev_Delete" by fastforce
  with Cons show ?case by (simp add: event_key_def dict_pop_def Let_def)
qed simp

lemma collect_delete_events:
  assumes "\<And>ev. ev \<in> set evs \<Longrightarrow> ev_kind ev = Ev_Delete \<and> event_key ev \<notin> fst ` set upserts"
  shows "collect_events evs (upserts, removed, created) =
    Inr (upserts, fold (\<lambda>ev. dict_set (event_key ev) (ev_path ev)) evs removed, created)"
  using assms
proof (induction evs arbitrary: removed)
  case (Cons ev evs)
  then have k: "(ev_dev ev, ev_inode ev) \<notin> fst ` set upserts" and d: "ev_kind ev = Ev_Delete"
    by (auto simp: event_key_def)
  from k have "dict_get upserts (ev_dev ev, ev_inode ev) = None" by (simp add: map_of_eq_None_iff)
  moreover from k have "dict_pop (ev_dev ev, ev_inode ev) upserts = upserts"
    by (force simp: dict_pop_def filter_id_conv)
  ultimately show ?case using Cons d by (simp add: event_key_def)
qed simp

lemma dict_set_fresh: "k \<notin> fst ` set d \<Longrightarrow> dict_set k v d = d @ [(k, v)]"
  by (induction d) auto

lemma fold_dict_set_fresh:
  "distinct (map f xs) \<Longrightarrow> f ` set xs \<inter> fst ` set d = {} \<Longrightarrow>
    fold (\<lambda>x. dict_set (f x) (g x)) xs d = d @ map (\<lambda>x. (f x, g x)) xs"
proof (induction xs arbitrary: d)
  case (Cons x xs)
  then show ?case by (auto simp: dict_set_fresh)
qed simp

section \<open>What the walk finds\<close>

definition entry_changed :: "baseline \<Rightarrow> scan_entry \<Rightarrow> bool" where
  "entry_changed b e \<longleftrightarrow>
     (case dict_get b (entry_dev_inode e) of
        None \<Rightarrow> True | Some (mtime, path) \<Rightarrow> mtime \<noteq> se_mtime e \<or> path \<noteq> se_path e)"

definition entry_kind :: "baseline \<Rightarrow> scan_entry \<Rightarrow> event_kind" where
  "entry_kind b e = (if dict_get b (entry_dev_inode e) = None then Ev_Create else Ev_Modify)"

lemma restat_event_changed:
  "restat_event b e = (if entry_changed b e then Some (entry_event (entry_kind b e) e) else None)"
  by (auto simp: restat_event_def entry_changed_def entry_kind_def split: option.splits)

lemma restat_entry_events:
  "List.map_filter (restat_event b) es = map (\<lambda>e. entry_event (entry_kind b e) e) (filter (entry_changed b) es)"
  by (induction es) (simp_all add: List.map_filter_simps restat_event_changed)

definition removed_of :: "baseline \<Rightarrow> scan_entry list \<Rightarrow> (int \<times> int \<times> string) list" where
  "removed_of b es =
     map (\<lambda>((dev, inode), path). (dev, inode, path))
       (sort (map (\<lambda>x. (fst x, snd (snd x))) (filter (\<lambda>x. fst x \<notin> entry_dev_inode ` set es) b)))"

lemma restat_delta:
  assumes "distinct (map entry_dev_inode es)" "distinct (map fst b)"
  shows "collect_delta (Inr (restat_events b es)) =
    Inr \<lparr> cd_upserts = filter (entry_changed b) es, cd_removals = removed_of b es \<rparr>"
proof -
  let ?up = "map (\<lambda>e. entry_event (entry_kind b e) e) (filter (entry_changed b) es)"
  let ?gone = "filter (\<lambda>x. fst x \<notin> entry_dev_inode ` set es) b"
  let ?U = "map (\<lambda>e. (entry_dev_inode e, e)) (filter (entry_changed b) es)"
  have key [simp]: "event_key (entry_event k e) = entry_dev_inode e" for k e
    by (simp add: event_key_def entry_event_def entry_dev_inode_def)
  have entry [simp]: "ev_entry (entry_event k e) = Some e" for k e by (simp add: entry_event_def)
  have dkey [simp]: "event_key (delete_event x) = fst x" for x
    by (simp add: event_key_def delete_event_def split: prod.splits)
  have dpath [simp]: "ev_path (delete_event x) = snd (snd x)" for x
    by (simp add: delete_event_def split: prod.splits)
  have dkind [simp]: "ev_kind (delete_event x) = Ev_Delete" for x
    by (simp add: delete_event_def split: prod.splits)
  have "\<exists>created'. collect_events ?up ([], [], {}) =
      Inr (fold (\<lambda>ev. dict_set (event_key ev) (the (ev_entry ev))) ?up [], [], created')"
    by (rule collect_entry_events) (auto simp: entry_kind_def entry_event_def split: if_splits)
  moreover have "fold (\<lambda>ev. dict_set (event_key ev) (the (ev_entry ev))) ?up [] = ?U"
    using fold_dict_set_fresh [of entry_dev_inode "filter (entry_changed b) es" "[]" "\<lambda>e. e"] assms(1)
    by (simp add: fold_map comp_def distinct_map_filter)
  ultimately obtain created' where up: "collect_events ?up ([], [], {}) = Inr (?U, [], created')" by auto
  have "collect_events (map delete_event ?gone) (?U, [], created') =
      Inr (?U, fold (\<lambda>ev. dict_set (event_key ev) (ev_path ev)) (map delete_event ?gone) [], created')"
    by (rule collect_delete_events) (auto simp: image_image)
  moreover have "fold (\<lambda>ev. dict_set (event_key ev) (ev_path ev)) (map delete_event ?gone) [] =
      map (\<lambda>x. (fst x, snd (snd x))) ?gone"
    using fold_dict_set_fresh [of fst ?gone "[]" "\<lambda>x. snd (snd x)"] assms(2)
    by (simp add: fold_map comp_def distinct_map_filter)
  ultimately have down: "collect_events (map delete_event ?gone) (?U, [], created') =
      Inr (?U, map (\<lambda>x. (fst x, snd (snd x))) ?gone, created')" by simp
  have app: "collect_events (xs @ ys) s = rbind (collect_events xs s) (collect_events ys)" for xs ys s
    by (induction xs arbitrary: s) (auto simp: rbind_def split: sum.splits)
  show ?thesis
    unfolding collect_delta_def restat_events_def restat_entry_events rbind_simps app up down
    by (simp add: delta_of_def removed_of_def comp_def)
qed

section \<open>Two removals that go missing\<close>

text \<open>A key deleted, created and deleted again in one cycle: the catalogue keeps a file that is gone.\<close>

lemma deleted_twice_kept:
  assumes "ev_kind d = Ev_Delete" "ev_kind c = Ev_Create" "ev_entry c = Some e" "event_key d = event_key c"
  shows "collect_delta (Inr [d, c, d]) = Inr \<lparr> cd_upserts = [], cd_removals = [] \<rparr>"
  using assms by (auto simp: collect_delta_def Let_def event_key_def dict_pop_def delta_of_def)


end
