(* ===== verification/Core_Api.thy ===== *)
theory Core_Api
  imports Push_Facts Feed
begin

text \<open>
  What a core promises its agents (\<open>core_api\<close>), and what it shows of a volume once an agent has drained
  its queue, however many requests and replies were lost on the way. \<open>Core_Ingest\<close> shows that
  \<open>core/ingest.py\<close> keeps the promise.
\<close>

section \<open>What the core shows\<close>

text \<open>The modification time and the size of the entry a volume has under a device and an inode, if it is
  present.\<close>

type_synonym shown_entries = "int \<times> int \<Rightarrow> (int \<times> int) option"

definition frame_fact :: "entry_frame \<Rightarrow> (int \<times> int) \<times> int \<times> int" where
  "frame_fact e = ((ef_dev e, ef_inode e), (ef_mtime e, ef_size_logical e))"

definition facts_map :: "('a \<Rightarrow> (int \<times> int) \<times> int \<times> int) \<Rightarrow> 'a list \<Rightarrow> shown_entries" where
  "facts_map f xs = map_of (rev (map f xs))"

definition batch_effect :: "ingest_batch \<Rightarrow> shown_entries \<Rightarrow> shown_entries" where
  "batch_effect b L = (L ++ facts_map frame_fact (b_entries b)) |` (- set (b_removed b))"

definition shown :: "ingest_batch \<Rightarrow> (string \<Rightarrow> shown_entries) \<Rightarrow> string \<Rightarrow> shown_entries" where
  "shown b L = L(vf_mountpoint (b_volume b) := batch_effect b (L (vf_mountpoint (b_volume b))))"

lemma batch_effect_again: "batch_effect b (batch_effect b L) = batch_effect b L"
  by (auto simp: batch_effect_def restrict_map_def map_add_def fun_eq_iff split: option.splits)

lemma shown_again: "shown b (shown b L) = shown b L"
  by (simp add: shown_def batch_effect_again)

text \<open>A batch the core takes in whole: metadata, with paths at or under the mountpoint.\<close>

definition entry_fits :: "string \<Rightarrow> string \<Rightarrow> bool" where
  "entry_fits mountpoint path \<longleftrightarrow>
     (case (validate_agent_path mountpoint, validate_agent_path path) of
        (Some mount, Some candidate) \<Rightarrow> Ingest.within mount candidate | _ \<Rightarrow> False)"

definition deliverable :: "ingest_batch \<Rightarrow> bool" where
  "deliverable b \<longleftrightarrow>
     b_mode b = ''metadata'' \<and> (b_removed b = [] \<longrightarrow> b_removed_inodes b = []) \<and>
     (\<forall>e \<in> set (b_entries b). entry_fits (vf_mountpoint (b_volume b)) (ef_path e))"

section \<open>The core's promise\<close>

text \<open>A batch that is acknowledged is shown; one that is not may be shown as well, the reply being lost.\<close>

locale core_api =
  fixes post :: "'w post" and sound :: "'w \<Rightarrow> bool" and live :: "'w \<Rightarrow> string \<Rightarrow> shown_entries"
  assumes acknowledged:
      "\<lbrakk> sound w; deliverable b; post b w = (Inr r, w') \<rbrakk> \<Longrightarrow> sound w' \<and> live w' = shown b (live w)"
    and failed:
      "\<lbrakk> sound w; deliverable b; post b w = (Inl e, w') \<rbrakk> \<Longrightarrow>
        sound w' \<and> (live w' = live w \<or> live w' = shown b (live w))"
begin

lemma push_effect:
  assumes "sound w" "deliverable b" "push p post b w = (res, w')"
  shows "sound w' \<and> (case res of Inr _ \<Rightarrow> live w' = shown b (live w)
    | Inl _ \<Rightarrow> live w' = live w \<or> live w' = shown b (live w))"
proof -
  have "push_attempts n post b w = (res, w') \<Longrightarrow> sound w \<Longrightarrow>
      sound w' \<and> (case res of Inr _ \<Rightarrow> live w' = shown b (live w)
        | Inl _ \<Rightarrow> live w' = live w \<or> live w' = shown b (live w))" for n
  proof (induction n arbitrary: w)
    case (Suc n)
    obtain r w1 where r: "post b w = (r, w1)" by fastforce
    show ?case
    proof (cases r)
      case (Inr x)
      with Suc.prems r acknowledged [OF Suc.prems(2) assms(2)] show ?thesis by auto
    next
      case (Inl e)
      with Suc.prems(1) r have "push_attempts n post b w1 = (res, w')" by simp
      moreover from failed [OF Suc.prems(2) assms(2)] r Inl
      have "sound w1" "live w1 = live w \<or> live w1 = shown b (live w)" by auto
      ultimately show ?thesis using Suc.IH [of w1] shown_again by (auto split: sum.splits)
    qed
  qed auto
  with assms show ?thesis by (simp add: push_def)
qed

end

section \<open>Rows as facts\<close>

definition row_fact :: "staged_entry \<Rightarrow> (int \<times> int) \<times> int \<times> int" where
  "row_fact e = (entry_dev_inode (sg_entry e), (se_mtime (sg_entry e), se_size_logical (sg_entry e)))"

definition row_id :: "staged_removal \<Rightarrow> int \<times> int" where
  "row_id r = (rv_dev r, rv_inode r)"

lemma frame_fact_row [simp]: "frame_fact (row_to_entry e) = row_fact e"
  by (simp add: frame_fact_def row_to_entry_def row_fact_def entry_dev_inode_def Let_def)

lemma facts_map_append: "facts_map f (xs @ ys) = facts_map f xs ++ facts_map f ys"
  by (simp add: facts_map_def)

lemma facts_map_map: "facts_map f (map g xs) = facts_map (f \<circ> g) xs"
  by (simp add: facts_map_def rev_map comp_def)

lemma restrict_UNIV [simp]: "M |` UNIV = M"
  by (simp add: restrict_map_def)

lemma facts_map_Some: "facts_map f xs k = Some x \<Longrightarrow> \<exists>y \<in> set xs. f y = (k, x)"
  unfolding facts_map_def by (force dest: map_of_SomeD)

lemma facts_map_None: "facts_map f xs k = None \<longleftrightarrow> k \<notin> fst ` f ` set xs"
  by (auto simp: facts_map_def map_of_eq_None_iff image_image)

lemma entry_batch_effect:
  "batch_effect (entry_batch facts run snap rows) L = L ++ facts_map row_fact rows"
  by (simp add: batch_effect_def entry_batch_def facts_map_map comp_def)

lemma removal_batch_effect:
  "batch_effect (removal_batch run snap rows) L = L |` (- row_id ` set rows)"
  by (simp add: batch_effect_def removal_batch_def facts_map_def row_id_def [abs_def] image_image)

lemma batch_mount:
  "vf_mountpoint (b_volume (entry_batch facts run snap rows)) = vf_mountpoint (volume_frame_of run)"
  "vf_mountpoint (b_volume (removal_batch run snap rs)) = vf_mountpoint (volume_frame_of run)"
  by (simp_all add: entry_batch_def removal_batch_def)

text \<open>A queue whose pending rows are those of one volume, all of which the core takes, none of them both
  staged and removed.\<close>

definition pending_for :: "string \<Rightarrow> string \<Rightarrow> staging \<Rightarrow> bool" where
  "pending_for h m s \<longleftrightarrow>
     (\<forall>run \<in> set (pending_runs s). vf_mountpoint (volume_frame_of run) = m \<and> sr_mode run = ''metadata'') \<and>
     (\<forall>e \<in> set (sq_entries s). \<not> sg_pushed e \<longrightarrow>
        sg_host_id e = h \<and> sg_volume_id e = m \<and> entry_fits m (se_path (sg_entry e))) \<and>
     (\<forall>e \<in> set (sq_entries s). \<forall>r \<in> set (sq_removals s). \<not> sg_pushed e \<longrightarrow> \<not> rv_pushed r \<longrightarrow>
        entry_dev_inode (sg_entry e) \<noteq> row_id r)"

lemma shown_rows:
  assumes "fst ` row_fact ` set rows \<inter> R = {}"
  shows "((L ++ facts_map row_fact es) |` (- R)) ++ facts_map row_fact rows =
    (L ++ facts_map row_fact (es @ rows)) |` (- R)"
proof
  fix k
  show "(((L ++ facts_map row_fact es) |` (- R)) ++ facts_map row_fact rows) k =
      ((L ++ facts_map row_fact (es @ rows)) |` (- R)) k"
  proof (cases "k \<in> R")
    case True
    with assms have "k \<notin> fst ` row_fact ` set rows" by blast
    then have "facts_map row_fact rows k = None" by (simp only: facts_map_None not_False_eq_True)
    with True show ?thesis by (simp add: map_add_def)
  next
    case False
    then show ?thesis by (simp add: map_add_def facts_map_append split: option.split)
  qed
qed

context core_api
begin

lemma live_after_drain:
  assumes "sound w" "staging_ok s" "0 < chunk" "pending_for h m s"
    and run: "drain p chunk post facts s w = (Inr n, s', w')"
  shows "sound w' \<and> n = count_unpushed s \<and>
    (\<forall>e \<in> set (sq_entries s'). sg_pushed e) \<and> (\<forall>r \<in> set (sq_removals s'). rv_pushed r) \<and>
    (\<exists>es. set es = {e \<in> set (sq_entries s). \<not> sg_pushed e} \<and>
       live w' = (live w)(m := (live w m ++ facts_map row_fact es) |`
         (- row_id ` {r \<in> set (sq_removals s). \<not> rv_pushed r})))"
proof -
  let ?R = "\<lambda>rs. row_id ` set rs"
  let ?J = "\<lambda>es rs w1. set es \<subseteq> {e \<in> set (sq_entries s). \<not> sg_pushed e} \<and>
    set rs \<subseteq> {r \<in> set (sq_removals s). \<not> rv_pushed r} \<and> sound w1 \<and>
    live w1 = (live w)(m := (live w m ++ facts_map row_fact es) |` (- ?R rs))"
  have mount: "vf_mountpoint (volume_frame_of run) = m" "sr_mode run = ''metadata''" if "run \<in> set (pending_runs s)" for run
    using assms(4) that by (auto simp: pending_for_def)
  have k1: "keeps_entries p chunk post facts (pending_runs s) s ?J (\<lambda>_ _ _. True)"
    unfolding keeps_entries_def sends_entries_def
  proof (intro ballI allI impI)
    fix run es rs snap rows w1 res w2
    assume r: "run \<in> set (pending_runs s)"
      and a: "?J es rs w1 \<and> set rows \<subseteq> set (left_entries_of (sr_id run) s) \<and> length rows \<le> chunk \<and>
        push p post (entry_batch facts run snap rows) w1 = (res, w2)"
    let ?b = "entry_batch facts run snap rows"
    have sub: "set rows \<subseteq> {e \<in> set (sq_entries s). \<not> sg_pushed e}" using a left_entries_mem by auto
    then have fits: "entry_fits m (se_path (sg_entry e))" if "e \<in> set rows" for e
      using that assms(4) by (auto simp: pending_for_def)
    have "deliverable ?b"
      unfolding deliverable_def batch_mount mount(1) [OF r]
      using fits mount(2) [OF r] by (auto simp: entry_batch_def row_to_entry_def Let_def)
    from push_effect [OF _ this, of w1 p res w2] a
    have eff: "sound w2" "case res of Inr _ \<Rightarrow> live w2 = shown ?b (live w1) | Inl _ \<Rightarrow> True"
      by (auto split: sum.splits)
    have "fst ` row_fact ` set rows \<inter> ?R rs = {}"
      using sub a assms(4) by (fastforce simp: pending_for_def row_fact_def)
    then have "shown ?b (live w1) = (live w)(m := (live w m ++ facts_map row_fact (es @ rows)) |` (- ?R rs))"
      using a by (simp add: shown_def batch_mount mount(1) [OF r] entry_batch_effect shown_rows)
    with eff a sub show "case res of Inl e \<Rightarrow> True | Inr x \<Rightarrow> ?J (es @ rows) rs w2" by (auto split: sum.splits)
  qed
  have k2: "keeps_removals p chunk post (pending_runs s) s ?J (\<lambda>_ _ _. True)"
    unfolding keeps_removals_def sends_removals_def
  proof (intro ballI allI impI)
    fix run es rs snap rows w1 res w2
    assume r: "run \<in> set (pending_runs s)"
      and a: "?J es rs w1 \<and> set rows \<subseteq> set (left_removals_of (sr_id run) s) \<and> length rows \<le> chunk \<and>
        push p post (removal_batch run snap rows) w1 = (res, w2)"
    let ?b = "removal_batch run snap rows"
    have "deliverable ?b" by (auto simp: deliverable_def removal_batch_def)
    from push_effect [OF _ this, of w1 p res w2] a
    have eff: "sound w2" "case res of Inr _ \<Rightarrow> live w2 = shown ?b (live w1) | Inl _ \<Rightarrow> True"
      by (auto split: sum.splits)
    have "shown ?b (live w1) = (live w)(m := (live w m ++ facts_map row_fact es) |` (- ?R (rs @ rows)))"
      using a by (simp add: shown_def batch_mount mount(1) [OF r] removal_batch_effect image_Un Int_commute)
    moreover have "set (rs @ rows) \<subseteq> {r \<in> set (sq_removals s). \<not> rv_pushed r}" using a left_removals_mem by auto
    ultimately show "case res of Inl e \<Rightarrow> True | Inr x \<Rightarrow> ?J es (rs @ rows) w2"
      using eff conjunct1 [OF conjunct1 [OF a]] by (cases res) simp_all
  qed
  have J0: "?J [] [] w" using assms(1) by (simp add: facts_map_def)
  obtain es rs where
    x: "s' = marked (staged_key ` set es) (removal_key ` set rs) s"
    "?J es rs w' \<and> set es = {e \<in> set (sq_entries s). \<not> sg_pushed e} \<and>
      set rs = {r \<in> set (sq_removals s). \<not> rv_pushed r} \<and> n = count_unpushed s"
    using drain_invariant [OF run assms(2,3) J0 k1 k2, unfolded sum.case] by blast
  have "(\<forall>e \<in> set (sq_entries s'). sg_pushed e) \<and> (\<forall>r \<in> set (sq_removals s'). rv_pushed r)"
    unfolding x(1) using x(2) by (auto simp: marked_def)
  moreover have "live w' = (live w)(m := (live w m ++ facts_map row_fact es) |`
      (- row_id ` {r \<in> set (sq_removals s). \<not> rv_pushed r}))"
    using x(2) by (elim conjE) simp
  ultimately show ?thesis using x(2) by (intro conjI exI [of _ es]) (elim conjE, assumption)+
qed

end

end
