(* ===== verification/Core_Ingest.thy ===== *)
theory Core_Ingest
  imports Core_Api
begin

text \<open>
  The core behind its network: \<open>core/ingest.py\<close> applies the batches that arrive, a request or a reply may
  be lost. It keeps the promise of \<open>core_api\<close>.
\<close>

section \<open>The rows of a volume\<close>

definition volume_ids :: "string \<Rightarrow> string \<Rightarrow> catalogue \<Rightarrow> (int \<times> int) option" where
  "volume_ids fp m c =
     (case map_option h_id (find_row h_fingerprint fp (hosts c)) of
        None \<Rightarrow> None
      | Some h \<Rightarrow> map_option (\<lambda>v. (h, v_id v)) (find_row (\<lambda>v. (v_host_id v, v_mountpoint v)) (h, m) (volumes c)))"

definition look :: "fs_entry list \<Rightarrow> int \<times> int \<times> int \<times> int \<Rightarrow> (int \<times> int) option" where
  "look es k = (case find_row entry_key k es of
     Some e \<Rightarrow> if e_present e then Some (e_mtime e, e_size_logical e) else None | None \<Rightarrow> None)"

definition live_rows :: "string \<Rightarrow> catalogue \<Rightarrow> string \<Rightarrow> shown_entries" where
  "live_rows fp c m k =
     (case volume_ids fp m c of None \<Rightarrow> None | Some (h, v) \<Rightarrow> look (entries c) (h, v, k))"

section \<open>The upsert\<close>

lemma look_upsert:
  assumes "upsert_entry pg False row (T, es, ne) = Inr (T', es', ne')" "e_present row"
  shows "look es' = (look es)(entry_key row \<mapsto> (e_mtime row, e_size_logical row))"
proof (cases "find_row entry_key (entry_key row) es")
  case None
  with assms(1) have "es' = es @ [row\<lparr> e_id := ne \<rparr>]" by (simp add: upsert_entry_def)
  with None assms(2) show ?thesis
    by (auto simp: look_def find_row_append find_row_single fun_eq_iff split: option.splits)
next
  case (Some old)
  have key: "entry_key old = entry_key row" using find_row_mem [OF Some] by simp
  show ?thesis
  proof (cases "upsert_guard False row old")
    case True
    with assms(1) Some have "es' = update_where (\<lambda>e. entry_key e = entry_key row) (overwrite_entry False row) es"
      by (auto simp: upsert_entry_def split: if_splits)
    then have u: "find_row entry_key k es' = map_option
        (\<lambda>x. if entry_key x = entry_key row then overwrite_entry False row x else x) (find_row entry_key k es)" for k
      by (simp add: find_row_update)
    have o: "e_present (overwrite_entry False row x) = e_present row" "e_mtime (overwrite_entry False row x) = e_mtime row"
      "e_size_logical (overwrite_entry False row x) = e_size_logical row" for x
      by (simp_all add: overwrite_entry_def Let_def)
    have "look es' k = ((look es)(entry_key row \<mapsto> (e_mtime row, e_size_logical row))) k" for k
      using Some assms(2) find_row_mem [of entry_key k es]
      by (cases "find_row entry_key k es") (auto simp: look_def u o)
    then show ?thesis by blast
  next
    case False
    with assms(1) Some have "es' = es" by (auto simp: upsert_entry_def split: if_splits)
    moreover from False have "e_mtime old = e_mtime row" "e_size_logical old = e_size_logical row" "e_present old"
      by (simp_all add: upsert_guard_def)
    ultimately show ?thesis using Some by (auto simp: look_def fun_eq_iff)
  qed
qed

definition key_fact :: "fs_entry \<Rightarrow> (int \<times> int \<times> int \<times> int) \<times> int \<times> int" where
  "key_fact row = (entry_key row, (e_mtime row, e_size_logical row))"

lemma look_upserts:
  assumes "upsert_loop pg False rows (T, es, ne) = Inr (T', es', ne')" "\<And>row. row \<in> set rows \<Longrightarrow> e_present row"
  shows "look es' = look es ++ map_of (rev (map key_fact rows))"
  using assms
proof (induction rows arbitrary: T es ne)
  case (Cons row rows)
  from Cons.prems(1) obtain T1 es1 ne1 where
    1: "upsert_entry pg False row (T, es, ne) = Inr (T1, es1, ne1)"
    and 2: "upsert_loop pg False rows (T1, es1, ne1) = Inr (T', es', ne')" by auto
  have "look es1 = (look es)(entry_key row \<mapsto> (e_mtime row, e_size_logical row))"
    by (rule look_upsert [OF 1]) (simp add: Cons.prems(2))
  with Cons.IH [OF 2] Cons.prems(2) show ?case by (simp add: key_fact_def map_add_upd_left [symmetric] map_add_def fun_eq_iff split: option.splits)
qed simp

lemma look_removed:
  "look (snd (mark_removed h v keys t es)) k =
     (if (\<exists>dev inode. k = (h, v, dev, inode) \<and> ((Some dev, inode) \<in> set keys \<or> (None, inode) \<in> set keys))
      then None else look es k)"
proof -
  have "find_row entry_key k (snd (mark_removed h v keys t es)) =
      map_option (\<lambda>e. if removable h v keys e then e\<lparr> e_present := False, e_removed_at := Some t \<rparr> else e) (find_row entry_key k es)"
    unfolding mark_removed_def snd_conv by (rule find_row_update) (simp add: entry_key_def)
  then show ?thesis
    using find_row_mem [of entry_key k es]
    by (cases "find_row entry_key k es") (auto simp: look_def removable_def removal_match_def entry_key_def)
qed

section \<open>The batch\<close>

lemma upsert_host_id:
  assumes "catalogue_ok c" "upsert_host t b fp c = Inr (h, c')"
  shows "map_option h_id (find_row h_fingerprint fp (hosts c')) = Some (h_id h) \<and>
    (case find_row h_fingerprint fp (hosts c) of Some x \<Rightarrow> h_id h = h_id x | None \<Rightarrow> h_id h \<notin> v_host_id ` set (volumes c))"
proof -
  from upsert_host_facts [OF assms] have h: "h \<in> set (hosts c')" "h_fingerprint h = fp" "catalogue_ok c'" by simp_all
  then have "distinct (map h_fingerprint (hosts c'))" by (auto simp: catalogue_ok_def hosts_ok_def split: prod.splits)
  with h have 1: "find_row h_fingerprint fp (hosts c') = Some h" by (simp add: find_row_Some)
  obtain nh nv ns ne where n: "next_row c = (nh, nv, ns, ne)" by (cases "next_row c") auto
  show ?thesis
  proof (cases "find_row h_fingerprint fp (hosts c)")
    case None
    with assms(2) n have "h_id h = nh" by (auto simp: upsert_host_def Let_def split: if_splits)
    moreover have "v_host_id ` set (volumes c) \<subseteq> h_id ` set (hosts c)" "\<forall>x \<in> set (hosts c). h_id x < nh"
      using assms(1) n by (auto simp: catalogue_ok_def volumes_ok_def hosts_ok_def)
    ultimately have "h_id h \<notin> v_host_id ` set (volumes c)" by force
    with 1 None show ?thesis by simp
  next
    case (Some x)
    with assms(2) have "h_id h = h_id x" by (auto simp: upsert_host_def Let_def)
    with 1 Some show ?thesis by simp
  qed
qed

lemma upsert_volume_id:
  assumes "catalogue_ok c" "h_id h \<in> h_id ` set (hosts c)" "upsert_volume t h b c = (v, c')"
  shows "map_option v_id (find_row (\<lambda>v. (v_host_id v, v_mountpoint v)) (h_id h, m) (volumes c')) =
      (if m = vf_mountpoint (b_volume b) then Some (v_id v)
       else map_option v_id (find_row (\<lambda>v. (v_host_id v, v_mountpoint v)) (h_id h, m) (volumes c)))"
    and "case find_row (\<lambda>v. (v_host_id v, v_mountpoint v)) (h_id h, vf_mountpoint (b_volume b)) (volumes c) of
      Some x \<Rightarrow> v_id v = v_id x | None \<Rightarrow> v_id v \<notin> v_id ` set (volumes c)"
proof -
  let ?key = "\<lambda>v. (v_host_id v, v_mountpoint v)"
  let ?f = "refresh_volume t (b_volume b)"
  have f: "?key (?f w) = ?key w" "v_id (?f w) = v_id w" for w by (simp_all add: refresh_volume_def)
  obtain nh nv ns ne where n: "next_row c = (nh, nv, ns, ne)" by (cases "next_row c") auto
  have "map_option v_id (find_row ?key (h_id h, m) (volumes c')) =
      (if m = vf_mountpoint (b_volume b) then Some (v_id v) else map_option v_id (find_row ?key (h_id h, m) (volumes c))) \<and>
    (case find_row ?key (h_id h, vf_mountpoint (b_volume b)) (volumes c) of
      Some x \<Rightarrow> v_id v = v_id x | None \<Rightarrow> v_id v \<notin> v_id ` set (volumes c))"
  proof (cases "find_row ?key (h_id h, vf_mountpoint (b_volume b)) (volumes c)")
    case None
    with assms(3) n have v: "v_id v = nv" "?key v = (h_id h, vf_mountpoint (b_volume b))" "volumes c' = volumes c @ [v]"
      by (auto simp: upsert_volume_def Let_def refresh_volume_def)
    moreover have "\<forall>x \<in> set (volumes c). v_id x < nv" using assms(1) n by (auto simp: catalogue_ok_def volumes_ok_def)
    ultimately show ?thesis using None
      by (auto simp: find_row_append find_row_single split: option.splits)
  next
    case (Some x)
    with assms(3) have v: "v = ?f x" "volumes c' = update_where (\<lambda>y. v_id y = v_id x) ?f (volumes c)"
      by (auto simp: upsert_volume_def Let_def)
    have "find_row ?key k (volumes c') = map_option (\<lambda>y. if v_id y = v_id x then ?f y else y) (find_row ?key k (volumes c))" for k
      unfolding v(2) by (rule find_row_update) (rule f)
    moreover have "(\<lambda>z. v_id (if v_id z = v_id x then ?f z else z)) = v_id" by (auto simp: f(2))
    ultimately show ?thesis using Some by (auto simp: v(1) f(2) option.map_comp comp_def)
  qed
  then show "map_option v_id (find_row ?key (h_id h, m) (volumes c')) =
      (if m = vf_mountpoint (b_volume b) then Some (v_id v)
       else map_option v_id (find_row ?key (h_id h, m) (volumes c)))"
    and "case find_row ?key (h_id h, vf_mountpoint (b_volume b)) (volumes c) of
      Some x \<Rightarrow> v_id v = v_id x | None \<Rightarrow> v_id v \<notin> v_id ` set (volumes c)" by blast+
qed

lemma vet_all:
  assumes "\<And>e. e \<in> set es \<Longrightarrow> entry_fits m (ef_path e)" "validate_agent_path m = Some mount"
    and "vet_entries False hashed_at mount es = (rows, rejected)"
  shows "map key_fact (map (stamp_row h v snap) rows) =
      map (\<lambda>f. ((h, v, fst f), snd f)) (map frame_fact es) \<and> (\<forall>row \<in> set rows. e_present row)"
proof -
  have "\<exists>cand. vet_entry False hashed_at mount e = Some (entry_row False hashed_at mount cand e)" if "e \<in> set es" for e
    using assms(1) [OF that] assms(2) by (auto simp: entry_fits_def vet_entry_def split: option.splits)
  then have "map key_fact (map (stamp_row h v snap) (List.map_filter (vet_entry False hashed_at mount) es)) =
      map (\<lambda>f. ((h, v, fst f), snd f)) (map frame_fact es) \<and>
    (\<forall>row \<in> set (List.map_filter (vet_entry False hashed_at mount) es). e_present row)"
  proof (induction es)
    case (Cons e es)
    then obtain cand where "vet_entry False hashed_at mount e = Some (entry_row False hashed_at mount cand e)" by auto
    with Cons show ?case
      by (simp add: List.map_filter_simps key_fact_def frame_fact_def entry_key_def stamp_row_def entry_row_def)
  qed (simp add: List.map_filter_simps)
  with assms(3) show ?thesis by (simp add: vet_entries_def Let_def)
qed

lemma look_prefixed: "map_of (rev (map (\<lambda>f. ((h, v, fst f), snd f)) xs)) (h', v', k) =
    (if h' = h \<and> v' = v then map_of (rev xs) k else None)"
proof -
  have "map_of (map (\<lambda>f. ((h, v, fst f), snd f)) ys) (h', v', k) = (if h' = h \<and> v' = v then map_of ys k else None)" for ys
    by (induction ys) auto
  from this [of "rev xs"] show ?thesis by (simp add: rev_map)
qed

lemma removed_keys_deliverable:
  "deliverable b \<Longrightarrow> (Some dev, inode) \<in> set (removed_keys b) \<or> (None, inode) \<in> set (removed_keys b) \<longleftrightarrow>
    (dev, inode) \<in> set (b_removed b)"
  by (force simp: deliverable_def removed_keys_def)

lemma ingest_live:
  assumes sound: "catalogue_sound c0" and b: "deliverable b" and run: "ingest pg max_batch t b fp c0 = Inr (r, c')"
  shows "live_rows fp c' = shown b (live_rows fp c0)"
proof -
  let ?m = "vf_mountpoint (b_volume b)"
  let ?key = "\<lambda>v. (v_host_id v, v_mountpoint v)"
  from b have mode: "b_mode b \<noteq> ''fullbit''" by (simp add: deliverable_def)
  obtain mount h c1 v c2 snap c3 c4 vetted rejected where steps:
    "check_batch max_batch b = Inr mount" "upsert_host t b fp c0 = Inr (h, c1)" "upsert_volume t h b c1 = (v, c2)"
    "resolve_snapshot t h v b c2 = Inr (snap, c3)"
    "vet_entries (b_mode b = ''fullbit'') (at_hash t) mount (b_entries b) = (vetted, rejected)"
    "upsert_entries pg (b_mode b = ''fullbit'') (map (stamp_row (h_id h) (v_id v) snap) vetted) c3 = Inr c4"
    "((r_entries_removed r, r_changes_logged r), c') =
       (if b_mode b = ''fullbit'' then ((0, 0), c4)
        else reconcile t (h_id h) (v_id v) (map (stamp_row (h_id h) (v_id v) snap) vetted)
          (snapshot_prior (h_id h) (v_id v) (map e_inode vetted) (entries c3)) (removed_keys b)
          (v_change_log_enabled v) c4)"
    by (rule ingest_steps [OF run])
  have ok0: "catalogue_ok c0" using sound by (simp add: catalogue_sound_def)
  from upsert_host_facts [OF ok0 steps(2)] have f1: "catalogue_ok c1" "h \<in> set (hosts c1)" "volumes c1 = volumes c0" "entries c1 = entries c0"
    by simp_all
  then have h1: "h_id h \<in> h_id ` set (hosts c1)" by simp
  from upsert_volume_facts [OF f1(1) h1 steps(3)] have f2: "catalogue_ok c2" "hosts c2 = hosts c1" "entries c2 = entries c1"
    by simp_all
  from resolve_snapshot_facts [OF f2(1) steps(4)] have f3: "hosts c3 = hosts c2" "volumes c3 = volumes c2" "entries c3 = entries c2"
    by simp_all
  from steps(6) have f4: "hosts c4 = hosts c3" "volumes c4 = volumes c3"
    by (auto simp: upsert_entries_def split: prod.splits)
  have f5: "hosts c' = hosts c4" "volumes c' = volumes c4"
    using steps(7) mode by (auto simp: reconcile_def mark_removed_def Let_def split: if_splits)
  have hosts': "hosts c' = hosts c1" and volumes': "volumes c' = volumes c2" using f2 f3 f4 f5 by simp_all
  note hid = upsert_host_id [OF ok0 steps(2)]
  note vid = upsert_volume_id [OF f1(1) h1 steps(3)]
  text \<open>The ids of the volumes.\<close>
  have ids': "volume_ids fp m c' = (if m = ?m then Some (h_id h, v_id v)
      else map_option (\<lambda>i. (h_id h, i)) (map_option v_id (find_row ?key (h_id h, m) (volumes c0))))" for m
  proof -
    have "volume_ids fp m c' = map_option (\<lambda>i. (h_id h, i)) (map_option v_id (find_row ?key (h_id h, m) (volumes c')))"
      unfolding volume_ids_def hosts' conjunct1 [OF hid] by (simp add: option.map_comp comp_def)
    then show ?thesis unfolding volumes' vid(1) by (simp add: f1(3))
  qed
  have none0: "look (entries c0) (h_id h, v_id v, k) = None" if "volume_ids fp ?m c0 = None" for k
  proof -
    have "find_row ?key (h_id h, ?m) (volumes c0) = None"
    proof (cases "find_row h_fingerprint fp (hosts c0)")
      case None
      with hid have "h_id h \<notin> v_host_id ` set (volumes c0)" by simp
      then show ?thesis by (force simp: find_row_None)
    next
      case (Some x)
      with hid that show ?thesis by (simp add: volume_ids_def)
    qed
    with vid(2) have "v_id v \<notin> v_id ` set (volumes c0)" by (simp add: f1(3))
    moreover have "(e_host_id e, e_volume_id e) \<in> volume_key ` set (volumes c0)" if "e \<in> set (entries c0)" for e
      using ok0 that by (auto simp: catalogue_ok_def entries_ok_def split: prod.splits)
    ultimately have "entry_key e \<noteq> (h_id h, v_id v, k)" if "e \<in> set (entries c0)" for e
      using that by (fastforce simp: entry_key_def volume_key_def)
    then have "find_row entry_key (h_id h, v_id v, k) (entries c0) = None" by (simp add: find_row_None)
    then show ?thesis by (simp add: look_def)
  qed
  have ids0: "volume_ids fp m c0 = (case find_row h_fingerprint fp (hosts c0) of None \<Rightarrow> None
      | Some x \<Rightarrow> map_option (\<lambda>i. (h_id h, i)) (map_option v_id (find_row ?key (h_id h, m) (volumes c0))))" for m
    using hid by (auto simp: volume_ids_def option.map_comp comp_def split: option.splits)
  have absent: "find_row ?key (h_id h, m) (volumes c0) = None" if "find_row h_fingerprint fp (hosts c0) = None" for m
  proof -
    from hid that have "h_id h \<notin> v_host_id ` set (volumes c0)" by simp
    then show ?thesis by (force simp: find_row_None)
  qed
  have live0: "live_rows fp c0 m k = (if m = ?m then look (entries c0) (h_id h, v_id v, k)
      else (case map_option v_id (find_row ?key (h_id h, m) (volumes c0)) of None \<Rightarrow> None | Some i \<Rightarrow> look (entries c0) (h_id h, i, k)))" for m k
  proof (cases "m = ?m")
    case True
    have "volume_ids fp ?m c0 = Some (h_id h, v_id v)" if "volume_ids fp ?m c0 \<noteq> None"
      using that ids0 [of ?m] vid(2) by (auto simp: f1(3) split: option.splits)
    then show ?thesis using True none0 [of k] by (cases "volume_ids fp ?m c0") (auto simp: live_rows_def)
  next
    case False
    then show ?thesis unfolding live_rows_def ids0
      by (cases "find_row h_fingerprint fp (hosts c0)") (auto simp: absent split: option.splits)
  qed
  text \<open>The rows.\<close>
  have fits: "entry_fits ?m (ef_path e)" if "e \<in> set (b_entries b)" for e using b that by (simp add: deliverable_def)
  have vp: "validate_agent_path ?m = Some mount" using check_batch_mount [OF steps(1)] by simp
  have vetted: "map key_fact (map (stamp_row (h_id h) (v_id v) snap) vetted) =
      map (\<lambda>f. ((h_id h, v_id v, fst f), snd f)) (map frame_fact (b_entries b))" "\<forall>row \<in> set vetted. e_present row"
    using vet_all [OF fits vp, of "b_entries b" "at_hash t" vetted rejected "h_id h" "v_id v" snap] steps(5) mode by simp_all
  obtain T ne' where "upsert_loop pg False (map (stamp_row (h_id h) (v_id v) snap) vetted)
      ({}, entries c0, snd (snd (snd (next_row c3)))) = Inr (T, entries c4, ne')"
    using steps(6) mode f1(4) f2(3) f3(3) by (auto simp: upsert_entries_def split: prod.splits)
  moreover have "\<forall>row \<in> set (map (stamp_row (h_id h) (v_id v) snap) vetted). e_present row"
    using vetted(2) by (simp add: stamp_row_def)
  ultimately have "look (entries c4) = look (entries c0) ++
      map_of (rev (map key_fact (map (stamp_row (h_id h) (v_id v) snap) vetted)))"
    using look_upserts by blast
  then have l4: "look (entries c4) = look (entries c0) ++
      map_of (rev (map (\<lambda>f. ((h_id h, v_id v, fst f), snd f)) (map frame_fact (b_entries b))))"
    unfolding vetted(1) .
  have l5: "look (entries c') k = (if (\<exists>dev inode. k = (h_id h, v_id v, dev, inode) \<and> (dev, inode) \<in> set (b_removed b))
      then None else look (entries c4) k)" for k
  proof -
    have "entries c' = snd (mark_removed (h_id h) (v_id v) (removed_keys b) (at_reconcile t) (entries c4))"
      using steps(7) mode by (auto simp: reconcile_def mark_removed_def Let_def split: if_splits)
    then show ?thesis by (simp only: look_removed removed_keys_deliverable [OF b])
  qed
  have l': "look (entries c') (h', v', k) = (if h' = h_id h \<and> v' = v_id v
      then batch_effect b (\<lambda>k. look (entries c0) (h_id h, v_id v, k)) k else look (entries c0) (h', v', k))" for h' v' k
    unfolding l5 l4 map_add_def look_prefixed
    by (cases k) (auto simp: batch_effect_def facts_map_def map_add_def restrict_map_def)
  show ?thesis
  proof (intro ext)
    fix m k
    have "i \<noteq> v_id v" if "m \<noteq> ?m" "map_option v_id (find_row ?key (h_id h, m) (volumes c0)) = Some i" for i
    proof
      assume "i = v_id v"
      with that vid(1) [of m] vid(1) [of ?m] obtain x y where "find_row ?key (h_id h, m) (volumes c2) = Some x"
        "find_row ?key (h_id h, ?m) (volumes c2) = Some y" "v_id x = v_id y"
        by (auto simp: f1(3))
      moreover have "distinct (map v_id (volumes c2))" using f2(1) by (auto simp: catalogue_ok_def volumes_ok_def split: prod.splits)
      ultimately have "x = y" "?key x = (h_id h, m)" "?key y = (h_id h, ?m)"
        using find_row_mem [of ?key] by (auto simp: distinct_map inj_on_def dest!: find_row_mem)
      with that(1) show False by simp
    qed
    then show "live_rows fp c' m k = shown b (live_rows fp c0) m k"
      unfolding shown_def fun_upd_apply
      by (auto simp: live_rows_def [of fp c'] ids' l' live0 batch_effect_def restrict_map_def map_add_def split: option.splits)
  qed
qed


section \<open>The network\<close>

text \<open>What becomes of each request, with the clock at which the core serves it; when there is no more, the
  core cannot be reached. The core answers an error, or it commits.\<close>

datatype delivery = Delivered | Request_Lost | Reply_Lost

type_synonym network = "catalogue \<times> (clock_readings \<times> delivery) list"

fun post_ingest :: "bool \<Rightarrow> nat \<Rightarrow> string \<Rightarrow> network post" where
  "post_ingest pg max_batch fp b (c, []) = (Inl ''unreachable'', (c, []))"
| "post_ingest pg max_batch fp b (c, (t, Request_Lost) # ds) = (Inl ''request lost'', (c, ds))"
| "post_ingest pg max_batch fp b (c, (t, Delivered) # ds) =
     (case ingest pg max_batch t b fp c of
        Inl e \<Rightarrow> (Inl ''refused'', (c, ds))
      | Inr (r, c') \<Rightarrow> (Inr r, (c', ds)))"
| "post_ingest pg max_batch fp b (c, (t, Reply_Lost) # ds) =
     (case ingest pg max_batch t b fp c of
        Inl e \<Rightarrow> (Inl ''reply lost'', (c, ds))
      | Inr (r, c') \<Rightarrow> (Inl ''reply lost'', (c', ds)))"

lemma post_ingest_cases:
  assumes "post_ingest pg max_batch fp b w = (res, w')"
  shows "(fst w' = fst w \<and> (\<exists>e. res = Inl e)) \<or>
    (\<exists>t r c'. ingest pg max_batch t b fp (fst w) = Inr (r, c') \<and> fst w' = c' \<and> (res = Inr r \<or> (\<exists>e. res = Inl e)))"
  using assms by (cases "(pg, max_batch, fp, b, w)" rule: post_ingest.cases) (auto split: sum.splits)

interpretation ingest_core: core_api "post_ingest pg max_batch fp" "\<lambda>w. catalogue_sound (fst w)" "\<lambda>w. live_rows fp (fst w)"
  for pg max_batch fp
proof (unfold_locales, goal_cases)
  case (1 w b r w')
  from post_ingest_cases [OF 1(3)] obtain t c' where i: "ingest pg max_batch t b fp (fst w) = Inr (r, c')" "fst w' = c'" by auto
  from ingest_sound [OF 1(1) i(1)] ingest_live [OF 1(1,2) i(1)] show ?case unfolding i(2) by blast
next
  case (2 w b e w')
  from post_ingest_cases [OF 2(3)] show ?case
  proof
    assume "fst w' = fst w \<and> (\<exists>x. Inl e = Inl x)"
    with 2(1) show ?thesis by simp
  next
    assume "\<exists>t r c'. ingest pg max_batch t b fp (fst w) = Inr (r, c') \<and> fst w' = c' \<and> (Inl e = Inr r \<or> (\<exists>x. Inl e = Inl x))"
    then obtain t r c' where i: "ingest pg max_batch t b fp (fst w) = Inr (r, c')" "fst w' = c'" by auto
    from ingest_sound [OF 2(1) i(1)] ingest_live [OF 2(1,2) i(1)] show ?thesis unfolding i(2) by blast
  qed
qed

end
