(* ===== verification/Supervisor.thy ===== *)
theory Supervisor
  imports Agent_Config
begin

text \<open>
  The load supervisor (\<open>agent/reader/supervisor.py\<close>): when a scan pauses and when it goes on, and when
  a content scan must not start. The load and iowait readings are a list, one pair per sample; the text
  of \<open>/proc/mdstat\<close> is an argument, \<open>None\<close> when it cannot be read.
\<close>

section \<open>Pausing\<close>

definition over_ceiling :: "throttle_profile \<Rightarrow> bool \<Rightarrow> rat \<times> rat \<Rightarrow> bool" where
  "over_ceiling t paused r =
     (case r of (load1, iowait) \<Rightarrow>
        if pr_iowait_above_percent (tp_pause_when t) < iowait then True
        else if paused then tp_load1_below t \<le> load1
        else pr_load1_above (tp_pause_when t) < load1)"

text \<open>The loop takes a reading per turn; it is still waiting when the readings end. It answers with the
  readings that are left.\<close>

fun wait_loop :: "throttle_profile \<Rightarrow> bool \<Rightarrow> (rat \<times> rat) list \<Rightarrow> (rat \<times> rat) list option" where
  "wait_loop t paused [] = None"
| "wait_loop t paused (r # rs) = (if over_ceiling t paused r then wait_loop t True rs else Some rs)"

definition wait_if_paused :: "throttle_profile \<Rightarrow> bool \<Rightarrow> (rat \<times> rat) list \<Rightarrow> (bool \<times> (rat \<times> rat) list) option" where
  "wait_if_paused t paused rs = map_option (\<lambda>rest. (False, rest)) (wait_loop t paused rs)"

section \<open>Resyncing arrays\<close>

definition RESYNC_MARKERS :: "string list" where
  "RESYNC_MARKERS = [''resync'', ''recovery'', ''rebuild'', ''reshape'', ''check'']"

definition default_resync :: "string option \<Rightarrow> bool" where
  "default_resync mdstat =
     (case mdstat of None \<Rightarrow> True
      | Some text \<Rightarrow> list_ex (\<lambda>marker. contains (lower text) marker) RESYNC_MARKERS)"

text \<open>The provider answers, or is an \<open>async\<close> one, which the plain check refuses.\<close>

definition should_block_fullbit :: "throttle_profile \<Rightarrow> bool \<Rightarrow> bool \<Rightarrow> (string, bool) result" where
  "should_block_fullbit t is_async resyncing =
     (if \<not> tp_block_fullbit_during_raid_resync t then Inr False
      else if is_async then Inl ''resync provider is async'' else Inr resyncing)"

definition should_block_fullbit_async :: "throttle_profile \<Rightarrow> bool \<Rightarrow> bool" where
  "should_block_fullbit_async t resyncing \<longleftrightarrow> tp_block_fullbit_during_raid_resync t \<and> resyncing"

section \<open>Hysteresis\<close>

text \<open>A quiet reading: one that ends a pause.\<close>

definition quiet :: "throttle_profile \<Rightarrow> rat \<times> rat \<Rightarrow> bool" where
  "quiet t r \<longleftrightarrow> \<not> over_ceiling t True r"

lemma wait_loop_paused: "wait_loop t True rs = (case dropWhile (Not \<circ> quiet t) rs of [] \<Rightarrow> None | _ # rest \<Rightarrow> Some rest)"
  by (induction rs) (simp_all add: quiet_def)

lemma quiet_under: "throttle_valid t \<Longrightarrow> quiet t r \<Longrightarrow> \<not> over_ceiling t False r"
  by (cases r) (auto simp: quiet_def over_ceiling_def throttle_valid_def split: if_splits)


definition sample_readings :: "(rat \<times> rat) list" where
  "sample_readings = [(9, 0), (7, 0), (5, 0), (1, 0), (8, 0)]"

definition sample_profile :: throttle_profile where
  "sample_profile = sample_throttle\<lparr> tp_pause_when := \<lparr> pr_load1_above = 6, pr_iowait_above_percent = 40 \<rparr>,
     tp_load1_below := 4 \<rparr>"


text \<open>Without any means to tell, a content scan is refused.\<close>

lemma unknown_resync_blocks: "tp_block_fullbit_during_raid_resync t \<Longrightarrow> should_block_fullbit_async t (default_resync None)"
  by (simp add: should_block_fullbit_async_def default_resync_def)

end
