(* ===== verification/Full_Bit.thy ===== *)
theory Full_Bit
  imports Feed Dedup Supervisor
begin

text \<open>
  The content scan (\<open>agent/reader/fullbit.py\<close>): its gates, the funnel over one size-group at a time and
  the hashes it stages. A call that raises leaves what it has staged so far. Between two batches the scan
  waits for the supervisor, which delays it and changes nothing else.
\<close>

section \<open>Exceptions that keep the state\<close>

datatype scan_failure =
    Backend_Failed string
  | Ack_Required string
  | Fullbit_Blocked string
  | Fullbit_Unsupported string
  | Bad_Inode

text \<open>A step answers with the state and the exception it ended in.\<close>

definition then_do :: "'s \<times> 'e option \<Rightarrow> ('s \<Rightarrow> 's \<times> 'e option) \<Rightarrow> 's \<times> 'e option" where
  "then_do r f = (case r of (s, None) \<Rightarrow> f s | (s, Some e) \<Rightarrow> (s, Some e))"

fun for_each :: "('a \<Rightarrow> 's \<Rightarrow> 's \<times> 'e option) \<Rightarrow> 'a list \<Rightarrow> 's \<Rightarrow> 's \<times> 'e option" where
  "for_each f [] s = (s, None)"
| "for_each f (x # xs) s = then_do (f x s) (for_each f xs)"

lemma then_do_simps [simp]: "then_do (s, None) f = f s" "then_do (s, Some e) f = (s, Some e)"
  by (simp_all add: then_do_def)

section \<open>The scan\<close>

definition FULLBIT_MODE :: string where "FULLBIT_MODE = ''fullbit''"
definition DEFAULT_HASH_BATCH :: nat where "DEFAULT_HASH_BATCH = 64"

record fullbit_result =
  fr_run_id :: int
  fr_scope_root :: string
  fr_candidates :: nat
  fr_partial_hashed :: nat
  fr_full_hashed :: nat
  fr_staged :: nat
  fr_hashed_keys :: "(string \<times> string \<times> int) list"

type_synonym fullbit_state = "staging \<times> fullbit_result"

function chunked :: "nat \<Rightarrow> 'a list \<Rightarrow> 'a list list" where
  "chunked n xs = (if xs = [] \<or> n = 0 then [] else take n xs # chunked n (drop n xs))"
  by auto

termination by (relation "measure (\<lambda>(n, xs). length xs)") auto

declare chunked.simps [simp del]

text \<open>The concurrent hashes of one batch: a file that cannot be read counts as none, a backend that
  refuses content ends the batch.\<close>

fun hash_batch :: "('a \<Rightarrow> (hash_failure, string) result) \<Rightarrow> 'a list \<Rightarrow> (scan_failure, string option list) result" where
  "hash_batch h [] = Inr []"
| "hash_batch h (x # xs) =
     (case h x of
        Inl (Full_Bit_Unsupported m) \<Rightarrow> Inl (Fullbit_Unsupported m)
      | Inl (Os_Failure _) \<Rightarrow> rbind (hash_batch h xs) (\<lambda>ds. Inr (None # ds))
      | Inr d \<Rightarrow> rbind (hash_batch h xs) (\<lambda>ds. Inr (Some d # ds)))"

definition partial_batch ::
  "backend \<Rightarrow> int \<Rightarrow> candidate list \<Rightarrow> (string \<times> candidate list) list \<times> nat \<Rightarrow>
   ((string \<times> candidate list) list \<times> nat) \<times> scan_failure option" where
  "partial_batch bk sz batch acc =
     (case hash_batch (\<lambda>c. bk_partial bk (c_path c) sz) batch of
        Inl e \<Rightarrow> (acc, Some e)
      | Inr ds \<Rightarrow>
          (fold (\<lambda>(c, d) (by_partial, n).
             case d of None \<Rightarrow> (by_partial, n) | Some p \<Rightarrow> (dict_append p c by_partial, Suc n))
           (zip batch ds) acc, None))"

text \<open>\<open>_stage\<close>: the hashes of one file.\<close>

definition stage_file ::
  "string \<Rightarrow> string \<Rightarrow> int \<Rightarrow> string \<Rightarrow> candidate \<times> string option \<Rightarrow> fullbit_state \<Rightarrow>
   fullbit_state \<times> scan_failure option" where
  "stage_file host_id volume_id run_id partial cd st =
     (case (cd, st) of ((c, d), (s, r)) \<Rightarrow>
        (case d of None \<Rightarrow> ((s, r), None)
         | Some full \<Rightarrow>
             let r' = r\<lparr> fr_full_hashed := Suc (fr_full_hashed r) \<rparr>
             in (case c_id c of
                   Str_Id _ \<Rightarrow> ((s, r'), Some Bad_Inode)
                 | Int_Id inode \<Rightarrow>
                     ((stage_hash host_id volume_id (c_dev c) inode partial full run_id s,
                       r'\<lparr> fr_staged := Suc (fr_staged r'),
                           fr_hashed_keys := fr_hashed_keys r' @ [(host_id, volume_id, inode)] \<rparr>), None))))"

definition full_batch ::
  "backend \<Rightarrow> string \<Rightarrow> string \<Rightarrow> int \<Rightarrow> string \<Rightarrow> candidate list \<Rightarrow> fullbit_state \<Rightarrow>
   fullbit_state \<times> scan_failure option" where
  "full_batch bk host_id volume_id run_id partial batch st =
     (case hash_batch (\<lambda>c. bk_full bk (c_path c)) batch of
        Inl e \<Rightarrow> (st, Some e)
      | Inr ds \<Rightarrow> for_each (stage_file host_id volume_id run_id partial) (zip batch ds) st)"

definition partial_members ::
  "backend \<Rightarrow> string \<Rightarrow> string \<Rightarrow> int \<Rightarrow> string \<times> candidate list \<Rightarrow> fullbit_state \<Rightarrow>
   fullbit_state \<times> scan_failure option" where
  "partial_members bk host_id volume_id run_id g st =
     (case g of (partial, members) \<Rightarrow>
        if length members < 2 then (st, None)
        else for_each (full_batch bk host_id volume_id run_id partial) (chunked DEFAULT_HASH_BATCH members) st)"

definition funnel_group ::
  "backend \<Rightarrow> string \<Rightarrow> string \<Rightarrow> int \<Rightarrow> candidate list \<Rightarrow> fullbit_state \<Rightarrow> fullbit_state \<times> scan_failure option" where
  "funnel_group bk host_id volume_id run_id sized st =
     (case st of (s, r) \<Rightarrow>
        if length sized < 2 then ((s, r), None)
        else (case for_each (partial_batch bk (c_size (hd sized))) (chunked DEFAULT_HASH_BATCH sized) ([], 0) of
                ((by_partial, n), failure) \<Rightarrow>
                  let r' = r\<lparr> fr_partial_hashed := fr_partial_hashed r + n \<rparr>
                  in (case failure of
                        Some e \<Rightarrow> ((s, r'), Some e)
                      | None \<Rightarrow> for_each (partial_members bk host_id volume_id run_id) by_partial (s, r'))))"

text \<open>The groups are pulled one by one, each from the staging store as it then is.\<close>

definition scan_group ::
  "backend \<Rightarrow> string \<Rightarrow> string \<Rightarrow> int \<Rightarrow> (staging \<Rightarrow> candidate list) \<Rightarrow> fullbit_state \<Rightarrow>
   fullbit_state \<times> scan_failure option" where
  "scan_group bk host_id volume_id run_id pull st =
     (case st of (s, r) \<Rightarrow>
        funnel_group bk host_id volume_id run_id (pull s) (s, r\<lparr> fr_candidates := fr_candidates r + length (pull s) \<rparr>))"

definition scan_grouped ::
  "backend \<Rightarrow> throttle_profile \<Rightarrow> bool \<Rightarrow> string \<Rightarrow> string \<Rightarrow> (staging \<Rightarrow> candidate list) list \<Rightarrow> string \<Rightarrow>
   warning_ack option \<Rightarrow> volume_info option \<Rightarrow> int \<times> int \<Rightarrow> staging \<Rightarrow>
   (scan_failure, fullbit_result) result \<times> staging" where
  "scan_grouped bk t resyncing host_id scope_root groups volume_id ack volume clk s0 =
     (if ack = None \<or> wa_mode (the ack) \<noteq> FULLBIT_MODE then (Inl (Ack_Required scope_root), s0)
      else if should_block_fullbit_async t resyncing then (Inl (Fullbit_Blocked scope_root), s0)
      else
        let (run_id, s1) = start_run host_id volume_id FULLBIT_MODE scope_root (fst clk) ack volume s0
        in (case for_each (scan_group bk host_id volume_id run_id) groups
                   (s1, \<lparr> fr_run_id = run_id, fr_scope_root = scope_root, fr_candidates = 0, fr_partial_hashed = 0,
                          fr_full_hashed = 0, fr_staged = 0, fr_hashed_keys = [] \<rparr>) of
              ((s2, r), Some e) \<Rightarrow> (Inl e, s2)
            | ((s2, r), None) \<Rightarrow> (Inr r, finish_run run_id (snd clk) (fr_staged r) s2)))"

text \<open>\<open>scan\<close> over candidates that are given.\<close>

definition fullbit_scan ::
  "backend \<Rightarrow> throttle_profile \<Rightarrow> bool \<Rightarrow> string \<Rightarrow> string \<Rightarrow> candidate list \<Rightarrow> string \<Rightarrow>
   warning_ack option \<Rightarrow> volume_info option \<Rightarrow> int \<times> int \<Rightarrow> staging \<Rightarrow>
   (scan_failure, fullbit_result) result \<times> staging" where
  "fullbit_scan bk t resyncing host_id scope_root candidates volume_id ack volume clk s =
     scan_grouped bk t resyncing host_id scope_root
       (map (\<lambda>g _. snd g) (group_by c_size (filter (\<lambda>c. 0 < c_size c) candidates))) volume_id ack volume clk s"

text \<open>\<open>_size_groups\<close> of the runner: a candidate per staged file, one size that collides at a time.\<close>

definition candidate_of :: "staged_entry \<Rightarrow> candidate" where
  "candidate_of e =
     \<lparr> c_id = Int_Id (se_inode (sg_entry e)), c_path = se_path (sg_entry e),
       c_size = se_size_logical (sg_entry e), c_dev = se_dev (sg_entry e) \<rparr>"

definition size_groups :: "string \<Rightarrow> string \<Rightarrow> string \<Rightarrow> staging \<Rightarrow> (staging \<Rightarrow> candidate list) list" where
  "size_groups host_id volume_id scope s =
     map (\<lambda>z s'. map candidate_of (candidates_of_size host_id volume_id scope z s'))
       (collision_sizes host_id volume_id scope s)"

section \<open>The funnel as a fold\<close>

text \<open>A backend that lets content be read: single files may still fail.\<close>

definition content_readable :: "backend \<Rightarrow> bool" where
  "content_readable bk \<longleftrightarrow>
     (\<forall>path m. bk_full bk path \<noteq> Inl (Full_Bit_Unsupported m) \<and>
        (\<forall>sz. bk_partial bk path sz \<noteq> Inl (Full_Bit_Unsupported m)))"

definition digest_of :: "(hash_failure, string) result \<Rightarrow> string option" where
  "digest_of r = (case r of Inl _ \<Rightarrow> None | Inr d \<Rightarrow> Some d)"

lemma hash_batch_digests:
  "(\<And>x m. x \<in> set xs \<Longrightarrow> h x \<noteq> Inl (Full_Bit_Unsupported m)) \<Longrightarrow> hash_batch h xs = Inr (map (digest_of \<circ> h) xs)"
proof (induction xs)
  case (Cons x xs)
  then show ?case by (cases "h x" rule: sum.exhaust) (auto simp: digest_of_def split: hash_failure.splits)
qed simp

lemma concat_chunked: "0 < n \<Longrightarrow> concat (chunked n xs) = xs"
proof (induction n xs rule: chunked.induct)
  case (1 n xs)
  then show ?case by (subst chunked.simps) auto
qed

lemma chunked_subset: "0 < n \<Longrightarrow> ys \<in> set (chunked n xs) \<Longrightarrow> set ys \<subseteq> set xs"
  using concat_chunked [of n xs] by (metis UN_upper set_concat)

lemma for_each_fold:
  "(\<And>x s. x \<in> set xs \<Longrightarrow> f x s = (g x s, None)) \<Longrightarrow> for_each f xs s = (fold g xs s, None)"
  by (induction xs arbitrary: s) simp_all

lemma fold_concat: "fold (\<lambda>ys. fold g ys) xss s = fold g (concat xss) s"
  by (induction xss arbitrary: s) simp_all

lemma fold_zip_map: "fold (\<lambda>(c, d). g c d) (zip xs (map h xs)) s = fold (\<lambda>c. g c (h c)) xs s"
  by (induction xs arbitrary: s) simp_all

definition partial_of :: "backend \<Rightarrow> int \<Rightarrow> candidate \<Rightarrow> string option" where
  "partial_of bk sz c = digest_of (bk_partial bk (c_path c) sz)"

definition full_of :: "backend \<Rightarrow> candidate \<Rightarrow> string option" where
  "full_of bk c = digest_of (bk_full bk (c_path c))"

definition cand_inode :: "candidate \<Rightarrow> int" where
  "cand_inode c = (case c_id c of Int_Id i \<Rightarrow> i | Str_Id _ \<Rightarrow> 0)"

lemma cand_inode_of [simp]: "cand_inode (candidate_of e) = se_inode (sg_entry e)"
  by (simp add: cand_inode_def candidate_of_def)

lemma partial_pass:
  assumes "content_readable bk"
  shows "\<exists>n. for_each (partial_batch bk sz) (chunked DEFAULT_HASH_BATCH cs) ([], 0) =
    ((group_by (\<lambda>c. the (partial_of bk sz c)) (filter (\<lambda>c. partial_of bk sz c \<noteq> None) cs), n), None)"
proof -
  let ?step = "\<lambda>c (bp, n). case partial_of bk sz c of None \<Rightarrow> (bp, n) | Some p \<Rightarrow> (dict_append p c bp, Suc n)"
  have b: "partial_batch bk sz ys acc = (fold ?step ys acc, None)" for ys acc
  proof -
    have "hash_batch (\<lambda>c. bk_partial bk (c_path c) sz) ys = Inr (map (partial_of bk sz) ys)"
      using assms by (subst hash_batch_digests) (auto simp: content_readable_def partial_of_def)
    then show ?thesis unfolding partial_batch_def by (simp only: sum.case fold_zip_map)
  qed
  have f1: "for_each (partial_batch bk sz) (chunked DEFAULT_HASH_BATCH cs) ([], 0) =
      (fold ?step cs ([], 0), None)"
    by (subst for_each_fold [where g = "fold ?step"])
      (simp_all add: b fold_concat concat_chunked DEFAULT_HASH_BATCH_def)
  have f2: "fst (fold ?step cs (bp, n)) =
      fold (\<lambda>c. dict_append (the (partial_of bk sz c)) c) (filter (\<lambda>c. partial_of bk sz c \<noteq> None) cs) bp" for bp n
    by (induction cs arbitrary: bp n) (auto split: option.splits)
  have "for_each (partial_batch bk sz) (chunked DEFAULT_HASH_BATCH cs) ([], 0) =
      ((group_by (\<lambda>c. the (partial_of bk sz c)) (filter (\<lambda>c. partial_of bk sz c \<noteq> None) cs),
        snd (fold ?step cs ([], 0))), None)"
    unfolding group_by_def f1 f2 [of "[]" 0, symmetric] by simp
  then show ?thesis by (rule exI)
qed

text \<open>One hash staged.\<close>

type_synonym hashed = "candidate \<times> string \<times> string"

definition stage_one :: "string \<Rightarrow> string \<Rightarrow> int \<Rightarrow> hashed \<Rightarrow> staging \<Rightarrow> staging" where
  "stage_one host_id volume_id run_id x s =
     (case x of (c, p, f) \<Rightarrow> stage_hash host_id volume_id (c_dev c) (cand_inode c) p f run_id s)"

definition member_hashes :: "backend \<Rightarrow> string \<times> candidate list \<Rightarrow> hashed list" where
  "member_hashes bk g =
     (if length (snd g) < 2 then []
      else List.map_filter (\<lambda>c. map_option (\<lambda>f. (c, fst g, f)) (full_of bk c)) (snd g))"

definition group_hashes :: "backend \<Rightarrow> candidate list \<Rightarrow> hashed list" where
  "group_hashes bk cs =
     (if length cs < 2 then []
      else let sz = c_size (hd cs)
           in concat (map (member_hashes bk)
                (group_by (\<lambda>c. the (partial_of bk sz c)) (filter (\<lambda>c. partial_of bk sz c \<noteq> None) cs))))"

definition int_ids :: "candidate list \<Rightarrow> bool" where
  "int_ids cs \<longleftrightarrow> (\<forall>c \<in> set cs. \<exists>i. c_id c = Int_Id i)"

lemma full_pass:
  assumes "content_readable bk" "int_ids cs"
  shows "\<exists>r'. for_each (full_batch bk h v run p) (chunked DEFAULT_HASH_BATCH cs) (s, r) =
    ((fold (stage_one h v run) (List.map_filter (\<lambda>c. map_option (\<lambda>f. (c, p, f)) (full_of bk c)) cs) s, r'), None)"
proof -
  have files: "\<exists>r'. for_each (stage_file h v run p) (zip ys (map (full_of bk) ys)) (s, r) =
      ((fold (stage_one h v run) (List.map_filter (\<lambda>c. map_option (\<lambda>f. (c, p, f)) (full_of bk c)) ys) s, r'), None)"
    if "int_ids ys" for ys s r
    using that
  proof (induction ys arbitrary: s r)
    case (Cons y ys)
    from Cons.prems obtain i where "c_id y = Int_Id i" and "int_ids ys" by (auto simp: int_ids_def)
    with Cons.IH show ?case
      by (cases "full_of bk y")
        (simp_all add: stage_file_def List.map_filter_simps stage_one_def cand_inode_def Let_def)
  qed (simp add: List.map_filter_simps)
  have batch: "full_batch bk h v run p ys st = for_each (stage_file h v run p) (zip ys (map (full_of bk) ys)) st" for ys st
  proof -
    have "hash_batch (\<lambda>c. bk_full bk (c_path c)) ys = Inr (map (full_of bk) ys)"
      using assms(1) by (subst hash_batch_digests) (auto simp: content_readable_def full_of_def)
    then show ?thesis by (simp add: full_batch_def)
  qed
  have "\<exists>r'. for_each (full_batch bk h v run p) chunks (s, r) =
      ((fold (stage_one h v run) (List.map_filter (\<lambda>c. map_option (\<lambda>f. (c, p, f)) (full_of bk c)) (concat chunks)) s, r'), None)"
    if "\<forall>ys \<in> set chunks. int_ids ys" for chunks
    using that
  proof (induction chunks arbitrary: s r)
    case (Cons ys chunks)
    with files [of ys s r] show ?case
      by (auto simp: batch map_filter_def)
  qed (simp add: List.map_filter_simps)
  moreover have "\<forall>ys \<in> set (chunked DEFAULT_HASH_BATCH cs). int_ids ys"
    using assms(2) chunked_subset [of DEFAULT_HASH_BATCH _ cs] unfolding int_ids_def DEFAULT_HASH_BATCH_def by auto
  ultimately have "\<exists>r'. for_each (full_batch bk h v run p) (chunked DEFAULT_HASH_BATCH cs) (s, r) =
      ((fold (stage_one h v run) (List.map_filter (\<lambda>c. map_option (\<lambda>f. (c, p, f)) (full_of bk c))
          (concat (chunked DEFAULT_HASH_BATCH cs))) s, r'), None)" by blast
  then show ?thesis by (simp add: concat_chunked DEFAULT_HASH_BATCH_def)
qed

lemma int_ids_sub: "int_ids cs \<Longrightarrow> set ys \<subseteq> set cs \<Longrightarrow> int_ids ys"
  by (auto simp: int_ids_def)

lemma funnel_group_hashes:
  assumes "content_readable bk" "int_ids cs"
  shows "\<exists>r'. funnel_group bk h v run cs (s, r) = ((fold (stage_one h v run) (group_hashes bk cs) s, r'), None)"
proof (cases "length cs < 2")
  case False
  define groups where "groups = group_by (\<lambda>c. the (partial_of bk (c_size (hd cs)) c))
    (filter (\<lambda>c. partial_of bk (c_size (hd cs)) c \<noteq> None) cs)"
  from partial_pass [OF assms(1), of "c_size (hd cs)" cs] obtain n where
    n: "for_each (partial_batch bk (c_size (hd cs))) (chunked DEFAULT_HASH_BATCH cs) ([], 0) = ((groups, n), None)"
    unfolding groups_def by blast
  have "\<exists>r'. for_each (partial_members bk h v run) gs (s, r) =
      ((fold (stage_one h v run) (concat (map (member_hashes bk) gs)) s, r'), None)"
    if "\<forall>g \<in> set gs. int_ids (snd g)" for gs s r
    using that
  proof (induction gs arbitrary: s r)
    case (Cons g gs)
    then obtain p ms where g: "g = (p, ms)" and ids: "int_ids ms" by (cases g) auto
    from full_pass [OF assms(1) ids, of h v run p s r] obtain r1 where
      "for_each (full_batch bk h v run p) (chunked DEFAULT_HASH_BATCH ms) (s, r) =
        ((fold (stage_one h v run) (List.map_filter (\<lambda>c. map_option (\<lambda>f. (c, p, f)) (full_of bk c)) ms) s, r1), None)"
      by blast
    then have "\<exists>r1. partial_members bk h v run g (s, r) = ((fold (stage_one h v run) (member_hashes bk g) s, r1), None)"
      by (simp add: partial_members_def member_hashes_def g)
    with Cons show ?case by force
  qed simp
  moreover have "\<forall>g \<in> set groups. int_ids (snd g)"
  proof
    fix g
    assume g_mem: "g \<in> set groups"
    obtain k ms where "g = (k, ms)" by (cases g)
    with g_mem have g: "g = (k, ms)" "(k, ms) \<in> set groups" by simp_all
    have "set ms \<subseteq> set cs"
      using group_by_key [OF g(2) [unfolded groups_def]] by auto
    with assms(2) int_ids_sub g(1) show "int_ids (snd g)" by simp
  qed
  ultimately have "\<exists>r'. for_each (partial_members bk h v run) groups (s, r1) =
      ((fold (stage_one h v run) (concat (map (member_hashes bk) groups)) s, r'), None)" for r1 by blast
  with n False show ?thesis
    by (simp add: funnel_group_def group_hashes_def groups_def Let_def)
qed (simp add: funnel_group_def group_hashes_def)

text \<open>Staging a hash changes no candidate.\<close>

definition hash_row :: "hashed \<Rightarrow> int \<Rightarrow> staged_entry \<Rightarrow> staged_entry" where
  "hash_row x run_id e =
     (case x of (c, p, f) \<Rightarrow>
        e\<lparr> sg_partial_hash := Some p, sg_full_hash := Some f, sg_run := run_id, sg_pushed := False \<rparr>)"

definition hashed_key :: "string \<Rightarrow> string \<Rightarrow> hashed \<Rightarrow> stage_key" where
  "hashed_key h v x = (h, v, c_dev (fst x), cand_inode (fst x))"

lemma stage_one_entries:
  "sq_entries (stage_one h v run x s) =
     update_where (\<lambda>e. staged_key e = hashed_key h v x) (hash_row x run) (sq_entries s)"
  "sq_runs (stage_one h v run x s) = sq_runs s" "sq_removals (stage_one h v run x s) = sq_removals s"
  "sq_next_run (stage_one h v run x s) = sq_next_run s"
proof -
  obtain c p f where x: "x = (c, p, f)" by (cases x)
  have "hash_row x run = (\<lambda>e. e\<lparr> sg_partial_hash := Some p, sg_full_hash := Some f, sg_run := run, sg_pushed := False \<rparr>)"
    by (simp add: hash_row_def x fun_eq_iff)
  then show "sq_entries (stage_one h v run x s) =
      update_where (\<lambda>e. staged_key e = hashed_key h v x) (hash_row x run) (sq_entries s)"
    by (simp add: stage_one_def stage_hash_def hashed_key_def x)
qed (simp_all add: stage_one_def stage_hash_def split: prod.split)

lemma hash_row_simps [simp]:
  "sg_entry (hash_row x run e) = sg_entry e" "sg_host_id (hash_row x run e) = sg_host_id e"
  "sg_volume_id (hash_row x run e) = sg_volume_id e" "staged_key (hash_row x run e) = staged_key e"
  "hash_row y run (hash_row x run e) = hash_row y run e" "candidate_of (hash_row x run e) = candidate_of e"
  by (simp_all add: hash_row_def staged_key_def candidate_of_def split: prod.split)

lemma candidates_keep:
  "map candidate_of (candidates_of_size h v scope z (fold (stage_one h v run) xs s)) =
     map candidate_of (candidates_of_size h v scope z s)"
proof (induction xs arbitrary: s)
  case (Cons x xs)
  have "map candidate_of (filter Q (update_where P (hash_row x run) es)) = map candidate_of (filter Q es)"
    if "\<And>e. Q (hash_row x run e) = Q e" for P Q es
    by (induction es) (simp_all add: update_where_def that)
  then have "map candidate_of (candidates_of_size h v scope z (stage_one h v run x s)) =
      map candidate_of (candidates_of_size h v scope z s)"
    by (simp add: candidates_of_size_def iter_candidates_def stage_one_entries)
  with Cons show ?case by simp
qed simp

text \<open>A run of updates by key is one pass over the rows.\<close>

lemma fold_stage_entries:
  "sq_entries (fold (stage_one h v run) xs s) =
     fold (\<lambda>x. update_where (\<lambda>e. staged_key e = hashed_key h v x) (hash_row x run)) xs (sq_entries s)"
  "sq_runs (fold (stage_one h v run) xs s) = sq_runs s" "sq_removals (fold (stage_one h v run) xs s) = sq_removals s"
  "sq_next_run (fold (stage_one h v run) xs s) = sq_next_run s"
  by (induction xs arbitrary: s) (simp_all add: stage_one_entries)

lemma fold_update_rows:
  assumes "\<And>x y. x \<in> set xs \<Longrightarrow> y \<in> set xs \<Longrightarrow> k x = k y \<Longrightarrow> x = y"
    and "\<And>x e. key (g x e) = key e" "\<And>x y e. g y (g x e) = g y e"
  shows "fold (\<lambda>x. update_where (\<lambda>e. key e = k x) (g x)) xs rows =
    map (\<lambda>e. case List.find (\<lambda>x. k x = key e) xs of None \<Rightarrow> e | Some x \<Rightarrow> g x e) rows"
  using assms(1)
proof (induction xs arbitrary: rows)
  case (Cons x xs)
  have IH: "fold (\<lambda>x. update_where (\<lambda>e. key e = k x) (g x)) xs rows' =
    map (\<lambda>e. case List.find (\<lambda>x. k x = key e) xs of None \<Rightarrow> e | Some x \<Rightarrow> g x e) rows'" for rows'
    by (rule Cons.IH) (use Cons.prems in auto)
  have "(case List.find (\<lambda>y. k y = key e) xs of None \<Rightarrow> g x e | Some y \<Rightarrow> g y (g x e)) = g x e"
    if "key e = k x" for e
  proof (cases "List.find (\<lambda>y. k y = key e) xs")
    case (Some y)
    then have "y \<in> set xs" "k y = k x" using that by (auto simp: find_Some_iff)
    with Cons.prems [of y x] have "y = x" by simp
    with Some show ?thesis using assms(3) by simp
  qed simp
  then show ?case
    unfolding fold_simps comp_def IH by (auto simp: update_where_def assms(2))
qed simp

section \<open>What a scan hashes\<close>

lemma group_hashes_mem:
  "(c, p, f) \<in> set (group_hashes bk cs) \<longleftrightarrow>
     c \<in> set cs \<and> partial_of bk (c_size (hd cs)) c = Some p \<and> full_of bk c = Some f \<and>
     2 \<le> length (filter (\<lambda>x. partial_of bk (c_size (hd cs)) x = Some p) cs)"
proof -
  let ?P = "partial_of bk (c_size (hd cs))"
  have sel: "filter (\<lambda>x. the (?P x) = k) (filter (\<lambda>x. ?P x \<noteq> None) cs) = filter (\<lambda>x. ?P x = Some k) cs" for k
    unfolding filter_filter by (rule filter_cong) auto
  have short: "length (filter (\<lambda>x. ?P x = Some p) cs) < 2" if "length cs < 2"
    using that length_filter_le [of "\<lambda>x. ?P x = Some p" cs] by linarith
  have m: "(c, p, f) \<in> set (member_hashes bk g) \<longleftrightarrow>
      2 \<le> length (snd g) \<and> fst g = p \<and> c \<in> set (snd g) \<and> full_of bk c = Some f" for g
    by (auto simp: member_hashes_def mem_map_filter)
  show ?thesis
  proof (cases "length cs < 2")
    case True
    with short show ?thesis by (auto simp: group_hashes_def)
  next
    case False
    let ?F = "filter (\<lambda>x. ?P x \<noteq> None) cs"
    define W where "W = set (group_by (\<lambda>x. the (?P x)) ?F)"
    define M where "M = filter (\<lambda>x. ?P x = Some p) cs"
    have gm: "(p, ms) \<in> W \<longleftrightarrow> ms \<noteq> [] \<and> ms = M" for ms
      unfolding W_def M_def by (simp only: group_by_mem sel)
    have "(c, p, f) \<in> set (group_hashes bk cs) \<longleftrightarrow>
        (\<exists>ms. (p, ms) \<in> W \<and> 2 \<le> length ms \<and> c \<in> set ms \<and> full_of bk c = Some f)"
      using False by (force simp: group_hashes_def Let_def m W_def)
    also have "\<dots> \<longleftrightarrow> 2 \<le> length M \<and> c \<in> set M \<and> full_of bk c = Some f"
      unfolding gm by (cases "M = []") auto
    finally show ?thesis by (auto simp: M_def)
  qed
qed

definition scan_hashes :: "backend \<Rightarrow> string \<Rightarrow> string \<Rightarrow> string \<Rightarrow> int list \<Rightarrow> staging \<Rightarrow> hashed list" where
  "scan_hashes bk h v scope zs s =
     concat (map (\<lambda>z. group_hashes bk (map candidate_of (candidates_of_size h v scope z s))) zs)"

lemma scan_groups_hashes:
  assumes "content_readable bk"
  shows "\<exists>r'. for_each (scan_group bk h v run) (map (\<lambda>z s'. map candidate_of (candidates_of_size h v scope z s')) zs) (s, r) =
    ((fold (stage_one h v run) (scan_hashes bk h v scope zs s) s, r'), None)"
proof (induction zs arbitrary: s r)
  case (Cons z zs)
  let ?cs = "map candidate_of (candidates_of_size h v scope z s)"
  have "int_ids ?cs" by (auto simp: int_ids_def candidate_of_def)
  from funnel_group_hashes [OF assms this] obtain r1 where
    "funnel_group bk h v run ?cs (s, r\<lparr> fr_candidates := fr_candidates r + length ?cs \<rparr>) =
      ((fold (stage_one h v run) (group_hashes bk ?cs) s, r1), None)" by blast
  then have 1: "scan_group bk h v run (\<lambda>s'. map candidate_of (candidates_of_size h v scope z s')) (s, r) =
      ((fold (stage_one h v run) (group_hashes bk ?cs) s, r1), None)"
    by (simp add: scan_group_def)
  have 2: "scan_hashes bk h v scope zs (fold (stage_one h v run) xs s) = scan_hashes bk h v scope zs s" for xs
    by (simp add: scan_hashes_def candidates_keep)
  have 3: "scan_hashes bk h v scope (z # zs) s = group_hashes bk ?cs @ scan_hashes bk h v scope zs s"
    by (simp add: scan_hashes_def)
  from Cons.IH [of "fold (stage_one h v run) (group_hashes bk ?cs) s" r1]
  show ?case unfolding list.map for_each.simps 1 3 fold_append comp_def then_do_simps 2 .
qed (simp add: scan_hashes_def)

text \<open>The reference: the hashes a row must end with.\<close>

definition row_hashes :: "backend \<Rightarrow> string \<Rightarrow> string \<Rightarrow> string \<Rightarrow> staging \<Rightarrow> staged_entry \<Rightarrow> (string \<times> string) option" where
  "row_hashes bk h v scope s e =
     (let size_of = (\<lambda>x. se_size_logical (sg_entry x));
          partial = (\<lambda>x. digest_of (bk_partial bk (se_path (sg_entry x)) (size_of x)));
          files = iter_candidates h v scope s
      in if e \<in> set files \<and> 0 < size_of e \<and>
            2 \<le> length (filter (\<lambda>x. size_of x = size_of e \<and> partial x = partial e) files)
         then (case (partial e, digest_of (bk_full bk (se_path (sg_entry e)))) of
                 (Some p, Some f) \<Rightarrow> Some (p, f) | _ \<Rightarrow> None)
         else None)"

lemma collision_sizes_mem:
  "z \<in> set (collision_sizes h v scope s) \<longleftrightarrow> 0 < z \<and> 2 \<le> length (candidates_of_size h v scope z s)"
proof -
  have len: "length (filter (\<lambda>y. y = z) (filter (\<lambda>z. 0 < z) (map g xs))) =
      (if 0 < z then length (filter (\<lambda>e. g e = z) xs) else 0)" for g :: "staged_entry \<Rightarrow> int" and xs
    by (induction xs) auto
  have mem: "z \<in> set (sort (remdups (filter (\<lambda>z. 2 \<le> length (filter (\<lambda>y. y = z) ys)) ys))) \<longleftrightarrow>
      2 \<le> length (filter (\<lambda>y. y = z) ys)" for ys :: "int list"
    by (cases "filter (\<lambda>y. y = z) ys") (auto dest: filter_eq_ConsD)
  show ?thesis unfolding collision_sizes_def Let_def mem candidates_of_size_def len by simp
qed

lemma candidate_of_inj:
  assumes "staging_ok s" "e \<in> set (iter_candidates h v scope s)" "e' \<in> set (sq_entries s)"
    "staged_key e' = (h, v, c_dev (candidate_of e), cand_inode (candidate_of e))"
  shows "e' = e"
proof -
  from assms(2) have "e \<in> set (sq_entries s)" "staged_key e = (h, v, c_dev (candidate_of e), cand_inode (candidate_of e))"
    by (auto simp: iter_candidates_def staged_key_def candidate_of_def cand_inode_def)
  with assms(1,3,4) show ?thesis by (auto simp: staging_ok_def distinct_map inj_on_def)
qed

lemma filter_map_length: "length (filter P (map f xs)) = length (filter (\<lambda>x. P (f x)) xs)"
  by (induction xs) auto

lemma scan_hashes_mem:
  assumes "staging_ok s" "e \<in> set (sq_entries s)"
  shows "(x \<in> set (scan_hashes bk h v scope (collision_sizes h v scope s) s) \<and> hashed_key h v x = staged_key e) \<longleftrightarrow>
    row_hashes bk h v scope s e = Some (snd x) \<and> fst x = candidate_of e"
proof -
  obtain c p f where x: "x = (c, p, f)" by (cases x)
  let ?z = "\<lambda>e. se_size_logical (sg_entry e)"
  let ?files = "iter_candidates h v scope s"
  let ?cs = "\<lambda>z. map candidate_of (candidates_of_size h v scope z s)"
  have hd_size: "c_size (hd (?cs z)) = z" if "c' \<in> set (?cs z)" for z c'
  proof -
    from that have "hd (?cs z) \<in> set (?cs z)" by (intro hd_in_set) auto
    then show ?thesis by (auto simp: candidates_of_size_def candidate_of_def)
  qed
  have L: "x \<in> set (scan_hashes bk h v scope (collision_sizes h v scope s) s) \<longleftrightarrow>
      (\<exists>z. z \<in> set (collision_sizes h v scope s) \<and> c \<in> set (?cs z) \<and> partial_of bk z c = Some p \<and>
         full_of bk c = Some f \<and> 2 \<le> length (filter (\<lambda>y. partial_of bk z y = Some p) (?cs z)))"
  proof -
    have "(c, p, f) \<in> set (group_hashes bk (?cs z)) \<longleftrightarrow>
        c \<in> set (?cs z) \<and> partial_of bk z c = Some p \<and> full_of bk c = Some f \<and>
        2 \<le> length (filter (\<lambda>y. partial_of bk z y = Some p) (?cs z))" for z
      using hd_size [of c z] by (cases "c \<in> set (?cs z)") (simp_all add: group_hashes_mem)
    then show ?thesis unfolding x scan_hashes_def set_concat set_map UN_iff bex_simps Bex_def by blast
  qed
  have row: "row_hashes bk h v scope s e = Some (p, f) \<longleftrightarrow>
      (e \<in> set ?files \<and> 0 < ?z e \<and> partial_of bk (?z e) (candidate_of e) = Some p \<and>
       full_of bk (candidate_of e) = Some f \<and>
       2 \<le> length (filter (\<lambda>y. partial_of bk (?z e) y = Some p) (?cs (?z e))))"
  proof -
    have "length (filter (\<lambda>y. partial_of bk (?z e) y = Some p) (?cs (?z e))) =
        length (filter (\<lambda>y. ?z y = ?z e \<and> digest_of (bk_partial bk (se_path (sg_entry y)) (?z y)) = Some p) ?files)"
      unfolding filter_map_length candidates_of_size_def filter_filter
      by (rule arg_cong [where f = length], rule filter_cong) (auto simp: partial_of_def candidate_of_def)
    then show ?thesis
      by (auto simp: row_hashes_def Let_def partial_of_def full_of_def candidate_of_def split: option.splits if_splits)
  qed
  show ?thesis
  proof
    assume a: "x \<in> set (scan_hashes bk h v scope (collision_sizes h v scope s) s) \<and> hashed_key h v x = staged_key e"
    then obtain z where z: "c \<in> set (?cs z)" "partial_of bk z c = Some p" "full_of bk c = Some f"
      "2 \<le> length (filter (\<lambda>y. partial_of bk z y = Some p) (?cs z))" "0 < z"
      unfolding L collision_sizes_mem by blast
    then obtain e' where e': "e' \<in> set ?files" "?z e' = z" "c = candidate_of e'"
      by (auto simp: candidates_of_size_def)
    with a have "e = e'"
      by (intro candidate_of_inj [OF assms(1) e'(1) assms(2)]) (simp add: x hashed_key_def)
    with z e' row show "row_hashes bk h v scope s e = Some (snd x) \<and> fst x = candidate_of e"
      by (simp add: x)
  next
    assume "row_hashes bk h v scope s e = Some (snd x) \<and> fst x = candidate_of e"
    then have r: "row_hashes bk h v scope s e = Some (p, f)" and c: "c = candidate_of e" by (simp_all add: x)
    from r row have R: "e \<in> set ?files" "0 < ?z e" "partial_of bk (?z e) c = Some p" "full_of bk c = Some f"
      "2 \<le> length (filter (\<lambda>y. partial_of bk (?z e) y = Some p) (?cs (?z e)))" by (simp_all add: c)
    from R(5) have "2 \<le> length (?cs (?z e))"
      using length_filter_le [of "\<lambda>y. partial_of bk (?z e) y = Some p" "?cs (?z e)"] by linarith
    with R(2) have "?z e \<in> set (collision_sizes h v scope s)" by (simp add: collision_sizes_mem)
    moreover have "c \<in> set (?cs (?z e))" using R(1) by (auto simp: c candidates_of_size_def)
    ultimately have "x \<in> set (scan_hashes bk h v scope (collision_sizes h v scope s) s)" using R L by blast
    moreover have "hashed_key h v x = staged_key e"
      using R(1) by (auto simp: hashed_key_def x c staged_key_def iter_candidates_def candidate_of_def cand_inode_def)
    ultimately show "x \<in> set (scan_hashes bk h v scope (collision_sizes h v scope s) s) \<and> hashed_key h v x = staged_key e" ..
  qed
qed

lemma scan_hashes_functional:
  assumes "staging_ok s" "x \<in> set (scan_hashes bk h v scope (collision_sizes h v scope s) s)"
    "y \<in> set (scan_hashes bk h v scope (collision_sizes h v scope s) s)" "hashed_key h v x = hashed_key h v y"
  shows "x = y"
proof -
  obtain c p f where "x = (c, p, f)" by (cases x)
  with assms(2) obtain z where "fst x \<in> candidate_of ` set (candidates_of_size h v scope z s)"
    by (auto simp: scan_hashes_def group_hashes_mem)
  then obtain e where "e \<in> set (sq_entries s)" "hashed_key h v x = staged_key e"
    by (auto simp: candidates_of_size_def iter_candidates_def hashed_key_def staged_key_def candidate_of_def cand_inode_def)
  with scan_hashes_mem [OF assms(1), of e x] scan_hashes_mem [OF assms(1), of e y] assms show ?thesis
    by (metis option.inject prod_eqI)
qed

definition hashed_row :: "backend \<Rightarrow> string \<Rightarrow> string \<Rightarrow> string \<Rightarrow> staging \<Rightarrow> staged_entry \<Rightarrow> staged_entry" where
  "hashed_row bk h v scope s e =
     (case row_hashes bk h v scope s e of None \<Rightarrow> e
      | Some (p, f) \<Rightarrow> e\<lparr> sg_partial_hash := Some p, sg_full_hash := Some f, sg_run := sq_next_run s, sg_pushed := False \<rparr>)"

text \<open>C31. A content scan that returns was acknowledged for content and did not run into a rebuild, and it
  has staged exactly what it should: a row gets the hashes of its file when the file lies in the scope, is
  not empty, and shares size and partial hash with another file of the scope, if both of its hashes can
  be read; every other row is as it was.\<close>

theorem fullbit_hashes_exact:
  assumes "staging_ok s" "content_readable bk"
    and "scan_grouped bk t resyncing h scope (size_groups h v scope s) v ack vol clk s = (Inr r, s')"
  shows "ack \<noteq> None \<and> wa_mode (the ack) = ''fullbit'' \<and> \<not> should_block_fullbit_async t resyncing \<and>
    sq_entries s' = map (hashed_row bk h v scope s) (sq_entries s)"
proof -
  define run where "run = sq_next_run s"
  obtain s1 where s1: "start_run h v FULLBIT_MODE scope (fst clk) ack vol s = (run, s1)"
    and e1: "sq_entries s1 = sq_entries s"
    by (simp add: start_run_def run_def)
  define xs where "xs = scan_hashes bk h v scope (collision_sizes h v scope s) s"
  have xs1: "scan_hashes bk h v scope (collision_sizes h v scope s) s1 = xs"
    by (simp add: xs_def scan_hashes_def candidates_of_size_def iter_candidates_def e1)
  from assms(3) have g: "ack \<noteq> None" "wa_mode (the ack) = FULLBIT_MODE" "\<not> should_block_fullbit_async t resyncing"
    by (auto simp: scan_grouped_def split: if_splits)
  obtain r' where r': "for_each (scan_group bk h v run) (size_groups h v scope s)
      (s1, \<lparr> fr_run_id = run, fr_scope_root = scope, fr_candidates = 0, fr_partial_hashed = 0, fr_full_hashed = 0,
         fr_staged = 0, fr_hashed_keys = [] \<rparr>) = ((fold (stage_one h v run) xs s1, r'), None)"
    using scan_groups_hashes [OF assms(2), of h v run scope "collision_sizes h v scope s" s1
      "\<lparr> fr_run_id = run, fr_scope_root = scope, fr_candidates = 0, fr_partial_hashed = 0, fr_full_hashed = 0,
         fr_staged = 0, fr_hashed_keys = [] \<rparr>"] unfolding size_groups_def xs1 by blast
  have "s' = finish_run run (snd clk) (fr_staged r') (fold (stage_one h v run) xs s1)"
    using assms(3) g unfolding scan_grouped_def s1 by (auto simp add: r')
  then have "sq_entries s' = sq_entries (fold (stage_one h v run) xs s1)" by (simp add: finish_run_def)
  also have "\<dots> = map (\<lambda>e. case List.find (\<lambda>x. hashed_key h v x = staged_key e) xs of
      None \<Rightarrow> e | Some x \<Rightarrow> hash_row x run e) (sq_entries s)"
    unfolding fold_stage_entries e1
    by (rule fold_update_rows) (use scan_hashes_functional [OF assms(1)] in \<open>auto simp: xs_def\<close>)
  also have "\<dots> = map (hashed_row bk h v scope s) (sq_entries s)"
  proof (rule map_cong [OF refl])
    fix e
    assume e: "e \<in> set (sq_entries s)"
    show "(case List.find (\<lambda>x. hashed_key h v x = staged_key e) xs of None \<Rightarrow> e | Some x \<Rightarrow> hash_row x run e) =
        hashed_row bk h v scope s e"
    proof (cases "List.find (\<lambda>x. hashed_key h v x = staged_key e) xs")
      case None
      have "row_hashes bk h v scope s e = None"
      proof (rule ccontr)
        assume "row_hashes bk h v scope s e \<noteq> None"
        then obtain pf where "row_hashes bk h v scope s e = Some pf" by auto
        with scan_hashes_mem [OF assms(1) e, of "(candidate_of e, pf)" bk h v scope] None show False
          unfolding find_None_iff xs_def by (metis fst_conv snd_conv)
      qed
      with None show ?thesis by (simp add: hashed_row_def)
    next
      case (Some x)
      then have "x \<in> set xs" "hashed_key h v x = staged_key e" by (auto simp: find_Some_iff)
      with scan_hashes_mem [OF assms(1) e, of x bk h v scope] have "row_hashes bk h v scope s e = Some (snd x)"
        by (simp add: xs_def)
      with Some show ?thesis by (cases x) (simp add: hashed_row_def hash_row_def run_def)
    qed
  qed
  finally show ?thesis using g by (simp add: FULLBIT_MODE_def)
qed

section \<open>A content scan\<close>

definition sample_file :: "string \<Rightarrow> int \<Rightarrow> int \<Rightarrow> staged_entry" where
  "sample_file path inode sz =
     staged_row 1 ''h'' ''/d'' \<lparr> se_path = path, se_name = [], se_is_dir = False, se_is_symlink = False,
       se_size_logical = sz, se_size_on_disk = sz, se_mtime = 5, se_ctime = 5, se_uid = 0, se_gid = 0,
       se_inode = inode, se_dev = 1, se_flags = [] \<rparr>"

definition sample_staging :: staging where
  "sample_staging = \<lparr>
     sq_runs = [\<lparr> sr_id = 1, sr_host_id = ''h'', sr_volume_id = ''/d'', sr_mode = ''metadata'', sr_root = ''/d'',
       sr_started_at = 1, sr_finished_at = Some 2, sr_entry_count = 3, sr_warning_ack = None, sr_volume = None \<rparr>],
     sq_next_run = 2,
     sq_entries = [sample_file ''/d/a'' 11 7, sample_file ''/d/b'' 12 7, sample_file ''/d/c'' 13 7,
       sample_file ''/d/z'' 14 0], sq_removals = [] \<rparr>"

definition sample_backend :: backend where
  "sample_backend = \<lparr> bk_volume_info = (\<lambda>_. Inl ''no volume''), bk_walk = (\<lambda>_ _ _. ([], None)),
     bk_partial = (\<lambda>path sz. Inr (if path = ''/d/c'' then ''q'' else ''p'')), bk_full = (\<lambda>path. Inr ''f'') \<rparr>"

definition sample_ack :: "warning_ack option" where
  "sample_ack = Some \<lparr> wa_operator = ''op'', wa_acknowledged_at = 3, wa_target = ''/d'', wa_mode = ''fullbit'' \<rparr>"

abbreviation sample_fullbit_run where
  "sample_fullbit_run \<equiv> scan_grouped sample_backend sample_profile False ''h'' ''/d''
     (size_groups ''h'' ''/d'' ''/d'' sample_staging) ''/d'' sample_ack None (3, 4) sample_staging"

lemma sample_fullbit_ok: "is_ok (fst sample_fullbit_run)"
  by code_simp

theorem fullbit_hashes_exact_witness:
  "map (\<lambda>e. (se_path (sg_entry e), sg_full_hash e)) (sq_entries (snd sample_fullbit_run)) =
     [(''/d/a'', Some ''f''), (''/d/b'', Some ''f''), (''/d/c'', None), (''/d/z'', None)]"
proof -
  have ok: "staging_ok sample_staging" by code_simp
  have readable: "content_readable sample_backend" by (simp add: content_readable_def sample_backend_def)
  obtain r where "sample_fullbit_run = (Inr r, snd sample_fullbit_run)"
    using sample_fullbit_ok by (metis is_ok_iff prod.collapse)
  from fullbit_hashes_exact [OF ok readable this]
  have "sq_entries (snd sample_fullbit_run) =
      map (hashed_row sample_backend ''h'' ''/d'' ''/d'' sample_staging) (sq_entries sample_staging)" by blast
  moreover have "map (\<lambda>e. (se_path (sg_entry e), sg_full_hash e))
      (map (hashed_row sample_backend ''h'' ''/d'' ''/d'' sample_staging) (sq_entries sample_staging)) =
     [(''/d/a'', Some ''f''), (''/d/b'', Some ''f''), (''/d/c'', None), (''/d/z'', None)]"
    by code_simp
  ultimately show ?thesis by simp
qed

end
