(* ===== verification/Scan.thy ===== *)
theory Scan
  imports Full_Bit Listener
begin

text \<open>
  The scanners and the agent's run (\<open>agent/reader/walker.py\<close>, \<open>agent/reader/incremental.py\<close>,
  \<open>agent/runner.py\<close>): a scope is walked in full the first time and by its change feed afterwards, its
  content is hashed if the operator allowed it, and the queue is drained to the core. A scan that raises
  leaves what it has staged. SQLite itself does not fail.
\<close>

section \<open>The full walk\<close>

record scan_result =
  mr_run_id :: int
  mr_volume :: volume_info
  mr_entries_seen :: nat
  mr_rows_changed :: nat

text \<open>The clock readings of one scope.\<close>

record scan_clock =
  ck_ack :: int
  ck_start :: int
  ck_finish :: int
  ck_hash_ack :: int
  ck_hash_start :: int
  ck_hash_finish :: int

text \<open>The loop over the entries: the batch that is filling up, the rows changed and the queue.\<close>

fun flush_loop ::
  "nat \<Rightarrow> int \<Rightarrow> string \<Rightarrow> string \<Rightarrow> scan_entry list \<Rightarrow> scan_entry list \<Rightarrow> nat \<Rightarrow> staging \<Rightarrow>
   scan_entry list \<times> nat \<times> staging" where
  "flush_loop size_max run_id host_id volume_id [] batch changed s = (batch, changed, s)"
| "flush_loop size_max run_id host_id volume_id (e # es) batch changed s =
     (if size_max \<le> length (batch @ [e])
      then (case stage_batch run_id host_id volume_id (batch @ [e]) s of
              (n, s') \<Rightarrow> flush_loop size_max run_id host_id volume_id es [] (changed + n) s')
      else flush_loop size_max run_id host_id volume_id es (batch @ [e]) changed s)"

definition metadata_scan ::
  "backend \<Rightarrow> nat \<Rightarrow> bool \<Rightarrow> string list \<Rightarrow> string \<Rightarrow> string \<Rightarrow> warning_ack option \<Rightarrow> scan_clock \<Rightarrow> staging \<Rightarrow>
   (scan_failure, scan_result) result \<times> staging" where
  "metadata_scan bk batch_size one_filesystem exclude host_id root_path ack ck s0 =
     (if ack = None then (Inl (Ack_Required root_path), s0)
      else (case bk_volume_info bk root_path of
              Inl e \<Rightarrow> (Inl (Backend_Failed e), s0)
            | Inr volume \<Rightarrow>
                let volume_id = vi_mountpoint volume;
                    (run_id, s1) = start_run host_id volume_id ''metadata'' root_path (ck_start ck) ack (Some volume) s0;
                    (es, failure) = bk_walk bk root_path one_filesystem exclude;
                    (batch, changed, s2) = flush_loop batch_size run_id host_id volume_id es [] 0 s1
                in (case failure of
                      Some e \<Rightarrow> (Inl (Backend_Failed e), s2)
                    | None \<Rightarrow>
                        let (n, s3) = (if batch = [] then (0, s2) else stage_batch run_id host_id volume_id batch s2)
                        in (Inr \<lparr> mr_run_id = run_id, mr_volume = volume, mr_entries_seen = length es,
                                  mr_rows_changed = changed + n \<rparr>,
                            finish_run run_id (ck_finish ck) (length es) s3))))"

section \<open>The incremental cycle\<close>

record incremental_result =
  ir_run_id :: int
  ir_upserts_staged :: nat
  ir_removals_staged :: nat

type_synonym feed = "string \<Rightarrow> (string, change_event list) result"

definition incremental_scan ::
  "backend \<Rightarrow> string \<Rightarrow> string \<Rightarrow> feed \<Rightarrow> warning_ack \<Rightarrow> scan_clock \<Rightarrow> staging \<Rightarrow>
   (scan_failure, incremental_result) result \<times> staging" where
  "incremental_scan bk host_id root_path feed ack ck s0 =
     (case bk_volume_info bk root_path of
        Inl e \<Rightarrow> (Inl (Backend_Failed e), s0)
      | Inr volume \<Rightarrow>
          let volume_id = vi_mountpoint volume;
              (run_id, s1) = start_run host_id volume_id ''metadata'' root_path (ck_start ck) (Some ack) (Some volume) s0
          in (case collect_delta (feed root_path) of
                Inl e \<Rightarrow> (Inl (Backend_Failed e), s1)
              | Inr delta \<Rightarrow>
                  let (upserts, s2) = (if cd_upserts delta = [] then (0, s1)
                         else stage_batch run_id host_id volume_id (cd_upserts delta) s1);
                      (removals, s3) = (if cd_removals delta = [] then (0, s2)
                         else stage_removals run_id host_id volume_id (cd_removals delta) s2)
                  in (Inr \<lparr> ir_run_id = run_id, ir_upserts_staged = upserts, ir_removals_staged = removals \<rparr>,
                      finish_run run_id (ck_finish ck) (length (cd_upserts delta)) s3)))"

section \<open>One scope\<close>

text \<open>The factory answers with a feed, with none, or raises.\<close>

type_synonym feed_factory = "backend \<Rightarrow> volume_info \<Rightarrow> string \<Rightarrow> staging \<Rightarrow> agent_config \<Rightarrow> (string, feed option) result"

definition default_feed_for :: feed_factory where
  "default_feed_for bk volume root_path s config =
     (if vi_fs_type volume = ''zfs'' then Inr None
      else Inr (Some (restat_changes bk (load_baseline (ac_host_id config) (vi_mountpoint volume) s)
             (ac_exclude_scope config))))"

definition metadata_ack :: "string \<Rightarrow> string \<Rightarrow> int \<Rightarrow> warning_ack" where
  "metadata_ack operator root_path t =
     \<lparr> wa_operator = operator, wa_acknowledged_at = t, wa_target = root_path, wa_mode = ''metadata'' \<rparr>"

definition fullbit_ack :: "string \<Rightarrow> string \<Rightarrow> volume_info \<Rightarrow> int \<Rightarrow> warning_ack" where
  "fullbit_ack operator root_path volume t =
     \<lparr> wa_operator = operator, wa_acknowledged_at = t,
       wa_target = root_path @ '' (backing device class: '' @
         (if truthy (vi_raid_role volume) then vi_transport volume @ '' '' @ the (vi_raid_role volume)
          else vi_transport volume) @ '')'',
       wa_mode = ''fullbit'' \<rparr>"

definition fresh_outcome :: "string \<Rightarrow> nat \<Rightarrow> nat \<Rightarrow> scope_outcome" where
  "fresh_outcome root_path seen changed =
     \<lparr> so_root = root_path, so_entries_seen = seen, so_rows_changed = changed, so_error = None,
       so_fullbit_hashed = 0, so_fullbit_error = None \<rparr>"

definition relabelled :: "agent_config \<Rightarrow> string \<Rightarrow> volume_info \<Rightarrow> volume_info" where
  "relabelled config root_path volume =
     (if vi_display_name volume = None \<and> truthy (dict_get (ac_scope_labels config) root_path)
      then volume\<lparr> vi_display_name := dict_get (ac_scope_labels config) root_path \<rparr> else volume)"

definition chosen_feed ::
  "feed_factory \<Rightarrow> bool \<Rightarrow> backend \<Rightarrow> volume_info \<Rightarrow> string \<Rightarrow> staging \<Rightarrow> agent_config \<Rightarrow> feed option" where
  "chosen_feed factory force_full_walk bk volume root_path s config =
     (if \<not> force_full_walk \<and> has_baseline_run (ac_host_id config) (vi_mountpoint volume) s
      then (case factory bk volume root_path s config of Inl _ \<Rightarrow> None | Inr feed \<Rightarrow> feed)
      else None)"

definition scan_one_scope ::
  "backend \<Rightarrow> agent_config \<Rightarrow> string \<Rightarrow> string \<Rightarrow> nat \<Rightarrow> feed_factory \<Rightarrow> bool \<Rightarrow> scan_clock \<Rightarrow> staging \<Rightarrow>
   (scan_failure, scope_outcome \<times> volume_info option) result \<times> staging" where
  "scan_one_scope bk config operator root_path batch_size factory force_full_walk ck s =
     (case bk_volume_info bk root_path of
        Inl e \<Rightarrow> (Inl (Backend_Failed e), s)
      | Inr found \<Rightarrow>
          let volume = relabelled config root_path found;
              ack = metadata_ack operator root_path (ck_ack ck)
          in (case chosen_feed factory force_full_walk bk volume root_path s config of
                Some feed \<Rightarrow>
                  (case incremental_scan bk (ac_host_id config) root_path feed ack ck s of
                     (Inl e, s') \<Rightarrow> (Inl e, s')
                   | (Inr d, s') \<Rightarrow>
                       (Inr (fresh_outcome root_path (ir_upserts_staged d) (ir_upserts_staged d + ir_removals_staged d), None), s'))
              | None \<Rightarrow>
                  (case metadata_scan bk batch_size (\<not> ac_cross_mounts config) (ac_exclude_scope config)
                          (ac_host_id config) root_path (Some ack) ck s of
                     (Inl e, s') \<Rightarrow> (Inl e, s')
                   | (Inr r, s') \<Rightarrow>
                       (Inr (fresh_outcome root_path (mr_entries_seen r) (mr_rows_changed r), Some (mr_volume r)), s'))))"

text \<open>\<open>str(exc)\<close>; the quoting of the root (\<open>!r\<close>) is left out.\<close>

fun failure_text :: "scan_failure \<Rightarrow> string" where
  "failure_text (Backend_Failed m) = m"
| "failure_text (Ack_Required scope) = ''scan of '' @ scope @ '' requires an acknowledged impact warning''"
| "failure_text (Fullbit_Blocked scope) = ''full-bit scan of '' @ scope @ '' blocked: backing array is resyncing/resilvering''"
| "failure_text (Fullbit_Unsupported m) = m"
| "failure_text Bad_Inode = ''invalid literal for int()''"

text \<open>Every failure that can occur here is recorded on the scope.\<close>

definition run_fullbit ::
  "backend \<Rightarrow> bool \<Rightarrow> agent_config \<Rightarrow> string \<Rightarrow> string \<Rightarrow> volume_info \<Rightarrow> scan_clock \<Rightarrow> scope_outcome \<Rightarrow> staging \<Rightarrow>
   scope_outcome \<times> staging" where
  "run_fullbit bk resyncing config operator root_path volume ck outcome s =
     (case scan_grouped bk (ac_throttle config) resyncing (ac_host_id config) root_path
             (size_groups (ac_host_id config) (vi_mountpoint volume) root_path s) (vi_mountpoint volume)
             (Some (fullbit_ack operator root_path volume (ck_hash_ack ck))) (Some volume)
             (ck_hash_start ck, ck_hash_finish ck) s of
        (Inl e, s') \<Rightarrow> (outcome\<lparr> so_fullbit_error := Some (failure_text e) \<rparr>, s')
      | (Inr r, s') \<Rightarrow> (outcome\<lparr> so_fullbit_hashed := fr_full_hashed r \<rparr>, s'))"

section \<open>The run\<close>

record run_summary = agent_run_summary +
  rs_finalized :: "nat option"
  rs_started_at :: int
  rs_finished_at :: int

text \<open>\<open>resolve\<close>: the first backend that supports the root.\<close>

definition resolve_backend :: "((string \<Rightarrow> bool) \<times> backend) list \<Rightarrow> string \<Rightarrow> backend option" where
  "resolve_backend registry root_path = map_option snd (List.find (\<lambda>b. fst b root_path) registry)"

definition failed_outcome :: "string \<Rightarrow> string \<Rightarrow> scope_outcome" where
  "failed_outcome root_path e = (fresh_outcome root_path 0 0)\<lparr> so_error := Some e \<rparr>"

text \<open>One turn of the loop. A scope list that is no absolute path raises out of the run.\<close>

definition scan_root ::
  "((string \<Rightarrow> bool) \<times> backend) list \<Rightarrow> bool \<Rightarrow> agent_config \<Rightarrow> string \<Rightarrow> nat \<Rightarrow> feed_factory \<Rightarrow> bool \<Rightarrow>
   (string \<Rightarrow> scan_clock) \<Rightarrow> string \<times> bool \<Rightarrow> staging \<Rightarrow> (path_safety_error, scope_outcome) result \<times> staging" where
  "scan_root registry resyncing config operator batch_size factory force_full_walk clock r s =
     (case r of (root_path, scope_gated) \<Rightarrow>
        (case (if scope_gated then in_scope config root_path else Inr True) of
           Inl e \<Rightarrow> (Inl e, s)
         | Inr False \<Rightarrow> (Inr (failed_outcome root_path ''not within scan_scope''), s)
         | Inr True \<Rightarrow>
             (case resolve_backend registry root_path of
                None \<Rightarrow> (Inr (failed_outcome root_path (''no registered backend supports '' @ root_path)), s)
              | Some bk \<Rightarrow>
                  (case scan_one_scope bk config operator root_path batch_size factory force_full_walk (clock root_path) s of
                     (Inl e, s') \<Rightarrow> (Inr (failed_outcome root_path (failure_text e)), s')
                   | (Inr (outcome, None), s') \<Rightarrow> (Inr outcome, s')
                   | (Inr (outcome, Some volume), s') \<Rightarrow>
                       if \<not> scope_gated then (Inr outcome, s')
                       else (case in_fullbit_scope config root_path of
                               Inl e \<Rightarrow> (Inl e, s')
                             | Inr False \<Rightarrow> (Inr outcome, s')
                             | Inr True \<Rightarrow>
                                 (case run_fullbit bk resyncing config operator root_path volume (clock root_path) outcome s' of
                                    (o', s'') \<Rightarrow> (Inr o', s'')))))))"

fun scan_roots ::
  "((string \<times> bool) \<Rightarrow> staging \<Rightarrow> (path_safety_error, scope_outcome) result \<times> staging) \<Rightarrow> (string \<times> bool) list \<Rightarrow>
   staging \<Rightarrow> (path_safety_error, scope_outcome list) result \<times> staging" where
  "scan_roots f [] s = (Inr [], s)"
| "scan_roots f (r # rs) s =
     (case f r s of
        (Inl e, s') \<Rightarrow> (Inl e, s')
      | (Inr scope, s') \<Rightarrow>
          (case scan_roots f rs s' of
             (Inl e, s'') \<Rightarrow> (Inl e, s'')
           | (Inr scopes, s'') \<Rightarrow> (Inr (scope # scopes), s'')))"

datatype run_failure = Run_Path path_safety_error | Run_Push string

text \<open>Draining and finalizing act on the core, of any type; finalizing never fails the run.\<close>

definition run_agent ::
  "((string \<Rightarrow> bool) \<times> backend) list \<Rightarrow> bool \<Rightarrow> agent_config \<Rightarrow> string \<Rightarrow> nat \<Rightarrow> feed_factory \<Rightarrow> bool \<Rightarrow>
   (string \<Rightarrow> scan_clock) \<Rightarrow> int \<times> int \<Rightarrow>
   (staging \<Rightarrow> 'w \<Rightarrow> (string, nat) result \<times> staging \<times> 'w) \<Rightarrow> ('w \<Rightarrow> (string, nat) result \<times> 'w) \<Rightarrow>
   staging \<Rightarrow> 'w \<Rightarrow> (run_failure, run_summary) result \<times> staging \<times> 'w" where
  "run_agent registry resyncing config operator batch_size factory force_full_walk clock window drain finalize s w =
     (case scan_roots (scan_root registry resyncing config operator batch_size factory force_full_walk clock)
             (map (\<lambda>r. (r, True)) (ac_scan_scope config) @ map (\<lambda>t. (mount_key t, False)) (ac_remote_targets config)) s of
        (Inl e, s1) \<Rightarrow> (Inl (Run_Path e), s1, w)
      | (Inr scopes, s1) \<Rightarrow>
          (case drain s1 w of
             (Inl e, s2, w2) \<Rightarrow> (Inl (Run_Push e), s2, w2)
           | (Inr pushed, s2, w2) \<Rightarrow>
               (case finalize w2 of (finalized, w3) \<Rightarrow>
                  (Inr \<lparr> rs_host_id = ac_host_id config, rs_scopes = scopes, rs_pushed = pushed,
                         rs_finalized = (case finalized of Inl _ \<Rightarrow> None | Inr n \<Rightarrow> Some n),
                         rs_started_at = fst window, rs_finished_at = snd window \<rparr>, s2, w3))))"

text \<open>\<open>scan_one_root_now\<close>: the configuration narrowed to one root.\<close>

definition one_root_config :: "agent_config \<Rightarrow> string \<Rightarrow> string \<Rightarrow> (path_safety_error, agent_config) result" where
  "one_root_config config root_path mode =
     rbind (if mode = ''fullbit'' then in_fullbit_scope config root_path else Inr False) (\<lambda>fullbit_now.
       Inr (config\<lparr> ac_scan_scope := [root_path], ac_fullbit_scope := (if fullbit_now then [root_path] else []),
                    ac_remote_targets := [] \<rparr>))"

definition scan_one_root_now where
  "scan_one_root_now registry resyncing config root_path mode operator batch_size factory clock window drain finalize s w =
     (case one_root_config config root_path mode of
        Inl e \<Rightarrow> (Inl (Run_Path e), s, w)
      | Inr scoped \<Rightarrow> run_agent registry resyncing scoped operator batch_size factory True clock window drain finalize s w)"

end
