(* ===== verification/Mirror.thy ===== *)
theory Mirror
  imports Core_Ingest Scan Churn
begin

text \<open>
  The agent and the core together: what the catalogue shows of a volume once a scan of it has been staged
  and drained, over a network that may lose requests and replies. A full walk adds what it has found; an
  incremental cycle makes the catalogue the mirror of the tree, provided a change of a file moves its
  modification time.
\<close>

section \<open>A volume in the queue\<close>

definition staged_at :: "string \<Rightarrow> string \<Rightarrow> staging \<Rightarrow> int \<times> int \<Rightarrow> staged_entry option" where
  "staged_at h m s k = find_row staged_key (h, m, k) (sq_entries s)"

definition baseline_at :: "string \<Rightarrow> string \<Rightarrow> staging \<Rightarrow> int \<times> int \<Rightarrow> scan_entry option" where
  "baseline_at h m s k = map_option sg_entry (staged_at h m s k)"

definition entry_fact :: "scan_entry \<Rightarrow> int \<times> int" where
  "entry_fact e = (se_mtime e, se_size_logical e)"

definition found_facts :: "scan_entry list \<Rightarrow> shown_entries" where
  "found_facts es = map_of (map (\<lambda>e. (entry_dev_inode e, entry_fact e)) es)"

text \<open>Everything is pushed, and the core shows of a staged row what is staged, if it shows it at all.\<close>

definition in_step :: "string \<Rightarrow> string \<Rightarrow> staging \<Rightarrow> shown_entries \<Rightarrow> bool" where
  "in_step h m s L \<longleftrightarrow> staging_ok s \<and>
     (\<forall>e \<in> set (sq_entries s). sg_pushed e) \<and> (\<forall>r \<in> set (sq_removals s). rv_pushed r) \<and>
     (\<forall>k. case baseline_at h m s k of
            None \<Rightarrow> L k = None
          | Some e \<Rightarrow> L k = None \<or> L k = Some (entry_fact e))"

text \<open>A file whose modification time stands has kept its size; a file that was shown and has not changed is
  not one that had been removed and is back.\<close>

definition mtime_tells :: "string \<Rightarrow> string \<Rightarrow> staging \<Rightarrow> scan_entry list \<Rightarrow> bool" where
  "mtime_tells h m s es \<longleftrightarrow>
     (\<forall>e \<in> set es. \<forall>old. baseline_at h m s (entry_dev_inode e) = Some old \<and> se_mtime old = se_mtime e \<longrightarrow>
        se_size_logical old = se_size_logical e)"

definition none_restored :: "string \<Rightarrow> string \<Rightarrow> staging \<Rightarrow> shown_entries \<Rightarrow> scan_entry list \<Rightarrow> bool" where
  "none_restored h m s L es \<longleftrightarrow>
     (\<forall>e \<in> set es. \<forall>old. baseline_at h m s (entry_dev_inode e) = Some old \<and> entry_fact old = entry_fact e \<longrightarrow>
        L (entry_dev_inode e) \<noteq> None)"

lemma in_stepD:
  assumes "in_step h m s L"
  shows "baseline_at h m s k = None \<Longrightarrow> L k = None"
    and "baseline_at h m s k = Some e \<Longrightarrow> L k = None \<or> L k = Some (entry_fact e)"
proof -
  have "case baseline_at h m s k of None \<Rightarrow> L k = None | Some e \<Rightarrow> L k = None \<or> L k = Some (entry_fact e)"
    using assms unfolding in_step_def by blast
  then show "baseline_at h m s k = None \<Longrightarrow> L k = None"
    and "baseline_at h m s k = Some e \<Longrightarrow> L k = None \<or> L k = Some (entry_fact e)" by simp_all
qed

lemma staged_at_iff:
  "staging_ok s \<Longrightarrow> staged_at h m s k = Some row \<longleftrightarrow> row \<in> set (sq_entries s) \<and> staged_key row = (h, m, k)"
  unfolding staged_at_def by (rule find_row_Some) (simp add: staging_ok_def)

lemma found_facts_at:
  "distinct (map entry_dev_inode es) \<Longrightarrow> found_facts es k =
    map_option entry_fact (find_row entry_dev_inode k es)"
  unfolding found_facts_def by (induction es) (auto simp: find_row_def)

lemma staged_at_load:
  "dict_get (load_baseline h m s) k = map_option (\<lambda>e. (se_mtime e, se_path e)) (baseline_at h m s k)"
proof -
  have "dict_get (map (\<lambda>e. ((se_dev (sg_entry e), se_inode (sg_entry e)), (se_mtime (sg_entry e), se_path (sg_entry e))))
      (filter (\<lambda>e. sg_host_id e = h \<and> sg_volume_id e = m) xs)) k =
    map_option (\<lambda>e. (se_mtime e, se_path e)) (map_option sg_entry (find_row staged_key (h, m, k) xs))" for xs
    by (induction xs) (auto simp: find_row_def staged_key_def)
  then show ?thesis by (simp add: load_baseline_def staged_at_def baseline_at_def)
qed

lemma load_baseline_distinct:
  assumes "staging_ok s"
  shows "distinct (map fst (load_baseline h m s))"
proof -
  from assms have "distinct (map staged_key (filter (\<lambda>e. sg_host_id e = h \<and> sg_volume_id e = m) (sq_entries s)))"
    by (simp add: staging_ok_def distinct_map_filter)
  then show ?thesis
    by (auto simp: load_baseline_def distinct_map inj_on_def staged_key_def)
qed

section \<open>What staging a batch leaves\<close>

lemma upsert_row_at:
  assumes "\<And>old. key old = key new \<Longrightarrow> key (overwrite new old) = key old"
  shows "find_row key k (snd (upsert_row key guard overwrite new (n, rows))) =
    (if key new = k
     then (case find_row key k rows of None \<Rightarrow> Some new
           | Some old \<Rightarrow> Some (if guard new old then overwrite new old else old))
     else find_row key k rows)"
proof -
  have u: "find_row key k (update_where (\<lambda>r. key r = key new) (overwrite new) rows) =
      map_option (\<lambda>x. if key x = key new then overwrite new x else x) (find_row key k rows)" for k
    using assms by (induction rows) (auto simp: find_row_def update_where_def)
  show ?thesis
    using find_row_mem [of key k rows]
    by (auto simp: upsert_row_def find_row_append find_row_single u split: option.splits)
qed

lemma upsert_rows_at:
  assumes "distinct (map key news)" "\<And>new old. new \<in> set news \<Longrightarrow> key old = key new \<Longrightarrow> key (overwrite new old) = key old"
  shows "find_row key k (snd (fold (upsert_row key guard overwrite) news (n, rows))) =
    (case find_row key k news of
       None \<Rightarrow> find_row key k rows
     | Some new \<Rightarrow> (case find_row key k rows of None \<Rightarrow> Some new
           | Some old \<Rightarrow> Some (if guard new old then overwrite new old else old)))"
  using assms
proof (induction news arbitrary: n rows)
  case (Cons new news)
  let ?s = "upsert_row key guard overwrite new (n, rows)"
  have IH: "find_row key k (snd (fold (upsert_row key guard overwrite) news ?s)) =
    (case find_row key k news of
       None \<Rightarrow> find_row key k (snd ?s)
     | Some new \<Rightarrow> (case find_row key k (snd ?s) of None \<Rightarrow> Some new
           | Some old \<Rightarrow> Some (if guard new old then overwrite new old else old)))"
    using Cons.IH [where n = "fst ?s" and rows = "snd ?s"] Cons.prems by (simp add: prod.collapse)
  have "key new \<notin> key ` set news" using Cons.prems(1) by simp
  then have "find_row key k news = None" if "key new = k"
    using that unfolding find_row_None by blast
  moreover have "find_row key k (new # news) = (if key new = k then Some new else find_row key k news)"
    by (simp add: find_row_def)
  ultimately show ?case
    unfolding fold_simps comp_def IH using Cons.prems(2) [of new]
    by (auto simp: upsert_row_at split: option.split)
qed (simp add: find_row_def)

lemma stage_batch_at:
  assumes "distinct (map entry_dev_inode es)"
  shows "staged_at h m (snd (stage_batch i h m es s)) k =
    (case find_row entry_dev_inode k es of
       None \<Rightarrow> staged_at h m s k
     | Some e \<Rightarrow> (case staged_at h m s k of None \<Rightarrow> Some (staged_row i h m e)
           | Some old \<Rightarrow> Some (if stage_guard (staged_row i h m e) old then restage (staged_row i h m e) old else old)))"
proof -
  let ?news = "map (staged_row i h m) es"
  have "distinct (map staged_key ?news)" using assms by (auto simp: distinct_map inj_on_def entry_dev_inode_def)
  moreover have "find_row staged_key (h, m, k) ?news = map_option (staged_row i h m) (find_row entry_dev_inode k es)"
    by (induction es) (auto simp: find_row_def entry_dev_inode_def)
  moreover have "staged_at h m (snd (stage_batch i h m es s)) k =
      find_row staged_key (h, m, k) (snd (fold (upsert_row staged_key stage_guard restage) ?news (0, sq_entries s)))"
    by (simp add: staged_at_def stage_batch_def upsert_rows_def split: prod.split)
  ultimately show ?thesis
    by (simp add: upsert_rows_at staged_at_def split: option.split)
qed


text \<open>The batches of a walk come to one.\<close>

lemma stage_batch_append:
  "stage_batch i h m (xs @ ys) s =
    (case stage_batch i h m xs s of (a, s1) \<Rightarrow> case stage_batch i h m ys s1 of (b, s2) \<Rightarrow> (a + b, s2))"
proof -
  have "fold (upsert_row key guard overwrite) news (a + n, rows) =
      (case fold (upsert_row key guard overwrite) news (n, rows) of (b, rows') \<Rightarrow> (a + b, rows'))"
    for key :: "'a \<Rightarrow> 'k" and guard overwrite news a n rows
  proof (induction news arbitrary: n rows)
    case (Cons new news)
    obtain c rows1 where 1: "upsert_row key guard overwrite new (n, rows) = (c, rows1)" by fastforce
    then have "upsert_row key guard overwrite new (a + n, rows) = (a + c, rows1)"
      by (auto simp: upsert_row_def split: option.splits if_splits)
    with 1 Cons show ?case by simp
  qed simp
  note shift = this [of staged_key stage_guard restage "map (staged_row i h m) ys" _ 0, simplified]
  obtain a rows1 where 1: "fold (upsert_row staged_key stage_guard restage) (map (staged_row i h m) xs) (0, sq_entries s) = (a, rows1)"
    by fastforce
  obtain b rows2 where 2: "fold (upsert_row staged_key stage_guard restage) (map (staged_row i h m) ys) (0, rows1) = (b, rows2)"
    by fastforce
  from shift [of a rows1] 1 2 show ?thesis by (simp add: stage_batch_def upsert_rows_def)
qed

lemma flush_loop_batches:
  assumes "flush_loop n i h m es batch changed s = (batch', changed', s')"
  shows "stage_batch i h m (batch @ es) s = (case stage_batch i h m batch' s' of (c, s'') \<Rightarrow> (changed' + c - changed, s'')) \<and>
    changed \<le> changed'"
  using assms
proof (induction es arbitrary: batch changed s)
  case (Cons e es)
  show ?case
  proof (cases "n \<le> length (batch @ [e])")
    case True
    obtain c s1 where 1: "stage_batch i h m (batch @ [e]) s = (c, s1)" by fastforce
    with True Cons.prems have "flush_loop n i h m es [] (changed + c) s1 = (batch', changed', s')" by simp
    from Cons.IH [OF this] stage_batch_append [of i h m "batch @ [e]" es s] 1 show ?thesis
      by (auto split: prod.splits)
  next
    case False
    with Cons.prems have "flush_loop n i h m es (batch @ [e]) changed s = (batch', changed', s')" by simp
    from Cons.IH [OF this] show ?thesis by simp
  qed
qed (auto split: prod.splits)

lemma stage_batch_Nil [simp]: "stage_batch i h m [] s = (0, s)"
  by (simp add: stage_batch_def upsert_rows_def)

lemma metadata_scan_stages:
  assumes "metadata_scan bk n one excl h root_path (Some ack) ck s = (Inr r, s')"
  obtains vol es s1 where
    "bk_volume_info bk root_path = Inr vol" "bk_walk bk root_path one excl = (es, None)"
    "s1 = snd (start_run h (vi_mountpoint vol) ''metadata'' root_path (ck_start ck) (Some ack) (Some vol) s)"
    "s' = finish_run (sq_next_run s) (ck_finish ck) (length es)
       (snd (stage_batch (sq_next_run s) h (vi_mountpoint vol) es s1))"
    "mr_entries_seen r = length es" "mr_volume r = vol"
    "mr_rows_changed r = fst (stage_batch (sq_next_run s) h (vi_mountpoint vol) es s1)"
proof -
  from assms obtain vol where vol: "bk_volume_info bk root_path = Inr vol"
    by (auto simp: metadata_scan_def split: sum.splits)
  let ?m = "vi_mountpoint vol"
  obtain s1 where s1: "start_run h ?m ''metadata'' root_path (ck_start ck) (Some ack) (Some vol) s = (sq_next_run s, s1)"
    by (simp add: start_run_def)
  obtain es failure where w: "bk_walk bk root_path one excl = (es, failure)" by fastforce
  obtain batch changed s2 where f: "flush_loop n (sq_next_run s) h ?m es [] 0 s1 = (batch, changed, s2)"
    by (metis prod_cases3)
  from assms vol s1 w f have none: "failure = None"
    by (auto simp: metadata_scan_def Let_def split: option.splits)
  note b = flush_loop_batches [OF f, simplified]
  obtain c s3 where 3: "stage_batch (sq_next_run s) h ?m batch s2 = (c, s3)" by fastforce
  have "(if batch = [] then (0, s2) else stage_batch (sq_next_run s) h ?m batch s2) = (c, s3)"
    using 3 by auto
  with assms vol s1 w f none have "s' = finish_run (sq_next_run s) (ck_finish ck) (length es) s3"
    "mr_entries_seen r = length es" "mr_volume r = vol" "mr_rows_changed r = changed + c"
    by (auto simp: metadata_scan_def Let_def simp del: start_run_def)
  with b 3 s1 w none vol that [of vol es s1] show ?thesis by simp
qed


section \<open>What the drain of a scan leaves\<close>

text \<open>All that is left to push is what one run has staged of one volume.\<close>

definition queued_by :: "string \<Rightarrow> string \<Rightarrow> int \<Rightarrow> staging \<Rightarrow> bool" where
  "queued_by h m i s \<longleftrightarrow> staging_ok s \<and>
     (\<forall>run \<in> set (sq_runs s). sr_id run = i \<longrightarrow> vf_mountpoint (volume_frame_of run) = m \<and> sr_mode run = ''metadata'') \<and>
     (\<forall>e \<in> set (sq_entries s). sg_pushed e \<or>
        (sg_host_id e = h \<and> sg_volume_id e = m \<and> sg_run e = i \<and> entry_fits m (se_path (sg_entry e)))) \<and>
     (\<forall>r \<in> set (sq_removals s). rv_pushed r \<or>
        (rv_run r = i \<and> (\<forall>row. staged_at h m s (row_id r) = Some row \<longrightarrow> sg_pushed row)))"

lemma row_fact_entry: "row_fact e = (entry_dev_inode (sg_entry e), entry_fact (sg_entry e))"
  by (simp add: row_fact_def entry_fact_def)

lemma staged_key_fact: "sg_host_id e = h \<Longrightarrow> sg_volume_id e = m \<Longrightarrow> staged_key e = (h, m, entry_dev_inode (sg_entry e))"
  by (simp add: staged_key_def entry_dev_inode_def)

lemma queued_pending:
  assumes "queued_by h m i s"
  shows "pending_for h m s"
proof -
  have ok: "staging_ok s" using assms by (simp add: queued_by_def)
  have "sr_id run = i" if "run \<in> set (pending_runs s)" for run
  proof -
    from that consider e where "e \<in> set (left_entries_of (sr_id run) s)" | r where "r \<in> set (left_removals_of (sr_id run) s)"
      unfolding pending_runs_mem by (metis list.set_intros(1) neq_Nil_conv)
    then show ?thesis
      by cases (use assms in \<open>auto simp: left_entries_mem left_removals_mem queued_by_def\<close>)
  qed
  moreover have "sq_runs s \<noteq> [] \<and> run \<in> set (sq_runs s)" if "run \<in> set (pending_runs s)" for run
    using that by (auto simp: pending_runs_mem)
  moreover have "entry_dev_inode (sg_entry e) \<noteq> row_id r"
    if e: "e \<in> set (sq_entries s)" "\<not> sg_pushed e" and r: "r \<in> set (sq_removals s)" "\<not> rv_pushed r" for e r
  proof
    assume "entry_dev_inode (sg_entry e) = row_id r"
    moreover from e assms have "sg_host_id e = h" "sg_volume_id e = m" by (auto simp: queued_by_def)
    ultimately have "staged_at h m s (row_id r) = Some e"
      using e(1) by (simp add: staged_at_iff [OF ok] staged_key_fact)
    with assms r e show False by (auto simp: queued_by_def)
  qed
  ultimately show ?thesis using assms unfolding pending_for_def queued_by_def by blast
qed

lemma pending_facts:
  assumes q: "queued_by h m i s" and es: "set es = {e \<in> set (sq_entries s). \<not> sg_pushed e}"
  shows "facts_map row_fact es k = (case staged_at h m s k of None \<Rightarrow> None
    | Some row \<Rightarrow> if sg_pushed row then None else Some (entry_fact (sg_entry row)))"
proof -
  have ok: "staging_ok s" using q by (simp add: queued_by_def)
  have at: "staged_at h m s (fst (row_fact e)) = Some e \<and> \<not> sg_pushed e" if "e \<in> set es" for e
    using that es q by (auto simp: staged_at_iff [OF ok] queued_by_def row_fact_entry staged_key_fact)
  show ?thesis
  proof (cases "facts_map row_fact es k")
    case None
    then have "k \<notin> fst ` row_fact ` set es" by (rule facts_map_None [THEN iffD1])
    moreover have "k \<in> fst ` row_fact ` set es" if "staged_at h m s k = Some row" "\<not> sg_pushed row" for row
    proof -
      from that es have "row \<in> set es" "staged_key row = (h, m, k)" by (auto simp: staged_at_iff [OF ok])
      then have "fst (row_fact row) = k" by (auto simp: row_fact_def entry_dev_inode_def staged_key_def)
      with \<open>row \<in> set es\<close> show ?thesis by blast
    qed
    ultimately show ?thesis using None by (auto split: option.split)
  next
    case (Some x)
    then obtain e where e: "e \<in> set es" "row_fact e = (k, x)" using facts_map_Some by blast
    with at [OF e(1)] Some show ?thesis by (simp add: row_fact_entry)
  qed
qed

lemma baseline_at_marked: "baseline_at h m (marked A B s) = baseline_at h m s"
proof -
  have "map_option sg_entry (find_row staged_key k (map (\<lambda>e. if staged_key e \<in> A then e\<lparr> sg_pushed := True \<rparr> else e) xs)) =
      map_option sg_entry (find_row staged_key k xs)" for k xs
    by (induction xs) (auto simp: find_row_def)
  then show ?thesis by (simp add: baseline_at_def staged_at_def marked_def fun_eq_iff)
qed

context core_api
begin

lemma drained_view:
  assumes "sound w" "queued_by h m i s" "0 < chunk" "drain p chunk post facts s w = (Inr n, s', w')"
  shows "sound w' \<and> staging_ok s' \<and> (\<forall>e \<in> set (sq_entries s'). sg_pushed e) \<and> (\<forall>r \<in> set (sq_removals s'). rv_pushed r) \<and>
    baseline_at h m s' = baseline_at h m s \<and>
    live w' = (live w)(m := (\<lambda>k.
      if \<exists>r \<in> set (sq_removals s). \<not> rv_pushed r \<and> row_id r = k then None
      else (case staged_at h m s k of
              None \<Rightarrow> live w m k
            | Some row \<Rightarrow> if sg_pushed row then live w m k else Some (entry_fact (sg_entry row)))))"
proof -
  have ok: "staging_ok s" using assms(2) by (simp add: queued_by_def)
  obtain es where es: "set es = {e \<in> set (sq_entries s). \<not> sg_pushed e}"
    "live w' = (live w)(m := (live w m ++ facts_map row_fact es) |` (- row_id ` {r \<in> set (sq_removals s). \<not> rv_pushed r}))"
    and r: "sound w'" "\<forall>e \<in> set (sq_entries s'). sg_pushed e" "\<forall>r \<in> set (sq_removals s'). rv_pushed r"
    using live_after_drain [OF assms(1) ok assms(3) queued_pending [OF assms(2)] assms(4)] by blast
  obtain A B where s': "s' = marked A B s"
    using drain_invariant [OF assms(4) ok assms(3), of "\<lambda>_ _ _. True" "\<lambda>_ _ _. True"]
    by (auto simp: keeps_entries_def keeps_removals_def sends_entries_def sends_removals_def split: sum.splits)
  have "(live w m ++ facts_map row_fact es) |` (- row_id ` {r \<in> set (sq_removals s). \<not> rv_pushed r}) =
    (\<lambda>k. if \<exists>r \<in> set (sq_removals s). \<not> rv_pushed r \<and> row_id r = k then None
      else (case staged_at h m s k of None \<Rightarrow> live w m k
            | Some row \<Rightarrow> if sg_pushed row then live w m k else Some (entry_fact (sg_entry row))))"
    using pending_facts [OF assms(2) es(1)]
    by (auto simp: fun_eq_iff restrict_map_def map_add_def image_iff split: option.splits)
  with es r show ?thesis using ok by (simp add: s' baseline_at_marked)
qed

end


section \<open>One cycle\<close>

text \<open>What a scan stages: a batch of entries, then removals, in a run of its own.\<close>

definition cycle_queue ::
  "string \<Rightarrow> volume_info \<Rightarrow> string \<Rightarrow> int \<Rightarrow> warning_ack \<Rightarrow> int \<Rightarrow> nat \<Rightarrow> scan_entry list \<Rightarrow> (int \<times> int \<times> string) list \<Rightarrow>
   staging \<Rightarrow> staging" where
  "cycle_queue h vol root_path ts ack tf n es rs s =
     (let i = sq_next_run s; m = vi_mountpoint vol
      in finish_run i tf n (snd (stage_removals i h m rs (snd (stage_batch i h m es
           (snd (start_run h m ''metadata'' root_path ts (Some ack) (Some vol) s)))))))"

definition triple_id :: "int \<times> int \<times> string \<Rightarrow> int \<times> int" where
  "triple_id r = (fst r, fst (snd r))"

lemma staged_rows_from:
  assumes "e \<in> set (sq_entries (snd (stage_batch i h m es s)))" "\<And>e. e \<in> set (sq_entries s) \<Longrightarrow> sg_pushed e"
  shows "sg_pushed e \<or> (sg_host_id e = h \<and> sg_volume_id e = m \<and> sg_run e = i \<and> sg_entry e \<in> set es)"
proof -
  from assms(1) have "e \<in> set (snd (fold (upsert_row staged_key stage_guard restage) (map (staged_row i h m) es) (0, sq_entries s)))"
    by (simp add: stage_batch_def upsert_rows_def split: prod.splits)
  then show ?thesis
    by (rule upsert_rows_rows) (use assms(2) in \<open>auto simp: staged_row_def restage_def staged_key_def\<close>)
qed

lemma staged_removals_from:
  assumes "r \<in> set (sq_removals (snd (stage_removals i h m rs s)))" "\<And>r. r \<in> set (sq_removals s) \<Longrightarrow> rv_pushed r"
  shows "rv_pushed r \<or> (rv_run r = i \<and> row_id r \<in> triple_id ` set rs)"
proof -
  from assms(1) have "r \<in> set (snd (fold (upsert_row removal_key (\<lambda>_ _. True) restage_removal) (map (removal_row i h m) rs) (0, sq_removals s)))"
    by (simp add: stage_removals_def upsert_rows_def split: prod.splits)
  then show ?thesis
    by (rule upsert_rows_rows)
      (use assms(2) in \<open>force simp: removal_row_def restage_removal_def removal_key_def row_id_def triple_id_def split: prod.splits\<close>)+
qed

lemma staged_removals_all:
  assumes "distinct (map triple_id rs)" "x \<in> set rs"
  shows "\<exists>r \<in> set (sq_removals (snd (stage_removals i h m rs s))). \<not> rv_pushed r \<and> row_id r = triple_id x"
proof -
  let ?news = "map (removal_row i h m) rs"
  have key: "removal_key (removal_row i h m y) = (h, m, triple_id y)" for y
    by (cases y) (simp add: triple_id_def)
  have d: "distinct (map removal_key ?news)" using assms(1) by (auto simp: distinct_map inj_on_def key)
  then have new: "find_row removal_key (h, m, triple_id x) ?news = Some (removal_row i h m x)"
    using assms(2) by (simp add: find_row_Some key)
  have "\<exists>r. find_row removal_key (h, m, triple_id x)
      (snd (fold (upsert_row removal_key (\<lambda>_ _. True) restage_removal) ?news (0, sq_removals s))) = Some r \<and> \<not> rv_pushed r"
    by (subst upsert_rows_at [OF d])
      (auto simp: new removal_row_def restage_removal_def removal_key_def split: option.splits prod.splits)
  then obtain r where "r \<in> set (sq_removals (snd (stage_removals i h m rs s)))" "\<not> rv_pushed r"
    "removal_key r = (h, m, triple_id x)"
    using find_row_mem by (fastforce simp: stage_removals_def upsert_rows_def case_prod_beta)
  then show ?thesis by (auto simp: removal_key_def row_id_def)
qed


lemma start_run_entries: "sq_entries (snd (start_run h m mode root_path ts ack vol s)) = sq_entries s"
  by (simp add: start_run_def)

lemma cycle_queue_parts:
  fixes h vol root_path ts ack tf n es rs s
  defines "s1 \<equiv> snd (start_run h (vi_mountpoint vol) ''metadata'' root_path ts (Some ack) (Some vol) s)"
  defines "s2 \<equiv> snd (stage_batch (sq_next_run s) h (vi_mountpoint vol) es s1)"
  shows "sq_entries (cycle_queue h vol root_path ts ack tf n es rs s) = sq_entries s2"
    and "sq_removals (cycle_queue h vol root_path ts ack tf n es rs s) =
      sq_removals (snd (stage_removals (sq_next_run s) h (vi_mountpoint vol) rs s2))"
    and "sq_removals s2 = sq_removals s"
  by (simp_all add: cycle_queue_def s1_def s2_def Let_def finish_run_def start_run_def stage_batch_def stage_removals_def
      split: prod.splits)

lemma cycle_queue_run:
  assumes "staging_ok s" "run \<in> set (sq_runs (cycle_queue h vol root_path ts ack tf n es rs s))" "sr_id run = sq_next_run s"
  shows "sr_mode run = ''metadata'' \<and> sr_volume run = Some vol"
proof -
  have "\<forall>x \<in> set (sq_runs s). sr_id x \<noteq> sq_next_run s" using assms(1) by (auto simp: staging_ok_def)
  with assms(2,3) show ?thesis
    by (auto simp: cycle_queue_def Let_def finish_run_def start_run_def stage_batch_def stage_removals_def
        set_update_where case_prod_beta split: if_splits)
qed

lemma cycle_queue_ok:
  assumes "staging_ok s"
  shows "staging_ok (cycle_queue h vol root_path ts ack tf n es rs s)"
proof -
  let ?m = "vi_mountpoint vol" and ?i = "sq_next_run s"
  let ?s1 = "snd (start_run h ?m ''metadata'' root_path ts (Some ack) (Some vol) s)"
  let ?s2 = "snd (stage_batch ?i h ?m es ?s1)"
  let ?s3 = "snd (stage_removals ?i h ?m rs ?s2)"
  have 1: "staging_ok ?s1"
    using staging_op_ok [OF assms, of "Start_Run h ?m ''metadata'' root_path ts (Some ack) (Some vol)"]
    by (simp add: op_known_def)
  moreover have i: "?i \<in> sr_id ` set (sq_runs ?s1)" by (simp add: start_run_def)
  ultimately have 2: "staging_ok ?s2" by (rule stage_batch_ok)
  have "sq_runs ?s2 = sq_runs ?s1" by (simp add: stage_batch_def split: prod.split)
  with 2 i have "staging_ok ?s3" by (metis stage_removals_ok)
  from staging_op_ok [OF this, of "Finish_Run ?i tf n"] show ?thesis
    by (simp add: cycle_queue_def Let_def op_known_def)
qed

lemma cycle_queued:
  assumes "staging_ok s" "\<forall>e \<in> set (sq_entries s). sg_pushed e" "\<forall>r \<in> set (sq_removals s). rv_pushed r"
    and "vi_mountpoint vol = m" "distinct (map entry_dev_inode es)" "\<forall>e \<in> set es. entry_fits m (se_path e)"
    and "triple_id ` set rs \<inter> entry_dev_inode ` set es = {}"
  shows "queued_by h m (sq_next_run s) (cycle_queue h vol root_path ts ack tf n es rs s)"
proof -
  let ?q = "cycle_queue h vol root_path ts ack tf n es rs s"
  note parts = cycle_queue_parts [where h = h and vol = vol and root_path = root_path and ts = ts and ack = ack and s = s and es = es]
  have "sg_pushed row" if "staged_at h m ?q k = Some row" "k \<in> triple_id ` set rs" for k row
  proof -
    have "staged_at h m ?q k = staged_at h m s k"
    proof -
      from that(2) assms(7) have "find_row entry_dev_inode k es = None" by (auto simp: find_row_None)
      then show ?thesis
        using stage_batch_at [OF assms(5), of h m "sq_next_run s"
            "snd (start_run h m ''metadata'' root_path ts (Some ack) (Some vol) s)" k] start_run_entries
        by (simp add: staged_at_def parts(1) assms(4))
    qed
    with that(1) assms(1,2) show ?thesis by (auto simp: staged_at_iff)
  qed
  then have "rv_pushed r \<or> (rv_run r = sq_next_run s \<and> (\<forall>row. staged_at h m ?q (row_id r) = Some row \<longrightarrow> sg_pushed row))"
    if "r \<in> set (sq_removals ?q)" for r
    using staged_removals_from [OF that [unfolded parts(2)]] assms(3) unfolding parts(3) by blast
  moreover have "sg_pushed e \<or> (sg_host_id e = h \<and> sg_volume_id e = m \<and> sg_run e = sq_next_run s \<and> entry_fits m (se_path (sg_entry e)))"
    if "e \<in> set (sq_entries ?q)" for e
    using staged_rows_from [OF that [unfolded parts(1)]] assms(2,4,6) by (auto simp: start_run_entries)
  ultimately show ?thesis
    using cycle_queue_ok [OF assms(1)] cycle_queue_run [OF assms(1)]
    by (fastforce simp: queued_by_def volume_frame_of_def assms(4))
qed

context core_api
begin

lemma cycle_view:
  assumes "sound w" "in_step h m s (live w m)" "0 < chunk"
    and q: "vi_mountpoint vol = m" "distinct (map entry_dev_inode es)" "\<forall>e \<in> set es. entry_fits m (se_path e)"
      "triple_id ` set rs \<inter> entry_dev_inode ` set es = {}" "distinct (map triple_id rs)"
    and run: "drain p chunk post facts (cycle_queue h vol root_path ts ack tf n es rs s) w = (Inr n', s', w')"
  shows "sound w' \<and> in_step h m s' (live w' m) \<and>
    live w' = (live w)(m := (\<lambda>k.
      if k \<in> triple_id ` set rs then None
      else (case find_row entry_dev_inode k es of
              None \<Rightarrow> live w m k
            | Some e \<Rightarrow> (case baseline_at h m s k of
                None \<Rightarrow> Some (entry_fact e)
              | Some old \<Rightarrow> if entry_fact old = entry_fact e then live w m k else Some (entry_fact e)))))"
proof -
  let ?q = "cycle_queue h vol root_path ts ack tf n es rs s"
  have s: "staging_ok s" "\<forall>e \<in> set (sq_entries s). sg_pushed e" "\<forall>r \<in> set (sq_removals s). rv_pushed r"
    using assms(2) by (simp_all add: in_step_def)
  note parts = cycle_queue_parts [where h = h and vol = vol and root_path = root_path and ts = ts and ack = ack and s = s and es = es]
  from drained_view [OF assms(1) cycle_queued [OF s q(1-4)] assms(3) run]
  have d: "sound w'" "staging_ok s'" "\<forall>e \<in> set (sq_entries s'). sg_pushed e" "\<forall>r \<in> set (sq_removals s'). rv_pushed r"
    "baseline_at h m s' = baseline_at h m ?q"
    "live w' = (live w)(m := (\<lambda>k.
      if \<exists>r \<in> set (sq_removals ?q). \<not> rv_pushed r \<and> row_id r = k then None
      else (case staged_at h m ?q k of
              None \<Rightarrow> live w m k
            | Some row \<Rightarrow> if sg_pushed row then live w m k else Some (entry_fact (sg_entry row)))))"
    by blast+
  have gone: "(\<exists>r \<in> set (sq_removals ?q). \<not> rv_pushed r \<and> row_id r = k) \<longleftrightarrow> k \<in> triple_id ` set rs" for k
  proof
    assume "\<exists>r \<in> set (sq_removals ?q). \<not> rv_pushed r \<and> row_id r = k"
    then show "k \<in> triple_id ` set rs"
      using staged_removals_from s(3) unfolding parts(2) by (fastforce simp: parts(3))
  next
    assume "k \<in> triple_id ` set rs"
    then show "\<exists>r \<in> set (sq_removals ?q). \<not> rv_pushed r \<and> row_id r = k"
      using staged_removals_all [OF q(5)] unfolding parts(2) by fastforce
  qed
  have at: "staged_at h m ?q k = (case find_row entry_dev_inode k es of
       None \<Rightarrow> staged_at h m s k
     | Some e \<Rightarrow> (case staged_at h m s k of None \<Rightarrow> Some (staged_row (sq_next_run s) h m e)
           | Some old \<Rightarrow> Some (if entry_fact (sg_entry old) = entry_fact e then old else restage (staged_row (sq_next_run s) h m e) old)))" for k
    using stage_batch_at [OF q(2), of h m "sq_next_run s"
        "snd (start_run h m ''metadata'' root_path ts (Some ack) (Some vol) s)" k] start_run_entries
    by (auto simp: staged_at_def parts(1) q(1) stage_guard_def staged_row_def entry_fact_def split: option.splits)
  have pushed: "sg_pushed row" if "staged_at h m s k = Some row" for k row
    using that s by (simp add: staged_at_iff)
  have live': "live w' m k = (if k \<in> triple_id ` set rs then None
      else (case find_row entry_dev_inode k es of
              None \<Rightarrow> live w m k
            | Some e \<Rightarrow> (case baseline_at h m s k of
                None \<Rightarrow> Some (entry_fact e)
              | Some old \<Rightarrow> if entry_fact old = entry_fact e then live w m k else Some (entry_fact e))))" for k
    unfolding d(6) fun_upd_same gone at
    using pushed by (auto simp: baseline_at_def staged_row_def restage_def split: option.split)
  have "case baseline_at h m s' k of None \<Rightarrow> live w' m k = None | Some e \<Rightarrow> live w' m k = None \<or> live w' m k = Some (entry_fact e)" for k
  proof -
    have "baseline_at h m s' k = (case find_row entry_dev_inode k es of None \<Rightarrow> baseline_at h m s k
      | Some e \<Rightarrow> (case baseline_at h m s k of None \<Rightarrow> Some e
          | Some old \<Rightarrow> Some (if entry_fact old = entry_fact e then old else e)))"
      unfolding d(5) by (auto simp: baseline_at_def at staged_row_def restage_def split: option.split)
    moreover have "case baseline_at h m s k of None \<Rightarrow> live w m k = None | Some e \<Rightarrow> live w m k = None \<or> live w m k = Some (entry_fact e)"
      using assms(2) unfolding in_step_def by blast
    ultimately show ?thesis unfolding live' by (auto split: option.splits if_splits)
  qed
  with d(1-4) have "sound w' \<and> in_step h m s' (live w' m)" by (simp add: in_step_def)
  moreover have "live w' = (live w)(m := live w' m)" by (simp add: d(6))
  ultimately show ?thesis unfolding live' [abs_def] by simp
qed

end


section \<open>A scope, scanned and drained\<close>

lemma stage_removals_Nil [simp]: "stage_removals i h m [] s = (0, s)"
  by (simp add: stage_removals_def upsert_rows_def)

lemma metadata_scan_cycle:
  assumes "metadata_scan bk n one excl h root_path (Some ack) ck s = (Inr r, s')"
    and "bk_volume_info bk root_path = Inr vol" "bk_walk bk root_path one excl = (es, None)"
  shows "s' = cycle_queue h vol root_path (ck_start ck) ack (ck_finish ck) (length es) es [] s"
  using metadata_scan_stages [OF assms(1)]
  by (rule metadata_scan_stages [OF assms(1)]) (use assms(2,3) in \<open>simp add: cycle_queue_def Let_def\<close>)

lemma incremental_scan_cycle:
  assumes "incremental_scan bk h root_path feed ack ck s = (Inr r, s')"
    and "bk_volume_info bk root_path = Inr vol" "collect_delta (feed root_path) = Inr d"
  shows "s' = cycle_queue h vol root_path (ck_start ck) ack (ck_finish ck) (length (cd_upserts d)) (cd_upserts d) (cd_removals d) s"
proof -
  have "(if xs = [] then (0, s) else stage_batch i h m xs s) = stage_batch i h m xs s" for xs i m s by simp
  moreover have "(if xs = [] then (0, s) else stage_removals i h m xs s) = stage_removals i h m xs s" for xs i m s by simp
  ultimately show ?thesis
    using assms by (simp add: incremental_scan_def cycle_queue_def start_run_def Let_def case_prod_beta)
qed

lemma restat_changed_at:
  "entry_changed (load_baseline h m s) e \<longleftrightarrow>
     (\<forall>old. baseline_at h m s (entry_dev_inode e) = Some old \<longrightarrow> se_mtime old \<noteq> se_mtime e \<or> se_path old \<noteq> se_path e)"
  by (auto simp: entry_changed_def staged_at_load split: option.split)

lemma removed_ids:
  "triple_id ` set (removed_of (load_baseline h m s) es) =
     {k. baseline_at h m s k \<noteq> None \<and> k \<notin> entry_dev_inode ` set es}"
proof -
  have "baseline_at h m s k \<noteq> None \<longleftrightarrow> k \<in> fst ` set (load_baseline h m s)" for k
  proof -
    have "baseline_at h m s k = None \<longleftrightarrow> dict_get (load_baseline h m s) k = None" unfolding staged_at_load by simp
    then show ?thesis by (simp add: map_of_eq_None_iff)
  qed
  then show ?thesis by (force simp: removed_of_def triple_id_def image_iff)
qed

lemma removed_ids_distinct:
  assumes "staging_ok s"
  shows "distinct (map triple_id (removed_of (load_baseline h m s) es))"
proof -
  let ?gone = "map (\<lambda>x. (fst x, snd (snd x))) (filter (\<lambda>x. fst x \<notin> entry_dev_inode ` set es) (load_baseline h m s))"
  have "distinct (map fst ?gone)"
    using load_baseline_distinct [OF assms] by (simp add: comp_def distinct_map_filter)
  moreover have "mset (map fst (sort ?gone)) = mset (map fst ?gone)" by (simp only: mset_map mset_sort)
  ultimately have "distinct (map fst (sort ?gone))" using mset_eq_imp_distinct_iff by blast
  moreover have "map triple_id (map (\<lambda>((dev, inode), path). (dev, inode, path)) xs) = map fst xs" for xs
    by (auto simp: triple_id_def)
  ultimately show ?thesis by (simp only: removed_of_def)
qed

lemma filter_row:
  assumes "distinct (map f es)"
  shows "find_row f k (filter P es) = (case find_row f k es of None \<Rightarrow> None | Some e \<Rightarrow> if P e then Some e else None)"
proof (cases "find_row f k es")
  case None
  then have "\<forall>x \<in> set (filter P es). f x \<noteq> k" by (simp add: find_row_None)
  then have "find_row f k (filter P es) = None" by (simp only: find_row_None)
  with None show ?thesis by simp
next
  case (Some e)
  from find_row_mem [OF this] have e: "e \<in> set es" "f e = k" by simp_all
  have "x = e" if "x \<in> set es" "f x = k" for x using that e assms by (auto simp: distinct_map inj_on_def)
  then have "find_row f k (filter P es) = None" if "\<not> P e" using that unfolding find_row_None by auto
  moreover have "find_row f k (filter P es) = Some e" if "P e"
    using that e by (simp add: find_row_Some [OF distinct_map_filter [OF assms]])
  ultimately show ?thesis using Some by simp
qed

lemma in_step_start:
  assumes "staging_ok s" "\<forall>e \<in> set (sq_entries s). sg_pushed e" "\<forall>r \<in> set (sq_removals s). rv_pushed r"
    and "\<forall>e \<in> set (sq_entries s). \<not> (sg_host_id e = h \<and> sg_volume_id e = m)"
  shows "in_step h m s Map.empty"
proof -
  have "baseline_at h m s k = None" for k
    using assms(4) by (auto simp: baseline_at_def staged_at_def find_row_None staged_key_def)
  with assms show ?thesis by (simp add: in_step_def)
qed

context core_api
begin

lemma full_walk_live:
  assumes "sound w" "in_step h m s (live w m)" "0 < chunk" "none_restored h m s (live w m) es"
    and "bk_volume_info bk root_path = Inr vol" "vi_mountpoint vol = m"
    and "bk_walk bk root_path one excl = (es, None)" "distinct (map entry_dev_inode es)"
      "\<forall>e \<in> set es. entry_fits m (se_path e)"
    and "metadata_scan bk batch_size one excl h root_path (Some ack) ck s = (Inr r, s1)"
    and "drain p chunk post facts s1 w = (Inr n, s', w')"
  shows "sound w' \<and> in_step h m s' (live w' m) \<and> live w' = (live w)(m := live w m ++ found_facts es)"
proof -
  have s1: "s1 = cycle_queue h vol root_path (ck_start ck) ack (ck_finish ck) (length es) es [] s"
    by (rule metadata_scan_cycle [OF assms(10,5,7)])
  have view: "(if k \<in> triple_id ` set [] then None
      else (case find_row entry_dev_inode k es of
              None \<Rightarrow> live w m k
            | Some e \<Rightarrow> (case baseline_at h m s k of
                None \<Rightarrow> Some (entry_fact e)
              | Some old \<Rightarrow> if entry_fact old = entry_fact e then live w m k else Some (entry_fact e)))) =
    (live w m ++ found_facts es) k" for k
  proof -
    have "live w m k = Some (entry_fact e)"
      if "find_row entry_dev_inode k es = Some e" "baseline_at h m s k = Some old" "entry_fact old = entry_fact e" for e old
    proof -
      from find_row_mem [OF that(1)] that(2,3) assms(4) have "live w m k \<noteq> None" by (auto simp: none_restored_def)
      with in_stepD(2) [OF assms(2) that(2)] that(3) show ?thesis by auto
    qed
    then show ?thesis
      by (auto simp: found_facts_at [OF assms(8)] map_add_def split: option.splits)
  qed
  have "triple_id ` set [] \<inter> entry_dev_inode ` set es = {}" "distinct (map triple_id [])" by simp_all
  from cycle_view [OF assms(1-3,6,8,9) this assms(11) [unfolded s1]] show ?thesis unfolding view .
qed

lemma incremental_live:
  assumes "sound w" "in_step h m s (live w m)" "0 < chunk" "none_restored h m s (live w m) es" "mtime_tells h m s es"
    and "bk_volume_info bk root_path = Inr vol" "vi_mountpoint vol = m"
    and "bk_walk bk root_path True excl = (es, None)" "distinct (map entry_dev_inode es)"
      "\<forall>e \<in> set es. entry_fits m (se_path e)"
    and "incremental_scan bk h root_path (restat_changes bk (load_baseline h m s) excl) ack ck s = (Inr r, s1)"
    and "drain p chunk post facts s1 w = (Inr n, s', w')"
  shows "sound w' \<and> in_step h m s' (live w' m) \<and> live w' = (live w)(m := found_facts es)"
proof -
  have ok: "staging_ok s" using assms(2) by (simp add: in_step_def)
  let ?b = "load_baseline h m s"
  let ?es = "filter (entry_changed ?b) es" and ?rs = "removed_of ?b es"
  have "collect_delta (restat_changes bk ?b excl root_path) = Inr \<lparr> cd_upserts = ?es, cd_removals = ?rs \<rparr>"
    using restat_delta [OF assms(9) load_baseline_distinct [OF ok]] by (simp add: restat_changes_def assms(8))
  from incremental_scan_cycle [OF assms(11,6) this]
  have s1: "s1 = cycle_queue h vol root_path (ck_start ck) ack (ck_finish ck) (length ?es) ?es ?rs s" by simp
  have d: "distinct (map entry_dev_inode ?es)" by (rule distinct_map_filter [OF assms(9)])
  have f: "\<forall>e \<in> set ?es. entry_fits m (se_path e)" using assms(10) by simp
  have disj: "triple_id ` set ?rs \<inter> entry_dev_inode ` set ?es = {}" unfolding removed_ids by auto
  have view: "(if k \<in> triple_id ` set ?rs then None
      else (case find_row entry_dev_inode k ?es of
              None \<Rightarrow> live w m k
            | Some e \<Rightarrow> (case baseline_at h m s k of
                None \<Rightarrow> Some (entry_fact e)
              | Some old \<Rightarrow> if entry_fact old = entry_fact e then live w m k else Some (entry_fact e)))) =
    found_facts es k" for k
  proof (cases "find_row entry_dev_inode k es")
    case None
    then have "k \<notin> entry_dev_inode ` set es" by (auto simp: find_row_None)
    moreover have "live w m k = None" if "baseline_at h m s k = None"
      by (rule in_stepD(1) [OF assms(2) that])
    ultimately show ?thesis
      using None by (auto simp: removed_ids filter_row [OF assms(9)] found_facts_at [OF assms(9)])
  next
    case (Some e)
    from find_row_mem [OF this] have e: "e \<in> set es" "entry_dev_inode e = k" by simp_all
    then have "k \<notin> triple_id ` set ?rs" unfolding removed_ids by blast
    moreover have "live w m k = Some (entry_fact e)"
      if "baseline_at h m s k = Some old" "entry_fact old = entry_fact e" for old
    proof -
      from e that assms(4) have "live w m k \<noteq> None" by (auto simp: none_restored_def)
      with in_stepD(2) [OF assms(2) that(1)] that(2) show ?thesis by auto
    qed
    moreover have "\<exists>old. baseline_at h m s k = Some old \<and> entry_fact old = entry_fact e" if "\<not> entry_changed ?b e"
      using that e assms(5) by (auto simp: restat_changed_at mtime_tells_def entry_fact_def)
    ultimately show ?thesis
      using Some by (auto simp: filter_row [OF assms(9)] found_facts_at [OF assms(9)] split: option.split)
  qed
  from cycle_view [OF assms(1-3,7) d f disj removed_ids_distinct [OF ok] assms(12) [unfolded s1]]
  show ?thesis unfolding view .
qed

end


section \<open>The agent and its core\<close>

lemma relabelled_same [simp]:
  "vi_mountpoint (relabelled config root_path vol) = vi_mountpoint vol"
  "vi_fs_type (relabelled config root_path vol) = vi_fs_type vol"
  by (simp_all add: relabelled_def)

text \<open>The label of a scope does not reach what is staged.\<close>

lemma label_has_no_effect:
  "scan_one_scope bk (config\<lparr> ac_scope_labels := labels \<rparr>) operator root_path batch_size default_feed_for force_full_walk ck s =
   scan_one_scope bk config operator root_path batch_size default_feed_for force_full_walk ck s"
proof -
  let ?c = "config\<lparr> ac_scope_labels := labels \<rparr>"
  have "chosen_feed default_feed_for force_full_walk bk (relabelled ?c root_path vol) root_path s ?c =
      chosen_feed default_feed_for force_full_walk bk (relabelled config root_path vol) root_path s config" for vol
    by (simp add: chosen_feed_def default_feed_for_def cong: if_cong)
  then show ?thesis
    by (simp add: scan_one_scope_def Let_def cong: sum.case_cong option.case_cong)
qed




section \<open>Two cycles\<close>

text \<open>A first walk, then one after \<open>a\<close> was removed, \<open>b\<close> written and \<open>c\<close> created; a reply and a request are
  lost.\<close>

definition sample_found :: "string \<Rightarrow> int \<Rightarrow> int \<Rightarrow> int \<Rightarrow> scan_entry" where
  "sample_found name inode mtime sz =
     \<lparr> se_path = ''/d/'' @ name, se_name = name, se_is_dir = False, se_is_symlink = False, se_size_logical = sz,
       se_size_on_disk = sz, se_mtime = mtime, se_ctime = mtime, se_uid = 0, se_gid = 0, se_inode = inode, se_dev = 1,
       se_flags = [] \<rparr>"

definition sample_volume :: volume_info where
  "sample_volume = \<lparr> vi_mountpoint = ''/d'', vi_fs_type = ''ext4'', vi_total = 9, vi_used = 1, vi_free = 8,
     vi_device = ''sda'', vi_transport = ''sata'', vi_raid_role = None, vi_dataset = None, vi_display_name = None \<rparr>"

definition sample_tree :: "scan_entry list \<Rightarrow> backend" where
  "sample_tree es = sample_backend\<lparr> bk_volume_info := (\<lambda>_. Inr sample_volume), bk_walk := (\<lambda>_ _ _. (es, None)) \<rparr>"

definition first_tree :: "scan_entry list" where
  "first_tree = [sample_found ''a'' 11 5 7, sample_found ''b'' 12 5 7]"

definition second_tree :: "scan_entry list" where
  "second_tree = [sample_found ''b'' 12 6 9, sample_found ''c'' 13 5 1]"

definition sample_ck :: scan_clock where
  "sample_ck = \<lparr> ck_ack = 1, ck_start = 2, ck_finish = 3, ck_hash_ack = 4, ck_hash_start = 5, ck_hash_finish = 6 \<rparr>"

definition first_scan :: "(scan_failure, scope_outcome \<times> volume_info option) result \<times> staging" where
  "first_scan = scan_one_scope (sample_tree first_tree) sample_config ''op'' ''/d'' 1 default_feed_for False sample_ck empty_staging"

definition first_net :: network where
  "first_net = (empty_catalogue, [(sample_clock 100, Reply_Lost), (sample_clock 101, Delivered), (sample_clock 102, Delivered),
     (sample_clock 103, Request_Lost), (sample_clock 104, Delivered), (sample_clock 105, Delivered),
     (sample_clock 106, Delivered)])"

definition first_drain :: "(string, nat) result \<times> staging \<times> network" where
  "first_drain = drain default_retry 1 (post_ingest True 10 ''fp'') None (snd first_scan) first_net"

definition second_scan :: "(scan_failure, scope_outcome \<times> volume_info option) result \<times> staging" where
  "second_scan = scan_one_scope (sample_tree second_tree) sample_config ''op'' ''/d'' 1 default_feed_for False sample_ck
     (fst (snd first_drain))"

definition second_drain :: "(string, nat) result \<times> staging \<times> network" where
  "second_drain = drain default_retry 1 (post_ingest True 10 ''fp'') None (snd second_scan) (snd (snd first_drain))"

lemma first_ran: "is_ok (fst first_scan) \<and> fst first_drain = Inr 2"
  by code_simp

lemma second_ran: "is_ok (fst second_scan) \<and> fst second_drain = Inr 2"
  by code_simp

lemma sample_trees:
  "bk_volume_info (sample_tree es) r = Inr sample_volume" "vi_mountpoint sample_volume = ''/d''"
  "bk_walk (sample_tree es) r one excl = (es, None)" "vi_fs_type sample_volume \<noteq> ''zfs''"
  by (simp_all add: sample_tree_def sample_volume_def)


lemma live_empty: "live_rows fp empty_catalogue m = Map.empty"
  by (simp add: live_rows_def volume_ids_def empty_catalogue_def find_row_def fun_eq_iff)

lemma none_restored_empty: "none_restored h m empty_staging L es"
  by (simp add: none_restored_def baseline_at_def staged_at_def empty_staging_def find_row_def)

lemma in_step_empty: "in_step h m empty_staging Map.empty"
  by (rule in_step_start) (simp_all add: staging_ok_empty, simp_all add: empty_staging_def)

lemma no_baseline_empty: "\<not> has_baseline_run h m empty_staging"
  by (simp add: has_baseline_run_def empty_staging_def)

lemma first_tree_fits: "distinct (map entry_dev_inode first_tree) \<and> (\<forall>e \<in> set first_tree. entry_fits ''/d'' (se_path e))"
  by code_simp

lemma second_tree_fits: "distinct (map entry_dev_inode second_tree) \<and> (\<forall>e \<in> set second_tree. entry_fits ''/d'' (se_path e))"
  by code_simp



lemma first_cycle_in_step:
  "catalogue_sound (fst (snd (snd first_drain))) \<and>
   in_step ''nas'' ''/d'' (fst (snd first_drain)) (live_rows ''fp'' (fst (snd (snd first_drain))) ''/d'') \<and>
   live_rows ''fp'' (fst (snd (snd first_drain))) ''/d'' = found_facts first_tree"
proof -
  let ?run = "metadata_scan (sample_tree first_tree) 1 True (ac_exclude_scope sample_config) ''nas'' ''/d''
    (Some (metadata_ack ''op'' ''/d'' 1)) sample_ck empty_staging"
  have "is_ok (fst ?run) \<and> snd ?run = snd first_scan" by code_simp
  then obtain r where r: "?run = (Inr r, snd first_scan)" by (metis is_ok_iff prod.collapse)
  obtain s' w' where d: "first_drain = (Inr 2, s', w')" using first_ran by (metis prod.collapse)
  have start: "catalogue_sound (fst first_net)" "in_step ''nas'' ''/d'' empty_staging (live_rows ''fp'' (fst first_net) ''/d'')"
    by (simp_all add: first_net_def empty_sound live_empty in_step_empty)
  have one: "(0::nat) < 1" by simp
  note fits = first_tree_fits [THEN conjunct1] first_tree_fits [THEN conjunct2]
  have x: "catalogue_sound (fst w') \<and> in_step ''nas'' ''/d'' s' (live_rows ''fp'' (fst w') ''/d'') \<and>
      live_rows ''fp'' (fst w') = (live_rows ''fp'' empty_catalogue)(''/d'' := found_facts first_tree)"
    using ingest_core.full_walk_live [OF start one none_restored_empty sample_trees(1,2,3) fits r d [unfolded first_drain_def]]
    unfolding first_net_def fst_conv live_empty empty_map_add .
  then have "live_rows ''fp'' (fst w') ''/d'' = found_facts first_tree" by simp
  with x show ?thesis unfolding d by simp
qed


end
