(* ===== verification/Scan_Facts.thy ===== *)
theory Scan_Facts
  imports Scan
begin

text \<open>
  What a run of the agent reports, and what it reads: one outcome for every configured root, and no content
  outside the full-bit scope.
\<close>

section \<open>One outcome for every root\<close>

lemma scan_one_scope_root:
  "scan_one_scope bk config operator root_path n factory force_full_walk ck s = (Inr (outcome, vol), s') \<Longrightarrow> so_root outcome = root_path"
  by (auto simp: scan_one_scope_def Let_def fresh_outcome_def split: sum.splits option.splits prod.splits)

lemma run_fullbit_root:
  "run_fullbit bk resyncing config operator root_path vol ck outcome s = (outcome', s') \<Longrightarrow> so_root outcome' = so_root outcome"
  by (auto simp: run_fullbit_def split: sum.splits prod.splits)

lemma scan_root_root:
  assumes "scan_root registry resyncing config operator n factory force_full_walk clock r s = (Inr outcome, s')"
  shows "so_root outcome = fst r"
proof -
  obtain root_path gated where r: "r = (root_path, gated)" by fastforce
  from assms show ?thesis
    unfolding r scan_root_def
    by (auto simp: failed_outcome_def fresh_outcome_def dest!: scan_one_scope_root run_fullbit_root
        split: sum.splits option.splits prod.splits bool.splits if_splits)
qed

lemma scan_roots_map:
  assumes "\<And>r s o' s'. f r s = (Inr o', s') \<Longrightarrow> so_root o' = fst r"
  shows "scan_roots f rs s = (Inr scopes, s') \<Longrightarrow> map so_root scopes = map fst rs"
proof (induction rs arbitrary: s scopes)
  case (Cons r rs)
  obtain o' s1 where 1: "f r s = (Inr o', s1)" using Cons.prems by (auto split: prod.splits sum.splits)
  with Cons.prems obtain rest where "scan_roots f rs s1 = (Inr rest, s')" "scopes = o' # rest"
    by (auto split: prod.splits sum.splits)
  with Cons.IH assms [OF 1] show ?case by simp
qed simp

text \<open>A run that returns reports every configured root, local and remote, once and in order, whatever
  failed on any of them; a root outside the scan scope, without a backend, or whose scan raised, is among
  them with its error.\<close>

theorem run_reports_every_root:
  assumes "run_agent registry resyncing config operator n factory force_full_walk clock window drain finalize s w = (Inr summary, s', w')"
  shows "map so_root (rs_scopes summary) = ac_scan_scope config @ map mount_key (ac_remote_targets config) \<and>
    rs_host_id summary = ac_host_id config"
proof -
  from assms obtain scopes s1 where
    "scan_roots (scan_root registry resyncing config operator n factory force_full_walk clock)
       (map (\<lambda>r. (r, True)) (ac_scan_scope config) @ map (\<lambda>t. (mount_key t, False)) (ac_remote_targets config)) s = (Inr scopes, s1)"
    and "rs_scopes summary = scopes" "rs_host_id summary = ac_host_id config"
    by (auto simp: run_agent_def split: prod.splits sum.splits)
  with scan_roots_map [OF scan_root_root, OF _ this(1)] show ?thesis by (simp add: comp_def)
qed

section \<open>What is never read\<close>

definition rehash ::
  "(string \<Rightarrow> int \<Rightarrow> (hash_failure, string) result) \<Rightarrow> (string \<Rightarrow> (hash_failure, string) result) \<Rightarrow> backend \<Rightarrow> backend" where
  "rehash P F bk = bk\<lparr> bk_partial := P, bk_full := F \<rparr>"

lemma rehash_simps [simp]: "bk_volume_info (rehash P F bk) = bk_volume_info bk" "bk_walk (rehash P F bk) = bk_walk bk"
  by (simp_all add: rehash_def)

lemma scan_one_scope_rehash:
  "scan_one_scope (rehash P F bk) config operator root_path n default_feed_for force_full_walk ck s =
   scan_one_scope bk config operator root_path n default_feed_for force_full_walk ck s"
proof -
  have "chosen_feed default_feed_for force_full_walk (rehash P F bk) vol root_path s config =
      chosen_feed default_feed_for force_full_walk bk vol root_path s config" for vol
    by (simp add: chosen_feed_def default_feed_for_def restat_changes_def [abs_def] cong: if_cong)
  note feed = this
  have scans: "metadata_scan (rehash P F bk) = metadata_scan bk" "incremental_scan (rehash P F bk) = incremental_scan bk"
    by (simp_all only: metadata_scan_def [abs_def] incremental_scan_def [abs_def] rehash_simps)
  show ?thesis unfolding scan_one_scope_def scans feed rehash_simps by (rule refl)
qed

lemma resolve_rehash:
  "resolve_backend (map (map_prod id (rehash P F)) registry) root_path = map_option (rehash P F) (resolve_backend registry root_path)"
  by (induction registry) (auto simp: resolve_backend_def)

lemma scan_root_rehash:
  assumes "snd r \<longrightarrow> in_fullbit_scope config (fst r) \<noteq> Inr True"
  shows "scan_root (map (map_prod id (rehash P F)) registry) resyncing config operator n default_feed_for force_full_walk clock r s =
    scan_root registry resyncing config operator n default_feed_for force_full_walk clock r s"
proof -
  obtain root_path gated where r: "r = (root_path, gated)" by fastforce
  show ?thesis
    using assms unfolding r scan_root_def
    by (auto simp: resolve_rehash scan_one_scope_rehash split: sum.split option.split prod.split bool.split if_splits)
qed

lemma scan_roots_cong: "(\<And>r s. r \<in> set rs \<Longrightarrow> f r s = g r s) \<Longrightarrow> scan_roots f rs s = scan_roots g rs s"
  by (induction rs arbitrary: s) (auto split: prod.split sum.split)

text \<open>C30. No content is read outside the full-bit scope: where no root is in it, the run ends in the same
  queue, the same core and the same summary whatever the files contain, that is, whatever the backends would
  answer when asked for a digest.\<close>

theorem no_content_outside_allow_list:
  assumes "\<forall>r \<in> set (ac_scan_scope config). in_fullbit_scope config r \<noteq> Inr True"
  shows "run_agent (map (map_prod id (rehash P F)) registry) resyncing config operator n default_feed_for force_full_walk clock window
      drain finalize s w =
    run_agent registry resyncing config operator n default_feed_for force_full_walk clock window drain finalize s w"
proof -
  have "scan_roots (scan_root (map (map_prod id (rehash P F)) registry) resyncing config operator n default_feed_for force_full_walk clock)
       (map (\<lambda>r. (r, True)) (ac_scan_scope config) @ map (\<lambda>t. (mount_key t, False)) (ac_remote_targets config)) s =
     scan_roots (scan_root registry resyncing config operator n default_feed_for force_full_walk clock)
       (map (\<lambda>r. (r, True)) (ac_scan_scope config) @ map (\<lambda>t. (mount_key t, False)) (ac_remote_targets config)) s" for s
    by (rule scan_roots_cong, rule scan_root_rehash) (use assms in auto)
  then show ?thesis by (simp add: run_agent_def)
qed

text \<open>A scan that is asked for one root now only narrows the configuration: that root is all it scans, and
  it reads content only if that is what was asked for, and only where the configuration allows it.\<close>

theorem scan_now_narrows:
  assumes "validate_agent_config config = Inr config" "one_root_config config root_path mode = Inr c"
  shows "ac_scan_scope c = [root_path] \<and> ac_remote_targets c = [] \<and>
    (\<forall>t. in_fullbit_scope c t = Inr True \<longrightarrow> mode = ''fullbit'' \<and> in_fullbit_scope config t = Inr True)"
proof -
  obtain now where now: "(if mode = ''fullbit'' then in_fullbit_scope config root_path else Inr False) = Inr now"
    and c: "c = config\<lparr> ac_scan_scope := [root_path], ac_fullbit_scope := (if now then [root_path] else []), ac_remote_targets := [] \<rparr>"
    using assms(2) by (auto simp: one_root_config_def rbind_def split: sum.splits)
  have "mode = ''fullbit'' \<and> in_fullbit_scope config t = Inr True" if t: "in_fullbit_scope c t = Inr True" for t
  proof -
    from t c have n: "now" by (auto simp: in_fullbit_scope_def split: if_splits)
    with now have m: "mode = ''fullbit''" "in_fullbit_scope config root_path = Inr True" by (auto split: if_splits)
    note exact = scope_loop_exact [OF settled_scopes(2) [OF assms(1)]]
    from m(2) exact obtain q r where q: "validate_config_path root_path = Inr q" "r \<in> set (ac_fullbit_scope config)"
      "path_at_or_under (path_of r) q"
      by (auto simp: in_fullbit_scope_def split: if_splits sum.splits)
    from t c n q(1) obtain p where p: "validate_config_path t = Inr p" "path_at_or_under q p"
      by (auto simp: in_fullbit_scope_def path_at_or_under_def split: if_splits sum.splits)
    from path_at_or_under_trans [OF q(3) p(2)] q(2) have "in_fullbit_scope config t = Inr True"
      by (auto simp: in_fullbit_scope_def p(1) exact)
    with m show ?thesis by simp
  qed
  with c show ?thesis by simp
qed


section \<open>A run\<close>

definition sample_scan_clock :: scan_clock where
  "sample_scan_clock = \<lparr> ck_ack = 1, ck_start = 2, ck_finish = 3, ck_hash_ack = 4, ck_hash_start = 5, ck_hash_finish = 6 \<rparr>"

text \<open>Every scan of it fails: the backend has no volume. A second core is shown to read nothing.\<close>

abbreviation sample_run where
  "sample_run registry \<equiv> run_agent registry False sample_config ''op'' 10 default_feed_for False (\<lambda>_. sample_scan_clock) (7, 8)
     (\<lambda>s w. (Inr 0, s, w)) (\<lambda>w. (Inl ''finalize failed'', w)) empty_staging ()"

lemma sample_run_ok: "is_ok (fst (sample_run [(\<lambda>_. True, sample_backend)]))"
  by code_simp

lemma sample_roots:
  "ac_scan_scope sample_config = [''/srv/data'']" "ac_remote_targets sample_config = [sample_remote ''nas2'' ''/pool'']"
  by (simp_all add: sample_config_def)

theorem run_reports_every_root_witness:
  "\<exists>summary. fst (sample_run [(\<lambda>_. True, sample_backend)]) = Inr summary \<and>
     map so_root (rs_scopes summary) = [''/srv/data'', mount_key (sample_remote ''nas2'' ''/pool'')]"
proof -
  obtain summary where s: "sample_run [(\<lambda>_. True, sample_backend)] =
      (Inr summary, fst (snd (sample_run [(\<lambda>_. True, sample_backend)])), snd (snd (sample_run [(\<lambda>_. True, sample_backend)])))"
    using sample_run_ok by (metis is_ok_iff prod.collapse)
  then have "fst (sample_run [(\<lambda>_. True, sample_backend)]) = Inr summary" by (metis fst_conv)
  moreover from run_reports_every_root [OF s] have "map so_root (rs_scopes summary) = [''/srv/data'', mount_key (sample_remote ''nas2'' ''/pool'')]"
    unfolding sample_roots list.map append.simps by (rule conjunct1)
  ultimately show ?thesis by (intro exI [of _ summary] conjI)
qed

theorem no_content_outside_allow_list_witness:
  "sample_run (map (map_prod id (rehash (\<lambda>_ _. Inr ''x'') (\<lambda>_. Inr ''y''))) [(\<lambda>_. True, sample_backend)]) =
   sample_run [(\<lambda>_. True, sample_backend)]"
proof -
  have "\<forall>r \<in> set (ac_scan_scope sample_config). in_fullbit_scope sample_config r \<noteq> Inr True" by code_simp
  then show ?thesis by (rule no_content_outside_allow_list)
qed

theorem scan_now_narrows_witness:
  "\<exists>c. one_root_config sample_config ''/srv/data/media/2024'' ''fullbit'' = Inr c \<and> ac_scan_scope c = [''/srv/data/media/2024''] \<and>
     in_fullbit_scope c ''/srv/data'' \<noteq> Inr True"
proof -
  note v = sample_config_valid
  have o: "is_ok (one_root_config sample_config ''/srv/data/media/2024'' ''fullbit'') \<and>
      in_fullbit_scope sample_config ''/srv/data'' = Inr False" by code_simp
  then obtain c where c: "one_root_config sample_config ''/srv/data/media/2024'' ''fullbit'' = Inr c" by (auto simp: is_ok_iff)
  from scan_now_narrows [OF v c] o have "in_fullbit_scope c ''/srv/data'' \<noteq> Inr True" by auto
  with scan_now_narrows [OF v c] c show ?thesis by blast
qed

end
