(* ===== verification/Grants.thy ===== *)
theory Grants
  imports Signing
begin

text \<open>
  The two signed requests an agent serves besides jobs: the grant to pull one file for a preview
  (\<open>preview/grant.py\<close>) and the request to list one directory (\<open>core/browse.py\<close>). Both are signed, bounded in
  time, bound to a host and used once, like the jobs of \<^theory_text>\<open>Signing\<close>, whose conventions for the
  \<open>cryptography\<close> package hold here too.
\<close>

section \<open>The requests\<close>

record file_grant =
  fg_grant_id :: string
  fg_entry_id :: int
  fg_host_id :: string
  fg_volume_id :: int
  fg_inode :: int
  fg_path :: string
  fg_content_hash :: "string option"
  fg_nonce :: string
  fg_issued_at :: datetime
  fg_expires_at :: datetime

definition file_grant_valid :: "file_grant \<Rightarrow> bool" where
  "file_grant_valid g \<longleftrightarrow> fg_grant_id g \<noteq> [] \<and> length (fg_grant_id g) \<le> 64 \<and> 1 \<le> fg_entry_id g \<and>
     fg_host_id g \<noteq> [] \<and> length (fg_host_id g) \<le> 255 \<and> 1 \<le> fg_volume_id g \<and>
     fg_path g \<noteq> [] \<and> length (fg_path g) \<le> 4096 \<and>
     (case fg_content_hash g of None \<Rightarrow> True | Some c \<Rightarrow> length c \<le> 64) \<and>
     16 \<le> length (fg_nonce g) \<and> length (fg_nonce g) \<le> 128 \<and>
     datetime_ok (fg_issued_at g) \<and> datetime_ok (fg_expires_at g)"

definition grant_bytes :: "file_grant \<Rightarrow> string" where
  "grant_bytes g = utf8 (json_dumps (JObj
     [(''grant_id'', JStr (fg_grant_id g)), (''entry_id'', JInt (fg_entry_id g)),
      (''host_id'', JStr (fg_host_id g)), (''volume_id'', JInt (fg_volume_id g)),
      (''inode'', JInt (fg_inode g)), (''path'', JStr (fg_path g)),
      (''content_hash'', json_opt (fg_content_hash g)), (''nonce'', JStr (fg_nonce g)),
      (''issued_at'', JStr (isoformat (fg_issued_at g))), (''expires_at'', JStr (isoformat (fg_expires_at g)))]))"

record signed_grant =
  gs_grant :: file_grant
  gs_key_id :: string
  gs_algorithm :: string
  gs_signature :: string

definition DEFAULT_MAX_ENTRIES :: int where "DEFAULT_MAX_ENTRIES = 2000"
definition DEFAULT_SIZE_MAX_ENTRIES :: int where "DEFAULT_SIZE_MAX_ENTRIES = 200000"
definition DEFAULT_SIZE_BUDGET_MS :: int where "DEFAULT_SIZE_BUDGET_MS = 1500"

record browse_request =
  br_request_id :: string
  br_host_id :: string
  br_path :: string
  br_max_entries :: int
  br_with_sizes :: bool
  br_size_max_entries :: int
  br_size_budget_ms :: int
  br_nonce :: string
  br_issued_at :: datetime
  br_expires_at :: datetime

definition browse_request_valid :: "browse_request \<Rightarrow> bool" where
  "browse_request_valid b \<longleftrightarrow> br_request_id b \<noteq> [] \<and> length (br_request_id b) \<le> 64 \<and>
     br_host_id b \<noteq> [] \<and> length (br_host_id b) \<le> 255 \<and> br_path b \<noteq> [] \<and> length (br_path b) \<le> 4096 \<and>
     1 \<le> br_max_entries b \<and> br_max_entries b \<le> 50000 \<and>
     0 \<le> br_size_max_entries b \<and> br_size_max_entries b \<le> 5000000 \<and>
     0 \<le> br_size_budget_ms b \<and> br_size_budget_ms b \<le> 30000 \<and>
     16 \<le> length (br_nonce b) \<and> length (br_nonce b) \<le> 128 \<and>
     datetime_ok (br_issued_at b) \<and> datetime_ok (br_expires_at b)"

definition browse_bytes :: "browse_request \<Rightarrow> string" where
  "browse_bytes b = utf8 (json_dumps (JObj
     [(''request_id'', JStr (br_request_id b)), (''host_id'', JStr (br_host_id b)),
      (''path'', JStr (br_path b)), (''max_entries'', JInt (br_max_entries b)),
      (''with_sizes'', JBool (br_with_sizes b)), (''size_max_entries'', JInt (br_size_max_entries b)),
      (''size_budget_ms'', JInt (br_size_budget_ms b)), (''nonce'', JStr (br_nonce b)),
      (''issued_at'', JStr (isoformat (br_issued_at b))), (''expires_at'', JStr (isoformat (br_expires_at b)))]))"

record signed_browse =
  bs_request :: browse_request
  bs_key_id :: string
  bs_algorithm :: string
  bs_signature :: string

section \<open>Signing and checking a signature\<close>

definition grant_sign :: "(string \<Rightarrow> string) \<Rightarrow> string \<Rightarrow> file_grant \<Rightarrow> signed_grant" where
  "grant_sign sk key_id g =
     \<lparr> gs_grant = g, gs_key_id = key_id, gs_algorithm = ''ed25519'', gs_signature = b64encode (sk (grant_bytes g)) \<rparr>"

definition grant_verify_signature :: "(string \<Rightarrow> string \<Rightarrow> bool) \<Rightarrow> string \<Rightarrow> signed_grant \<Rightarrow> bool" where
  "grant_verify_signature pk key_id signed =
     (if gs_algorithm signed \<noteq> ''ed25519'' \<or> gs_key_id signed \<noteq> key_id then False
      else case b64decode (gs_signature signed) of
             None \<Rightarrow> False
           | Some raw \<Rightarrow> pk raw (grant_bytes (gs_grant signed)))"

definition browse_sign :: "(string \<Rightarrow> string) \<Rightarrow> string \<Rightarrow> browse_request \<Rightarrow> signed_browse" where
  "browse_sign sk key_id b =
     \<lparr> bs_request = b, bs_key_id = key_id, bs_algorithm = ''ed25519'', bs_signature = b64encode (sk (browse_bytes b)) \<rparr>"

definition browse_verify_signature :: "(string \<Rightarrow> string \<Rightarrow> bool) \<Rightarrow> string \<Rightarrow> signed_browse \<Rightarrow> bool" where
  "browse_verify_signature pk key_id signed =
     (if bs_algorithm signed \<noteq> ''ed25519'' \<or> bs_key_id signed \<noteq> key_id then False
      else case b64decode (bs_signature signed) of
             None \<Rightarrow> False
           | Some raw \<Rightarrow> pk raw (browse_bytes (bs_request signed)))"

section \<open>Verification\<close>

text \<open>The refusals are one exception with four messages; a replay is a subclass of it, and the ledger may
  raise an error of its own.\<close>

datatype refusal = Signature_Failed | Request_Expired | Request_Early | Other_Host

datatype envelope_error = Unverified refusal | Replayed | Ledger_Broke ledger_error

definition verify_grant ::
    "(signed_grant \<Rightarrow> bool) \<Rightarrow> ('s \<Rightarrow> string \<Rightarrow> string \<Rightarrow> ledger_result \<times> 's) \<Rightarrow> signed_grant \<Rightarrow> string \<Rightarrow> int \<Rightarrow> 's
      \<Rightarrow> (envelope_error, file_grant) result \<times> 's" where
  "verify_grant verify_signature consume signed expected_host_id now store =
     (if \<not> verify_signature signed then (Inl (Unverified Signature_Failed), store)
      else
        let grant = gs_grant signed
        in if as_utc (fg_expires_at grant) \<le> now then (Inl (Unverified Request_Expired), store)
           else if as_utc (fg_issued_at grant) > now then (Inl (Unverified Request_Early), store)
           else if fg_host_id grant \<noteq> expected_host_id then (Inl (Unverified Other_Host), store)
           else case consume store (fg_nonce grant) (fg_grant_id grant) of
                  (Inl e, store) \<Rightarrow> (Inl (Ledger_Broke e), store)
                | (Inr False, store) \<Rightarrow> (Inl Replayed, store)
                | (Inr True, store) \<Rightarrow> (Inr grant, store))"

definition verify_browse_request ::
    "(signed_browse \<Rightarrow> bool) \<Rightarrow> ('s \<Rightarrow> string \<Rightarrow> string \<Rightarrow> ledger_result \<times> 's) \<Rightarrow> signed_browse \<Rightarrow> string \<Rightarrow> int \<Rightarrow> 's
      \<Rightarrow> (envelope_error, browse_request) result \<times> 's" where
  "verify_browse_request verify_signature consume signed expected_host_id now store =
     (if \<not> verify_signature signed then (Inl (Unverified Signature_Failed), store)
      else
        let request = bs_request signed
        in if as_utc (br_expires_at request) \<le> now then (Inl (Unverified Request_Expired), store)
           else if as_utc (br_issued_at request) > now then (Inl (Unverified Request_Early), store)
           else if br_host_id request \<noteq> expected_host_id then (Inl (Unverified Other_Host), store)
           else case consume store (br_nonce request) (br_request_id request) of
                  (Inl e, store) \<Rightarrow> (Inl (Ledger_Broke e), store)
                | (Inr False, store) \<Rightarrow> (Inl Replayed, store)
                | (Inr True, store) \<Rightarrow> (Inr request, store))"

definition grant_admissible :: "(signed_grant \<Rightarrow> bool) \<Rightarrow> string \<Rightarrow> int \<Rightarrow> signed_grant \<Rightarrow> bool" where
  "grant_admissible verify_signature host now signed \<longleftrightarrow> verify_signature signed \<and>
     as_utc (fg_issued_at (gs_grant signed)) \<le> now \<and> now < as_utc (fg_expires_at (gs_grant signed)) \<and>
     fg_host_id (gs_grant signed) = host"

definition browse_admissible :: "(signed_browse \<Rightarrow> bool) \<Rightarrow> string \<Rightarrow> int \<Rightarrow> signed_browse \<Rightarrow> bool" where
  "browse_admissible verify_signature host now signed \<longleftrightarrow> verify_signature signed \<and>
     as_utc (br_issued_at (bs_request signed)) \<le> now \<and> now < as_utc (br_expires_at (bs_request signed)) \<and>
     br_host_id (bs_request signed) = host"

lemma verify_grant_Inr:
  "verify_grant v consume signed host now s = (Inr g, s') \<longleftrightarrow>
     g = gs_grant signed \<and> grant_admissible v host now signed \<and> consume s (fg_nonce g) (fg_grant_id g) = (Inr True, s')"
  by (auto simp: verify_grant_def grant_admissible_def Let_def split: prod.splits sum.splits bool.splits)

lemma verify_browse_Inr:
  "verify_browse_request v consume signed host now s = (Inr b, s') \<longleftrightarrow>
     b = bs_request signed \<and> browse_admissible v host now signed \<and> consume s (br_nonce b) (br_request_id b) = (Inr True, s')"
  by (auto simp: verify_browse_request_def browse_admissible_def Let_def split: prod.splits sum.splits bool.splits)

lemma verify_grant_Inl:
  assumes "verify_grant v consume signed host now s = (Inl e, s')"
  shows "s' = s \<or> (\<exists>c. consume s (fg_nonce (gs_grant signed)) (fg_grant_id (gs_grant signed)) = (c, s') \<and> c \<noteq> Inr True)"
  using assms by (auto simp: verify_grant_def Let_def split: if_splits prod.splits sum.splits bool.splits)

lemma verify_browse_Inl:
  assumes "verify_browse_request v consume signed host now s = (Inl e, s')"
  shows "s' = s \<or> (\<exists>c. consume s (br_nonce (bs_request signed)) (br_request_id (bs_request signed)) = (c, s') \<and> c \<noteq> Inr True)"
  using assms by (auto simp: verify_browse_request_def Let_def split: if_splits prod.splits sum.splits bool.splits)

section \<open>What is signed\<close>

lemma grant_bytes_inj:
  assumes "grant_bytes g = grant_bytes g'" "file_grant_valid g" "file_grant_valid g'"
  shows "g = g'"
proof -
  note fields = json_dumps_obj_fields [OF assms(1) [unfolded grant_bytes_def utf8_json_dumps]]
  have "fg_grant_id g = fg_grant_id g'" "fg_entry_id g = fg_entry_id g'" "fg_host_id g = fg_host_id g'"
    "fg_volume_id g = fg_volume_id g'" "fg_inode g = fg_inode g'" "fg_path g = fg_path g'"
    "fg_content_hash g = fg_content_hash g'" "fg_nonce g = fg_nonce g'"
    "isoformat (fg_issued_at g) = isoformat (fg_issued_at g')" "isoformat (fg_expires_at g) = isoformat (fg_expires_at g')"
    using fields by simp_all
  then show ?thesis using assms(2,3) isoformat_inj by (simp add: file_grant_valid_def)
qed

lemma browse_bytes_inj:
  assumes "browse_bytes b = browse_bytes b'" "browse_request_valid b" "browse_request_valid b'"
  shows "b = b'"
proof -
  note fields = json_dumps_obj_fields [OF assms(1) [unfolded browse_bytes_def utf8_json_dumps]]
  have "br_request_id b = br_request_id b'" "br_host_id b = br_host_id b'" "br_path b = br_path b'"
    "br_max_entries b = br_max_entries b'" "br_with_sizes b = br_with_sizes b'"
    "br_size_max_entries b = br_size_max_entries b'" "br_size_budget_ms b = br_size_budget_ms b'" "br_nonce b = br_nonce b'"
    "isoformat (br_issued_at b) = isoformat (br_issued_at b')" "isoformat (br_expires_at b) = isoformat (br_expires_at b')"
    using fields by simp_all
  then show ?thesis using assms(2,3) isoformat_inj by (simp add: browse_request_valid_def)
qed

text \<open>Each kind of message has a key that no other has.\<close>

lemma object_key:
  assumes "utf8 (json_dumps (JObj kvs)) = utf8 (json_dumps (JObj kws))" "k \<in> fst ` set kvs" "k \<notin> fst ` set kws"
  shows False
  using json_dumps_obj_keys [OF assms(1) [unfolded utf8_json_dumps]] assms(2,3) by blast

lemma kinds_differ:
  "grant_bytes g \<noteq> browse_bytes b" "grant_bytes g \<noteq> canonical_bytes j" "browse_bytes b \<noteq> canonical_bytes j"
proof -
  show "grant_bytes g \<noteq> browse_bytes b"
    unfolding grant_bytes_def browse_bytes_def by (rule notI, erule object_key [of _ _ "''grant_id''"]) simp_all
  show "grant_bytes g \<noteq> canonical_bytes j"
    by (cases j; simp only: canonical_bytes.simps grant_bytes_def action_canonical_bytes_def scan_canonical_bytes_def)
      (rule notI, erule object_key [of _ _ "''grant_id''"], simp, simp)+
  show "browse_bytes b \<noteq> canonical_bytes j"
    by (cases j; simp only: canonical_bytes.simps browse_bytes_def action_canonical_bytes_def scan_canonical_bytes_def)
      (rule notI, erule object_key [of _ _ "''request_id''"], simp, simp)+
qed

text \<open>C5. What is signed says what it is. The signed bytes of a valid grant determine the grant, those of a
  valid browse request the request, and no message of one kind has the bytes of another: a signature on a
  request to list a directory is none on a grant to read a file, and neither is one on a job, even where one
  key signs all of them.\<close>

theorem envelopes_never_confused:
  "(file_grant_valid g \<and> file_grant_valid g' \<longrightarrow> (grant_bytes g = grant_bytes g' \<longleftrightarrow> g = g')) \<and>
   (browse_request_valid b \<and> browse_request_valid b' \<longrightarrow> (browse_bytes b = browse_bytes b' \<longleftrightarrow> b = b')) \<and>
   grant_bytes g \<noteq> browse_bytes b \<and> grant_bytes g \<noteq> canonical_bytes j \<and> browse_bytes b \<noteq> canonical_bytes j"
  using grant_bytes_inj browse_bytes_inj kinds_differ by blast


section \<open>Used once\<close>

text \<open>A history of requests, each at a time of its own, with restarts (\<open>None\<close>) in between; the accepted ones
  in order.\<close>

fun accept_all ::
  "('r \<Rightarrow> int \<Rightarrow> 's \<Rightarrow> ('e, 'a) result \<times> 's) \<Rightarrow> ('s \<Rightarrow> 's) \<Rightarrow> ('r \<times> int) option list \<Rightarrow> 's \<Rightarrow> 'a list \<times> 's" where
  "accept_all verify restart [] s = ([], s)"
| "accept_all verify restart (None # ds) s = accept_all verify restart ds (restart s)"
| "accept_all verify restart (Some (r, now) # ds) s =
     (case verify r now s of
        (Inr a, s1) \<Rightarrow> (case accept_all verify restart ds s1 of (rest, s2) \<Rightarrow> (a # rest, s2))
      | (Inl e, s1) \<Rightarrow> accept_all verify restart ds s1)"

lemma accept_all_came:
  assumes "\<And>r now s a s'. verify r now s = (Inr a, s') \<Longrightarrow> P r now a"
  shows "accept_all verify restart ds s = (xs, s') \<Longrightarrow> a \<in> set xs \<Longrightarrow> \<exists>r now. Some (r, now) \<in> set ds \<and> P r now a"
proof (induction ds arbitrary: s xs)
  case (Cons d ds)
  show ?case
  proof (cases d)
    case None
    with Cons.IH [of "restart s" xs] Cons.prems show ?thesis by auto
  next
    case (Some d')
    then obtain r now where d: "d = Some (r, now)" by (cases d') simp
    obtain v t where v: "verify r now s = (v, t)" by fastforce
    show ?thesis
    proof (cases v)
      case (Inl e)
      with Cons.IH [of t xs] Cons.prems d v show ?thesis by auto
    next
      case (Inr b)
      with Cons.prems(1) d v obtain rest where rest: "accept_all verify restart ds t = (rest, s')" "xs = b # rest"
        by (auto split: prod.splits)
      with Cons.IH [OF rest(1)] Cons.prems(2) assms [of r now s b t] d v Inr show ?thesis by auto
    qed
  qed
qed simp

context durable_nonce_ledger
begin

lemma accept_all_once:
  assumes "\<And>r now s a s'. verify r now s = (Inr a, s') \<Longrightarrow> nonce a \<notin> used s \<and> used s' = insert (nonce a) (used s)"
    and "\<And>r now s e s'. verify r now s = (Inl e, s') \<Longrightarrow> used s' = used s"
  shows "accept_all verify restart ds s = (xs, s') \<Longrightarrow>
    distinct (map nonce xs) \<and> nonce ` set xs \<inter> used s = {} \<and> used s' = used s \<union> nonce ` set xs"
proof (induction ds arbitrary: s xs)
  case (Cons d ds)
  show ?case
  proof (cases d)
    case None
    with Cons.IH [of "restart s" xs] Cons.prems show ?thesis by (simp add: used_restart)
  next
    case (Some d')
    then obtain r now where d: "d = Some (r, now)" by (cases d') simp
    obtain v s1 where v: "verify r now s = (v, s1)" by fastforce
    show ?thesis
    proof (cases v)
      case (Inl e)
      with Cons.IH [of s1 xs] Cons.prems d v assms(2) [of r now s e s1] show ?thesis by simp
    next
      case (Inr a)
      with Cons.prems d v obtain rest where rest: "accept_all verify restart ds s1 = (rest, s')" "xs = a # rest"
        by (auto split: prod.splits)
      with Cons.IH [OF rest(1)] assms(1) [of r now s a s1] Inr v show ?thesis by auto
    qed
  qed
qed simp

lemma verify_grant_once:
  "verify_grant v consume signed host now s = (Inr g, s') \<Longrightarrow> fg_nonce g \<notin> used s \<and> used s' = insert (fg_nonce g) (used s)"
  using consume_fresh [of s _ _ s'] unfolding verify_grant_Inr by blast

lemma verify_grant_refuses:
  assumes "verify_grant v consume signed host now s = (Inl e, s')"
  shows "used s' = used s"
  using verify_grant_Inl [OF assms] consume_used [of s _ _ _ s'] by (metis (full_types))

lemma verify_browse_once:
  "verify_browse_request v consume signed host now s = (Inr b, s') \<Longrightarrow> br_nonce b \<notin> used s \<and> used s' = insert (br_nonce b) (used s)"
  using consume_fresh [of s _ _ s'] unfolding verify_browse_Inr by blast

lemma verify_browse_refuses:
  assumes "verify_browse_request v consume signed host now s = (Inl e, s')"
  shows "used s' = used s"
  using verify_browse_Inl [OF assms] consume_used [of s _ _ _ s'] by (metis (full_types))

end

lemma grant_came: "verify_grant v consume r host now s = (Inr g, s') \<Longrightarrow> g = gs_grant r \<and> grant_admissible v host now r"
  by (simp add: verify_grant_Inr)

lemma browse_came: "verify_browse_request v consume r host now s = (Inr b, s') \<Longrightarrow> b = bs_request r \<and> browse_admissible v host now r"
  by (simp add: verify_browse_Inr)

text \<open>A request is served at most once. Whatever signed grants an agent is handed, however often, at
  whatever times, with its ledger locked at whatever moments and with any number of restarts in between,
  those it accepts have different nonces, none of which was used before, and each arrived within its window,
  for this host, under a signature that verifies. The same holds of the requests to list a directory.\<close>

theorem requests_served_once:
  assumes "accept_all (\<lambda>r t s. verify_grant v sqlite_consume r host t s) sqlite_open ds l = (gs, l')"
    and "accept_all (\<lambda>r t s. verify_browse_request u sqlite_consume r host t s) sqlite_open es m = (bs, m')"
  shows "distinct (map fg_nonce gs) \<and> fg_nonce ` set gs \<inter> sqlite_used l = {} \<and>
    (\<forall>g \<in> set gs. \<exists>r t. Some (r, t) \<in> set ds \<and> g = gs_grant r \<and> grant_admissible v host t r) \<and>
    distinct (map br_nonce bs) \<and> br_nonce ` set bs \<inter> sqlite_used m = {} \<and>
    (\<forall>b \<in> set bs. \<exists>r t. Some (r, t) \<in> set es \<and> b = bs_request r \<and> browse_admissible u host t r)"
proof -
  have "distinct (map fg_nonce gs) \<and> fg_nonce ` set gs \<inter> sqlite_used l = {} \<and> sqlite_used l' = sqlite_used l \<union> fg_nonce ` set gs"
    using sqlite.verify_grant_once sqlite.verify_grant_refuses assms(1) by (rule sqlite.accept_all_once)
  moreover have "distinct (map br_nonce bs) \<and> br_nonce ` set bs \<inter> sqlite_used m = {} \<and> sqlite_used m' = sqlite_used m \<union> br_nonce ` set bs"
    using sqlite.verify_browse_once sqlite.verify_browse_refuses assms(2) by (rule sqlite.accept_all_once)
  moreover have "\<exists>r t. Some (r, t) \<in> set ds \<and> g = gs_grant r \<and> grant_admissible v host t r" if "g \<in> set gs" for g
    using grant_came assms(1) that by (rule accept_all_came)
  moreover have "\<exists>r t. Some (r, t) \<in> set es \<and> b = bs_request r \<and> browse_admissible u host t r" if "b \<in> set bs" for b
    using browse_came assms(2) that by (rule accept_all_came)
  ultimately show ?thesis by simp
qed

section \<open>Examples\<close>

definition sample_grant :: file_grant where
  "sample_grant = \<lparr> fg_grant_id = ''g1'', fg_entry_id = 7, fg_host_id = ''h1'', fg_volume_id = 1, fg_inode = -3,
     fg_path = ''/d/a'', fg_content_hash = Some ''c0ffee'', fg_nonce = ''0123456789abcdef'',
     fg_issued_at = aj_issued_at sample_job, fg_expires_at = aj_expires_at sample_job \<rparr>"

definition sample_browse :: browse_request where
  "sample_browse = \<lparr> br_request_id = ''r1'', br_host_id = ''h1'', br_path = ''/d'', br_max_entries = DEFAULT_MAX_ENTRIES,
     br_with_sizes = True, br_size_max_entries = DEFAULT_SIZE_MAX_ENTRIES, br_size_budget_ms = DEFAULT_SIZE_BUDGET_MS,
     br_nonce = ''fedcba9876543210'', br_issued_at = aj_issued_at sample_job, br_expires_at = aj_expires_at sample_job \<rparr>"

lemma samples_valid: "file_grant_valid sample_grant" "browse_request_valid sample_browse"
  "file_grant_valid (sample_grant\<lparr> fg_path := ''/etc/shadow'' \<rparr>)"
  using sample_job_valid
  by (simp_all add: file_grant_valid_def browse_request_valid_def sample_grant_def sample_browse_def action_job_valid_def
      DEFAULT_MAX_ENTRIES_def DEFAULT_SIZE_MAX_ENTRIES_def DEFAULT_SIZE_BUDGET_MS_def)

theorem envelopes_never_confused_witness:
  "grant_bytes sample_grant \<noteq> grant_bytes (sample_grant\<lparr> fg_path := ''/etc/shadow'' \<rparr>) \<and>
   grant_bytes sample_grant \<noteq> browse_bytes sample_browse \<and> grant_bytes sample_grant \<noteq> canonical_bytes (Action_Job sample_job)"
  using envelopes_never_confused [of sample_grant "sample_grant\<lparr> fg_path := ''/etc/shadow'' \<rparr>" sample_browse sample_browse
      "Action_Job sample_job"] samples_valid
  by (simp add: sample_grant_def)

theorem requests_served_once_witness:
  "map fg_nonce (fst (accept_all (\<lambda>r t s. verify_grant (\<lambda>_. True) sqlite_consume r ''h1'' t s) sqlite_open
     [Some (grant_sign (\<lambda>m. m) ''k'' sample_grant, seconds 1100), None,
      Some (grant_sign (\<lambda>m. m) ''k'' sample_grant, seconds 1200)] sample_ledger)) = [''0123456789abcdef'']"
proof -
  let ?a = "accept_all (\<lambda>r t s. verify_grant (\<lambda>_. True) sqlite_consume r ''h1'' t s) sqlite_open
     [Some (grant_sign (\<lambda>m. m) ''k'' sample_grant, seconds 1100), None,
      Some (grant_sign (\<lambda>m. m) ''k'' sample_grant, seconds 1200)] sample_ledger"
  have "accept_all (\<lambda>r t s. verify_browse_request (\<lambda>_. True) sqlite_consume r ''h1'' t s) sqlite_open [] sample_ledger = ([], sample_ledger)"
    by simp
  from requests_served_once [OF prod.collapse [symmetric, of ?a] this] have "distinct (map fg_nonce (fst ?a))" by blast
  moreover have "set (map fg_nonce (fst ?a)) = {''0123456789abcdef''}"
    by (simp add: verify_grant_def grant_sign_def sample_grant_def sample_job_def sample_ledger_def seconds_def
        sqlite_consume_def sqlite_open_def)
  ultimately show ?thesis
    by (simp add: verify_grant_def grant_sign_def sample_grant_def sample_job_def sample_ledger_def seconds_def
        sqlite_consume_def sqlite_open_def)
qed

end
