(* ===== verification/Preview_Fetch.thy ===== *)
theory Preview_Fetch
  imports Listener Grants Tree_Walk
begin

text \<open>
  Reading the one file of a preview: the local fetcher (\<open>preview/local_fetch.py\<close>) over the calls of
  \<^theory_text>\<open>Posix\<close>, and the agent's serve loop over it (\<open>agent/preview_serve.py\<close>). Other processes may change
  the tree between any two calls, between two blocks of the same file too.
\<close>

section \<open>The local fetcher\<close>

record resolved_entry =
  re_entry_id :: int
  re_host_id :: int
  re_volume_id :: int
  re_path :: string
  re_inode :: int
  re_content_hash :: "string option"
  re_host_name :: string

text \<open>A \<open>PreviewError\<close> has a reason and a status; an \<open>OSError\<close> that nobody catches is kept apart.\<close>

datatype preview_failure = Preview_Error string int | Os_Error errno

text \<open>\<open>os.fstat\<close>, and one \<open>os.read\<close> of at most \<open>n\<close> bytes at the descriptor's offset.\<close>

definition os_fstat :: "inode \<Rightarrow> world \<Rightarrow> (errno, stat) result \<times> world" where
  "os_fstat fd = query (\<lambda>fs. case fs_nodes fs fd of None \<Rightarrow> Inl ENOENT | Some nd \<Rightarrow> Inr (stat_node fd nd))"

definition os_read_some :: "inode \<Rightarrow> nat \<Rightarrow> nat \<Rightarrow> world \<Rightarrow> (errno, string) result \<times> world" where
  "os_read_some fd offset n = query (\<lambda>fs. rbind (fs_read fs fd) (\<lambda>data. Inr (take n (drop offset data))))"

definition READ_BLOCK :: nat where
  "READ_BLOCK = 1048576"

function read_blocks :: "inode \<Rightarrow> nat \<Rightarrow> string \<Rightarrow> world \<Rightarrow> (errno, string) result \<times> world" where
  "read_blocks fd remaining data w =
     (if remaining = 0 then (Inr data, w)
      else case os_read_some fd (length data) (min READ_BLOCK remaining) w of
             (Inl e, w) \<Rightarrow> (Inl e, w)
           | (Inr block, w) \<Rightarrow>
               if block = [] then (Inr data, w) else read_blocks fd (remaining - length block) (data @ block) w)"
  by pat_completeness auto
termination
  by (relation "measure (\<lambda>(fd, remaining, data, w). remaining)") auto

declare read_blocks.simps [simp del]

definition local_read ::
    "(string \<Rightarrow> string) \<Rightarrow> resolved_entry \<Rightarrow> nat \<Rightarrow> world \<Rightarrow> (preview_failure, string) result \<times> world" where
  "local_read H entry max_bytes w =
     (if re_inode entry = 0 then (Inl (Preview_Error ''preview file has no inode anchor'' 409), w)
      else
        case os_open_file (fs_cwd (w_fs w)) False (re_path entry) w of
          (Inl e, w) \<Rightarrow> (Inl (Preview_Error ''preview file unavailable'' 404), w)
        | (Inr fd, w) \<Rightarrow>
            case os_fstat fd w of
              (Inl e, w) \<Rightarrow> (Inl (Os_Error e), w)
            | (Inr st, w) \<Rightarrow>
                if to_signed64 (Posix.stat.st_ino st) \<noteq> re_inode entry
                then (Inl (Preview_Error ''preview file changed since catalogue (inode mismatch)'' 409), w)
                else
                  case read_blocks fd (max_bytes + 1) [] w of
                    (Inl e, w) \<Rightarrow> (Inl (Os_Error e), w)
                  | (Inr data, w) \<Rightarrow>
                      if (case re_content_hash entry of
                            None \<Rightarrow> False
                          | Some h \<Rightarrow> h \<noteq> [] \<and> length data \<le> max_bytes \<and> H data \<noteq> h)
                      then (Inl (Preview_Error ''preview file content changed since catalogue (hash mismatch)'' 409), w)
                      else (Inr data, w))"

section \<open>What a read delivers\<close>

lemma os_read_some_length: "os_read_some fd off n w = (Inr b, w') \<Longrightarrow> length b \<le> n"
  by (auto simp: os_read_some_def query_def Let_def split: option.splits)

lemma read_blocks_bounded:
  "read_blocks fd remaining data w = (Inr out, w') \<Longrightarrow> length out \<le> length data + remaining"
proof (induction fd remaining data w rule: read_blocks.induct)
  case (1 fd remaining data w)
  note step = read_blocks.simps [of fd remaining data w]
  show ?case
  proof (cases "remaining = 0")
    case True
    with "1.prems" [unfolded step] show ?thesis by simp
  next
    case False
    obtain r v where r: "os_read_some fd (length data) (min READ_BLOCK remaining) w = (r, v)" by fastforce
    from "1.prems" False r obtain block where b: "r = Inr block" by (cases r) (auto simp: step)
    have "length block \<le> remaining" using os_read_some_length r b by fastforce
    with "1.prems" "1.IH" [OF False r [symmetric] b] False r b show ?thesis by (auto simp: step split: if_splits)
  qed
qed

lemma read_blocks_quiet:
  assumes "quiet w" "fs_nodes (w_fs w) fd = Some (File c)" "data = take (length data) c"
    and "read_blocks fd remaining data w = (Inr out, w')"
  shows "out = take (length data + remaining) c"
  using assms
proof (induction fd remaining data w rule: read_blocks.induct)
  case (1 fd remaining data w)
  show ?case
  proof (cases "remaining = 0")
    case True
    with "1.prems" show ?thesis by (simp add: read_blocks.simps)
  next
    case False
    obtain r v where r: "os_read_some fd (length data) (min READ_BLOCK remaining) w = (r, v)" by fastforce
    from "1.prems"(4) False r obtain block where b: "r = Inr block"
      by (cases r) (auto simp: read_blocks.simps [of fd remaining data w])
    have v: "quiet v" "w_fs v = w_fs w" "block = take (min READ_BLOCK remaining) (drop (length data) c)"
      using r b "1.prems"(1,2)
      by (auto simp: os_read_some_def query_def enter_def quiet_def fs_read_def Let_def split: option.splits)
    show ?thesis
    proof (cases "block = []")
      case True
      then have "length c \<le> length data" using v(3) False by (auto simp: READ_BLOCK_def min_def split: if_splits)
      moreover have "out = data" using "1.prems"(4) False r b True by (simp add: read_blocks.simps [of fd remaining data w])
      ultimately show ?thesis using "1.prems"(3) by (metis le_add1 le_trans take_all)
    next
      case block: False
      have whole: "data @ block = take (length (data @ block)) c"
      proof -
        have "data @ block = take (length data + min READ_BLOCK remaining) c"
          using v(3) "1.prems"(3) by (metis take_add)
        then show ?thesis by (metis length_take min.cobounded1 min_def take_all take_take nat_le_linear)
      qed
      have le: "length block \<le> remaining" using v(3) by simp
      have "read_blocks fd (remaining - length block) (data @ block) v = (Inr out, w')"
        using "1.prems"(4) False r b block by (simp add: read_blocks.simps [of fd remaining data w])
      from "1.IH" [OF False r [symmetric] b block v(1) _ whole this] v(2) "1.prems"(2) le
      show ?thesis by simp
    qed
  qed
qed

lemma local_read_safe:
  assumes "local_read H entry max_bytes w = (Inr data, w')"
  shows "re_inode entry \<noteq> 0 \<and> length data \<le> max_bytes + 1 \<and>
    (\<forall>h. re_content_hash entry = Some h \<longrightarrow> h \<noteq> [] \<longrightarrow> length data \<le> max_bytes \<longrightarrow> H data = h)"
  using assms read_blocks_bounded [of _ "max_bytes + 1" "[]" _ data w']
  by (auto simp: local_read_def split: if_splits prod.splits sum.splits option.splits)

lemma open_file_Inr: "fs_open_file fs d False p = Inr fd \<Longrightarrow> resolve_at fs d False p = Inr fd"
proof -
  assume a: "fs_open_file fs d False p = Inr fd"
  then obtain i where i: "resolve_at fs d False p = Inr i" by (auto simp: fs_open_file_def)
  with a obtain nd where nd: "fs_nodes fs i = Some nd" by (auto simp: fs_open_file_def split: option.splits)
  show "resolve_at fs d False p = Inr fd" using a i nd by (cases nd) (simp_all add: fs_open_file_def)
qed

lemma local_read_exact:
  assumes "local_read H entry max_bytes w = (Inr data, w')" "quiet w"
  shows "\<exists>fd c. resolve_at (w_fs w) (fs_cwd (w_fs w)) False (re_path entry) = Inr fd \<and>
    fs_nodes (w_fs w) fd = Some (File c) \<and> to_signed64 (ino_num fd) = re_inode entry \<and> data = take (max_bytes + 1) c"
proof -
  from assms(1) obtain fd st w1 w2 where o: "os_open_file (fs_cwd (w_fs w)) False (re_path entry) w = (Inr fd, w1)"
    and st: "os_fstat fd w1 = (Inr st, w2)" and ino: "to_signed64 (Posix.stat.st_ino st) = re_inode entry"
    and rd: "read_blocks fd (max_bytes + 1) [] w2 = (Inr data, w')"
    by (auto simp: local_read_def split: if_splits prod.splits sum.splits)
  have w1: "quiet w1" "w_fs w1 = w_fs w" and fd: "resolve_at (w_fs w) (fs_cwd (w_fs w)) False (re_path entry) = Inr fd"
    using o assms(2) open_file_Inr [of "w_fs w" "fs_cwd (w_fs w)" "re_path entry" fd]
    by (auto simp: os_open_file_def query_def enter_def quiet_def Let_def split: option.splits)
  have w2: "quiet w2" "w_fs w2 = w_fs w" and st': "\<exists>nd. fs_nodes (w_fs w) fd = Some nd \<and> st = stat_node fd nd"
    using st w1 by (auto simp: os_fstat_def query_def enter_def quiet_def Let_def split: option.splits)
  have num: "Posix.stat.st_ino (stat_node fd nd) = ino_num fd" for nd by (cases nd) (simp_all add: stat_node_def)
  have "\<exists>c. fs_nodes (w_fs w) fd = Some (File c)"
  proof -
    obtain r v where r: "os_read_some fd 0 (min READ_BLOCK (max_bytes + 1)) w2 = (r, v)" by fastforce
    with rd obtain b where "r = Inr b" by (cases r) (simp_all add: read_blocks.simps [of fd "Suc max_bytes"])
    with r w2 show ?thesis
      by (auto simp: os_read_some_def query_def enter_def quiet_def fs_read_def Let_def split: option.splits node.splits)
  qed
  then obtain c where c: "fs_nodes (w_fs w) fd = Some (File c)" by blast
  have "data = take (max_bytes + 1) c" using read_blocks_quiet [OF w2(1) _ _ rd, of c] c w2(2) by simp
  with fd c num st' ino show ?thesis by auto
qed

section \<open>The serve loop of the agent\<close>

definition entry_of_grant :: "file_grant \<Rightarrow> resolved_entry" where
  "entry_of_grant g = \<lparr> re_entry_id = fg_entry_id g, re_host_id = 0, re_volume_id = fg_volume_id g, re_path = fg_path g,
     re_inode = fg_inode g, re_content_hash = fg_content_hash g, re_host_name = [] \<rparr>"

datatype serve_error = Bad_Grant envelope_error | Bad_Read preview_failure

definition serve_grant ::
    "(string \<Rightarrow> string) \<Rightarrow> (signed_grant \<Rightarrow> bool) \<Rightarrow> string \<Rightarrow> signed_grant \<Rightarrow> nat \<Rightarrow> int \<Rightarrow> sqlite_ledger \<times> world
      \<Rightarrow> (serve_error, string) result \<times> sqlite_ledger \<times> world" where
  "serve_grant H verify_signature host_id signed max_bytes now s =
     (case s of (ledger, w) \<Rightarrow>
        case verify_grant verify_signature sqlite_consume signed host_id now ledger of
          (Inl e, ledger) \<Rightarrow> (Inl (Bad_Grant e), ledger, w)
        | (Inr g, ledger) \<Rightarrow>
            (case local_read H (entry_of_grant g) max_bytes w of
               (Inl e, w) \<Rightarrow> (Inl (Bad_Read e), ledger, w)
             | (Inr data, w) \<Rightarrow> (Inr data, ledger, w)))"

text \<open>What a poll brings, what is posted back, and the exceptions \<open>handle_one\<close> does not answer: the
  \<open>RuntimeError\<close> of the ledger and the \<open>OSError\<close> of a read.\<close>

datatype grant_poll = Poll_Broken | Poll_Idle | Poll_Grant signed_grant nat int

datatype serve_post = Serve_Data string string | Serve_Error string string

fun answered_error :: "serve_error \<Rightarrow> bool" where
  "answered_error (Bad_Grant (Ledger_Broke e)) = False"
| "answered_error (Bad_Read (Os_Error e)) = False"
| "answered_error _ = True"

definition handle_grant ::
    "(string \<Rightarrow> string) \<Rightarrow> (signed_grant \<Rightarrow> bool) \<Rightarrow> string \<Rightarrow> signed_grant \<Rightarrow> nat \<Rightarrow> int \<Rightarrow> sqlite_ledger \<times> world
      \<Rightarrow> serve_post option \<times> sqlite_ledger \<times> world" where
  "handle_grant H verify_signature host_id signed max_bytes now s =
     (case serve_grant H verify_signature host_id signed max_bytes now s of
        (Inr data, s) \<Rightarrow> (Some (Serve_Data (fg_grant_id (gs_grant signed)) (b64encode data)), s)
      | (Inl e, s) \<Rightarrow>
          (if answered_error e then Some (Serve_Error (fg_grant_id (gs_grant signed)) ''grant could not be served'') else None, s))"

text \<open>The loop: a broken poll or post backs off and goes on; an exception nobody answers ends it.\<close>

fun serve_loop ::
    "(string \<Rightarrow> string) \<Rightarrow> (signed_grant \<Rightarrow> bool) \<Rightarrow> string \<Rightarrow> grant_poll list \<Rightarrow> sqlite_ledger \<times> world
      \<Rightarrow> (signed_grant \<times> serve_post) list \<times> sqlite_ledger \<times> world" where
  "serve_loop H v host [] s = ([], s)"
| "serve_loop H v host (Poll_Broken # polls) s = serve_loop H v host polls s"
| "serve_loop H v host (Poll_Idle # polls) s = serve_loop H v host polls s"
| "serve_loop H v host (Poll_Grant signed max_bytes now # polls) s =
     (case handle_grant H v host signed max_bytes now s of
        (None, s) \<Rightarrow> ([], s)
      | (Some post, s) \<Rightarrow> (case serve_loop H v host polls s of (posts, s) \<Rightarrow> ((signed, post) # posts, s)))"

definition is_data :: "serve_post \<Rightarrow> bool" where
  "is_data p = (case p of Serve_Data _ _ \<Rightarrow> True | Serve_Error _ _ \<Rightarrow> False)"

lemma is_data_simps [simp]: "is_data (Serve_Data i d)" "\<not> is_data (Serve_Error i r)"
  by (simp_all add: is_data_def)

text \<open>The bytes a post carries are those a read of the granted file may deliver.\<close>

definition granted_bytes :: "(string \<Rightarrow> string) \<Rightarrow> file_grant \<Rightarrow> nat \<Rightarrow> string \<Rightarrow> bool" where
  "granted_bytes H g max_bytes data \<longleftrightarrow> fg_inode g \<noteq> 0 \<and> length data \<le> max_bytes + 1 \<and>
     (\<forall>h. fg_content_hash g = Some h \<longrightarrow> h \<noteq> [] \<longrightarrow> length data \<le> max_bytes \<longrightarrow> H data = h)"

lemma handle_grant_ledger:
  assumes "handle_grant H v host signed m now (l, w) = (post, l', w')"
  shows "(\<exists>i d. post = Some (Serve_Data i d)) \<longrightarrow>
      fg_nonce (gs_grant signed) \<notin> sqlite_used l \<and> grant_admissible v host now signed \<and>
      (\<exists>data. post = Some (Serve_Data (fg_grant_id (gs_grant signed)) (b64encode data)) \<and> granted_bytes H (gs_grant signed) m data)"
    and "sqlite_used l \<subseteq> sqlite_used l' \<and> sqlite_used l' \<subseteq> insert (fg_nonce (gs_grant signed)) (sqlite_used l)"
    and "(\<exists>i d. post = Some (Serve_Data i d)) \<longrightarrow> fg_nonce (gs_grant signed) \<in> sqlite_used l'"
proof -
  obtain r k where v: "verify_grant v sqlite_consume signed host now l = (r, k)" by fastforce
  have k: "sqlite_used k = (case r of Inl _ \<Rightarrow> sqlite_used l | Inr g \<Rightarrow> insert (fg_nonce g) (sqlite_used l))"
    using sqlite.verify_grant_refuses [of v signed host now l _ k] sqlite.verify_grant_once [of v signed host now l _ k] v
    by (cases r) auto
  have g: "r = Inr g \<Longrightarrow> g = gs_grant signed \<and> grant_admissible v host now signed \<and> fg_nonce g \<notin> sqlite_used l" for g
    using v sqlite.verify_grant_once [of v signed host now l g k] verify_grant_Inr [of v sqlite_consume signed host now l g k] by blast
  have l': "l' = k" using assms v by (auto simp: handle_grant_def serve_grant_def split: prod.splits sum.splits if_splits)
  show "sqlite_used l \<subseteq> sqlite_used l' \<and> sqlite_used l' \<subseteq> insert (fg_nonce (gs_grant signed)) (sqlite_used l)"
    using k g l' by (cases r) auto
  show "(\<exists>i d. post = Some (Serve_Data i d)) \<longrightarrow>
      fg_nonce (gs_grant signed) \<notin> sqlite_used l \<and> grant_admissible v host now signed \<and>
      (\<exists>data. post = Some (Serve_Data (fg_grant_id (gs_grant signed)) (b64encode data)) \<and> granted_bytes H (gs_grant signed) m data)"
    "(\<exists>i d. post = Some (Serve_Data i d)) \<longrightarrow> fg_nonce (gs_grant signed) \<in> sqlite_used l'"
  proof -
    have data: "\<exists>g data u. r = Inr g \<and> local_read H (entry_of_grant g) m w = (Inr data, u) \<and>
        post = Some (Serve_Data (fg_grant_id (gs_grant signed)) (b64encode data))"
      if "post = Some (Serve_Data i d)" for i d
      using assms v that by (auto simp: handle_grant_def serve_grant_def split: prod.splits sum.splits if_splits)
    show "(\<exists>i d. post = Some (Serve_Data i d)) \<longrightarrow>
      fg_nonce (gs_grant signed) \<notin> sqlite_used l \<and> grant_admissible v host now signed \<and>
      (\<exists>data. post = Some (Serve_Data (fg_grant_id (gs_grant signed)) (b64encode data)) \<and> granted_bytes H (gs_grant signed) m data)"
    proof
      assume "\<exists>i d. post = Some (Serve_Data i d)"
      with data obtain g d u where d: "r = Inr g" "local_read H (entry_of_grant g) m w = (Inr d, u)"
        "post = Some (Serve_Data (fg_grant_id (gs_grant signed)) (b64encode d))" by blast
      from local_read_safe [OF d(2)] g [OF d(1)] d(3)
      show "fg_nonce (gs_grant signed) \<notin> sqlite_used l \<and> grant_admissible v host now signed \<and>
        (\<exists>data. post = Some (Serve_Data (fg_grant_id (gs_grant signed)) (b64encode data)) \<and> granted_bytes H (gs_grant signed) m data)"
        by (auto simp: entry_of_grant_def granted_bytes_def)
    qed
    show "(\<exists>i d. post = Some (Serve_Data i d)) \<longrightarrow> fg_nonce (gs_grant signed) \<in> sqlite_used l'"
      using data k g l' by auto
  qed
qed


lemma serve_loop_granted:
  assumes "serve_loop H v host polls (l, w) = (posts, l', w')"
  shows "distinct (map (\<lambda>(signed, p). fg_nonce (gs_grant signed)) (filter (\<lambda>(signed, p). is_data p) posts)) \<and>
    (\<forall>(signed, p) \<in> set posts. is_data p \<longrightarrow> fg_nonce (gs_grant signed) \<notin> sqlite_used l \<and>
      (\<exists>m now data. Poll_Grant signed m now \<in> set polls \<and> grant_admissible v host now signed \<and>
        p = Serve_Data (fg_grant_id (gs_grant signed)) (b64encode data) \<and> granted_bytes H (gs_grant signed) m data))"
  using assms
proof (induction polls arbitrary: l w posts)
  case (Cons poll polls)
  show ?case
  proof (cases poll)
    case (Poll_Grant signed m now)
    obtain post l1 w1 where h: "handle_grant H v host signed m now (l, w) = (post, l1, w1)" by (cases "handle_grant H v host signed m now (l, w)") auto
    note L = handle_grant_ledger [OF h]
    show ?thesis
    proof (cases post)
      case None
      with Cons.prems Poll_Grant h show ?thesis by simp
    next
      case (Some p)
      with Cons.prems Poll_Grant h obtain rest where rest: "serve_loop H v host polls (l1, w1) = (rest, l', w')"
        and posts: "posts = (signed, p) # rest" by (auto split: prod.splits)
      note IH = Cons.IH [OF rest]
      show ?thesis
      proof (cases p)
        case (Serve_Data i d)
        with L Some obtain data where d: "fg_nonce (gs_grant signed) \<notin> sqlite_used l" "grant_admissible v host now signed"
          "p = Serve_Data (fg_grant_id (gs_grant signed)) (b64encode data)" "granted_bytes H (gs_grant signed) m data"
          "fg_nonce (gs_grant signed) \<in> sqlite_used l1" by blast
        with IH L(2) posts Poll_Grant show ?thesis by fastforce
      next
        case (Serve_Error i r)
        with IH L(2) posts Poll_Grant show ?thesis by fastforce
      qed
    qed
  qed (use Cons in auto)
qed auto

text \<open>C15. An agent discloses only what it was granted, once. Whatever its polls bring and however the tree and
  the ledger behave, each answer that carries bytes is for a grant that verified: in its window, for this
  host, its nonce not used before and used by no other answer; and the bytes, at most one more than the cap
  the core named, have the content hash the grant names whenever they fit that cap.\<close>

theorem serves_only_granted:
  assumes "serve_loop H v host polls (l, w) = (posts, l', w')"
  shows "distinct (map (\<lambda>(signed, p). fg_nonce (gs_grant signed)) (filter (\<lambda>(signed, p). is_data p) posts)) \<and>
    (\<forall>(signed, p) \<in> set posts. is_data p \<longrightarrow> fg_nonce (gs_grant signed) \<notin> sqlite_used l \<and>
      (\<exists>m now data. Poll_Grant signed m now \<in> set polls \<and> grant_admissible v host now signed \<and>
        p = Serve_Data (fg_grant_id (gs_grant signed)) (b64encode data) \<and> granted_bytes H (gs_grant signed) m data))"
  by (rule serve_loop_granted [OF assms])


section \<open>Starting the loops\<close>

datatype serve_startup_error = No_Pubkey_Ref | No_Nonce_Dir | Key_Unresolved | Key_Not_Pem | Key_Not_Ed25519

text \<open>The resolved material is a PEM text of an Ed25519 key, of another key, or neither.\<close>

datatype key_material = Ed25519_Pem | Other_Pem | Not_Pem

definition load_pinned_key :: "(string \<Rightarrow> key_material) \<Rightarrow> string \<Rightarrow> (serve_startup_error, unit) result" where
  "load_pinned_key load material =
     (case load material of Not_Pem \<Rightarrow> Inl Key_Not_Pem | Other_Pem \<Rightarrow> Inl Key_Not_Ed25519 | Ed25519_Pem \<Rightarrow> Inr ())"

fun py_or :: "string option list \<Rightarrow> string option" where
  "py_or [] = None"
| "py_or (x # xs) = (if x = None \<or> x = Some [] then (if xs = [] then x else py_or xs) else x)"

text \<open>What a server that starts is bound to: the key's material and id, the file of its ledger and its host.\<close>

definition serve_startup ::
    "string option \<Rightarrow> string \<Rightarrow> string option list \<Rightarrow> string \<Rightarrow> (string \<Rightarrow> string) \<Rightarrow> (string \<Rightarrow> key_material) \<Rightarrow> string
      \<Rightarrow> (serve_startup_error, string \<times> string \<times> string \<times> string) result" where
  "serve_startup ref key_id dirs ledger_name secret load host =
     (case ref of
        None \<Rightarrow> Inl No_Pubkey_Ref
      | Some r \<Rightarrow>
          if r = [] then Inl No_Pubkey_Ref
          else
            (case py_or dirs of
               None \<Rightarrow> Inl No_Nonce_Dir
             | Some nonce_dir \<Rightarrow>
                 if nonce_dir = [] then Inl No_Nonce_Dir
                 else if secret r = [] then Inl Key_Unresolved
                 else rbind (load_pinned_key load (secret r)) (\<lambda>_.
                   Inr (secret r, key_id, path_str (path_div (path_of nonce_dir) ledger_name), host))))"

definition preview_server_from_config ::
    "agent_config \<Rightarrow> (string \<Rightarrow> string) \<Rightarrow> (string \<Rightarrow> key_material)
      \<Rightarrow> (serve_startup_error, string \<times> string \<times> string \<times> string) result" where
  "preview_server_from_config c secret load =
     serve_startup (ac_preview_grant_pubkey_ref c) (ac_preview_grant_key_id c)
       [ac_preview_nonce_dir c, ac_quarantine_dir c] ''.preview-nonce-ledger.sqlite'' secret load (ac_host_id c)"

definition browse_server_from_config ::
    "agent_config \<Rightarrow> (string \<Rightarrow> string) \<Rightarrow> (string \<Rightarrow> key_material)
      \<Rightarrow> (serve_startup_error, string \<times> string \<times> string \<times> string) result" where
  "browse_server_from_config c secret load =
     serve_startup (ac_browse_grant_pubkey_ref c) (ac_browse_grant_key_id c)
       [ac_browse_nonce_dir c, ac_preview_nonce_dir c, ac_quarantine_dir c] ''.browse-nonce-ledger.sqlite'' secret load
       (ac_host_id c)"

lemma serve_startup_starts:
  "serve_startup ref key_id dirs name secret load host = Inr s \<longleftrightarrow>
     (\<exists>r d. ref = Some r \<and> r \<noteq> [] \<and> py_or dirs = Some d \<and> d \<noteq> [] \<and> secret r \<noteq> [] \<and> load (secret r) = Ed25519_Pem \<and>
        s = (secret r, key_id, path_str (path_div (path_of d) name), host))"
  by (auto simp: serve_startup_def load_pinned_key_def split: option.splits key_material.splits)

lemma py_or_Some: "py_or xs = Some d \<Longrightarrow> d \<noteq> [] \<Longrightarrow> Some d \<in> set xs"
  by (induction xs) (auto split: if_splits)

section \<open>An example\<close>

definition sample_file_grant :: file_grant where
  "sample_file_grant = sample_grant\<lparr> fg_inode := 11, fg_content_hash := Some (mark_hash ''xyz'') \<rparr>"

definition sample_polls :: "grant_poll list" where
  "sample_polls = (let signed = grant_sign (\<lambda>m. ''s'') ''k'' sample_file_grant
     in [Poll_Grant signed 10 (seconds 1100), Poll_Broken, Poll_Grant signed 10 (seconds 1200)])"

lemma sample_open: "fs_open_file sample_fs (Inode 0 1) False ''/d/a'' = Inr (Inode 0 11)"
  by code_simp

lemma sample_read: "local_read mark_hash (entry_of_grant sample_file_grant) 10 sample_world = (Inr ''xyz'', sample_world\<lparr>w_tick := 4\<rparr>)"
proof -
  have fs: "fs_cwd sample_fs = Inode 0 1" "fs_nodes sample_fs (Inode 0 11) = Some (File ''xyz'')"
    by (simp_all add: sample_fs_def)
  have calls: "query f (sample_world\<lparr>w_tick := n\<rparr>) = (f sample_fs, sample_world\<lparr>w_tick := Suc n\<rparr>)" for f :: "fs \<Rightarrow> (errno, 'a) result" and n
    by (simp add: query_def enter_def sample_world_def Let_def)
  have start: "sample_world = sample_world\<lparr>w_tick := 0\<rparr>" by (simp add: sample_world_def)
  have blocks: "read_blocks (Inode 0 11) 11 [] (sample_world\<lparr>w_tick := Suc (Suc 0)\<rparr>) = (Inr ''xyz'', sample_world\<lparr>w_tick := 4\<rparr>)"
    by (simp add: read_blocks.simps os_read_some_def calls fs_read_def fs READ_BLOCK_def)
  show ?thesis
    by (subst start)
      (simp add: local_read_def entry_of_grant_def sample_file_grant_def sample_grant_def os_open_file_def os_fstat_def
        calls sample_world_calm fs sample_open stat_node_def to_signed64_def I64_MAX_def blocks)
qed

lemma sample_serve:
  "map snd (fst (serve_loop mark_hash (\<lambda>_. True) ''h1'' sample_polls (sample_ledger, sample_world))) =
     [Serve_Data ''g1'' (b64encode ''xyz''), Serve_Error ''g1'' ''grant could not be served'']"
  using sample_read
  by (simp add: sample_polls_def handle_grant_def serve_grant_def verify_grant_def grant_sign_def sample_ledger_def
      sqlite_consume_def sample_file_grant_def sample_grant_def sample_job_def seconds_def Let_def)

theorem serves_only_granted_witness:
  "map snd (fst (serve_loop mark_hash (\<lambda>_. True) ''h1'' sample_polls (sample_ledger, sample_world))) =
     [Serve_Data ''g1'' (b64encode ''xyz''), Serve_Error ''g1'' ''grant could not be served''] \<and>
   distinct (map (\<lambda>(signed, p). fg_nonce (gs_grant signed)) (filter (\<lambda>(signed, p). is_data p)
     (fst (serve_loop mark_hash (\<lambda>_. True) ''h1'' sample_polls (sample_ledger, sample_world)))))"
proof -
  let ?s = "serve_loop mark_hash (\<lambda>_. True) ''h1'' sample_polls (sample_ledger, sample_world)"
  have "?s = (fst ?s, fst (snd ?s), snd (snd ?s))" by (simp only: prod.collapse)
  from serves_only_granted [OF this] sample_serve show ?thesis by blast
qed

end
