(* ===== verification/Preview.thy ===== *)
theory Preview
  imports Preview_Fetch Catalogue Access
begin

text \<open>
  The core's side of a preview: what a prefix of bytes is taken for (\<open>preview/types.py\<close>), the encrypted cache
  (\<open>preview/cache.py\<close>), the service that answers from the cache or renders (\<open>preview/service.py\<close>), and the
  route with its checks, its audit record and its metadata row (\<open>api/routers/preview.py\<close>).

  The sandbox is a function from the bytes, their type and the job's id to the derived artifacts or a
  failure. Fernet over pydantic's JSON is the pair \<open>seal\<close>, \<open>unseal\<close>; that pydantic refuses to write bytes
  that are not UTF-8 into JSON is part of the model, for the class does not ask it to encode them.
\<close>

section \<open>Types\<close>

datatype supported_type = Image | Pdf | Office | Text | Code | Markdown

fun type_value :: "supported_type \<Rightarrow> string" where
  "type_value Image = ''image''"
| "type_value Pdf = ''pdf''"
| "type_value Office = ''office''"
| "type_value Text = ''text''"
| "type_value Code = ''code''"
| "type_value Markdown = ''markdown''"

definition byte_string :: "nat list \<Rightarrow> string" where
  "byte_string ns = map char_of ns"

definition IMAGE_MAGIC :: "string list" where
  "IMAGE_MAGIC = [byte_string [255, 216, 255], byte_string [137] @ ''PNG'' @ byte_string [13, 10, 26, 10], ''GIF87a'', ''GIF89a'', ''BM'',
     ''II*'' @ byte_string [0], ''MM'' @ byte_string [0] @ ''*'']"

definition PDF_MAGIC :: string where
  "PDF_MAGIC = ''%PDF-''"

definition ZIP_MAGIC :: string where
  "ZIP_MAGIC = ''PK'' @ byte_string [3, 4]"

definition OLE2_MAGIC :: string where
  "OLE2_MAGIC = byte_string [208, 207, 17, 224, 161, 177, 26, 225]"

definition printable_byte :: "char \<Rightarrow> bool" where
  "printable_byte c = (let b = of_char c :: nat in b \<in> {9, 10, 13} \<or> (32 \<le> b \<and> b \<le> 126) \<or> 128 \<le> b)"

text \<open>The quotient of two counts up to 4096 exceeds the float 0.85 exactly when it exceeds 17/20.\<close>

definition looks_like_text :: "string \<Rightarrow> bool" where
  "looks_like_text head_bytes =
     (if head_bytes = [] then False
      else if CHR 0x00 \<in> set head_bytes then False
      else 17 * length head_bytes < 20 * length (filter printable_byte head_bytes))"

definition detect_type :: "string \<Rightarrow> supported_type option" where
  "detect_type head_bytes =
     (if list_ex (\<lambda>m. startswith head_bytes m) IMAGE_MAGIC then Some Image
      else if startswith head_bytes PDF_MAGIC then Some Pdf
      else if startswith head_bytes OLE2_MAGIC \<or> startswith head_bytes ZIP_MAGIC then Some Office
      else if looks_like_text head_bytes then Some Text
      else None)"

datatype artifact_kind = Thumbnail | Page_Raster | Text_Snippet | Code_Render

record preview_artifact =
  pa_kind :: artifact_kind
  pa_media_type :: string
  pa_data :: string
  pa_meta :: "(string \<times> json) list"

record preview_result =
  pr_entry_id :: int
  pr_type :: supported_type
  pr_artifacts :: "preview_artifact list"
  pr_cache_hit :: bool
  pr_sandbox_job_id :: string

record resource_caps =
  rc_max_pages :: int
  rc_max_decompressed_bytes :: int

section \<open>The cache\<close>

definition derive_cache_key :: "string \<Rightarrow> string \<Rightarrow> string" where
  "derive_cache_key content_hash render_params = content_hash @ '':'' @ render_params"

record cache_entry =
  ce_ciphertext :: string
  ce_expires_at :: int
  ce_size :: nat

text \<open>The ordered dictionary: the least recently used entry is the first.\<close>

record lru_cache =
  lc_max_entries :: nat
  lc_ttl :: int
  lc_store :: "(string \<times> cache_entry) list"
  lc_hits :: nat
  lc_misses :: nat

definition move_to_end :: "string \<Rightarrow> (string \<times> 'v) list \<Rightarrow> (string \<times> 'v) list" where
  "move_to_end k d = (case map_of d k of None \<Rightarrow> d | Some v \<Rightarrow> filter (\<lambda>kv. fst kv \<noteq> k) d @ [(k, v)])"

definition miss :: "lru_cache \<Rightarrow> lru_cache" where
  "miss c = c\<lparr>lc_misses := Suc (lc_misses c)\<rparr>"

definition cache_get :: "(string \<Rightarrow> preview_result option) \<Rightarrow> int \<Rightarrow> string \<Rightarrow> lru_cache \<Rightarrow> preview_result option \<times> lru_cache" where
  "cache_get unseal now key c =
     (case map_of (lc_store c) key of
        None \<Rightarrow> (None, miss c)
      | Some entry \<Rightarrow>
          if ce_expires_at entry \<le> now then (None, miss (c\<lparr>lc_store := filter (\<lambda>kv. fst kv \<noteq> key) (lc_store c)\<rparr>))
          else
            let c = c\<lparr>lc_store := move_to_end key (lc_store c), lc_hits := Suc (lc_hits c)\<rparr>
            in case unseal (ce_ciphertext entry) of
                 None \<Rightarrow> (None, miss (c\<lparr>lc_store := filter (\<lambda>kv. fst kv \<noteq> key) (lc_store c)\<rparr>))
               | Some r \<Rightarrow> (Some (r\<lparr>pr_cache_hit := True\<rparr>), c))"

text \<open>UTF-8, as JSON needs it: no overlong form, no surrogate, nothing above U+10FFFF.\<close>

definition cont_byte :: "nat \<Rightarrow> bool" where
  "cont_byte b \<longleftrightarrow> 128 \<le> b \<and> b \<le> 191"

fun utf8_valid :: "nat list \<Rightarrow> bool" where
  "utf8_valid [] = True"
| "utf8_valid (a # bs) =
     (if a < 128 then utf8_valid bs
      else case bs of
        [] \<Rightarrow> False
      | b # cs \<Rightarrow>
          if 194 \<le> a \<and> a \<le> 223 then cont_byte b \<and> utf8_valid cs
          else case cs of
            [] \<Rightarrow> False
          | c # ds \<Rightarrow>
              if 224 \<le> a \<and> a \<le> 239 then cont_byte b \<and> cont_byte c \<and> (a = 224 \<longrightarrow> 160 \<le> b) \<and> (a = 237 \<longrightarrow> b \<le> 159) \<and> utf8_valid ds
              else case ds of
                [] \<Rightarrow> False
              | d # es \<Rightarrow>
                  240 \<le> a \<and> a \<le> 244 \<and> cont_byte b \<and> cont_byte c \<and> cont_byte d \<and>
                  (a = 240 \<longrightarrow> 144 \<le> b) \<and> (a = 244 \<longrightarrow> b \<le> 143) \<and> utf8_valid es)"

definition json_writable :: "preview_result \<Rightarrow> bool" where
  "json_writable r = list_all (\<lambda>a. utf8_valid (map of_char (pa_data a))) (pr_artifacts r)"

text \<open>\<open>popitem(last=False)\<close> until the bound holds.\<close>

definition evict :: "nat \<Rightarrow> (string \<times> 'v) list \<Rightarrow> (string \<times> 'v) list" where
  "evict max_entries d = drop (length d - max_entries) d"

text \<open>\<open>None\<close> when \<open>model_dump_json\<close> raises.\<close>

definition cache_put ::
    "(preview_result \<Rightarrow> string) \<Rightarrow> int \<Rightarrow> string \<Rightarrow> preview_result \<Rightarrow> int option \<Rightarrow> lru_cache \<Rightarrow> nat option \<times> lru_cache" where
  "cache_put seal now key r ttl_seconds c =
     (if \<not> json_writable r then (None, c)
      else
        let ciphertext = seal r;
            ttl = (case ttl_seconds of None \<Rightarrow> lc_ttl c | Some t \<Rightarrow> t);
            entry = \<lparr> ce_ciphertext = ciphertext, ce_expires_at = now + ttl, ce_size = length ciphertext \<rparr>
        in (Some (length ciphertext),
            c\<lparr>lc_store := evict (lc_max_entries c) (filter (\<lambda>kv. fst kv \<noteq> key) (lc_store c) @ [(key, entry)])\<rparr>))"

definition cache_clear :: "lru_cache \<Rightarrow> lru_cache" where
  "cache_clear c = c\<lparr>lc_store := []\<rparr>"

section \<open>The service\<close>

type_synonym 's fetcher = "resolved_entry \<Rightarrow> nat \<Rightarrow> 's \<Rightarrow> (preview_failure, string) result \<times> 's"

type_synonym sandbox_driver = "string \<Rightarrow> supported_type \<Rightarrow> resource_caps \<Rightarrow> string \<Rightarrow> (preview_failure, preview_artifact list) result"

definition SNIFF_BYTES :: nat where
  "SNIFF_BYTES = 4096"

definition render_params :: "resource_caps \<Rightarrow> string" where
  "render_params caps = ''v1:pages='' @ str_int (rc_max_pages caps)"

record preview_config =
  pc_caps :: resource_caps
  pc_max_input_bytes :: nat
  pc_cache_ttl :: int

text \<open>What goes wrong: a \<open>PreviewError\<close> or an \<open>OSError\<close> of the fetcher, or the cache that cannot write the result.\<close>

datatype render_failure = Render_Failed preview_failure | Not_Serializable

definition fresh_render ::
    "(preview_result \<Rightarrow> string) \<Rightarrow> sandbox_driver \<Rightarrow> 's fetcher \<Rightarrow> preview_config \<Rightarrow> string option \<Rightarrow> resolved_entry \<Rightarrow> string
      \<Rightarrow> int \<Rightarrow> lru_cache \<times> 's \<Rightarrow> (render_failure, preview_result \<times> nat) result \<times> lru_cache \<times> 's" where
  "fresh_render seal driver fetch cfg cache_key entry job_id now cs =
     (case cs of (c, s) \<Rightarrow>
        case fetch entry (pc_max_input_bytes cfg) s of
          (Inl e, s) \<Rightarrow> (Inl (Render_Failed e), c, s)
        | (Inr raw, s) \<Rightarrow>
            if pc_max_input_bytes cfg < length raw
            then (Inl (Render_Failed (Preview_Error ''file exceeds preview input cap'' 413)), c, s)
            else
              case detect_type (take SNIFF_BYTES raw) of
                None \<Rightarrow> (Inl (Render_Failed (Preview_Error ''unsupported preview type'' 415)), c, s)
              | Some detected \<Rightarrow>
                  (case driver raw detected (pc_caps cfg) job_id of
                     Inl e \<Rightarrow> (Inl (Render_Failed e), c, s)
                   | Inr artifacts \<Rightarrow>
                       let r = \<lparr> pr_entry_id = re_entry_id entry, pr_type = detected, pr_artifacts = artifacts,
                                 pr_cache_hit = False, pr_sandbox_job_id = job_id \<rparr>
                       in case cache_key of
                            None \<Rightarrow> (Inr (r, 0), c, s)
                          | Some key \<Rightarrow>
                              (case cache_put seal now key r (Some (pc_cache_ttl cfg)) c of
                                 (None, c) \<Rightarrow> (Inl Not_Serializable, c, s)
                               | (Some n, c) \<Rightarrow> (Inr (r, n), c, s))))"

definition cache_key_of :: "preview_config \<Rightarrow> resolved_entry \<Rightarrow> string option" where
  "cache_key_of cfg entry =
     (case re_content_hash entry of
        None \<Rightarrow> None
      | Some h \<Rightarrow> if h = [] then None else Some (derive_cache_key h (render_params (pc_caps cfg))))"

definition render ::
    "(preview_result \<Rightarrow> string) \<Rightarrow> (string \<Rightarrow> preview_result option) \<Rightarrow> sandbox_driver \<Rightarrow> 's fetcher \<Rightarrow> preview_config
      \<Rightarrow> resolved_entry \<Rightarrow> string \<Rightarrow> int \<Rightarrow> lru_cache \<times> 's
      \<Rightarrow> (render_failure, preview_result \<times> nat) result \<times> lru_cache \<times> 's" where
  "render seal unseal driver fetch cfg entry job_id now cs =
     (case cs of (c, s) \<Rightarrow>
        case cache_key_of cfg entry of
          None \<Rightarrow> fresh_render seal driver fetch cfg None entry job_id now (c, s)
        | Some key \<Rightarrow>
            (case cache_get unseal now key c of
               (Some hit, c) \<Rightarrow> (Inr (hit\<lparr>pr_entry_id := re_entry_id entry\<rparr>, 0), c, s)
             | (None, c) \<Rightarrow> fresh_render seal driver fetch cfg (Some key) entry job_id now (c, s)))"

section \<open>The route\<close>

definition resolve_entry :: "catalogue \<Rightarrow> scope_filter \<Rightarrow> int \<Rightarrow> (http_error, resolved_entry) result" where
  "resolve_entry cat scope entry_id =
     (case find_row e_id entry_id (entries cat) of
        None \<Rightarrow> Inl (HTTPException 404 ''entry not found'')
      | Some e \<Rightarrow>
          if \<not> e_present e \<or> e_is_dir e then Inl (HTTPException 404 ''entry not found'')
          else
            let vol = find_row v_id (e_volume_id e) (volumes cat)
            in rbind (check_target scope (e_host_id e) (Some (e_volume_id e)) (map_option v_kind vol)) (\<lambda>_.
                 if map_option v_transport vol = Some ''network''
                 then Inl (HTTPException 415 ''preview is not available for remote (SMB/SFTP/rclone) files'')
                 else Inr \<lparr> re_entry_id = e_id e, re_host_id = e_host_id e, re_volume_id = e_volume_id e, re_path = e_path e,
                        re_inode = e_inode e, re_content_hash = e_full_hash e,
                        re_host_name = (case find_row h_id (e_host_id e) (hosts cat) of
                          None \<Rightarrow> str_int (e_host_id e) | Some h \<Rightarrow> h_name h) \<rparr>))"

record cache_meta =
  cm_entry_id :: int
  cm_content_hash :: string
  cm_cache_key :: string
  cm_artifact_ref :: string
  cm_type :: string
  cm_artifact_size :: nat
  cm_hit_count :: nat
  cm_expires_at :: int

definition record_cache_meta ::
    "resolved_entry \<Rightarrow> preview_result \<Rightarrow> nat \<Rightarrow> int \<Rightarrow> int \<Rightarrow> cache_meta list \<Rightarrow> cache_meta list" where
  "record_cache_meta entry r artifact_size ttl_seconds now ms =
     (case re_content_hash entry of
        None \<Rightarrow> ms
      | Some h \<Rightarrow>
          if h = [] then ms
          else
            let key = derive_cache_key h (''v1:'' @ type_value (pr_type r))
            in if key \<in> cm_cache_key ` set ms
               then map (\<lambda>m. if cm_cache_key m = key then m\<lparr>cm_hit_count := Suc (cm_hit_count m)\<rparr> else m) ms
               else ms @ [\<lparr> cm_entry_id = re_entry_id entry, cm_content_hash = h, cm_cache_key = key, cm_artifact_ref = key,
                      cm_type = type_value (pr_type r), cm_artifact_size = artifact_size, cm_hit_count = 0,
                      cm_expires_at = now + ttl_seconds \<rparr>])"

record 's preview_state =
  ps_cache :: lru_cache
  ps_fetcher :: 's
  ps_audit :: audit_chain
  ps_meta :: "cache_meta list"

text \<open>The concurrency gate in front of the service: a request either gets its slot in time or is shed.\<close>

definition preview_submit :: "bool \<Rightarrow> (render_failure, 'a) result \<times> 'c \<Rightarrow> 'c \<Rightarrow> (render_failure, 'a) result \<times> 'c" where
  "preview_submit slot rendered unchanged =
     (if slot then rendered else (Inl (Render_Failed (Preview_Error ''preview service busy'' 503)), unchanged))"

text \<open>What the route does with a failure: a \<open>PreviewError\<close> is a problem with its own status, everything else a 500.\<close>

fun failure_status :: "render_failure \<Rightarrow> http_error" where
  "failure_status (Render_Failed (Preview_Error reason status)) = HTTPException (nat status) reason"
| "failure_status _ = HTTPException 500 ''internal server error''"

definition get_preview ::
    "(string \<Rightarrow> string) \<Rightarrow> (preview_result \<Rightarrow> string) \<Rightarrow> (string \<Rightarrow> preview_result option) \<Rightarrow> sandbox_driver \<Rightarrow> 's fetcher
      \<Rightarrow> preview_config \<Rightarrow> catalogue \<Rightarrow> principal \<Rightarrow> bool \<Rightarrow> bool \<Rightarrow> int \<Rightarrow> string \<Rightarrow> bool \<Rightarrow> int \<Rightarrow> 's preview_state
      \<Rightarrow> (http_error, preview_result) result \<times> 's preview_state" where
  "get_preview H seal unseal driver fetch cfg cat p enabled provisioned entry_id job_id slot now s =
     (case require_cap PREVIEW p of
        Inl e \<Rightarrow> (Inl e, s)
      | Inr scope \<Rightarrow>
          if \<not> enabled then (Inl (HTTPException 403 ''preview is disabled (preview_enabled=False)''), s)
          else if \<not> provisioned
          then (Inl (HTTPException 503 ''preview runtime not provisioned (no sandbox driver / cache)''), s)
          else
            case resolve_entry cat scope entry_id of
              Inl e \<Rightarrow> (Inl e, s)
            | Inr entry \<Rightarrow>
                (case preview_submit slot (render seal unseal driver fetch cfg entry job_id now (ps_cache s, ps_fetcher s))
                        (ps_cache s, ps_fetcher s) of
                   (Inl e, c, f) \<Rightarrow> (Inl (failure_status e), s\<lparr>ps_cache := c, ps_fetcher := f\<rparr>)
                 | (Inr (r, artifact_size), c, f) \<Rightarrow>
                     let s = s\<lparr>ps_cache := c, ps_fetcher := f\<rparr>;
                         role = (case p_grants p of [] \<Rightarrow> ''unknown'' | g # _ \<Rightarrow> role_value (grant_role g))
                     in case append_preview_access H (ps_audit s) (p_subject p) role (re_entry_id entry)
                               (type_value (pr_type r)) (pr_sandbox_job_id r) (pr_cache_hit r) of
                          (None, _) \<Rightarrow> (Inl (HTTPException 500 ''internal server error''), s)
                        | (Some rec, ch) \<Rightarrow>
                            (Inr r, s\<lparr>ps_audit := ch,
                               ps_meta := record_cache_meta entry r artifact_size (pc_cache_ttl cfg) now (ps_meta s)\<rparr>)))"

section \<open>The cache keeps its bounds\<close>

definition cache_ok :: "lru_cache \<Rightarrow> bool" where
  "cache_ok c \<longleftrightarrow> distinct (map fst (lc_store c)) \<and> length (lc_store c) \<le> lc_max_entries c"

lemma set_move_to_end:
  assumes "distinct (map fst d)"
  shows "set (move_to_end k d) = set d"
proof (cases "map_of d k")
  case (Some v)
  have "b = v" if "(k, b) \<in> set d" for b using Some that assms by (simp add: map_of_is_SomeI)
  moreover have "(k, v) \<in> set d" using Some by (rule map_of_SomeD)
  ultimately have "set d = {kv \<in> set d. fst kv \<noteq> k} \<union> {(k, v)}" by fastforce
  with Some show ?thesis by (simp add: move_to_end_def)
qed (simp add: move_to_end_def)

lemma map_of_None_filter: "map_of d k = None \<Longrightarrow> filter (\<lambda>kv. fst kv \<noteq> k) d = d"
  by (auto simp: map_of_eq_None_iff filter_id_conv)

lemma distinct_without: "distinct (map fst d) \<Longrightarrow> distinct (map fst (filter P d))"
  by (rule distinct_map_filter)

lemma distinct_move_to_end: "distinct (map fst d) \<Longrightarrow> distinct (map fst (move_to_end k d))"
  by (auto simp: move_to_end_def distinct_without split: option.splits)

lemma length_without: "map_of d k = Some v \<Longrightarrow> length (filter (\<lambda>kv. fst kv \<noteq> k) d) < length d"
proof -
  assume "map_of d k = Some v"
  then have "\<exists>kv \<in> set d. \<not> fst kv \<noteq> k" by (force dest: map_of_SomeD)
  then show ?thesis by (auto intro: length_filter_less)
qed

lemma length_move_to_end: "length (move_to_end k d) \<le> length d"
  using length_without [of d k] by (auto simp: move_to_end_def split: option.splits dest: Suc_leI)

lemma cache_get_ok:
  assumes "cache_get unseal now key c = (r, c')" "cache_ok c"
  shows "cache_ok c' \<and> lc_max_entries c' = lc_max_entries c \<and> set (lc_store c') \<subseteq> set (lc_store c)"
proof -
  have le: "length (filter P (move_to_end key (lc_store c))) \<le> lc_max_entries c" "length (filter P (lc_store c)) \<le> lc_max_entries c" for P
    using length_move_to_end [of key "lc_store c"] assms(2) length_filter_le [of P] unfolding cache_ok_def
    by (meson order_trans)+
  show ?thesis
    using assms le(1) le [of "\<lambda>_. True"] le(2)
    by (auto simp: cache_get_def cache_ok_def miss_def Let_def distinct_without distinct_move_to_end set_move_to_end
        split: option.splits if_splits)
qed

lemma cache_get_hit:
  assumes "cache_get unseal now key c = (Some r, c')"
  shows "\<exists>e r0. (key, e) \<in> set (lc_store c) \<and> now < ce_expires_at e \<and> unseal (ce_ciphertext e) = Some r0 \<and> r = r0\<lparr>pr_cache_hit := True\<rparr>"
  using assms by (auto simp: cache_get_def Let_def dest: map_of_SomeD split: option.splits if_splits)

lemma set_evict: "set (evict m d) \<subseteq> set d"
  by (simp add: evict_def set_drop_subset)

lemma cache_put_ok:
  assumes "cache_put seal now key r ttl c = (n, c')" "cache_ok c"
  shows "cache_ok c' \<and> lc_max_entries c' = lc_max_entries c \<and>
    (\<forall>kv \<in> set (lc_store c'). kv \<in> set (lc_store c) \<or> fst kv = key \<and> ce_ciphertext (snd kv) = seal r)"
proof (cases "json_writable r")
  case False
  with assms show ?thesis by (simp add: cache_put_def)
next
  case True
  define e where "e = \<lparr> ce_ciphertext = seal r, ce_expires_at = now + (case ttl of None \<Rightarrow> lc_ttl c | Some t \<Rightarrow> t),
    ce_size = length (seal r) \<rparr>"
  let ?d = "filter (\<lambda>kv. fst kv \<noteq> key) (lc_store c) @ [(key, e)]"
  have c': "c' = c\<lparr>lc_store := evict (lc_max_entries c) ?d\<rparr>"
    using assms(1) True by (simp add: cache_put_def Let_def e_def)
  have "distinct (map fst ?d)" using assms(2) by (auto simp: cache_ok_def distinct_without)
  then have "distinct (map fst (evict (lc_max_entries c) ?d))" unfolding evict_def drop_map [symmetric] by (rule distinct_drop)
  moreover have "kv \<in> set (lc_store c) \<or> fst kv = key \<and> ce_ciphertext (snd kv) = seal r" if "kv \<in> set (lc_store c')" for kv
  proof -
    have "kv \<in> set ?d" using that set_evict [of "lc_max_entries c" ?d] c' by auto
    then show ?thesis by (auto simp: e_def)
  qed
  ultimately show ?thesis using c' by (auto simp: cache_ok_def evict_def)
qed

section \<open>A preview shows the content it names\<close>

text \<open>What a fetcher promises the service, and what the local one keeps.\<close>

locale file_fetcher =
  fixes fetch :: "'s fetcher" and H :: "string \<Rightarrow> string"
  assumes fetch_hash: "fetch entry n s = (Inr data, s') \<Longrightarrow> re_content_hash entry = Some h \<Longrightarrow> h \<noteq> [] \<Longrightarrow>
    length data \<le> n \<Longrightarrow> H data = h"

interpretation local_fetcher: file_fetcher "local_read H" H for H :: "string \<Rightarrow> string"
  by unfold_locales (use local_read_safe in blast)

text \<open>A result that a render of bytes with the hash \<open>h\<close> gave.\<close>

definition genuine :: "(string \<Rightarrow> string) \<Rightarrow> sandbox_driver \<Rightarrow> preview_config \<Rightarrow> string \<Rightarrow> preview_result \<Rightarrow> bool" where
  "genuine H driver cfg h r \<longleftrightarrow> (\<exists>raw. H raw = h \<and> length raw \<le> pc_max_input_bytes cfg \<and>
     detect_type (take SNIFF_BYTES raw) = Some (pr_type r) \<and>
     driver raw (pr_type r) (pc_caps cfg) (pr_sandbox_job_id r) = Inr (pr_artifacts r))"

definition cache_genuine ::
    "(string \<Rightarrow> string) \<Rightarrow> (string \<Rightarrow> preview_result option) \<Rightarrow> sandbox_driver \<Rightarrow> preview_config \<Rightarrow> lru_cache \<Rightarrow> bool" where
  "cache_genuine H unseal driver cfg c \<longleftrightarrow> (\<forall>(k, e) \<in> set (lc_store c). \<forall>r h. unseal (ce_ciphertext e) = Some r \<longrightarrow>
     k = derive_cache_key h (render_params (pc_caps cfg)) \<longrightarrow> genuine H driver cfg h r)"

lemma derive_cache_key_inj: "derive_cache_key h p = derive_cache_key h' p \<longleftrightarrow> h = h'"
  by (simp add: derive_cache_key_def)

lemma genuine_frame [simp]:
  "genuine H driver cfg h (r\<lparr>pr_cache_hit := b\<rparr>) = genuine H driver cfg h r"
  "genuine H driver cfg h (r\<lparr>pr_entry_id := i\<rparr>) = genuine H driver cfg h r"
  by (simp_all add: genuine_def)

context file_fetcher
begin

lemma fresh_render_genuine:
  assumes "fresh_render seal driver fetch cfg key entry job now (c, s) = (out, c', s')"
    and "key = None \<or> key = cache_key_of cfg entry" "\<And>r r'. unseal (seal r) = Some r' \<Longrightarrow> r' = r"
    and "cache_ok c" "cache_genuine H unseal driver cfg c"
  shows "cache_ok c' \<and> cache_genuine H unseal driver cfg c' \<and> lc_max_entries c' = lc_max_entries c \<and>
    (\<forall>r n h. out = Inr (r, n) \<longrightarrow> pr_entry_id r = re_entry_id entry \<and>
      (re_content_hash entry = Some h \<and> h \<noteq> [] \<longrightarrow> genuine H driver cfg h r))"
proof -
  consider e where "out = Inl e" "c' = c"
    | r raw n where "out = Inr (r, n)" "c' = c" "key = None" "fetch entry (pc_max_input_bytes cfg) s = (Inr raw, s')"
      "length raw \<le> pc_max_input_bytes cfg" "detect_type (take SNIFF_BYTES raw) = Some (pr_type r)"
      "driver raw (pr_type r) (pc_caps cfg) (pr_sandbox_job_id r) = Inr (pr_artifacts r)" "pr_entry_id r = re_entry_id entry"
    | r raw n k m where "out = Inr (r, n) \<or> out = Inl Not_Serializable" "key = Some k"
      "cache_put seal now k r (Some (pc_cache_ttl cfg)) c = (m, c')"
      "fetch entry (pc_max_input_bytes cfg) s = (Inr raw, s')"
      "length raw \<le> pc_max_input_bytes cfg" "detect_type (take SNIFF_BYTES raw) = Some (pr_type r)"
      "driver raw (pr_type r) (pc_caps cfg) (pr_sandbox_job_id r) = Inr (pr_artifacts r)" "pr_entry_id r = re_entry_id entry"
  proof -
    obtain f s1 where f: "fetch entry (pc_max_input_bytes cfg) s = (f, s1)" by fastforce
    show thesis
    proof (cases "\<exists>raw t a. f = Inr raw \<and> length raw \<le> pc_max_input_bytes cfg \<and> detect_type (take SNIFF_BYTES raw) = Some t \<and>
        driver raw t (pc_caps cfg) job = Inr a")
      case False
      with f assms(1) have "c' = c" "\<exists>e. out = Inl e"
        by (auto simp: fresh_render_def Let_def not_less split: sum.splits option.splits if_splits prod.splits)
      with that(1) show thesis by blast
    next
      case True
      then obtain raw t a where r: "f = Inr raw" "length raw \<le> pc_max_input_bytes cfg"
        "detect_type (take SNIFF_BYTES raw) = Some t" "driver raw t (pc_caps cfg) job = Inr a" by blast
      define r0 where "r0 = \<lparr> pr_entry_id = re_entry_id entry, pr_type = t, pr_artifacts = a, pr_cache_hit = False,
        pr_sandbox_job_id = job \<rparr>"
      have r0: "pr_type r0 = t" "pr_artifacts r0 = a" "pr_sandbox_job_id r0 = job" "pr_entry_id r0 = re_entry_id entry"
        by (simp_all add: r0_def)
      have out: "(out, c', s') = (case key of None \<Rightarrow> (Inr (r0, 0), c, s1) | Some k \<Rightarrow>
          (case cache_put seal now k r0 (Some (pc_cache_ttl cfg)) c of
             (None, c) \<Rightarrow> (Inl Not_Serializable, c, s1) | (Some n, c) \<Rightarrow> (Inr (r0, n), c, s1)))"
        using assms(1) f r unfolding r0_def by (simp add: fresh_render_def Let_def eq_commute [of "(out, c', s')"])
      show thesis
      proof (cases key)
        case None
        with that(2) [of r0 0 raw] out f r r0 show thesis by simp
      next
        case (Some k)
        obtain m c1 where put: "cache_put seal now k r0 (Some (pc_cache_ttl cfg)) c = (m, c1)" by fastforce
        with out Some have "c' = c1" "s' = s1" "\<exists>n. out = Inr (r0, n) \<or> out = Inl Not_Serializable"
          by (auto split: option.splits)
        with that(3) [of r0 _ k m raw] Some put f r r0 show thesis by auto
      qed
    qed
  qed
  then show ?thesis
  proof cases
    case 1
    with assms(4,5) show ?thesis by simp
  next
    case 2
    then have "genuine H driver cfg h r" if "re_content_hash entry = Some h" "h \<noteq> []" for h
      using fetch_hash [OF 2(4) that 2(5)] unfolding genuine_def by blast
    with 2 assms(4,5) show ?thesis by simp
  next
    case 3
    have g: "genuine H driver cfg h r" if "re_content_hash entry = Some h" "h \<noteq> []" for h
      using fetch_hash [OF 3(4) that 3(5)] 3 unfolding genuine_def by blast
    obtain h where h: "re_content_hash entry = Some h" "h \<noteq> []" "k = derive_cache_key h (render_params (pc_caps cfg))"
      using assms(2) 3(2) by (auto simp: cache_key_of_def split: option.splits if_splits)
    note ok = cache_put_ok [OF 3(3) assms(4)]
    have "cache_genuine H unseal driver cfg c'"
      unfolding cache_genuine_def
    proof (intro ballI, clarify)
      fix k' e r' h'
      assume a: "(derive_cache_key h' (render_params (pc_caps cfg)), e) \<in> set (lc_store c')" "unseal (ce_ciphertext e) = Some r'"
      from ok a(1) consider "(derive_cache_key h' (render_params (pc_caps cfg)), e) \<in> set (lc_store c)"
        | "derive_cache_key h' (render_params (pc_caps cfg)) = k" "ce_ciphertext e = seal r" by fastforce
      then show "genuine H driver cfg h' r'"
      proof cases
        case 1
        with assms(5) a(2) show ?thesis unfolding cache_genuine_def by blast
      next
        case 2
        with h g a(2) assms(3) show ?thesis by (metis derive_cache_key_inj)
      qed
    qed
    with ok 3(1,8) g show ?thesis by auto
  qed
qed

lemma render_genuine:
  assumes "render seal unseal driver fetch cfg entry job now (c, s) = (out, c', s')"
    and "\<And>r r'. unseal (seal r) = Some r' \<Longrightarrow> r' = r" "cache_ok c" "cache_genuine H unseal driver cfg c"
  shows "cache_ok c' \<and> cache_genuine H unseal driver cfg c' \<and> lc_max_entries c' = lc_max_entries c \<and>
    (\<forall>r n h. out = Inr (r, n) \<longrightarrow> pr_entry_id r = re_entry_id entry \<and>
      (re_content_hash entry = Some h \<and> h \<noteq> [] \<longrightarrow> genuine H driver cfg h r))"
proof (cases "cache_key_of cfg entry")
  case None
  with assms(1) have "fresh_render seal driver fetch cfg None entry job now (c, s) = (out, c', s')"
    by (simp add: render_def)
  from fresh_render_genuine [OF this _ assms(2-4)] show ?thesis by blast
next
  case (Some key)
  then obtain h where h: "re_content_hash entry = Some h" "h \<noteq> []" "key = derive_cache_key h (render_params (pc_caps cfg))"
    by (auto simp: cache_key_of_def split: option.splits if_splits)
  obtain hit c1 where g: "cache_get unseal now key c = (hit, c1)" by fastforce
  note ok = cache_get_ok [OF g assms(3)]
  have gen: "cache_genuine H unseal driver cfg c1" using ok assms(4) unfolding cache_genuine_def by blast
  show ?thesis
  proof (cases hit)
    case None
    with g Some assms(1) have "fresh_render seal driver fetch cfg (Some key) entry job now (c1, s) = (out, c', s')"
      by (simp add: render_def)
    from fresh_render_genuine [OF this _ assms(2)] ok gen Some show ?thesis by auto
  next
    case hit: (Some r)
    with g Some assms(1) have out: "out = Inr (r\<lparr>pr_entry_id := re_entry_id entry\<rparr>, 0)" "c' = c1" by (auto simp: render_def)
    from cache_get_hit [of unseal now key c r c1] g hit obtain e r0 where e: "(key, e) \<in> set (lc_store c)"
      "unseal (ce_ciphertext e) = Some r0" "r = r0\<lparr>pr_cache_hit := True\<rparr>" by auto
    with assms(4) h(3) have "genuine H driver cfg h r0" unfolding cache_genuine_def by blast
    with e(3) h out ok gen show ?thesis by simp
  qed
qed

end


text \<open>A history of requests, each with the catalogue and the settings of its moment.\<close>

record preview_ask =
  ask_catalogue :: catalogue
  ask_principal :: principal
  ask_enabled :: bool
  ask_provisioned :: bool
  ask_entry_id :: int
  ask_job_id :: string
  ask_slot :: bool
  ask_now :: int

definition ask_preview ::
    "(string \<Rightarrow> string) \<Rightarrow> (preview_result \<Rightarrow> string) \<Rightarrow> (string \<Rightarrow> preview_result option) \<Rightarrow> sandbox_driver \<Rightarrow> preview_config
      \<Rightarrow> preview_ask \<Rightarrow> world preview_state \<Rightarrow> (http_error, preview_result) result \<times> world preview_state" where
  "ask_preview H seal unseal driver cfg q s =
     get_preview H seal unseal driver (local_read H) cfg (ask_catalogue q) (ask_principal q) (ask_enabled q)
       (ask_provisioned q) (ask_entry_id q) (ask_job_id q) (ask_slot q) (ask_now q) s"

fun ask_previews ::
    "(string \<Rightarrow> string) \<Rightarrow> (preview_result \<Rightarrow> string) \<Rightarrow> (string \<Rightarrow> preview_result option) \<Rightarrow> sandbox_driver \<Rightarrow> preview_config
      \<Rightarrow> preview_ask list \<Rightarrow> world preview_state \<Rightarrow> (http_error, preview_result) result list \<times> world preview_state" where
  "ask_previews H seal unseal driver cfg [] s = ([], s)"
| "ask_previews H seal unseal driver cfg (q # qs) s =
     (case ask_preview H seal unseal driver cfg q s of (out, s) \<Rightarrow>
        (case ask_previews H seal unseal driver cfg qs s of (outs, s) \<Rightarrow> (out # outs, s)))"

definition entitled :: "preview_ask \<Rightarrow> resolved_entry \<Rightarrow> bool" where
  "entitled q entry \<longleftrightarrow> ask_enabled q \<and> (\<exists>scope. require_cap PREVIEW (ask_principal q) = Inr scope \<and>
     resolve_entry (ask_catalogue q) scope (ask_entry_id q) = Inr entry)"

definition shows_entry ::
    "(string \<Rightarrow> string) \<Rightarrow> sandbox_driver \<Rightarrow> preview_config \<Rightarrow> preview_ask \<Rightarrow> preview_result \<Rightarrow> bool" where
  "shows_entry H driver cfg q r \<longleftrightarrow> (\<exists>entry. entitled q entry \<and> pr_entry_id r = re_entry_id entry \<and>
     (\<forall>h. re_content_hash entry = Some h \<longrightarrow> h \<noteq> [] \<longrightarrow> genuine H driver cfg h r))"

definition access_record :: "audit_record \<Rightarrow> preview_result \<Rightarrow> bool" where
  "access_record a r \<longleftrightarrow> ar_action a = ''preview.access'' \<and> ar_target a = str_int (pr_entry_id r)"

lemma append_preview_access_log:
  assumes "append_preview_access H ch actor role i t job hit = (Some rec, ch')"
  shows "ch_log ch' = ch_log ch @ [rec] \<and> ar_action rec = ''preview.access'' \<and> ar_target rec = str_int i"
  using assms by (auto simp: append_preview_access_def audit_append_def emit_record_def Let_def split: if_splits)

lemma ask_preview_step:
  assumes "ask_preview H seal unseal driver cfg q s = (out, s')" "\<And>r r'. unseal (seal r) = Some r' \<Longrightarrow> r' = r"
    and "cache_ok (ps_cache s)" "cache_genuine H unseal driver cfg (ps_cache s)"
  shows "cache_ok (ps_cache s') \<and> cache_genuine H unseal driver cfg (ps_cache s') \<and>
    lc_max_entries (ps_cache s') = lc_max_entries (ps_cache s) \<and>
    (case out of Inl _ \<Rightarrow> ch_log (ps_audit s') = ch_log (ps_audit s)
     | Inr r \<Rightarrow> shows_entry H driver cfg q r \<and>
         (\<exists>a. access_record a r \<and> ch_log (ps_audit s') = ch_log (ps_audit s) @ [a]))"
proof (cases "\<exists>scope entry. require_cap PREVIEW (ask_principal q) = Inr scope \<and> ask_enabled q \<and> ask_provisioned q \<and>
    resolve_entry (ask_catalogue q) scope (ask_entry_id q) = Inr entry")
  case False
  with assms(1) have "s' = s" "\<exists>e. out = Inl e"
    by (auto simp: ask_preview_def get_preview_def split: sum.splits if_splits)
  with assms(3,4) show ?thesis by auto
next
  case True
  then obtain scope entry where e: "require_cap PREVIEW (ask_principal q) = Inr scope" "ask_enabled q" "ask_provisioned q"
    "resolve_entry (ask_catalogue q) scope (ask_entry_id q) = Inr entry" by blast
  then have ent: "entitled q entry" by (auto simp: entitled_def)
  let ?r = "render seal unseal driver (local_read H) cfg entry (ask_job_id q) (ask_now q) (ps_cache s, ps_fetcher s)"
  obtain v c f where v: "preview_submit (ask_slot q) ?r (ps_cache s, ps_fetcher s) = (v, c, f)"
    by (cases "preview_submit (ask_slot q) ?r (ps_cache s, ps_fetcher s)") auto
  have R: "cache_ok c \<and> cache_genuine H unseal driver cfg c \<and> lc_max_entries c = lc_max_entries (ps_cache s) \<and>
    (\<forall>r n h. v = Inr (r, n) \<longrightarrow> pr_entry_id r = re_entry_id entry \<and>
      (re_content_hash entry = Some h \<and> h \<noteq> [] \<longrightarrow> genuine H driver cfg h r))"
  proof (cases "ask_slot q")
    case True
    with v have "?r = (v, c, f)" by (simp add: preview_submit_def)
    from local_fetcher.render_genuine [OF this assms(2-4)] show ?thesis .
  next
    case False
    with v assms(3,4) show ?thesis by (auto simp: preview_submit_def)
  qed
  show ?thesis
  proof (cases v)
    case (Inl x)
    with assms(1) e v have "s' = s\<lparr>ps_cache := c, ps_fetcher := f\<rparr>" "out = Inl (failure_status x)"
      by (auto simp: ask_preview_def get_preview_def)
    with R show ?thesis by auto
  next
    case (Inr rn)
    obtain r n where r: "v = Inr (r, n)" using Inr by (cases rn) simp
    let ?role = "case p_grants (ask_principal q) of [] \<Rightarrow> ''unknown'' | g # _ \<Rightarrow> role_value (grant_role g)"
    obtain a ch where a: "append_preview_access H (ps_audit s) (p_subject (ask_principal q)) ?role (re_entry_id entry)
        (type_value (pr_type r)) (pr_sandbox_job_id r) (pr_cache_hit r) = (a, ch)" by fastforce
    show ?thesis
    proof (cases a)
      case None
      with assms(1) e v r a have "s' = s\<lparr>ps_cache := c, ps_fetcher := f\<rparr>" "out = Inl (HTTPException 500 ''internal server error'')"
        by (auto simp: ask_preview_def get_preview_def Let_def)
      with R show ?thesis by auto
    next
      case (Some rec)
      with assms(1) e v r a have out: "out = Inr r" "ps_audit s' = ch" "ps_cache s' = c"
        by (auto simp: ask_preview_def get_preview_def Let_def)
      from R r have g: "pr_entry_id r = re_entry_id entry"
        "\<And>h. re_content_hash entry = Some h \<Longrightarrow> h \<noteq> [] \<Longrightarrow> genuine H driver cfg h r" by blast+
      from append_preview_access_log [OF a [unfolded Some]] g(1)
      have "access_record rec r \<and> ch_log ch = ch_log (ps_audit s) @ [rec]" by (simp add: access_record_def)
      moreover have "shows_entry H driver cfg q r" using ent g unfolding shows_entry_def by blast
      ultimately show ?thesis using R out by auto
    qed
  qed
qed

definition successes :: "(http_error, preview_result) result list \<Rightarrow> preview_result list" where
  "successes outs = concat (map (\<lambda>out. case out of Inl _ \<Rightarrow> [] | Inr r \<Rightarrow> [r]) outs)"

lemma successes_simps [simp]:
  "successes [] = []" "successes (Inl e # outs) = successes outs" "successes (Inr r # outs) = r # successes outs"
  by (simp_all add: successes_def)

lemma ask_previews_inv:
  assumes "ask_previews H seal unseal driver cfg qs s = (outs, s')" "\<And>r r'. unseal (seal r) = Some r' \<Longrightarrow> r' = r"
    and "cache_ok (ps_cache s)" "cache_genuine H unseal driver cfg (ps_cache s)"
  shows "cache_ok (ps_cache s') \<and> lc_max_entries (ps_cache s') = lc_max_entries (ps_cache s) \<and>
    list_all2 (\<lambda>q out. case out of Inl _ \<Rightarrow> True | Inr r \<Rightarrow> shows_entry H driver cfg q r) qs outs \<and>
    (\<exists>as. ch_log (ps_audit s') = ch_log (ps_audit s) @ as \<and> list_all2 access_record as (successes outs))"
  using assms(1,3,4)
proof (induction qs arbitrary: s outs)
  case (Cons q qs)
  obtain out t where q: "ask_preview H seal unseal driver cfg q s = (out, t)" by fastforce
  with Cons.prems(1) obtain rest where rest: "ask_previews H seal unseal driver cfg qs t = (rest, s')" "outs = out # rest"
    by (auto split: prod.splits)
  note S = ask_preview_step [OF q assms(2) Cons.prems(2,3)]
  have IH: "cache_ok (ps_cache s') \<and> lc_max_entries (ps_cache s') = lc_max_entries (ps_cache t) \<and>
    list_all2 (\<lambda>q out. case out of Inl _ \<Rightarrow> True | Inr r \<Rightarrow> shows_entry H driver cfg q r) qs rest \<and>
    (\<exists>as. ch_log (ps_audit s') = ch_log (ps_audit t) @ as \<and> list_all2 access_record as (successes rest))"
    using Cons.IH [OF rest(1)] S by blast
  then obtain as where as: "ch_log (ps_audit s') = ch_log (ps_audit t) @ as" "list_all2 access_record as (successes rest)" by blast
  show ?case
  proof (cases out)
    case (Inl e)
    with S IH as rest(2) show ?thesis by auto
  next
    case (Inr r)
    with S obtain a where "access_record a r" "ch_log (ps_audit t) = ch_log (ps_audit s) @ [a]" by auto
    with as have "ch_log (ps_audit s') = ch_log (ps_audit s) @ (a # as) \<and> list_all2 access_record (a # as) (successes outs)"
      using Inr rest(2) by simp
    with S IH Inr rest(2) show ?thesis by auto
  qed
qed auto


text \<open>A page of a document is a PNG image, whose first byte is no UTF-8: an entry with a content hash that renders
  to one is never served, since the result cannot be put into the cache.\<close>

lemma raster_never_cached:
  assumes "a \<in> set (pr_artifacts r)" "prefix (byte_string [137] @ ''PNG'') (pa_data a)"
  shows "cache_put seal now key r ttl c = (None, c)"
proof -
  have "\<not> utf8_valid (map of_char (pa_data a))" using assms(2) by (auto simp: prefix_def byte_string_def)
  with assms(1) have "\<not> json_writable r" by (auto simp: json_writable_def list_all_iff)
  then show ?thesis by (simp add: cache_put_def)
qed

text \<open>What cannot be cached is not served. Where the sandbox turns a file with a content hash into a page image, the
  render ends in a failure that is no \<open>PreviewError\<close>, every time, although the file was fetched and rendered.\<close>

theorem raster_never_served:
  assumes "cache_key_of cfg entry = Some key" "cache_get unseal now key c = (None, c')"
    and "local_read H entry (pc_max_input_bytes cfg) w = (Inr raw, w')" "length raw \<le> pc_max_input_bytes cfg"
    and "detect_type (take SNIFF_BYTES raw) = Some t" "driver raw t (pc_caps cfg) job = Inr artifacts"
    and "a \<in> set artifacts" "prefix (byte_string [137] @ ''PNG'') (pa_data a)"
  shows "render seal unseal driver (local_read H) cfg entry job now (c, w) = (Inl Not_Serializable, c', w')"
  using assms raster_never_cached [of a "\<lparr>pr_entry_id = re_entry_id entry, pr_type = t, pr_artifacts = artifacts,
      pr_cache_hit = False, pr_sandbox_job_id = job\<rparr>" seal now key "Some (pc_cache_ttl cfg)" c']
  by (simp add: render_def fresh_render_def Let_def)


section \<open>An example\<close>

definition sample_shown_entry :: fs_entry where
  "sample_shown_entry = \<lparr> e_id = 7, e_host_id = 7, e_volume_id = 1, e_name = ''a'', e_path = ''/d/a'', e_depth = 2,
     e_is_dir = False, e_is_symlink = False, e_size_logical = 3, e_size_on_disk = 3, e_mtime = 0, e_ctime = 0, e_uid = 0,
     e_gid = 0, e_inode = 11, e_dev = 0, e_flags = [], e_last_seen_snapshot = None, e_present = True, e_removed_at = None,
     e_partial_hash = None, e_full_hash = Some (mark_hash ''xyz''), e_hashed_at = None, e_provider_hash = None,
     e_provider_hash_algo = None \<rparr>"

definition sample_catalogue :: catalogue where
  "sample_catalogue = \<lparr> hosts = [], volumes = [], snapshots = [], entries = [sample_shown_entry], rollups = [], history = [],
     changes = [], dup_groups = [], next_row = (1, 1, 1, 8), next_group = 1 \<rparr>"

definition sample_driver :: sandbox_driver where
  "sample_driver raw t caps job = Inr [\<lparr> pa_kind = Text_Snippet, pa_media_type = ''text/plain'', pa_data = raw, pa_meta = [] \<rparr>]"

definition sample_page_driver :: sandbox_driver where
  "sample_page_driver raw t caps job =
     Inr [\<lparr> pa_kind = Page_Raster, pa_media_type = ''image/png'', pa_data = byte_string [137] @ ''PNG'', pa_meta = [] \<rparr>]"

definition sample_preview_config :: preview_config where
  "sample_preview_config = \<lparr> pc_caps = \<lparr> rc_max_pages = 50, rc_max_decompressed_bytes = 1048576 \<rparr>, pc_max_input_bytes = 10,
     pc_cache_ttl = 1800 \<rparr>"

definition sample_fresh :: preview_result where
  "sample_fresh = \<lparr> pr_entry_id = 7, pr_type = Text, pr_artifacts = [\<lparr> pa_kind = Text_Snippet, pa_media_type = ''text/plain'',
     pa_data = ''xyz'', pa_meta = [] \<rparr>], pr_cache_hit = False, pr_sandbox_job_id = ''j1'' \<rparr>"

definition sample_seal :: "preview_result \<Rightarrow> string" where
  "sample_seal r = (if r = sample_fresh then ''x'' else [])"

definition sample_unseal :: "string \<Rightarrow> preview_result option" where
  "sample_unseal ct = (if ct = ''x'' then Some sample_fresh else None)"

definition sample_cache :: lru_cache where
  "sample_cache = \<lparr> lc_max_entries = 2, lc_ttl = 1800, lc_store = [], lc_hits = 0, lc_misses = 0 \<rparr>"

definition sample_preview_state :: "world preview_state" where
  "sample_preview_state = \<lparr> ps_cache = sample_cache, ps_fetcher = sample_world, ps_audit = sample_chain, ps_meta = [] \<rparr>"

definition sample_previewer :: principal where
  "sample_previewer = sample_principal\<lparr> p_grants :=
     [\<lparr> grant_role = OPERATOR, grant_scope = Host_Scope, grant_host = Some 7, grant_volume = None \<rparr>] \<rparr>"

definition sample_ask :: "string \<Rightarrow> principal \<Rightarrow> preview_ask" where
  "sample_ask job p = \<lparr> ask_catalogue = sample_catalogue, ask_principal = p, ask_enabled = True, ask_provisioned = True,
     ask_entry_id = 7, ask_job_id = job, ask_slot = True, ask_now = 100 \<rparr>"

abbreviation sample_asks :: "(http_error, preview_result) result list \<times> world preview_state" where
  "sample_asks \<equiv> ask_previews mark_hash sample_seal sample_unseal sample_driver sample_preview_config
     [sample_ask ''j1'' sample_previewer, sample_ask ''j2'' sample_previewer, sample_ask ''j3'' (sample_previewer\<lparr>p_grants := []\<rparr>)]
     sample_preview_state"

lemma sample_read_entry:
  assumes "re_path entry = ''/d/a''" "re_inode entry = 11" "re_content_hash entry = Some (mark_hash ''xyz'')"
  shows "local_read mark_hash entry 10 sample_world = (Inr ''xyz'', sample_world\<lparr>w_tick := 4\<rparr>)"
proof -
  have fields: "re_path (entry_of_grant sample_file_grant) = ''/d/a''" "re_inode (entry_of_grant sample_file_grant) = 11"
    "re_content_hash (entry_of_grant sample_file_grant) = Some (mark_hash ''xyz'')"
    by (simp_all add: entry_of_grant_def sample_file_grant_def sample_grant_def)
  have "local_read mark_hash entry 10 sample_world = local_read mark_hash (entry_of_grant sample_file_grant) 10 sample_world"
    unfolding local_read_def assms fields by (rule refl)
  with sample_read show ?thesis by simp
qed

lemma sample_previewer_scope:
  "require_cap PREVIEW sample_previewer = Inr \<lparr> is_global = False, host_ids = {7}, volume_ids = {} \<rparr>"
  "require_cap PREVIEW (sample_previewer\<lparr>p_grants := []\<rparr>) = Inl (HTTPException 403 ''insufficient capability'')"
  by (simp_all add: require_cap_def has_capability_def sample_previewer_def from_grants_def Let_def
      role_has_def caps_defs named_ids_def scope_is_empty_def)

lemma sample_resolved:
  "resolve_entry sample_catalogue \<lparr> is_global = False, host_ids = {7}, volume_ids = {} \<rparr> 7 =
     Inr \<lparr> re_entry_id = 7, re_host_id = 7, re_volume_id = 1, re_path = ''/d/a'', re_inode = 11,
       re_content_hash = Some (mark_hash ''xyz''), re_host_name = str_int 7 \<rparr>"
  by (simp add: resolve_entry_def find_row_def sample_catalogue_def sample_shown_entry_def check_target_def Let_def)

lemma sample_type: "detect_type (take SNIFF_BYTES ''xyz'') = Some Text"
  by (simp add: detect_type_def SNIFF_BYTES_def IMAGE_MAGIC_def PDF_MAGIC_def OLE2_MAGIC_def ZIP_MAGIC_def byte_string_def
      looks_like_text_def printable_byte_def Let_def)

abbreviation (input) sample_resolved_entry :: resolved_entry where
  "sample_resolved_entry \<equiv> \<lparr> re_entry_id = 7, re_host_id = 7, re_volume_id = 1, re_path = ''/d/a'', re_inode = 11,
     re_content_hash = Some (mark_hash ''xyz''), re_host_name = str_int 7 \<rparr>"

definition sample_filled :: lru_cache where
  "sample_filled = sample_cache\<lparr> lc_store := [(derive_cache_key (mark_hash ''xyz'') (render_params (pc_caps sample_preview_config)),
     \<lparr> ce_ciphertext = ''x'', ce_expires_at = 1900, ce_size = 1 \<rparr>)], lc_misses := 1 \<rparr>"

lemma sample_key: "cache_key_of sample_preview_config sample_resolved_entry =
    Some (derive_cache_key (mark_hash ''xyz'') (render_params (pc_caps sample_preview_config)))"
  by (simp add: cache_key_of_def mark_hash_def)

lemma sample_render_fresh:
  "render sample_seal sample_unseal sample_driver (local_read mark_hash) sample_preview_config sample_resolved_entry ''j1'' 100
     (sample_cache, sample_world) = (Inr (sample_fresh, 1), sample_filled, sample_world\<lparr>w_tick := 4\<rparr>)"
proof -
  have cap: "pc_max_input_bytes sample_preview_config = 10" "pc_cache_ttl sample_preview_config = 1800"
    by (simp_all add: sample_preview_config_def)
  have put: "cache_put sample_seal 100 k sample_fresh (Some 1800) (miss sample_cache) =
      (Some 1, (miss sample_cache)\<lparr>lc_store := [(k, \<lparr> ce_ciphertext = ''x'', ce_expires_at = 1900, ce_size = 1 \<rparr>)]\<rparr>)" for k
    by (simp add: cache_put_def json_writable_def sample_seal_def evict_def miss_def sample_cache_def sample_fresh_def)
  have r: "\<lparr>pr_entry_id = 7, pr_type = Text, pr_artifacts = [\<lparr> pa_kind = Text_Snippet, pa_media_type = ''text/plain'',
     pa_data = ''xyz'', pa_meta = [] \<rparr>], pr_cache_hit = False, pr_sandbox_job_id = ''j1''\<rparr> = sample_fresh"
    by (simp add: sample_fresh_def)
  have get: "cache_get sample_unseal 100 k sample_cache = (None, miss sample_cache)" for k
    by (simp add: cache_get_def sample_cache_def)
  have rd: "local_read mark_hash sample_resolved_entry 10 sample_world = (Inr ''xyz'', sample_world\<lparr>w_tick := 4\<rparr>)"
    by (rule sample_read_entry) simp_all
  show ?thesis
    unfolding render_def
    by (simp add: sample_key get fresh_render_def cap rd sample_type sample_driver_def r put sample_filled_def Let_def)
      (simp add: miss_def sample_cache_def)
qed

lemma sample_render_hit:
  "render sample_seal sample_unseal sample_driver (local_read mark_hash) sample_preview_config sample_resolved_entry ''j2'' 100
     (sample_filled, w) = (Inr (sample_fresh\<lparr>pr_cache_hit := True\<rparr>, 0), sample_filled\<lparr>lc_hits := 1\<rparr>, w)"
proof -
  have "cache_get sample_unseal 100 (derive_cache_key (mark_hash ''xyz'') (render_params (pc_caps sample_preview_config))) sample_filled =
      (Some (sample_fresh\<lparr>pr_cache_hit := True\<rparr>), sample_filled\<lparr>lc_hits := 1\<rparr>)"
    by (simp add: cache_get_def sample_filled_def sample_cache_def move_to_end_def sample_unseal_def)
  then show ?thesis by (simp add: render_def sample_key sample_fresh_def)
qed

lemma append_accepts:
  assumes "ch_accepts ch = (\<lambda>_ _. True)"
  obtains rec ch' where "append_preview_access H ch actor role i t job hit = (Some rec, ch')" "ch_accepts ch' = (\<lambda>_ _. True)"
  using assms that by (simp add: append_preview_access_def audit_append_def emit_record_def Let_def)

lemma sample_asks_out: "fst sample_asks = [Inr sample_fresh, Inr (sample_fresh\<lparr>pr_cache_hit := True\<rparr>),
    Inl (HTTPException 403 ''insufficient capability'')]"
proof -
  have first: "\<exists>s. ask_preview mark_hash sample_seal sample_unseal sample_driver sample_preview_config
      (sample_ask ''j1'' sample_previewer) sample_preview_state = (Inr sample_fresh, s) \<and>
      ps_cache s = sample_filled \<and> ch_accepts (ps_audit s) = (\<lambda>_ _. True)"
  proof -
    obtain rec ch where "append_preview_access mark_hash sample_chain ''ann'' ''operator'' 7 ''text'' ''j1'' False = (Some rec, ch)"
      "ch_accepts ch = (\<lambda>_ _. True)" by (rule append_accepts [of sample_chain]) (auto simp: sample_chain_def)
    then show ?thesis
      by (simp add: sample_ask_def ask_preview_def get_preview_def sample_previewer_scope sample_resolved preview_submit_def
          sample_preview_state_def sample_render_fresh Let_def) (simp add: sample_fresh_def sample_previewer_def sample_principal_def)
  qed
  have second: "\<exists>t. ask_preview mark_hash sample_seal sample_unseal sample_driver sample_preview_config
      (sample_ask ''j2'' sample_previewer) s = (Inr (sample_fresh\<lparr>pr_cache_hit := True\<rparr>), t)"
    if "ps_cache s = sample_filled" "ch_accepts (ps_audit s) = (\<lambda>_ _. True)" for s
  proof -
    note h = that
    obtain rec ch where "append_preview_access mark_hash (ps_audit s) ''ann'' ''operator'' 7 ''text'' ''j1'' True = (Some rec, ch)"
      using h(2) by (rule append_accepts)
    with h(1) show ?thesis
      by (simp add: sample_ask_def ask_preview_def get_preview_def sample_previewer_scope sample_resolved preview_submit_def
          sample_render_hit Let_def) (simp add: sample_fresh_def sample_previewer_def sample_principal_def)
  qed
  have third: "ask_preview mark_hash sample_seal sample_unseal sample_driver sample_preview_config
      (sample_ask ''j3'' (sample_previewer\<lparr>p_grants := []\<rparr>)) t = (Inl (HTTPException 403 ''insufficient capability''), t)" for t
    by (simp add: sample_ask_def ask_preview_def get_preview_def sample_previewer_scope)
  from first obtain s where s: "ask_preview mark_hash sample_seal sample_unseal sample_driver sample_preview_config
      (sample_ask ''j1'' sample_previewer) sample_preview_state = (Inr sample_fresh, s)"
      "ps_cache s = sample_filled" "ch_accepts (ps_audit s) = (\<lambda>_ _. True)" by blast
  from second [OF s(2,3)] obtain t where "ask_preview mark_hash sample_seal sample_unseal sample_driver sample_preview_config
      (sample_ask ''j2'' sample_previewer) s = (Inr (sample_fresh\<lparr>pr_cache_hit := True\<rparr>), t)" ..
  with s(1) third show ?thesis by simp
qed


theorem raster_never_served_witness:
  "fst (render sample_seal sample_unseal sample_page_driver (local_read mark_hash) sample_preview_config
     (entry_of_grant sample_file_grant) ''j1'' 100 (sample_cache, sample_world)) = Inl Not_Serializable"
proof -
  have key: "cache_key_of sample_preview_config (entry_of_grant sample_file_grant) =
      Some (derive_cache_key (mark_hash ''xyz'') (render_params (pc_caps sample_preview_config)))"
    by (simp add: cache_key_of_def entry_of_grant_def sample_file_grant_def mark_hash_def)
  have cap: "pc_max_input_bytes sample_preview_config = 10" by (simp add: sample_preview_config_def)
  have get: "cache_get sample_unseal 100 k sample_cache = (None, miss sample_cache)" for k
    by (simp add: cache_get_def sample_cache_def)
  have len: "length ''xyz'' \<le> pc_max_input_bytes sample_preview_config" by (simp add: cap)
  have png: "sample_page_driver ''xyz'' Text (pc_caps sample_preview_config) ''j1'' = Inr [\<lparr> pa_kind = Page_Raster,
      pa_media_type = ''image/png'', pa_data = byte_string [137] @ ''PNG'', pa_meta = [] \<rparr>]"
    by (simp add: sample_page_driver_def)
  show ?thesis
    using raster_never_served [where driver = sample_page_driver, OF key get sample_read [folded cap] len sample_type png, where seal = sample_seal]
    by simp
qed

end
