(* ===== verification/Browse_Lister.thy ===== *)
theory Browse_Lister
  imports Preview_Fetch
begin

text \<open>
  Listing one directory for an operator (\<open>agent/browse_lister.py\<close>): the entries of the directory and, for
  each sub-directory, the size of the tree beneath it, walked under a bound on its entries and on its time.
  What the directory reads deliver is a tree; an entry of \<open>scandir\<close> says of itself whether it is a link or a
  directory, its size needs a call that may fail. An entry whose type cannot be read is one without a size.

  The clock says of each round of a sizing walk whether the deadline has passed by then.
\<close>

section \<open>Entries\<close>

text \<open>A directory entry: its name, whether it is a link and whether a directory, its \<open>lstat\<close> (size and
  time) unless the call fails, and the entries that listing it delivers unless that fails.\<close>

datatype dir_item = Dir_Item (di_name: string) (di_link: bool) (di_dir: bool) (di_stat: "(int \<times> int) option")
    (di_list: "dir_item list option")

record browse_entry =
  be_name :: string
  be_path :: string
  be_is_dir :: bool
  be_is_symlink :: bool
  be_size :: int
  be_mtime :: int
  be_subtree_size :: "int option"
  be_subtree_file_count :: "nat option"
  be_subtree_truncated :: bool

record browse_result =
  bw_request_id :: string
  bw_path :: string
  bw_entries :: "browse_entry list"
  bw_truncated :: bool
  bw_error :: "string option"

section \<open>The bounded size of a subtree\<close>

text \<open>The loop over one directory: what it pushes on the stack, the size, the number of files, the number
  of entries seen, and whether the bound stopped it.\<close>

fun size_entries ::
    "nat \<Rightarrow> dir_item list \<Rightarrow> dir_item list \<Rightarrow> int \<Rightarrow> nat \<Rightarrow> nat \<Rightarrow> dir_item list \<times> int \<times> nat \<times> nat \<times> bool" where
  "size_entries max_entries [] stack total_size file_count seen = (stack, total_size, file_count, seen, False)"
| "size_entries max_entries (de # des) stack total_size file_count seen =
     (if max_entries \<le> Suc seen then (stack, total_size, file_count, Suc seen, True)
      else if di_link de then size_entries max_entries des stack total_size file_count (Suc seen)
      else if di_dir de then size_entries max_entries des (de # stack) total_size file_count (Suc seen)
      else case di_stat de of
             None \<Rightarrow> size_entries max_entries des stack total_size file_count (Suc seen)
           | Some st \<Rightarrow> size_entries max_entries des stack (total_size + fst st) (Suc file_count) (Suc seen))"

definition items_of :: "dir_item \<Rightarrow> dir_item list" where
  "items_of de = (case di_list de of None \<Rightarrow> [] | Some items \<Rightarrow> items)"

lemma size_items_of: "size_list size (items_of de) < size de"
  by (cases de) (auto simp: items_of_def split: option.splits)

lemma size_entries_stack:
  "size_entries m des stack t c n = (stack', t', c', n', stop) \<Longrightarrow>
     size_list size stack' \<le> size_list size stack + size_list size des"
proof (induction m des stack t c n rule: size_entries.induct)
  case (2 m de des stack t c n)
  then show ?case by (cases "di_stat de") (fastforce split: if_splits)+
qed simp

text \<open>The stack holds the directories still to be listed, the next one first.\<close>

function size_loop ::
    "nat \<Rightarrow> (nat \<Rightarrow> bool) \<Rightarrow> nat \<Rightarrow> dir_item list \<Rightarrow> int \<Rightarrow> nat \<Rightarrow> nat \<Rightarrow> int \<times> nat \<times> bool" where
  "size_loop max_entries expired k [] total_size file_count seen = (total_size, file_count, False)"
| "size_loop max_entries expired k (current # stack) total_size file_count seen =
     (if max_entries \<le> seen \<or> expired k then (total_size, file_count, True)
      else case size_entries max_entries (items_of current) stack total_size file_count seen of
             (stack, total_size, file_count, seen, stop) \<Rightarrow>
               if stop then (total_size, file_count, True)
               else size_loop max_entries expired (Suc k) stack total_size file_count seen)"
  by pat_completeness auto
termination
proof (relation "measure (\<lambda>(m, ex, r, stack, t, c, n). size_list size stack)", goal_cases)
  case (2 m ex r current stack t c n stack' q t' q' c' q'' n' stop)
  then have "size_entries m (items_of current) stack t c n = (stack', t', c', n', stop)" by simp
  from size_entries_stack [OF this] size_items_of [of current] show ?case by simp
qed simp

definition bounded_subtree :: "dir_item \<Rightarrow> nat \<Rightarrow> (nat \<Rightarrow> bool) \<Rightarrow> int \<times> nat \<times> bool" where
  "bounded_subtree de max_entries expired = size_loop max_entries expired 0 [de] 0 0 0"

section \<open>The sizing is exact or says that it is not\<close>

text \<open>The bytes and the files an entry stands for, links left out: what a walk without bounds adds up.\<close>

primrec bytes_in :: "dir_item \<Rightarrow> int" where
  "bytes_in (Dir_Item n l d st ls) =
     (if l then 0
      else if d then (case map_option (map bytes_in) ls of None \<Rightarrow> 0 | Some xs \<Rightarrow> sum_list xs)
      else case st of None \<Rightarrow> 0 | Some v \<Rightarrow> fst v)"

primrec files_in :: "dir_item \<Rightarrow> nat" where
  "files_in (Dir_Item n l d st ls) =
     (if l then 0
      else if d then (case map_option (map files_in) ls of None \<Rightarrow> 0 | Some xs \<Rightarrow> sum_list xs)
      else case st of None \<Rightarrow> 0 | Some v \<Rightarrow> 1)"

primrec sizes_ok :: "dir_item \<Rightarrow> bool" where
  "sizes_ok (Dir_Item n l d st ls) \<longleftrightarrow> (case st of None \<Rightarrow> True | Some v \<Rightarrow> 0 \<le> fst v) \<and>
     (case map_option (map sizes_ok) ls of None \<Rightarrow> True | Some bs \<Rightarrow> list_all id bs)"

abbreviation real_dir :: "dir_item \<Rightarrow> bool" where
  "real_dir de \<equiv> di_dir de \<and> \<not> di_link de"

lemma in_dir:
  assumes "real_dir de"
  shows "bytes_in de = sum_list (map bytes_in (items_of de))" "files_in de = sum_list (map files_in (items_of de))"
  using assms by (cases de; simp add: items_of_def split: option.splits)+

lemma in_other:
  "di_link de \<Longrightarrow> bytes_in de = 0" "di_link de \<Longrightarrow> files_in de = 0"
  "\<not> di_link de \<Longrightarrow> \<not> di_dir de \<Longrightarrow> bytes_in de = (case di_stat de of None \<Rightarrow> 0 | Some v \<Rightarrow> fst v)"
  "\<not> di_link de \<Longrightarrow> \<not> di_dir de \<Longrightarrow> files_in de = (case di_stat de of None \<Rightarrow> 0 | Some v \<Rightarrow> 1)"
  by (cases de; simp)+

lemma sizes_ok_items: "sizes_ok de \<Longrightarrow> list_all sizes_ok (items_of de)"
  by (cases de) (auto simp: items_of_def list_all_iff split: option.splits)

lemma sizes_ok_stat: "sizes_ok de \<Longrightarrow> di_stat de = Some v \<Longrightarrow> 0 \<le> fst v"
  by (cases de) auto

lemma bytes_in_nonneg: "sizes_ok de \<Longrightarrow> 0 \<le> bytes_in de"
proof (induction de)
  case (Dir_Item n l d st ls)
  have "0 \<le> sum_list (map bytes_in xs)" if "ls = Some xs" for xs
    using Dir_Item that by (intro sum_list_nonneg) (auto simp: list_all_iff)
  with Dir_Item.prems show ?case by (auto split: option.splits)
qed

lemma bytes_list_nonneg: "list_all sizes_ok ds \<Longrightarrow> 0 \<le> sum_list (map bytes_in ds)"
  by (intro sum_list_nonneg) (auto simp: list_all_iff bytes_in_nonneg)

lemma size_entries_sum:
  assumes "size_entries m des stack t c n = (stack', t', c', n', stop)"
    and "list_all real_dir stack" "list_all sizes_ok (des @ stack)" "c \<le> n" "n < m"
  shows "list_all real_dir stack' \<and> list_all sizes_ok stack' \<and> c' \<le> m \<and> c' \<le> n' \<and> (\<not> stop \<longrightarrow> n' < m) \<and>
    (\<not> stop \<longrightarrow> t' + sum_list (map bytes_in stack') = t + sum_list (map bytes_in (des @ stack)) \<and>
       c' + sum_list (map files_in stack') = c + sum_list (map files_in (des @ stack))) \<and>
    t' \<le> t + sum_list (map bytes_in (des @ stack)) \<and> c' \<le> c + sum_list (map files_in (des @ stack))"
  using assms
proof (induction m des stack t c n rule: size_entries.induct)
  case (1 m stack t c n)
  then show ?case using bytes_list_nonneg [of stack] by auto
next
  case (2 m de des stack t c n)
  have nn: "0 \<le> sum_list (map bytes_in (des @ stack))" "0 \<le> bytes_in de"
    using "2.prems"(3) bytes_list_nonneg [of "des @ stack"] bytes_in_nonneg [of de] by simp_all
  show ?case
  proof (cases "m \<le> Suc n")
    case True
    with "2.prems" nn show ?thesis by auto
  next
    case False
    consider (lnk) "di_link de" | (sub) "real_dir de" | (plain) "\<not> di_link de" "\<not> di_dir de" by blast
    then show ?thesis
    proof cases
      case lnk
      with 2 False in_other(1,2) [of de] show ?thesis by simp
    next
      case sub
      with 2 False show ?thesis by simp
    next
      case plain
      show ?thesis
      proof (cases "di_stat de")
        case None
        with "2.IH"(3) "2.prems" False plain in_other(3,4) [of de] show ?thesis by simp
      next
        case (Some v)
        with "2.IH"(4) "2.prems" False plain in_other(3,4) [of de] show ?thesis by simp
      qed
    qed
  qed
qed

lemma size_loop_sum:
  assumes "size_loop m expired k stack t c n = (t', c', stop)"
    and "list_all real_dir stack" "list_all sizes_ok stack" "c \<le> n" "c \<le> m"
  shows "c' \<le> m \<and> t' \<le> t + sum_list (map bytes_in stack) \<and> c' \<le> c + sum_list (map files_in stack) \<and>
    (\<not> stop \<longrightarrow> t' = t + sum_list (map bytes_in stack) \<and> c' = c + sum_list (map files_in stack))"
  using assms
proof (induction m expired k stack t c n rule: size_loop.induct)
  case (2 m expired k current stack t c n)
  have nn: "0 \<le> sum_list (map bytes_in stack)" "0 \<le> bytes_in current"
    using "2.prems"(3) bytes_list_nonneg [of stack] bytes_in_nonneg [of current] by simp_all
  show ?case
  proof (cases "m \<le> n \<or> expired k")
    case True
    with "2.prems" nn show ?thesis by auto
  next
    case False
    obtain stack1 t1 c1 n1 st where e: "size_entries m (items_of current) stack t c n = (stack1, t1, c1, n1, st)"
      by (metis prod.collapse)
    have cur: "real_dir current" "list_all sizes_ok (items_of current @ stack)"
      using "2.prems"(2,3) sizes_ok_items [of current] by simp_all
    note S = size_entries_sum [OF e _ cur(2) "2.prems"(4)]
    show ?thesis
    proof (cases st)
      case True
      with "2.prems" False e S in_dir [OF cur(1)] show ?thesis by simp
    next
      case not: False
      have "size_loop m expired (Suc k) stack1 t1 c1 n1 = (t', c', stop)" using "2.prems"(1) False e not by simp
      from "2.IH" [OF False e [symmetric] refl refl refl not this]
      show ?thesis using S "2.prems"(2) False not in_dir [OF cur(1)] by simp
    qed
  qed
qed simp

lemma bounded_subtree_sum:
  assumes "bounded_subtree de m expired = (bytes, files, stop)" "real_dir de" "sizes_ok de"
  shows "files \<le> m \<and> bytes \<le> bytes_in de \<and> files \<le> files_in de \<and> (\<not> stop \<longrightarrow> bytes = bytes_in de \<and> files = files_in de)"
  using size_loop_sum [OF assms(1) [unfolded bounded_subtree_def]] assms(2,3) by simp

section \<open>The listing\<close>

text \<open>What the path names: a link, a directory whose entries are read up to where a read may fail, or
  nothing that can be listed.\<close>

datatype dir_target = Link_Target | Unlistable string | Listable "dir_item list" "string option"

definition browse_entry_of :: "browse_request \<Rightarrow> (string \<Rightarrow> nat \<Rightarrow> bool) \<Rightarrow> dir_item \<Rightarrow> int \<times> int \<Rightarrow> browse_entry" where
  "browse_entry_of request clock de st =
     (let sized = br_with_sizes request \<and> di_dir de \<and> \<not> di_link de;
          (bytes, files, stop) = bounded_subtree de (nat (br_size_max_entries request)) (clock (di_name de))
      in \<lparr> be_name = di_name de, be_path = join_name (br_path request) (di_name de), be_is_dir = di_dir de,
           be_is_symlink = di_link de, be_size = fst st, be_mtime = snd st,
           be_subtree_size = (if sized then Some bytes else None),
           be_subtree_file_count = (if sized then Some files else None),
           be_subtree_truncated = (sized \<and> stop) \<rparr>)"

fun list_entries ::
    "browse_request \<Rightarrow> (string \<Rightarrow> nat \<Rightarrow> bool) \<Rightarrow> dir_item list \<Rightarrow> browse_entry list \<Rightarrow> browse_entry list \<times> bool" where
  "list_entries request clock [] es = (es, False)"
| "list_entries request clock (de # des) es =
     (if br_max_entries request \<le> int (length es) then (es, True)
      else case di_stat de of
             None \<Rightarrow> list_entries request clock des es
           | Some st \<Rightarrow> list_entries request clock des (es @ [browse_entry_of request clock de st]))"

definition browse_failed :: "browse_request \<Rightarrow> string \<Rightarrow> browse_result" where
  "browse_failed request e = \<lparr> bw_request_id = br_request_id request, bw_path = br_path request, bw_entries = [],
     bw_truncated = False, bw_error = Some e \<rparr>"

definition picker_order :: "browse_entry \<Rightarrow> bool \<times> string" where
  "picker_order e = (\<not> be_is_dir e, lower (be_name e))"

text \<open>An error in the middle of the read counts only when the loop gets there.\<close>

definition list_directory :: "(string \<Rightarrow> nat \<Rightarrow> bool) \<Rightarrow> (string \<Rightarrow> dir_target) \<Rightarrow> browse_request \<Rightarrow> browse_result" where
  "list_directory clock target request =
     (case target (br_path request) of
        Link_Target \<Rightarrow> browse_failed request ''path is a symlink''
      | Unlistable e \<Rightarrow> browse_failed request e
      | Listable items broken \<Rightarrow>
          (case (list_entries request clock items [], broken) of
             ((es, False), Some e) \<Rightarrow> browse_failed request e
           | ((es, truncated), _) \<Rightarrow>
               \<lparr> bw_request_id = br_request_id request, bw_path = br_path request, bw_entries = sort_key picker_order es,
                 bw_truncated = truncated, bw_error = None \<rparr>))"

definition readable :: "dir_item \<Rightarrow> bool" where
  "readable de \<longleftrightarrow> di_stat de \<noteq> None"

lemma list_entries_spec:
  assumes "list_entries request clock des es = (out, truncated)" "int (length es) \<le> br_max_entries request"
  shows "\<exists>n. out = es @ map (\<lambda>de. browse_entry_of request clock de (the (di_stat de))) (take n (filter readable des)) \<and>
    int (length out) \<le> br_max_entries request \<and> (\<not> truncated \<longrightarrow> take n (filter readable des) = filter readable des) \<and>
    (truncated \<longrightarrow> int (length out) = br_max_entries request)"
  using assms
proof (induction des arbitrary: es)
  case Nil
  then show ?case by auto
next
  case (Cons de des)
  show ?case
  proof (cases "br_max_entries request \<le> int (length es)")
    case True
    with Cons.prems show ?thesis by (intro exI [of _ 0]) auto
  next
    case False
    show ?thesis
    proof (cases "di_stat de")
      case None
      with Cons.IH [of es] Cons.prems False show ?thesis by (auto simp: readable_def)
    next
      case (Some st)
      let ?e = "browse_entry_of request clock de st"
      have "list_entries request clock des (es @ [?e]) = (out, truncated)" "int (length (es @ [?e])) \<le> br_max_entries request"
        using Cons.prems(1) False Some by simp_all
      from Cons.IH [OF this] obtain n where n: "out = (es @ [?e]) @
            map (\<lambda>de. browse_entry_of request clock de (the (di_stat de))) (take n (filter readable des)) \<and>
        int (length out) \<le> br_max_entries request \<and> (\<not> truncated \<longrightarrow> take n (filter readable des) = filter readable des) \<and>
        (truncated \<longrightarrow> int (length out) = br_max_entries request)" by blast
      have "take (Suc n) (filter readable (de # des)) = de # take n (filter readable des)"
        "filter readable (de # des) = de # filter readable des" using Some by (simp_all add: readable_def)
      note eqs = this
      have "out = es @ map (\<lambda>de. browse_entry_of request clock de (the (di_stat de))) (take (Suc n) (filter readable (de # des)))"
        unfolding eqs using n Some by simp
      moreover have "\<not> truncated \<longrightarrow> take (Suc n) (filter readable (de # des)) = filter readable (de # des)"
        unfolding eqs using n by simp
      ultimately show ?thesis using n by blast
    qed
  qed
qed

text \<open>What an entry of a listing says of the item it is for.\<close>

definition describes :: "browse_request \<Rightarrow> browse_entry \<Rightarrow> dir_item \<Rightarrow> bool" where
  "describes request e de \<longleftrightarrow> be_name e = di_name de \<and> be_path e = join_name (br_path request) (di_name de) \<and>
     di_stat de = Some (be_size e, be_mtime e) \<and> be_is_dir e = di_dir de \<and> be_is_symlink e = di_link de \<and>
     (be_subtree_size e \<noteq> None \<longleftrightarrow> br_with_sizes request \<and> real_dir de) \<and>
     (\<forall>bytes. be_subtree_size e = Some bytes \<longrightarrow> bytes \<le> bytes_in de \<and> (\<not> be_subtree_truncated e \<longrightarrow> bytes = bytes_in de)) \<and>
     (\<forall>files. be_subtree_file_count e = Some files \<longrightarrow> files \<le> files_in de \<and> files \<le> nat (br_size_max_entries request) \<and>
       (\<not> be_subtree_truncated e \<longrightarrow> files = files_in de))"

lemma browse_entry_of_describes:
  assumes "di_stat de = Some st" "sizes_ok de"
  shows "describes request (browse_entry_of request clock de st) de"
proof -
  obtain bytes files stop where b: "bounded_subtree de (nat (br_size_max_entries request)) (clock (di_name de)) = (bytes, files, stop)"
    by (metis prod.collapse)
  show ?thesis using bounded_subtree_sum [OF b _ assms(2)] assms(1) b
    by (cases "br_with_sizes request \<and> real_dir de") (auto simp: describes_def browse_entry_of_def Let_def)
qed

text \<open>C36. A listing is complete and its sizes are exact, or it says otherwise. It has at most the entries asked for;
  unless it is marked as truncated there is one entry for each readable item of the directory, folders first and
  in order of their names; and the size and the number of files beneath a folder are those of the tree, links
  left out, or marked as truncated and then not more than them. Nothing is sized through a link.\<close>

theorem listing_exact_or_marked:
  assumes "target (br_path request) = Listable items broken" "1 \<le> br_max_entries request" "list_all sizes_ok items"
    and "list_directory clock target request = result" "bw_error result = None"
  shows "int (length (bw_entries result)) \<le> br_max_entries request \<and> sorted (map picker_order (bw_entries result)) \<and>
    (\<exists>es des. mset es = mset (bw_entries result) \<and> prefix des (filter readable items) \<and> list_all2 (describes request) es des \<and>
      (\<not> bw_truncated result \<longrightarrow> des = filter readable items))"
proof -
  obtain es truncated where l: "list_entries request clock items [] = (es, truncated)" by fastforce
  have r: "bw_entries result = sort_key picker_order es" "bw_truncated result = truncated"
    using assms(1,4,5) l by (auto simp: list_directory_def browse_failed_def split: option.splits bool.splits)
  obtain n where n: "es = map (\<lambda>de. browse_entry_of request clock de (the (di_stat de))) (take n (filter readable items))"
    "int (length es) \<le> br_max_entries request" "\<not> truncated \<longrightarrow> take n (filter readable items) = filter readable items"
    using list_entries_spec [OF l] assms(2) by (metis append_Nil list.size(3) of_nat_0 order_trans zero_le_one)
  have "describes request (browse_entry_of request clock de (the (di_stat de))) de" if "de \<in> set (take n (filter readable items))" for de
  proof -
    have "de \<in> set (filter readable items)" using that by (rule in_set_takeD)
    then have "readable de" "sizes_ok de" using assms(3) by (auto simp: list_all_iff)
    then show ?thesis by (auto simp: readable_def intro: browse_entry_of_describes)
  qed
  then have "list_all2 (describes request) es (take n (filter readable items))"
    unfolding n(1) by (simp add: list_all2_map1 list_all2_same)
  moreover have "prefix (take n (filter readable items)) (filter readable items)" by (rule take_is_prefix)
  ultimately show ?thesis using r n(2,3) by (simp, metis mset_sort)
qed

section \<open>The serve loop\<close>

datatype browse_poll = Browse_Broken | Browse_Idle | Browse_Claimed signed_browse int

definition handle_browse ::
    "(string \<Rightarrow> nat \<Rightarrow> bool) \<Rightarrow> (string \<Rightarrow> dir_target) \<Rightarrow> (signed_browse \<Rightarrow> bool) \<Rightarrow> string \<Rightarrow> signed_browse \<Rightarrow> int
      \<Rightarrow> sqlite_ledger \<Rightarrow> browse_result option \<times> sqlite_ledger" where
  "handle_browse clock target verify_signature host_id signed now ledger =
     (case verify_browse_request verify_signature sqlite_consume signed host_id now ledger of
        (Inl (Ledger_Broke e), ledger) \<Rightarrow> (None, ledger)
      | (Inl _, ledger) \<Rightarrow> (Some (browse_failed (bs_request signed) ''request could not be served''), ledger)
      | (Inr request, ledger) \<Rightarrow> (Some (list_directory clock target request), ledger))"

fun browse_loop ::
    "(string \<Rightarrow> nat \<Rightarrow> bool) \<Rightarrow> (string \<Rightarrow> dir_target) \<Rightarrow> (signed_browse \<Rightarrow> bool) \<Rightarrow> string \<Rightarrow> browse_poll list
      \<Rightarrow> sqlite_ledger \<Rightarrow> browse_result list \<times> sqlite_ledger" where
  "browse_loop clock target v host [] l = ([], l)"
| "browse_loop clock target v host (Browse_Broken # polls) l = browse_loop clock target v host polls l"
| "browse_loop clock target v host (Browse_Idle # polls) l = browse_loop clock target v host polls l"
| "browse_loop clock target v host (Browse_Claimed signed now # polls) l =
     (case handle_browse clock target v host signed now l of
        (None, l) \<Rightarrow> ([], l)
      | (Some r, l) \<Rightarrow> (case browse_loop clock target v host polls l of (rs, l) \<Rightarrow> (r # rs, l)))"

text \<open>A request that does not verify is answered, with nothing of the file system in the answer.\<close>

lemma handle_browse_refuses:
  assumes "handle_browse clock target v host signed now l = (Some r, l')"
  shows "browse_admissible v host now signed \<and> br_nonce (bs_request signed) \<notin> sqlite_used l \<and>
      r = list_directory clock target (bs_request signed) \<or>
    r = browse_failed (bs_request signed) ''request could not be served''"
  using assms sqlite.verify_browse_once [of v signed host now l "bs_request signed" l']
  by (auto simp: handle_browse_def verify_browse_Inr split: prod.splits sum.splits envelope_error.splits)

section \<open>An example\<close>

definition sample_items :: "dir_item list" where
  "sample_items =
     [Dir_Item ''f'' False False (Some (3, 0)) None, Dir_Item ''gone'' False False None None,
      Dir_Item ''d'' False True (Some (2, 0)) (Some
        [Dir_Item ''a'' False False (Some (10, 0)) None, Dir_Item ''l'' True False (Some (7, 0)) None])]"

abbreviation sample_listing :: browse_result where
  "sample_listing \<equiv> list_directory (\<lambda>_ _. False) (\<lambda>_. Listable sample_items None) (sample_browse\<lparr> br_size_max_entries := 5 \<rparr>)"

theorem listing_exact_or_marked_witness:
  "map be_name (bw_entries sample_listing) = [''d'', ''f''] \<and> map be_subtree_size (bw_entries sample_listing) = [Some 10, None] \<and>
   sorted (map picker_order (bw_entries sample_listing))"
proof -
  let ?r = "sample_browse\<lparr> br_size_max_entries := 5 \<rparr>"
  have "1 \<le> br_max_entries ?r" "list_all sizes_ok sample_items" "bw_error sample_listing = None" by code_simp+
  from listing_exact_or_marked [of "\<lambda>_. Listable sample_items None" ?r, OF refl this(1,2) refl this(3)]
  have "sorted (map picker_order (bw_entries sample_listing))" by blast
  moreover have "map be_name (bw_entries sample_listing) = [''d'', ''f'']"
    "map be_subtree_size (bw_entries sample_listing) = [Some 10, None]" by code_simp+
  ultimately show ?thesis by simp
qed

end
