(* ===== verification/Pull_Queue.thy ===== *)
theory Pull_Queue
  imports Preview Browse_Lister Job_Queue
begin

text \<open>
  The rendezvous of the core with an agent that only ever calls in: signed requests wait in a queue per host
  until the host polls, and whoever asked waits for the result (\<open>preview/pull.py\<close> for grants and bytes,
  \<open>core/browse.py\<close> for directory listings). The two classes have the same body; it is written once, over the
  type of the requests and of the results, and instantiated for each.

  A step is what runs between two awaits of the event loop: a request put in the queue, a poll, a delivery,
  a timer, and a waiter that wakes up. A host nobody has asked for has an empty queue.
\<close>

section \<open>The queue\<close>

datatype 'a pull_future = Awaiting | Delivered 'a | Refused string | Timed_Out

record ('q, 'a) pull_queue =
  pq_queues :: "string \<Rightarrow> 'q list"
  pq_results :: "string \<Rightarrow> 'a pull_future option"
  pq_host :: "string \<Rightarrow> string option"

definition pull_new :: "('q, 'a) pull_queue" where
  "pull_new = \<lparr> pq_queues = (\<lambda>_. []), pq_results = Map.empty, pq_host = Map.empty \<rparr>"

datatype correlation = Duplicate_In_Flight | Unknown_Or_Resolved | Scope_Mismatch | Resolved_Before

text \<open>The part of \<open>enqueue_and_wait\<close> before it waits, and its \<open>finally\<close>.\<close>

definition pull_enqueue :: "string \<Rightarrow> 'q \<Rightarrow> string \<Rightarrow> ('q, 'a) pull_queue \<Rightarrow> (correlation, ('q, 'a) pull_queue) result" where
  "pull_enqueue key item host q =
     (if pq_results q key \<noteq> None then Inl Duplicate_In_Flight
      else Inr (q\<lparr>pq_results := (pq_results q)(key \<mapsto> Awaiting), pq_host := (pq_host q)(key \<mapsto> host),
                  pq_queues := (pq_queues q)(host := pq_queues q host @ [item])\<rparr>))"

definition pull_forget :: "string \<Rightarrow> ('q, 'a) pull_queue \<Rightarrow> ('q, 'a) pull_queue" where
  "pull_forget key q = q\<lparr>pq_results := (pq_results q)(key := None), pq_host := (pq_host q)(key := None)\<rparr>"

definition set_future :: "string \<Rightarrow> 'a pull_future \<Rightarrow> ('q, 'a) pull_queue \<Rightarrow> ('q, 'a) pull_queue" where
  "set_future key f q = (if pq_results q key = Some Awaiting then q\<lparr>pq_results := (pq_results q)(key \<mapsto> f)\<rparr> else q)"

text \<open>The loop of \<open>poll\<close>; the long wait is over when the queue is empty.\<close>

fun pull_loop ::
    "('q \<Rightarrow> string) \<Rightarrow> ('q \<Rightarrow> bool) \<Rightarrow> string \<Rightarrow> 'q list \<Rightarrow> ('q, 'a) pull_queue \<Rightarrow> 'q option \<times> 'q list \<times> ('q, 'a) pull_queue" where
  "pull_loop key_of expired reason [] q = (None, [], q)"
| "pull_loop key_of expired reason (item # items) q =
     (if expired item then pull_loop key_of expired reason items (set_future (key_of item) (Refused reason) q)
      else (Some item, items, q))"

definition pull_poll ::
    "('q \<Rightarrow> string) \<Rightarrow> ('q \<Rightarrow> bool) \<Rightarrow> string \<Rightarrow> string \<Rightarrow> ('q, 'a) pull_queue \<Rightarrow> 'q option \<times> ('q, 'a) pull_queue" where
  "pull_poll key_of expired reason host q =
     (case pull_loop key_of expired reason (pq_queues q host) q of
        (claimed, items, q) \<Rightarrow> (claimed, q\<lparr>pq_queues := (pq_queues q)(host := items)\<rparr>))"

definition pull_resolve ::
    "string \<Rightarrow> string \<Rightarrow> 'a pull_future \<Rightarrow> ('q, 'a) pull_queue \<Rightarrow> (correlation, ('q, 'a) pull_queue) result" where
  "pull_resolve key host outcome q =
     (if pq_results q key = None \<or> pq_host q key = None then Inl Unknown_Or_Resolved
      else if pq_host q key \<noteq> Some host then Inl Scope_Mismatch
      else if pq_results q key \<noteq> Some Awaiting then Inl Resolved_Before
      else Inr (q\<lparr>pq_results := (pq_results q)(key \<mapsto> outcome)\<rparr>))"

section \<open>Its two uses\<close>

type_synonym preview_pulls = "(signed_grant \<times> nat, string) pull_queue"
type_synonym browse_pulls = "(signed_browse, browse_result) pull_queue"

definition grant_expired :: "int \<Rightarrow> signed_grant \<times> nat \<Rightarrow> bool" where
  "grant_expired now item \<longleftrightarrow> as_utc (fg_expires_at (gs_grant (fst item))) \<le> now"

definition preview_poll :: "string \<Rightarrow> int \<Rightarrow> preview_pulls \<Rightarrow> (signed_grant \<times> nat) option \<times> preview_pulls" where
  "preview_poll host now = pull_poll (\<lambda>item. fg_grant_id (gs_grant (fst item))) (grant_expired now)
     ''grant expired before an agent claimed it'' host"

definition preview_deliver :: "string \<Rightarrow> string \<Rightarrow> string \<Rightarrow> preview_pulls \<Rightarrow> (correlation, preview_pulls) result" where
  "preview_deliver grant_id host data = pull_resolve grant_id host (Delivered data)"

definition preview_fail :: "string \<Rightarrow> string \<Rightarrow> string \<Rightarrow> preview_pulls \<Rightarrow> (correlation, preview_pulls) result" where
  "preview_fail grant_id host reason = pull_resolve grant_id host (Refused reason)"

definition browse_expired :: "int \<Rightarrow> signed_browse \<Rightarrow> bool" where
  "browse_expired now item \<longleftrightarrow> as_utc (br_expires_at (bs_request item)) \<le> now"

definition browse_queue_poll :: "string \<Rightarrow> int \<Rightarrow> browse_pulls \<Rightarrow> signed_browse option \<times> browse_pulls" where
  "browse_queue_poll host now = pull_poll (\<lambda>item. br_request_id (bs_request item)) (browse_expired now)
     ''request expired before being claimed'' host"

definition browse_deliver :: "string \<Rightarrow> browse_result \<Rightarrow> browse_pulls \<Rightarrow> (correlation, browse_pulls) result" where
  "browse_deliver host r = pull_resolve (bw_request_id r) host (Delivered r)"

section \<open>Runs\<close>

datatype ('q, 'a) pull_event =
    Put string 'q string
  | Ask string "'q \<Rightarrow> bool"
  | Give string string "'a pull_future"
  | Time_Up string
  | Wake_Up string

datatype ('q, 'a) pull_output = Taken | Rejected correlation | Handed 'q | Nothing | Ended "'a pull_future"

text \<open>A waiter whose future is done returns or raises, and always forgets its request.\<close>

fun pull_step ::
    "('q \<Rightarrow> string) \<Rightarrow> string \<Rightarrow> ('q, 'a) pull_event \<Rightarrow> ('q, 'a) pull_queue \<Rightarrow> ('q, 'a) pull_output \<times> ('q, 'a) pull_queue" where
  "pull_step key_of reason (Put key item host) q =
     (case pull_enqueue key item host q of Inl e \<Rightarrow> (Rejected e, q) | Inr q \<Rightarrow> (Taken, q))"
| "pull_step key_of reason (Ask host expired) q =
     (case pull_poll key_of expired reason host q of
        (None, q) \<Rightarrow> (Nothing, q)
      | (Some item, q) \<Rightarrow> (Handed item, q))"
| "pull_step key_of reason (Give key host outcome) q =
     (case pull_resolve key host outcome q of Inl e \<Rightarrow> (Rejected e, q) | Inr q \<Rightarrow> (Taken, q))"
| "pull_step key_of reason (Time_Up key) q = (Nothing, set_future key Timed_Out q)"
| "pull_step key_of reason (Wake_Up key) q =
     (case pq_results q key of
        None \<Rightarrow> (Nothing, q)
      | Some f \<Rightarrow> if f = Awaiting then (Nothing, q) else (Ended f, pull_forget key q))"

fun pull_run ::
    "('q \<Rightarrow> string) \<Rightarrow> string \<Rightarrow> ('q, 'a) pull_event list \<Rightarrow> ('q, 'a) pull_queue
      \<Rightarrow> (('q, 'a) pull_event \<times> ('q, 'a) pull_output) list \<times> ('q, 'a) pull_queue" where
  "pull_run key_of reason [] q = ([], q)"
| "pull_run key_of reason (ev # evs) q =
     (case pull_step key_of reason ev q of (out, q) \<Rightarrow>
        (case pull_run key_of reason evs q of (tr, q) \<Rightarrow> ((ev, out) # tr, q)))"

lemma pull_run_snoc:
  "pull_run key_of reason (evs @ [ev]) q =
     (case pull_run key_of reason evs q of (tr, q) \<Rightarrow>
        (case pull_step key_of reason ev q of (out, q) \<Rightarrow> (tr @ [(ev, out)], q)))"
  by (induction evs arbitrary: q) (auto split: prod.splits)

section \<open>A result comes from the host that was asked\<close>

text \<open>Events that begin or end a request of a key.\<close>

fun turns :: "string \<Rightarrow> ('q, 'a) pull_event \<times> ('q, 'a) pull_output \<Rightarrow> bool" where
  "turns key (Put k item host, Taken) = (k = key)"
| "turns key (Wake_Up k, Ended f) = (k = key)"
| "turns key _ = False"

text \<open>The trace explains the state of a key: its request is the last that was taken, and its outcome was
  given since by the host of that request, or is a refusal or a time-out of the core's own.\<close>

definition explained ::
    "string \<Rightarrow> (('q, 'a) pull_event \<times> ('q, 'a) pull_output) list \<Rightarrow> string \<Rightarrow> string \<Rightarrow> 'a pull_future \<Rightarrow> bool" where
  "explained reason tr key host f \<longleftrightarrow> (\<exists>pre item mid. tr = pre @ (Put key item host, Taken) # mid \<and>
     (\<forall>x \<in> set mid. \<not> turns key x) \<and>
     (f \<in> {Awaiting, Refused reason, Timed_Out} \<or> (Give key host f, Taken) \<in> set mid))"

definition pull_inv ::
    "string \<Rightarrow> (('q, 'a) pull_event \<times> ('q, 'a) pull_output) list \<Rightarrow> ('q, 'a) pull_queue \<Rightarrow> bool" where
  "pull_inv reason tr q \<longleftrightarrow> (\<forall>key. (pq_results q key = None \<longleftrightarrow> pq_host q key = None) \<and>
     (\<forall>f host. pq_results q key = Some f \<longrightarrow> pq_host q key = Some host \<longrightarrow> explained reason tr key host f))"

lemma explained_more:
  assumes "explained reason tr key host f" "\<not> turns key x"
  shows "explained reason (tr @ [x]) key host f"
proof -
  from assms(1) obtain pre item mid where "tr = pre @ (Put key item host, Taken) # mid" "\<forall>x \<in> set mid. \<not> turns key x"
    "f \<in> {Awaiting, Refused reason, Timed_Out} \<or> (Give key host f, Taken) \<in> set mid" unfolding explained_def by blast
  with assms(2) show ?thesis unfolding explained_def
    by (intro exI [of _ pre] exI [of _ item] exI [of _ "mid @ [x]"]) auto
qed

lemma explained_outcome:
  assumes "explained reason tr key host Awaiting" "\<not> turns key x"
    and "g \<in> {Refused reason, Timed_Out} \<or> x = (Give key host g, Taken)"
  shows "explained reason (tr @ [x]) key host g"
proof -
  from assms(1) obtain pre item mid where "tr = pre @ (Put key item host, Taken) # mid" "\<forall>x \<in> set mid. \<not> turns key x"
    unfolding explained_def by blast
  with assms(2,3) show ?thesis unfolding explained_def
    by (intro exI [of _ pre] exI [of _ item] exI [of _ "mid @ [x]"]) auto
qed

lemma pull_loop_frame:
  assumes "pull_loop key_of expired reason items q = (claimed, rest, q')"
  shows "pq_host q' = pq_host q \<and> pq_queues q' = pq_queues q \<and>
    (\<forall>key. pq_results q' key = pq_results q key \<or>
       pq_results q key = Some Awaiting \<and> pq_results q' key = Some (Refused reason)) \<and>
    (\<exists>gone. items = gone @ (case claimed of None \<Rightarrow> [] | Some i \<Rightarrow> [i]) @ rest)"
  using assms
proof (induction items arbitrary: q)
  case (Cons item items)
  show ?case
  proof (cases "expired item")
    case True
    with Cons.prems have "pull_loop key_of expired reason items (set_future (key_of item) (Refused reason) q) = (claimed, rest, q')"
      by simp
    from Cons.IH [OF this] obtain gone where
      IH: "pq_host q' = pq_host q" "pq_queues q' = pq_queues q"
        "\<forall>key. pq_results q' key = pq_results (set_future (key_of item) (Refused reason) q) key \<or>
          pq_results (set_future (key_of item) (Refused reason) q) key = Some Awaiting \<and> pq_results q' key = Some (Refused reason)"
        "items = gone @ (case claimed of None \<Rightarrow> [] | Some i \<Rightarrow> [i]) @ rest"
      by (auto simp: set_future_def split: if_splits)
    have "pq_results q' key = pq_results q key \<or> pq_results q key = Some Awaiting \<and> pq_results q' key = Some (Refused reason)" for key
      using IH(3) [rule_format, of key] by (auto simp: set_future_def split: if_splits)
    with IH show ?thesis by (intro conjI exI [of _ "item # gone"]) auto
  next
    case False
    with Cons.prems show ?thesis by auto
  qed
qed auto

lemma pull_inv_same:
  assumes "pull_inv reason tr q" "pq_results q' = pq_results q" "pq_host q' = pq_host q" "\<And>key. \<not> turns key x"
  shows "pull_inv reason (tr @ [x]) q'"
  using assms explained_more unfolding pull_inv_def by metis

text \<open>A step that changes the outcome of awaited requests only.\<close>

lemma pull_inv_outcome:
  assumes "pull_inv reason tr q" "pq_host q' = pq_host q" "\<And>key. \<not> turns key x"
    and "\<And>key. pq_results q' key = pq_results q key \<or> (\<exists>g. pq_results q key = Some Awaiting \<and> pq_results q' key = Some g \<and>
      (g \<in> {Refused reason, Timed_Out} \<or> (\<exists>host. pq_host q key = Some host \<and> x = (Give key host g, Taken))))"
  shows "pull_inv reason (tr @ [x]) q'"
  unfolding pull_inv_def
proof (intro allI conjI impI)
  fix key
  show "(pq_results q' key = None) = (pq_host q' key = None)"
    using assms(1,2,4) [unfolded pull_inv_def] by (metis option.distinct(1))
  fix f host assume f: "pq_results q' key = Some f" "pq_host q' key = Some host"
  from assms(4) [of key] show "explained reason (tr @ [x]) key host f"
  proof (elim disjE exE conjE)
    assume "pq_results q' key = pq_results q key"
    with f assms(1,2) have "explained reason tr key host f" unfolding pull_inv_def by metis
    then show ?thesis by (rule explained_more [OF _ assms(3)])
  next
    fix g assume g: "pq_results q key = Some Awaiting" "pq_results q' key = Some g"
    with f assms(1,2) have aw: "explained reason tr key host Awaiting" unfolding pull_inv_def by metis
    { assume "g \<in> {Refused reason, Timed_Out}"
      with aw assms(3) f(1) g(2) show ?thesis by (auto intro: explained_outcome)
    next
      fix h assume "pq_host q key = Some h" "x = (Give key h g, Taken)"
      with aw assms(2,3) f g(2) show ?thesis by (auto intro: explained_outcome)
    }
  qed
qed

lemma pull_step_inv:
  assumes "pull_inv reason tr q" "pull_step key_of reason ev q = (out, q')"
  shows "pull_inv reason (tr @ [(ev, out)]) q'"
proof (cases ev)
  case (Put key item host)
  show ?thesis
  proof (cases "pq_results q key = None")
    case False
    with assms Put have "q' = q" "\<exists>e. out = Rejected e" by (auto simp: pull_enqueue_def)
    with assms(1) Put show ?thesis by (auto intro: pull_inv_same)
  next
    case True
    with assms Put have q': "out = Taken" "pq_results q' = (pq_results q)(key \<mapsto> Awaiting)" "pq_host q' = (pq_host q)(key \<mapsto> host)"
      by (auto simp: pull_enqueue_def)
    have "explained reason (tr @ [(ev, out)]) key host Awaiting"
      unfolding explained_def using Put q'(1) by (intro exI [of _ tr] exI [of _ item] exI [of _ "[]"]) simp
    moreover have "explained reason (tr @ [(ev, out)]) k h f"
      if "k \<noteq> key" "pq_results q k = Some f" "pq_host q k = Some h" for k h f
      using that assms(1) Put q'(1) unfolding pull_inv_def by (intro explained_more) auto
    ultimately show ?thesis using assms(1) q' unfolding pull_inv_def by auto
  qed
next
  case (Ask host expired)
  obtain c rest v where l: "pull_loop key_of expired reason (pq_queues q host) q = (c, rest, v)" by (metis prod.collapse)
  with assms(2) Ask have q': "pq_results q' = pq_results v" "pq_host q' = pq_host v" "out = (case c of None \<Rightarrow> Nothing | Some i \<Rightarrow> Handed i)"
    by (auto simp: pull_poll_def split: option.splits)
  have "\<not> turns key (ev, out)" for key using Ask by simp
  with pull_loop_frame [OF l] assms(1) q' show ?thesis by (intro pull_inv_outcome [OF assms(1)]) auto
next
  case (Give key host outcome)
  have nt: "\<not> turns k (ev, out)" for k using Give by simp
  show ?thesis
  proof (cases "pq_host q key = Some host \<and> pq_results q key = Some Awaiting")
    case False
    with assms Give have "q' = q" by (auto simp: pull_resolve_def split: if_splits)
    with assms(1) nt show ?thesis by (auto intro: pull_inv_same)
  next
    case True
    with assms Give have "out = Taken" "q' = q\<lparr>pq_results := (pq_results q)(key \<mapsto> outcome)\<rparr>" by (auto simp: pull_resolve_def)
    with True nt Give show ?thesis by (intro pull_inv_outcome [OF assms(1)]) auto
  qed
next
  case (Time_Up key)
  with assms show ?thesis by (intro pull_inv_outcome [OF assms(1)]) (auto simp: set_future_def split: if_splits)
next
  case (Wake_Up key)
  show ?thesis
  proof (cases "\<exists>f. pq_results q key = Some f \<and> f \<noteq> Awaiting")
    case False
    with assms Wake_Up have "q' = q" "out = Nothing" by (auto split: option.splits)
    with assms(1) Wake_Up show ?thesis by (auto intro: pull_inv_same)
  next
    case True
    then obtain f where f: "pq_results q key = Some f" "f \<noteq> Awaiting" by blast
    with assms Wake_Up have q': "out = Ended f" "q' = pull_forget key q" by auto
    have "explained reason (tr @ [(ev, out)]) k h g"
      if "k \<noteq> key" "pq_results q k = Some g" "pq_host q k = Some h" for k h g
      using that assms(1) Wake_Up q'(1) unfolding pull_inv_def by (intro explained_more) auto
    with assms(1) q'(2) show ?thesis unfolding pull_inv_def by (auto simp: pull_forget_def)
  qed
qed

lemma pull_run_inv: "pull_run key_of reason evs pull_new = (tr, q) \<Longrightarrow> pull_inv reason tr q"
proof (induction evs arbitrary: tr q rule: rev_induct)
  case Nil
  then show ?case by (auto simp: pull_inv_def pull_new_def)
next
  case (snoc ev evs)
  obtain tr1 q1 where r: "pull_run key_of reason evs pull_new = (tr1, q1)" by fastforce
  obtain out q2 where st: "pull_step key_of reason ev q1 = (out, q2)" by fastforce
  with snoc.prems r have "tr = tr1 @ [(ev, out)]" "q = q2" by (simp_all add: pull_run_snoc)
  with pull_step_inv [OF snoc.IH [OF r] st] show ?case by simp
qed

section \<open>Requests are handed out in order, each at most once\<close>

text \<open>What was put in for a host, and what polls of the host were handed.\<close>

fun put_for :: "string \<Rightarrow> (('q, 'a) pull_event \<times> ('q, 'a) pull_output) list \<Rightarrow> 'q list" where
  "put_for host [] = []"
| "put_for host ((Put key item h, Taken) # tr) = (if h = host then item # put_for host tr else put_for host tr)"
| "put_for host (x # tr) = put_for host tr"

fun handed_to :: "string \<Rightarrow> (('q, 'a) pull_event \<times> ('q, 'a) pull_output) list \<Rightarrow> 'q list" where
  "handed_to host [] = []"
| "handed_to host ((Ask h expired, Handed item) # tr) = (if h = host then item # handed_to host tr else handed_to host tr)"
| "handed_to host (x # tr) = handed_to host tr"

lemma put_for_append: "put_for host (tr @ us) = put_for host tr @ put_for host us"
  by (induction host tr rule: put_for.induct) auto

lemma handed_to_append: "handed_to host (tr @ us) = handed_to host tr @ handed_to host us"
  by (induction host tr rule: handed_to.induct) auto

lemma pull_run_fifo:
  "pull_run key_of reason evs pull_new = (tr, q) \<Longrightarrow> subseq (handed_to host tr @ pq_queues q host) (put_for host tr)"
proof (induction evs arbitrary: tr q rule: rev_induct)
  case Nil
  then show ?case by (auto simp: pull_new_def)
next
  case (snoc ev evs)
  obtain tr1 q1 where r: "pull_run key_of reason evs pull_new = (tr1, q1)" by fastforce
  obtain out q2 where st: "pull_step key_of reason ev q1 = (out, q2)" by fastforce
  with snoc.prems r have tr: "tr = tr1 @ [(ev, out)]" "q = q2" by (simp_all add: pull_run_snoc)
  note IH = snoc.IH [OF r]
  have same: ?case if "pq_queues q2 = pq_queues q1" "put_for host [(ev, out)] = []" "handed_to host [(ev, out)] = []"
    using IH that tr by (simp add: put_for_append handed_to_append)
  show ?case
  proof (cases ev)
    case (Put key item h)
    show ?thesis
    proof (cases "out = Taken \<and> h = host")
      case True
      with st Put have "pq_queues q2 host = pq_queues q1 host @ [item]" "put_for host [(ev, out)] = [item]" "handed_to host [(ev, out)] = []"
        by (auto simp: pull_enqueue_def split: if_splits)
      with IH tr show ?thesis by (simp add: put_for_append handed_to_append flip: append_assoc)
    next
      case False
      with st Put have "pq_queues q2 host = pq_queues q1 host" "put_for host [(ev, out)] = []" "handed_to host [(ev, out)] = []"
        by (auto simp: pull_enqueue_def split: if_splits)
      with IH tr show ?thesis by (simp add: put_for_append handed_to_append)
    qed
  next
    case (Ask h expired)
    obtain c rest v where l: "pull_loop key_of expired reason (pq_queues q1 h) q1 = (c, rest, v)" by (metis prod.collapse)
    with st Ask have q2: "pq_queues q2 = (pq_queues v)(h := rest)" "out = (case c of None \<Rightarrow> Nothing | Some i \<Rightarrow> Handed i)"
      by (auto simp: pull_poll_def split: option.splits)
    obtain gone where gone: "pq_queues v = pq_queues q1" "pq_queues q1 h = gone @ (case c of None \<Rightarrow> [] | Some i \<Rightarrow> [i]) @ rest"
      using pull_loop_frame [OF l] by blast
    have put: "put_for host [(ev, out)] = []" using Ask by simp
    show ?thesis
    proof (cases "h = host")
      case True
      have "handed_to host [(ev, out)] @ pq_queues q2 host = (case c of None \<Rightarrow> [] | Some i \<Rightarrow> [i]) @ rest"
        using True Ask q2 by (auto split: option.splits)
      moreover have "subseq ((case c of None \<Rightarrow> [] | Some i \<Rightarrow> [i]) @ rest) (pq_queues q1 host)"
        using gone(2) True by (simp add: list_emb_append2)
      ultimately have "subseq (handed_to host [(ev, out)] @ pq_queues q2 host) (pq_queues q1 host)" by simp
      then have "subseq (handed_to host tr1 @ handed_to host [(ev, out)] @ pq_queues q2 host) (handed_to host tr1 @ pq_queues q1 host)"
        by (rule list_emb_append_mono [OF subseq_order.order_refl])
      with IH have "subseq (handed_to host tr1 @ handed_to host [(ev, out)] @ pq_queues q2 host) (put_for host tr1)"
        by (rule subseq_order.order_trans [rotated])
      with put tr show ?thesis by (simp add: put_for_append handed_to_append)
    next
      case False
      with q2 gone(1) Ask have "pq_queues q2 host = pq_queues q1 host" "handed_to host [(ev, out)] = []"
        by (auto split: option.splits)
      with IH put tr show ?thesis by (simp add: put_for_append handed_to_append)
    qed
  next
    case (Give key h outcome)
    with st show ?thesis by (intro same) (auto simp: pull_resolve_def split: if_splits)
  next
    case (Time_Up key)
    with st show ?thesis by (intro same) (auto simp: set_future_def)
  next
    case (Wake_Up key)
    with st show ?thesis by (intro same) (auto simp: pull_forget_def split: option.splits if_splits)
  qed
qed

text \<open>C17. The rendezvous answers in scope. Whatever requests, polls, deliveries, timers and wake-ups come in whatever
  order: a waiter that ends with a result was given it, after its own request was taken and before any other of
  that key, by the host the request was addressed to; and a host is handed requests addressed to it, in the order
  they were put in and each at most once.\<close>

theorem pull_answers_in_scope:
  assumes "pull_run key_of reason evs (pull_new :: ('q, 'a) pull_queue) = (tr @ (Wake_Up key, Ended (Delivered a)) # rest, q)"
  shows "(\<exists>host. explained reason tr key host (Delivered a)) \<and>
    (\<forall>host. subseq (handed_to host tr) (put_for host tr))"
proof -
  have split: "\<exists>evs1 evs2 q1. evs = evs1 @ evs2 \<and> pull_run key_of reason evs1 s = (t1, q1) \<and> pull_run key_of reason evs2 q1 = (t2, q)"
    if "pull_run key_of reason evs s = (t1 @ t2, q)" for evs s t1 t2 and q :: "('q, 'a) pull_queue"
    using that
  proof (induction evs arbitrary: s t1)
    case (Cons ev evs)
    show ?case
    proof (cases t1)
      case Nil
      with Cons.prems show ?thesis by (intro exI [of _ "[]"] exI [of _ "ev # evs"] exI [of _ s]) simp
    next
      case (Cons x t)
      with Cons.prems obtain v where v: "pull_step key_of reason ev s = (snd x, v)" "fst x = ev" "pull_run key_of reason evs v = (t @ t2, q)"
        by (auto split: prod.splits)
      from Cons.IH [OF v(3)] obtain e1 e2 q1 where
        "evs = e1 @ e2" "pull_run key_of reason e1 v = (t, q1)" "pull_run key_of reason e2 q1 = (t2, q)" by blast
      with v Cons show ?thesis by (intro exI [of _ "ev # e1"] exI [of _ e2] exI [of _ q1]) auto
    qed
  qed auto
  from split [OF assms] obtain evs1 evs2 q1 where r: "pull_run key_of reason evs1 pull_new = (tr, q1)"
    "pull_run key_of reason evs2 q1 = ((Wake_Up key, Ended (Delivered a)) # rest, q)" by blast
  from r(2) have "pq_results q1 key = Some (Delivered a)"
    by (cases evs2) (auto split: prod.splits option.splits if_splits)
  with pull_run_inv [OF r(1), unfolded pull_inv_def, THEN spec, of key]
  obtain host where "explained reason tr key host (Delivered a)" by auto
  moreover have "subseq (handed_to host tr) (put_for host tr)" for host
    by (rule subseq_order.order_trans [OF list_emb_prefix [OF subseq_order.order_refl] pull_run_fifo [OF r(1)]])
  ultimately show ?thesis by blast
qed

section \<open>The routes\<close>

definition browse_poll_route :: "host_table \<Rightarrow> bool \<Rightarrow> string \<Rightarrow> int \<Rightarrow> browse_pulls \<Rightarrow> (http_status \<times> signed_browse option) \<times> browse_pulls" where
  "browse_poll_route ht on fingerprint now q =
     (if \<not> on then ((No_Content_204, None), q)
      else case ht fingerprint of
             None \<Rightarrow> ((Forbidden_403, None), q)
           | Some name \<Rightarrow>
               (case browse_queue_poll name now q of
                  (None, q) \<Rightarrow> ((No_Content_204, None), q)
                | (Some signed, q) \<Rightarrow> ((Ok_200, Some signed), q)))"

definition browse_result_route :: "host_table \<Rightarrow> bool \<Rightarrow> string \<Rightarrow> browse_result \<Rightarrow> browse_pulls \<Rightarrow> http_status \<times> browse_pulls" where
  "browse_result_route ht on fingerprint r q =
     (if \<not> on then (Conflict_409, q)
      else case ht fingerprint of
             None \<Rightarrow> (Forbidden_403, q)
           | Some name \<Rightarrow> (case browse_deliver name r q of Inl e \<Rightarrow> (Conflict_409, q) | Inr q \<Rightarrow> (Ok_200, q)))"

definition grant_poll_route ::
    "host_table \<Rightarrow> bool \<Rightarrow> string \<Rightarrow> int \<Rightarrow> preview_pulls \<Rightarrow> (http_status \<times> (signed_grant \<times> nat) option) \<times> preview_pulls" where
  "grant_poll_route ht on fingerprint now q =
     (if \<not> on then ((No_Content_204, None), q)
      else case ht fingerprint of
             None \<Rightarrow> ((Forbidden_403, None), q)
           | Some name \<Rightarrow>
               (case preview_poll name now q of
                  (None, q) \<Rightarrow> ((No_Content_204, None), q)
                | (Some claimed, q) \<Rightarrow> ((Ok_200, Some claimed), q)))"

text \<open>The body of a serve request carries the bytes in base64 or an error, never both. \<open>b64decode\<close> with
  \<open>validate=True\<close> refuses what is not exactly an encoding.\<close>

record serve_request =
  sr_grant_id :: string
  sr_data_b64 :: "string option"
  sr_error :: "string option"

definition serve_request_valid :: "serve_request \<Rightarrow> bool" where
  "serve_request_valid r \<longleftrightarrow> (sr_data_b64 r = None) \<noteq> (sr_error r = None)"

datatype serve_status = Serve_Ok | Serve_Forbidden | Serve_Conflict | Serve_Too_Large | Serve_Malformed | Serve_Invalid

definition grant_serve_route ::
    "(string \<Rightarrow> string option) \<Rightarrow> host_table \<Rightarrow> bool \<Rightarrow> nat \<Rightarrow> string \<Rightarrow> serve_request \<Rightarrow> preview_pulls \<Rightarrow> serve_status \<times> preview_pulls" where
  "grant_serve_route decode_strict ht on max_input fingerprint r q =
     (if \<not> serve_request_valid r then (Serve_Invalid, q)
      else if \<not> on then (Serve_Conflict, q)
      else case ht fingerprint of
             None \<Rightarrow> (Serve_Forbidden, q)
           | Some name \<Rightarrow>
               (case sr_error r of
                  Some reason \<Rightarrow>
                    (case preview_fail (sr_grant_id r) name reason q of
                       Inl e \<Rightarrow> (Serve_Conflict, q) | Inr q \<Rightarrow> (Serve_Ok, q))
                | None \<Rightarrow>
                    (let data_b64 = the (sr_data_b64 r)
                     in if (max_input + 2) div 3 * 4 + 4 < length data_b64 then (Serve_Too_Large, q)
                        else case decode_strict data_b64 of
                               None \<Rightarrow> (Serve_Malformed, q)
                             | Some data \<Rightarrow>
                                 if max_input < length data then (Serve_Too_Large, q)
                                 else (case preview_deliver (sr_grant_id r) name data q of
                                         Inl e \<Rightarrow> (Serve_Conflict, q) | Inr q \<Rightarrow> (Serve_Ok, q)))))"

lemma served_within_cap:
  assumes "grant_serve_route decode ht on n fp r q = (Serve_Ok, q')" "pq_results q' (sr_grant_id r) = Some (Delivered data)"
    and "pq_results q (sr_grant_id r) \<noteq> Some (Delivered data)"
  shows "length data \<le> n"
  using assms
  by (auto simp: grant_serve_route_def preview_fail_def preview_deliver_def pull_resolve_def Let_def
      split: if_splits option.splits sum.splits)

section \<open>An example\<close>

abbreviation sample_pull_trace :: "((string, string) pull_event \<times> (string, string) pull_output) list" where
  "sample_pull_trace \<equiv> [(Put ''k'' ''req'' ''h1'', Taken), (Ask ''h1'' (\<lambda>_. False), Handed ''req''),
     (Give ''k'' ''h2'' (Delivered ''evil''), Rejected Scope_Mismatch), (Give ''k'' ''h1'' (Delivered ''ok''), Taken)]"

theorem pull_answers_in_scope_witness:
  "\<exists>host. explained ''late'' sample_pull_trace ''k'' host (Delivered ''ok'')"
proof -
  have "pull_run (\<lambda>_. ''k'') ''late'' [Put ''k'' ''req'' ''h1'', Ask ''h1'' (\<lambda>_. False), Give ''k'' ''h2'' (Delivered ''evil''),
      Give ''k'' ''h1'' (Delivered ''ok''), Wake_Up ''k''] pull_new =
    (sample_pull_trace @ (Wake_Up ''k'', Ended (Delivered ''ok'')) # [],
     snd (pull_run (\<lambda>_. ''k'') ''late'' [Put ''k'' ''req'' ''h1'', Ask ''h1'' (\<lambda>_. False), Give ''k'' ''h2'' (Delivered ''evil''),
      Give ''k'' ''h1'' (Delivered ''ok''), Wake_Up ''k''] pull_new))"
    by (simp add: pull_new_def pull_enqueue_def pull_poll_def pull_resolve_def)
  from pull_answers_in_scope [OF this] show ?thesis by blast
qed

end
