(* ===== verification/Finalize.thy ===== *)
theory Finalize
  imports Rollup Dedup_Service
begin

text \<open>
  What the server does after an agent has drained its changes (\<open>core/finalize.py\<close>): the rollups of the
  host's stale volumes are computed again, their open snapshots are closed with the totals of the
  mountpoint's row, and the report of duplicates is rebuilt when the host has ever had a full hash.
  A volume is finalized at most once in a call, so the two instants read for it are functions of its id.
\<close>

section \<open>The service\<close>

record finalize_result =
  fr_host_id :: int
  fr_volume_ids :: "int list"
  fr_rollup_rows :: nat
  fr_dup_groups :: nat

text \<open>The two grouped subqueries: \<open>max\<close> over the rows of a volume, no row when there are none.\<close>

definition max_opt :: "int list \<Rightarrow> int option" where
  "max_opt xs = (case xs of [] \<Rightarrow> None | x # xs \<Rightarrow> Some (fold max xs x))"

definition last_started :: "catalogue \<Rightarrow> int \<Rightarrow> int option" where
  "last_started c vid = max_opt (map sn_started (filter (\<lambda>s. sn_volume_id s = vid) (snapshots c)))"

definition last_computed :: "catalogue \<Rightarrow> int \<Rightarrow> int option" where
  "last_computed c vid = max_opt (map ru_computed_at (filter (\<lambda>r. ru_volume_id r = vid) (rollups c)))"

definition is_stale :: "catalogue \<Rightarrow> int \<Rightarrow> bool" where
  "is_stale c vid =
     (case last_started c vid of
        None \<Rightarrow> False
      | Some started \<Rightarrow> (case last_computed c vid of None \<Rightarrow> True | Some computed \<Rightarrow> computed \<le> started))"

definition stale_volume_ids :: "catalogue \<Rightarrow> int \<Rightarrow> int list" where
  "stale_volume_ids c host_id =
     sort (map v_id (filter (\<lambda>v. v_host_id v = host_id \<and> is_stale c (v_id v)) (volumes c)))"

definition close_snapshot :: "subtree_rollup \<Rightarrow> int \<Rightarrow> snapshot \<Rightarrow> snapshot" where
  "close_snapshot root now s =
     s\<lparr> sn_total_size := ru_total_size_on_disk root, sn_file_count := ru_file_count root, sn_finished := Some now \<rparr>"

definition finalize_snapshot_stats :: "int \<Rightarrow> int \<Rightarrow> catalogue \<Rightarrow> catalogue" where
  "finalize_snapshot_stats now volume_id c =
     (case find_row v_id volume_id (volumes c) of
        None \<Rightarrow> c
      | Some v \<Rightarrow>
          (case find_row (\<lambda>r. (ru_volume_id r, ru_path r)) (volume_id, v_mountpoint v) (rollups c) of
             None \<Rightarrow> c
           | Some root \<Rightarrow>
               c\<lparr> snapshots := update_where (\<lambda>s. sn_volume_id s = volume_id \<and> sn_finished s = None)
                    (close_snapshot root now) (snapshots c) \<rparr>))"

definition host_has_hashes :: "catalogue \<Rightarrow> int \<Rightarrow> bool" where
  "host_has_hashes c host_id =
     list_ex (\<lambda>e. e_full_hash e \<noteq> None \<and>
       list_ex (\<lambda>v. v_id v = e_volume_id e \<and> v_host_id v = host_id) (volumes c)) (entries c)"

definition rebuild_dedup :: "bool \<Rightarrow> int \<Rightarrow> catalogue \<Rightarrow> nat \<times> catalogue" where
  "rebuild_dedup build_dedup host_id c =
     (if \<not> build_dedup then (0, c)
      else if \<not> host_has_hashes c host_id then (0, c)
      else dedup_rebuild (Some estate_scope) rank_oldest_then_preferred_then_shortest (Some ''finalize'') True c)"

text \<open>\<open>computed vid\<close> and \<open>finished vid\<close> are the clock's readings in \<open>recompute_full\<close> and in
  \<open>_finalize_snapshot_stats\<close>. \<open>None\<close> is the \<open>ValueError\<close> of an unknown volume.\<close>

fun finalize_volumes :: "(int \<Rightarrow> int) \<Rightarrow> (int \<Rightarrow> int) \<Rightarrow> int list \<Rightarrow> nat \<Rightarrow> catalogue \<Rightarrow> (nat \<times> catalogue) option" where
  "finalize_volumes computed finished [] n0 c = Some (n0, c)"
| "finalize_volumes computed finished (vid # vids) n0 c =
     (case recompute_full (computed vid) vid c of
        None \<Rightarrow> None
      | Some (n, c) \<Rightarrow>
          finalize_volumes computed finished vids (n0 + n) (finalize_snapshot_stats (finished vid) vid c))"

definition finalize_host ::
  "bool \<Rightarrow> (int \<Rightarrow> int) \<Rightarrow> (int \<Rightarrow> int) \<Rightarrow> string \<Rightarrow> catalogue \<Rightarrow> (finalize_result \<times> catalogue) option" where
  "finalize_host build_dedup computed finished cert_fingerprint c =
     (case find_row h_fingerprint cert_fingerprint (hosts c) of
        None \<Rightarrow> Some (\<lparr> fr_host_id = 0, fr_volume_ids = [], fr_rollup_rows = 0, fr_dup_groups = 0 \<rparr>, c)
      | Some h \<Rightarrow>
          let volume_ids = stale_volume_ids c (h_id h)
          in (case finalize_volumes computed finished volume_ids 0 c of
                None \<Rightarrow> None
              | Some (total_rows, c) \<Rightarrow>
                  (case rebuild_dedup build_dedup (h_id h) c of
                     (ngroups, c) \<Rightarrow>
                       Some (\<lparr> fr_host_id = h_id h, fr_volume_ids = volume_ids, fr_rollup_rows = total_rows,
                               fr_dup_groups = ngroups \<rparr>, c))))"

section \<open>The largest of a column\<close>

lemma fold_max_int: "fold max xs (x :: int) = Max (set (x # xs))"
  by (rule Max.set_eq_fold [symmetric])

lemma max_opt_None [simp]: "max_opt xs = None \<longleftrightarrow> xs = []"
  by (simp add: max_opt_def split: list.splits)

lemma max_opt_Some: "max_opt xs = Some m \<longleftrightarrow> xs \<noteq> [] \<and> m = Max (set xs)"
  by (cases xs) (auto simp: max_opt_def fold_max_int simp del: list.set)

lemma max_opt_const: "(\<And>x. x \<in> set xs \<Longrightarrow> x = k) \<Longrightarrow> xs \<noteq> [] \<Longrightarrow> max_opt xs = Some k"
proof -
  assume a: "\<And>x. x \<in> set xs \<Longrightarrow> x = k" "xs \<noteq> []"
  then have "set xs = {k}" by (cases xs) auto
  with a(2) show "max_opt xs = Some k" by (simp add: max_opt_Some)
qed

lemma stale_ids_mem:
  "vid \<in> set (stale_volume_ids c h) \<longleftrightarrow> (\<exists>v \<in> set (volumes c). v_id v = vid \<and> v_host_id v = h \<and> is_stale c vid)"
  by (auto simp: stale_volume_ids_def)

lemma stale_ids_distinct: "distinct (map v_id (volumes c)) \<Longrightarrow> distinct (stale_volume_ids c h)"
  by (simp add: stale_volume_ids_def distinct_map_filter)

section \<open>What one volume's finalize leaves\<close>

text \<open>The entries under the mountpoint that its row totals.\<close>

definition counted :: "catalogue \<Rightarrow> volume \<Rightarrow> fs_entry list" where
  "counted c v = filter (under_dir (v_mountpoint v)) (volume_entries (v_id v) (entries c))"

definition volume_laid_out :: "catalogue \<Rightarrow> volume \<Rightarrow> bool" where
  "volume_laid_out c v \<longleftrightarrow> mount_ok (v_mountpoint v) \<and> placed (v_mountpoint v) (volume_entries (v_id v) (entries c))"

definition closed_with :: "catalogue \<Rightarrow> volume \<Rightarrow> int \<Rightarrow> snapshot \<Rightarrow> snapshot" where
  "closed_with c v now s =
     (if sn_volume_id s = v_id v \<and> sn_finished s = None \<and> counted c v \<noteq> []
      then s\<lparr> sn_total_size := (\<Sum>e\<leftarrow>counted c v. e_size_on_disk e),
             sn_file_count := int (length (filter (\<lambda>e. \<not> e_is_dir e) (counted c v))), sn_finished := Some now \<rparr>
      else s)"

definition same_files :: "catalogue \<Rightarrow> catalogue \<Rightarrow> bool" where
  "same_files c c' \<longleftrightarrow> hosts c' = hosts c \<and> volumes c' = volumes c \<and> entries c' = entries c \<and> changes c' = changes c"

lemma same_files_trans: "same_files a b \<Longrightarrow> same_files b c \<Longrightarrow> same_files a c"
  by (simp add: same_files_def)

lemma counted_cong: "same_files c c' \<Longrightarrow> counted c' v = counted c v"
  by (simp add: same_files_def counted_def)

lemma laid_out_cong: "same_files c c' \<Longrightarrow> volume_laid_out c' v = volume_laid_out c v"
  by (simp add: same_files_def volume_laid_out_def)

lemma closed_with_cong: "same_files c c' \<Longrightarrow> closed_with c' v now s = closed_with c v now s"
  by (simp add: closed_with_def counted_cong)

lemma closed_with_fields [simp]:
  "sn_volume_id (closed_with c v now s) = sn_volume_id s" "sn_started (closed_with c v now s) = sn_started s"
  "sn_id (closed_with c v now s) = sn_id s"
  by (simp_all add: closed_with_def)

lemma under_mount:
  assumes "volume_laid_out c v" "ds = []"
  shows "under_dir (dir_at (v_mountpoint v) ds) = under_dir (v_mountpoint v)"
  using assms by (simp add: dir_at_def)

lemma recompute_rest:
  assumes "recompute_full now vid c = Some (n, c1)"
  shows "same_files c c1" "snapshots c1 = snapshots c" "dup_groups c1 = dup_groups c"
  using assms by (auto simp: recompute_full_def Let_def same_files_def split: option.splits)

text \<open>The mountpoint's row after a recomputation.\<close>

lemma recompute_top:
  assumes run: "recompute_full now (v_id v) c = Some (n, c1)" and vol: "find_row v_id (v_id v) (volumes c) = Some v"
    and lay: "volume_laid_out c v"
  shows "filter (\<lambda>r. ru_volume_id r = v_id v) (rollups c1) = [] \<longleftrightarrow> counted c v = []"
    and "case find_row (\<lambda>r. (ru_volume_id r, ru_path r)) (v_id v, v_mountpoint v) (rollups c1) of
        None \<Rightarrow> counted c v = []
      | Some r \<Rightarrow> counted c v \<noteq> [] \<and> ru_total_size_on_disk r = (\<Sum>e\<leftarrow>counted c v. e_size_on_disk e) \<and>
          ru_file_count r = int (length (filter (\<lambda>e. \<not> e_is_dir e) (counted c v)))"
    and "\<And>r. r \<in> set (rollups c1) \<Longrightarrow> ru_volume_id r = v_id v \<Longrightarrow> ru_computed_at r = now"
    and "filter (\<lambda>r. ru_volume_id r \<noteq> v_id v) (rollups c1) = filter (\<lambda>r. ru_volume_id r \<noteq> v_id v) (rollups c)"
proof -
  let ?m = "v_mountpoint v" and ?es = "volume_entries (v_id v) (entries c)"
  have m: "mount_ok ?m" "placed ?m ?es" using lay by (simp_all add: volume_laid_out_def)
  from rollup_totals_exact [OF run vol m] obtain rows where
    rows: "rollups c1 = filter (\<lambda>r. ru_volume_id r \<noteq> v_id v) (rollups c) @ rows" and
    dist: "distinct (map ru_path rows)" and
    mem: "\<And>r. r \<in> set rows \<longleftrightarrow> (\<exists>ds. let d = dir_at ?m ds; es = filter (under_dir d) ?es
      in list_all clean_part ds \<and> es \<noteq> [] \<and>
        r = \<lparr> ru_volume_id = v_id v, ru_path = d, ru_depth = length ds,
          ru_total_size_logical = (\<Sum>e\<leftarrow>es. e_size_logical e),
          ru_total_size_on_disk = (\<Sum>e\<leftarrow>es. e_size_on_disk e),
          ru_file_count = int (length (filter (\<lambda>e. \<not> e_is_dir e) es)),
          ru_dir_count = int (length (filter e_is_dir es)), ru_computed_at = now \<rparr>)"
    by blast
  have own: "\<And>r. r \<in> set rows \<Longrightarrow> ru_volume_id r = v_id v \<and> ru_computed_at r = now"
    by (auto simp: mem Let_def)
  have below: "filter (under_dir (dir_at ?m ds)) ?es \<noteq> [] \<Longrightarrow> list_all clean_part ds \<Longrightarrow> counted c v \<noteq> []" for ds
  proof -
    assume a: "filter (under_dir (dir_at ?m ds)) ?es \<noteq> []" "list_all clean_part ds"
    then obtain e where e: "e \<in> set ?es" "under_dir (dir_at ?m ds) e" by (auto simp: filter_empty_conv)
    from e(1) m(2) obtain cs where cs: "list_all clean_part cs" "e_path e = dir_at ?m cs" by (auto simp: placed_def)
    have "strict_prefix ds cs" using e(2) under_dir_parts [OF m(1) a(2) cs] cs(2) by simp
    then have "strict_prefix [] cs" by (cases cs) (auto simp: strict_prefix_def)
    then have "under_dir (dir_at ?m []) e" using under_dir_parts [OF m(1) _ cs] cs(2) by simp
    with e(1) show "counted c v \<noteq> []" by (auto simp: counted_def filter_empty_conv dir_at_def)
  qed
  define top where "top = \<lparr> ru_volume_id = v_id v, ru_path = ?m, ru_depth = 0,
          ru_total_size_logical = (\<Sum>e\<leftarrow>counted c v. e_size_logical e),
          ru_total_size_on_disk = (\<Sum>e\<leftarrow>counted c v. e_size_on_disk e),
          ru_file_count = int (length (filter (\<lambda>e. \<not> e_is_dir e) (counted c v))),
          ru_dir_count = int (length (filter e_is_dir (counted c v))), ru_computed_at = now \<rparr>"
  have top: "counted c v \<noteq> [] \<Longrightarrow> top \<in> set rows"
    unfolding mem by (rule exI [of _ "[]"]) (simp add: Let_def top_def counted_def dir_at_def)
  have none: "counted c v = [] \<Longrightarrow> rows = []"
  proof -
    assume "counted c v = []"
    then have "\<And>r. r \<notin> set rows" using below by (auto simp: mem Let_def)
    then show "rows = []" by (cases rows) auto
  qed
  show "filter (\<lambda>r. ru_volume_id r = v_id v) (rollups c1) = [] \<longleftrightarrow> counted c v = []"
  proof (cases "counted c v = []")
    case True
    then show ?thesis using none by (simp add: rows)
  next
    case False
    then show ?thesis using top own by (auto simp: rows filter_empty_conv)
  qed
  show "\<And>r. r \<in> set (rollups c1) \<Longrightarrow> ru_volume_id r = v_id v \<Longrightarrow> ru_computed_at r = now"
    using own by (auto simp: rows)
  show "filter (\<lambda>r. ru_volume_id r \<noteq> v_id v) (rollups c1) = filter (\<lambda>r. ru_volume_id r \<noteq> v_id v) (rollups c)"
    using own by (auto simp: rows filter_empty_conv)
  have skip: "find_row (\<lambda>r. (ru_volume_id r, ru_path r)) (v_id v, ?m) (rollups c1) =
      find_row (\<lambda>r. (ru_volume_id r, ru_path r)) (v_id v, ?m) rows"
  proof -
    have "find_row (\<lambda>r. (ru_volume_id r, ru_path r)) (v_id v, ?m) (filter (\<lambda>r. ru_volume_id r \<noteq> v_id v) (rollups c)) = None"
      by (simp add: find_row_None)
    then show ?thesis by (simp add: rows find_row_append)
  qed
  show "case find_row (\<lambda>r. (ru_volume_id r, ru_path r)) (v_id v, ?m) (rollups c1) of
        None \<Rightarrow> counted c v = []
      | Some r \<Rightarrow> counted c v \<noteq> [] \<and> ru_total_size_on_disk r = (\<Sum>e\<leftarrow>counted c v. e_size_on_disk e) \<and>
          ru_file_count r = int (length (filter (\<lambda>e. \<not> e_is_dir e) (counted c v)))"
  proof (cases "counted c v = []")
    case True
    then show ?thesis using none unfolding skip by (simp add: find_row_def)
  next
    case False
    have "map (\<lambda>r. (ru_volume_id r, ru_path r)) rows = map (Pair (v_id v)) (map ru_path rows)"
      using own by simp
    then have "distinct (map (\<lambda>r. (ru_volume_id r, ru_path r)) rows)"
      using dist by (simp only: distinct_map) (simp add: inj_on_def)
    then have "find_row (\<lambda>r. (ru_volume_id r, ru_path r)) (v_id v, ?m) rows = Some top"
      using top [OF False] by (subst find_row_Some) (simp_all add: top_def)
    with False show ?thesis by (simp add: skip top_def)
  qed
qed

lemma stats_close:
  assumes run: "recompute_full now (v_id v) c = Some (n, c1)" and vol: "find_row v_id (v_id v) (volumes c) = Some v"
    and lay: "volume_laid_out c v"
  shows "finalize_snapshot_stats later (v_id v) c1 = c1\<lparr> snapshots := map (closed_with c v later) (snapshots c1) \<rparr>"
proof -
  have vol1: "find_row v_id (v_id v) (volumes c1) = Some v"
    using recompute_rest(1) [OF run] vol by (simp add: same_files_def)
  note top = recompute_top(2) [OF run vol lay]
  show ?thesis
  proof (cases "find_row (\<lambda>r. (ru_volume_id r, ru_path r)) (v_id v, v_mountpoint v) (rollups c1)")
    case None
    with top have "counted c v = []" by simp
    then have "closed_with c v later = (\<lambda>s. s)" by (simp add: closed_with_def fun_eq_iff)
    with None vol1 show ?thesis by (simp add: finalize_snapshot_stats_def)
  next
    case (Some r)
    with top have "update_where (\<lambda>s. sn_volume_id s = v_id v \<and> sn_finished s = None) (close_snapshot r later) ss =
        map (closed_with c v later) ss" for ss
      by (simp add: update_where_def closed_with_def close_snapshot_def)
    with Some vol1 show ?thesis by (simp add: finalize_snapshot_stats_def)
  qed
qed

section \<open>What the loop leaves\<close>

definition settled :: "catalogue \<Rightarrow> (int \<Rightarrow> int) \<Rightarrow> int list \<Rightarrow> snapshot \<Rightarrow> snapshot" where
  "settled c finished vids s =
     (if sn_volume_id s \<in> set vids
      then (case find_row v_id (sn_volume_id s) (volumes c) of
              None \<Rightarrow> s
            | Some v \<Rightarrow> closed_with c v (finished (v_id v)) s)
      else s)"

definition rollups_of :: "catalogue \<Rightarrow> int \<Rightarrow> subtree_rollup list" where
  "rollups_of c vid = filter (\<lambda>r. ru_volume_id r = vid) (rollups c)"

lemma settled_started [simp]:
  "sn_started (settled c finished vids s) = sn_started s" "sn_volume_id (settled c finished vids s) = sn_volume_id s"
  by (simp_all add: settled_def split: option.splits)

lemma settled_step:
  assumes "same_files c c1" "find_row v_id (v_id v) (volumes c) = Some v" "v_id v \<notin> set vids"
  shows "settled c1 finished vids (closed_with c v (finished (v_id v)) s) = settled c finished (v_id v # vids) s"
proof -
  have "closed_with c1 w now t = closed_with c w now t" for w now t using closed_with_cong [OF assms(1)] .
  moreover have "volumes c1 = volumes c" using assms(1) by (simp add: same_files_def)
  ultimately show ?thesis using assms(2,3)
    by (cases "sn_volume_id s = v_id v") (auto simp: settled_def closed_with_def split: option.splits)
qed

lemma filter_other:
  assumes "filter (\<lambda>r. f r \<noteq> a) xs = filter (\<lambda>r. f r \<noteq> a) ys" "b \<noteq> a"
  shows "filter (\<lambda>r. f r = b) xs = filter (\<lambda>r. f r = b) ys"
proof -
  have "filter (\<lambda>r. f r = b) zs = filter (\<lambda>r. f r = b) (filter (\<lambda>r. f r \<noteq> a) zs)" for zs
    using assms(2) by (induction zs) auto
  with assms(1) show ?thesis by metis
qed

lemma finalize_loop:
  assumes "distinct vids" "\<And>vid. vid \<in> set vids \<Longrightarrow> \<exists>v. find_row v_id vid (volumes c) = Some v \<and> volume_laid_out c v"
  shows "\<exists>m c'. finalize_volumes computed finished vids n c = Some (m, c') \<and> same_files c c' \<and>
    dup_groups c' = dup_groups c \<and> snapshots c' = map (settled c finished vids) (snapshots c) \<and>
    (\<forall>vid. vid \<notin> set vids \<longrightarrow> rollups_of c' vid = rollups_of c vid) \<and>
    (\<forall>v. v_id v \<in> set vids \<and> find_row v_id (v_id v) (volumes c) = Some v \<longrightarrow>
      (rollups_of c' (v_id v) = [] \<longleftrightarrow> counted c v = []) \<and>
      list_all (\<lambda>r. ru_computed_at r = computed (v_id v)) (rollups_of c' (v_id v)))"
  using assms
proof (induction vids arbitrary: n c)
  case Nil
  have "settled c finished [] = (\<lambda>s. s)" by (simp add: settled_def fun_eq_iff)
  then show ?case by (simp add: same_files_def)
next
  case (Cons vid vids)
  obtain v where v: "find_row v_id vid (volumes c) = Some v" "volume_laid_out c v" using Cons.prems(2) by auto
  then have vid: "vid = v_id v" by (auto dest: find_row_mem)
  obtain k c1 where run: "recompute_full (computed vid) vid c = Some (k, c1)"
    using v(1) by (simp add: recompute_full_def Let_def)
  let ?c2 = "c1\<lparr> snapshots := map (closed_with c v (finished vid)) (snapshots c1) \<rparr>"
  note run' = run [unfolded vid] and v' = v [unfolded vid]
  have stats: "finalize_snapshot_stats (finished vid) vid c1 = ?c2"
    using stats_close [OF run' v'] by (simp add: vid)
  have same: "same_files c ?c2" using recompute_rest(1) [OF run] by (simp add: same_files_def)
  have vols: "volumes ?c2 = volumes c" using same by (simp add: same_files_def)
  have laid: "\<exists>w. find_row v_id u (volumes ?c2) = Some w \<and> volume_laid_out ?c2 w" if "u \<in> set vids" for u
    using Cons.prems(2) [of u] that unfolding vols laid_out_cong [OF same] by simp
  have "distinct vids" using Cons.prems(1) by simp
  from Cons.IH [OF this laid, of "n + k"] obtain m c' where
    fin: "finalize_volumes computed finished vids (n + k) ?c2 = Some (m, c')" and
    sf: "same_files ?c2 c'" and dg: "dup_groups c' = dup_groups ?c2" and
    sn: "snapshots c' = map (settled ?c2 finished vids) (snapshots ?c2)" and
    others: "\<And>u. u \<notin> set vids \<Longrightarrow> rollups_of c' u = rollups_of ?c2 u" and
    done_: "\<And>w. v_id w \<in> set vids \<Longrightarrow> find_row v_id (v_id w) (volumes ?c2) = Some w \<Longrightarrow>
      (rollups_of c' (v_id w) = [] \<longleftrightarrow> counted ?c2 w = []) \<and>
      list_all (\<lambda>r. ru_computed_at r = computed (v_id w)) (rollups_of c' (v_id w))"
    by blast
  have notin: "v_id v \<notin> set vids" using Cons.prems(1) vid by simp
  have snaps: "snapshots c' = map (settled c finished (vid # vids)) (snapshots c)"
    using settled_step [OF same v'(1) notin] by (simp add: sn vid recompute_rest(2) [OF run])
  have rest: "rollups_of c' u = rollups_of c u" if "u \<notin> set (vid # vids)" for u
    using others [of u] that filter_other [OF recompute_top(4) [OF run' v'], of u]
    by (simp add: rollups_of_def vid)
  have mine: "rollups_of c' (v_id v) = rollups_of c1 (v_id v)" using others [OF notin] by (simp add: rollups_of_def)
  have here: "(rollups_of c' (v_id v) = [] \<longleftrightarrow> counted c v = []) \<and>
      list_all (\<lambda>r. ru_computed_at r = computed (v_id v)) (rollups_of c' (v_id v))"
    unfolding mine using recompute_top(1,3) [OF run' v'] by (auto simp: rollups_of_def list_all_iff)
  have all: "(rollups_of c' (v_id w) = [] \<longleftrightarrow> counted c w = []) \<and>
      list_all (\<lambda>r. ru_computed_at r = computed (v_id w)) (rollups_of c' (v_id w))"
    if "v_id w \<in> set (vid # vids)" "find_row v_id (v_id w) (volumes c) = Some w" for w
  proof (cases "v_id w = vid")
    case True
    with that(2) v(1) have "w = v" by simp
    with here show ?thesis by simp
  next
    case False
    with that have "v_id w \<in> set vids" by simp
    from done_ [OF this] that(2) show ?thesis by (simp add: vols counted_cong [OF same])
  qed
  have "finalize_volumes computed finished (vid # vids) n c = Some (m, c')" by (simp add: run stats fin)
  moreover have "dup_groups c' = dup_groups c" using dg recompute_rest(3) [OF run] by simp
  ultimately show ?case using same_files_trans [OF same sf] snaps rest all by blast
qed

lemma rebuild_dedup_rest:
  assumes "rebuild_dedup b hid c = (k, c')"
  shows "same_files c c'" "snapshots c' = snapshots c" "rollups c' = rollups c"
proof -
  have "same_files c c' \<and> snapshots c' = snapshots c \<and> rollups c' = rollups c"
    using assms by (auto simp: rebuild_dedup_def same_files_def dedup_rebuild_def dedup_build_def Let_def
        build_loop_writes clear_scope_def split: if_splits)
  then show "same_files c c'" "snapshots c' = snapshots c" "rollups c' = rollups c" by auto
qed

section \<open>The guarantee\<close>

text \<open>The instants of one finalize come after the starts of the snapshots it closes.\<close>

definition clock_after :: "catalogue \<Rightarrow> (int \<Rightarrow> int) \<Rightarrow> bool" where
  "clock_after c computed \<longleftrightarrow> list_all (\<lambda>s. sn_started s < computed (sn_volume_id s)) (snapshots c)"

lemma last_started_map:
  assumes "snapshots c' = map f (snapshots c)" "\<And>s. sn_started (f s) = sn_started s"
    "\<And>s. sn_volume_id (f s) = sn_volume_id s"
  shows "last_started c' vid = last_started c vid"
proof -
  have "map sn_started (filter (\<lambda>s. sn_volume_id s = vid) (map f ss)) =
      map sn_started (filter (\<lambda>s. sn_volume_id s = vid) ss)" for ss
    by (induction ss) (simp_all add: assms(2,3))
  then show ?thesis by (simp add: last_started_def assms(1))
qed

lemma last_started_mem:
  assumes "last_started c vid = Some t"
  shows "\<exists>s \<in> set (snapshots c). sn_volume_id s = vid \<and> sn_started s = t"
proof -
  let ?xs = "map sn_started (filter (\<lambda>s. sn_volume_id s = vid) (snapshots c))"
  have "?xs \<noteq> []" "t = Max (set ?xs)" using assms by (simp_all add: last_started_def max_opt_Some)
  then have "t \<in> set ?xs" by (metis List.finite_set Max_in set_empty)
  then show ?thesis by auto
qed

lemma stale_after:
  assumes "last_started c' vid = last_started c vid" "clock_after c computed" "is_stale c vid"
    and "list_all (\<lambda>r. ru_computed_at r = computed vid) (rollups_of c' vid)"
  shows "is_stale c' vid \<longleftrightarrow> rollups_of c' vid = []"
proof -
  obtain t where t: "last_started c vid = Some t" using assms(3) by (auto simp: is_stale_def split: option.splits)
  then have lt: "t < computed vid"
    using last_started_mem [OF t] assms(2) by (auto simp: clock_after_def list_all_iff)
  have "last_computed c' vid = (if rollups_of c' vid = [] then None else Some (computed vid))"
    using assms(4) by (auto simp: last_computed_def rollups_of_def list_all_iff intro!: max_opt_const)
  with t lt assms(1) show ?thesis by (simp add: is_stale_def)
qed


section \<open>A run\<close>

text \<open>A volume with files, and an empty one: the first is settled, the second stays stale for good.\<close>

definition finalize_catalogue :: catalogue where
  "finalize_catalogue = rollup_catalogue\<lparr>
     hosts := [\<lparr> h_id = 1, h_name = ''nas'', h_os = None, h_agent_version = None, h_fingerprint = ''fp'',
       h_last_seen = None, h_facts = None \<rparr>],
     volumes := [rollup_volume, rollup_volume\<lparr> v_id := 2, v_mountpoint := ''/e'' \<rparr>],
     snapshots := map (\<lambda>i. \<lparr> sn_id = i, sn_host_id = 1, sn_volume_id = i, sn_mode = ''full'', sn_started = 3,
       sn_finished = None, sn_total_size = 0, sn_file_count = 0 \<rparr>) [1, 2] \<rparr>"

lemma sample_stale: "stale_volume_ids finalize_catalogue 1 = [1, 2]"
  by code_simp

lemma sample_counted:
  "map (\<lambda>v. map e_id (counted finalize_catalogue v)) (volumes finalize_catalogue) = [[1, 2, 3], []]"
  by code_simp

lemma sample_left:
  "sort (map v_id (filter (\<lambda>v. v_host_id v = 1 \<and> is_stale finalize_catalogue (v_id v) \<and>
     counted finalize_catalogue v = []) (volumes finalize_catalogue))) = [2]"
  by code_simp

lemma sample_settled:
  "map (\<lambda>s. (sn_total_size s, sn_file_count s, sn_finished s))
     (map (settled finalize_catalogue (\<lambda>_. 8) [1, 2]) (snapshots finalize_catalogue)) = [(5, 2, Some 8), (0, 0, None)]"
  by code_simp


text \<open>An empty volume with a snapshot is stale before and after, and each finalize appends one more
  point to its history.\<close>

lemma empty_volume_grows_history:
  assumes "recompute_full now vid c = Some (n, c')"
  shows "length (history c') = Suc (length (history c))"
  using assms by (auto simp: recompute_full_def Let_def split: option.splits)

end
