(* ===== verification/Spec2Isabelle.thy ===== *)
theory Spec2Isabelle
  imports Audit_Store Signing Executor_Guards WinPaths Agent_Config Orchestrator Identity_Facts Dedup Churn Dedup_Service Query_Facts Scan_Lease Mirror Scan_Facts Pull_Queue Finalize
begin

text \<open>
  Verification of Fathomline.

  Fathomline keeps a catalogue of the files of many machines. An agent on each machine walks its
  volumes, keeps what it found in a staging queue and pushes it to the core. The core stores one row
  for every file and directory, rolls the sizes up, reports duplicates, shows previews and live
  listings to those whose grants reach them, and turns a confirmed plan into a signed job. The agent
  verifies the job and carries it out under an audit trail of its own, which the core stores as a
  hash chain. Paths below are under \<open>src/src/fathom/\<close>.

  \<^bold>\<open>How the theories are laid out.\<close> \<open>Prelude\<close> (Python strings, dictionaries, results that carry an
  exception), \<open>Json\<close> (\<open>json.dumps\<close> with its escapes and UTF-8, and what its text determines),
  \<open>Base64\<close> and \<open>Timestamps\<close> are the shared vocabulary. A component has a theory of definitions in the
  order of its source, with the lemmas beside them; where the facts are many they have a theory with
  the suffix \<open>_Facts\<close>. A function that raises returns \<open>Inl\<close> of the exception, an early return is a
  branch, and a method takes and returns the record of its object's state. Locales state the interfaces:
  what a chained log, a nonce ledger, a signer with its verifier, the core's ingest API and a file fetcher
  owe their clients. Each is interpreted on the model's own definitions.

  \<^bold>\<open>Audit and remediation.\<close>
  \<^item> \<open>Audit_Log\<close> (\<open>core/audit.py\<close>): records, their canonical text, the chain, its head and the
    verifier. Two verifying logs with the same end agree record by record, or a collision of the digest
    is exhibited.
  \<^item> \<open>Audit_Store\<close> (\<open>core/audit_store.py\<close>): the table with its unique constraints, rival writers
    between the read of the head and the insert, the retries (\<open>MAX_APPEND_RETRIES\<close> attempts), signed
    checkpoints. The chain is never forked and an append is done at most once.
  \<^item> \<open>Jobs\<close>, \<open>Signing\<close>, \<open>Nonces\<close> (\<open>core/remediation/\<close> \<open>plan.py\<close>, \<open>job.py\<close>, \<open>signing.py\<close>,
    \<open>nonce_store.py\<close>): plans, canonical bytes, both algorithms and the order of the checks; the three
    ledgers as interpretations of one protocol. A nonce is accepted once, over restarts too.
  \<^item> \<open>Posix\<close>, \<open>Pathlib\<close>, \<open>Executor\<close>, \<open>Executor_Guards\<close> (\<open>agent/actor/executor.py\<close>): the executor
    over a model of inodes, names and descriptors in which other processes may change the tree between
    any two calls and any call may fail (\<open>w_env\<close>, \<open>w_fault\<close>). Every change is preceded by its pending audit
    record; a move loses or replaces nothing; a hard delete removes what was verified.
  \<^item> \<open>Listener\<close> (\<open>agent/actor/\<close> \<open>planner.py\<close>, \<open>dispatch.py\<close>, \<open>listener.py\<close>, \<open>listen.py\<close>): the dry
    run, the dispatch of a job and the loop; only a verified and fresh job of this host has an effect.
  \<^item> \<open>Job_Queue\<close> (\<open>core/remediation/job_queue.py\<close>, \<open>api/routers/agent_jobs.py\<close>) refines an abstract
    list of job cards; \<open>Orchestrator\<close> (\<open>core/remediation/orchestrator.py\<close>) composes dry run, dispatch,
    confirmation and the audit summary.

  \<^bold>\<open>Paths and configuration.\<close>
  \<^item> \<open>Paths\<close> (\<open>security/paths.py\<close>) and \<open>WinPaths\<close> (\<open>security/winpaths.py\<close>) over models of \<open>posixpath\<close>
    and \<open>ntpath\<close>: an accepted join stays at or under its base.
  \<^item> \<open>Agent_Config\<close> (\<open>agent/config.py\<close>): fields, validators, scopes and the operator's override.

  \<^bold>\<open>Who may do what.\<close>
  \<^item> \<open>Access\<close> (\<open>auth/principal.py\<close>, \<open>auth/scope.py\<close>, \<open>api/auth_deps.py\<close>, \<open>auth/mfa.py\<close>): the
    permission matrix, grants, filters and guards; a filter shows the union of what the grants cover.
  \<^item> \<open>Ip_Network\<close>, \<open>Identity\<close>, \<open>Identity_Facts\<close> (\<open>auth/\<close>): users, sessions, the local and the forward
    provider, login. A request is a user's exactly when its token is that of a live session.

  \<^bold>\<open>From the disk to the catalogue.\<close>
  \<^item> \<open>Tree_Walk\<close> (\<open>backends/posix.py\<close>): the walk by a pool of workers, any interleaving of them.
  \<^item> \<open>Staging\<close> (\<open>agent/staging/store.py\<close>): tables and queries of the staging queue.
  \<^item> \<open>Feed\<close> (\<open>agent/reader/feed.py\<close>): change events of one incremental cycle.
  \<^item> \<open>Supervisor\<close>, \<open>Full_Bit\<close>, \<open>Scan\<close>, \<open>Scan_Facts\<close> (\<open>agent/reader/\<close>, \<open>agent/runner.py\<close>): pausing
    under load, the progressive hashing, the scanners and the run up to its summary.
  \<^item> \<open>Push\<close>, \<open>Push_Facts\<close> (\<open>agent/transport/push.py\<close>): frames, retries and the drain of the queue.
  \<^item> \<open>Catalogue\<close> (\<open>core/catalogue/models.py\<close>), \<open>Ingest\<close>, \<open>Ingest_Facts\<close>, \<open>Churn\<close>
    (\<open>core/ingest.py\<close>, \<open>core/incremental.py\<close>): the tables and what a batch does to them.
  \<^item> \<open>Core_Api\<close>, \<open>Core_Ingest\<close>, \<open>Mirror\<close>: the ingest route as the server that the push client talks to
    over a network that loses requests and replies; after a drain the core shows the tree.
  \<^item> \<open>Scan_Lease\<close> (\<open>core/scan_coordinator.py\<close>, \<open>core/agent_runs.py\<close>): leases of heavy scans.

  \<^bold>\<open>What the catalogue shows.\<close>
  \<^item> \<open>Rollup\<close>, \<open>Finalize\<close> (\<open>core/rollup.py\<close>, \<open>core/finalize.py\<close>): a directory's row is the total of
    what is present beneath it; a finalize closes the snapshots of the stale volumes with those totals.
  \<^item> \<open>Like\<close>, \<open>Query\<close>, \<open>Query_Facts\<close> (\<open>core/query.py\<close>, \<open>api/routers/\<close>): SQL \<open>LIKE\<close>, the read queries
    and their routes, the pages of the duplicate listing.
  \<^item> \<open>Dedup\<close>, \<open>Dedup_Service\<close> (\<open>core/dedup.py\<close>, \<open>core/dedup_service.py\<close>): the staged search equals one
    grouping; the report and its keepers.

  \<^bold>\<open>Content on demand.\<close>
  \<^item> \<open>Grants\<close> (\<open>preview/grant.py\<close>, \<open>core/browse.py\<close>): what is signed when one file or one listing is
    asked for, and how the agent verifies it; no message of one kind is one of another.
  \<^item> \<open>Preview_Fetch\<close> (\<open>preview/local_fetch.py\<close>, \<open>agent/preview_serve.py\<close>): the read of one file under
    interference, and the agent's loop.
  \<^item> \<open>Preview\<close> (\<open>preview/service.py\<close>, \<open>preview/cache.py\<close>, \<open>api/routers/preview.py\<close>): type detection,
    the encrypted cache, the service and its route.
  \<^item> \<open>Browse_Lister\<close> (\<open>agent/browse_lister.py\<close>, \<open>agent/browse_serve.py\<close>): the bounded listing.
  \<^item> \<open>Pull_Queue\<close> (\<open>preview/pull.py\<close>, \<open>core/browse.py\<close>): the rendezvous of a waiting request with the
    answer of the host it was addressed to.

  \<^bold>\<open>State.\<close> Tables are lists of rows in insertion order, with the unique constraints as predicates that
  every operation is shown to keep (\<open>catalogue_ok\<close>, \<open>auth_ok\<close>, \<open>groups_ok\<close>); surrogate ids are counters.
  Dictionaries are association lists in insertion order, or maps where the order is never seen. A
  \<open>datetime\<close> is naive or aware, in microseconds. Asynchronous code is cut at its awaits: a step is what one
  task does between two of them, and a history is a list of steps in any order. Requests to the core are
  whole transactions unless a theory says otherwise; rival writers of the audit table are explicit.

  \<^bold>\<open>Bounds and fuel.\<close> Loops are structural or have a proved measure: the blocks of a read decrease with
  what is left below the cap, the drain with the rows not yet marked, the sizing walk with the size of
  the stack of trees, the workers of a walk with the directories not yet listed. The resolution of links in the file
  system model follows at most \<open>MAXSYMLINKS\<close> links, as the kernel does. The check that a directory is not moved
  beneath itself climbs at most \<open>PATH_MAX\<close> parents, more than any path has. Pages of a listing end because each cursor lies behind the last. The
  service loops of the agent (poll, serve, pause) run over the finite list of what their environment
  brings; they end when it does, whatever it brings. Integers of Python are unbounded and stay so; the columns
  that SQLite or PostgreSQL would bound are compared where the code compares them.

  \<^bold>\<open>Parameters.\<close> BLAKE3, HMAC, Ed25519, Argon2, Fernet, the sandbox and its renderers, the HTTP client, the
  clock, random nonces and the readings of the machine's load are arguments of the definitions. What is
  assumed of them is a premise of the theorem that needs it: that what was sealed unseals, that a signature
  verifies when it was made with the key, that two texts with one digest are a collision (exhibited, never
  excluded). Floating-point numbers occur as rationals or, for file times, as multiples of the least
  double; the test against \<open>0.85\<close> is exact for the counts it compares.

  \<^bold>\<open>Not modelled.\<close> SQLite and the disk under it do not fail, file permissions and modes are left out of the
  file system, and log lines are not part of any state. Deployment over SSH, the renderers in their sandbox, the
  concierge and its models, notifications, host adapters, and the backends over rclone, SMB, SFTP, ZFS and NTFS
  drive programs and services that are not part of this repository. The organize proposals, the posture and
  suitability reports and the charts read the catalogue and change no file. The web interface, the
  migrations, the scripts and the start-up of the processes are glue. Within the modelled parts: the OIDC
  flow and TOTP call third-party packages; the pauses of the load supervisor are not steps of a
  scan (they delay it and change nothing else); the JSONL file of the agent's audit sink is the list of its records.
\<close>

end
